(* ===== verification/Prelude.thy ===== *)
theory Prelude
  imports Main "HOL-Library.Word"
begin

text \<open>
  Shared vocabulary of the development: the machine integer types of the i386 target,
  the collections of facts that carry the component proofs, and generic lemmas on words
  and lists that several components use.
\<close>

unbundle bit_operations_syntax

subsection \<open>Machine integers\<close>

text \<open>
  \<^verbatim>\<open>uint8_t\<close>, \<^verbatim>\<open>uint16_t\<close>, \<^verbatim>\<open>uint32_t\<close> and \<^verbatim>\<open>uint64_t\<close> are words of their width; a
  pointer and \<^verbatim>\<open>size_t\<close> are 32 bits wide. A signed \<^verbatim>\<open>int\<close> is the same word, read with
  \<^term>\<open>sint\<close> where the source compares or divides it as a signed value.
\<close>

type_synonym u8 = "8 word"
type_synonym u16 = "16 word"
type_synonym u32 = "32 word"
type_synonym u64 = "64 word"
type_synonym s32 = "32 word"

text \<open>The null pointer, and the value \<^verbatim>\<open>-1\<close> the searches return when nothing is found.\<close>

abbreviation (input) null_ptr :: u32 where "null_ptr \<equiv> 0"

named_theorems inv_intros \<open>an operation keeps the invariant of its component\<close>
named_theorems frame_simps \<open>fields and observations an operation leaves alone\<close>

subsection \<open>Words read as natural numbers\<close>

lemma unat_of_nat_small [simp]: "n < 2 ^ 32 \<Longrightarrow> unat (of_nat n :: u32) = n"
  by (simp add: unat_of_nat take_bit_nat_eq_self)

lemma unat_u32_bound: "unat (w :: u32) < 2 ^ 32"
  using unsigned_less [of w] by simp

lemma unat_add_small: "unat a + unat b < 2 ^ 32 \<Longrightarrow> unat (a + b :: u32) = unat a + unat b"
  by (simp add: unat_word_ariths)

lemma unat_inc: "unat a < 2 ^ 32 - 1 \<Longrightarrow> unat (a + 1 :: u32) = Suc (unat a)"
  by (simp add: unat_word_ariths)

lemma unat_dec: "0 < unat a \<Longrightarrow> unat (a - 1 :: u32) = unat a - 1"
  by (metis One_nat_def Suc_leI unat_1 unat_sub word_le_nat_alt)

lemma unat_mult_small: "unat a * unat b < 2 ^ 32 \<Longrightarrow> unat (a * b :: u32) = unat a * unat b"
  by (simp add: unat_word_ariths)

lemma of_nat_not_minus1: "n < 2 ^ 32 - 1 \<Longrightarrow> (of_nat n :: u32) \<noteq> -1"
proof
  assume "n < 2 ^ 32 - 1" and "(of_nat n :: u32) = -1"
  then have "unat (of_nat (Suc n) :: u32) = Suc n" and "(of_nat (Suc n) :: u32) = 0"
    by (auto simp del: of_nat_Suc) (simp add: of_nat_Suc)
  then show False by simp
qed

lemma unat_ucast64: "unat (ucast (w :: u32) :: u64) = unat w"
  using unat_u32_bound [of w] by (simp add: unsigned_ucast_eq take_bit_nat_eq_self)

lemma sint_eq_unat: "unat (w :: u32) < 2 ^ 31 \<Longrightarrow> sint w = int (unat w)"
proof -
  assume "unat w < 2 ^ 31"
  then have "uint w < 2 ^ 31"
    by (metis of_nat_less_iff of_nat_numeral of_nat_power uint_nat)
  then have "signed_take_bit 31 (uint w) = uint w"
    by (intro signed_take_bit_int_eq_self) (auto intro: order_trans [OF _ uint_ge_0])
  then show ?thesis by (simp add: sint_uint flip: uint_nat)
qed

lemma sint_of_nat_small: "n < 2 ^ 31 \<Longrightarrow> sint (of_nat n :: u32) = int n"
  by (simp add: sint_eq_unat)

lemma bit_31_iff: "bit w 31 \<longleftrightarrow> 2 ^ 31 \<le> unat (w :: u32)"
proof -
  have "bit w 31 \<longleftrightarrow> bit (unat w) 31" by (simp add: bit_unsigned_iff)
  also have "\<dots> \<longleftrightarrow> odd (unat w div 2 ^ 31)" by (simp add: bit_iff_odd)
  also have "\<dots> \<longleftrightarrow> 2 ^ 31 \<le> unat w"
  proof (cases "2 ^ 31 \<le> unat w")
    case True
    with unat_u32_bound [of w] have "unat w div 2 ^ 31 = 1" by (intro div_nat_eqI) auto
    with True show ?thesis by simp
  qed simp
  finally show ?thesis .
qed

lemma sint_neg_iff: "sint (w :: u32) < 0 \<longleftrightarrow> 2 ^ 31 \<le> unat w"
  using bit_last_iff [of w] bit_31_iff by simp

text \<open>Against a bound below 2^31, the signed range check is an unsigned comparison.\<close>

lemma sint_range_iff:
  assumes "unat (m :: u32) < 2 ^ 31"
  shows "0 \<le> sint w \<and> sint w < sint m \<longleftrightarrow> unat (w :: u32) < unat m"
proof (cases "unat w < 2 ^ 31")
  case True
  then have "sint w = int (unat w)" by (rule sint_eq_unat)
  moreover have "sint m = int (unat m)" using assms by (rule sint_eq_unat)
  ultimately show ?thesis by linarith
next
  case False
  with assms sint_neg_iff [of w] show ?thesis by auto
qed

lemma of_nat_u32_inj:
  "m < 2 ^ 32 \<Longrightarrow> n < 2 ^ 32 \<Longrightarrow> (of_nat m :: u32) = of_nat n \<longleftrightarrow> m = n"
  by (metis unat_of_nat_small)

subsection \<open>Single bits of a word\<close>

text \<open>The source tests, sets and clears a bit with the mask \<^verbatim>\<open>1u << n\<close>.\<close>

lemma mask_test [simp]: "w AND 2 ^ n = 0 \<longleftrightarrow> \<not> bit (w :: u32) n"
  by (simp add: and_exp_eq_0_iff_not_bit)

lemma bit_set_iff: "n < 32 \<Longrightarrow> bit (w OR 2 ^ n) m \<longleftrightarrow> n = m \<or> bit (w :: u32) m"
  by (auto simp: bit_simps)

lemma bit_clear_iff: "bit (w AND NOT (2 ^ n)) m \<longleftrightarrow> n \<noteq> m \<and> bit (w :: u32) m"
  by (auto simp: bit_simps dest: bit_imp_le_length)

lemma all_ones_iff: "w = (0xffffffff :: u32) \<longleftrightarrow> (\<forall>n<32. bit w n)"
proof
  assume "\<forall>n<32. bit w n"
  then have "w = -1" by (intro bit_word_eqI) simp
  then show "w = 0xffffffff" by simp
next
  assume "w = 0xffffffff"
  then have "w = -1" by simp
  then show "\<forall>n<32. bit w n" by simp
qed

end
