(* ===== verification/CString.thy ===== *)
theory CString
  imports Prelude "HOL-Library.Sublist" "HOL-Library.List_Lexorder"
begin

text \<open>
  The C string library, \<^verbatim>\<open>stdlib/string/*.c\<close>, on a flat byte memory with 32-bit addresses
  (\<^verbatim>\<open>size_t\<close> is 32 bits, \<^verbatim>\<open>char\<close> is signed). A loop that stops only at a byte value is a
  \<^theory_text>\<open>partial_function\<close>: \<open>None\<close> is a call that never returns. \<open>cstr m s xs\<close> says that the
  NUL-terminated string at \<open>s\<close> is \<open>xs\<close>; the specifications are list functions.
\<close>

subsection \<open>Memory\<close>

type_synonym bytes = "u32 \<Rightarrow> u8"

subsection \<open>Memory blocks\<close>

fun memcpy_loop :: "nat \<Rightarrow> bytes \<Rightarrow> u32 \<Rightarrow> u32 \<Rightarrow> bytes" where
  "memcpy_loop 0 m dest src = m"
| "memcpy_loop (Suc n) m dest src = memcpy_loop n (m(dest := m src)) (dest + 1) (src + 1)"

definition memcpy :: "bytes \<Rightarrow> u32 \<Rightarrow> u32 \<Rightarrow> u32 \<Rightarrow> u32 \<times> bytes" where
  "memcpy m s1 s2 n = (s1, memcpy_loop (unat n) m s1 s2)"

fun memmove_down :: "nat \<Rightarrow> bytes \<Rightarrow> u32 \<Rightarrow> u32 \<Rightarrow> bytes" where
  "memmove_down 0 m dest src = m"
| "memmove_down (Suc n) m dest src = memmove_down n (m(dest - 1 := m (src - 1))) (dest - 1) (src - 1)"

definition memmove :: "bytes \<Rightarrow> u32 \<Rightarrow> u32 \<Rightarrow> u32 \<Rightarrow> u32 \<times> bytes" where
  "memmove m s1 s2 n =
     (s1, if s1 \<le> s2 then memcpy_loop (unat n) m s1 s2
          else memmove_down (unat n) m (s1 + n) (s2 + n))"

fun memset_loop :: "nat \<Rightarrow> bytes \<Rightarrow> u32 \<Rightarrow> u8 \<Rightarrow> bytes" where
  "memset_loop 0 m p c = m"
| "memset_loop (Suc n) m p c = memset_loop n (m(p := c)) (p + 1) c"

definition memset :: "bytes \<Rightarrow> u32 \<Rightarrow> s32 \<Rightarrow> u32 \<Rightarrow> u32 \<times> bytes" where
  "memset m s c n = (s, memset_loop (unat n) m s (ucast c))"

fun memchr_loop :: "nat \<Rightarrow> bytes \<Rightarrow> u32 \<Rightarrow> u8 \<Rightarrow> u32" where
  "memchr_loop 0 m p c = null_ptr"
| "memchr_loop (Suc n) m p c = (if m p = c then p else memchr_loop n m (p + 1) c)"

definition memchr :: "bytes \<Rightarrow> u32 \<Rightarrow> s32 \<Rightarrow> u32 \<Rightarrow> u32" where
  "memchr m s c n = memchr_loop (unat n) m s (ucast c)"

fun memcmp_loop :: "nat \<Rightarrow> bytes \<Rightarrow> u32 \<Rightarrow> u32 \<Rightarrow> int" where
  "memcmp_loop 0 m p1 p2 = 0"
| "memcmp_loop (Suc n) m p1 p2 =
     (if m p1 \<noteq> m p2 then uint (m p1) - uint (m p2) else memcmp_loop n m (p1 + 1) (p2 + 1))"

definition memcmp :: "bytes \<Rightarrow> u32 \<Rightarrow> u32 \<Rightarrow> u32 \<Rightarrow> int" where
  "memcmp m s1 s2 n = memcmp_loop (unat n) m s1 s2"

subsection \<open>Lengths and copies\<close>

partial_function (option) strlen_loop :: "bytes \<Rightarrow> u32 \<Rightarrow> u32 \<Rightarrow> u32 option" where
  [code]: "strlen_loop m s rc = (if m (s + rc) \<noteq> 0 then strlen_loop m s (rc + 1) else Some rc)"

definition strlen :: "bytes \<Rightarrow> u32 \<Rightarrow> u32 option" where
  "strlen m s = strlen_loop m s 0"

text \<open>\<^verbatim>\<open>while (*s1++ = *s2++)\<close>, the loop of \<^verbatim>\<open>strcpy\<close> and \<^verbatim>\<open>strcat\<close>.\<close>

partial_function (option) strcpy_loop :: "bytes \<Rightarrow> u32 \<Rightarrow> u32 \<Rightarrow> bytes option" where
  [code]: "strcpy_loop m s1 s2 =
     (let c = m s2; m' = m(s1 := c) in if c \<noteq> 0 then strcpy_loop m' (s1 + 1) (s2 + 1) else Some m')"

definition strcpy :: "bytes \<Rightarrow> u32 \<Rightarrow> u32 \<Rightarrow> (u32 \<times> bytes) option" where
  "strcpy m s1 s2 = map_option (Pair s1) (strcpy_loop m s1 s2)"

partial_function (option) seek_nul :: "bytes \<Rightarrow> u32 \<Rightarrow> u32 option" where
  [code]: "seek_nul m s1 = (if m s1 \<noteq> 0 then seek_nul m (s1 + 1) else Some s1)"

definition strcat :: "bytes \<Rightarrow> u32 \<Rightarrow> u32 \<Rightarrow> (u32 \<times> bytes) option" where
  "strcat m s1 s2 =
     Option.bind (if m s1 \<noteq> 0 then seek_nul m (s1 + 1) else Some s1)
       (\<lambda>p. map_option (Pair s1) (strcpy_loop m p s2))"

text \<open>
  \<^verbatim>\<open>while (n && (*s1++ = *s2++)) --n\<close>: the memory, the advanced \<^verbatim>\<open>s1\<close> and the remaining \<^verbatim>\<open>n\<close>
  when it stops; on a NUL byte \<^verbatim>\<open>n\<close> is not decremented. Then the padding loop of \<^verbatim>\<open>strncpy\<close>.
\<close>

fun copy_upto :: "nat \<Rightarrow> bytes \<Rightarrow> u32 \<Rightarrow> u32 \<Rightarrow> bytes \<times> u32 \<times> nat" where
  "copy_upto 0 m s1 s2 = (m, s1, 0)"
| "copy_upto (Suc n) m s1 s2 =
     (let c = m s2; m' = m(s1 := c) in
      if c \<noteq> 0 then copy_upto n m' (s1 + 1) (s2 + 1) else (m', s1 + 1, Suc n))"

definition strncpy :: "bytes \<Rightarrow> u32 \<Rightarrow> u32 \<Rightarrow> u32 \<Rightarrow> u32 \<times> bytes" where
  "strncpy m s1 s2 n =
     (case copy_upto (unat n) m s1 s2 of (m', p, k) \<Rightarrow> (s1, memset_loop (k - 1) m' p 0))"

definition strncat :: "bytes \<Rightarrow> u32 \<Rightarrow> u32 \<Rightarrow> u32 \<Rightarrow> (u32 \<times> bytes) option" where
  "strncat m s1 s2 n =
     map_option (\<lambda>e. case copy_upto (unat n) m e s2 of (m', p, k) \<Rightarrow>
       (s1, if k = 0 then m'(p := 0) else m')) (seek_nul m s1)"

subsection \<open>Comparison\<close>

partial_function (option) strcmp :: "bytes \<Rightarrow> u32 \<Rightarrow> u32 \<Rightarrow> int option" where
  [code]: "strcmp m s1 s2 =
     (if m s1 \<noteq> 0 \<and> m s1 = m s2 then strcmp m (s1 + 1) (s2 + 1) else Some (uint (m s1) - uint (m s2)))"

fun strncmp_loop :: "nat \<Rightarrow> bytes \<Rightarrow> u32 \<Rightarrow> u32 \<Rightarrow> int" where
  "strncmp_loop 0 m s1 s2 = 0"
| "strncmp_loop (Suc n) m s1 s2 =
     (if m s1 \<noteq> 0 \<and> m s1 = m s2 then strncmp_loop n m (s1 + 1) (s2 + 1) else uint (m s1) - uint (m s2))"

definition strncmp :: "bytes \<Rightarrow> u32 \<Rightarrow> u32 \<Rightarrow> u32 \<Rightarrow> int" where
  "strncmp m s1 s2 n = strncmp_loop (unat n) m s1 s2"

subsection \<open>Searching\<close>

partial_function (option) strchr_loop :: "bytes \<Rightarrow> u32 \<Rightarrow> u8 \<Rightarrow> u32 option" where
  [code]: "strchr_loop m s c =
     (if m s = c then Some s else if m s \<noteq> 0 then strchr_loop m (s + 1) c else Some null_ptr)"

definition strchr :: "bytes \<Rightarrow> u32 \<Rightarrow> s32 \<Rightarrow> u32 option" where
  "strchr m s c = strchr_loop m s (ucast c)"

text \<open>\<^verbatim>\<open>strrchr\<close>: the index one past the terminator, then the search back to index 0.\<close>

partial_function (option) past_nul :: "bytes \<Rightarrow> u32 \<Rightarrow> u32 \<Rightarrow> u32 option" where
  [code]: "past_nul m s i = (if m (s + i) \<noteq> 0 then past_nul m s (i + 1) else Some (i + 1))"

partial_function (option) strrchr_loop :: "bytes \<Rightarrow> u32 \<Rightarrow> u8 \<Rightarrow> u32 \<Rightarrow> u32 option" where
  [code]: "strrchr_loop m s c i =
     (let i = i - 1 in
      if m (s + i) = c then Some (s + i) else if i \<noteq> 0 then strrchr_loop m s c i else Some null_ptr)"

definition strrchr :: "bytes \<Rightarrow> u32 \<Rightarrow> s32 \<Rightarrow> u32 option" where
  "strrchr m s c = Option.bind (past_nul m s 0) (strrchr_loop m s (ucast c))"

text \<open>
  The inner loop over the set string \<^verbatim>\<open>s2\<close> that \<^verbatim>\<open>strspn\<close>, \<^verbatim>\<open>strcspn\<close>, \<^verbatim>\<open>strpbrk\<close> and \<^verbatim>\<open>strtok\<close>
  share: does the byte occur in it?
\<close>

partial_function (option) in_set :: "bytes \<Rightarrow> u8 \<Rightarrow> u32 \<Rightarrow> bool option" where
  [code]: "in_set m c p = (if m p \<noteq> 0 then if c = m p then Some True else in_set m c (p + 1) else Some False)"

partial_function (option) strspn_loop :: "bytes \<Rightarrow> u32 \<Rightarrow> u32 \<Rightarrow> u32 \<Rightarrow> u32 option" where
  [code]: "strspn_loop m s1 s2 len =
     (if m (s1 + len) \<noteq> 0
      then Option.bind (in_set m (m (s1 + len)) s2)
        (\<lambda>found. if found then strspn_loop m s1 s2 (len + 1) else Some len)
      else Some len)"

definition strspn :: "bytes \<Rightarrow> u32 \<Rightarrow> u32 \<Rightarrow> u32 option" where
  "strspn m s1 s2 = strspn_loop m s1 s2 0"

partial_function (option) strcspn_loop :: "bytes \<Rightarrow> u32 \<Rightarrow> u32 \<Rightarrow> u32 \<Rightarrow> u32 option" where
  [code]: "strcspn_loop m s1 s2 len =
     (if m (s1 + len) \<noteq> 0
      then Option.bind (in_set m (m (s1 + len)) s2)
        (\<lambda>found. if found then Some len else strcspn_loop m s1 s2 (len + 1))
      else Some len)"

definition strcspn :: "bytes \<Rightarrow> u32 \<Rightarrow> u32 \<Rightarrow> u32 option" where
  "strcspn m s1 s2 = strcspn_loop m s1 s2 0"

partial_function (option) strpbrk :: "bytes \<Rightarrow> u32 \<Rightarrow> u32 \<Rightarrow> u32 option" where
  [code]: "strpbrk m p1 s2 =
     (if m p1 \<noteq> 0
      then Option.bind (in_set m (m p1) s2) (\<lambda>found. if found then Some p1 else strpbrk m (p1 + 1) s2)
      else Some null_ptr)"

text \<open>The inner loop of \<^verbatim>\<open>strstr\<close> ends with \<^verbatim>\<open>*p2 == 0\<close> exactly when \<^verbatim>\<open>s2\<close> is a prefix at \<^verbatim>\<open>p1\<close>.\<close>

partial_function (option) match_at :: "bytes \<Rightarrow> u32 \<Rightarrow> u32 \<Rightarrow> bool option" where
  [code]: "match_at m p1 p2 =
     (if m p2 \<noteq> 0 \<and> m p1 = m p2 then match_at m (p1 + 1) (p2 + 1) else Some (m p2 = 0))"

partial_function (option) strstr :: "bytes \<Rightarrow> u32 \<Rightarrow> u32 \<Rightarrow> u32 option" where
  [code]: "strstr m s1 s2 =
     (if m s1 \<noteq> 0
      then Option.bind (match_at m s1 s2) (\<lambda>found. if found then Some s1 else strstr m (s1 + 1) s2)
      else Some null_ptr)"

subsection \<open>Tokens\<close>

text \<open>
  \<^verbatim>\<open>strtok\<close> keeps the static pointer \<^verbatim>\<open>next\<close>, an argument and a result here.
\<close>

partial_function (option) skip_delims :: "bytes \<Rightarrow> u32 \<Rightarrow> u32 \<Rightarrow> u32 option" where
  [code]: "skip_delims m nxt s2 =
     (if m nxt \<noteq> 0
      then Option.bind (in_set m (m nxt) s2) (\<lambda>found. if found then skip_delims m (nxt + 1) s2 else Some nxt)
      else Some nxt)"

partial_function (option) end_token :: "bytes \<Rightarrow> u32 \<Rightarrow> u32 \<Rightarrow> (bytes \<times> u32) option" where
  [code]: "end_token m nxt s2 =
     (if m nxt \<noteq> 0
      then Option.bind (in_set m (m nxt) s2)
        (\<lambda>found. if found then Some (m(nxt := 0), nxt + 1) else end_token m (nxt + 1) s2)
      else Some (m, null_ptr))"

definition strtok :: "bytes \<Rightarrow> u32 \<Rightarrow> u32 \<Rightarrow> u32 \<Rightarrow> (u32 \<times> u32 \<times> bytes) option" where
  "strtok m nxt0 s1 s2 =
     (let nxt = (if s1 \<noteq> null_ptr then s1 else nxt0) in
      if nxt = null_ptr then Some (null_ptr, nxt, m)
      else Option.bind (skip_delims m nxt s2) (\<lambda>token.
        if m token = 0 then Some (null_ptr, null_ptr, m)
        else map_option (\<lambda>(m', nxt'). (token, nxt', m')) (end_token m token s2)))"

subsection \<open>Numbers\<close>

partial_function (option) skip_blanks :: "bytes \<Rightarrow> u32 \<Rightarrow> u32 option" where
  [code]: "skip_blanks m str = (if m str = 32 \<or> m str = 9 then skip_blanks m (str + 1) else Some str)"

definition hex_digit :: "u8 \<Rightarrow> u32 option" where
  "hex_digit c =
     (if 48 \<le> sint c \<and> sint c \<le> 57 then Some (word_of_int (sint c - 48))
      else if 97 \<le> sint c \<and> sint c \<le> 102 then Some (word_of_int (sint c - 97 + 10))
      else if 65 \<le> sint c \<and> sint c \<le> 70 then Some (word_of_int (sint c - 65 + 10))
      else None)"

partial_function (option) hex_loop :: "bytes \<Rightarrow> u32 \<Rightarrow> u32 \<Rightarrow> u32 option" where
  [code]: "hex_loop m str r =
     (if m str \<noteq> 0
      then case hex_digit (m str) of
          None \<Rightarrow> Some r
        | Some val \<Rightarrow> hex_loop m (str + 1) (push_bit 4 r OR val)
      else Some r)"

definition HexStrToInt :: "bytes \<Rightarrow> u32 \<Rightarrow> u32 option" where
  "HexStrToInt m str0 =
     Option.bind (skip_blanks m str0) (\<lambda>str.
       let str = (if m str = 48 \<and> (m (str + 1) = 120 \<or> m (str + 1) = 88) then str + 2 else str) in
       hex_loop m str 0)"

subsection \<open>Strings in memory\<close>

primrec cstr :: "bytes \<Rightarrow> u32 \<Rightarrow> u8 list \<Rightarrow> bool" where
  "cstr m s [] \<longleftrightarrow> m s = 0"
| "cstr m s (x # xs) \<longleftrightarrow> x \<noteq> 0 \<and> m s = x \<and> cstr m (s + 1) xs"

lemma cstr_nth:
  "cstr m s xs \<longleftrightarrow> (\<forall>i<length xs. xs ! i \<noteq> 0 \<and> m (s + of_nat i) = xs ! i) \<and> m (s + of_nat (length xs)) = 0"
proof (induction xs arbitrary: s)
  case (Cons x xs)
  show ?case by (auto simp: Cons.IH less_Suc_eq_0_disj nth_Cons split: nat.splits)
     (simp_all add: algebra_simps)
qed simp

lemma cstr_length:
  assumes "cstr m s xs"
  shows "length xs < 2 ^ 32"
proof (rule ccontr)
  assume "\<not> length xs < 2 ^ 32"
  then have i: "length xs - 2 ^ 32 < length xs" and le: "2 ^ 32 \<le> length xs" by auto
  have "(of_nat (length xs) :: u32) = of_nat (length xs - 2 ^ 32) + of_nat (2 ^ 32)"
    using le by (simp only: of_nat_add [symmetric] le_add_diff_inverse2)
  also have "(of_nat (2 ^ 32) :: u32) = 0" by simp
  finally have eq: "(of_nat (length xs) :: u32) = of_nat (length xs - 2 ^ 32)" by simp
  have "m (s + of_nat (length xs - 2 ^ 32)) \<noteq> 0" using assms i unfolding cstr_nth by metis
  moreover have "m (s + of_nat (length xs)) = 0" using assms unfolding cstr_nth by blast
  ultimately show False unfolding eq by blast
qed

lemma cstr_frame:
  assumes "cstr m s xs" and "\<And>a. unat (a - s) \<le> length xs \<Longrightarrow> m' a = m a"
  shows "cstr m' s xs"
proof -
  have "m' (s + of_nat i) = m (s + of_nat i)" if "i \<le> length xs" for i
    using that cstr_length [OF assms(1)] by (intro assms(2)) simp
  then show ?thesis using assms(1) by (simp add: cstr_nth)
qed

lemma cstr_update:
  assumes "cstr m s xs" and "unat (a - s) > length xs"
  shows "cstr (m(a := v)) s xs"
  using assms by (intro cstr_frame [OF assms(1)]) auto

lemma cstr_drop: "cstr m s xs \<Longrightarrow> i \<le> length xs \<Longrightarrow> cstr m (s + of_nat i) (drop i xs)"
  by (auto simp: cstr_nth less_diff_conv add.commute add.left_commute)

subsection \<open>Blocks\<close>

text \<open>
  Addresses modulo \<open>2^32\<close>: \<open>a\<close> lies in the block of \<open>n\<close> bytes at \<open>d\<close> when \<open>unat (a - d) < n\<close>. A
  forward copy is right unless the destination starts inside the source after its first
  byte, and a backward copy unless the source starts so inside the destination.
\<close>

lemma unat_pred: "x \<noteq> 0 \<Longrightarrow> unat (x - 1 :: u32) = unat x - 1"
  by (rule unat_minus_one)

lemma unat_neg:
  fixes x :: u32
  assumes "x \<noteq> 0"
  shows "unat (- x) = 2 ^ 32 - unat x"
proof -
  have "unat (x + - x) = (unat x + unat (- x)) mod 2 ^ 32" by (simp only: unat_word_ariths) simp
  then have "(2 ^ 32 :: nat) dvd unat x + unat (- x)" by (simp add: dvd_eq_mod_eq_0)
  then obtain k where k: "unat x + unat (- x) = 2 ^ 32 * k" ..
  have "0 < unat x" using assms by (simp add: unat_gt_0)
  then have "k = 1" using k unat_u32_bound [of x] unat_u32_bound [of "- x"] by (cases "k = 0") auto
  then show ?thesis using k by simp
qed

lemma unat_minus_1: "unat (- 1 :: u32) = 2 ^ 32 - 1"
  using unat_neg [of 1] by simp

lemma memcpy_loop_at:
  assumes "n \<le> 2 ^ 32" and "unat (d - s) \<notin> {1..<n}"
  shows "memcpy_loop n m d s a = (if unat (a - d) < n then m (s + (a - d)) else m a)"
  using assms
proof (induction n m d s rule: memcpy_loop.induct)
  case (2 n m d s)
  have IH: "memcpy_loop n (m(d := m s)) (d + 1) (s + 1) a =
      (if unat (a - (d + 1)) < n then (m(d := m s)) (s + 1 + (a - (d + 1))) else (m(d := m s)) a)"
    by (rule "2.IH") (use "2.prems" in auto)
  show ?case
  proof (cases "a = d")
    case True
    have "\<not> unat (- 1 :: u32) < n" using "2.prems"(1) by (simp add: unat_minus_1)
    with True IH show ?thesis by simp
  next
    case False
    then have "unat (a - (d + 1)) = unat (a - d) - 1" using unat_pred [of "a - d"] by (simp add: algebra_simps)
    moreover have "0 < unat (a - d)" using False by (simp add: unat_gt_0)
    ultimately have lt: "unat (a - (d + 1)) < n \<longleftrightarrow> unat (a - d) < Suc n" by linarith
    have "s + 1 + (a - (d + 1)) \<noteq> d" if "unat (a - d) < Suc n"
    proof
      assume "s + 1 + (a - (d + 1)) = d"
      then have "a - d = d - s" by (simp add: algebra_simps)
      with that \<open>0 < unat (a - d)\<close> "2.prems"(2) show False by auto
    qed
    with IH lt False show ?thesis by auto
  qed
qed simp

lemma memmove_down_at:
  assumes "n \<le> 2 ^ 32" and "unat (s - d) \<notin> {1..<n}"
  shows "memmove_down n m d s a = (if unat (d - 1 - a) < n then m (s + (a - d)) else m a)"
  using assms
proof (induction n m d s rule: memmove_down.induct)
  case (2 n m d s)
  have IH: "memmove_down n (m(d - 1 := m (s - 1))) (d - 1) (s - 1) a =
      (if unat (d - 1 - 1 - a) < n then (m(d - 1 := m (s - 1))) (s - 1 + (a - (d - 1)))
       else (m(d - 1 := m (s - 1))) a)"
    by (rule "2.IH") (use "2.prems" in auto)
  show ?case
  proof (cases "a = d - 1")
    case True
    have "\<not> unat (- 1 :: u32) < n" using "2.prems"(1) by (simp add: unat_minus_1)
    with True IH show ?thesis by simp
  next
    case False
    have "unat (d - 1 - 1 - a) = unat (d - 1 - a) - 1"
      using False unat_pred [of "d - 1 - a"] by (simp add: algebra_simps)
    moreover have pos: "0 < unat (d - 1 - a)" using False by (auto simp: unat_gt_0)
    ultimately have lt: "unat (d - 1 - 1 - a) < n \<longleftrightarrow> unat (d - 1 - a) < Suc n" by linarith
    have "s - 1 + (a - (d - 1)) \<noteq> d - 1" if "unat (d - 1 - a) < Suc n"
    proof
      assume "s - 1 + (a - (d - 1)) = d - 1"
      then have "d - 1 - a = s - d" by (simp add: algebra_simps)
      with that pos "2.prems"(2) show False by auto
    qed
    with IH lt False show ?thesis by (auto simp: algebra_simps)
  qed
qed simp

lemma block_end_iff: "unat (d + n - 1 - a) < unat n \<longleftrightarrow> unat (a - d) < unat (n :: u32)"
proof -
  define x where "x = a - d"
  have eq: "d + n - 1 - a = n - 1 - x" by (simp add: x_def)
  show ?thesis
  proof (cases "n = 0")
    case False
    then have n1: "unat (n - 1) = unat n - 1" and pos: "0 < unat n" by (auto simp: unat_pred unat_gt_0)
    show ?thesis
    proof (cases "x \<le> n - 1")
      case True
      then have "unat (n - 1 - x) = unat n - 1 - unat x" "unat x < unat n"
        using n1 pos by (auto simp: unat_sub word_le_nat_alt)
      then show ?thesis using pos unfolding eq x_def [symmetric] by simp
    next
      case nle: False
      then have "n - 1 \<le> x" and gt: "unat n \<le> unat x" using n1 pos by (auto simp: word_le_nat_alt)
      then have "unat (x - (n - 1)) = unat x - (unat n - 1)" using n1 by (simp add: unat_sub)
      moreover have "n - 1 - x = - (x - (n - 1))" by simp
      moreover have "x - (n - 1) \<noteq> 0" using nle by auto
      ultimately have "unat (n - 1 - x) = 2 ^ 32 - (unat x - (unat n - 1))" using unat_neg by metis
      then show ?thesis using gt pos unat_u32_bound [of x] unfolding eq x_def [symmetric] by simp
    qed
  qed simp
qed

lemma memset_loop_at: "n \<le> 2 ^ 32 \<Longrightarrow> memset_loop n m p c a = (if unat (a - p) < n then c else m a)"
proof (induction n m p c rule: memset_loop.induct)
  case (2 n m p c)
  show ?case
  proof (cases "a = p")
    case True
    have "\<not> unat (- 1 :: u32) < n" using "2.prems" by (simp add: unat_minus_1)
    with True 2 show ?thesis by (simp del: fun_upd_apply) simp
  next
    case False
    then have "unat (a - (p + 1)) = unat (a - p) - 1" "0 < unat (a - p)"
      using unat_pred [of "a - p"] by (simp_all add: algebra_simps unat_gt_0)
    then have "unat (a - (p + 1)) < n \<longleftrightarrow> unat (a - p) < Suc n" by linarith
    with 2 False show ?thesis by (simp del: fun_upd_apply) simp
  qed
qed simp

subsection \<open>Scanning loops\<close>

lemma strlen_loop_cstr: "cstr m (s + rc) xs \<Longrightarrow> strlen_loop m s rc = Some (rc + of_nat (length xs))"
  by (induction xs arbitrary: rc) (simp_all add: strlen_loop.simps add.assoc)

lemma strlen_cstr: "cstr m s xs \<Longrightarrow> strlen m s = Some (of_nat (length xs))"
  using strlen_loop_cstr [of m s 0 xs] by (simp add: strlen_def)

lemma seek_nul_cstr: "cstr m s xs \<Longrightarrow> seek_nul m s = Some (s + of_nat (length xs))"
  by (induction xs arbitrary: s) (simp_all add: seek_nul.simps add.assoc)

lemma in_set_cstr: "cstr m p ds \<Longrightarrow> in_set m c p = Some (c \<in> set ds)"
  by (induction ds arbitrary: p) (auto simp: in_set.simps)

lemma strspn_cstr:
  "cstr m (s1 + len) xs \<Longrightarrow> cstr m s2 ds \<Longrightarrow>
   strspn_loop m s1 s2 len = Some (len + of_nat (length (takeWhile (\<lambda>x. x \<in> set ds) xs)))"
  by (induction xs arbitrary: len) (simp_all add: strspn_loop.simps in_set_cstr add.assoc)

lemma strcspn_cstr:
  "cstr m (s1 + len) xs \<Longrightarrow> cstr m s2 ds \<Longrightarrow>
   strcspn_loop m s1 s2 len = Some (len + of_nat (length (takeWhile (\<lambda>x. x \<notin> set ds) xs)))"
  by (induction xs arbitrary: len) (simp_all add: strcspn_loop.simps in_set_cstr add.assoc)

lemma strpbrk_cstr:
  "cstr m s1 xs \<Longrightarrow> cstr m s2 ds \<Longrightarrow>
   strpbrk m s1 s2 = Some (if \<exists>x\<in>set xs. x \<in> set ds
     then s1 + of_nat (length (takeWhile (\<lambda>x. x \<notin> set ds) xs)) else null_ptr)"
  by (induction xs arbitrary: s1) (simp_all add: strpbrk.simps in_set_cstr add.assoc)

lemma strchr_cstr:
  "cstr m s xs \<Longrightarrow> strchr_loop m s c = Some (if c = 0 \<or> c \<in> set xs
     then s + of_nat (length (takeWhile (\<lambda>x. x \<noteq> c) xs)) else null_ptr)"
  by (induction xs arbitrary: s) (auto simp: strchr_loop.simps add.assoc)

lemma match_at_cstr:
  "cstr m p1 xs \<Longrightarrow> cstr m p2 ys \<Longrightarrow> match_at m p1 p2 = Some (prefix ys xs)"
proof (induction ys arbitrary: p1 p2 xs)
  case (Cons y ys)
  then show ?case by (cases xs) (auto simp: match_at.simps)
qed (simp add: match_at.simps)

lemma uint_pos: "x \<noteq> 0 \<Longrightarrow> 0 < uint (x :: u8) \<and> uint x \<noteq> 0"
  using uint_ge_0 [of x] uint_0_iff [of x] by (simp add: order_less_le)

lemma strcmp_cstr:
  assumes "cstr m s1 xs" and "cstr m s2 ys"
  shows "\<exists>r. strcmp m s1 s2 = Some r \<and> (r < 0 \<longleftrightarrow> xs < ys) \<and> (r = 0 \<longleftrightarrow> xs = ys) \<and> (0 < r \<longleftrightarrow> ys < xs)"
  using assms
proof (induction xs arbitrary: s1 s2 ys)
  case Nil
  then show ?case by (cases ys) (simp_all add: strcmp.simps uint_pos)
next
  case (Cons x xs)
  show ?case
  proof (cases ys)
    case Nil
    with Cons.prems show ?thesis by (simp add: strcmp.simps uint_pos)
  next
    case ys: (Cons y zs)
    show ?thesis
    proof (cases "x = y")
      case True
      then show ?thesis using Cons.IH [of "s1 + 1" "s2 + 1" zs] Cons.prems ys by (auto simp: strcmp.simps)
    next
      case False
      then have "strcmp m s1 s2 = Some (uint x - uint y)" using Cons.prems ys by (simp add: strcmp.simps)
      moreover have "uint x \<noteq> uint y" using False by (simp add: word_uint_eq_iff)
      ultimately show ?thesis using False ys by (simp add: word_less_def)
    qed
  qed
qed

lemma strncmp_cstr:
  assumes "cstr m s1 xs" and "cstr m s2 ys"
  shows "(strncmp_loop n m s1 s2 < 0 \<longleftrightarrow> take n xs < take n ys)
    \<and> (strncmp_loop n m s1 s2 = 0 \<longleftrightarrow> take n xs = take n ys)"
  using assms
proof (induction n arbitrary: s1 s2 xs ys)
  case (Suc n)
  show ?case
  proof (cases "xs \<noteq> [] \<and> ys \<noteq> [] \<and> hd xs = hd ys")
    case True
    then obtain x xs' ys' where "xs = x # xs'" "ys = x # ys'" by (cases xs; cases ys) auto
    then show ?thesis using Suc.IH [of "s1 + 1" xs' "s2 + 1" ys'] Suc.prems by simp
  next
    case False
    then show ?thesis using Suc.prems
      by (cases xs; cases ys) (auto simp: word_less_def uint_pos dest: word_uint_eqI)
  qed
qed simp

lemma memcmp_eq_0: "n \<le> 2 ^ 32 \<Longrightarrow> memcmp_loop n m p q = 0 \<longleftrightarrow> (\<forall>i<n. m (p + of_nat i) = m (q + of_nat i))"
proof (induction n arbitrary: p q)
  case (Suc n)
  then show ?case by (auto simp: less_Suc_eq_0_disj word_uint_eq_iff [symmetric] add.assoc)
qed simp

lemma strstr_cstr:
  assumes "cstr m s1 xs" and "cstr m s2 ys"
  shows "strstr m s1 s2 = Some (if \<exists>i<length xs. prefix ys (drop i xs)
     then s1 + of_nat (LEAST i. prefix ys (drop i xs)) else null_ptr)"
  using assms(1)
proof (induction xs arbitrary: s1)
  case Nil
  then show ?case by (simp add: strstr.simps)
next
  case (Cons x xs)
  show ?case
  proof (cases "prefix ys (x # xs)")
    case True
    then have "(LEAST i. prefix ys (drop i (x # xs))) = 0" by (intro Least_equality) simp_all
    with True Cons.prems show ?thesis using match_at_cstr [OF Cons.prems assms(2)]
      by (auto simp: strstr.simps [of m s1])
  next
    case False
    have ex: "(\<exists>i<length (x # xs). prefix ys (drop i (x # xs))) \<longleftrightarrow> (\<exists>i<length xs. prefix ys (drop i xs))"
      using False by (auto simp: less_Suc_eq_0_disj)
    have least: "(LEAST i. prefix ys (drop i (x # xs))) = Suc (LEAST i. prefix ys (drop i xs))"
      if "\<exists>i<length xs. prefix ys (drop i xs)"
      using that False by (subst Least_Suc [where P = "\<lambda>i. prefix ys (drop i (x # xs))" and n = "Suc (SOME i. prefix ys (drop i xs))"])
        (auto intro: someI)
    have "strstr m s1 s2 = strstr m (s1 + 1) s2"
      using Cons.prems False match_at_cstr [OF Cons.prems assms(2)] by (simp add: strstr.simps [of m s1])
    also have "\<dots> = Some (if \<exists>i<length xs. prefix ys (drop i xs)
       then s1 + 1 + of_nat (LEAST i. prefix ys (drop i xs)) else null_ptr)"
      using Cons by simp
    finally show ?thesis unfolding ex using least by (auto simp: add.assoc)
  qed
qed

subsection \<open>Copying strings\<close>

text \<open>After the first byte is stored, the rest of the source string is still there.\<close>

lemma cstr_rest:
  assumes "cstr m s (x # xs)" and "unat (d - s) \<notin> {1..Suc (length xs)}"
  shows "cstr (m(d := v)) (s + 1) xs"
proof (intro cstr_update)
  show "cstr m (s + 1) xs" using assms(1) by simp
  show "length xs < unat (d - (s + 1))"
  proof (cases "d = s")
    case True
    then have "unat (d - (s + 1)) = 2 ^ 32 - 1" using unat_minus_1 by simp
    then show ?thesis using cstr_length [OF assms(1)] by simp
  next
    case False
    then have "unat (d - (s + 1)) = unat (d - s) - 1" "0 < unat (d - s)"
      using unat_pred [of "d - s"] by (simp_all add: algebra_simps unat_gt_0)
    then show ?thesis using assms(2) by auto
  qed
qed

lemma strcpy_loop_memcpy:
  assumes "cstr m s xs" and "unat (d - s) \<notin> {1..length xs}"
  shows "strcpy_loop m d s = Some (memcpy_loop (Suc (length xs)) m d s)"
  using assms
proof (induction xs arbitrary: m d s)
  case Nil
  then show ?case by (simp add: strcpy_loop.simps Let_def fun_eq_iff)
next
  case (Cons x xs)
  have "cstr (m(d := x)) (s + 1) xs" by (rule cstr_rest [OF Cons.prems(1)]) (use Cons.prems(2) in simp)
  then have "strcpy_loop (m(d := x)) (d + 1) (s + 1) = Some (memcpy_loop (Suc (length xs)) (m(d := x)) (d + 1) (s + 1))"
    by (rule Cons.IH) (use Cons.prems(2) in auto)
  then show ?case using Cons.prems(1)
    by (subst strcpy_loop.simps) (simp add: Let_def del: fun_upd_apply)
qed

lemma copy_upto_memcpy:
  assumes "cstr m s xs" and "unat (d - s) \<notin> {1..length xs}"
  shows "copy_upto n m d s =
    (if n \<le> length xs then (memcpy_loop n m d s, d + of_nat n, 0)
     else (memcpy_loop (Suc (length xs)) m d s, d + of_nat (Suc (length xs)), n - length xs))"
  using assms
proof (induction n arbitrary: m d s xs)
  case (Suc n)
  show ?case
  proof (cases xs)
    case Nil
    with Suc.prems show ?thesis by (simp add: Let_def)
  next
    case (Cons x ys)
    then have "cstr m s (x # ys)" using Suc.prems by simp
    then have "cstr (m(d := x)) (s + 1) ys" by (rule cstr_rest) (use Suc.prems(2) Cons in simp)
    then have "copy_upto n (m(d := x)) (d + 1) (s + 1) =
      (if n \<le> length ys then (memcpy_loop n (m(d := x)) (d + 1) (s + 1), d + 1 + of_nat n, 0)
       else (memcpy_loop (Suc (length ys)) (m(d := x)) (d + 1) (s + 1), d + 1 + of_nat (Suc (length ys)), n - length ys))"
      by (rule Suc.IH) (use Suc.prems(2) Cons in auto)
    then show ?thesis using Suc.prems(1) Cons by (auto simp: Let_def add.assoc simp del: fun_upd_apply)
  qed
qed simp

text \<open>\<open>placed m d bs a\<close>: the memory \<open>m\<close> with the bytes \<open>bs\<close> stored from address \<open>d\<close> on.\<close>

definition placed :: "bytes \<Rightarrow> u32 \<Rightarrow> u8 list \<Rightarrow> bytes" where
  "placed m d bs = (\<lambda>a. if unat (a - d) < length bs then bs ! unat (a - d) else m a)"

lemma cstr_byte: "cstr m s xs \<Longrightarrow> unat k \<le> length xs \<Longrightarrow> m (s + k) = (xs @ [0]) ! unat k"
proof -
  assume c: "cstr m s xs" and k: "unat k \<le> length xs"
  have of_nat: "of_nat (unat k) = k" by simp
  show "m (s + k) = (xs @ [0]) ! unat k"
  proof (cases "unat k = length xs")
    case True
    then have "m (s + of_nat (unat k)) = 0" using c by (simp only: cstr_nth)
    then have "m (s + k) = 0" unfolding of_nat .
    then show ?thesis using True by (simp add: nth_append)
  next
    case False
    then have "m (s + of_nat (unat k)) = xs ! unat k" using c k unfolding cstr_nth by (metis le_neq_implies_less)
    then show ?thesis using False k by (simp add: nth_append)
  qed
qed

lemma memcpy_string:
  assumes "cstr m s xs" and "unat (d - s) \<notin> {1..length xs}" and "n \<le> Suc (length xs)"
  shows "memcpy_loop n m d s = placed m d (take n (xs @ [0]))"
proof
  fix a
  have n: "n \<le> 2 ^ 32" using cstr_length [OF assms(1)] assms(3) by simp
  have "unat (d - s) \<notin> {1..<n}" using assms(2,3) by auto
  from memcpy_loop_at [OF n this] show "memcpy_loop n m d s a = placed m d (take n (xs @ [0])) a"
    using assms(3) cstr_byte [OF assms(1), of "a - d"] by (auto simp: placed_def simp del: take_append)
qed

lemma strcpy_cstr:
  assumes "cstr m s xs" and "unat (d - s) \<notin> {1..length xs}"
  shows "strcpy_loop m d s = Some (placed m d (xs @ [0]))"
  using strcpy_loop_memcpy [OF assms] memcpy_string [OF assms order_refl] by simp

lemma placed_cstr:
  assumes "0 \<notin> set xs" and "length xs < 2 ^ 32"
  shows "cstr (placed m d (xs @ [0])) d xs"
  unfolding cstr_nth using assms by (auto simp: placed_def nth_append dest: nth_mem)

lemma cstr_no_nul: "cstr m s xs \<Longrightarrow> 0 \<notin> set xs"
  by (induction xs arbitrary: s) auto

lemma strncpy_cstr:
  assumes "cstr m s xs" and "unat (d - s) \<notin> {1..length xs}"
  shows "snd (strncpy m d s n) = placed m d (take (unat n) xs @ replicate (unat n - length xs) 0)"
proof (cases "unat n \<le> length xs")
  case True
  with copy_upto_memcpy [OF assms, of "unat n"] memcpy_string [OF assms, of "unat n"]
  show ?thesis by (simp add: strncpy_def)
next
  case False
  let ?L = "length xs" and ?k = "unat n - length xs"
  have L: "Suc ?L < 2 ^ 32" using False unat_u32_bound [of n] by simp
  have c: "snd (strncpy m d s n) = memset_loop (?k - 1) (placed m d (xs @ [0])) (d + of_nat (Suc ?L)) 0"
    using False copy_upto_memcpy [OF assms, of "unat n"] memcpy_string [OF assms order_refl]
    by (simp add: strncpy_def)
  show ?thesis
  proof
    fix a
    define x where "x = unat (a - d)"
    have k: "?k - 1 \<le> 2 ^ 32" using unat_u32_bound [of n] by simp
    have off: "unat (a - (d + of_nat (Suc ?L))) < ?k - 1 \<longleftrightarrow> Suc ?L \<le> x \<and> x < unat n"
    proof -
      have eq: "a - (d + of_nat (Suc ?L)) = (a - d) - of_nat (Suc ?L)" by (simp add: algebra_simps)
      have uL: "unat (of_nat (Suc ?L) :: u32) = Suc ?L" using L by (simp only: unat_of_nat_small)
      show ?thesis
      proof (cases "Suc ?L \<le> x")
        case True
        then have "(of_nat (Suc ?L) :: u32) \<le> a - d" unfolding word_le_nat_alt uL x_def .
        then have "unat (a - (d + of_nat (Suc ?L))) = x - Suc ?L" unfolding eq by (simp only: unat_sub uL x_def)
        then show ?thesis using True by auto
      next
        case lt: False
        have "unat (of_nat (Suc ?L) - (a - d) :: u32) = Suc ?L - x"
          using lt by (subst unat_sub) (simp_all add: word_le_nat_alt uL x_def del: of_nat_Suc)
        moreover have "of_nat (Suc ?L) - (a - d) \<noteq> 0" using calculation lt by (auto simp: unat_eq_0 [symmetric])
        ultimately have "unat (- (of_nat (Suc ?L) - (a - d)) :: u32) = 2 ^ 32 - (Suc ?L - x)"
          using unat_neg by metis
        moreover have "- (of_nat (Suc ?L) - (a - d)) = a - (d + of_nat (Suc ?L))" by (simp add: algebra_simps)
        ultimately have "unat (a - (d + of_nat (Suc ?L))) = 2 ^ 32 - (Suc ?L - x)" by metis
        then show ?thesis using lt unat_u32_bound [of n] by (simp del: of_nat_Suc)
      qed
    qed
    show "snd (strncpy m d s n) a = placed m d (take (unat n) xs @ replicate ?k 0) a"
      unfolding c memset_loop_at [OF k] off using False
      by (auto simp: placed_def x_def [symmetric] nth_append)
  qed
qed

subsection \<open>Tokenising\<close>

text \<open>
  The tokens of a string over a set of delimiters, and the loop every client of \<^verbatim>\<open>strtok\<close>
  runs: the first call passes the string, the next ones null, until null comes back.
\<close>

function tokens :: "u8 set \<Rightarrow> u8 list \<Rightarrow> u8 list list" where
  "tokens D xs =
     (let ys = dropWhile (\<lambda>x. x \<in> D) xs in
      if ys = [] then []
      else takeWhile (\<lambda>x. x \<notin> D) ys # tokens D (drop 1 (dropWhile (\<lambda>x. x \<notin> D) ys)))"
  by pat_completeness auto
termination
proof (relation "measure (length \<circ> snd)")
  fix D and xs ys :: "u8 list" assume "ys = dropWhile (\<lambda>x. x \<in> D) xs" "ys \<noteq> []"
  then have "0 < length ys" "length ys \<le> length xs" by (auto simp: length_dropWhile_le)
  moreover have "length (dropWhile (\<lambda>x. x \<notin> D) ys) \<le> length ys" by (rule length_dropWhile_le)
  ultimately have "length (dropWhile (\<lambda>x. x \<notin> D) ys) - 1 < length xs" by linarith
  then show "((D, drop 1 (dropWhile (\<lambda>x. x \<notin> D) ys)), D, xs) \<in> measure (length \<circ> snd)"
    by (simp del: length_greater_0_conv)
qed simp

declare tokens.simps [simp del]

fun strtok_all :: "nat \<Rightarrow> bytes \<Rightarrow> u32 \<Rightarrow> u32 \<Rightarrow> u32 \<Rightarrow> (u32 list \<times> bytes) option" where
  "strtok_all 0 m nxt s1 s2 = Some ([], m)"
| "strtok_all (Suc k) m nxt s1 s2 =
     Option.bind (strtok m nxt s1 s2) (\<lambda>(t, nxt', m').
       if t = null_ptr then Some ([], m')
       else map_option (\<lambda>(ts, m''). (t # ts, m'')) (strtok_all k m' nxt' null_ptr s2))"

lemma skip_delims_cstr:
  "cstr m p xs \<Longrightarrow> cstr m s2 ds \<Longrightarrow>
   skip_delims m p s2 = Some (p + of_nat (length (takeWhile (\<lambda>x. x \<in> set ds) xs)))"
  by (induction xs arbitrary: p) (simp_all add: skip_delims.simps in_set_cstr add.assoc)

lemma end_token_cstr:
  "cstr m q ys \<Longrightarrow> cstr m s2 ds \<Longrightarrow>
   end_token m q s2 = Some (let r = q + of_nat (length (takeWhile (\<lambda>x. x \<notin> set ds) ys)) in
     if dropWhile (\<lambda>x. x \<notin> set ds) ys = [] then (m, null_ptr) else (m(r := 0), r + 1))"
  by (induction ys arbitrary: q) (simp_all add: end_token.simps in_set_cstr add.assoc Let_def)

lemma cstr_skip: "cstr m p (xs @ ys) \<Longrightarrow> cstr m (p + of_nat (length xs)) ys"
  using cstr_drop [of m p "xs @ ys" "length xs"] by simp

lemma cstr_cut:
  assumes "cstr m q (ts @ ys)"
  shows "cstr (m(q + of_nat (length ts) := 0)) q ts"
proof -
  have n: "length ts < 2 ^ 32" using cstr_length [OF assms] by simp
  have "q + of_nat i \<noteq> q + of_nat (length ts)" if "i < length ts" for i
    using that n of_nat_u32_inj [of i "length ts"] by auto
  moreover have "ts ! i \<noteq> 0 \<and> m (q + of_nat i) = ts ! i" if "i < length ts" for i
    using assms that unfolding cstr_nth by (metis length_append nth_append trans_less_add1)
  ultimately show ?thesis by (simp add: cstr_nth)
qed

text \<open>One call on a non-empty remainder \<open>xs\<close> at \<open>p\<close>.\<close>

lemma strtok_step:
  assumes "cstr m p xs" and "cstr m s2 ds" and "p \<noteq> 0" and "s1 = p \<or> (s1 = 0 \<and> nxt = p)"
  defines "ys \<equiv> dropWhile (\<lambda>x. x \<in> set ds) xs"
  defines "q \<equiv> p + of_nat (length xs - length ys)"
  shows "strtok m nxt s1 s2 = Some (if ys = [] then (null_ptr, null_ptr, m)
    else let r = q + of_nat (length (takeWhile (\<lambda>x. x \<notin> set ds) ys)) in
      if dropWhile (\<lambda>x. x \<notin> set ds) ys = [] then (q, null_ptr, m) else (q, r + 1, m(r := 0)))"
    and "cstr m q ys"
proof -
  have xs: "xs = takeWhile (\<lambda>x. x \<in> set ds) xs @ ys" by (simp add: ys_def)
  then have "length xs = length (takeWhile (\<lambda>x. x \<in> set ds) xs) + length ys" by (metis length_append)
  then have len: "length (takeWhile (\<lambda>x. x \<in> set ds) xs) = length xs - length ys" by simp
  show q: "cstr m q ys" using cstr_skip [of m p "takeWhile (\<lambda>x. x \<in> set ds) xs" ys] assms(1) xs len
    by (simp add: q_def)
  have skip: "skip_delims m p s2 = Some q" using skip_delims_cstr [OF assms(1,2)] by (simp add: q_def len)
  have "m q = 0 \<longleftrightarrow> ys = []" using q by (cases ys) auto
  then show "strtok m nxt s1 s2 = Some (if ys = [] then (null_ptr, null_ptr, m)
    else let r = q + of_nat (length (takeWhile (\<lambda>x. x \<notin> set ds) ys)) in
      if dropWhile (\<lambda>x. x \<notin> set ds) ys = [] then (q, null_ptr, m) else (q, r + 1, m(r := 0)))"
    using assms(3,4) skip end_token_cstr [OF q assms(2)] by (auto simp: strtok_def Let_def)
qed

text \<open>
  The whole loop, for a string that does not wrap around the address space and a delimiter
  string outside it.
\<close>

lemma strtok_all_null: "strtok_all k m 0 0 s2 = Some ([], m)"
  by (cases k) (simp_all add: strtok_def)

lemma string_region:
  assumes "unat p + n < 2 ^ 32"
  shows "unat (p + of_nat n :: u32) = unat p + n"
  using assms by (subst unat_add_small) simp_all

lemma strtok_all_tokens:
  assumes "cstr m p xs" and "cstr m s2 ds" and "p \<noteq> 0" and "s1 = p \<or> (s1 = 0 \<and> nxt = p)"
    and "unat p + length xs < 2 ^ 32" and "length xs < k"
    and "\<And>a. unat (a - s2) \<le> length ds \<Longrightarrow> \<not> (unat p \<le> unat a \<and> unat a \<le> unat p + length xs)"
  shows "\<exists>ps m'. strtok_all k m nxt s1 s2 = Some (ps, m') \<and> list_all2 (cstr m') ps (tokens (set ds) xs)
    \<and> (\<forall>a. \<not> (unat p \<le> unat a \<and> unat a \<le> unat p + length xs) \<longrightarrow> m' a = m a)"
  using assms
proof (induction "length xs" arbitrary: xs m p s1 nxt k rule: less_induct)
  case less
  let ?D = "set ds"
  define ys where "ys = dropWhile (\<lambda>x. x \<in> ?D) xs"
  define q where "q = p + of_nat (length xs - length ys)"
  define ts where "ts = takeWhile (\<lambda>x. x \<notin> ?D) ys"
  define rs where "rs = dropWhile (\<lambda>x. x \<notin> ?D) ys"
  note step = strtok_step [OF less.prems(1-4), folded ys_def, folded q_def, folded ts_def rs_def]
  have ys_le: "length ys \<le> length xs" by (simp add: ys_def length_dropWhile_le)
  have split: "ys = ts @ rs" by (simp add: ts_def rs_def)
  have tok: "tokens ?D xs = (if ys = [] then [] else ts # tokens ?D (drop 1 rs))"
    by (subst tokens.simps) (simp add: Let_def ys_def ts_def rs_def)
  have uq: "unat q = unat p + (length xs - length ys)"
    unfolding q_def using less.prems(5) by (intro string_region) simp
  obtain j where k: "k = Suc j" using less.prems(6) by (cases k) auto
  have q0: "q \<noteq> 0" using uq less.prems(3) by (auto simp: unat_eq_0)
  show ?case
  proof (cases "ys = [] \<or> rs = []")
    case True
    then consider "ys = []" | "ys \<noteq> []" "rs = []" by blast
    then show ?thesis
    proof cases
      case 1
      with step(1) tok show ?thesis by (simp add: k)
    next
      case 2
      then have "ts = ys" using split by simp
      moreover have "tokens ?D [] = []" by (simp add: tokens.simps)
      ultimately show ?thesis using step 2 tok q0 by (simp add: k Let_def strtok_all_null)
    qed
  next
    case False
    then obtain c zs where rs: "rs = c # zs" by (cases rs) auto
    define r where "r = q + of_nat (length ts)"
    let ?m = "m(r := 0)"
    have lens: "length ys = length ts + Suc (length zs)" using split rs by simp
    have ur: "unat r = unat q + length ts"
      unfolding r_def using less.prems(5) uq lens ys_le by (intro string_region) simp
    have r1: "unat (r + 1) = unat r + 1" using string_region [of r 1] ur uq lens ys_le less.prems(5) by simp
    have out: "unat p \<le> unat r \<and> unat r \<le> unat p + length xs" using ur uq lens ys_le by simp
    have ds: "cstr ?m s2 ds" using less.prems(2,7) out by (intro cstr_frame [OF less.prems(2)]) auto
    have ts: "cstr ?m q ts" using cstr_cut [of m q ts rs] step(2) split by (simp add: r_def)
    have zs: "cstr ?m (r + 1) zs"
    proof -
      have "cstr m (q + of_nat (length (ts @ [c]))) zs"
        using cstr_skip [of m q "ts @ [c]" zs] step(2) split rs by simp
      then have "cstr m (r + 1) zs" by (simp add: r_def ac_simps)
      then show ?thesis
      proof (rule cstr_update)
        have "unat (r - (r + 1)) = 2 ^ 32 - 1" using unat_minus_1 by simp
        then show "length zs < unat (r - (r + 1))" using lens ys_le less.prems(5) by simp
      qed
    qed
    have "\<exists>ps m'. strtok_all j ?m (r + 1) 0 s2 = Some (ps, m') \<and> list_all2 (cstr m') ps (tokens ?D zs)
      \<and> (\<forall>a. \<not> (unat (r + 1) \<le> unat a \<and> unat a \<le> unat (r + 1) + length zs) \<longrightarrow> m' a = ?m a)"
    proof (rule less.hyps [OF _ zs ds])
      show "length zs < length xs" "length zs < j" using lens ys_le less.prems(6) k by auto
      show "r + 1 \<noteq> 0" using r1 by (auto simp: unat_eq_0 [symmetric])
      show "unat (r + 1) + length zs < 2 ^ 32" using r1 ur uq lens ys_le less.prems(5) by simp
      show "\<not> (unat (r + 1) \<le> unat a \<and> unat a \<le> unat (r + 1) + length zs)" if "unat (a - s2) \<le> length ds" for a
        using less.prems(7) [OF that] r1 ur uq lens ys_le by auto
    qed simp
    then obtain ps m' where rec: "strtok_all j ?m (r + 1) 0 s2 = Some (ps, m')"
      "list_all2 (cstr m') ps (tokens ?D zs)"
      "\<And>a. \<not> (unat (r + 1) \<le> unat a \<and> unat a \<le> unat (r + 1) + length zs) \<Longrightarrow> m' a = ?m a" by blast
    have frame: "m' a = m a" if "\<not> (unat p \<le> unat a \<and> unat a \<le> unat p + length xs)" for a
    proof -
      have "a \<noteq> r" using that out by auto
      moreover have "m' a = ?m a" by (rule rec(3)) (use that r1 ur uq lens ys_le in linarith)
      ultimately show ?thesis by simp
    qed
    have "cstr m' q ts"
    proof (rule cstr_frame [OF ts])
      fix a assume a: "unat (a - q) \<le> length ts"
      have "unat (q + (a - q)) = unat q + unat (a - q)"
        using a ur unat_u32_bound [of r] by (intro unat_add_small) simp
      then have "unat a \<le> unat r" using a ur by simp
      then show "m' a = ?m a" using r1 by (intro rec(3)) simp
    qed
    then have "list_all2 (cstr m') (q # ps) (tokens ?D xs)"
      using tok False rs rec(2) by simp
    moreover have "strtok_all k m nxt s1 s2 = Some (q # ps, m')"
      using step(1) False q0 rec(1) by (simp add: k Let_def r_def [symmetric])
    ultimately show ?thesis using frame by blast
  qed
qed

subsection \<open>Hexadecimal numbers\<close>

definition hex_value :: "u8 \<Rightarrow> nat option" where
  "hex_value c = (let n = unat c in
     if 48 \<le> n \<and> n \<le> 57 then Some (n - 48) else if 97 \<le> n \<and> n \<le> 102 then Some (n - 87)
     else if 65 \<le> n \<and> n \<le> 70 then Some (n - 55) else None)"

definition is_hex :: "u8 \<Rightarrow> bool" where
  "is_hex c \<longleftrightarrow> hex_value c \<noteq> None"

definition hex_number :: "u8 list \<Rightarrow> nat" where
  "hex_number ds = foldl (\<lambda>r d. r * 16 + the (hex_value d)) 0 ds"

lemma signed_byte:
  assumes "n < (256 :: nat)"
  shows "signed_take_bit 7 (int n) = (if n < 128 then int n else int n - 256)"
proof -
  have "take_bit 8 (int n) = int n" using assms by (intro take_bit_int_eq_self) auto
  moreover have "bit (int n) 7 \<longleftrightarrow> 128 \<le> n"
  proof (cases "n < 128")
    case False
    then have "int n div 2 ^ 7 = 1" using assms by simp
    then show ?thesis using False by (simp add: bit_iff_odd)
  qed (simp add: bit_iff_odd)
  ultimately show ?thesis by (simp add: signed_take_bit_eq_take_bit_minus)
qed

lemma sint_u8: "unat (c :: u8) = n \<Longrightarrow> sint c = (if n < 128 then int n else int n - 256)"
proof -
  assume n: "unat c = n"
  then have u: "uint c = int n" using uint_nat [of c] by simp
  have "n < 256" using unsigned_less [of c, where ?'a = nat] n by simp
  from signed_byte [OF this] show ?thesis by (simp add: sint_uint u)
qed

lemma hex_digit_value: "hex_digit c = map_option of_nat (hex_value c)"
proof -
  obtain n where n: "unat c = n" by blast
  have b: "n < 256" using unsigned_less [of c, where ?'a = nat] n by simp
  have of_int: "word_of_int (int n - int k) = (of_nat (n - k) :: u32)" if "k \<le> n" for k
    using that by (metis of_int_of_nat_eq of_nat_diff)
  show ?thesis unfolding hex_digit_def hex_value_def Let_def sint_u8 [OF n] n
    using b of_int [of 48] of_int [of 87] of_int [of 55] by auto
qed

lemma hex_value_bound: "hex_value c = Some v \<Longrightarrow> v < 16"
  by (auto simp: hex_value_def Let_def split: if_splits)

lemma hex_shift: "v < 16 \<Longrightarrow> push_bit 4 (of_nat r :: u32) OR of_nat v = of_nat (r * 16 + v)"
proof -
  assume v: "v < 16"
  have "push_bit 4 (of_nat r :: u32) AND of_nat v = 0"
  proof (rule bit_eqI)
    fix n
    have "\<not> bit (of_nat v :: u32) n" if "4 \<le> n"
    proof -
      have "v div 2 ^ n = 0"
      proof -
        have "(2 ^ 4 :: nat) \<le> 2 ^ n" using that by (rule power_increasing) simp
        then show ?thesis using v by simp
      qed
      moreover have "bit (of_nat v :: u32) n \<longleftrightarrow> bit (unat (of_nat v :: u32)) n" by (simp add: bit_unsigned_iff)
      ultimately show ?thesis using v by (simp add: bit_iff_odd)
    qed
    then show "bit (push_bit 4 (of_nat r :: u32) AND of_nat v) n = bit (0 :: u32) n"
      by (auto simp: bit_simps)
  qed
  then have "push_bit 4 (of_nat r :: u32) OR of_nat v = push_bit 4 (of_nat r) + of_nat v"
    by (rule disjunctive_add_eq_or [symmetric])
  then show ?thesis by (simp add: push_bit_eq_mult)
qed

lemma hex_loop_cstr:
  "cstr m s xs \<Longrightarrow> hex_loop m s (of_nat r) =
   Some (of_nat (foldl (\<lambda>r d. r * 16 + the (hex_value d)) r (takeWhile is_hex xs)))"
proof (induction xs arbitrary: s r)
  case Nil
  then show ?case by (simp add: hex_loop.simps)
next
  case (Cons x xs)
  show ?case
  proof (cases "hex_value x")
    case None
    with Cons.prems show ?thesis by (simp add: hex_loop.simps hex_digit_value is_hex_def)
  next
    case (Some v)
    have "hex_loop m s (of_nat r) = hex_loop m (s + 1) (of_nat (r * 16 + v))"
      using Cons.prems Some hex_shift [OF hex_value_bound [OF Some], of r]
      by (subst hex_loop.simps) (simp add: hex_digit_value)
    with Cons.IH [of "s + 1" "r * 16 + v"] Cons.prems Some show ?thesis by (simp add: is_hex_def)
  qed
qed

text \<open>The blanks and the optional prefix before the digits.\<close>

definition is_blank :: "u8 \<Rightarrow> bool" where
  "is_blank c \<longleftrightarrow> c = 32 \<or> c = 9"

definition strip_0x :: "u8 list \<Rightarrow> u8 list" where
  "strip_0x xs = (case xs of a # b # ys \<Rightarrow> if a = 48 \<and> (b = 120 \<or> b = 88) then ys else xs | _ \<Rightarrow> xs)"

lemma skip_blanks_cstr:
  "cstr m s xs \<Longrightarrow> skip_blanks m s = Some (s + of_nat (length (takeWhile is_blank xs)))"
  by (induction xs arbitrary: s) (simp_all add: skip_blanks.simps is_blank_def add.assoc)

lemma strip_0x_cstr:
  "cstr m p ys \<Longrightarrow> cstr m (if m p = 48 \<and> (m (p + 1) = 120 \<or> m (p + 1) = 88) then p + 2 else p) (strip_0x ys)"
proof (cases ys)
  case (Cons a zs)
  assume "cstr m p ys"
  with Cons show ?thesis by (cases zs) (auto simp: strip_0x_def add.assoc)
qed (simp add: strip_0x_def)

lemma HexStrToInt_cstr:
  assumes "cstr m s xs"
  shows "HexStrToInt m s = Some (of_nat (hex_number (takeWhile is_hex (strip_0x (dropWhile is_blank xs)))))"
proof -
  let ?p = "s + of_nat (length (takeWhile is_blank xs))" and ?ys = "dropWhile is_blank xs"
  have p: "cstr m ?p ?ys" using cstr_skip [of m s "takeWhile is_blank xs" ?ys] assms by simp
  define q where "q = (if m ?p = 48 \<and> (m (?p + 1) = 120 \<or> m (?p + 1) = 88) then ?p + 2 else ?p)"
  have "cstr m q (strip_0x ?ys)"
    unfolding q_def by (rule strip_0x_cstr [OF p])
  from hex_loop_cstr [OF this, of 0] skip_blanks_cstr [OF assms]
  show ?thesis by (simp add: HexStrToInt_def q_def [symmetric] hex_number_def)
qed

subsection \<open>Appending, moving and searching backwards\<close>

lemma placed_append:
  assumes "cstr m d xs" and "0 \<notin> set ys" and "length xs + length ys < 2 ^ 32"
  shows "cstr (placed m (d + of_nat (length xs)) (ys @ [0])) d (xs @ ys)"
proof -
  let ?e = "d + of_nat (length xs)"
  have before: "placed m ?e (ys @ [0]) (d + of_nat i) = xs ! i \<and> xs ! i \<noteq> 0" if i: "i < length xs" for i
  proof -
    have "d + of_nat i - ?e = - of_nat (length xs - i)" using i by (simp add: of_nat_diff)
    moreover have "(of_nat (length xs - i) :: u32) \<noteq> 0"
      using i assms(3) of_nat_u32_inj [of "length xs - i" 0] by simp
    ultimately have "unat (d + of_nat i - ?e) = 2 ^ 32 - (length xs - i)"
      using unat_neg [of "of_nat (length xs - i)"] assms(3) by simp
    then have "\<not> unat (d + of_nat i - ?e) < length (ys @ [0])" using i assms(3) by simp
    then show ?thesis using assms(1) i by (simp add: placed_def cstr_nth)
  qed
  have after: "placed m ?e (ys @ [0]) (d + of_nat (length xs + j)) = (ys @ [0]) ! j" if j: "j \<le> length ys" for j
  proof -
    have "d + of_nat (length xs + j) - ?e = of_nat j" by simp
    moreover have "unat (of_nat j :: u32) = j" using j assms(3) by simp
    ultimately show ?thesis using j by (simp add: placed_def)
  qed
  show ?thesis unfolding cstr_nth
  proof (intro conjI allI impI)
    fix i assume i: "i < length (xs @ ys)"
    have "(xs @ ys) ! i \<in> set (xs @ ys)" using i by (rule nth_mem)
    then show "(xs @ ys) ! i \<noteq> 0" using cstr_no_nul [OF assms(1)] assms(2) by auto
    show "placed m ?e (ys @ [0]) (d + of_nat i) = (xs @ ys) ! i"
    proof (cases "i < length xs")
      case True
      then show ?thesis using before by (simp add: nth_append)
    next
      case False
      then obtain j where j: "i = length xs + j" using le_Suc_ex [of "length xs" i] by auto
      then show ?thesis using after [of j] i by (simp add: nth_append del: of_nat_add)
    qed
  next
    show "placed m ?e (ys @ [0]) (d + of_nat (length (xs @ ys))) = 0" using after [of "length ys"] by simp
  qed
qed

lemma strcat_cstr:
  assumes "cstr m d xs" and "cstr m s ys" and "unat (d + of_nat (length xs) - s) \<notin> {1..length ys}"
  shows "strcat m d s = Some (d, placed m (d + of_nat (length xs)) (ys @ [0]))"
proof -
  have "(if m d \<noteq> 0 then seek_nul m (d + 1) else Some d) = Some (d + of_nat (length xs))"
    using seek_nul_cstr [OF assms(1)] seek_nul.simps [of m d] by (cases xs) (use assms(1) in auto)
  with strcpy_cstr [OF assms(2,3)] show ?thesis by (simp add: strcat_def)
qed

lemma strncat_cstr:
  assumes "cstr m d xs" and "cstr m s ys" and "unat (d + of_nat (length xs) - s) \<notin> {1..length ys}"
    and "unat n \<le> length ys" and "unat n + 1 < 2 ^ 32"
  shows "strncat m d s n = Some (d, (placed m (d + of_nat (length xs)) (take (unat n) ys))(d + of_nat (length xs) + n := 0))"
  using seek_nul_cstr [OF assms(1)] copy_upto_memcpy [OF assms(2,3), of "unat n"]
    memcpy_string [OF assms(2,3), of "unat n"] assms(4) by (simp add: strncat_def)

lemma past_nul_cstr: "cstr m (s + i) xs \<Longrightarrow> past_nul m s i = Some (i + of_nat (length xs) + 1)"
proof (induction xs arbitrary: i)
  case (Cons x xs)
  then have "past_nul m s (i + 1) = Some (i + 1 + of_nat (length xs) + 1)" by (simp add: add.assoc)
  with Cons.prems show ?case by (subst past_nul.simps) (simp add: add.assoc)
qed (simp add: past_nul.simps)

lemma strrchr_loop_cstr:
  assumes "cstr m s xs" and "k \<le> length xs"
  shows "strrchr_loop m s c (of_nat (Suc k)) = Some (let zs = take (Suc k) (xs @ [0]) in
    if c \<in> set zs then s + of_nat (k - length (takeWhile (\<lambda>x. x \<noteq> c) (rev zs))) else null_ptr)"
  using assms(2)
proof (induction k)
  case 0
  have "m s = (xs @ [0]) ! 0" using cstr_byte [OF assms(1), of 0] by simp
  moreover have "take (Suc 0) (xs @ [0]) = [(xs @ [0]) ! 0]" by (cases xs) simp_all
  ultimately show ?case by (subst strrchr_loop.simps) (auto simp del: take_append)
next
  case (Suc k)
  have k: "Suc k < 2 ^ 32" using Suc.prems cstr_length [OF assms(1)] by simp
  then have u: "unat (of_nat (Suc k) :: u32) = Suc k" by (simp only: unat_of_nat_small)
  have byte: "m (s + of_nat (Suc k)) = (xs @ [0]) ! Suc k"
    using cstr_byte [OF assms(1), of "of_nat (Suc k)"] Suc.prems unfolding u by simp
  have nz: "(of_nat (Suc k) :: u32) \<noteq> 0" using u by (metis Zero_not_Suc unat_0)
  have pred: "of_nat (Suc (Suc k)) - 1 = (of_nat (Suc k) :: u32)" by simp
  have zs: "take (Suc (Suc k)) (xs @ [0]) = take (Suc k) (xs @ [0]) @ [(xs @ [0]) ! Suc k]"
    using Suc.prems by (intro take_Suc_conv_app_nth) simp
  show ?case unfolding zs
    by (subst strrchr_loop.simps) (use Suc byte nz in \<open>simp add: pred Let_def del: of_nat_Suc\<close>)
qed

lemma strrchr_cstr:
  assumes "cstr m s xs"
  shows "strrchr m s c = Some (let zs = xs @ [0] in
    if ucast c \<in> set zs then s + of_nat (length xs - length (takeWhile (\<lambda>x. x \<noteq> ucast c) (rev zs))) else null_ptr)"
  using past_nul_cstr [of m s 0 xs] assms strrchr_loop_cstr [OF assms order_refl, of "ucast c"]
  by (simp add: strrchr_def ac_simps)

lemma in_block_iff:
  assumes "unat d + n \<le> 2 ^ 32"
  shows "unat (a - d :: u32) < n \<longleftrightarrow> unat d \<le> unat a \<and> unat a < unat d + n"
proof (cases "d \<le> a")
  case True
  then show ?thesis by (auto simp: unat_sub word_le_nat_alt)
next
  case False
  then have "unat (d - a) = unat d - unat a" "d - a \<noteq> 0" by (auto simp: unat_sub word_le_nat_alt)
  moreover have "a - d = - (d - a)" by simp
  ultimately have "unat (a - d) = 2 ^ 32 - (unat d - unat a)" using unat_neg by metis
  with False assms show ?thesis by (simp add: word_le_nat_alt)
qed

lemma memmove_at:
  assumes "unat d + unat n \<le> 2 ^ 32" and "unat s + unat n \<le> 2 ^ 32"
  shows "snd (memmove m d s n) a =
    (if unat d \<le> unat a \<and> unat a < unat d + unat n then m (s + (a - d)) else m a)"
proof (cases "d \<le> s")
  case True
  have "unat (d - s) \<notin> {1..<unat n}"
  proof (cases "d = s")
    case False
    then have "unat (s - d) = unat s - unat d" "s - d \<noteq> 0" using False True by (auto simp: unat_sub)
    moreover have "d - s = - (s - d)" by simp
    ultimately have "unat (d - s) = 2 ^ 32 - (unat s - unat d)" using unat_neg by metis
    then show ?thesis using assms by auto
  qed simp
  from memcpy_loop_at [OF _ this] True show ?thesis
    using in_block_iff [OF assms(1)] unat_u32_bound [of n] by (simp add: memmove_def)
next
  case False
  then have "unat (d - s) = unat d - unat s" "d - s \<noteq> 0" by (auto simp: unat_sub word_le_nat_alt)
  moreover have "s + n - (d + n) = - (d - s)" by simp
  ultimately have "unat (s + n - (d + n)) = 2 ^ 32 - (unat d - unat s)" using unat_neg by metis
  then have "unat (s + n - (d + n)) \<notin> {1..<unat n}" using assms by auto
  from memmove_down_at [OF _ this] False show ?thesis
    using in_block_iff [OF assms(1)] unat_u32_bound [of n] block_end_iff [of d n a] by (simp add: memmove_def)
qed

subsection \<open>Properties\<close>

text \<open>A memory holding given bytes from address 0x1000 on, zero elsewhere.\<close>

definition sample_mem :: "u8 list \<Rightarrow> bytes" where
  "sample_mem bs = placed (\<lambda>_. 0) 0x1000 bs"

text \<open>
  Property C35. \<^verbatim>\<open>memmove\<close> moves the bytes of the source range as they were before the call,
  however the two ranges overlap, and changes nothing outside the destination range.
\<close>

theorem memmove_correct:
  assumes "unat s1 + unat n \<le> 2 ^ 32" and "unat s2 + unat n \<le> 2 ^ 32"
  shows "memmove m s1 s2 n = (s1, \<lambda>a. if unat s1 \<le> unat a \<and> unat a < unat s1 + unat n then m (s2 + (a - s1)) else m a)"
proof -
  have "snd (memmove m s1 s2 n) = (\<lambda>a. if unat s1 \<le> unat a \<and> unat a < unat s1 + unat n then m (s2 + (a - s1)) else m a)"
    by (rule ext) (rule memmove_at [OF assms])
  then show ?thesis by (simp add: memmove_def)
qed

theorem memmove_correct_witness:
  "snd (memmove (sample_mem [1, 2, 3]) 0x1001 0x1000 2) 0x1002 = 2"
proof -
  have "sample_mem [1, 2, 3] 0x1001 = 2" by code_simp
  then show ?thesis using memmove_correct [of "0x1001" 2 "0x1000" "sample_mem [1, 2, 3]"] by simp
qed

text \<open>
  \<^verbatim>\<open>strcmp\<close> returns, and its sign is the lexicographic order of the two strings
  as unsigned bytes: negative, zero or positive for less, equal or greater.
\<close>

theorem strcmp_lexicographic:
  assumes "cstr m s1 xs" and "cstr m s2 ys"
  shows "\<exists>r. strcmp m s1 s2 = Some r \<and> (r < 0 \<longleftrightarrow> xs < ys) \<and> (r = 0 \<longleftrightarrow> xs = ys) \<and> (0 < r \<longleftrightarrow> ys < xs)"
  using strcmp_cstr [OF assms] .

theorem strcmp_lexicographic_witness:
  "\<exists>r. strcmp (sample_mem [97, 98, 0, 97, 200, 0]) 0x1000 0x1003 = Some r \<and> r < 0"
proof -
  have a: "cstr (sample_mem [97, 98, 0, 97, 200, 0]) 0x1000 [97, 98]" by code_simp
  have b: "cstr (sample_mem [97, 98, 0, 97, 200, 0]) 0x1003 [97, 200]" by code_simp
  have "[97, 98] < [97, 200 :: u8]" by code_simp
  with strcmp_lexicographic [OF a b] show ?thesis by auto
qed

text \<open>
  Property C36. Repeated calls of \<^verbatim>\<open>strtok\<close> return, in order, pointers to exactly the maximal
  delimiter-free pieces of the string, each NUL-terminated when the loop ends, then null;
  no byte outside the string is changed.
\<close>

theorem strtok_tokenises:
  assumes "cstr m s xs" and "cstr m delim ds" and "s \<noteq> null_ptr" and "unat s + length xs < 2 ^ 32"
    and "\<And>a. unat (a - delim) \<le> length ds \<Longrightarrow> \<not> (unat s \<le> unat a \<and> unat a \<le> unat s + length xs)"
  shows "\<exists>ps m'. strtok_all (Suc (length xs)) m nxt s delim = Some (ps, m')
    \<and> list_all2 (cstr m') ps (tokens (set ds) xs)
    \<and> (\<forall>a. \<not> (unat s \<le> unat a \<and> unat a \<le> unat s + length xs) \<longrightarrow> m' a = m a)"
  by (rule strtok_all_tokens) (use assms in auto)

theorem strtok_tokenises_witness:
  "\<exists>ps m'. strtok_all 5 (sample_mem [44, 97, 44, 98, 0, 44, 0]) null_ptr 0x1000 0x1005 = Some (ps, m')
     \<and> list_all2 (cstr m') ps [[97], [98]]"
proof -
  let ?m = "sample_mem [44, 97, 44, 98, 0, 44, 0]"
  have a: "cstr ?m 0x1000 [44, 97, 44, 98]" by code_simp
  have b: "cstr ?m 0x1005 [44]" by code_simp
  have apart: "\<not> (unat (0x1000 :: u32) \<le> unat a \<and> unat a \<le> unat (0x1000 :: u32) + 4)" if "unat (a - 0x1005) \<le> 1" for a :: u32
  proof -
    have "unat a = 0x1005 + unat (a - 0x1005)" using that unat_add_small [of "0x1005" "a - 0x1005"] by simp
    then show ?thesis by simp
  qed
  have "tokens {44} [44, 97, 44, 98] = [[97], [98 :: u8]]" by (simp add: tokens.simps)
  moreover have five: "Suc (length [44, 97, 44, 98 :: u8]) = 5" by simp
  ultimately show ?thesis using strtok_tokenises [OF a b, of null_ptr, unfolded five] apart by auto
qed

text \<open>
  \<^verbatim>\<open>strstr\<close> returns the first position of a non-empty string at which the second
  string occurs, and null when it occurs nowhere. For an empty first string it returns
  null even when the second is empty too.
\<close>

theorem strstr_first_occurrence:
  assumes "cstr m s1 xs" and "cstr m s2 ys"
  shows "strstr m s1 s2 = Some (if \<exists>i<length xs. prefix ys (drop i xs)
     then s1 + of_nat (LEAST i. prefix ys (drop i xs)) else null_ptr)"
  using strstr_cstr [OF assms] .

theorem strstr_first_occurrence_witness:
  "cstr (\<lambda>_. 0) 0x1000 [] \<and> strstr (\<lambda>_. 0) 0x1000 0x2000 = Some null_ptr"
  using strstr_first_occurrence [of "\<lambda>_. 0" "0x1000" "[]" "0x2000" "[]"] by simp

text \<open>
  \<^verbatim>\<open>strncpy\<close> writes exactly \<open>n\<close> bytes at the destination: the first \<open>n\<close> bytes of
  the source string, padded with NUL bytes; every other byte of memory is unchanged.
\<close>

theorem strncpy_pads:
  assumes "cstr m s xs" and "unat (d - s) \<notin> {1..length xs}"
  shows "strncpy m d s n = (d, placed m d (take (unat n) xs @ replicate (unat n - length xs) 0))"
  using strncpy_cstr [OF assms, of n] by (simp add: strncpy_def split: prod.splits)

theorem strncpy_pads_witness:
  "snd (strncpy (sample_mem [97, 98, 0]) 0x2000 0x1000 5) 0x2004 = 0
    \<and> snd (strncpy (sample_mem [97, 98, 0]) 0x2000 0x1000 5) 0x2001 = 98"
proof -
  have "cstr (sample_mem [97, 98, 0]) 0x1000 [97, 98]" by code_simp
  from strncpy_pads [OF this, of "0x2000" 5] show ?thesis by (simp add: placed_def)
qed

text \<open>
  \<^verbatim>\<open>strcat\<close> leaves the concatenation of the two strings at its first argument and
  returns that argument.
\<close>

theorem strcat_appends:
  assumes "cstr m d xs" and "cstr m s ys" and "unat (d + of_nat (length xs) - s) \<notin> {1..length ys}"
    and "length xs + length ys < 2 ^ 32"
  shows "\<exists>m'. strcat m d s = Some (d, m') \<and> cstr m' d (xs @ ys)
    \<and> (\<forall>a. length ys < unat (a - (d + of_nat (length xs))) \<longrightarrow> m' a = m a)"
  using strcat_cstr [OF assms(1-3)] placed_append [OF assms(1) cstr_no_nul [OF assms(2)] assms(4)]
  by (auto simp: placed_def)

theorem strcat_appends_witness:
  "\<exists>m'. strcat (sample_mem [97, 0, 98, 99, 0]) 0x1000 0x1002 = Some (0x1000, m') \<and> cstr m' 0x1000 [97, 98, 99]"
proof -
  have a: "cstr (sample_mem [97, 0, 98, 99, 0]) 0x1000 [97]" by code_simp
  have b: "cstr (sample_mem [97, 0, 98, 99, 0]) 0x1002 [98, 99]" by code_simp
  have "unat (0x1000 + of_nat (length [97 :: u8]) - 0x1002 :: u32) \<notin> {1..length [98, 99 :: u8]}" by (simp add: unat_minus_1)
  from strcat_appends [OF a b this] show ?thesis by auto
qed

text \<open>
  \<^verbatim>\<open>HexStrToInt\<close> skips blanks and an optional \<^verbatim>\<open>0x\<close> and returns the value of the
  longest run of hexadecimal digits that follows, modulo \<open>2^32\<close>.
\<close>

theorem HexStrToInt_value:
  assumes "cstr m s xs"
  shows "HexStrToInt m s = Some (of_nat (hex_number (takeWhile is_hex (strip_0x (dropWhile is_blank xs)))))"
  using HexStrToInt_cstr [OF assms] .

theorem HexStrToInt_value_witness:
  "HexStrToInt (sample_mem [32, 48, 120, 49, 70, 103, 0]) 0x1000 = Some 0x1F"
proof -
  have "cstr (sample_mem [32, 48, 120, 49, 70, 103, 0]) 0x1000 [32, 48, 120, 49, 70, 103]" by code_simp
  from HexStrToInt_value [OF this] show ?thesis
    by (simp add: is_blank_def strip_0x_def is_hex_def hex_value_def hex_number_def Let_def)
qed

end
