(* ===== verification/Fat_Volume.thy ===== *)
theory Fat_Volume
  imports Prelude "HOL-Library.Monad_Syntax"
begin

text \<open>
  The FAT volume layer: the disk interface \<^verbatim>\<open>core/filesystem/FatFs/diskio.cpp\<close> and the sector
  window, FAT entries and cluster chains of \<^verbatim>\<open>core/filesystem/FatFs/ff.c\<close>, as configured by
  \<^verbatim>\<open>ffconf.h\<close> (read/write, 512-byte sectors, no exFAT, no TRIM, FSInfo trusted). A function of
  the source that takes the filesystem object takes and returns the record \<open>fatfs\<close>, which
  also holds the state of the drive below it. A loop over a cluster chain is a
  \<^theory_text>\<open>partial_function\<close>, where \<open>None\<close> is a loop that never ends.
\<close>

subsection \<open>Result codes\<close>

datatype FRESULT = FR_OK | FR_DISK_ERR | FR_INT_ERR | FR_NOT_READY | FR_NO_FILE | FR_NO_PATH
  | FR_INVALID_NAME | FR_DENIED | FR_EXIST | FR_INVALID_OBJECT | FR_WRITE_PROTECTED
  | FR_INVALID_DRIVE | FR_NOT_ENABLED | FR_NO_FILESYSTEM | FR_MKFS_ABORTED | FR_TIMEOUT
  | FR_LOCKED | FR_NOT_ENOUGH_CORE | FR_TOO_MANY_OPEN_FILES | FR_INVALID_PARAMETER

datatype DRESULT = RES_OK | RES_ERROR | RES_WRPRT | RES_NOTRDY | RES_PARERR

subsection \<open>The drive\<close>

text \<open>
  The ATA device is hardware: its stored sectors, and for each sector whether the device
  reports an error on reading or writing it. \<^verbatim>\<open>Read28\<close> returns nothing and leaves the caller's
  buffer as it was when the device reports an error. \<^verbatim>\<open>Write28\<close> reports an error of the transfer,
  and after the transfer what the closing \<^verbatim>\<open>Flush\<close> reports.
\<close>

record ata =
  ata_sectors :: "u32 \<Rightarrow> u8 list"
  ata_rd_err :: "u32 \<Rightarrow> bool"
  ata_wr_err :: "u32 \<Rightarrow> bool"
  ata_flush_err :: bool

definition Read28 :: "ata \<Rightarrow> u32 \<Rightarrow> u8 list \<Rightarrow> u8 list" where
  "Read28 d sectorNum buf = (if 0x0FFFFFFF < sectorNum \<or> ata_rd_err d sectorNum then buf else ata_sectors d sectorNum)"

definition Write28 :: "ata \<Rightarrow> u32 \<Rightarrow> u8 list \<Rightarrow> bool \<times> ata" where
  "Write28 d sectorNum buf =
     (if 0x0FFFFFFF < sectorNum \<or> ata_wr_err d sectorNum then (False, d)
      else (\<not> ata_flush_err d, d\<lparr>ata_sectors := (ata_sectors d)(sectorNum := buf)\<rparr>))"

record drive =
  g_ata :: "ata option"
  g_partLBA :: u32
  g_partSize :: u32

abbreviation FF_VOLUMES :: u8 where "FF_VOLUMES \<equiv> 2"
abbreviation STA_NOINIT :: u8 where "STA_NOINIT \<equiv> 1"
abbreviation STA_PROTECT :: u8 where "STA_PROTECT \<equiv> 4"

definition fatfs_init :: "u8 \<Rightarrow> ata \<Rightarrow> u32 \<Rightarrow> u32 \<Rightarrow> drive \<Rightarrow> drive" where
  "fatfs_init pdrv a partitionStartLBA partitionSizeSectors dr =
     (if FF_VOLUMES \<le> pdrv then dr
      else dr\<lparr>g_ata := Some a, g_partLBA := partitionStartLBA, g_partSize := partitionSizeSectors\<rparr>)"

definition disk_initialize :: "u8 \<Rightarrow> drive \<Rightarrow> u8" where
  "disk_initialize pdrv dr = (if FF_VOLUMES \<le> pdrv \<or> g_ata dr = None then STA_NOINIT else 0)"

definition disk_status :: "u8 \<Rightarrow> drive \<Rightarrow> u8" where
  "disk_status pdrv dr = (if FF_VOLUMES \<le> pdrv \<or> g_ata dr = None then STA_NOINIT else 0)"

fun read_sectors :: "ata \<Rightarrow> u32 \<Rightarrow> nat \<Rightarrow> u8 list \<Rightarrow> u8 list" where
  "read_sectors d start 0 buff = buff"
| "read_sectors d start (Suc n) buff =
     Read28 d start (take 512 buff) @ read_sectors d (start + 1) n (drop 512 buff)"

definition bad_range :: "u8 \<Rightarrow> drive \<Rightarrow> u32 \<Rightarrow> u32 \<Rightarrow> bool" where
  "bad_range pdrv dr sector count \<longleftrightarrow> FF_VOLUMES \<le> pdrv \<or> g_ata dr = None
     \<or> g_partSize dr \<le> sector \<or> g_partSize dr - sector < count"

definition disk_read :: "u8 \<Rightarrow> drive \<Rightarrow> u8 list \<Rightarrow> u32 \<Rightarrow> u32 \<Rightarrow> DRESULT \<times> u8 list" where
  "disk_read pdrv dr buff sector count =
     (if bad_range pdrv dr sector count then (RES_PARERR, buff)
      else (RES_OK, read_sectors (the (g_ata dr)) (g_partLBA dr + sector) (unat count) buff))"

fun write_sectors :: "ata \<Rightarrow> u32 \<Rightarrow> nat \<Rightarrow> u8 list \<Rightarrow> bool \<times> ata" where
  "write_sectors d start 0 buff = (True, d)"
| "write_sectors d start (Suc n) buff =
     (case Write28 d start (take 512 buff) of
        (False, d') \<Rightarrow> (False, d')
      | (True, d') \<Rightarrow> write_sectors d' (start + 1) n (drop 512 buff))"

definition disk_write :: "u8 \<Rightarrow> drive \<Rightarrow> u8 list \<Rightarrow> u32 \<Rightarrow> u32 \<Rightarrow> DRESULT \<times> drive" where
  "disk_write pdrv dr buff sector count =
     (if bad_range pdrv dr sector count then (RES_PARERR, dr)
      else case write_sectors (the (g_ata dr)) (g_partLBA dr + sector) (unat count) buff of
        (ok, d) \<Rightarrow> (if ok then RES_OK else RES_ERROR, dr\<lparr>g_ata := Some d\<rparr>))"

datatype ioctl = CTRL_SYNC | GET_SECTOR_COUNT | GET_SECTOR_SIZE | GET_BLOCK_SIZE | OTHER_IOCTL

text \<open>The second component is the value stored through \<^verbatim>\<open>buff\<close>, if any.\<close>

definition disk_ioctl :: "u8 \<Rightarrow> drive \<Rightarrow> ioctl \<Rightarrow> DRESULT \<times> u32 option" where
  "disk_ioctl pdrv dr cmd =
     (if FF_VOLUMES \<le> pdrv \<or> g_ata dr = None then (RES_PARERR, None)
      else case cmd of
        CTRL_SYNC \<Rightarrow> (if ata_flush_err (the (g_ata dr)) then RES_ERROR else RES_OK, None)
      | GET_SECTOR_COUNT \<Rightarrow> (RES_OK, Some (g_partSize dr))
      | GET_SECTOR_SIZE \<Rightarrow> (RES_OK, Some 512)
      | GET_BLOCK_SIZE \<Rightarrow> (RES_OK, Some 1)
      | OTHER_IOCTL \<Rightarrow> (RES_PARERR, None))"

subsection \<open>The filesystem object\<close>

abbreviation SS :: u32 where "SS \<equiv> 512"
abbreviation FS_FAT12 :: u8 where "FS_FAT12 \<equiv> 1"
abbreviation FS_FAT16 :: u8 where "FS_FAT16 \<equiv> 2"
abbreviation FS_FAT32 :: u8 where "FS_FAT32 \<equiv> 3"

record fatfs =
  fs_type :: u8
  pdrv :: u8
  n_fats :: u8
  wflag :: u8
  fsi_flag :: u8
  fs_id :: u16
  n_rootdir :: u16
  csize :: u16
  last_clst :: u32
  free_clst :: u32
  n_fatent :: u32
  fsize :: u32
  winsect :: u32
  volbase :: u32
  fatbase :: u32
  dirbase :: u32
  database :: u32
  win :: "u8 list"
  lfnbuf :: "u16 list"
  drv :: drive

subsection \<open>Little-endian words\<close>

definition ld_16 :: "u8 list \<Rightarrow> nat \<Rightarrow> u16" where
  "ld_16 p ofs = push_bit 8 (ucast (p ! (ofs + 1))) OR ucast (p ! ofs)"

definition ld_32 :: "u8 list \<Rightarrow> nat \<Rightarrow> u32" where
  "ld_32 p ofs =
     (let rv = ucast (p ! (ofs + 3));
          rv = push_bit 8 rv OR ucast (p ! (ofs + 2));
          rv = push_bit 8 rv OR ucast (p ! (ofs + 1)) in
      push_bit 8 rv OR ucast (p ! ofs))"

definition st_16 :: "u8 list \<Rightarrow> nat \<Rightarrow> u16 \<Rightarrow> u8 list" where
  "st_16 p ofs v = p[ofs := ucast v, ofs + 1 := ucast (drop_bit 8 v)]"

definition st_32 :: "u8 list \<Rightarrow> nat \<Rightarrow> u32 \<Rightarrow> u8 list" where
  "st_32 p ofs v = p[ofs := ucast v, ofs + 1 := ucast (drop_bit 8 v), ofs + 2 := ucast (drop_bit 16 v),
     ofs + 3 := ucast (drop_bit 24 v)]"

subsection \<open>The sector window\<close>

definition sync_window :: "fatfs \<Rightarrow> FRESULT \<times> fatfs" where
  "sync_window fs =
     (if wflag fs \<noteq> 0 then
        case disk_write (pdrv fs) (drv fs) (win fs) (winsect fs) 1 of
          (RES_OK, dr) \<Rightarrow>
            let fs = fs\<lparr>drv := dr, wflag := 0\<rparr> in
            (FR_OK,
             if winsect fs - fatbase fs < fsize fs \<and> n_fats fs = 2
             then fs\<lparr>drv := snd (disk_write (pdrv fs) (drv fs) (win fs) (winsect fs + fsize fs) 1)\<rparr>
             else fs)
        | (_, dr) \<Rightarrow> (FR_DISK_ERR, fs\<lparr>drv := dr\<rparr>)
      else (FR_OK, fs))"

definition move_window :: "fatfs \<Rightarrow> u32 \<Rightarrow> FRESULT \<times> fatfs" where
  "move_window fs sect =
     (if sect \<noteq> winsect fs then
        case sync_window fs of
          (FR_OK, fs) \<Rightarrow>
            (case disk_read (pdrv fs) (drv fs) (win fs) sect 1 of
               (RES_OK, buf) \<Rightarrow> (FR_OK, fs\<lparr>win := buf, winsect := sect\<rparr>)
             | (_, buf) \<Rightarrow> (FR_DISK_ERR, fs\<lparr>win := buf, winsect := 0 - 1\<rparr>))
        | (res, fs) \<Rightarrow> (res, fs)
      else (FR_OK, fs))"

definition fsinfo_sector :: "fatfs \<Rightarrow> u8 list" where
  "fsinfo_sector fs =
     (let w = replicate 512 0;
          w = st_32 w 0 0x41615252;
          w = st_32 w 484 0x61417272;
          w = st_32 w 488 (free_clst fs);
          w = st_32 w 492 (last_clst fs) in
      st_32 w 508 0xAA550000)"

definition sync_fs :: "fatfs \<Rightarrow> FRESULT \<times> fatfs" where
  "sync_fs fs =
     (case sync_window fs of
        (FR_OK, fs) \<Rightarrow>
          let fs = (if fsi_flag fs = 1 then
                      let fs = fs\<lparr>fsi_flag := 0\<rparr> in
                      if fs_type fs = FS_FAT32 then
                        let fs = fs\<lparr>win := fsinfo_sector fs, winsect := volbase fs + 1\<rparr> in
                        fs\<lparr>drv := snd (disk_write (pdrv fs) (drv fs) (win fs) (winsect fs) 1)\<rparr>
                      else fs
                    else fs) in
          (if fst (disk_ioctl (pdrv fs) (drv fs) CTRL_SYNC) = RES_OK then FR_OK else FR_DISK_ERR, fs)
      | (res, fs) \<Rightarrow> (res, fs))"

definition clst2sect :: "fatfs \<Rightarrow> u32 \<Rightarrow> u32" where
  "clst2sect fs clst =
     (let clst = clst - 2 in
      if n_fatent fs - 2 \<le> clst then 0 else database fs + ucast (csize fs) * clst)"

subsection \<open>FAT entries\<close>

definition get_fat12 :: "u32 \<Rightarrow> fatfs \<Rightarrow> u32 \<times> fatfs" where
  "get_fat12 clst fs =
     (let bc = clst + clst div 2 in
      case move_window fs (fatbase fs + bc div SS) of
        (FR_OK, fs) \<Rightarrow>
          (let wc = ucast (win fs ! unat (bc mod SS)) :: u32; bc = bc + 1 in
           case move_window fs (fatbase fs + bc div SS) of
             (FR_OK, fs) \<Rightarrow>
               (let wc = wc OR push_bit 8 (ucast (win fs ! unat (bc mod SS))) in
                (if clst AND 1 \<noteq> 0 then drop_bit 4 wc else wc AND 0xFFF, fs))
           | (_, fs) \<Rightarrow> (0xFFFFFFFF, fs))
      | (_, fs) \<Rightarrow> (0xFFFFFFFF, fs))"

definition get_fat16 :: "u32 \<Rightarrow> fatfs \<Rightarrow> u32 \<times> fatfs" where
  "get_fat16 clst fs =
     (case move_window fs (fatbase fs + clst div (SS div 2)) of
        (FR_OK, fs) \<Rightarrow> (ucast (ld_16 (win fs) (unat (clst * 2 mod SS))), fs)
      | (_, fs) \<Rightarrow> (0xFFFFFFFF, fs))"

definition get_fat32 :: "u32 \<Rightarrow> fatfs \<Rightarrow> u32 \<times> fatfs" where
  "get_fat32 clst fs =
     (case move_window fs (fatbase fs + clst div (SS div 4)) of
        (FR_OK, fs) \<Rightarrow> (ld_32 (win fs) (unat (clst * 4 mod SS)) AND 0x0FFFFFFF, fs)
      | (_, fs) \<Rightarrow> (0xFFFFFFFF, fs))"

definition get_fat :: "u32 \<Rightarrow> fatfs \<Rightarrow> u32 \<times> fatfs" where
  "get_fat clst fs =
     (if clst < 2 \<or> n_fatent fs \<le> clst then (1, fs)
      else if fs_type fs = FS_FAT12 then get_fat12 clst fs
      else if fs_type fs = FS_FAT16 then get_fat16 clst fs
      else if fs_type fs = FS_FAT32 then get_fat32 clst fs
      else (1, fs))"

definition put_fat12 :: "u32 \<Rightarrow> u32 \<Rightarrow> fatfs \<Rightarrow> FRESULT \<times> fatfs" where
  "put_fat12 clst val fs =
     (let bc = clst + clst div 2 in
      case move_window fs (fatbase fs + bc div SS) of
        (FR_OK, fs) \<Rightarrow>
          (let ofs = unat (bc mod SS); p = win fs ! ofs;
               b = (if clst AND 1 \<noteq> 0 then (p AND 0x0F) OR push_bit 4 (ucast val) else ucast val);
               fs = fs\<lparr>win := (win fs)[ofs := b], wflag := 1\<rparr>; bc = bc + 1 in
           case move_window fs (fatbase fs + bc div SS) of
             (FR_OK, fs) \<Rightarrow>
               (let ofs = unat (bc mod SS); p = win fs ! ofs;
                    b = (if clst AND 1 \<noteq> 0 then ucast (drop_bit 4 val)
                         else (p AND 0xF0) OR (ucast (drop_bit 8 val) AND 0x0F)) in
                (FR_OK, fs\<lparr>win := (win fs)[ofs := b], wflag := 1\<rparr>))
           | (res, fs) \<Rightarrow> (res, fs))
      | (res, fs) \<Rightarrow> (res, fs))"

definition put_fat16 :: "u32 \<Rightarrow> u32 \<Rightarrow> fatfs \<Rightarrow> FRESULT \<times> fatfs" where
  "put_fat16 clst val fs =
     (case move_window fs (fatbase fs + clst div (SS div 2)) of
        (FR_OK, fs) \<Rightarrow> (FR_OK, fs\<lparr>win := st_16 (win fs) (unat (clst * 2 mod SS)) (ucast val), wflag := 1\<rparr>)
      | (res, fs) \<Rightarrow> (res, fs))"

definition put_fat32 :: "u32 \<Rightarrow> u32 \<Rightarrow> fatfs \<Rightarrow> FRESULT \<times> fatfs" where
  "put_fat32 clst val fs =
     (case move_window fs (fatbase fs + clst div (SS div 4)) of
        (FR_OK, fs) \<Rightarrow>
          let ofs = unat (clst * 4 mod SS);
              val = (val AND 0x0FFFFFFF) OR (ld_32 (win fs) ofs AND 0xF0000000) in
          (FR_OK, fs\<lparr>win := st_32 (win fs) ofs val, wflag := 1\<rparr>)
      | (res, fs) \<Rightarrow> (res, fs))"

definition put_fat :: "u32 \<Rightarrow> u32 \<Rightarrow> fatfs \<Rightarrow> FRESULT \<times> fatfs" where
  "put_fat clst val fs =
     (if 2 \<le> clst \<and> clst < n_fatent fs then
        if fs_type fs = FS_FAT12 then put_fat12 clst val fs
        else if fs_type fs = FS_FAT16 then put_fat16 clst val fs
        else if fs_type fs = FS_FAT32 then put_fat32 clst val fs
        else (FR_INT_ERR, fs)
      else (FR_INT_ERR, fs))"

subsection \<open>Cluster chains\<close>

partial_function (option) remove_loop :: "u32 \<Rightarrow> fatfs \<Rightarrow> (FRESULT \<times> fatfs) option" where
  [code]: "remove_loop clst fs =
     (case get_fat clst fs of (nxt, fs) \<Rightarrow>
        if nxt = 0 then Some (FR_OK, fs)
        else if nxt = 1 then Some (FR_INT_ERR, fs)
        else if nxt = 0xFFFFFFFF then Some (FR_DISK_ERR, fs)
        else case put_fat clst 0 fs of (res, fs) \<Rightarrow>
          if res \<noteq> FR_OK then Some (res, fs)
          else let fs = (if free_clst fs < n_fatent fs - 2
                         then fs\<lparr>free_clst := free_clst fs + 1, fsi_flag := fsi_flag fs OR 1\<rparr> else fs) in
            if nxt < n_fatent fs then remove_loop nxt fs else Some (FR_OK, fs))"

definition remove_chain :: "u32 \<Rightarrow> u32 \<Rightarrow> fatfs \<Rightarrow> (FRESULT \<times> fatfs) option" where
  "remove_chain clst pclst fs =
     (if clst < 2 \<or> n_fatent fs \<le> clst then Some (FR_INT_ERR, fs)
      else if pclst \<noteq> 0 then
        case put_fat pclst 0xFFFFFFFF fs of (res, fs) \<Rightarrow>
          if res \<noteq> FR_OK then Some (res, fs) else remove_loop clst fs
      else remove_loop clst fs)"

text \<open>
  The search of \<^verbatim>\<open>create_chain\<close> for a free cluster: \<open>Inl\<close> is a value the function returns at
  once, \<open>Inr\<close> the cluster found.
\<close>

partial_function (option) find_free :: "u32 \<Rightarrow> u32 \<Rightarrow> fatfs \<Rightarrow> ((u32 + u32) \<times> fatfs) option" where
  [code]: "find_free scl ncl0 fs =
     (let ncl1 = ncl0 + 1; ncl = (if n_fatent fs \<le> ncl1 then 2 else ncl1) in
      if n_fatent fs \<le> ncl1 \<and> scl < ncl then Some (Inl 0, fs)
      else case get_fat ncl fs of (cs, fs) \<Rightarrow>
        if cs = 0 then Some (Inr ncl, fs)
        else if cs = 1 \<or> cs = 0xFFFFFFFF then Some (Inl cs, fs)
        else if ncl = scl then Some (Inl 0, fs)
        else find_free scl ncl fs)"

text \<open>Where to start: \<open>Inl\<close> again an early return, \<open>Inr\<close> the start of the search.\<close>

definition chain_start :: "u32 \<Rightarrow> fatfs \<Rightarrow> (u32 + u32) \<times> fatfs" where
  "chain_start clst fs =
     (if clst = 0 then
        (Inr (if last_clst fs = 0 \<or> n_fatent fs \<le> last_clst fs then 1 else last_clst fs), fs)
      else case get_fat clst fs of (cs, fs) \<Rightarrow>
        if cs < 2 then (Inl 1, fs)
        else if cs = 0xFFFFFFFF then (Inl cs, fs)
        else if cs < n_fatent fs then (Inl cs, fs)
        else (Inr clst, fs))"

text \<open>The cluster to allocate: the next one if it is free, else one found by the search.\<close>

definition choose_cluster :: "u32 \<Rightarrow> u32 \<Rightarrow> fatfs \<Rightarrow> ((u32 + u32) \<times> fatfs) option" where
  "choose_cluster clst scl fs =
     (if scl = clst then
        let ncl = (if n_fatent fs \<le> scl + 1 then 2 else scl + 1) in
        case get_fat ncl fs of (cs, fs) \<Rightarrow>
          if cs = 1 \<or> cs = 0xFFFFFFFF then Some (Inl cs, fs)
          else if cs \<noteq> 0 then
            let scl = (if 2 \<le> last_clst fs \<and> last_clst fs < n_fatent fs then last_clst fs else scl) in
            find_free scl scl fs
          else Some (Inr ncl, fs)
      else find_free scl scl fs)"

text \<open>Marking the new cluster and linking it, then the allocation information.\<close>

definition link_cluster :: "u32 \<Rightarrow> u32 \<Rightarrow> fatfs \<Rightarrow> u32 \<times> fatfs" where
  "link_cluster clst ncl fs =
     (case put_fat ncl 0xFFFFFFFF fs of (res, fs) \<Rightarrow>
      case (if res = FR_OK \<and> clst \<noteq> 0 then put_fat clst ncl fs else (res, fs)) of (res, fs) \<Rightarrow>
      if res = FR_OK then
        let fs = fs\<lparr>last_clst := ncl\<rparr> in
        (ncl, if 0 < free_clst fs \<and> free_clst fs \<le> n_fatent fs - 2
              then fs\<lparr>free_clst := free_clst fs - 1, fsi_flag := fsi_flag fs OR 1\<rparr> else fs)
      else (if res = FR_DISK_ERR then 0xFFFFFFFF else 1, fs))"

definition create_chain :: "u32 \<Rightarrow> fatfs \<Rightarrow> (u32 \<times> fatfs) option" where
  "create_chain clst fs =
     (case chain_start clst fs of
        (Inl r, fs) \<Rightarrow> Some (r, fs)
      | (Inr scl, fs) \<Rightarrow>
          if free_clst fs = 0 then Some (0, fs)
          else do {
            (r, fs) \<leftarrow> choose_cluster clst scl fs;
            (case r of Inl v \<Rightarrow> Some (v, fs) | Inr ncl \<Rightarrow> Some (link_cluster clst ncl fs)) })"

end
