(* ===== verification/Fat_Table.thy ===== *)
theory Fat_Table
  imports Fat_Volume
begin

text \<open>
  The file allocation table as a function from cluster numbers to entries, on a drive that
  reports no errors. \<open>lsec\<close> is a sector as the filesystem sees it through its one-sector
  window; moving or flushing the window does not change it, and reading or writing a FAT
  entry (12, 16 or 32 bits wide, the 12-bit ones packed and straddling sectors) is a lookup
  or a one-point update of the table.
\<close>

subsection \<open>A healthy drive\<close>

definition healthy :: "drive \<Rightarrow> bool" where
  "healthy dr \<longleftrightarrow> (case g_ata dr of None \<Rightarrow> False | Some d \<Rightarrow>
     (\<forall>n. \<not> ata_rd_err d n \<and> \<not> ata_wr_err d n \<and> length (ata_sectors d n) = 512) \<and> \<not> ata_flush_err d)
     \<and> unat (g_partLBA dr) + unat (g_partSize dr) \<le> 0x10000000"

definition dsec :: "drive \<Rightarrow> u32 \<Rightarrow> u8 list" where
  "dsec dr n = ata_sectors (the (g_ata dr)) (g_partLBA dr + n)"

lemma dsec_length [simp]: "healthy dr \<Longrightarrow> length (dsec dr n) = 512"
  by (auto simp: healthy_def dsec_def split: option.splits)

lemma lba28:
  assumes "healthy dr" and "sect < g_partSize dr"
  shows "\<not> 0x0FFFFFFF < g_partLBA dr + sect"
proof -
  have "unat (g_partLBA dr) + unat sect < 0x10000000"
    using assms by (auto simp: healthy_def word_less_nat_alt split: option.splits)
  moreover from this have "unat (g_partLBA dr + sect) = unat (g_partLBA dr) + unat sect"
    by (intro unat_add_small) simp
  ultimately show ?thesis by (simp add: word_less_nat_alt)
qed

lemma range_1:
  assumes "healthy dr" and "sect < g_partSize dr" and "pd < 2"
  shows "\<not> bad_range pd dr sect 1"
proof -
  have "unat (g_partSize dr - sect) = unat (g_partSize dr) - unat sect"
    using assms(2) by (intro unat_sub) (simp add: order_less_imp_le)
  then have "\<not> g_partSize dr - sect < 1" using assms(2) by (simp add: word_less_nat_alt)
  then show ?thesis using assms by (auto simp: bad_range_def healthy_def not_le split: option.splits)
qed

lemma disk_read_1:
  assumes "healthy dr" and "sect < g_partSize dr" and "pd < 2" and "length buf = 512"
  shows "disk_read pd dr buf sect 1 = (RES_OK, dsec dr sect)"
  using assms range_1 [OF assms(1-3)] lba28 [OF assms(1,2)]
  by (auto simp: disk_read_def Read28_def dsec_def healthy_def split: option.splits)

lemma disk_write_1:
  assumes "healthy dr" and "sect < g_partSize dr" and "pd < 2" and "length buf = 512"
  obtains dr' where "disk_write pd dr buf sect 1 = (RES_OK, dr')" and "healthy dr'"
    and "dsec dr' = (dsec dr)(sect := buf)" and "g_partSize dr' = g_partSize dr"
proof -
  obtain d where d: "g_ata dr = Some d" using assms(1) by (auto simp: healthy_def split: option.splits)
  let ?d = "d\<lparr>ata_sectors := (ata_sectors d)(g_partLBA dr + sect := buf)\<rparr>"
  have w: "Write28 d (g_partLBA dr + sect) buf = (True, ?d)"
    using lba28 [OF assms(1,2)] assms(1) d by (simp add: Write28_def healthy_def)
  have "disk_write pd dr buf sect 1 = (RES_OK, dr\<lparr>g_ata := Some ?d\<rparr>)"
    using range_1 [OF assms(1-3)] w assms(4) d by (simp add: disk_write_def)
  moreover have "healthy (dr\<lparr>g_ata := Some ?d\<rparr>)" using assms(1,4) d by (simp add: healthy_def)
  moreover have "dsec (dr\<lparr>g_ata := Some ?d\<rparr>) = (dsec dr)(sect := buf)" using d by (auto simp: dsec_def fun_eq_iff)
  ultimately show thesis using that by simp
qed

subsection \<open>The window\<close>

definition mirror :: "fatfs \<Rightarrow> u32 set" where
  "mirror fs = (if n_fats fs = 2
     then {n. unat (fatbase fs) + unat (fsize fs) \<le> unat n \<and> unat n < unat (fatbase fs) + 2 * unat (fsize fs)} else {})"

definition lsec :: "fatfs \<Rightarrow> u32 \<Rightarrow> u8 list" where
  "lsec fs n = (if n = winsect fs then win fs else dsec (drv fs) n)"

definition vol_ok :: "fatfs \<Rightarrow> bool" where
  "vol_ok fs \<longleftrightarrow> healthy (drv fs) \<and> pdrv fs < 2 \<and> length (win fs) = 512
     \<and> (n_fats fs = 1 \<or> n_fats fs = 2)
     \<and> unat (fatbase fs) + unat (n_fats fs) * unat (fsize fs) \<le> unat (g_partSize (drv fs))
     \<and> (wflag fs \<noteq> 0 \<longrightarrow> winsect fs < g_partSize (drv fs))
     \<and> (wflag fs = 0 \<and> winsect fs < g_partSize (drv fs) \<longrightarrow> win fs = dsec (drv fs) (winsect fs))"

text \<open>Two states of one volume: only the window and the drive may differ.\<close>

definition same_vol :: "fatfs \<Rightarrow> fatfs \<Rightarrow> bool" where
  "same_vol fs fs' \<longleftrightarrow> (\<exists>w ws wf dr. fs' = fs\<lparr>win := w, winsect := ws, wflag := wf, drv := dr\<rparr>
     \<and> g_partSize dr = g_partSize (drv fs))"

lemma same_vol_refl [simp]: "same_vol fs fs"
proof -
  have "fs = fs\<lparr>win := win fs, winsect := winsect fs, wflag := wflag fs, drv := drv fs\<rparr>" by simp
  then show ?thesis unfolding same_vol_def by blast
qed

lemma same_vol_trans: "same_vol a b \<Longrightarrow> same_vol b c \<Longrightarrow> same_vol a c"
proof -
  assume "same_vol a b" and "same_vol b c"
  then obtain w ws wf dr w' ws' wf' dr' where "b = a\<lparr>win := w, winsect := ws, wflag := wf, drv := dr\<rparr>"
    "g_partSize dr = g_partSize (drv a)" "c = b\<lparr>win := w', winsect := ws', wflag := wf', drv := dr'\<rparr>"
    "g_partSize dr' = g_partSize (drv b)" unfolding same_vol_def by blast
  then have "c = a\<lparr>win := w', winsect := ws', wflag := wf', drv := dr'\<rparr>" "g_partSize dr' = g_partSize (drv a)"
    by simp_all
  then show ?thesis unfolding same_vol_def by blast
qed

lemma same_vol_fields:
  assumes "same_vol fs fs'"
  shows "fs_type fs' = fs_type fs" "pdrv fs' = pdrv fs" "n_fats fs' = n_fats fs" "fsi_flag fs' = fsi_flag fs"
    "csize fs' = csize fs" "last_clst fs' = last_clst fs" "free_clst fs' = free_clst fs"
    "n_fatent fs' = n_fatent fs" "fsize fs' = fsize fs" "volbase fs' = volbase fs" "fatbase fs' = fatbase fs"
    "dirbase fs' = dirbase fs" "database fs' = database fs" "lfnbuf fs' = lfnbuf fs" "n_rootdir fs' = n_rootdir fs"
    "fs_id fs' = fs_id fs" "g_partSize (drv fs') = g_partSize (drv fs)"
  using assms by (auto simp: same_vol_def)

lemma same_vol_mirror: "same_vol fs fs' \<Longrightarrow> mirror fs' = mirror fs"
  by (simp add: mirror_def same_vol_fields)

lemma lsec_length: "vol_ok fs \<Longrightarrow> length (lsec fs n) = 512"
  by (simp add: lsec_def vol_ok_def)

text \<open>The window is on the first FAT exactly when the source's unsigned test says so.\<close>

lemma in_first_fat:
  assumes "vol_ok fs" and "winsect fs - fatbase fs < fsize fs"
  shows "unat (fatbase fs) \<le> unat (winsect fs)" "unat (winsect fs) < unat (fatbase fs) + unat (fsize fs)"
proof -
  let ?k = "winsect fs - fatbase fs"
  have k: "unat ?k < unat (fsize fs)" using assms(2) by (simp add: word_less_nat_alt)
  have "unat (fatbase fs) + unat (fsize fs) \<le> unat (g_partSize (drv fs))"
    using assms(1) by (auto simp: vol_ok_def)
  then have "unat (fatbase fs) + unat ?k < 2 ^ 32" using k unat_u32_bound [of "g_partSize (drv fs)"] by linarith
  then have "unat (fatbase fs + ?k) = unat (fatbase fs) + unat ?k" by (rule unat_add_small)
  moreover have "fatbase fs + ?k = winsect fs" by simp
  ultimately show "unat (fatbase fs) \<le> unat (winsect fs)" "unat (winsect fs) < unat (fatbase fs) + unat (fsize fs)"
    using k by simp_all
qed

lemma sync_window_spec:
  assumes ok: "vol_ok fs"
  obtains dr where "sync_window fs = (FR_OK, fs\<lparr>drv := dr, wflag := 0\<rparr>)"
    and "vol_ok (fs\<lparr>drv := dr, wflag := 0\<rparr>)" and "g_partSize dr = g_partSize (drv fs)"
    and "\<And>n. n \<notin> mirror fs \<Longrightarrow> n < g_partSize dr \<Longrightarrow> dsec dr n = lsec fs n"
proof (cases "wflag fs = 0")
  case True
  have "fs = fs\<lparr>drv := drv fs, wflag := 0\<rparr>" using True by simp
  then show thesis using True ok that [of "drv fs"] by (auto simp: sync_window_def lsec_def vol_ok_def)
next
  case dirty: False
  have h: "healthy (drv fs)" "winsect fs < g_partSize (drv fs)" "pdrv fs < 2" "length (win fs) = 512"
    using ok dirty by (auto simp: vol_ok_def)
  obtain d1 where d1: "disk_write (pdrv fs) (drv fs) (win fs) (winsect fs) 1 = (RES_OK, d1)"
    "healthy d1" "dsec d1 = (dsec (drv fs))(winsect fs := win fs)" "g_partSize d1 = g_partSize (drv fs)" by (rule disk_write_1 [OF h])
  show thesis
  proof (cases "winsect fs - fatbase fs < fsize fs \<and> n_fats fs = 2")
    case False
    then have "sync_window fs = (FR_OK, fs\<lparr>drv := d1, wflag := 0\<rparr>)"
      using dirty d1 by (auto simp: sync_window_def Let_def)
    then show thesis using that [of d1] ok d1 by (auto simp: vol_ok_def lsec_def)
  next
    case True
    let ?m = "winsect fs + fsize fs"
    note f = in_first_fat [OF ok conjunct1 [OF True]]
    have room: "unat (fatbase fs) + 2 * unat (fsize fs) \<le> unat (g_partSize (drv fs))"
      using ok True by (simp add: vol_ok_def)
    then have m: "unat ?m = unat (winsect fs) + unat (fsize fs)"
      using f unat_u32_bound [of "g_partSize (drv fs)"] by (intro unat_add_small) linarith
    have "?m < g_partSize d1" using m f room d1(4) by (simp add: word_less_nat_alt)
    then obtain d2 where d2: "disk_write (pdrv fs) d1 (win fs) ?m 1 = (RES_OK, d2)"
      "healthy d2" "dsec d2 = (dsec d1)(?m := win fs)" "g_partSize d2 = g_partSize d1" by (rule disk_write_1 [OF d1(2) _ h(3,4)])
    have mm: "?m \<in> mirror fs" using True m f by (auto simp: mirror_def)
    have ne: "winsect fs \<noteq> ?m" using m f by (auto simp: word_unat_eq_iff)
    have "sync_window fs = (FR_OK, fs\<lparr>drv := d2, wflag := 0\<rparr>)"
      using dirty d1 d2 True by (simp add: sync_window_def Let_def)
    moreover have "vol_ok (fs\<lparr>drv := d2, wflag := 0\<rparr>)" using ok d1 d2 ne by (auto simp: vol_ok_def)
    moreover have "dsec d2 n = lsec fs n" if "n \<notin> mirror fs" for n
      using that mm d1(3) d2(3) by (auto simp: lsec_def)
    ultimately show thesis using that [of d2] d1(4) d2(4) by simp
  qed
qed

lemma move_window_spec:
  assumes ok: "vol_ok fs" and sect: "sect < g_partSize (drv fs)" "sect \<notin> mirror fs"
  obtains fs' where "move_window fs sect = (FR_OK, fs')" and "same_vol fs fs'" and "vol_ok fs'"
    and "winsect fs' = sect" and "win fs' = lsec fs sect"
    and "\<And>n. n \<notin> mirror fs \<Longrightarrow> n < g_partSize (drv fs) \<Longrightarrow> lsec fs' n = lsec fs n"
proof (cases "sect = winsect fs")
  case True
  show thesis by (rule that [of fs]) (use True ok in \<open>simp_all add: move_window_def lsec_def\<close>)
next
  case False
  obtain dr where s: "sync_window fs = (FR_OK, fs\<lparr>drv := dr, wflag := 0\<rparr>)"
    "vol_ok (fs\<lparr>drv := dr, wflag := 0\<rparr>)" "g_partSize dr = g_partSize (drv fs)"
    "\<And>n. n \<notin> mirror fs \<Longrightarrow> n < g_partSize dr \<Longrightarrow> dsec dr n = lsec fs n" by (rule sync_window_spec [OF ok]) blast
  let ?fs = "fs\<lparr>drv := dr, wflag := 0, win := dsec dr sect, winsect := sect\<rparr>"
  have r: "disk_read (pdrv fs) dr (win fs) sect 1 = (RES_OK, dsec dr sect)"
    using s(2,3) sect(1) by (intro disk_read_1) (simp_all add: vol_ok_def)
  have mv: "move_window fs sect = (FR_OK, ?fs)" using False s(1) r by (simp add: move_window_def)
  have "?fs = fs\<lparr>win := dsec dr sect, winsect := sect, wflag := 0, drv := dr\<rparr>" by simp
  then have same: "same_vol fs ?fs" using s(3) unfolding same_vol_def by blast
  have "vol_ok ?fs" using s(2) sect by (auto simp: vol_ok_def)
  then show thesis
    by (intro that [OF mv same]) (use s(3,4) sect in \<open>auto simp: lsec_def\<close>)
qed

subsection \<open>Entries over bytes\<close>

text \<open>
  The FAT is an array of bytes; \<open>entry12\<close>, \<open>entry16\<close> and \<open>entry32\<close> read an entry from it and
  \<open>put12\<close>, \<open>put16\<close> and \<open>put32\<close> replace one.
\<close>

definition pair12 :: "u8 \<Rightarrow> u8 \<Rightarrow> u32" where
  "pair12 b0 b1 = ucast b0 OR push_bit 8 (ucast b1)"

definition le32 :: "u8 \<Rightarrow> u8 \<Rightarrow> u8 \<Rightarrow> u8 \<Rightarrow> u32" where
  "le32 b0 b1 b2 b3 = push_bit 8 (push_bit 8 (push_bit 8 (ucast b3) OR ucast b2) OR ucast b1) OR ucast b0"

definition entry12 :: "(nat \<Rightarrow> u8) \<Rightarrow> nat \<Rightarrow> u32" where
  "entry12 B c =
     (let wc = pair12 (B (c + c div 2)) (B (c + c div 2 + 1)) in
      if odd c then drop_bit 4 wc else wc AND 0xFFF)"

definition put12 :: "nat \<Rightarrow> u32 \<Rightarrow> (nat \<Rightarrow> u8) \<Rightarrow> nat \<Rightarrow> u8" where
  "put12 c v B =
     (let k = c + c div 2 in
      if odd c then B(k := (B k AND 0x0F) OR push_bit 4 (ucast v), k + 1 := ucast (drop_bit 4 v))
      else B(k := ucast v, k + 1 := (B (k + 1) AND 0xF0) OR (ucast (drop_bit 8 v) AND 0x0F)))"

definition entry16 :: "(nat \<Rightarrow> u8) \<Rightarrow> nat \<Rightarrow> u32" where
  "entry16 B c = ucast (push_bit 8 (ucast (B (2 * c + 1))) OR ucast (B (2 * c)) :: u16)"

definition put16 :: "nat \<Rightarrow> u32 \<Rightarrow> (nat \<Rightarrow> u8) \<Rightarrow> nat \<Rightarrow> u8" where
  "put16 c v B = B(2 * c := ucast (ucast v :: u16), 2 * c + 1 := ucast (drop_bit 8 (ucast v :: u16)))"

definition word32 :: "(nat \<Rightarrow> u8) \<Rightarrow> nat \<Rightarrow> u32" where
  "word32 B k = le32 (B k) (B (k + 1)) (B (k + 2)) (B (k + 3))"

definition entry32 :: "(nat \<Rightarrow> u8) \<Rightarrow> nat \<Rightarrow> u32" where
  "entry32 B c = word32 B (4 * c) AND 0x0FFFFFFF"

definition put32 :: "nat \<Rightarrow> u32 \<Rightarrow> (nat \<Rightarrow> u8) \<Rightarrow> nat \<Rightarrow> u8" where
  "put32 c v B =
     (let k = 4 * c; w = (v AND 0x0FFFFFFF) OR (word32 B k AND 0xF0000000) in
      B(k := ucast w, k + 1 := ucast (drop_bit 8 w), k + 2 := ucast (drop_bit 16 w), k + 3 := ucast (drop_bit 24 w)))"

lemma mask_consts:
  "(0xFFF :: u32) = mask 12" "(0x0F :: u8) = mask 4" "(0xF0 :: u8) = NOT (mask 4)"
  "(0x0FFFFFFF :: u32) = mask 28" "(0xF0000000 :: u32) = NOT (mask 28)" "(0xFFFF :: u32) = mask 16"
  by (simp_all add: mask_eq_exp_minus_1)

text \<open>The nibble arithmetic of a 12-bit entry and of the neighbour it shares a byte with.\<close>

lemma nibbles_even: "pair12 (ucast v) ((p AND 0xF0) OR (ucast (drop_bit 8 v) AND 0x0F)) AND 0xFFF = v AND 0xFFF"
  unfolding mask_consts pair12_def by (rule bit_eqI) (auto simp: bit_simps)

lemma nibbles_even_other: "drop_bit 4 (pair12 ((p AND 0xF0) OR (x AND 0x0F)) q) = drop_bit 4 (pair12 p q)"
  unfolding mask_consts pair12_def by (rule bit_eqI) (auto simp: bit_simps dest: bit_imp_le_length)

lemma nibbles_odd: "drop_bit 4 (pair12 ((p AND 0x0F) OR push_bit 4 (ucast v)) (ucast (drop_bit 4 v))) = v AND 0xFFF"
  unfolding mask_consts pair12_def by (rule bit_eqI) (auto simp: bit_simps)

lemma nibbles_odd_other: "pair12 q ((p AND 0x0F) OR push_bit 4 x) AND 0xFFF = pair12 q p AND 0xFFF"
  unfolding mask_consts pair12_def by (rule bit_eqI) (auto simp: bit_simps)

lemma bytes16: "push_bit 8 (ucast (ucast (drop_bit 8 v) :: u8)) OR ucast (ucast v :: u8) = (v :: u16)"
  by (rule bit_eqI) (auto simp: bit_simps dest: bit_imp_le_length)

lemma bytes32: "le32 (ucast v) (ucast (drop_bit 8 v)) (ucast (drop_bit 16 v)) (ucast (drop_bit 24 v)) = v"
proof (rule bit_eqI)
  fix n assume "possible_bit TYPE(u32) n"
  then consider "n < 8" | "8 \<le> n" "n < 16" | "16 \<le> n" "n < 24" | "24 \<le> n" "n < 32" by (fastforce simp: possible_bit_word)
  then show "bit (le32 (ucast v) (ucast (drop_bit 8 v)) (ucast (drop_bit 16 v)) (ucast (drop_bit 24 v))) n = bit v n"
    unfolding le32_def by cases (auto simp: bit_simps)
qed

lemma entry12_put12: "entry12 (put12 c v B) c' = (if c' = c then v AND 0xFFF else entry12 B c')"
proof -
  obtain k where c: "c = 2 * k \<or> c = 2 * k + 1" by (metis oddE dvdE)
  obtain k' where c': "c' = 2 * k' \<or> c' = 2 * k' + 1" by (metis oddE dvdE)
  have off: "2 * j + (2 * j) div 2 = 3 * j" "2 * j + 1 + (2 * j + 1) div 2 = 3 * j + 1" for j :: nat by auto
  show ?thesis
  proof (cases "k' = k")
    case True
    with c c' show ?thesis
      by (auto simp: entry12_def put12_def Let_def nibbles_even nibbles_even_other nibbles_odd nibbles_odd_other)
  next
    case False
    then have ne: "3 * k' + i \<noteq> 3 * k + j" if "i < 3" "j < 3" for i j using that by presburger
    have kc: "c + c div 2 = 3 * k + (if odd c then 1 else 0)" using c by auto
    have same: "put12 c v B (3 * k' + i) = B (3 * k' + i)" if "i < 3" for i
      using ne [OF that, of 0] ne [OF that, of 1] ne [OF that, of 2] by (auto simp: put12_def Let_def kc)
    have "entry12 (put12 c v B) c' = entry12 B c'"
      using c' same [of 0] same [of 1] same [of 2] by (auto simp: entry12_def)
    with False c c' show ?thesis by auto
  qed
qed

lemma entry16_put16: "entry16 (put16 c v B) c' = (if c' = c then v AND 0xFFFF else entry16 B c')"
proof (cases "c' = c")
  case True
  have "(ucast (ucast v :: u16) :: u32) = v AND 0xFFFF"
    unfolding mask_consts by (rule bit_eqI) (auto simp: bit_simps)
  with True show ?thesis by (simp add: entry16_def put16_def bytes16)
next
  case False
  then have "2 * c' \<noteq> 2 * c" "2 * c' \<noteq> 2 * c + 1" "2 * c' + 1 \<noteq> 2 * c" by presburger+
  with False show ?thesis by (simp add: entry16_def put16_def)
qed

lemma entry32_put32: "entry32 (put32 c v B) c' = (if c' = c then v AND 0x0FFFFFFF else entry32 B c')"
proof (cases "c' = c")
  case True
  define w where "w = (v AND 0x0FFFFFFF) OR (word32 B (4 * c) AND 0xF0000000)"
  have "put32 c v B = B(4 * c := ucast w, 4 * c + 1 := ucast (drop_bit 8 w), 4 * c + 2 := ucast (drop_bit 16 w),
      4 * c + 3 := ucast (drop_bit 24 w))" by (simp add: put32_def Let_def w_def)
  then have "word32 (put32 c v B) (4 * c) = w" by (simp add: word32_def bytes32)
  moreover have "w AND 0x0FFFFFFF = v AND 0x0FFFFFFF"
    unfolding w_def mask_consts by (rule bit_eqI) (auto simp: bit_simps)
  ultimately show ?thesis using True by (simp add: entry32_def)
next
  case False
  then have ne: "4 * c' + i \<noteq> 4 * c" "4 * c' + i \<noteq> 4 * c + 1" "4 * c' + i \<noteq> 4 * c + 2" "4 * c' + i \<noteq> 4 * c + 3"
    if "i < 4" for i using that by presburger+
  have "put32 c v B (4 * c' + i) = B (4 * c' + i)" if "i < 4" for i
    using ne [OF that] by (simp only: put32_def Let_def fun_upd_apply if_False)
  from this [of 0] this [of 1] this [of 2] this [of 3] False show ?thesis
    by (simp add: entry32_def word32_def)
qed

subsection \<open>The table of a volume\<close>

definition fat_byte :: "fatfs \<Rightarrow> nat \<Rightarrow> u8" where
  "fat_byte fs b = lsec fs (fatbase fs + of_nat (b div 512)) ! (b mod 512)"

definition fat_entry :: "fatfs \<Rightarrow> u32 \<Rightarrow> u32" where
  "fat_entry fs c =
     (if fs_type fs = FS_FAT12 then entry12 (fat_byte fs) (unat c)
      else if fs_type fs = FS_FAT16 then entry16 (fat_byte fs) (unat c)
      else entry32 (fat_byte fs) (unat c))"

definition fat_value :: "fatfs \<Rightarrow> u32 \<Rightarrow> u32" where
  "fat_value fs v = (if fs_type fs = FS_FAT12 then v AND 0xFFF
     else if fs_type fs = FS_FAT16 then v AND 0xFFFF else v AND 0x0FFFFFFF)"

text \<open>The bytes of the last entry lie inside the FAT, and no entry value is a cluster error code.\<close>

definition fat_ok :: "fatfs \<Rightarrow> bool" where
  "fat_ok fs \<longleftrightarrow> vol_ok fs \<and> 2 < unat (n_fatent fs)
     \<and> (fs_type fs = FS_FAT12 \<and> unat (n_fatent fs) \<le> 0xFF7 \<and> unat (n_fatent fs) + unat (n_fatent fs) div 2 < 512 * unat (fsize fs)
      \<or> fs_type fs = FS_FAT16 \<and> unat (n_fatent fs) \<le> 0xFFF7 \<and> 2 * unat (n_fatent fs) \<le> 512 * unat (fsize fs)
      \<or> fs_type fs = FS_FAT32 \<and> unat (n_fatent fs) \<le> 0x0FFFFFF7 \<and> 4 * unat (n_fatent fs) \<le> 512 * unat (fsize fs))"

lemma fat_sector:
  assumes "vol_ok fs" and "b < 512 * unat (fsize fs)"
  shows "unat (fatbase fs + of_nat (b div 512)) = unat (fatbase fs) + b div 512"
    and "fatbase fs + of_nat (b div 512) < g_partSize (drv fs)" and "fatbase fs + of_nat (b div 512) \<notin> mirror fs"
proof -
  have k: "b div 512 < unat (fsize fs)" using assms(2) by linarith
  have room: "unat (fatbase fs) + unat (fsize fs) \<le> unat (g_partSize (drv fs))"
    using assms(1) by (auto simp: vol_ok_def)
  note bound = unat_u32_bound [of "g_partSize (drv fs)"]
  have "unat (of_nat (b div 512) :: u32) = b div 512" using k room bound by (intro unat_of_nat_small) linarith
  then show u: "unat (fatbase fs + of_nat (b div 512)) = unat (fatbase fs) + b div 512"
    using k room bound by (subst unat_add_small) linarith+
  show "fatbase fs + of_nat (b div 512) < g_partSize (drv fs)" using u k room by (simp add: word_less_nat_alt)
  show "fatbase fs + of_nat (b div 512) \<notin> mirror fs" using u k by (simp add: mirror_def)
qed

text \<open>The window placed on the sector of a FAT byte.\<close>

lemma fat_window:
  assumes ok: "vol_ok fs" and b: "b < 512 * unat (fsize fs)"
  obtains fs' where "move_window fs (fatbase fs + of_nat (b div 512)) = (FR_OK, fs')" and "same_vol fs fs'"
    and "vol_ok fs'" and "winsect fs' = fatbase fs + of_nat (b div 512)"
    and "\<And>b'. b' < 512 * unat (fsize fs) \<Longrightarrow> b' div 512 = b div 512 \<Longrightarrow> win fs' ! (b' mod 512) = fat_byte fs b'"
    and "\<And>b'. b' < 512 * unat (fsize fs) \<Longrightarrow> fat_byte fs' b' = fat_byte fs b'"
    and "\<And>n. n \<notin> mirror fs \<Longrightarrow> n < g_partSize (drv fs) \<Longrightarrow> lsec fs' n = lsec fs n"
proof -
  obtain fs' where
    m: "move_window fs (fatbase fs + of_nat (b div 512)) = (FR_OK, fs')" "same_vol fs fs'" "vol_ok fs'"
    "winsect fs' = fatbase fs + of_nat (b div 512)" "win fs' = lsec fs (fatbase fs + of_nat (b div 512))"
    "\<And>n. n \<notin> mirror fs \<Longrightarrow> n < g_partSize (drv fs) \<Longrightarrow> lsec fs' n = lsec fs n" by (rule move_window_spec [OF ok fat_sector(2,3) [OF ok b]]) blast
  have "fat_byte fs' b' = fat_byte fs b'" if "b' < 512 * unat (fsize fs)" for b'
    using m(6) fat_sector(2,3) [OF ok that] same_vol_fields(11) [OF m(2)] by (simp add: fat_byte_def)
  moreover have "win fs' ! (b' mod 512) = fat_byte fs b'" if "b' div 512 = b div 512" for b'
    using m(5) that by (simp add: fat_byte_def)
  ultimately show thesis using that m by blast
qed

text \<open>Storing a byte in the window and marking it dirty.\<close>

lemma store_byte:
  fixes v :: u8
  assumes ok: "vol_ok fs" and b: "b < 512 * unat (fsize fs)" and ws: "winsect fs = fatbase fs + of_nat (b div 512)"
  defines "fs' \<equiv> fs\<lparr>win := (win fs)[b mod 512 := v], wflag := 1\<rparr>"
  shows "vol_ok fs'" and "same_vol fs fs'" and "winsect fs' = winsect fs"
    and "\<And>b'. b' < 512 * unat (fsize fs) \<Longrightarrow> fat_byte fs' b' = (if b' = b then v else fat_byte fs b')"
    and "\<And>n. n \<noteq> winsect fs \<Longrightarrow> lsec fs' n = lsec fs n"
proof -
  have len: "length (win fs) = 512" using ok by (simp add: vol_ok_def)
  show "vol_ok fs'" using ok fat_sector(2) [OF ok b] ws by (simp add: vol_ok_def fs'_def)
  have "fs' = fs\<lparr>win := (win fs)[b mod 512 := v], winsect := winsect fs, wflag := 1, drv := drv fs\<rparr>" by (simp add: fs'_def)
  then show "same_vol fs fs'" unfolding same_vol_def by blast
  show "winsect fs' = winsect fs" by (simp add: fs'_def)
  show "fat_byte fs' b' = (if b' = b then v else fat_byte fs b')" if b': "b' < 512 * unat (fsize fs)" for b'
  proof (cases "b' div 512 = b div 512")
    case True
    then have "b' mod 512 = b mod 512 \<longleftrightarrow> b' = b" by (metis div_mult_mod_eq)
    then show ?thesis using True ws len by (auto simp: fat_byte_def lsec_def fs'_def)
  next
    case False
    then have "fatbase fs + of_nat (b' div 512) \<noteq> winsect fs"
      using fat_sector(1) [OF ok b'] fat_sector(1) [OF ok b] ws by (metis add_left_cancel)
    with False show ?thesis by (auto simp: fat_byte_def lsec_def fs'_def)
  qed
  show "lsec fs' n = lsec fs n" if "n \<noteq> winsect fs" for n using that by (simp add: lsec_def fs'_def)
qed

lemma word_sector: "of_nat (unat bc div 512) = bc div (SS :: u32)"
proof -
  have "unat (of_nat (unat bc div 512) :: u32) = unat bc div 512"
    using unat_u32_bound [of bc] by (intro unat_of_nat_small) linarith
  then show ?thesis by (simp add: word_unat_eq_iff unat_div_distrib)
qed

text \<open>The same byte addressed as the source does, by a 32-bit offset.\<close>

lemma fat_window_word:
  assumes ok: "vol_ok fs" and b: "unat bc = b" "b < 512 * unat (fsize fs)"
  obtains fs' where "move_window fs (fatbase fs + bc div SS) = (FR_OK, fs')" and "same_vol fs fs'"
    and "vol_ok fs'" and "winsect fs' = fatbase fs' + of_nat (b div 512)"
    and "\<And>b'. b' < 512 * unat (fsize fs) \<Longrightarrow> b' div 512 = b div 512 \<Longrightarrow> win fs' ! (b' mod 512) = fat_byte fs b'"
    and "\<And>b'. b' < 512 * unat (fsize fs) \<Longrightarrow> fat_byte fs' b' = fat_byte fs b'"
    and "\<And>n. n \<notin> mirror fs \<Longrightarrow> n < g_partSize (drv fs) \<Longrightarrow> lsec fs' n = lsec fs n"
proof (rule fat_window [OF ok b(2)])
  fix fs' assume h: "move_window fs (fatbase fs + of_nat (b div 512)) = (FR_OK, fs')" "same_vol fs fs'"
    "vol_ok fs'" "winsect fs' = fatbase fs + of_nat (b div 512)"
    "\<And>b'. b' < 512 * unat (fsize fs) \<Longrightarrow> b' div 512 = b div 512 \<Longrightarrow> win fs' ! (b' mod 512) = fat_byte fs b'"
    "\<And>b'. b' < 512 * unat (fsize fs) \<Longrightarrow> fat_byte fs' b' = fat_byte fs b'"
    "\<And>n. n \<notin> mirror fs \<Longrightarrow> n < g_partSize (drv fs) \<Longrightarrow> lsec fs' n = lsec fs n"
  have "fatbase fs + bc div SS = fatbase fs + of_nat (b div 512)" using word_sector [of bc] b(1) by simp
  then show thesis using that [of fs'] h same_vol_fields(11) [OF h(2)] by simp
qed

subsection \<open>Reading and writing an entry\<close>

text \<open>What an access to the table leaves: the same volume, every entry but the stated one.\<close>

definition fat_step :: "fatfs \<Rightarrow> (nat \<Rightarrow> u8) \<Rightarrow> fatfs \<Rightarrow> bool" where
  "fat_step fs B fs' \<longleftrightarrow> same_vol fs fs' \<and> vol_ok fs'
     \<and> (\<forall>b < 512 * unat (fsize fs). fat_byte fs' b = B b)
     \<and> (\<forall>n. n \<notin> mirror fs \<and> n < g_partSize (drv fs)
          \<and> \<not> (unat (fatbase fs) \<le> unat n \<and> unat n < unat (fatbase fs) + unat (fsize fs)) \<longrightarrow> lsec fs' n = lsec fs n)"

lemma fat_step_refl: "vol_ok fs \<Longrightarrow> fat_step fs (fat_byte fs) fs"
  by (simp add: fat_step_def)

lemma fat_step_trans: "fat_step a B b \<Longrightarrow> fat_step b C c \<Longrightarrow> fat_step a C c"
  unfolding fat_step_def using same_vol_trans [of a b c] same_vol_fields(9,11,17) [of a b] same_vol_mirror [of a b]
  by auto

lemma fat_step_cong: "fat_step a B b \<Longrightarrow> (\<And>k. k < 512 * unat (fsize a) \<Longrightarrow> B k = C k) \<Longrightarrow> fat_step a C b"
  by (auto simp: fat_step_def)

lemma step_window:
  assumes ok: "vol_ok fs" and b: "unat bc = b" "b < 512 * unat (fsize fs)"
  obtains fs' where "move_window fs (fatbase fs + bc div SS) = (FR_OK, fs')" and "fat_step fs (fat_byte fs) fs'"
    and "winsect fs' = fatbase fs' + of_nat (b div 512)"
    and "\<forall>b'. b' < 512 * unat (fsize fs) \<and> b' div 512 = b div 512 \<longrightarrow> win fs' ! (b' mod 512) = fat_byte fs b'"
  by (rule fat_window_word [OF ok b]) (auto simp: fat_step_def)

lemma step_store:
  assumes ok: "vol_ok fs" and b: "b < 512 * unat (fsize fs)" and ws: "winsect fs = fatbase fs + of_nat (b div 512)"
  shows "fat_step fs ((fat_byte fs)(b := v)) (fs\<lparr>win := (win fs)[b mod 512 := v], wflag := 1\<rparr>)"
proof -
  note s = store_byte [OF ok b ws, where v = v]
  have "lsec (fs\<lparr>win := (win fs)[b mod 512 := v], wflag := 1\<rparr>) n = lsec fs n"
    if "\<not> (unat (fatbase fs) \<le> unat n \<and> unat n < unat (fatbase fs) + unat (fsize fs))" for n
  proof (rule s(5))
    have "unat (winsect fs) = unat (fatbase fs) + b div 512" using fat_sector(1) [OF ok b] ws by simp
    moreover have "b div 512 < unat (fsize fs)" using b by linarith
    ultimately show "n \<noteq> winsect fs" using that by auto
  qed
  with s show ?thesis by (auto simp: fat_step_def)
qed

lemma same_vol_fat_ok: "same_vol fs fs' \<Longrightarrow> vol_ok fs' \<Longrightarrow> fat_ok fs \<Longrightarrow> fat_ok fs'"
  by (simp add: fat_ok_def same_vol_fields)

lemma unat_mod_SS: "unat (bc mod (SS :: u32)) = unat bc mod 512"
  by (simp add: unat_mod_distrib)

lemma odd_word: "clst AND 1 \<noteq> 0 \<longleftrightarrow> odd (unat (clst :: u32))"
proof -
  have "clst AND 1 \<noteq> 0 \<longleftrightarrow> bit clst 0" by (simp add: bit_0 and_one_eq odd_iff_mod_2_eq_one)
  also have "\<dots> \<longleftrightarrow> bit (unat clst) 0" by (simp add: bit_unsigned_iff)
  finally show ?thesis by (simp add: bit_0)
qed

text \<open>The byte offset of a 12-bit entry, and that it lies in the FAT.\<close>

lemma offset12:
  assumes "fat_ok fs" and "fs_type fs = FS_FAT12" and "clst < n_fatent fs"
  shows "unat (clst + clst div 2) = unat clst + unat clst div 2"
    and "unat (clst + clst div 2 + 1) = unat clst + unat clst div 2 + 1"
    and "unat clst + unat clst div 2 + 1 < 512 * unat (fsize fs)"
proof -
  have c: "unat clst < unat (n_fatent fs)" using assms(3) by (simp add: word_less_nat_alt)
  have n: "unat (n_fatent fs) \<le> 0xFF7" "unat (n_fatent fs) + unat (n_fatent fs) div 2 < 512 * unat (fsize fs)"
    using assms(1,2) by (auto simp: fat_ok_def)
  show u: "unat (clst + clst div 2) = unat clst + unat clst div 2"
    using c n(1) unat_add_small [of clst "clst div 2"] by (simp add: unat_div_distrib)
  show "unat (clst + clst div 2 + 1) = unat clst + unat clst div 2 + 1"
    using c n(1) u unat_add_small [of "clst + clst div 2" 1] by simp
  show "unat clst + unat clst div 2 + 1 < 512 * unat (fsize fs)" using c n(2) by linarith
qed

lemma get_fat12_spec:
  assumes ok: "fat_ok fs" and ty: "fs_type fs = FS_FAT12" and c: "clst < n_fatent fs"
  obtains fs' where "get_fat12 clst fs = (entry12 (fat_byte fs) (unat clst), fs')" and "fat_step fs (fat_byte fs) fs'"
proof -
  let ?b = "unat clst + unat clst div 2"
  note off = offset12 [OF assms]
  have vok: "vol_ok fs" using ok by (simp add: fat_ok_def)
  obtain f1 where f1: "move_window fs (fatbase fs + (clst + clst div 2) div SS) = (FR_OK, f1)"
    "fat_step fs (fat_byte fs) f1" "winsect f1 = fatbase f1 + of_nat (?b div 512)"
    "\<forall>b'. b' < 512 * unat (fsize fs) \<and> b' div 512 = ?b div 512 \<longrightarrow> win f1 ! (b' mod 512) = fat_byte fs b'"
    using off(3) by (rule_tac step_window [OF vok off(1)]) auto
  have v1: "vol_ok f1" "fsize f1 = fsize fs" "fatbase f1 = fatbase fs"
    using f1(2) same_vol_fields(9,11) [of fs f1] by (auto simp: fat_step_def)
  obtain f2 where f2: "move_window f1 (fatbase f1 + (clst + clst div 2 + 1) div SS) = (FR_OK, f2)"
    "fat_step f1 (fat_byte f1) f2"
    "\<forall>b'. b' < 512 * unat (fsize f1) \<and> b' div 512 = (?b + 1) div 512 \<longrightarrow> win f2 ! (b' mod 512) = fat_byte f1 b'"
    using off(3) v1 by (rule_tac step_window [OF v1(1) off(2)]) auto
  have b0: "win f1 ! unat ((clst + clst div 2) mod SS) = fat_byte fs ?b"
    using f1(4) off(1,3) by (simp add: unat_mod_SS)
  have b1: "win f2 ! unat ((clst + clst div 2 + 1) mod SS) = fat_byte fs (?b + 1)"
    using f2(3) off(2,3) v1 f1(2) by (simp add: unat_mod_SS fat_step_def)
  have "get_fat12 clst fs = (entry12 (fat_byte fs) (unat clst), f2)"
    using f1(1) f2(1) b0 b1 v1(3) by (simp add: get_fat12_def Let_def entry12_def pair12_def odd_word)
  moreover have "fat_step fs (fat_byte fs) f2"
    by (rule fat_step_cong [OF fat_step_trans [OF f1(2) f2(2)]]) (use f1(2) in \<open>auto simp: fat_step_def\<close>)
  ultimately show thesis using that by blast
qed

lemma put_fat12_spec:
  assumes ok: "fat_ok fs" and ty: "fs_type fs = FS_FAT12" and c: "clst < n_fatent fs"
  obtains fs' where "put_fat12 clst v fs = (FR_OK, fs')" and "fat_step fs (put12 (unat clst) v (fat_byte fs)) fs'"
proof -
  let ?b = "unat clst + unat clst div 2" and ?B = "fat_byte fs"
  note off = offset12 [OF assms]
  have vok: "vol_ok fs" using ok by (simp add: fat_ok_def)
  obtain f1 where f1: "move_window fs (fatbase fs + (clst + clst div 2) div SS) = (FR_OK, f1)"
    "fat_step fs ?B f1" "winsect f1 = fatbase f1 + of_nat (?b div 512)"
    "\<forall>b'. b' < 512 * unat (fsize fs) \<and> b' div 512 = ?b div 512 \<longrightarrow> win f1 ! (b' mod 512) = ?B b'"
    using off(3) by (rule_tac step_window [OF vok off(1)]) auto
  have v1: "vol_ok f1" "fsize f1 = fsize fs" "fatbase f1 = fatbase fs"
    using f1(2) same_vol_fields(9,11) [of fs f1] by (auto simp: fat_step_def)
  define x where "x = (if clst AND 1 \<noteq> 0 then (?B ?b AND 0x0F) OR push_bit 4 (ucast v) else ucast v :: u8)"
  define f2 where "f2 = f1\<lparr>win := (win f1)[?b mod 512 := x], wflag := 1\<rparr>"
  have s2: "fat_step f1 ((fat_byte f1)(?b := x)) f2"
    unfolding f2_def using off(3) v1 f1(3) by (intro step_store) auto
  have v2: "vol_ok f2" "fsize f2 = fsize fs" "fatbase f2 = fatbase fs"
    using s2 v1 same_vol_fields(9,11) [of f1 f2] by (auto simp: fat_step_def)
  obtain f3 where f3: "move_window f2 (fatbase f2 + (clst + clst div 2 + 1) div SS) = (FR_OK, f3)"
    "fat_step f2 (fat_byte f2) f3" "winsect f3 = fatbase f3 + of_nat ((?b + 1) div 512)"
    "\<forall>b'. b' < 512 * unat (fsize f2) \<and> b' div 512 = (?b + 1) div 512 \<longrightarrow> win f3 ! (b' mod 512) = fat_byte f2 b'"
    using off(3) v2 by (rule_tac step_window [OF v2(1) off(2)]) auto
  have v3: "vol_ok f3" "fsize f3 = fsize fs" "fatbase f3 = fatbase fs"
    using f3(2) v2 same_vol_fields(9,11) [of f2 f3] by (auto simp: fat_step_def)
  define y where "y = (if clst AND 1 \<noteq> 0 then ucast (drop_bit 4 v)
     else (?B (?b + 1) AND 0xF0) OR (ucast (drop_bit 8 v) AND 0x0F) :: u8)"
  define f4 where "f4 = f3\<lparr>win := (win f3)[(?b + 1) mod 512 := y], wflag := 1\<rparr>"
  have s4: "fat_step f3 ((fat_byte f3)(?b + 1 := y)) f4"
    unfolding f4_def using off(3) v3 f3(3) by (intro step_store) auto
  have b0: "win f1 ! unat ((clst + clst div 2) mod SS) = ?B ?b"
    using f1(4) off(1,3) by (simp add: unat_mod_SS)
  have f1b: "fat_byte f1 k = ?B k" if "k < 512 * unat (fsize fs)" for k using f1(2) that by (simp add: fat_step_def)
  have f2b: "fat_byte f2 k = (if k = ?b then x else ?B k)" if "k < 512 * unat (fsize fs)" for k
    using s2 f1b that v1(2) by (simp add: fat_step_def)
  have f3b: "fat_byte f3 k = (if k = ?b then x else ?B k)" if "k < 512 * unat (fsize fs)" for k
    using f3(2) f2b that v2(2) by (simp add: fat_step_def)
  have b1: "win f3 ! unat ((clst + clst div 2 + 1) mod SS) = ?B (?b + 1)"
    using f3(4) off(2,3) v2 f2b by (simp add: unat_mod_SS)
  have o1: "unat ((clst + clst div 2) mod SS) = ?b mod 512" "unat ((clst + clst div 2 + 1) mod SS) = (?b + 1) mod 512"
    using off(1,2) by (simp_all add: unat_mod_SS)
  have "put_fat12 clst v fs = (FR_OK, f4)"
    unfolding put_fat12_def Let_def f1(1) prod.case FRESULT.case b0
    unfolding o1 x_def [symmetric] f2_def [symmetric] v2(3) [symmetric]
    using f3(1) b1 v1 v2 by (simp add: o1 f2_def [symmetric] x_def [symmetric] f4_def) (simp add: y_def)
  moreover have "fat_step fs (put12 (unat clst) v ?B) f4"
  proof (rule fat_step_cong [OF fat_step_trans [OF f1(2) fat_step_trans [OF s2 fat_step_trans [OF f3(2) s4]]]])
    fix k assume "k < 512 * unat (fsize fs)"
    then show "((fat_byte f3)(?b + 1 := y)) k = put12 (unat clst) v ?B k"
      using f3b by (auto simp: put12_def Let_def x_def y_def odd_word)
  qed
  ultimately show thesis using that by blast
qed

text \<open>The entries of 16 and 32 bits lie in one sector.\<close>

lemma offset16:
  assumes "fat_ok fs" and "fs_type fs = FS_FAT16" and "clst < n_fatent fs"
  shows "unat (clst * 2) = 2 * unat clst" and "2 * unat clst + 1 < 512 * unat (fsize fs)"
    and "clst div (SS div 2) = clst * 2 div SS"
proof -
  have c: "unat clst < unat (n_fatent fs)" using assms(3) by (simp add: word_less_nat_alt)
  have n: "unat (n_fatent fs) \<le> 0xFFF7" "2 * unat (n_fatent fs) \<le> 512 * unat (fsize fs)"
    using assms(1,2) by (auto simp: fat_ok_def)
  show u: "unat (clst * 2) = 2 * unat clst" using c n(1) by (subst unat_mult_lem [THEN iffD1]) auto
  show "2 * unat clst + 1 < 512 * unat (fsize fs)" using c n(2) by linarith
  show "clst div (SS div 2) = clst * 2 div SS" using u by (simp add: word_unat_eq_iff unat_div_distrib)
qed

lemma offset32:
  assumes "fat_ok fs" and "fs_type fs = FS_FAT32" and "clst < n_fatent fs"
  shows "unat (clst * 4) = 4 * unat clst" and "4 * unat clst + 3 < 512 * unat (fsize fs)"
    and "clst div (SS div 4) = clst * 4 div SS"
proof -
  have c: "unat clst < unat (n_fatent fs)" using assms(3) by (simp add: word_less_nat_alt)
  have n: "unat (n_fatent fs) \<le> 0x0FFFFFF7" "4 * unat (n_fatent fs) \<le> 512 * unat (fsize fs)"
    using assms(1,2) by (auto simp: fat_ok_def)
  show u: "unat (clst * 4) = 4 * unat clst" using c n(1) by (subst unat_mult_lem [THEN iffD1]) auto
  show "4 * unat clst + 3 < 512 * unat (fsize fs)" using c n(2) by linarith
  show "clst div (SS div 4) = clst * 4 div SS" using u by (simp add: word_unat_eq_iff unat_div_distrib)
qed

text \<open>The bytes of an aligned entry, in the window.\<close>

lemma aligned:
  assumes "i < (k :: nat)" and "k * m = 512"
  shows "(k * c + i) div 512 = k * c div 512" and "k * c mod 512 + i = (k * c + i) mod 512"
proof -
  have k: "0 < k" using assms(1) by simp
  have d: "(k * c + i) div 512 = c div m"
    unfolding assms(2) [symmetric] div_mult2_eq using assms(1) k by simp
  moreover have "k * c div 512 = c div m" unfolding assms(2) [symmetric] div_mult2_eq using k by simp
  ultimately show e: "(k * c + i) div 512 = k * c div 512" by simp
  have "k * c + i = 512 * (k * c div 512) + (k * c mod 512 + i)" by simp
  moreover have "k * c + i = 512 * (k * c div 512) + (k * c + i) mod 512" using e by (metis mult_div_mod_eq)
  ultimately show "k * c mod 512 + i = (k * c + i) mod 512" by linarith
qed

lemma aligned16: "(2 * c + 1) div 512 = 2 * c div 512" "2 * c mod 512 + 1 = (2 * c + 1) mod (512 :: nat)"
  using aligned [of 1 2 256 c] by simp_all

lemma aligned32: "i < 4 \<Longrightarrow> (4 * c + i) div 512 = 4 * c div 512" "i < 4 \<Longrightarrow> 4 * c mod 512 + i = (4 * c + i) mod (512 :: nat)"
  using aligned [of i 4 128 c] by simp_all

lemma get_fat16_spec:
  assumes ok: "fat_ok fs" and ty: "fs_type fs = FS_FAT16" and c: "clst < n_fatent fs"
  obtains fs' where "get_fat16 clst fs = (entry16 (fat_byte fs) (unat clst), fs')" and "fat_step fs (fat_byte fs) fs'"
proof -
  let ?b = "2 * unat clst"
  note off = offset16 [OF assms]
  have vok: "vol_ok fs" using ok by (simp add: fat_ok_def)
  obtain f1 where f1: "move_window fs (fatbase fs + clst * 2 div SS) = (FR_OK, f1)" "fat_step fs (fat_byte fs) f1"
    "\<forall>b'. b' < 512 * unat (fsize fs) \<and> b' div 512 = ?b div 512 \<longrightarrow> win f1 ! (b' mod 512) = fat_byte fs b'"
    using off(2) by (rule_tac step_window [OF vok off(1)]) auto
  have "win f1 ! (?b mod 512) = fat_byte fs ?b" "win f1 ! (?b mod 512 + 1) = fat_byte fs (?b + 1)"
    using f1(3) off(2) aligned16 [of "unat clst"] by auto
  then have "get_fat16 clst fs = (entry16 (fat_byte fs) (unat clst), f1)"
    unfolding get_fat16_def off(3) f1(1) by (simp add: ld_16_def entry16_def unat_mod_SS off(1))
  with f1(2) show thesis using that by blast
qed

lemma get_fat32_spec:
  assumes ok: "fat_ok fs" and ty: "fs_type fs = FS_FAT32" and c: "clst < n_fatent fs"
  obtains fs' where "get_fat32 clst fs = (entry32 (fat_byte fs) (unat clst), fs')" and "fat_step fs (fat_byte fs) fs'"
proof -
  let ?b = "4 * unat clst"
  note off = offset32 [OF assms]
  have vok: "vol_ok fs" using ok by (simp add: fat_ok_def)
  obtain f1 where f1: "move_window fs (fatbase fs + clst * 4 div SS) = (FR_OK, f1)" "fat_step fs (fat_byte fs) f1"
    "\<forall>b'. b' < 512 * unat (fsize fs) \<and> b' div 512 = ?b div 512 \<longrightarrow> win f1 ! (b' mod 512) = fat_byte fs b'"
    using off(2) by (rule_tac step_window [OF vok off(1)]) auto
  have "win f1 ! (?b mod 512 + i) = fat_byte fs (?b + i)" if "i < 4" for i
    using f1(3) off(2) aligned32 [OF that, of "unat clst"] that by auto
  from this [of 0] this [of 1] this [of 2] this [of 3]
  have "ld_32 (win f1) (?b mod 512) = word32 (fat_byte fs) ?b" by (simp add: ld_32_def Let_def word32_def le32_def)
  then have "get_fat32 clst fs = (entry32 (fat_byte fs) (unat clst), f1)"
    unfolding get_fat32_def off(3) f1(1) by (simp add: entry32_def unat_mod_SS off(1))
  with f1(2) show thesis using that by blast
qed

text \<open>Storing several bytes of one sector.\<close>

lemma fat_step_store:
  assumes s: "fat_step fs B f1" and b: "b < 512 * unat (fsize fs)" and ws: "winsect f1 = fatbase fs + of_nat (b div 512)"
  shows "fat_step fs (B(b := v)) (f1\<lparr>win := (win f1)[b mod 512 := v], wflag := 1\<rparr>)"
proof -
  have f: "vol_ok f1" "fsize f1 = fsize fs" "fatbase f1 = fatbase fs"
    using s same_vol_fields(9,11) [of fs f1] by (auto simp: fat_step_def)
  have "fat_step f1 ((fat_byte f1)(b := v)) (f1\<lparr>win := (win f1)[b mod 512 := v], wflag := 1\<rparr>)"
    using b ws f by (intro step_store) auto
  from fat_step_trans [OF s this] show ?thesis
    by (rule fat_step_cong) (use s in \<open>auto simp: fat_step_def\<close>)
qed

lemma put_fat16_spec:
  assumes ok: "fat_ok fs" and ty: "fs_type fs = FS_FAT16" and c: "clst < n_fatent fs"
  obtains fs' where "put_fat16 clst v fs = (FR_OK, fs')" and "fat_step fs (put16 (unat clst) v (fat_byte fs)) fs'"
proof -
  let ?b = "2 * unat clst" and ?v = "ucast v :: u16"
  note off = offset16 [OF assms] and al = aligned16 [of "unat clst"]
  have vok: "vol_ok fs" using ok by (simp add: fat_ok_def)
  obtain f1 where f1: "move_window fs (fatbase fs + clst * 2 div SS) = (FR_OK, f1)" "fat_step fs (fat_byte fs) f1"
    "winsect f1 = fatbase f1 + of_nat (?b div 512)"
    using off(2) by (rule_tac step_window [OF vok off(1)]) auto
  have fb: "fatbase f1 = fatbase fs" using f1(2) same_vol_fields(11) [of fs f1] by (simp add: fat_step_def)
  let ?f2 = "f1\<lparr>win := (win f1)[?b mod 512 := ucast ?v], wflag := 1\<rparr>"
  let ?f3 = "?f2\<lparr>win := (win ?f2)[(?b + 1) mod 512 := ucast (drop_bit 8 ?v)], wflag := 1\<rparr>"
  have "fat_step fs ((fat_byte fs)(?b := ucast ?v)) ?f2"
    using off(2) f1(3) fb by (intro fat_step_store [OF f1(2)]) auto
  then have "fat_step fs (((fat_byte fs)(?b := ucast ?v))(?b + 1 := ucast (drop_bit 8 ?v))) ?f3"
    using off(2) f1(3) fb al(1) by (rule_tac fat_step_store) auto
  moreover have "put_fat16 clst v fs = (FR_OK, ?f3)"
    unfolding put_fat16_def off(3) f1(1) using al(2) by (simp add: st_16_def unat_mod_SS off(1))
  ultimately show thesis using that unfolding put16_def by blast
qed

lemma put_fat32_spec:
  assumes ok: "fat_ok fs" and ty: "fs_type fs = FS_FAT32" and c: "clst < n_fatent fs"
  obtains fs' where "put_fat32 clst v fs = (FR_OK, fs')" and "fat_step fs (put32 (unat clst) v (fat_byte fs)) fs'"
proof -
  let ?b = "4 * unat clst" and ?B = "fat_byte fs"
  note off = offset32 [OF assms] and al = aligned32 [of _ "unat clst"]
  have vok: "vol_ok fs" using ok by (simp add: fat_ok_def)
  obtain f1 where f1: "move_window fs (fatbase fs + clst * 4 div SS) = (FR_OK, f1)" "fat_step fs ?B f1"
    "winsect f1 = fatbase f1 + of_nat (?b div 512)"
    "\<forall>b'. b' < 512 * unat (fsize fs) \<and> b' div 512 = ?b div 512 \<longrightarrow> win f1 ! (b' mod 512) = ?B b'"
    using off(2) by (rule_tac step_window [OF vok off(1)]) auto
  have fb: "fatbase f1 = fatbase fs" using f1(2) same_vol_fields(11) [of fs f1] by (simp add: fat_step_def)
  have by4: "win f1 ! (?b mod 512 + i) = ?B (?b + i)" if "i < 4" for i
    using f1(4) off(2) al [OF that] that by auto
  from by4 [of 0] by4 [of 1] by4 [of 2] by4 [of 3]
  have ld: "ld_32 (win f1) (?b mod 512) = word32 ?B ?b" by (simp add: ld_32_def Let_def word32_def le32_def)
  define w where "w = (v AND 0x0FFFFFFF) OR (word32 ?B ?b AND 0xF0000000)"
  have st: "winsect (f :: fatfs) = winsect f1 \<Longrightarrow> fat_step fs B f \<Longrightarrow> i < 4 \<Longrightarrow>
      fat_step fs (B(?b + i := x)) (f\<lparr>win := (win f)[?b mod 512 + i := x], wflag := 1\<rparr>)" for f B i x
    using fat_step_store [of fs B f "?b + i" x] off(2) f1(3) fb al [of i] by simp
  let ?f2 = "f1\<lparr>win := (win f1)[?b mod 512 := ucast w], wflag := 1\<rparr>"
  let ?f3 = "?f2\<lparr>win := (win ?f2)[?b mod 512 + 1 := ucast (drop_bit 8 w)], wflag := 1\<rparr>"
  let ?f4 = "?f3\<lparr>win := (win ?f3)[?b mod 512 + 2 := ucast (drop_bit 16 w)], wflag := 1\<rparr>"
  let ?f5 = "?f4\<lparr>win := (win ?f4)[?b mod 512 + 3 := ucast (drop_bit 24 w)], wflag := 1\<rparr>"
  have "fat_step fs (?B(?b := ucast w)) ?f2" using st [OF refl f1(2), of 0] by simp
  then have "fat_step fs (?B(?b := ucast w, ?b + 1 := ucast (drop_bit 8 w))) ?f3" by (rule_tac st) auto
  then have "fat_step fs (?B(?b := ucast w, ?b + 1 := ucast (drop_bit 8 w), ?b + 2 := ucast (drop_bit 16 w))) ?f4"
    by (rule_tac st) auto
  then have "fat_step fs (?B(?b := ucast w, ?b + 1 := ucast (drop_bit 8 w), ?b + 2 := ucast (drop_bit 16 w),
      ?b + 3 := ucast (drop_bit 24 w))) ?f5"
    by (rule_tac st) auto
  then have "fat_step fs (put32 (unat clst) v ?B) ?f5" by (simp add: put32_def Let_def w_def)
  moreover have "put_fat32 clst v fs = (FR_OK, ?f5)"
    unfolding put_fat32_def off(3) f1(1) by (simp add: st_32_def unat_mod_SS off(1) ld Let_def w_def)
  ultimately show thesis using that by blast
qed

subsection \<open>The table as a function\<close>

text \<open>
  Two states with the same geometry: the allocation hints may differ too. \<open>table_step\<close> says that
  the second state has the table \<open>F\<close> and the same sectors outside the FATs.
\<close>

definition same_geom :: "fatfs \<Rightarrow> fatfs \<Rightarrow> bool" where
  "same_geom fs fs' \<longleftrightarrow> (\<exists>lc fc ff. same_vol (fs\<lparr>last_clst := lc, free_clst := fc, fsi_flag := ff\<rparr>) fs')"

definition outside_fats :: "fatfs \<Rightarrow> u32 \<Rightarrow> bool" where
  "outside_fats fs n \<longleftrightarrow> n \<notin> mirror fs \<and> n < g_partSize (drv fs)
     \<and> \<not> (unat (fatbase fs) \<le> unat n \<and> unat n < unat (fatbase fs) + unat (fsize fs))"

definition table_step :: "fatfs \<Rightarrow> (u32 \<Rightarrow> u32) \<Rightarrow> fatfs \<Rightarrow> bool" where
  "table_step fs F fs' \<longleftrightarrow> same_geom fs fs' \<and> fat_ok fs'
     \<and> (\<forall>c < n_fatent fs. fat_entry fs' c = F c) \<and> (\<forall>n. outside_fats fs n \<longrightarrow> lsec fs' n = lsec fs n)"

lemma same_vol_geom: "same_vol fs fs' \<Longrightarrow> same_geom fs fs'"
  unfolding same_geom_def by (rule exI [of _ "last_clst fs"], rule exI [of _ "free_clst fs"], rule exI [of _ "fsi_flag fs"]) simp

lemma same_geom_fields:
  assumes "same_geom fs fs'"
  shows "fs_type fs' = fs_type fs" "pdrv fs' = pdrv fs" "n_fats fs' = n_fats fs" "csize fs' = csize fs"
    "n_fatent fs' = n_fatent fs" "fsize fs' = fsize fs" "volbase fs' = volbase fs" "fatbase fs' = fatbase fs"
    "dirbase fs' = dirbase fs" "database fs' = database fs" "lfnbuf fs' = lfnbuf fs" "n_rootdir fs' = n_rootdir fs"
    "fs_id fs' = fs_id fs" "g_partSize (drv fs') = g_partSize (drv fs)"
  using assms by (auto simp: same_geom_def same_vol_def)

lemma same_geom_trans: "same_geom a b \<Longrightarrow> same_geom b c \<Longrightarrow> same_geom a c"
proof -
  assume "same_geom a b" and "same_geom b c"
  then obtain lc fc ff w ws wfl dr lc' fc' ff' w' ws' wfl' dr' where
    "b = a\<lparr>last_clst := lc, free_clst := fc, fsi_flag := ff, win := w, winsect := ws, wflag := wfl, drv := dr\<rparr>"
    "g_partSize dr = g_partSize (drv a)" "g_partSize dr' = g_partSize (drv b)"
    "c = b\<lparr>last_clst := lc', free_clst := fc', fsi_flag := ff', win := w', winsect := ws', wflag := wfl', drv := dr'\<rparr>"
    by (auto simp: same_geom_def same_vol_def)
  then have "c = a\<lparr>last_clst := lc', free_clst := fc', fsi_flag := ff', win := w', winsect := ws', wflag := wfl', drv := dr'\<rparr>"
    "g_partSize dr' = g_partSize (drv (a\<lparr>last_clst := lc', free_clst := fc', fsi_flag := ff'\<rparr>))" by simp_all
  then show ?thesis unfolding same_geom_def same_vol_def by blast
qed

lemma same_geom_outside: "same_geom fs fs' \<Longrightarrow> outside_fats fs' n \<longleftrightarrow> outside_fats fs n"
  by (simp add: outside_fats_def mirror_def same_geom_fields)

lemma table_step_trans: "table_step a F b \<Longrightarrow> table_step b G c \<Longrightarrow> table_step a G c"
  unfolding table_step_def using same_geom_trans [of a b c] same_geom_fields(5) [of a b] same_geom_outside [of a b] by auto

lemma table_step_cong: "table_step a F b \<Longrightarrow> (\<And>c. c < n_fatent a \<Longrightarrow> F c = G c) \<Longrightarrow> table_step a G b"
  by (auto simp: table_step_def)

text \<open>The allocation hints are not part of the table.\<close>

lemma hints_lsec:
  "lsec (fs\<lparr>last_clst := lc, free_clst := fc, fsi_flag := ff\<rparr>) = lsec fs"
  "fat_byte (fs\<lparr>last_clst := lc, free_clst := fc, fsi_flag := ff\<rparr>) = fat_byte fs"
  by (simp_all add: fun_eq_iff lsec_def fat_byte_def)

lemma hints_irrelevant:
  "vol_ok (fs\<lparr>last_clst := lc, free_clst := fc, fsi_flag := ff\<rparr>) = vol_ok fs"
  "fat_ok (fs\<lparr>last_clst := lc, free_clst := fc, fsi_flag := ff\<rparr>) = fat_ok fs"
  "fat_entry (fs\<lparr>last_clst := lc, free_clst := fc, fsi_flag := ff\<rparr>) c = fat_entry fs c"
  by (simp_all add: vol_ok_def fat_ok_def fat_entry_def hints_lsec)

lemma table_step_hints:
  assumes "table_step fs F fs'"
  shows "table_step fs F (fs'\<lparr>last_clst := lc, free_clst := fc, fsi_flag := ff\<rparr>)"
proof -
  have "same_geom fs' (fs'\<lparr>last_clst := lc, free_clst := fc, fsi_flag := ff\<rparr>)"
    unfolding same_geom_def by (rule exI [of _ lc], rule exI [of _ fc], rule exI [of _ ff]) simp
  with assms show ?thesis by (auto simp: table_step_def hints_irrelevant hints_lsec intro: same_geom_trans)
qed

text \<open>An entry reads only bytes of the FAT.\<close>

lemma entry_range:
  assumes "fat_ok fs" and "c < n_fatent fs" and "\<forall>b < 512 * unat (fsize fs). B b = C b"
  shows "fs_type fs = FS_FAT12 \<Longrightarrow> entry12 B (unat c) = entry12 C (unat c)"
    and "fs_type fs = FS_FAT16 \<Longrightarrow> entry16 B (unat c) = entry16 C (unat c)"
    and "fs_type fs = FS_FAT32 \<Longrightarrow> entry32 B (unat c) = entry32 C (unat c)"
  using offset12(3) [OF assms(1) _ assms(2)] offset16(2) [OF assms(1) _ assms(2)] offset32(2) [OF assms(1) _ assms(2)] assms(3)
  by (simp_all add: entry12_def entry16_def entry32_def word32_def Let_def)

lemma fat_step_table:
  assumes ok: "fat_ok fs" and s: "fat_step fs B fs'"
    and F: "\<And>c. fs_type fs = FS_FAT12 \<Longrightarrow> entry12 B (unat c) = F c" "\<And>c. fs_type fs = FS_FAT16 \<Longrightarrow> entry16 B (unat c) = F c"
      "\<And>c. fs_type fs = FS_FAT32 \<Longrightarrow> entry32 B (unat c) = F c"
  shows "table_step fs F fs'"
proof -
  have v: "same_vol fs fs'" "vol_ok fs'" "\<forall>b < 512 * unat (fsize fs). fat_byte fs' b = B b" using s by (auto simp: fat_step_def)
  have "fat_entry fs' c = F c" if "c < n_fatent fs" for c
    using entry_range [OF ok that v(3)] ok F same_vol_fields(1) [OF v(1)] by (auto simp: fat_entry_def fat_ok_def)
  moreover have "fat_ok fs'" by (rule same_vol_fat_ok [OF v(1,2) ok])
  ultimately show ?thesis using s same_vol_geom [OF v(1)] by (auto simp: table_step_def fat_step_def outside_fats_def)
qed

lemma get_fat_spec:
  assumes ok: "fat_ok fs" and c: "2 \<le> clst" "clst < n_fatent fs"
  obtains fs' where "get_fat clst fs = (fat_entry fs clst, fs')" and "same_vol fs fs'" and "table_step fs (fat_entry fs) fs'"
proof -
  have ty: "fs_type fs = FS_FAT12 \<or> fs_type fs = FS_FAT16 \<or> fs_type fs = FS_FAT32" using ok by (auto simp: fat_ok_def)
  have "\<exists>fs'. get_fat clst fs = (fat_entry fs clst, fs') \<and> fat_step fs (fat_byte fs) fs'"
    using ty
  proof (elim disjE)
    assume t: "fs_type fs = FS_FAT12"
    show ?thesis by (rule get_fat12_spec [OF ok t c(2)]) (use t c in \<open>auto simp: get_fat_def fat_entry_def not_le not_less\<close>)
  next
    assume t: "fs_type fs = FS_FAT16"
    show ?thesis by (rule get_fat16_spec [OF ok t c(2)]) (use t c in \<open>auto simp: get_fat_def fat_entry_def not_le not_less\<close>)
  next
    assume t: "fs_type fs = FS_FAT32"
    show ?thesis by (rule get_fat32_spec [OF ok t c(2)]) (use t c in \<open>auto simp: get_fat_def fat_entry_def not_le not_less\<close>)
  qed
  then obtain fs' where "get_fat clst fs = (fat_entry fs clst, fs')" and s: "fat_step fs (fat_byte fs) fs'" by blast
  moreover have "table_step fs (fat_entry fs) fs'"
    by (rule fat_step_table [OF ok s]) (simp_all add: fat_entry_def)
  ultimately show thesis using that by (auto simp: fat_step_def)
qed

lemma put_fat_spec:
  assumes ok: "fat_ok fs" and c: "2 \<le> clst" "clst < n_fatent fs"
  obtains fs' where "put_fat clst v fs = (FR_OK, fs')" and "same_vol fs fs'"
    and "table_step fs ((fat_entry fs)(clst := fat_value fs v)) fs'"
proof -
  let ?put = "if fs_type fs = FS_FAT12 then put12 else if fs_type fs = FS_FAT16 then put16 else put32"
  have ty: "fs_type fs = FS_FAT12 \<or> fs_type fs = FS_FAT16 \<or> fs_type fs = FS_FAT32" using ok by (auto simp: fat_ok_def)
  have "\<exists>fs'. put_fat clst v fs = (FR_OK, fs') \<and> fat_step fs (?put (unat clst) v (fat_byte fs)) fs'"
    using ty
  proof (elim disjE)
    assume t: "fs_type fs = FS_FAT12"
    show ?thesis by (rule put_fat12_spec [OF ok t c(2), of v]) (use t c in \<open>auto simp: put_fat_def\<close>)
  next
    assume t: "fs_type fs = FS_FAT16"
    show ?thesis by (rule put_fat16_spec [OF ok t c(2), of v]) (use t c in \<open>auto simp: put_fat_def\<close>)
  next
    assume t: "fs_type fs = FS_FAT32"
    show ?thesis by (rule put_fat32_spec [OF ok t c(2), of v]) (use t c in \<open>auto simp: put_fat_def\<close>)
  qed
  then obtain fs' where "put_fat clst v fs = (FR_OK, fs')" and s: "fat_step fs (?put (unat clst) v (fat_byte fs)) fs'" by blast
  moreover have "table_step fs ((fat_entry fs)(clst := fat_value fs v)) fs'"
    by (rule fat_step_table [OF ok s])
      (auto simp: fat_entry_def fat_value_def entry12_put12 entry16_put16 entry32_put32 word_unat_eq_iff)
  ultimately show thesis using that by (auto simp: fat_step_def)
qed

end
