(* ===== verification/Fat_Chain.thy ===== *)
theory Fat_Chain
  imports Fat_Table
begin

text \<open>
  Cluster chains over the file allocation table: what \<^verbatim>\<open>remove_chain\<close> frees, that it ends on
  every table (also a cyclic or cross-linked one), and which cluster \<^verbatim>\<open>create_chain\<close> allocates
  and links.
\<close>

subsection \<open>Values of entries\<close>

abbreviation EOC :: u32 where "EOC \<equiv> 0xFFFFFFFF"

lemma entry_no_error: "fat_entry fs c \<noteq> EOC"
proof -
  have "\<not> bit (fat_entry fs c) 31"
    by (auto simp: fat_entry_def entry12_def entry16_def entry32_def pair12_def Let_def mask_consts bit_simps
        dest: bit_imp_le_length)
  moreover have "bit EOC 31" by (simp add: bit_31_iff)
  ultimately show ?thesis by metis
qed

lemma and_mask_small: "unat (v :: u32) < 2 ^ k \<Longrightarrow> v AND mask k = v"
  by (simp add: word_unat_eq_iff take_bit_nat_eq_self unsigned_take_bit_eq flip: take_bit_eq_mask)

text \<open>A cluster number survives being stored, and the end mark is no cluster.\<close>

lemma fat_value_cluster: "fat_ok fs \<Longrightarrow> v < n_fatent fs \<Longrightarrow> fat_value fs v = v"
  unfolding fat_value_def mask_consts by (auto simp: fat_ok_def word_less_nat_alt intro: and_mask_small)

lemma fat_value_eoc: "fat_ok fs \<Longrightarrow> n_fatent fs \<le> fat_value fs EOC"
  by (auto simp: fat_value_def fat_ok_def word_le_nat_alt)

lemma fat_value_0 [simp]: "fat_value fs 0 = 0"
  by (simp add: fat_value_def)

subsection \<open>Chains\<close>

text \<open>A chain of clusters in a table of \<open>n\<close> entries: each entry names the next, the last an end mark.\<close>

fun chain :: "(u32 \<Rightarrow> u32) \<Rightarrow> u32 \<Rightarrow> u32 list \<Rightarrow> bool" where
  "chain F n [] = False"
| "chain F n [c] = (2 \<le> c \<and> c < n \<and> n \<le> F c)"
| "chain F n (c # d # cs) = (2 \<le> c \<and> c < n \<and> F c = d \<and> chain F n (d # cs))"

lemma chain_Cons: "chain F n (c # cs) \<longleftrightarrow> 2 \<le> c \<and> c < n \<and> (if cs = [] then n \<le> F c else F c = hd cs \<and> chain F n cs)"
  by (cases cs) auto

lemma chain_members: "chain F n cs \<Longrightarrow> c \<in> set cs \<Longrightarrow> 2 \<le> c \<and> c < n"
  by (induction F n cs rule: chain.induct) auto

lemma chain_suffix: "chain F n (xs @ ys) \<Longrightarrow> ys \<noteq> [] \<Longrightarrow> chain F n ys"
  by (induction xs) (auto simp: chain_Cons split: if_splits)

lemma chain_not_end: "chain F n (c # d # cs) \<Longrightarrow> \<not> chain F n [c]"
  using chain_members [of F n "d # cs" d] by (auto simp: not_le)

lemma chain_unique: "chain F n (c # xs) \<Longrightarrow> chain F n (c # ys) \<Longrightarrow> xs = ys"
proof (induction xs arbitrary: c ys)
  case Nil
  then show ?case using chain_not_end [of F n c] by (cases ys) blast+
next
  case (Cons x xs)
  then obtain y zs where ys: "ys = y # zs" using chain_not_end [of F n c x xs] by (cases ys) blast+
  with Cons.prems have "y = x" "chain F n (x # xs)" "chain F n (x # zs)" by auto
  with Cons.IH ys show ?case by blast
qed

lemma chain_distinct: "chain F n cs \<Longrightarrow> distinct cs"
proof (induction cs)
  case (Cons c cs)
  have "c \<notin> set cs"
  proof
    assume "c \<in> set cs"
    then obtain p q where pq: "cs = p @ c # q" by (auto simp: in_set_conv_decomp)
    then have "chain F n (c # q)" using Cons.prems chain_suffix [of F n "c # p" "c # q"] by simp
    with chain_unique Cons.prems have "cs = q" by metis
    with pq show False by (auto dest: arg_cong [of _ _ length])
  qed
  with Cons show ?case by (cases cs) (auto simp: chain_Cons)
qed simp

lemma chain_cong: "chain F n cs \<Longrightarrow> (\<And>c. c \<in> set cs \<Longrightarrow> F c = G c) \<Longrightarrow> chain G n cs"
  by (induction F n cs rule: chain.induct) auto

subsection \<open>Freeing a chain\<close>

text \<open>The free count, when it is known, is counted up to the number of clusters.\<close>

definition count_free :: "fatfs \<Rightarrow> nat \<Rightarrow> nat" where
  "count_free fs k = (if free_clst fs \<le> n_fatent fs - 2 then min (unat (free_clst fs) + k) (unat (n_fatent fs - 2))
     else unat (free_clst fs))"

definition freed :: "fatfs \<Rightarrow> fatfs" where
  "freed fs = (if free_clst fs < n_fatent fs - 2
     then fs\<lparr>free_clst := free_clst fs + 1, fsi_flag := fsi_flag fs OR 1\<rparr> else fs)"

lemma freed_table: "table_step fs F f \<Longrightarrow> table_step fs F (freed f)"
  using table_step_hints [where fs = fs and F = F and fs' = f and lc = "last_clst f" and fc = "free_clst f + 1" and ff = "fsi_flag f OR 1"] by (simp add: freed_def)

lemma freed_fields: "n_fatent (freed fs) = n_fatent fs" "last_clst (freed fs) = last_clst fs"
  by (simp_all add: freed_def)

lemma freed_count: "count_free (freed fs) k = count_free fs (Suc k)" "unat (free_clst fs) = count_free fs 0"
proof -
  have "unat (free_clst fs + 1) = Suc (unat (free_clst fs))" if "free_clst fs < n_fatent fs - 2"
    using that unat_u32_bound [of "n_fatent fs - 2"] by (intro unat_inc) (simp add: word_less_nat_alt)
  then show "count_free (freed fs) k = count_free fs (Suc k)"
    by (auto simp: count_free_def freed_def word_less_nat_alt word_le_nat_alt)
  show "unat (free_clst fs) = count_free fs 0" by (simp add: count_free_def word_le_nat_alt)
qed

lemma table_step_fields:
  assumes "table_step fs F fs'"
  shows "fat_ok fs'" "n_fatent fs' = n_fatent fs" "\<And>c. c < n_fatent fs \<Longrightarrow> fat_entry fs' c = F c"
  using assms same_geom_fields(5) [of fs fs'] by (auto simp: table_step_def)

text \<open>One round of the loop on a cluster whose entry is neither free nor a link to cluster 1.\<close>

lemma remove_loop_step:
  assumes ok: "fat_ok fs" and c: "2 \<le> c" "c < n_fatent fs" and e: "fat_entry fs c \<noteq> 0" "fat_entry fs c \<noteq> 1"
  obtains f where "table_step fs ((fat_entry fs)(c := 0)) f" and "last_clst f = last_clst fs"
    and "\<And>k. count_free f k = count_free fs (Suc k)"
    and "remove_loop c fs = (if fat_entry fs c < n_fatent fs then remove_loop (fat_entry fs c) f else Some (FR_OK, f))"
proof -
  obtain f1 where f1: "get_fat c fs = (fat_entry fs c, f1)" "same_vol fs f1" "table_step fs (fat_entry fs) f1"
    by (rule get_fat_spec [OF ok c])
  note t1 = table_step_fields [OF f1(3)]
  have "c < n_fatent f1" using c t1(2) by simp
  then obtain f2 where f2: "put_fat c 0 f1 = (FR_OK, f2)" "same_vol f1 f2" "table_step f1 ((fat_entry f1)(c := fat_value f1 0)) f2"
    by (rule put_fat_spec [OF t1(1) c(1)])
  have n: "n_fatent f2 = n_fatent fs" using t1 table_step_fields(2) [OF f2(3)] by simp
  have "table_step fs ((fat_entry fs)(c := 0)) f2"
    by (rule table_step_cong [OF table_step_trans [OF f1(3) f2(3)]]) (use t1(3) in auto)
  then have "table_step fs ((fat_entry fs)(c := 0)) (freed f2)" by (rule freed_table)
  moreover have "last_clst (freed f2) = last_clst fs"
    using same_vol_fields(6) [OF f1(2)] same_vol_fields(6) [OF f2(2)] by (simp add: freed_fields)
  moreover have "count_free (freed f2) k = count_free fs (Suc k)" for k
    unfolding freed_count(1) using same_vol_fields(7,8) [OF f1(2)] same_vol_fields(7,8) [OF f2(2)] by (simp add: count_free_def)
  moreover have "remove_loop c fs = (if fat_entry fs c < n_fatent fs then remove_loop (fat_entry fs c) (freed f2) else Some (FR_OK, freed f2))"
    using f1(1) f2(1) e entry_no_error [of fs c] n
    by (subst remove_loop.simps) (simp add: freed_def [symmetric] Let_def freed_fields)
  ultimately show thesis using that by blast
qed

lemma remove_loop_frees:
  assumes "fat_ok fs" and "chain (fat_entry fs) (n_fatent fs) (c # cs)"
  shows "\<exists>fs'. remove_loop c fs = Some (FR_OK, fs')
    \<and> table_step fs (\<lambda>x. if x \<in> set (c # cs) then 0 else fat_entry fs x) fs'
    \<and> last_clst fs' = last_clst fs \<and> unat (free_clst fs') = count_free fs (length (c # cs))"
  using assms
proof (induction cs arbitrary: c fs)
  case Nil
  then have c: "2 \<le> c" "c < n_fatent fs" "n_fatent fs \<le> fat_entry fs c" and n: "2 < unat (n_fatent fs)" by (auto simp: fat_ok_def)
  then have e: "fat_entry fs c \<noteq> 0" "fat_entry fs c \<noteq> 1" by (auto simp: word_le_nat_alt)
  show ?case
    by (rule remove_loop_step [OF Nil.prems(1) c(1,2) e])
      (use c(3) in \<open>auto simp: freed_count(2) not_less fun_upd_def\<close>)
next
  case (Cons d cs)
  then have c: "2 \<le> c" "c < n_fatent fs" "fat_entry fs c = d" "chain (fat_entry fs) (n_fatent fs) (d # cs)" by auto
  have d: "2 \<le> d" "d < n_fatent fs" using chain_members [OF c(4)] by auto
  have e: "fat_entry fs c \<noteq> 0" "fat_entry fs c \<noteq> 1" using c(3) d by (auto simp: word_le_nat_alt)
  have dis: "c \<notin> set (d # cs)" using chain_distinct [OF Cons.prems(2)] by simp
  obtain f where f: "table_step fs ((fat_entry fs)(c := 0)) f" "last_clst f = last_clst fs"
    "\<And>k. count_free f k = count_free fs (Suc k)"
    "remove_loop c fs = (if fat_entry fs c < n_fatent fs then remove_loop (fat_entry fs c) f else Some (FR_OK, f))"
    by (rule remove_loop_step [OF Cons.prems(1) c(1,2) e]) blast
  note t = table_step_fields [OF f(1)]
  have "chain (fat_entry f) (n_fatent f) (d # cs)" unfolding t(2)
    by (rule chain_cong [OF c(4)]) (use t(3) dis chain_members [OF c(4)] in auto)
  from Cons.IH [OF t(1) this] obtain fs' where fs': "remove_loop d f = Some (FR_OK, fs')"
    "table_step f (\<lambda>x. if x \<in> set (d # cs) then 0 else fat_entry f x) fs'" "last_clst fs' = last_clst f"
    "unat (free_clst fs') = count_free f (length (d # cs))" by blast
  have "table_step fs (\<lambda>x. if x \<in> set (c # d # cs) then 0 else fat_entry fs x) fs'"
    by (rule table_step_cong [OF table_step_trans [OF f(1) fs'(2)]]) (use t(3) in auto)
  then show ?case using f fs' c(3) d by auto
qed

text \<open>The loop ends on every table: each round clears an entry that was not clear.\<close>

definition used :: "fatfs \<Rightarrow> u32 set" where
  "used fs = {x. x < n_fatent fs \<and> fat_entry fs x \<noteq> 0}"

lemma remove_loop_ends: "fat_ok fs \<Longrightarrow> \<exists>res fs'. remove_loop c fs = Some (res, fs') \<and> fat_ok fs'"
proof (induction "card (used fs)" arbitrary: c fs rule: less_induct)
  case less
  show ?case
  proof (cases "c < 2 \<or> n_fatent fs \<le> c")
    case True
    then have "get_fat c fs = (1, fs)" by (simp add: get_fat_def)
    then show ?thesis using less.prems by (subst remove_loop.simps) simp
  next
    case False
    then have c: "2 \<le> c" "c < n_fatent fs" by auto
    show ?thesis
    proof (cases "fat_entry fs c = 0 \<or> fat_entry fs c = 1")
      case True
      obtain f where "get_fat c fs = (fat_entry fs c, f)" "table_step fs (fat_entry fs) f" by (rule get_fat_spec [OF less.prems c])
      then show ?thesis using True table_step_fields(1) by (subst remove_loop.simps) auto
    next
      case False
      then obtain f where f: "table_step fs ((fat_entry fs)(c := 0)) f"
        "remove_loop c fs = (if fat_entry fs c < n_fatent fs then remove_loop (fat_entry fs c) f else Some (FR_OK, f))"
        by (rule_tac remove_loop_step [OF less.prems c]) auto
      note t = table_step_fields [OF f(1)]
      have "used f = used fs - {c}" using t(2,3) by (auto simp: used_def split: if_splits)
      moreover have "c \<in> used fs" using c False by (simp add: used_def)
      ultimately have "card (used f) < card (used fs)" by (metis card_Diff1_less finite)
      from less.hyps [OF this t(1)] t(1) f(2) show ?thesis by simp
    qed
  qed
qed

text \<open>Ending a chain early.\<close>

lemma chain_cut_at:
  "chain F n (xs @ p # c # cs) \<Longrightarrow> p \<notin> set xs \<Longrightarrow> n \<le> e \<Longrightarrow> chain (F(p := e)) n (xs @ [p])"
  by (induction xs) (auto simp: chain_Cons hd_append)

lemma chain_cut: "chain F n (ps @ c # cs) \<Longrightarrow> ps \<noteq> [] \<Longrightarrow> n \<le> e \<Longrightarrow> chain (F(last ps := e)) n ps"
  using chain_cut_at [of F n "butlast ps" "last ps" c cs e] chain_distinct [of F n "ps @ c # cs"]
    append_butlast_last_id [of ps]
  by (metis append.assoc append_Cons append_Nil distinct_append not_distinct_conv_prefix)

text \<open>
  Property C37 (termination). On a drive without errors \<^verbatim>\<open>remove_chain\<close> returns whatever the table
  holds, also when the chain to free is cyclic or runs into another file's chain.
\<close>

theorem remove_chain_terminates:
  assumes "fat_ok fs"
  shows "\<exists>res fs'. remove_chain clst pclst fs = Some (res, fs') \<and> fat_ok fs'"
proof (cases "clst < 2 \<or> n_fatent fs \<le> clst")
  case True
  then show ?thesis using assms by (simp add: remove_chain_def)
next
  case valid: False
  show ?thesis
  proof (cases "2 \<le> pclst \<and> pclst < n_fatent fs")
    case True
    then obtain f where "put_fat pclst EOC fs = (FR_OK, f)" "table_step fs ((fat_entry fs)(pclst := fat_value fs EOC)) f"
      by (rule_tac put_fat_spec [OF assms, of pclst EOC]) auto
    moreover from this have "fat_ok f" using table_step_fields(1) by blast
    ultimately show ?thesis using valid remove_loop_ends [of f clst] True by (auto simp: remove_chain_def)
  next
    case False
    then have "put_fat pclst EOC fs = (FR_INT_ERR, fs)" by (auto simp: put_fat_def)
    then show ?thesis using valid remove_loop_ends [OF assms, of clst] assms by (auto simp: remove_chain_def)
  qed
qed

text \<open>
  Property C18 (functional). \<^verbatim>\<open>remove_chain\<close> called on a position inside a chain, with the cluster
  before it, cuts the chain there: what comes before is still a chain, ended at that cluster; exactly
  the clusters from the position on become free and are counted as free; all other entries and all
  sectors outside the FATs are as before.
\<close>

theorem remove_chain_cuts:
  assumes ok: "fat_ok fs" and ch: "chain (fat_entry fs) (n_fatent fs) (ps @ c # cs)"
  shows "\<exists>fs'. remove_chain c (if ps = [] then 0 else last ps) fs = Some (FR_OK, fs') \<and> fat_ok fs'
    \<and> (\<forall>x \<in> set (c # cs). fat_entry fs' x = 0) \<and> (ps = [] \<or> chain (fat_entry fs') (n_fatent fs') ps)
    \<and> (\<forall>x < n_fatent fs. x \<notin> set (c # cs) \<and> (ps = [] \<or> x \<noteq> last ps) \<longrightarrow> fat_entry fs' x = fat_entry fs x)
    \<and> unat (free_clst fs') = count_free fs (length (c # cs)) \<and> last_clst fs' = last_clst fs
    \<and> (\<forall>n. outside_fats fs n \<longrightarrow> lsec fs' n = lsec fs n)"
proof -
  let ?n = "n_fatent fs" and ?F = "fat_entry fs"
  have mem: "2 \<le> x \<and> x < ?n" if "x \<in> set (ps @ c # cs)" for x using chain_members [OF ch that] .
  have cc: "chain ?F ?n (c # cs)" using chain_suffix [OF ch] by simp
  have dis: "distinct (ps @ c # cs)" by (rule chain_distinct [OF ch])
  have lp: "last ps \<notin> set (c # cs)" if "ps \<noteq> []" using dis last_in_set [OF that] by auto
  define G where "G = (if ps = [] then ?F else ?F(last ps := fat_value fs EOC))"
  have "\<exists>f. table_step fs G f \<and> same_vol fs f \<and> remove_chain c (if ps = [] then 0 else last ps) fs = remove_loop c f"
  proof (cases "ps = []")
    case True
    have "table_step fs G fs" using True ok by (simp add: G_def table_step_def same_vol_geom)
    then show ?thesis using True mem [of c] by (auto simp: remove_chain_def not_less not_le intro!: exI [of _ fs])
  next
    case False
    then have p: "2 \<le> last ps" "last ps < ?n" using mem [of "last ps"] by auto
    show ?thesis
      by (rule put_fat_spec [OF ok p, of EOC]) (use False p mem [of c] in \<open>auto simp: G_def remove_chain_def not_less not_le\<close>)
  qed
  then obtain f where f: "table_step fs G f" "same_vol fs f"
    "remove_chain c (if ps = [] then 0 else last ps) fs = remove_loop c f" by blast
  note t = table_step_fields [OF f(1)]
  have "chain (fat_entry f) (n_fatent f) (c # cs)" unfolding t(2)
    by (rule chain_cong [OF cc]) (use t(3) lp mem in \<open>auto simp: G_def\<close>)
  from remove_loop_frees [OF t(1) this] obtain fs' where fs': "remove_loop c f = Some (FR_OK, fs')"
    "table_step f (\<lambda>x. if x \<in> set (c # cs) then 0 else fat_entry f x) fs'" "last_clst fs' = last_clst f"
    "unat (free_clst fs') = count_free f (length (c # cs))" by blast
  have step: "table_step fs (\<lambda>x. if x \<in> set (c # cs) then 0 else G x) fs'"
    by (rule table_step_cong [OF table_step_trans [OF f(1) fs'(2)]]) (use t(3) in auto)
  note u = table_step_fields [OF step]
  have "ps = [] \<or> chain (fat_entry fs') (n_fatent fs') ps"
  proof (cases "ps = []")
    case False
    then have "chain G ?n ps" using chain_cut [OF ch False fat_value_eoc [OF ok]] by (simp add: G_def)
    then have "chain (fat_entry fs') ?n ps" by (rule chain_cong) (use u(3) dis mem in auto)
    then show ?thesis by (simp add: u(2))
  qed simp
  moreover have "last_clst fs' = last_clst fs" "count_free f = count_free fs"
    using fs'(3) same_vol_fields(6,7,8) [OF f(2)] by (simp_all add: fun_eq_iff count_free_def)
  moreover have "\<forall>n. outside_fats fs n \<longrightarrow> lsec fs' n = lsec fs n" using step by (simp add: table_step_def)
  moreover have "\<forall>x < ?n. x \<notin> set (c # cs) \<and> (ps = [] \<or> x \<noteq> last ps) \<longrightarrow> fat_entry fs' x = ?F x"
    using u(3) by (auto simp: G_def)
  moreover have "\<forall>x \<in> set (c # cs). fat_entry fs' x = 0" using u(3) mem by auto
  ultimately show ?thesis using f(3) fs'(1,4) u(1) by simp
qed

subsection \<open>Allocating a cluster\<close>

text \<open>The clusters the search has still to look at, after cluster \<open>k\<close>, in the order it does.\<close>

definition remaining :: "nat \<Rightarrow> nat \<Rightarrow> nat \<Rightarrow> nat set" where
  "remaining n scl k = (if scl \<le> k then {k <..< n} \<union> {2..scl} else {k <.. scl})"

lemma remaining_step:
  assumes "1 \<le> scl" "scl < n" "1 \<le> k" "k < n" "2 < n"
  shows "Suc k < n \<Longrightarrow> remaining n scl k = insert (Suc k) (if Suc k = scl then {} else remaining n scl (Suc k))"
    and "n \<le> Suc k \<Longrightarrow> 2 \<le> scl \<Longrightarrow> remaining n scl k = insert 2 (if 2 = scl then {} else remaining n scl 2)"
    and "n \<le> Suc k \<Longrightarrow> scl = 1 \<Longrightarrow> remaining n scl k = {}"
  using assms by (auto simp: remaining_def)

lemma remaining_finite [simp]: "finite (remaining n scl k)"
  by (simp add: remaining_def)

lemma remaining_notin: "Suc k \<noteq> scl \<Longrightarrow> 1 \<le> k \<Longrightarrow> 1 \<le> scl \<Longrightarrow> Suc k \<notin> remaining n scl (Suc k)"
  by (auto simp: remaining_def)

text \<open>No entry of a cluster is 1, the value the driver takes for an inconsistent table.\<close>

definition no_ones :: "fatfs \<Rightarrow> bool" where
  "no_ones fs \<longleftrightarrow> (\<forall>c. 2 \<le> c \<and> c < n_fatent fs \<longrightarrow> fat_entry fs c \<noteq> 1)"

definition free_cluster :: "fatfs \<Rightarrow> u32 \<Rightarrow> bool" where
  "free_cluster fs c \<longleftrightarrow> 2 \<le> c \<and> c < n_fatent fs \<and> fat_entry fs c = 0"

lemma table_same:
  assumes "table_step fs (fat_entry fs) f"
  shows "no_ones f = no_ones fs" "free_cluster f c = free_cluster fs c" "table_step f (fat_entry f) g \<Longrightarrow> table_step fs (fat_entry fs) g"
proof -
  note t = table_step_fields [OF assms]
  show "no_ones f = no_ones fs" "free_cluster f c = free_cluster fs c" using t by (auto simp: no_ones_def free_cluster_def)
  show "table_step fs (fat_entry fs) g" if "table_step f (fat_entry f) g"
    by (rule table_step_cong [OF table_step_trans [OF assms that]]) (rule t(3))
qed

definition search_result :: "fatfs \<Rightarrow> nat set \<Rightarrow> ((u32 + u32) \<times> fatfs) option \<Rightarrow> bool" where
  "search_result fs R out \<longleftrightarrow> (\<exists>r fs'. out = Some (r, fs') \<and> same_vol fs fs' \<and> table_step fs (fat_entry fs) fs'
     \<and> (case r of Inr ncl \<Rightarrow> free_cluster fs ncl | Inl v \<Rightarrow> v = 0 \<and> (\<forall>c. unat c \<in> R \<longrightarrow> fat_entry fs c \<noteq> 0)))"

lemma search_result_later:
  assumes "table_step fs (fat_entry fs) f" "same_vol fs f" "search_result f R out"
    and "\<And>c. unat c \<in> R' \<Longrightarrow> c < n_fatent fs \<and> (unat c \<in> R \<or> fat_entry fs c \<noteq> 0)"
  shows "search_result fs R' out"
proof -
  obtain r fs' where r: "out = Some (r, fs')" "same_vol f fs'" "table_step f (fat_entry f) fs'"
    "case r of Inr ncl \<Rightarrow> free_cluster f ncl | Inl v \<Rightarrow> v = 0 \<and> (\<forall>c. unat c \<in> R \<longrightarrow> fat_entry f c \<noteq> 0)"
    using assms(3) by (auto simp: search_result_def)
  have "case r of Inr ncl \<Rightarrow> free_cluster fs ncl | Inl v \<Rightarrow> v = 0 \<and> (\<forall>c. unat c \<in> R' \<longrightarrow> fat_entry fs c \<noteq> 0)"
    using r(4) assms(4) table_same(2) [OF assms(1)] table_step_fields(3) [OF assms(1)] by (cases r) fastforce+
  with r same_vol_trans [OF assms(2)] table_same(3) [OF assms(1)] show ?thesis by (auto simp: search_result_def)
qed

text \<open>Looking at one cluster.\<close>

lemma find_free_visit:
  assumes ok: "fat_ok fs" "no_ones fs" and ncl: "2 \<le> ncl" "ncl < n_fatent fs"
    and rec: "\<And>f. table_step fs (fat_entry fs) f \<Longrightarrow> same_vol fs f \<Longrightarrow> ncl \<noteq> scl \<Longrightarrow> search_result f R (find_free scl ncl f)"
    and R: "\<And>c. unat c \<in> R \<Longrightarrow> c < n_fatent fs"
  shows "search_result fs (insert (unat ncl) (if ncl = scl then {} else R))
    (case get_fat ncl fs of (cs, fs) \<Rightarrow>
        if cs = 0 then Some (Inr ncl, fs)
        else if cs = 1 \<or> cs = 0xFFFFFFFF then Some (Inl cs, fs)
        else if ncl = scl then Some (Inl 0, fs)
        else find_free scl ncl fs)"
proof -
  obtain f where f: "get_fat ncl fs = (fat_entry fs ncl, f)" "same_vol fs f" "table_step fs (fat_entry fs) f"
    by (rule get_fat_spec [OF ok(1) ncl])
  have e: "fat_entry fs ncl \<noteq> 1" "fat_entry fs ncl \<noteq> 0xFFFFFFFF" using ok(2) ncl entry_no_error by (auto simp: no_ones_def)
  consider "fat_entry fs ncl = 0" | "fat_entry fs ncl \<noteq> 0" "ncl = scl" | "fat_entry fs ncl \<noteq> 0" "ncl \<noteq> scl" by blast
  then show ?thesis
  proof cases
    case 3
    have "search_result fs (insert (unat ncl) R) (find_free scl ncl f)"
      using R ncl by (intro search_result_later [OF f(3,2) rec [OF f(3,2) 3(2)]]) (auto simp: word_unat_eq_iff [symmetric] 3(1))
    with 3 f(1) e show ?thesis by simp
  qed (use f ncl e in \<open>auto simp: search_result_def free_cluster_def word_unat_eq_iff [symmetric]\<close>)
qed

lemma remaining_bound: "scl < n \<Longrightarrow> c \<in> remaining n scl k \<Longrightarrow> c < n"
  by (auto simp: remaining_def split: if_splits)

lemma find_free_spec:
  assumes "fat_ok fs" "no_ones fs" "1 \<le> scl" "scl < n_fatent fs" "1 \<le> k" "k < n_fatent fs"
  shows "search_result fs (remaining (unat (n_fatent fs)) (unat scl) (unat k)) (find_free scl k fs)"
  using assms
proof (induction "card (remaining (unat (n_fatent fs)) (unat scl) (unat k))" arbitrary: k fs rule: less_induct)
  case less
  let ?n = "n_fatent fs" and ?R = "\<lambda>k. remaining (unat (n_fatent fs)) (unat scl) (unat k)"
  have n: "2 < unat ?n" "unat ?n < 2 ^ 31" using less.prems(1) by (auto simp: fat_ok_def)
  have b: "1 \<le> unat scl" "unat scl < unat ?n" "1 \<le> unat k" "unat k < unat ?n"
    using less.prems(3-6) by (simp_all add: word_less_nat_alt word_le_nat_alt)
  have k1: "unat (k + 1) = Suc (unat k)" using b n by (intro unat_inc) simp
  note step = remaining_step [OF b n(1)]
  define ncl where "ncl = (if ?n \<le> k + 1 then 2 else k + 1)"
  show ?case
  proof (cases "?n \<le> k + 1 \<and> scl < ncl")
    case True
    then have "unat scl = 1" using b by (auto simp: ncl_def word_less_nat_alt)
    then have "?R k = {}" using step(3) True k1 by (simp add: word_le_nat_alt)
    moreover have "find_free scl k fs = Some (Inl 0, fs)"
      using True by (subst find_free.simps) (auto simp: ncl_def)
    moreover have "table_step fs (fat_entry fs) fs" using less.prems(1) by (simp add: table_step_def same_vol_geom)
    ultimately show ?thesis by (simp add: search_result_def)
  next
    case False
    have ncl: "2 \<le> ncl" "ncl < ?n" using k1 b n(1) by (auto simp: ncl_def word_le_nat_alt word_less_nat_alt)
    have R: "?R k = insert (unat ncl) (if ncl = scl then {} else ?R ncl)"
      using step False k1 b by (auto simp: ncl_def word_le_nat_alt word_less_nat_alt word_unat_eq_iff split: if_splits)
    have new: "unat ncl \<notin> ?R ncl" if "ncl \<noteq> scl"
      using that ncl b by (auto simp: remaining_def word_le_nat_alt word_unat_eq_iff)
    have "search_result fs (insert (unat ncl) (if ncl = scl then {} else ?R ncl))
      (case get_fat ncl fs of (cs, fs) \<Rightarrow> if cs = 0 then Some (Inr ncl, fs) else if cs = 1 \<or> cs = 0xFFFFFFFF then Some (Inl cs, fs)
        else if ncl = scl then Some (Inl 0, fs) else find_free scl ncl fs)"
    proof (rule find_free_visit [OF less.prems(1,2) ncl])
      fix f assume f: "table_step fs (fat_entry fs) f" "same_vol fs f" "ncl \<noteq> scl"
      note t = table_step_fields [OF f(1)]
      have "card (?R ncl) < card (?R k)" using R f(3) new by simp
      then show "search_result f (?R ncl) (find_free scl ncl f)"
        using less.hyps [of f ncl] t(1,2) table_same(1) [OF f(1)] less.prems ncl by (auto simp: word_le_nat_alt)
    qed (use remaining_bound b in \<open>auto simp: word_less_nat_alt\<close>)
    moreover have "find_free scl k fs = (case get_fat ncl fs of (cs, fs) \<Rightarrow> if cs = 0 then Some (Inr ncl, fs)
        else if cs = 1 \<or> cs = 0xFFFFFFFF then Some (Inl cs, fs) else if ncl = scl then Some (Inl 0, fs) else find_free scl ncl fs)"
      by (subst find_free.simps) (simp only: Let_def ncl_def [symmetric] False if_False)
    ultimately show ?thesis using R by simp
  qed
qed

abbreviation clusters :: "fatfs \<Rightarrow> nat set" where "clusters fs \<equiv> {2 ..< unat (n_fatent fs)}"

lemma find_free_all:
  assumes "fat_ok fs" "no_ones fs" "1 \<le> scl" "scl < n_fatent fs"
  shows "search_result fs (clusters fs) (find_free scl scl fs)"
proof -
  have "remaining (unat (n_fatent fs)) (unat scl) (unat scl) = clusters fs"
    using assms(3,4) by (auto simp: remaining_def word_le_nat_alt word_less_nat_alt)
  then show ?thesis using find_free_spec [OF assms assms(3,4)] by simp
qed

lemma table_step_self: "fat_ok fs \<Longrightarrow> table_step fs (fat_entry fs) fs"
  by (simp add: table_step_def same_vol_geom)

lemma choose_cluster_spec:
  assumes ok: "fat_ok fs" "no_ones fs" and scl: "1 \<le> scl" "scl < n_fatent fs"
  shows "search_result fs (clusters fs) (choose_cluster clst scl fs)"
proof (cases "scl = clst")
  case False
  then show ?thesis using find_free_all [OF assms] by (simp add: choose_cluster_def)
next
  case True
  define ncl where "ncl = (if n_fatent fs \<le> scl + 1 then 2 else scl + 1)"
  have n: "2 < unat (n_fatent fs)" "unat (n_fatent fs) < 2 ^ 31" using ok(1) by (auto simp: fat_ok_def)
  have s: "1 \<le> unat scl" "unat scl < unat (n_fatent fs)" using scl by (simp_all add: word_less_nat_alt word_le_nat_alt)
  then have "unat (scl + 1) = Suc (unat scl)" using n by (intro unat_inc) simp
  then have ncl: "2 \<le> ncl" "ncl < n_fatent fs" using s n by (auto simp: ncl_def word_le_nat_alt word_less_nat_alt)
  obtain f where f: "get_fat ncl fs = (fat_entry fs ncl, f)" "same_vol fs f" "table_step fs (fat_entry fs) f"
    by (rule get_fat_spec [OF ok(1) ncl])
  note t = table_step_fields [OF f(3)]
  have e: "fat_entry fs ncl \<noteq> 1" "fat_entry fs ncl \<noteq> 0xFFFFFFFF" using ok(2) ncl entry_no_error by (auto simp: no_ones_def)
  define scl' where "scl' = (if 2 \<le> last_clst f \<and> last_clst f < n_fatent f then last_clst f else scl)"
  have c: "choose_cluster clst scl fs = (if fat_entry fs ncl \<noteq> 0 then find_free scl' scl' f else Some (Inr ncl, f))"
    unfolding choose_cluster_def Let_def ncl_def [symmetric] if_P [OF True] f(1) using e by (simp add: scl'_def)
  show ?thesis
  proof (cases "fat_entry fs ncl = 0")
    case True
    then show ?thesis using c f ncl by (simp add: search_result_def free_cluster_def)
  next
    case False
    have "1 \<le> scl'" "scl' < n_fatent f" using scl t(2) by (auto simp: scl'_def word_le_nat_alt)
    then have "search_result f (clusters f) (find_free scl' scl' f)" using t(1) table_same(1) [OF f(3)] ok(2) find_free_all by simp
    then have "search_result fs (clusters fs) (find_free scl' scl' f)"
      by (rule search_result_later [OF f(3,2)]) (use t(2) in \<open>auto simp: word_less_nat_alt\<close>)
    with False c show ?thesis by simp
  qed
qed

text \<open>Marking and linking the new cluster.\<close>

definition linked :: "fatfs \<Rightarrow> u32 \<Rightarrow> u32 \<Rightarrow> u32 \<Rightarrow> u32" where
  "linked fs clst ncl x = (if x = ncl then fat_value fs EOC else if clst \<noteq> 0 \<and> x = clst then ncl else fat_entry fs x)"

lemma link_cluster_spec:
  assumes ok: "fat_ok fs" and ncl: "2 \<le> ncl" "ncl < n_fatent fs"
    and clst: "clst = 0 \<or> 2 \<le> clst \<and> clst < n_fatent fs \<and> clst \<noteq> ncl"
  obtains f where "link_cluster clst ncl fs = (ncl, f)" "table_step fs (linked fs clst ncl) f" "last_clst f = ncl"
    "free_clst f = (if 0 < free_clst fs \<and> free_clst fs \<le> n_fatent fs - 2 then free_clst fs - 1 else free_clst fs)"
proof -
  obtain f1 where f1: "put_fat ncl EOC fs = (FR_OK, f1)" "same_vol fs f1"
    "table_step fs ((fat_entry fs)(ncl := fat_value fs EOC)) f1" by (rule put_fat_spec [OF ok ncl])
  note t = table_step_fields [OF f1(3)]
  have "\<exists>f2. (if clst \<noteq> 0 then put_fat clst ncl f1 else (FR_OK, f1)) = (FR_OK, f2) \<and> same_vol f1 f2
      \<and> table_step fs (linked fs clst ncl) f2"
  proof (cases "clst = 0")
    case True
    have "table_step fs (linked fs clst ncl) f1"
      by (rule table_step_cong [OF f1(3)]) (simp add: linked_def True)
    with True show ?thesis by simp
  next
    case False
    with clst t(2) have c: "2 \<le> clst" "clst < n_fatent f1" "clst \<noteq> ncl" by auto
    obtain f2 where f2: "put_fat clst ncl f1 = (FR_OK, f2)" "same_vol f1 f2"
      "table_step f1 ((fat_entry f1)(clst := fat_value f1 ncl)) f2" by (rule put_fat_spec [OF t(1) c(1,2)])
    have "fat_value f1 ncl = ncl" using t(1,2) ncl by (intro fat_value_cluster) auto
    then have "table_step fs (linked fs clst ncl) f2"
      by (intro table_step_cong [OF table_step_trans [OF f1(3) f2(3)]]) (use t(3) c False in \<open>auto simp: linked_def\<close>)
    with False f2 show ?thesis by simp
  qed
  then obtain f2 where f2: "(if clst \<noteq> 0 then put_fat clst ncl f1 else (FR_OK, f1)) = (FR_OK, f2)" "same_vol f1 f2"
    "table_step fs (linked fs clst ncl) f2" by blast
  have h: "free_clst f2 = free_clst fs" "n_fatent f2 = n_fatent fs" "fsi_flag f2 = fsi_flag fs"
    using same_vol_fields(4,7,8) [OF f1(2)] same_vol_fields(4,7,8) [OF f2(2)] by simp_all
  define f where "f = snd (link_cluster clst ncl fs)"
  have l: "link_cluster clst ncl fs = (ncl, if 0 < free_clst fs \<and> free_clst fs \<le> n_fatent fs - 2
     then f2\<lparr>last_clst := ncl, free_clst := free_clst fs - 1, fsi_flag := fsi_flag fs OR 1\<rparr>
     else f2\<lparr>last_clst := ncl\<rparr>)"
    using f1(1) f2(1) h by (auto simp: link_cluster_def Let_def split: if_splits)
  have "f2\<lparr>last_clst := ncl\<rparr> = f2\<lparr>last_clst := ncl, free_clst := free_clst f2, fsi_flag := fsi_flag f2\<rparr>" by simp
  then have "table_step fs (linked fs clst ncl) (f2\<lparr>last_clst := ncl\<rparr>)" using table_step_hints [OF f2(3)] by metis
  then show thesis using that [of f] l table_step_hints [OF f2(3)] h by (auto simp: f_def)
qed

text \<open>The whole allocation, for a chain to stretch or a new one.\<close>

lemma chain_start_spec:
  assumes ok: "fat_ok fs" and clst: "clst = 0 \<or> 2 \<le> clst \<and> clst < n_fatent fs \<and> n_fatent fs \<le> fat_entry fs clst"
  obtains scl f where "chain_start clst fs = (Inr scl, f)" "same_vol fs f" "table_step fs (fat_entry fs) f"
    "1 \<le> scl" "scl < n_fatent fs"
proof (cases "clst = 0")
  case True
  have "2 < unat (n_fatent fs)" using ok by (simp add: fat_ok_def)
  then show thesis using that True table_step_self [OF ok]
    by (simp add: chain_start_def word_le_nat_alt word_less_nat_alt word_unat_eq_iff not_le split: if_splits)
next
  case False
  with clst have c: "2 \<le> clst" "clst < n_fatent fs" "n_fatent fs \<le> fat_entry fs clst" by auto
  obtain f where f: "get_fat clst fs = (fat_entry fs clst, f)" "same_vol fs f" "table_step fs (fat_entry fs) f"
    by (rule get_fat_spec [OF ok c(1,2)])
  have "2 < unat (n_fatent fs)" using ok by (simp add: fat_ok_def)
  then have "\<not> fat_entry fs clst < 2" "\<not> fat_entry fs clst < n_fatent f" "1 \<le> clst"
    using c table_step_fields(2) [OF f(3)] by (auto simp: word_le_nat_alt word_less_nat_alt)
  then show thesis using that [of clst f] False f c entry_no_error [of fs clst] by (simp add: chain_start_def)
qed

lemma chain_end: "chain F n cs \<Longrightarrow> 2 \<le> last cs \<and> last cs < n \<and> n \<le> F (last cs)"
  by (induction F n cs rule: chain.induct) auto

lemma chain_nonzero: "chain F n cs \<Longrightarrow> c \<in> set cs \<Longrightarrow> F c \<noteq> 0"
proof (induction F n cs rule: chain.induct)
  case (3 F n c' d cs)
  then show ?case using chain_members [of F n "d # cs" d] by (auto simp: word_le_nat_alt)
qed (auto simp: word_le_nat_alt word_less_nat_alt)

lemma chain_snoc: "chain F n cs \<Longrightarrow> r \<notin> set cs \<Longrightarrow> 2 \<le> r \<Longrightarrow> r < n \<Longrightarrow> n \<le> G r \<Longrightarrow>
    (\<And>x. x \<in> set cs \<Longrightarrow> G x = (if x = last cs then r else F x)) \<Longrightarrow> chain G n (cs @ [r])"
proof (induction F n cs rule: chain.induct)
  case (3 F n c d cs)
  have "c \<noteq> last (d # cs)" using chain_distinct [OF 3(2)] by (metis distinct.simps(2) last_in_set list.distinct(1))
  moreover have "chain G n ((d # cs) @ [r])" using 3(2-7) by (intro 3(1)) auto
  ultimately show ?case using 3(2) 3(7) [of c] by (auto simp: chain_Cons)
qed auto

lemma create_chain_search:
  assumes ok: "fat_ok fs" "no_ones fs" "free_clst fs \<noteq> 0"
    and clst: "clst = 0 \<or> 2 \<le> clst \<and> clst < n_fatent fs \<and> n_fatent fs \<le> fat_entry fs clst"
  shows "\<exists>r f2. create_chain clst fs = (case r of Inl v \<Rightarrow> Some (v, f2) | Inr ncl \<Rightarrow> Some (link_cluster clst ncl f2))
    \<and> same_vol fs f2 \<and> table_step fs (fat_entry fs) f2
    \<and> (case r of Inr ncl \<Rightarrow> free_cluster fs ncl | Inl v \<Rightarrow> v = 0 \<and> (\<forall>c. unat c \<in> clusters fs \<longrightarrow> fat_entry fs c \<noteq> 0))"
proof -
  obtain scl f1 where f1: "chain_start clst fs = (Inr scl, f1)" "same_vol fs f1" "table_step fs (fat_entry fs) f1"
    "1 \<le> scl" "scl < n_fatent fs" by (rule chain_start_spec [OF ok(1) clst])
  note t1 = table_step_fields [OF f1(3)] and h1 = same_vol_fields(7,8) [OF f1(2)]
  have "search_result f1 (clusters f1) (choose_cluster clst scl f1)"
    using choose_cluster_spec [OF t1(1)] table_same(1) [OF f1(3)] ok(2) f1(4,5) t1(2) by simp
  then have "search_result fs (clusters fs) (choose_cluster clst scl f1)"
    by (rule search_result_later [OF f1(3,2)]) (use t1(2) in \<open>auto simp: word_less_nat_alt\<close>)
  then show ?thesis using f1(1) ok(3) h1 by (fastforce simp: search_result_def create_chain_def)
qed

lemma linked_chain:
  assumes ok: "fat_ok fs" and cs: "cs = [] \<or> chain (fat_entry fs) (n_fatent fs) cs" and new: "cs = [] \<or> r \<notin> set cs"
    and r: "2 \<le> r" "r < n_fatent fs"
    and G: "\<And>x. x < n_fatent fs \<Longrightarrow> G x = linked fs (if cs = [] then 0 else last cs) r x"
  shows "chain G (n_fatent fs) (cs @ [r])"
proof (cases "cs = []")
  case True
  then show ?thesis using r G fat_value_eoc [OF ok] by (simp add: linked_def)
next
  case False
  then have ch: "chain (fat_entry fs) (n_fatent fs) cs" and nin: "r \<notin> set cs" using cs new by auto
  have l: "last cs \<noteq> 0" using chain_end [OF ch] by (auto simp: word_le_nat_alt)
  show ?thesis
  proof (rule chain_snoc [OF ch nin r])
    show "n_fatent fs \<le> G r" using G [OF r(2)] fat_value_eoc [OF ok] by (simp add: linked_def)
    show "G x = (if x = last cs then r else fat_entry fs x)" if "x \<in> set cs" for x
      using G [of x] chain_members [OF ch that] that nin False l by (auto simp: linked_def)
  qed
qed

text \<open>
  Property C6 (functional). On a table in which no entry holds the reserved value 1 (\<open>no_ones\<close>) and with a free count that is not
  zero (it may be unknown), \<^verbatim>\<open>create_chain\<close> on the last cluster of a chain, or on 0 for a new chain, returns. If some cluster is free it takes
  one, makes it the new end of the chain, remembers it and counts it; no other entry and no sector
  outside the FATs changes. If none is free it returns 0 and the table is as before.
\<close>

theorem create_chain_allocates:
  assumes ok: "fat_ok fs" "no_ones fs" "free_clst fs \<noteq> 0" and cs: "cs = [] \<or> chain (fat_entry fs) (n_fatent fs) cs"
  shows "\<exists>r fs'. create_chain (if cs = [] then 0 else last cs) fs = Some (r, fs') \<and> fat_ok fs'
    \<and> (\<forall>n. outside_fats fs n \<longrightarrow> lsec fs' n = lsec fs n)
    \<and> (if \<exists>c. free_cluster fs c
       then free_cluster fs r \<and> chain (fat_entry fs') (n_fatent fs') (cs @ [r]) \<and> last_clst fs' = r
         \<and> (\<forall>x < n_fatent fs. x \<noteq> r \<and> (cs = [] \<or> x \<noteq> last cs) \<longrightarrow> fat_entry fs' x = fat_entry fs x)
         \<and> free_clst fs' = (if free_clst fs \<le> n_fatent fs - 2 then free_clst fs - 1 else free_clst fs)
       else r = 0 \<and> (\<forall>x < n_fatent fs. fat_entry fs' x = fat_entry fs x))"
proof -
  define clst where "clst = (if cs = [] then 0 else last cs)"
  let ?n = "n_fatent fs" and ?F = "fat_entry fs"
  have clst: "clst = 0 \<or> 2 \<le> clst \<and> clst < ?n \<and> ?n \<le> ?F clst" using cs chain_end [of ?F ?n cs] by (auto simp: clst_def)
  obtain r f2 where f2: "create_chain clst fs = (case r of Inl v \<Rightarrow> Some (v, f2) | Inr ncl \<Rightarrow> Some (link_cluster clst ncl f2))"
    "same_vol fs f2" "table_step fs ?F f2"
    "case r of Inr ncl \<Rightarrow> free_cluster fs ncl | Inl v \<Rightarrow> v = 0 \<and> (\<forall>c. unat c \<in> clusters fs \<longrightarrow> ?F c \<noteq> 0)"
    using create_chain_search [OF ok clst] by blast
  note t2 = table_step_fields [OF f2(3)] and h2 = same_vol_fields(7,8) [OF f2(2)]
  show ?thesis
  proof (cases r)
    case (Inl v)
    then have "v = 0" "\<not> (\<exists>c. free_cluster fs c)"
      using f2(4) by (auto simp: free_cluster_def word_le_nat_alt word_less_nat_alt)
    then show ?thesis using f2(1,3) Inl t2 by (auto simp: clst_def table_step_def)
  next
    case (Inr ncl)
    then have ncl: "2 \<le> ncl" "ncl < ?n" "?F ncl = 0" and fr: "free_cluster fs ncl" using f2(4) by (auto simp: free_cluster_def)
    have new: "cs = [] \<or> ncl \<notin> set cs" using chain_nonzero [of ?F ?n cs ncl] cs ncl(3) by auto
    then have "clst = 0 \<or> 2 \<le> clst \<and> clst < n_fatent f2 \<and> clst \<noteq> ncl" using clst t2(2) last_in_set [of cs] by (auto simp: clst_def)
    then obtain f where f: "link_cluster clst ncl f2 = (ncl, f)" "table_step f2 (linked f2 clst ncl) f" "last_clst f = ncl"
      "free_clst f = (if 0 < free_clst f2 \<and> free_clst f2 \<le> n_fatent f2 - 2 then free_clst f2 - 1 else free_clst f2)"
      using ncl t2(2) by (rule_tac link_cluster_spec [OF t2(1), of ncl clst]) auto
    have "fat_value f2 EOC = fat_value fs EOC" using same_vol_fields(1) [OF f2(2)] by (simp add: fat_value_def)
    then have step: "table_step fs (linked fs clst ncl) f"
      by (intro table_step_cong [OF table_step_trans [OF f2(3) f(2)]]) (use t2(3) in \<open>auto simp: linked_def\<close>)
    note t = table_step_fields [OF step]
    have ch: "chain (fat_entry f) (n_fatent f) (cs @ [ncl])"
      unfolding t(2) by (rule linked_chain [OF ok(1) cs new ncl(1,2)]) (simp add: t(3) clst_def)
    have "\<forall>n. outside_fats fs n \<longrightarrow> lsec f n = lsec fs n" using step by (simp add: table_step_def)
    moreover have "\<forall>x < ?n. x \<noteq> ncl \<and> (cs = [] \<or> x \<noteq> last cs) \<longrightarrow> fat_entry f x = ?F x"
      using t(3) by (auto simp: linked_def clst_def)
    moreover have "free_clst f = (if free_clst fs \<le> ?n - 2 then free_clst fs - 1 else free_clst fs)"
      using f(4) h2 ok(3) by (auto simp: word_neq_0_conv)
    moreover have "create_chain clst fs = Some (ncl, f)" using f2(1) Inr f(1) by simp
    ultimately show ?thesis using fr ch f(3) t(1) unfolding clst_def by auto
  qed
qed

text \<open>
  Property C10 (round trip). Writing a FAT entry and reading the table back, through the sector window
  and for entries of 12, 16 and 32 bits (the 12-bit ones share bytes and may straddle sectors): the
  entry holds the value cut to its width, every other entry reads as before, and no sector outside
  the FATs is touched.
\<close>

theorem put_get_fat:
  assumes ok: "fat_ok fs" and c: "2 \<le> c" "c < n_fatent fs" and d: "2 \<le> d" "d < n_fatent fs"
  shows "\<exists>f1 f2. put_fat c v fs = (FR_OK, f1) \<and> fat_ok f1 \<and> get_fat d f1 = (if d = c then fat_value fs v else fst (get_fat d fs), f2)
    \<and> (\<forall>n. outside_fats fs n \<longrightarrow> lsec f1 n = lsec fs n)"
proof -
  obtain f1 where f1: "put_fat c v fs = (FR_OK, f1)" "table_step fs ((fat_entry fs)(c := fat_value fs v)) f1"
    by (rule put_fat_spec [OF ok c])
  note t = table_step_fields [OF f1(2)]
  obtain f2 where f2: "get_fat d f1 = (fat_entry f1 d, f2)" by (rule get_fat_spec [OF t(1) d(1)]) (use d t(2) in auto)
  obtain g where g: "get_fat d fs = (fat_entry fs d, g)" by (rule get_fat_spec [OF ok d])
  have "fat_entry f1 d = (if d = c then fat_value fs v else fat_entry fs d)" using t(3) [OF d(2)] by simp
  then show ?thesis using f1 f2 g t(1) by (auto simp: table_step_def)
qed

subsection \<open>A small volume\<close>

text \<open>A FAT16 volume of three clusters, in which a file has clusters 2 and 3 and cluster 4 is free.\<close>

definition small_fat :: "u8 list" where
  "small_fat = [0xF8, 0xFF, 0xFF, 0xFF, 3, 0, 0xFF, 0xFF, 0, 0] @ replicate 502 0"

definition small_vol :: fatfs where
  "small_vol = \<lparr>fs_type = FS_FAT16, pdrv = 0, n_fats = 1, wflag = 0, fsi_flag = 0, fs_id = 1, n_rootdir = 16,
     csize = 1, last_clst = 3, free_clst = 1, n_fatent = 5, fsize = 1, winsect = 0xFFFFFFFF, volbase = 0, fatbase = 1,
     dirbase = 2, database = 3, win = replicate 512 0, lfnbuf = [],
     drv = \<lparr>g_ata = Some \<lparr>ata_sectors = (\<lambda>n. if n = 64 then small_fat else replicate 512 0),
       ata_rd_err = (\<lambda>_. False), ata_wr_err = (\<lambda>_. False), ata_flush_err = False\<rparr>, g_partLBA = 63, g_partSize = 6\<rparr>\<rparr>"

lemma small_vol_ok: "fat_ok small_vol"
  by (simp add: small_vol_def fat_ok_def vol_ok_def healthy_def small_fat_def)

lemma small_vol_entries: "fat_entry small_vol 2 = 3" "fat_entry small_vol 3 = 0xFFFF" "fat_entry small_vol 4 = 0"
  by (simp_all add: small_vol_def fat_entry_def entry16_def fat_byte_def lsec_def dsec_def small_fat_def)

lemma small_vol_fields: "n_fatent small_vol = 5" "free_clst small_vol = 1" "fs_type small_vol = FS_FAT16"
  by (simp_all add: small_vol_def)

lemma small_vol_chain: "chain (fat_entry small_vol) (n_fatent small_vol) [2, 3]"
  by (simp add: small_vol_entries small_vol_fields)

lemma small_vol_no_ones: "no_ones small_vol"
proof -
  have "c = 2 \<or> c = 3 \<or> c = 4" if "2 \<le> c" "c < 5" for c :: u32
    using that by (auto simp: word_le_nat_alt word_less_nat_alt word_unat_eq_iff)
  then show ?thesis using small_vol_entries by (fastforce simp: no_ones_def small_vol_fields)
qed

theorem put_get_fat_witness:
  "\<exists>f1 f2. put_fat 4 0x12345 small_vol = (FR_OK, f1) \<and> get_fat 4 f1 = (0x2345, f2)"
  using put_get_fat [OF small_vol_ok, of 4 4 "0x12345"] by (auto simp: small_vol_fields fat_value_def)

theorem remove_chain_terminates_witness: "\<exists>res fs'. remove_chain 3 3 small_vol = Some (res, fs')"
  using remove_chain_terminates [OF small_vol_ok] by blast

theorem remove_chain_cuts_witness:
  "\<exists>fs'. remove_chain 3 2 small_vol = Some (FR_OK, fs') \<and> fat_entry fs' 3 = 0 \<and> unat (free_clst fs') = 2"
  using remove_chain_cuts [OF small_vol_ok, of "[2]" 3 "[]"] small_vol_chain
  by (auto simp: count_free_def small_vol_fields)

theorem create_chain_allocates_witness:
  "\<exists>r fs'. create_chain 3 small_vol = Some (r, fs') \<and> fat_entry small_vol r = 0 \<and> chain (fat_entry fs') (n_fatent fs') [2, 3, r]"
proof -
  have "free_cluster small_vol 4" by (simp add: free_cluster_def small_vol_entries small_vol_fields)
  then have "\<exists>c. free_cluster small_vol c" by blast
  then show ?thesis
    using create_chain_allocates [OF small_vol_ok small_vol_no_ones, of "[2, 3]"] small_vol_chain
    by (auto simp: small_vol_fields free_cluster_def)
qed

end
