(* ===== verification/Audio_Mixer.thy ===== *)
theory Audio_Mixer
  imports Prelude
begin

text \<open>
  The software mixer, \<^verbatim>\<open>core/drivers/AudioMixer.cpp\<close>: eight streams over buffers that the mixer
  owns, saturated mixing into one output frame, and the deferred release of finished buffers. The
  output device is behind the abstract class \<^verbatim>\<open>AudioDriver\<close> and is a parameter, and so is the
  allocation \<open>kmalloc\<close> of a buffer; \<open>bufs\<close> holds the bytes of the live buffers.
\<close>

subsection \<open>State\<close>

type_synonym s16 = "16 word"

record audio_stream =
  st_data :: u32
  st_length :: u32
  position :: u32
  active :: bool
  looping :: bool
  ownsData :: bool

definition empty_stream :: audio_stream where
  "empty_stream = \<lparr>st_data = 0, st_length = 0, position = 0, active = False, looping = False, ownsData = False\<rparr>"

record 'd audio_driver =
  GetBufferSize :: "'d \<Rightarrow> u32"
  SetSampleRate :: "u32 \<Rightarrow> 'd \<Rightarrow> 'd"
  IsPlaying :: "'d \<Rightarrow> bool"
  IsReadyForData :: "'d \<Rightarrow> bool \<times> 'd"
  Start :: "'d \<Rightarrow> 'd"
  WriteData :: "s16 list \<Rightarrow> u32 \<Rightarrow> 'd \<Rightarrow> 'd"

text \<open>\<open>mixBuffer\<close> is \<open>None\<close> for the null pointer, else its samples.\<close>

record mixer =
  driver :: bool
  streams :: "audio_stream list"
  mixBuffer :: "s16 list option"
  bufferSize :: u32
  pendingFreeBuffers :: "u32 list"
  pendingFreeLengths :: "u32 list"
  bufs :: "u32 \<rightharpoonup> u8 list"

definition AudioMixer :: "'d audio_driver option \<Rightarrow> bool \<Rightarrow> 'd \<Rightarrow> mixer" where
  "AudioMixer drv gotBuffer d =
     (let m = \<lparr>driver = (drv \<noteq> None), streams = replicate 8 empty_stream, mixBuffer = None, bufferSize = 0,
            pendingFreeBuffers = replicate 8 0, pendingFreeLengths = replicate 8 0, bufs = Map.empty\<rparr> in
      case drv of None \<Rightarrow> m
      | Some a \<Rightarrow> m\<lparr>bufferSize := GetBufferSize a d,
            mixBuffer := if gotBuffer then Some (replicate (unat (GetBufferSize a d div 2)) 0) else None\<rparr>)"

definition SetOutputSampleRate :: "'d audio_driver \<Rightarrow> u32 \<Rightarrow> mixer \<Rightarrow> 'd \<Rightarrow> 'd" where
  "SetOutputSampleRate a rate m d = (if driver m then SetSampleRate a rate d else d)"

subsection \<open>Mixing\<close>

definition load16 :: "u8 list \<Rightarrow> nat \<Rightarrow> s16" where
  "load16 buf k = ucast (buf ! (2 * k)) OR push_bit 8 (ucast (buf ! (2 * k + 1)))"

definition clamp16 :: "int \<Rightarrow> int" where
  "clamp16 mixed = (let mixed = (if mixed > 32767 then 32767 else mixed) in if mixed < -32768 then -32768 else mixed)"

text \<open>The inner loop of \<^verbatim>\<open>ProcessAudio\<close>, from output sample \<open>i\<close> on, over the stream's buffer.\<close>

function mix_stream :: "u8 list \<Rightarrow> nat \<Rightarrow> nat \<Rightarrow> audio_stream \<Rightarrow> s16 list \<Rightarrow> audio_stream \<times> s16 list" where
  "mix_stream buf samples i st out =
     (if samples \<le> i then (st, out)
      else if st_length st \<le> position st \<and> \<not> looping st then (st\<lparr>active := False\<rparr>, out)
      else
        let st = (if st_length st \<le> position st then st\<lparr>position := 0\<rparr> else st);
            sample = load16 buf (unat (position st div 2));
            mixed = clamp16 (sint (out ! i) + sint sample) in
        mix_stream buf samples (i + 1) (st\<lparr>position := position st + 2\<rparr>) (out[i := word_of_int mixed]))"
  by pat_completeness auto
termination by (relation "measure (\<lambda>(_, samples, i, _). samples - i)") auto

declare mix_stream.simps [simp del]

text \<open>The outer loop over the streams \<open>ss\<close>, with the hand-over of a finished buffer.\<close>

fun mix_streams :: "nat \<Rightarrow> nat list \<Rightarrow> mixer \<Rightarrow> s16 list \<Rightarrow> mixer \<times> s16 list" where
  "mix_streams samples [] m out = (m, out)"
| "mix_streams samples (s # ss) m out =
     (let st = streams m ! s in
      if \<not> active st then mix_streams samples ss m out
      else case mix_stream (the (bufs m (st_data st))) samples 0 st out of
        (st, out) \<Rightarrow>
          let m = (if \<not> active st \<and> ownsData st \<and> st_data st \<noteq> null_ptr
                   then m\<lparr>pendingFreeBuffers := (pendingFreeBuffers m)[s := st_data st],
                          pendingFreeLengths := (pendingFreeLengths m)[s := st_length st],
                          streams := (streams m)[s := st\<lparr>st_data := null_ptr, st_length := 0, position := 0, ownsData := False\<rparr>]\<rparr>
                   else m\<lparr>streams := (streams m)[s := st]\<rparr>) in
          mix_streams samples ss m out)"

definition ProcessAudio :: "'d audio_driver \<Rightarrow> mixer \<Rightarrow> 'd \<Rightarrow> mixer \<times> 'd" where
  "ProcessAudio a m d =
     (case mixBuffer m of
        None \<Rightarrow> (m, d)
      | Some _ \<Rightarrow>
          if \<not> driver m then (m, d)
          else
            let samples = unat (bufferSize m div 2) in
            case mix_streams samples [0..<8] m (replicate samples 0) of
              (m, out) \<Rightarrow> (m\<lparr>mixBuffer := Some out\<rparr>, WriteData a out (bufferSize m) d))"

text \<open>\<^verbatim>\<open>while (driver->IsReadyForData()) ProcessAudio();\<close> runs as long as the device accepts data.\<close>

partial_function (option) fill_device :: "'d audio_driver \<Rightarrow> mixer \<Rightarrow> 'd \<Rightarrow> (mixer \<times> 'd) option" where
  "fill_device a m d =
     (case IsReadyForData a d of (ready, d) \<Rightarrow>
        if ready then (case ProcessAudio a m d of (m, d) \<Rightarrow> fill_device a m d) else Some (m, d))"

declare fill_device.simps [code]

subsection \<open>Playing and updating\<close>

text \<open>The first inactive slot receives a copy of the caller's bytes; \<open>None\<close> when there is no memory for it.\<close>

definition claim_slot :: "(mixer \<Rightarrow> u32) \<Rightarrow> u8 list \<Rightarrow> bool \<Rightarrow> mixer \<Rightarrow> mixer option" where
  "claim_slot kmalloc data loop m =
     (case find (\<lambda>i. \<not> active (streams m ! i)) [0..<8] of
        None \<Rightarrow> Some m
      | Some i \<Rightarrow>
          let copy = kmalloc m in
          if copy = null_ptr then None
          else Some (m\<lparr>bufs := (bufs m)(copy \<mapsto> data),
            streams := (streams m)[i := \<lparr>st_data = copy, st_length = of_nat (length data), position = 0, active = True, looping = loop, ownsData = True\<rparr>]\<rparr>))"

text \<open>\<open>data\<close> are the caller's \<^verbatim>\<open>length\<close> bytes; the outer \<open>None\<close> is a device that always asks for more.\<close>

definition PlayBuffer :: "'d audio_driver \<Rightarrow> (mixer \<Rightarrow> u32) \<Rightarrow> u8 list \<Rightarrow> bool \<Rightarrow> mixer \<Rightarrow> 'd \<Rightarrow> (mixer \<times> 'd) option" where
  "PlayBuffer a kmalloc data loop m d =
     (if data = [] \<or> odd (length data) \<or> \<not> driver m then Some (m, d)
      else case claim_slot kmalloc data loop m of
        None \<Rightarrow> Some (m, d)
      | Some m \<Rightarrow>
          if IsPlaying a d then Some (m, d)
          else (case (if mixBuffer m \<noteq> None then fill_device a m d else Some (m, d)) of
              None \<Rightarrow> None
            | Some (m, d) \<Rightarrow> Some (m, Start a d)))"

text \<open>The deferred releases, then new data.\<close>

fun free_pending :: "nat list \<Rightarrow> mixer \<Rightarrow> mixer" where
  "free_pending [] m = m"
| "free_pending (i # is) m =
     free_pending is
       (if pendingFreeBuffers m ! i \<noteq> null_ptr
        then m\<lparr>bufs := (bufs m)(pendingFreeBuffers m ! i := None), pendingFreeBuffers := (pendingFreeBuffers m)[i := 0],
               pendingFreeLengths := (pendingFreeLengths m)[i := 0]\<rparr>
        else m)"

definition Update :: "'d audio_driver \<Rightarrow> mixer \<Rightarrow> 'd \<Rightarrow> (mixer \<times> 'd) option" where
  "Update a m d = (if \<not> driver m \<or> mixBuffer m = None then Some (m, d) else fill_device a (free_pending [0..<8] m) d)"

subsection \<open>What one frame contains\<close>

text \<open>The sample that a stream contributes to output position \<open>j\<close>, seen from its read position.\<close>

definition stream_sample :: "u8 list \<Rightarrow> audio_stream \<Rightarrow> nat \<Rightarrow> s16 option" where
  "stream_sample buf st j =
     (let n = unat (st_length st) div 2; k = unat (position st) div 2 + j in
      if looping st then Some (load16 buf (k mod n)) else if k < n then Some (load16 buf k) else None)"

definition sat_add :: "s16 \<Rightarrow> s16 \<Rightarrow> s16" where
  "sat_add x y = word_of_int (max (-32768) (min 32767 (sint x + sint y)))"

definition add_sample :: "u8 list \<Rightarrow> audio_stream \<Rightarrow> nat \<Rightarrow> s16 \<Rightarrow> s16" where
  "add_sample buf st j acc = (case stream_sample buf st j of None \<Rightarrow> acc | Some x \<Rightarrow> sat_add acc x)"

definition mixed_sample :: "mixer \<Rightarrow> nat list \<Rightarrow> nat \<Rightarrow> s16 \<Rightarrow> s16" where
  "mixed_sample m ss j acc =
     fold (\<lambda>s acc. if active (streams m ! s) then add_sample (the (bufs m (st_data (streams m ! s)))) (streams m ! s) j acc else acc) ss acc"

text \<open>A playable stream: whole samples, and a read position inside its data.\<close>

definition stream_wf :: "audio_stream \<Rightarrow> bool" where
  "stream_wf st \<longleftrightarrow> even (unat (st_length st)) \<and> 0 < unat (st_length st) \<and> even (unat (position st)) \<and>
     unat (position st) \<le> unat (st_length st)"

lemma word_of_clamp16: "word_of_int (clamp16 (sint x + sint y)) = sat_add x y"
  by (auto simp: clamp16_def sat_add_def Let_def max_def min_def)

text \<open>Moving a playable stream by one sample.\<close>

lemma stream_wf_rewind: "stream_wf st \<Longrightarrow> stream_wf (st\<lparr>position := 0\<rparr>)"
  by (simp add: stream_wf_def)

lemma unat_position_advance:
  assumes "stream_wf st" "\<not> st_length st \<le> position st"
  shows "unat (position st + 2) = unat (position st) + 2" "unat (position st) + 2 \<le> unat (st_length st)"
proof -
  from assms show le: "unat (position st) + 2 \<le> unat (st_length st)"
    by (auto simp: stream_wf_def word_le_nat_alt elim!: evenE)
  have "unat (st_length st) < 2 ^ 32" by (rule unat_u32_bound)
  with le show "unat (position st + 2) = unat (position st) + 2"
    by (simp add: unat_word_ariths)
qed

lemma stream_wf_advance:
  "stream_wf st \<Longrightarrow> \<not> st_length st \<le> position st \<Longrightarrow> stream_wf (st\<lparr>position := position st + 2\<rparr>)"
  using unat_position_advance [of st] by (auto simp: stream_wf_def)

lemma stream_sample_Suc:
  assumes "stream_wf st" "\<not> st_length st \<le> position st"
  shows "stream_sample buf (st\<lparr>position := position st + 2\<rparr>) j = stream_sample buf st (Suc j)"
  using unat_position_advance [OF assms] by (simp add: stream_sample_def Let_def)

lemma stream_sample_0:
  assumes "stream_wf st" "\<not> st_length st \<le> position st"
  shows "stream_sample buf st 0 = Some (load16 buf (unat (position st div 2)))"
proof -
  have "unat (position st) div 2 < unat (st_length st) div 2"
    using unat_position_advance(2) [OF assms] by linarith
  then show ?thesis by (simp add: stream_sample_def Let_def unat_div)
qed

lemma stream_sample_rewind:
  assumes "stream_wf st" "st_length st \<le> position st" "looping st"
  shows "stream_sample buf (st\<lparr>position := 0\<rparr>) j = stream_sample buf st j"
proof -
  have "unat (position st) = unat (st_length st)" using assms by (auto simp: stream_wf_def word_le_nat_alt)
  with assms show ?thesis by (simp add: stream_sample_def Let_def)
qed

lemma stream_sample_end:
  assumes "st_length st \<le> position st" "\<not> looping st"
  shows "stream_sample buf st j = None"
proof -
  have "unat (st_length st) div 2 \<le> unat (position st) div 2"
    using assms by (intro div_le_mono) (simp add: word_le_nat_alt)
  with assms show ?thesis by (simp add: stream_sample_def Let_def)
qed

text \<open>The stream as the loop body reads it: rewound when a looping stream is at its end.\<close>

definition rewound :: "audio_stream \<Rightarrow> audio_stream" where
  "rewound st = (if st_length st \<le> position st then st\<lparr>position := 0\<rparr> else st)"

abbreviation (input) advanced :: "audio_stream \<Rightarrow> audio_stream" where
  "advanced st \<equiv> (rewound st)\<lparr>position := position (rewound st) + 2\<rparr>"

lemma rewound_wf: "stream_wf st \<Longrightarrow> stream_wf (rewound st)"
  by (simp add: rewound_def stream_wf_rewind)

lemma rewound_inside: "stream_wf st \<Longrightarrow> \<not> st_length (rewound st) \<le> position (rewound st)"
  by (auto simp: rewound_def stream_wf_def word_le_nat_alt)

lemma advanced_wf: "stream_wf st \<Longrightarrow> stream_wf (advanced st)"
  by (simp add: stream_wf_advance rewound_wf rewound_inside)

lemma mix_stream_stop: "n \<le> i \<Longrightarrow> mix_stream buf n i st out = (st, out)"
  by (simp add: mix_stream.simps)

lemma mix_stream_end:
  "i < n \<Longrightarrow> st_length st \<le> position st \<Longrightarrow> \<not> looping st \<Longrightarrow> mix_stream buf n i st out = (st\<lparr>active := False\<rparr>, out)"
  by (simp add: mix_stream.simps)

lemma mix_stream_step:
  assumes "i < n" "\<not> (st_length st \<le> position st \<and> \<not> looping st)"
  shows "mix_stream buf n i st out =
    mix_stream buf n (i + 1) (advanced st) (out[i := sat_add (out ! i) (load16 buf (unat (position (rewound st) div 2)))])"
  using assms by (subst mix_stream.simps) (auto simp: Let_def rewound_def word_of_clamp16)

text \<open>Induction along the loop: out of output, end of the data, one sample.\<close>

lemma mix_stream_cases:
  fixes n i :: nat and st :: audio_stream
  obtains (stop) "n \<le> i" | (ended) "i < n" "st_length st \<le> position st" "\<not> looping st"
  | (step) "i < n" "\<not> (st_length st \<le> position st \<and> \<not> looping st)"
  by (meson not_le)

lemma length_mix_stream: "length (snd (mix_stream buf n i st out)) = length out"
proof (induction "n - i" arbitrary: i st out)
  case (Suc k)
  then show ?case
    by (cases rule: mix_stream_cases [where n = n and i = i and st = st]) (simp_all add: mix_stream_stop mix_stream_end mix_stream_step)
qed (simp add: mix_stream_stop)

lemma mix_stream_stream:
  assumes "stream_wf st" "mix_stream buf n i st out = (st', out')"
  shows "stream_wf st' \<and> st' = st\<lparr>position := position st', active := active st'\<rparr>"
  using assms
proof (induction "n - i" arbitrary: i st out)
  case 0
  then show ?case by (simp add: mix_stream_stop)
next
  case (Suc k)
  show ?case
  proof (cases rule: mix_stream_cases [where n = n and i = i and st = st])
    case ended
    with Suc.prems show ?thesis by (auto simp: mix_stream_end stream_wf_def)
  next
    case step
    from Suc.prems(2) [unfolded mix_stream_step [OF step]]
    have "stream_wf st' \<and> st' = (advanced st)\<lparr>position := position st', active := active st'\<rparr>"
      using Suc.hyps(2) by (intro Suc.hyps(1) [of "i + 1"] advanced_wf Suc.prems(1)) auto
    then show ?thesis by (auto simp: rewound_def split: if_splits)
  qed (use Suc.hyps in simp)
qed

lemma mix_stream_spec:
  assumes "stream_wf st" "length out = n" "k < n"
  shows "snd (mix_stream buf n i st out) ! k = (if k < i then out ! k else add_sample buf st (k - i) (out ! k))"
  using assms
proof (induction "n - i" arbitrary: i st out)
  case 0
  then show ?case by (simp add: mix_stream_stop)
next
  case (Suc l)
  show ?case
  proof (cases rule: mix_stream_cases [where n = n and i = i and st = st])
    case ended
    then show ?thesis by (simp add: mix_stream_end add_sample_def stream_sample_end)
  next
    case step
    note wf = rewound_wf [OF Suc.prems(1)] and inside = rewound_inside [OF Suc.prems(1)]
    let ?x = "load16 buf (unat (position (rewound st) div 2))"
    let ?out = "out[i := sat_add (out ! i) ?x]"
    have same: "stream_sample buf (rewound st) j = stream_sample buf st j" for j
      using step Suc.prems(1) by (auto simp: rewound_def stream_sample_rewind)
    have IH: "snd (mix_stream buf n (i + 1) (advanced st) ?out) ! k =
       (if k < i + 1 then ?out ! k else add_sample buf (advanced st) (k - (i + 1)) (?out ! k))"
      using Suc.hyps(2) Suc.prems by (intro Suc.hyps(1) advanced_wf) auto
    have "stream_sample buf (advanced st) (k - (i + 1)) = stream_sample buf st (k - i)" if "i < k"
      using stream_sample_Suc [OF wf inside] same that by (simp add: Suc_diff_Suc)
    moreover have "stream_sample buf st 0 = Some ?x" using stream_sample_0 [OF wf inside, of buf] same [of 0] by simp
    ultimately show ?thesis
      unfolding mix_stream_step [OF step] IH using Suc.prems
      by (auto simp: add_sample_def nth_list_update not_less less_Suc_eq)
  qed (use Suc.hyps in simp)
qed

subsection \<open>Ownership of the buffers\<close>

text \<open>
  The sixteen places that hold a buffer: the eight streams, then the eight deferred releases. A buffer
  is held in at most one place, and what is held is live.
\<close>

definition held :: "mixer \<Rightarrow> nat \<Rightarrow> u32" where
  "held m i = (if i < 8 then st_data (streams m ! i) else pendingFreeBuffers m ! (i - 8))"

definition held_ok :: "(nat \<Rightarrow> u32) \<Rightarrow> u32 set \<Rightarrow> bool" where
  "held_ok h live \<longleftrightarrow> (\<forall>i<16. h i \<noteq> null_ptr \<longrightarrow> h i \<in> live \<and> (\<forall>j<16. h j = h i \<longrightarrow> j = i))"

definition stream_ok :: "(u32 \<rightharpoonup> u8 list) \<Rightarrow> audio_stream \<Rightarrow> bool" where
  "stream_ok b st \<longleftrightarrow>
     (if active st
      then stream_wf st \<and> ownsData st \<and> st_data st \<noteq> null_ptr \<and> map_option length (b (st_data st)) = Some (unat (st_length st))
      else st_data st = null_ptr)"

definition mixer_inv :: "mixer \<Rightarrow> bool" where
  "mixer_inv m \<longleftrightarrow> length (streams m) = 8 \<and> length (pendingFreeBuffers m) = 8 \<and>
     (\<forall>i<8. stream_ok (bufs m) (streams m ! i)) \<and> held_ok (held m) (dom (bufs m)) \<and>
     (\<forall>b. mixBuffer m = Some b \<longrightarrow> length b = unat (bufferSize m div 2))"

lemma held_ok_move: "held_ok h live \<Longrightarrow> i < 16 \<Longrightarrow> j < 16 \<Longrightarrow> held_ok (h(i := 0, j := h i)) live"
  by (auto simp: held_ok_def)

lemma held_ok_fresh: "held_ok h live \<Longrightarrow> i < 16 \<Longrightarrow> x \<notin> live \<Longrightarrow> held_ok (h(i := x)) (insert x live)"
  by (auto simp: held_ok_def)

lemma held_ok_release: "held_ok h live \<Longrightarrow> i < 16 \<Longrightarrow> h i \<noteq> 0 \<Longrightarrow> held_ok (h(i := 0)) (live - {h i})"
  by (auto simp: held_ok_def)

lemma held_cong: "held_ok h live \<Longrightarrow> (\<And>i. i < 16 \<Longrightarrow> h' i = h i) \<Longrightarrow> held_ok h' live"
  by (auto simp: held_ok_def)

lemma mix_streams_step:
  assumes "active (streams m ! s)" "mix_stream (the (bufs m (st_data (streams m ! s)))) n 0 (streams m ! s) out = (st, out')"
  shows "\<exists>m'. mix_streams n (s # ss) m out = mix_streams n ss m' out' \<and>
     (\<exists>x. streams m' = (streams m)[s := x]) \<and> bufs m' = bufs m"
  using assms by (auto simp: Let_def intro!: exI)

lemma mixed_sample_cong:
  assumes "bufs m' = bufs m" "\<And>t. t \<in> set ss \<Longrightarrow> streams m' ! t = streams m ! t"
  shows "mixed_sample m' ss j acc = mixed_sample m ss j acc"
  unfolding mixed_sample_def by (rule fold_cong) (use assms in auto)

lemma length_mix_streams: "length (snd (mix_streams n ss m out)) = length out"
proof (induction n ss m out rule: mix_streams.induct)
  case (2 n s ss m out)
  have "length (snd (mix_stream b n 0 st out)) = length out" for b st by (rule length_mix_stream)
  with 2 show ?case by (auto simp: Let_def split: prod.splits) (metis snd_conv)+
qed simp

lemma mix_streams_spec:
  assumes "distinct ss" "\<And>s. s \<in> set ss \<Longrightarrow> active (streams m ! s) \<Longrightarrow> stream_wf (streams m ! s)"
    and "length out = n" "k < n"
  shows "snd (mix_streams n ss m out) ! k = mixed_sample m ss k (out ! k)"
  using assms
proof (induction ss arbitrary: m out)
  case Nil
  then show ?case by (simp add: mixed_sample_def)
next
  case (Cons s ss)
  show ?case
  proof (cases "active (streams m ! s)")
    case False
    with Cons show ?thesis by (simp add: mixed_sample_def)
  next
    case True
    let ?b = "the (bufs m (st_data (streams m ! s)))"
    obtain st out' where ms: "mix_stream ?b n 0 (streams m ! s) out = (st, out')" by fastforce
    obtain m' x where step: "mix_streams n (s # ss) m out = mix_streams n ss m' out'"
      and m': "streams m' = (streams m)[s := x]" "bufs m' = bufs m"
      using mix_streams_step [OF True ms] by blast
    have len: "length out' = n" using length_mix_stream [of ?b n 0 "streams m ! s" out] ms Cons.prems by simp
    have same: "streams m' ! t = streams m ! t" if "t \<in> set ss" for t
      using that Cons.prems(1) m' by (cases "t = s") auto
    have "snd (mix_streams n (s # ss) m out) ! k = mixed_sample m' ss k (out' ! k)"
      unfolding step using Cons.prems same len by (intro Cons.IH) auto
    also have "\<dots> = mixed_sample m ss k (out' ! k)"
      using same m' by (intro mixed_sample_cong) auto
    also have "out' ! k = add_sample ?b (streams m ! s) k (out ! k)"
      using mix_stream_spec [of "streams m ! s" out n k ?b 0] ms Cons.prems True by simp
    finally show ?thesis using True by (simp add: mixed_sample_def)
  qed
qed

text \<open>One stream's turn keeps the ownership of the buffers.\<close>

lemma mixer_inv_stream:
  assumes "mixer_inv m" "s < 8" "stream_ok (bufs m) st" "st_data st = st_data (streams m ! s)"
  shows "mixer_inv (m\<lparr>streams := (streams m)[s := st]\<rparr>)"
proof -
  have "held (m\<lparr>streams := (streams m)[s := st]\<rparr>) i = held m i" if "i < 16" for i
    using assms by (auto simp: held_def mixer_inv_def nth_list_update)
  with assms show ?thesis by (auto simp: mixer_inv_def nth_list_update elim: held_cong)
qed

lemma mixer_inv_finish:
  assumes "mixer_inv m" "s < 8" "\<not> active st" "st_data st = null_ptr"
  shows "mixer_inv (m\<lparr>pendingFreeBuffers := (pendingFreeBuffers m)[s := st_data (streams m ! s)],
     pendingFreeLengths := l, streams := (streams m)[s := st]\<rparr>)" (is "mixer_inv ?m")
proof -
  have "held_ok ((held m)(s := 0, 8 + s := held m s)) (dom (bufs m))"
    using assms by (intro held_ok_move) (auto simp: mixer_inv_def)
  moreover have "held ?m i = ((held m)(s := 0, 8 + s := held m s)) i" if "i < 16" for i
    using assms that by (auto simp: held_def mixer_inv_def nth_list_update)
  ultimately have "held_ok (held ?m) (dom (bufs m))" by (rule held_cong)
  with assms show ?thesis by (auto simp: mixer_inv_def nth_list_update stream_ok_def)
qed

lemma mix_streams_inv:
  assumes "mixer_inv m" "set ss \<subseteq> {..<8}"
  shows "mixer_inv (fst (mix_streams n ss m out)) \<and> mixBuffer (fst (mix_streams n ss m out)) = mixBuffer m \<and>
     bufferSize (fst (mix_streams n ss m out)) = bufferSize m \<and> driver (fst (mix_streams n ss m out)) = driver m"
  using assms
proof (induction ss arbitrary: m out)
  case (Cons s ss)
  let ?st = "streams m ! s"
  show ?case
  proof (cases "active ?st")
    case True
    obtain st out' where ms: "mix_stream (the (bufs m (st_data ?st))) n 0 ?st out = (st, out')" by fastforce
    have ok: "stream_ok (bufs m) ?st" using Cons.prems by (simp add: mixer_inv_def)
    have "stream_wf ?st" using ok True by (simp add: stream_ok_def)
    from mix_stream_stream [OF this ms] obtain p a
      where st: "stream_wf st" "st = ?st\<lparr>position := p, active := a\<rparr>" by blast
    have f: "ownsData st" "st_data st = st_data ?st" "st_length st = st_length ?st" "st_data ?st \<noteq> 0"
      using ok True by (simp_all add: st(2) stream_ok_def)
    show ?thesis
    proof (cases "active st")
      case True
      have "stream_ok (bufs m) st" using f st(1) ok \<open>active ?st\<close> True by (simp add: stream_ok_def)
      then have "mixer_inv (m\<lparr>streams := (streams m)[s := st]\<rparr>)"
        using Cons.prems f by (intro mixer_inv_stream) auto
      with Cons True \<open>active ?st\<close> ms show ?thesis by (simp add: Let_def)
    next
      case False
      let ?m = "m\<lparr>pendingFreeBuffers := (pendingFreeBuffers m)[s := st_data st],
        pendingFreeLengths := (pendingFreeLengths m)[s := st_length st],
        streams := (streams m)[s := st\<lparr>st_data := null_ptr, st_length := 0, position := 0, ownsData := False\<rparr>]\<rparr>"
      have "mixer_inv ?m"
        unfolding f(2) using Cons.prems False by (intro mixer_inv_finish) auto
      with Cons.IH [of ?m out'] Cons.prems False \<open>active ?st\<close> ms f show ?thesis by (simp add: Let_def)
    qed
  qed (use Cons in simp)
qed simp

lemma mixer_inv_mixBuffer:
  assumes "mixer_inv m" "length out = unat (bufferSize m div 2)"
  shows "mixer_inv (m\<lparr>mixBuffer := Some out\<rparr>)"
proof -
  have "held (m\<lparr>mixBuffer := Some out\<rparr>) = held m" by (auto simp: held_def)
  with assms show ?thesis by (simp add: mixer_inv_def)
qed

lemma ProcessAudio_inv [inv_intros]:
  assumes "mixer_inv m" "ProcessAudio a m d = (m', d')"
  shows "mixer_inv m'"
proof -
  let ?n = "unat (bufferSize m div 2)"
  obtain m1 out where ms: "mix_streams ?n [0..<8] m (replicate ?n 0) = (m1, out)" by fastforce
  have "set [0..<8] \<subseteq> {..<8::nat}" by auto
  from mix_streams_inv [OF assms(1) this, of ?n "replicate ?n 0"]
  have inv: "mixer_inv m1" "bufferSize m1 = bufferSize m" by (simp_all add: ms)
  moreover have "length out = ?n" using length_mix_streams [of ?n "[0..<8]" m "replicate ?n 0"] ms by simp
  ultimately have "mixer_inv (m1\<lparr>mixBuffer := Some out\<rparr>)" by (intro mixer_inv_mixBuffer) auto
  with assms ms show ?thesis by (auto simp: ProcessAudio_def Let_def split: option.splits if_splits)
qed

lemma fill_device_inv [inv_intros]:
  assumes "fill_device a m d = Some r" "mixer_inv m"
  shows "mixer_inv (fst r)"
proof -
  have "mixer_inv m \<longrightarrow> mixer_inv (fst r)"
  proof (rule fill_device.raw_induct [where P = "\<lambda>a m d r. mixer_inv m \<longrightarrow> mixer_inv (fst r)", OF _ assms(1)])
    fix rec a m d r
    assume IH: "\<And>a m d r. rec a m d = Some r \<Longrightarrow> mixer_inv m \<longrightarrow> mixer_inv (fst r)"
      and step: "(case IsReadyForData a d of (ready, d) \<Rightarrow>
        if ready then case ProcessAudio a m d of (m, d) \<Rightarrow> rec a m d else Some (m, d)) = Some r"
    obtain m' d' where "ProcessAudio a m (snd (IsReadyForData a d)) = (m', d')" by fastforce
    with step show "mixer_inv m \<longrightarrow> mixer_inv (fst r)"
      using IH [of a m' d' r] ProcessAudio_inv [of m a "snd (IsReadyForData a d)" m' d']
      by (auto split: prod.splits if_splits)
  qed
  with assms(2) show ?thesis by simp
qed

lemma claim_slot_inv [inv_intros]:
  assumes "mixer_inv m" "kmalloc m \<notin> dom (bufs m)" "claim_slot kmalloc data loop m = Some m'"
    and "even (length data)" "data \<noteq> []" "length data < 2 ^ 32"
  shows "mixer_inv m'"
proof (cases "find (\<lambda>i. \<not> active (streams m ! i)) [0..<8]")
  case None
  with assms show ?thesis by (simp add: claim_slot_def)
next
  case (Some i)
  then have i: "i < 8" "\<not> active (streams m ! i)" by (auto simp: find_Some_iff)
  let ?x = "kmalloc m"
  define st where "st = \<lparr>st_data = ?x, st_length = of_nat (length data), position = 0, active = True, looping = loop, ownsData = True\<rparr>"
  have x: "?x \<noteq> 0" and m': "m' = m\<lparr>bufs := (bufs m)(?x \<mapsto> data), streams := (streams m)[i := st]\<rparr>"
    using assms(3) Some by (auto simp: claim_slot_def Let_def st_def split: if_splits)
  have "held_ok ((held m)(i := ?x)) (insert ?x (dom (bufs m)))"
    using assms i by (intro held_ok_fresh) (auto simp: mixer_inv_def)
  moreover have "held m' j = ((held m)(i := ?x)) j" if "j < 16" for j
    using assms(1) i by (auto simp: m' held_def mixer_inv_def nth_list_update st_def)
  ultimately have "held_ok (held m') (dom (bufs m'))" by (auto simp: m' elim: held_cong)
  moreover have "stream_ok (bufs m') st"
    using assms x by (auto simp: m' st_def stream_ok_def stream_wf_def)
  moreover have "stream_ok (bufs m') (streams m ! j)" if "j < 8" for j
  proof -
    have "stream_ok (bufs m) (streams m ! j)" using assms(1) that by (simp add: mixer_inv_def)
    with assms(2) show ?thesis by (auto simp: m' stream_ok_def split: if_splits)
  qed
  ultimately have "stream_ok (bufs m') ((streams m)[i := st] ! j)" if "j < 8" for j
    using that assms(1) by (cases "j = i") (auto simp: mixer_inv_def)
  with \<open>held_ok (held m') (dom (bufs m'))\<close> show ?thesis
    using assms(1) by (simp add: mixer_inv_def m')
qed

lemma PlayBuffer_inv [inv_intros]:
  assumes "mixer_inv m" "kmalloc m \<notin> dom (bufs m)" "length data < 2 ^ 32" "PlayBuffer a kmalloc data loop m d = Some r"
  shows "mixer_inv (fst r)"
  using assms claim_slot_inv [where kmalloc = kmalloc, OF assms(1,2) _ _ _ assms(3), of loop]
  by (auto simp: PlayBuffer_def split: if_splits option.splits dest: fill_device_inv)

lemma free_pending_inv [inv_intros]:
  assumes "mixer_inv m" "set is \<subseteq> {..<8}"
  shows "mixer_inv (free_pending is m)"
  using assms
proof (induction "is" arbitrary: m)
  case (Cons i "is")
  let ?m = "m\<lparr>bufs := (bufs m)(pendingFreeBuffers m ! i := None), pendingFreeBuffers := (pendingFreeBuffers m)[i := 0],
    pendingFreeLengths := (pendingFreeLengths m)[i := 0]\<rparr>"
  have "mixer_inv ?m" if nz: "pendingFreeBuffers m ! i \<noteq> 0"
  proof -
    have i: "i < 8" "held m (8 + i) = pendingFreeBuffers m ! i" using Cons.prems by (auto simp: held_def)
    have ok: "held_ok (held m) (dom (bufs m))" using Cons.prems by (simp add: mixer_inv_def)
    have "held_ok ((held m)(8 + i := 0)) (dom (bufs m) - {pendingFreeBuffers m ! i})"
      using held_ok_release [OF ok, of "8 + i"] i nz by simp
    moreover have "held ?m j = ((held m)(8 + i := 0)) j" if "j < 16" for j
      using Cons.prems that by (auto simp: held_def mixer_inv_def nth_list_update)
    ultimately have "held_ok (held ?m) (dom (bufs ?m))" by (auto elim: held_cong)
    moreover have "st_data (streams m ! j) \<noteq> pendingFreeBuffers m ! i" if "j < 8" for j
    proof
      assume "st_data (streams m ! j) = pendingFreeBuffers m ! i"
      then have "held m j = held m (8 + i)" using i that by (simp add: held_def)
      moreover have "j < 16" "8 + i < 16" "j \<noteq> 8 + i" using i that by auto
      ultimately show False using ok i nz unfolding held_ok_def by metis
    qed
    ultimately show ?thesis using Cons.prems(1) by (auto simp: mixer_inv_def stream_ok_def)
  qed
  with Cons show ?case by simp
qed simp

lemma Update_inv [inv_intros]:
  assumes "mixer_inv m" "Update a m d = Some r"
  shows "mixer_inv (fst r)"
proof -
  have "set [0..<8] \<subseteq> {..<8::nat}" by auto
  from free_pending_inv [OF assms(1) this] assms show ?thesis
    by (auto simp: Update_def split: if_splits dest: fill_device_inv)
qed

lemma AudioMixer_inv [inv_intros]: "mixer_inv (AudioMixer drv got d)"
proof -
  have "held (AudioMixer drv got d) i = 0" if "i < 16" for i
    using that by (auto simp: held_def AudioMixer_def Let_def empty_stream_def split: option.split)
  then show ?thesis
    by (auto simp: mixer_inv_def held_ok_def AudioMixer_def Let_def stream_ok_def empty_stream_def split: option.split)
qed

subsection \<open>Properties\<close>

text \<open>The mixer driven by its callers while the device moves on by itself.\<close>

inductive mixer_reachable :: "'d audio_driver \<Rightarrow> (mixer \<Rightarrow> u32) \<Rightarrow> mixer \<Rightarrow> 'd \<Rightarrow> bool" for a kmalloc where
  boot: "drv = None \<or> drv = Some a \<Longrightarrow> mixer_reachable a kmalloc (AudioMixer drv got d) d"
| play: "mixer_reachable a kmalloc m d \<Longrightarrow> length data < 2 ^ 32 \<Longrightarrow>
    PlayBuffer a kmalloc data loop m d = Some (m', d') \<Longrightarrow> mixer_reachable a kmalloc m' d'"
| update: "mixer_reachable a kmalloc m d \<Longrightarrow> Update a m d = Some (m', d') \<Longrightarrow> mixer_reachable a kmalloc m' d'"
| rate: "mixer_reachable a kmalloc m d \<Longrightarrow> mixer_reachable a kmalloc m (SetOutputSampleRate a r m d)"
| device: "mixer_reachable a kmalloc m d \<Longrightarrow> mixer_reachable a kmalloc m d'"

text \<open>\<open>kmalloc\<close> returns the null pointer or memory that nobody uses.\<close>

definition fresh_kmalloc :: "(mixer \<Rightarrow> u32) \<Rightarrow> bool" where
  "fresh_kmalloc kmalloc \<longleftrightarrow> (\<forall>m. kmalloc m \<noteq> null_ptr \<longrightarrow> kmalloc m \<notin> dom (bufs m))"

lemma PlayBuffer_inv_null:
  assumes "mixer_inv m" "kmalloc m = null_ptr" "PlayBuffer a kmalloc data loop m d = Some r"
  shows "mixer_inv (fst r)"
  using assms by (auto simp: PlayBuffer_def claim_slot_def Let_def split: if_splits option.splits dest: fill_device_inv)

text \<open>A device that eventually has enough data ends the loop.\<close>

lemma ProcessAudio_keeps:
  assumes "mixer_inv m" "ProcessAudio a m d = (m', d')"
  shows "driver m' = driver m" "mixBuffer m' = None \<longleftrightarrow> mixBuffer m = None"
  using assms mix_streams_inv [OF assms(1), of "[0..<8]" "unat (bufferSize m div 2)" "replicate (unat (bufferSize m div 2)) 0"]
  by (auto simp: ProcessAudio_def Let_def subset_eq split: option.splits if_splits prod.splits)

lemma ProcessAudio_writes:
  assumes "driver m" "mixBuffer m \<noteq> None" "ProcessAudio a m d = (m', d')"
  shows "\<exists>out n. d' = WriteData a out n d"
  using assms by (auto simp: ProcessAudio_def Let_def split: option.splits prod.splits)

lemma fill_device_returns:
  fixes \<mu> :: "'d \<Rightarrow> nat"
  assumes dev: "\<And>d d' out n. IsReadyForData a d = (True, d') \<Longrightarrow> \<mu> (WriteData a out n d') < \<mu> d"
    and m: "mixer_inv m" "driver m" "mixBuffer m \<noteq> None"
  shows "\<exists>r. fill_device a m d = Some r"
  using m
proof (induction "\<mu> d" arbitrary: m d rule: less_induct)
  case less
  obtain r d1 where rdy: "IsReadyForData a d = (r, d1)" by fastforce
  obtain m' d' where pa: "ProcessAudio a m d1 = (m', d')" by fastforce
  show ?case
  proof (cases r)
    case True
    then have "\<mu> d' < \<mu> d" using ProcessAudio_writes [OF less.prems(2,3) pa] dev rdy by auto
    then have "\<exists>x. fill_device a m' d' = Some x"
      using less.prems ProcessAudio_keeps [OF less.prems(1) pa] ProcessAudio_inv [OF less.prems(1) pa]
      by (intro less.hyps) auto
    with True rdy pa show ?thesis by (subst fill_device.simps) simp
  qed (simp add: fill_device.simps rdy)
qed

lemma Update_returns:
  fixes \<mu> :: "'d \<Rightarrow> nat"
  assumes "\<And>d d' out n. IsReadyForData a d = (True, d') \<Longrightarrow> \<mu> (WriteData a out n d') < \<mu> d" "mixer_inv m"
  shows "\<exists>r. Update a m d = Some r"
proof -
  have "driver (free_pending is m) = driver m \<and> mixBuffer (free_pending is m) = mixBuffer m" for "is"
    by (induction "is" m rule: free_pending.induct) auto
  moreover have "mixer_inv (free_pending [0..<8] m)" using assms(2) by (intro free_pending_inv) auto
  ultimately show ?thesis using fill_device_returns [where \<mu> = \<mu> and a = a, OF assms(1)] by (simp add: Update_def)
qed

text \<open>
  Property C24. A frame is the saturated sum of the active streams: \<^verbatim>\<open>ProcessAudio\<close> writes to the
  device, for every output sample, the left-to-right 16-bit saturating sum of the sample that each
  active stream has there (a looping stream repeats its data, another one is silent after its
  end), and the buffers stay properly owned.
\<close>

theorem ProcessAudio_mixes:
  assumes "mixer_inv m" "driver m" "mixBuffer m \<noteq> None"
  shows "\<exists>m'. mixer_inv m' \<and> ProcessAudio a m d =
    (m', WriteData a (map (\<lambda>j. mixed_sample m [0..<8] j 0) [0..<unat (bufferSize m div 2)]) (bufferSize m) d)"
proof -
  let ?n = "unat (bufferSize m div 2)"
  obtain m1 out where ms: "mix_streams ?n [0..<8] m (replicate ?n 0) = (m1, out)" by fastforce
  have "bufferSize m1 = bufferSize m"
    using mix_streams_inv [OF assms(1), of "[0..<8]" ?n "replicate ?n 0"] ms by (simp add: subset_eq)
  then have pa: "ProcessAudio a m d = (m1\<lparr>mixBuffer := Some out\<rparr>, WriteData a out (bufferSize m) d)"
    using assms ms by (auto simp: ProcessAudio_def Let_def)
  have len: "length out = ?n" using length_mix_streams [of ?n "[0..<8]" m "replicate ?n 0"] ms by simp
  have "out ! k = mixed_sample m [0..<8] k 0" if "k < ?n" for k
    using mix_streams_spec [of "[0..<8]" m "replicate ?n 0" ?n k] ms that assms(1)
    by (auto simp: mixer_inv_def stream_ok_def)
  with len have "out = map (\<lambda>j. mixed_sample m [0..<8] j 0) [0..<?n]" by (intro nth_equalityI) auto
  with pa ProcessAudio_inv [OF assms(1) pa] show ?thesis by auto
qed

text \<open>A device with room for \<open>d\<close> frames, and a mixer that plays two loud streams, one of them ending.\<close>

definition counter_device :: "nat audio_driver" where
  "counter_device = \<lparr>GetBufferSize = (\<lambda>_. 4), SetSampleRate = (\<lambda>_ d. d), IsPlaying = (\<lambda>_. True),
     IsReadyForData = (\<lambda>d. (0 < d, d)), Start = id, WriteData = (\<lambda>out _ d. d - 1)\<rparr>"

definition sample_stream :: "u32 \<Rightarrow> u32 \<Rightarrow> bool \<Rightarrow> audio_stream" where
  "sample_stream p n l = \<lparr>st_data = p, st_length = n, position = 0, active = True, looping = l, ownsData = True\<rparr>"

definition sample_mixer :: mixer where
  "sample_mixer = \<lparr>driver = True,
     streams = [sample_stream 0x1000 2 True, sample_stream 0x2000 2 False] @ replicate 6 empty_stream,
     mixBuffer = Some [0, 0], bufferSize = 4, pendingFreeBuffers = replicate 8 0, pendingFreeLengths = replicate 8 0,
     bufs = [0x1000 \<mapsto> [0xFF, 0x7F], 0x2000 \<mapsto> [5, 0]]\<rparr>"

lemma sample_mixer_inv: "mixer_inv sample_mixer"
proof -
  have "held sample_mixer i = (if i = 0 then 0x1000 else if i = 1 then 0x2000 else 0)" if "i < 16" for i
    using that by (auto simp: held_def sample_mixer_def sample_stream_def empty_stream_def nth_append nth_Cons split: nat.split)
  moreover have "stream_ok (bufs sample_mixer) (streams sample_mixer ! i)" if "i < 8" for i
    using that by (auto simp: sample_mixer_def sample_stream_def empty_stream_def nth_append nth_Cons stream_ok_def stream_wf_def split: nat.split)
  ultimately show ?thesis
    by (auto simp: mixer_inv_def held_ok_def) (auto simp: sample_mixer_def)
qed

theorem ProcessAudio_mixes_witness:
  "\<exists>m'. mixer_inv m' \<and> ProcessAudio counter_device sample_mixer 3 =
    (m', WriteData counter_device (map (\<lambda>j. mixed_sample sample_mixer [0..<8] j 0) [0..<unat (bufferSize sample_mixer div 2)]) 4 3)"
  using ProcessAudio_mixes [of sample_mixer counter_device 3] sample_mixer_inv by (simp add: sample_mixer_def)

lemma sample_mixer_frame: "map (\<lambda>j. mixed_sample sample_mixer [0..<8] j 0) [0..<2] = [32767, 32767]"
  by code_simp

text \<open>
  Property C40. Every mixer that the constructor, \<^verbatim>\<open>PlayBuffer\<close>, \<^verbatim>\<open>Update\<close> and
  \<^verbatim>\<open>SetOutputSampleRate\<close> can reach owns its buffers soundly, however the device behaves: an active
  stream has a live buffer of its recorded, even, positive length and a read position inside it, no
  buffer is held by two streams or by a stream and the deferred releases, and none is released
  twice.
\<close>

theorem mixer_invariant:
  assumes "fresh_kmalloc kmalloc" "mixer_reachable a kmalloc m d"
  shows "mixer_inv m"
  using assms(2)
proof induction
  case (play m d data loop m' d')
  show ?case
  proof (cases "kmalloc m = null_ptr")
    case True
    from PlayBuffer_inv_null [OF play.IH True play.hyps(3)] show ?thesis by simp
  next
    case False
    then have "kmalloc m \<notin> dom (bufs m)" using assms(1) by (simp add: fresh_kmalloc_def)
    from PlayBuffer_inv [of m kmalloc, OF play.IH this play.hyps(2,3)] show ?thesis by simp
  qed
qed (auto intro: AudioMixer_inv dest: Update_inv)

definition one_block :: "mixer \<Rightarrow> u32" where
  "one_block m = (if bufs m 0x1000 = None then 0x1000 else null_ptr)"

definition played :: mixer where
  "played = fst (the (PlayBuffer counter_device one_block [1, 2] False (AudioMixer (Some counter_device) True 0) 0))"

lemma played_step:
  "PlayBuffer counter_device one_block [1, 2] False (AudioMixer (Some counter_device) True 0) 0 = Some (played, 0)"
  "active (streams played ! 0)"
  by (simp_all add: played_def PlayBuffer_def AudioMixer_def Let_def counter_device_def claim_slot_def one_block_def
    empty_stream_def upt_conv_Cons)

theorem mixer_invariant_witness: "mixer_inv played \<and> active (streams played ! 0)"
proof -
  have "fresh_kmalloc one_block" by (auto simp: fresh_kmalloc_def one_block_def)
  moreover have "mixer_reachable counter_device one_block played 0"
    by (rule play [OF boot [of "Some counter_device"] _ played_step(1)]) simp_all
  ultimately have "mixer_inv played" by (rule mixer_invariant)
  with played_step(2) show ?thesis by simp
qed

text \<open>
  The deferred release has one place per stream: a slot that finishes twice between two calls of
  \<^verbatim>\<open>Update\<close> forgets its first buffer, which stays allocated and is held nowhere.
\<close>

lemma second_finish_forgets:
  assumes "mixer_inv m" "s < 8" "pendingFreeBuffers m ! s \<noteq> null_ptr" "active (streams m ! s)"
    and "mix_stream (the (bufs m (st_data (streams m ! s)))) n 0 (streams m ! s) out = (st, out')" "\<not> active st"
  defines "m' \<equiv> fst (mix_streams n [s] m out)"
  shows "pendingFreeBuffers m ! s \<in> dom (bufs m') \<and> (\<forall>i<16. held m' i \<noteq> pendingFreeBuffers m ! s)"
proof -
  let ?p = "pendingFreeBuffers m ! s"
  have ok: "stream_ok (bufs m) (streams m ! s)" using assms by (simp add: mixer_inv_def)
  then have "stream_wf (streams m ! s)" using assms(4) by (simp add: stream_ok_def)
  from mix_stream_stream [OF this assms(5)] obtain q b where st: "st = (streams m ! s)\<lparr>position := q, active := b\<rparr>" by blast
  have h: "held_ok (held m) (dom (bufs m))" "held m (8 + s) = ?p" "held m s = st_data (streams m ! s)"
    using assms by (auto simp: mixer_inv_def held_def)
  have m': "m' = m\<lparr>pendingFreeBuffers := (pendingFreeBuffers m)[s := st_data (streams m ! s)],
      pendingFreeLengths := (pendingFreeLengths m)[s := st_length (streams m ! s)],
      streams := (streams m)[s := st\<lparr>st_data := null_ptr, st_length := 0, position := 0, ownsData := False\<rparr>]\<rparr>"
    using assms ok by (simp add: m'_def stream_ok_def st Let_def)
  have "held m' i = ((held m)(s := 0, 8 + s := held m s)) i" if "i < 16" for i
    using assms(1,2) that by (auto simp: m' held_def mixer_inv_def nth_list_update)
  moreover have "held m i \<noteq> ?p" if "i < 16" "i \<noteq> 8 + s" for i
    using h assms(2,3) that unfolding held_ok_def by (metis add_less_cancel_left numeral_Bit0)
  moreover have "?p \<in> dom (bufs m)"
    using h(1) [unfolded held_ok_def, rule_format, of "8 + s"] h(2) assms(2,3) by simp
  moreover have "held m s \<noteq> ?p" using calculation(2) [of s] assms(2) by simp
  ultimately show ?thesis using assms(3) by (auto simp: m')
qed

end
