(* ===== verification/Ata_Driver.thy ===== *)
theory Ata_Driver
  imports Fat_Volume
begin

text \<open>
  The ATA disk driver, \<^verbatim>\<open>core/drivers/ata.cpp\<close>, at the level of its I/O ports. The ports are a
  parameter, the instructions \<^verbatim>\<open>inb\<close>, \<^verbatim>\<open>outb\<close>, \<^verbatim>\<open>inw\<close> and \<^verbatim>\<open>outw\<close> on a machine state \<open>'d\<close>. The locale
  \<open>ata_device\<close> states what the documented PIO protocol of an ATA disk says about them, and under
  it the driver implements the sector store that \<open>Fat_Volume\<close> reads and writes.
\<close>

subsection \<open>Ports\<close>

record 'd ports =
  inb :: "u16 \<Rightarrow> 'd \<Rightarrow> u8 \<times> 'd"
  outb :: "u16 \<Rightarrow> u8 \<Rightarrow> 'd \<Rightarrow> 'd"
  inw :: "u16 \<Rightarrow> 'd \<Rightarrow> u16 \<times> 'd"
  outw :: "u16 \<Rightarrow> u16 \<Rightarrow> 'd \<Rightarrow> 'd"

text \<open>\<^verbatim>\<open>rep insw\<close> and \<^verbatim>\<open>rep outsw\<close>: words in memory are little endian.\<close>

fun insw :: "'d ports \<Rightarrow> u16 \<Rightarrow> nat \<Rightarrow> 'd \<Rightarrow> u8 list \<times> 'd" where
  "insw io p 0 d = ([], d)"
| "insw io p (Suc n) d =
     (case inw io p d of (w, d) \<Rightarrow> case insw io p n d of (bs, d) \<Rightarrow> (ucast w # ucast (drop_bit 8 w) # bs, d))"

fun outsw :: "'d ports \<Rightarrow> u16 \<Rightarrow> nat \<Rightarrow> u8 list \<Rightarrow> 'd \<Rightarrow> 'd" where
  "outsw io p 0 bs d = d"
| "outsw io p (Suc n) bs d = outsw io p n (drop 2 bs) (outw io p (push_bit 8 (ucast (bs ! 1)) OR ucast (bs ! 0)) d)"

subsection \<open>The driver object\<close>

record ata_drive =
  portBase :: u16
  master :: bool
  ata_size :: u32
  identify_general_config :: u16
  isAtapi :: bool
  isRemovable :: bool

text \<open>\<^verbatim>\<open>ata_size\<close> is not initialised by the constructor: \<open>junk\<close> is what the memory held.\<close>

definition AdvancedTechnologyAttachment :: "u32 \<Rightarrow> bool \<Rightarrow> u16 \<Rightarrow> ata_drive" where
  "AdvancedTechnologyAttachment junk mst base = \<lparr>portBase = base, master = mst, ata_size = junk,
     identify_general_config = 0, isAtapi = False, isRemovable = False\<rparr>"

definition GetSizeInSectors :: "ata_drive \<Rightarrow> u32" where
  "GetSizeInSectors a = ata_size a"

abbreviation (input) "dataPort a \<equiv> portBase a"
abbreviation (input) "errorPort a \<equiv> portBase a + 0x1"
abbreviation (input) "sectorCountPort a \<equiv> portBase a + 0x2"
abbreviation (input) "lbaLowPort a \<equiv> portBase a + 0x3"
abbreviation (input) "lbaMidPort a \<equiv> portBase a + 0x4"
abbreviation (input) "lbaHiPort a \<equiv> portBase a + 0x5"
abbreviation (input) "devicePort a \<equiv> portBase a + 0x6"
abbreviation (input) "commandPort a \<equiv> portBase a + 0x7"
abbreviation (input) "controlPort a \<equiv> portBase a + 0x206"

abbreviation (input) "BSY st \<equiv> (st :: u8) AND 0x80 = 0x80"
abbreviation (input) "DRDY st \<equiv> (st :: u8) AND 0x40 = 0x40"
abbreviation (input) "DF st \<equiv> (st :: u8) AND 0x20 = 0x20"
abbreviation (input) "DRQ st \<equiv> (st :: u8) AND 0x08 = 0x08"
abbreviation (input) "ERR st \<equiv> (st :: u8) AND 0x01 = 0x01"

text \<open>
  Every polling loop of the driver: while the status is \<open>busy\<close>, give up when it has \<open>failed\<close> or after
  \<open>n\<close> more reads. A counter tested by \<^verbatim>\<open>wait++ > N\<close> allows \<open>N + 1\<close> reads.
\<close>

function wait_while :: "'d ports \<Rightarrow> u16 \<Rightarrow> (u8 \<Rightarrow> bool) \<Rightarrow> (u8 \<Rightarrow> bool) \<Rightarrow> nat \<Rightarrow> u8 \<Rightarrow> 'd \<Rightarrow> u8 option \<times> 'd" where
  "wait_while io p busy failed n status d =
     (if \<not> busy status then (Some status, d)
      else if failed status \<or> n = 0 then (None, d)
      else case inb io p d of (status, d) \<Rightarrow> wait_while io p busy failed (n - 1) status d)"
  by pat_completeness auto
termination by (relation "measure (\<lambda>(_, _, _, _, n, _). n)") auto

declare wait_while.simps [simp del]

abbreviation PIO_POLLS :: nat where "PIO_POLLS \<equiv> 1000001"
abbreviation FLUSH_POLLS :: nat where "FLUSH_POLLS \<equiv> 4000001"

definition ata_wait_drq :: "'d ports \<Rightarrow> u16 \<Rightarrow> 'd \<Rightarrow> bool \<times> 'd" where
  "ata_wait_drq io p d =
     (case inb io p d of (status, d) \<Rightarrow>
      case wait_while io p (\<lambda>st. BSY st) (\<lambda>_. False) PIO_POLLS status d of
        (None, d) \<Rightarrow> (False, d)
      | (Some status, d) \<Rightarrow>
          (case wait_while io p (\<lambda>st. \<not> DRQ st) (\<lambda>st. ERR st \<or> DF st) PIO_POLLS status d of
             (None, d) \<Rightarrow> (False, d)
           | (Some _, d) \<Rightarrow> (True, d)))"

definition ata_wait_ready :: "'d ports \<Rightarrow> u16 \<Rightarrow> 'd \<Rightarrow> bool \<times> 'd" where
  "ata_wait_ready io p d =
     (case inb io p d of (status, d) \<Rightarrow>
      case wait_while io p (\<lambda>st. BSY st \<or> DRQ st) (\<lambda>st. ERR st) PIO_POLLS status d of
        (None, d) \<Rightarrow> (False, d)
      | (Some status, d) \<Rightarrow> (\<not> ERR status \<and> \<not> DF status, d))"

text \<open>The register writes that address one sector.\<close>

definition select_sector :: "'d ports \<Rightarrow> ata_drive \<Rightarrow> u32 \<Rightarrow> 'd \<Rightarrow> 'd" where
  "select_sector io a sectorNum d =
     (let d = outb io (devicePort a) ((if master a then 0xE0 else 0xF0) OR ucast (drop_bit 24 (sectorNum AND 0x0F000000))) d;
          d = outb io (errorPort a) 0 d;
          d = outb io (sectorCountPort a) 1 d;
          d = outb io (lbaLowPort a) (ucast (sectorNum AND 0x000000FF)) d;
          d = outb io (lbaMidPort a) (ucast (drop_bit 8 (sectorNum AND 0x0000FF00))) d in
      outb io (lbaHiPort a) (ucast (drop_bit 16 (sectorNum AND 0x00FF0000))) d)"

definition Flush :: "'d ports \<Rightarrow> ata_drive \<Rightarrow> 'd \<Rightarrow> bool \<times> 'd" where
  "Flush io a d =
     (let d = outb io (devicePort a) (if master a then 0xE0 else 0xF0) d;
          d = outb io (commandPort a) 0xE7 d in
      case inb io (commandPort a) d of (status, d) \<Rightarrow>
        if status = 0 then (False, d)
        else case wait_while io (commandPort a) (\<lambda>st. BSY st) (\<lambda>st. ERR st) FLUSH_POLLS status d of
          (None, d) \<Rightarrow> (False, d)
        | (Some status, d) \<Rightarrow>
            if ERR status then (False, d)
            else if DF status then (False, d)
            else if DRQ status then (False, d)
            else if \<not> DRDY status then (False, d)
            else (True, d))"

text \<open>
  \<^verbatim>\<open>Read28\<close>: the caller's buffer is \<open>None\<close> for the null pointer; \<^verbatim>\<open>count\<close> is a C \<^verbatim>\<open>int\<close>.
  The status that the polling loops start from is the first of the four reads.
\<close>

definition Read28 :: "'d ports \<Rightarrow> ata_drive \<Rightarrow> u32 \<Rightarrow> u8 list option \<Rightarrow> int \<Rightarrow> 'd \<Rightarrow> u8 list option \<times> 'd" where
  "Read28 io a sectorNum data count d =
     (if 0x0FFFFFFF < sectorNum then (data, d)
      else case data of None \<Rightarrow> (data, d)
      | Some buf \<Rightarrow>
      if count \<le> 0 then (data, d)
      else
        let d = outb io (commandPort a) 0x20 (select_sector io a sectorNum d) in
        case inb io (commandPort a) d of (status, d) \<Rightarrow>
        let d = snd (inb io (commandPort a) d);
            d = snd (inb io (commandPort a) d);
            d = snd (inb io (commandPort a) d) in
        case wait_while io (commandPort a) (\<lambda>st. BSY st) (\<lambda>_. False) PIO_POLLS status d of
          (None, d) \<Rightarrow> (data, d)
        | (Some status, d) \<Rightarrow>
            if ERR status then (data, d)
            else case wait_while io (commandPort a) (\<lambda>st. \<not> DRQ st) (\<lambda>st. ERR st \<or> DF st) PIO_POLLS status d of
              (None, d) \<Rightarrow> (data, d)
            | (Some _, d) \<Rightarrow>
                (case insw io (dataPort a) 256 d of (sectorBuffer, d) \<Rightarrow>
                   if count = 512 then (Some (sectorBuffer @ drop 512 buf), d)
                   else
                     let safeCount = nat (if count > 512 then 512 else count) in
                     (Some (take safeCount sectorBuffer @ drop safeCount buf), d)))"

definition Write28 :: "'d ports \<Rightarrow> ata_drive \<Rightarrow> u32 \<Rightarrow> u8 list option \<Rightarrow> u32 \<Rightarrow> 'd \<Rightarrow> bool \<times> 'd" where
  "Write28 io a sectorNum data count d =
     (if 0x0FFFFFFF < sectorNum then (False, d)
      else case data of None \<Rightarrow> (False, d)
      | Some buf \<Rightarrow>
      if count = 0 then (False, d)
      else
        let count = (if count > 512 then 512 else count);
            d = select_sector io a sectorNum d in
        case (if count = 512 then
                let d = outb io (commandPort a) 0x30 d in
                case ata_wait_drq io (commandPort a) d of
                  (False, d) \<Rightarrow> (False, d)
                | (True, d) \<Rightarrow> (True, outsw io (dataPort a) 256 buf d)
              else
                let d = outb io (commandPort a) 0x20 d in
                case ata_wait_drq io (commandPort a) d of
                  (False, d) \<Rightarrow> (False, d)
                | (True, d) \<Rightarrow>
                    (case insw io (dataPort a) 256 d of (sectorBuffer, d) \<Rightarrow>
                     let sectorBuffer = take (unat count) buf @ drop (unat count) sectorBuffer in
                     case ata_wait_ready io (commandPort a) d of
                       (False, d) \<Rightarrow> (False, d)
                     | (True, d) \<Rightarrow>
                         let d = outb io (commandPort a) 0x30 (select_sector io a sectorNum d) in
                         case ata_wait_drq io (commandPort a) d of
                           (False, d) \<Rightarrow> (False, d)
                         | (True, d) \<Rightarrow> (True, outsw io (dataPort a) 256 sectorBuffer d))) of
          (False, d) \<Rightarrow> (False, d)
        | (True, d) \<Rightarrow>
            (case ata_wait_ready io (commandPort a) d of
               (False, d) \<Rightarrow> (False, d)
             | (True, d) \<Rightarrow> Flush io a d))"

subsection \<open>Identification\<close>

text \<open>The identification words from word \<open>i\<close> on; \<open>None\<close> when a word does not arrive.\<close>

function identify_words :: "'d ports \<Rightarrow> nat \<Rightarrow> u32 \<Rightarrow> ata_drive \<Rightarrow> 'd \<Rightarrow> u32 option \<times> ata_drive \<times> 'd" where
  "identify_words io i totalSectors a d =
     (if 256 \<le> i then (Some totalSectors, a, d)
      else case inb io (commandPort a) d of (status, d) \<Rightarrow>
        case wait_while io (commandPort a) (\<lambda>st. \<not> DRQ st) (\<lambda>st. ERR st \<or> DF st) PIO_POLLS status d of
          (None, d) \<Rightarrow> (None, a, d)
        | (Some _, d) \<Rightarrow>
            (case inw io (dataPort a) d of (data, d) \<Rightarrow>
               identify_words io (i + 1)
                 (if i = 60 then ucast data else if i = 61 then totalSectors OR push_bit 16 (ucast data) else totalSectors)
                 (if i = 0 then a\<lparr>identify_general_config := data, isAtapi := data AND 0x8000 \<noteq> 0, isRemovable := data AND 0x0080 \<noteq> 0\<rparr> else a)
                 d))"
  by pat_completeness auto
termination by (relation "measure (\<lambda>(_, i, _). 256 - i)") auto

declare identify_words.simps [simp del]

definition Identify :: "'d ports \<Rightarrow> ata_drive \<Rightarrow> 'd \<Rightarrow> u32 \<times> ata_drive \<times> 'd" where
  "Identify io a d =
     (let d = outb io (devicePort a) (if master a then 0xA0 else 0xB0) d;
          d = outb io (controlPort a) 0 d;
          d = outb io (devicePort a) (if master a then 0xA0 else 0xB0) d in
      case inb io (commandPort a) d of (status, d) \<Rightarrow>
      if status = 0xFF then (0, a, d)
      else
        let d = snd (inb io (commandPort a) d); d = snd (inb io (commandPort a) d);
            d = snd (inb io (commandPort a) d); d = snd (inb io (commandPort a) d) in
        case inb io (lbaMidPort a) d of (sigLbaMid, d) \<Rightarrow>
        case inb io (lbaHiPort a) d of (sigLbaHigh, d) \<Rightarrow>
        let packetDevice = (sigLbaMid = 0x14 \<and> sigLbaHigh = 0xEB);
            d = outb io (devicePort a) (if master a then 0xA0 else 0xB0) d;
            d = outb io (sectorCountPort a) 0 d;
            d = outb io (lbaLowPort a) 0 d;
            d = outb io (lbaMidPort a) 0 d;
            d = outb io (lbaHiPort a) 0 d;
            d = outb io (commandPort a) (if packetDevice then 0xA1 else 0xEC) d in
        case inb io (commandPort a) d of (status, d) \<Rightarrow>
        if status = 0 then (0, a, d)
        else case wait_while io (commandPort a) (\<lambda>st. BSY st \<and> \<not> ERR st) (\<lambda>_. False) PIO_POLLS status d of
          (None, d) \<Rightarrow> (0, a, d)
        | (Some status, d) \<Rightarrow>
            if ERR status then (0, a, d)
            else case identify_words io 0 0 a d of
              (None, a, d) \<Rightarrow> (0, a, d)
            | (Some totalSectors, a, d) \<Rightarrow> (totalSectors, a\<lparr>ata_size := totalSectors\<rparr>, d))"

subsection \<open>The PIO protocol of an ATA disk\<close>

text \<open>
  What a disk answers on the ports, from the ATA/ATAPI PIO protocol: the task-file registers, the
  transfer in progress, and how many status reads still see BSY. How long a command takes is
  arbitrary: \<open>h_delay\<close> gives it for each command and each completed transfer.
\<close>

datatype phase = Idle | DataIn "u8 list" | DataOut "u8 list" | Failed

record hw =
  h_disk :: ata
  h_slave :: bool
  h_ident :: "u8 list"
  h_dev :: u8
  h_lo :: u8
  h_mid :: u8
  h_hi :: u8
  h_phase :: phase
  h_busy :: nat
  h_delay :: "nat \<Rightarrow> nat"
  h_count :: nat

definition hw_lba :: "hw \<Rightarrow> u32" where
  "hw_lba h = push_bit 24 (ucast (h_dev h AND 0x0F)) OR push_bit 16 (ucast (h_hi h)) OR push_bit 8 (ucast (h_mid h)) OR ucast (h_lo h)"

fun hw_status :: "phase \<Rightarrow> u8" where
  "hw_status Idle = 0x50"
| "hw_status (DataIn _) = 0x58"
| "hw_status (DataOut _) = 0x58"
| "hw_status Failed = 0x51"

definition hw_start :: "phase \<Rightarrow> hw \<Rightarrow> hw" where
  "hw_start ph h = h\<lparr>h_phase := ph, h_busy := h_delay h (h_count h), h_count := h_count h + 1\<rparr>"

definition hw_command :: "u8 \<Rightarrow> hw \<Rightarrow> phase" where
  "hw_command c h =
     (if c = 0x20 then (if ata_rd_err (h_disk h) (hw_lba h) then Failed else DataIn (ata_sectors (h_disk h) (hw_lba h)))
      else if c = 0x30 then DataOut []
      else if c = 0xE7 then (if ata_flush_err (h_disk h) then Failed else Idle)
      else if c = 0xEC then DataIn (h_ident h)
      else Failed)"

definition hw_outb :: "u16 \<Rightarrow> u16 \<Rightarrow> u8 \<Rightarrow> hw \<Rightarrow> hw" where
  "hw_outb base p b h =
     (if 0 < h_busy h then h
      else if p = base + 3 then h\<lparr>h_lo := b\<rparr>
      else if p = base + 4 then h\<lparr>h_mid := b\<rparr>
      else if p = base + 5 then h\<lparr>h_hi := b\<rparr>
      else if p = base + 6 then h\<lparr>h_dev := b\<rparr>
      else if p = base + 7 \<and> bit (h_dev h) 4 = h_slave h then hw_start (hw_command b h) h
      else h)"

definition hw_inb :: "u16 \<Rightarrow> u16 \<Rightarrow> hw \<Rightarrow> u8 \<times> hw" where
  "hw_inb base p h =
     (if p = base + 7 then (if 0 < h_busy h then (0x80, h\<lparr>h_busy := h_busy h - 1\<rparr>) else (hw_status (h_phase h), h))
      else (if p = base + 4 then h_mid h else if p = base + 5 then h_hi h else 0, h))"

definition hw_inw :: "u16 \<Rightarrow> u16 \<Rightarrow> hw \<Rightarrow> u16 \<times> hw" where
  "hw_inw base p h =
     (case h_phase h of
        DataIn (b0 # b1 # bs) \<Rightarrow>
          if p = base \<and> h_busy h = 0 then (push_bit 8 (ucast b1) OR ucast b0, h\<lparr>h_phase := if bs = [] then Idle else DataIn bs\<rparr>)
          else (0, h)
      | _ \<Rightarrow> (0, h))"

definition hw_store :: "u8 list \<Rightarrow> hw \<Rightarrow> hw" where
  "hw_store bs h =
     (if ata_wr_err (h_disk h) (hw_lba h) then hw_start Failed h
      else hw_start Idle (h\<lparr>h_disk := (h_disk h)\<lparr>ata_sectors := (ata_sectors (h_disk h))(hw_lba h := bs)\<rparr>\<rparr>))"

definition hw_outw :: "u16 \<Rightarrow> u16 \<Rightarrow> u16 \<Rightarrow> hw \<Rightarrow> hw" where
  "hw_outw base p w h =
     (case h_phase h of
        DataOut bs \<Rightarrow>
          if p = base \<and> h_busy h = 0 then
            let bs = bs @ [ucast w, ucast (drop_bit 8 w)] in
            if length bs < 512 then h\<lparr>h_phase := DataOut bs\<rparr> else hw_store bs h
          else h
      | _ \<Rightarrow> h)"

definition hw_ports :: "u16 \<Rightarrow> hw ports" where
  "hw_ports base = \<lparr>inb = hw_inb base, outb = hw_outb base, inw = hw_inw base, outw = hw_outw base\<rparr>"

text \<open>Machines whose ports show such a disk, through a view \<open>v\<close> of the machine state.\<close>

locale ata_device =
  fixes io :: "'d ports" and base :: u16 and v :: "'d \<Rightarrow> hw"
  assumes inb_v: "fst (inb io p d) = fst (hw_inb base p (v d))" "v (snd (inb io p d)) = snd (hw_inb base p (v d))"
    and outb_v: "v (outb io p b d) = hw_outb base p b (v d)"
    and inw_v: "fst (inw io p d) = fst (hw_inw base p (v d))" "v (snd (inw io p d)) = snd (hw_inw base p (v d))"
    and outw_v: "v (outw io p w d) = hw_outw base p w (v d)"

interpretation pio: ata_device "hw_ports base" base id
  by unfold_locales (simp_all add: hw_ports_def)

text \<open>The four register bytes of a 28-bit sector number give it back.\<close>

definition device_byte :: "bool \<Rightarrow> u32 \<Rightarrow> u8" where
  "device_byte mst n = (if mst then 0xE0 else 0xF0) OR ucast (drop_bit 24 (n AND 0x0F000000))"

lemma device_byte_low: "device_byte mst n AND 0x0F = ucast (drop_bit 24 n) AND 0x0F"
proof -
  have "(device_byte mst n AND 0x0F) = ucast (drop_bit 24 (n AND 0x0F000000)) AND 0x0F"
    by (simp add: device_byte_def bit.conj_disj_distrib2)
  also have "\<dots> = ucast (drop_bit 24 n) AND 0x0F"
    by (rule bit_word_eqI) (auto simp: bit_simps numeral_eq_Suc less_Suc_eq)
  finally show ?thesis .
qed

lemma device_byte_select: "bit (device_byte mst n) 4 \<longleftrightarrow> \<not> mst"
  by (auto simp: device_byte_def bit_simps)

lemma bit_28_bound: "n \<le> 0x0FFFFFFF \<Longrightarrow> 28 \<le> j \<Longrightarrow> \<not> bit (n :: u32) j"
proof -
  assume "n \<le> 0x0FFFFFFF" "28 \<le> j"
  then have "unat n < 2 ^ 28" by (simp add: word_le_nat_alt)
  with \<open>28 \<le> j\<close> have "unat n < 2 ^ j" by (meson less_le_trans one_le_numeral power_increasing)
  then have "\<not> bit (unat n) j" by (simp add: bit_iff_odd)
  then show ?thesis by (auto simp: bit_unsigned_iff dest: bit_imp_le_length)
qed

lemma register_bytes:
  fixes n :: u32
  shows "ucast (n AND 0x000000FF) = (ucast n :: u8)"
    "ucast (drop_bit 8 (n AND 0x0000FF00)) = (ucast (drop_bit 8 n) :: u8)"
    "ucast (drop_bit 16 (n AND 0x00FF0000)) = (ucast (drop_bit 16 n) :: u8)"
  by (rule bit_word_eqI, auto simp: bit_simps numeral_eq_Suc less_Suc_eq)+

lemma lba_roundtrip:
  assumes "n \<le> 0x0FFFFFFF" "h_dev h = device_byte mst n" "h_lo h = ucast (n AND 0x000000FF)"
    "h_mid h = ucast (drop_bit 8 (n AND 0x0000FF00))" "h_hi h = ucast (drop_bit 16 (n AND 0x00FF0000))"
  shows "hw_lba h = n"
proof (rule bit_word_eqI)
  have m: "(0x0F :: u8) = mask 4" by (simp add: mask_eq_exp_minus_1)
  note low = device_byte_low [of mst n, unfolded m]
  fix j assume "j < LENGTH(32)"
  then have "j < 32" by simp
  then have "j < 8 \<or> 8 \<le> j \<and> j < 16 \<or> 16 \<le> j \<and> j < 24 \<or> 24 \<le> j \<and> j < 28 \<or> 28 \<le> j" by linarith
  then show "bit (hw_lba h) j = bit n j"
    using bit_28_bound [OF assms(1), of j] \<open>j < 32\<close>
    unfolding hw_lba_def assms(2-) m low register_bytes
    by (auto simp: bit_simps)
qed

lemma word_of_bytes:
  "(ucast (push_bit 8 (ucast (b1 :: u8)) OR ucast (b0 :: u8) :: u16) :: u8) = b0"
  "(ucast (drop_bit 8 (push_bit 8 (ucast b1)) OR drop_bit 8 (ucast b0) :: u16) :: u8) = b1"
  by (rule bit_word_eqI, auto simp: bit_simps dest: bit_imp_le_length)+

lemma hw_busy_0: "h_busy h = 0 \<Longrightarrow> h\<lparr>h_busy := 0\<rparr> = h"
  by (cases h) simp

subsection \<open>The driver on such a disk\<close>

text \<open>Between two operations the disk accepts a command, and it never takes too long.\<close>

definition hw_ready :: "hw \<Rightarrow> bool" where
  "hw_ready h \<longleftrightarrow> h_busy h = 0 \<and> (h_phase h = Idle \<or> h_phase h = Failed) \<and> (\<forall>i. h_delay h i \<le> 1000000) \<and>
     (\<forall>n. length (ata_sectors (h_disk h) n) = 512)"

text \<open>Addressing a sector and issuing a command.\<close>

definition addressed :: "ata_drive \<Rightarrow> u32 \<Rightarrow> hw \<Rightarrow> hw" where
  "addressed a n h = h\<lparr>h_dev := device_byte (master a) n, h_lo := ucast (n AND 0x000000FF),
     h_mid := ucast (drop_bit 8 (n AND 0x0000FF00)), h_hi := ucast (drop_bit 16 (n AND 0x00FF0000))\<rparr>"

lemma addressed_simps [simp]:
  "h_disk (addressed a n h) = h_disk h" "h_delay (addressed a n h) = h_delay h"
  "h_slave (addressed a n h) = h_slave h" "h_busy (addressed a n h) = h_busy h"
  "bit (h_dev (addressed a n h)) 4 \<longleftrightarrow> \<not> master a"
  "n \<le> 0x0FFFFFFF \<Longrightarrow> hw_lba (addressed a n h) = n"
  by (simp_all add: addressed_def device_byte_select lba_roundtrip [where mst = "master a"])

text \<open>The disk with sector \<open>n\<close> programmed.\<close>

definition programmed :: "u32 \<Rightarrow> u8 list \<Rightarrow> ata \<Rightarrow> ata" where
  "programmed n bs disk = (if ata_wr_err disk n then disk else disk\<lparr>ata_sectors := (ata_sectors disk)(n := bs)\<rparr>)"

text \<open>What the identification block says: the LBA28 sector count and the configuration word.\<close>

definition ident_size :: "u8 list \<Rightarrow> u32" where
  "ident_size bs = ucast (ld_16 bs 120) OR push_bit 16 (ucast (ld_16 bs 122))"

definition identified :: "u8 list \<Rightarrow> ata_drive \<Rightarrow> ata_drive" where
  "identified bs a = a\<lparr>identify_general_config := ld_16 bs 0, isAtapi := ld_16 bs 0 AND 0x8000 \<noteq> 0, isRemovable := ld_16 bs 0 AND 0x0080 \<noteq> 0\<rparr>"

context ata_device
begin

lemmas view = inb_v outb_v inw_v outw_v

lemma status_read:
  "fst (inb io (base + 7) d) = (if 0 < h_busy (v d) then 0x80 else hw_status (h_phase (v d)))"
  "v (snd (inb io (base + 7) d)) = (v d)\<lparr>h_busy := h_busy (v d) - 1\<rparr>"
  by (simp_all add: view hw_inb_def)

text \<open>Polling sees the phase that the busy time leads to.\<close>

lemma wait_while_phase:
  assumes "busy 0x80" "\<not> failed 0x80" "\<not> busy (hw_status (h_phase (v d)))" "h_busy (v d) < n"
  shows "\<exists>d'. wait_while io (base + 7) busy failed n 0x80 d = (Some (hw_status (h_phase (v d))), d') \<and> v d' = (v d)\<lparr>h_busy := 0\<rparr>"
  using assms
proof (induction "h_busy (v d)" arbitrary: d n)
  case 0
  then show ?case
    by (subst wait_while.simps) (simp add: case_prod_beta status_read, subst wait_while.simps, simp add: status_read)
next
  case (Suc k)
  let ?d = "snd (inb io (base + 7) d)"
  have v: "h_phase (v ?d) = h_phase (v d)" "h_busy (v ?d) = k" "(v ?d)\<lparr>h_busy := 0\<rparr> = (v d)\<lparr>h_busy := 0\<rparr>"
    using Suc.hyps(2) [symmetric] by (simp_all add: status_read)
  have "wait_while io (base + 7) busy failed n 0x80 d = wait_while io (base + 7) busy failed (n - 1) 0x80 ?d"
    using Suc.prems Suc.hyps(2) [symmetric] by (subst wait_while.simps) (simp add: case_prod_beta status_read)
  moreover have "\<exists>d'. wait_while io (base + 7) busy failed (n - 1) 0x80 ?d = (Some (hw_status (h_phase (v ?d))), d') \<and> v d' = (v ?d)\<lparr>h_busy := 0\<rparr>"
    using Suc.prems Suc.hyps(2) v by (intro Suc.hyps(1)) auto
  ultimately show ?case by (simp add: v)
qed

text \<open>The same from the first status that a command answers, read \<open>k\<close> reads earlier.\<close>

lemma wait_while_from:
  assumes "busy 0x80" "\<not> failed 0x80" "\<not> busy (hw_status (h_phase (v d)))" "h_busy (v d) < n"
    and "h_phase (v d') = h_phase (v d)" "h_busy (v d') \<le> h_busy (v d)" "(v d')\<lparr>h_busy := 0\<rparr> = (v d)\<lparr>h_busy := 0\<rparr>"
  shows "\<exists>d''. wait_while io (base + 7) busy failed n (fst (inb io (base + 7) d)) d' = (Some (hw_status (h_phase (v d))), d'') \<and> v d'' = (v d)\<lparr>h_busy := 0\<rparr>"
proof (cases "h_busy (v d) = 0")
  case True
  then have "v d' = (v d)\<lparr>h_busy := 0\<rparr>" using assms(6,7) hw_busy_0 [of "v d'"] by simp
  with True assms show ?thesis by (subst wait_while.simps) (simp add: status_read)
next
  case False
  with wait_while_phase [of busy failed d' n] assms show ?thesis by (simp add: status_read)
qed

lemma wait_drq:
  assumes "h_busy (v d) \<le> 1000000" "h_phase (v d) \<noteq> Idle"
  shows "\<exists>d'. ata_wait_drq io (base + 7) d = (h_phase (v d) \<noteq> Failed, d') \<and> v d' = (v d)\<lparr>h_busy := 0\<rparr>"
proof -
  have "\<not> (hw_status (h_phase (v d))) AND 0x80 = 0x80" by (cases "h_phase (v d)") auto
  then obtain d1 where 1: "wait_while io (base + 7) (\<lambda>st. BSY st) (\<lambda>_. False) PIO_POLLS (fst (inb io (base + 7) d))
      (snd (inb io (base + 7) d)) = (Some (hw_status (h_phase (v d))), d1)" "v d1 = (v d)\<lparr>h_busy := 0\<rparr>"
    using wait_while_from [of "\<lambda>st. BSY st" "\<lambda>_. False" d PIO_POLLS "snd (inb io (base + 7) d)"] assms
    by (auto simp: status_read)
  then show ?thesis
    using assms(2)
    by (cases "h_phase (v d)") (simp_all add: ata_wait_drq_def case_prod_beta wait_while.simps)
qed

lemma wait_ready:
  assumes "h_busy (v d) \<le> 1000000" "h_phase (v d) = Idle \<or> h_phase (v d) = Failed"
  shows "\<exists>d'. ata_wait_ready io (base + 7) d = (h_phase (v d) = Idle, d') \<and> v d' = (v d)\<lparr>h_busy := 0\<rparr>"
proof -
  obtain d1 where 1: "wait_while io (base + 7) (\<lambda>st. BSY st \<or> DRQ st) (\<lambda>st. ERR st) PIO_POLLS (fst (inb io (base + 7) d))
      (snd (inb io (base + 7) d)) = (Some (hw_status (h_phase (v d))), d1)" "v d1 = (v d)\<lparr>h_busy := 0\<rparr>"
    using wait_while_from [of "\<lambda>st. BSY st \<or> DRQ st" "\<lambda>st. ERR st" d PIO_POLLS "snd (inb io (base + 7) d)"] assms
    by (auto simp: status_read)
  then show ?thesis using assms(2) by (auto simp: ata_wait_ready_def case_prod_beta)
qed

lemma insw_data:
  assumes "h_phase (v d) = DataIn bs" "h_busy (v d) = 0" "length bs = 2 * n" "0 < n"
  shows "\<exists>d'. insw io base n d = (bs, d') \<and> v d' = (v d)\<lparr>h_phase := Idle\<rparr>"
  using assms
proof (induction n arbitrary: d bs)
  case (Suc n)
  then obtain b0 b1 cs where bs: "bs = b0 # b1 # cs" "length cs = 2 * n"
    by (cases bs; cases "tl bs") auto
  let ?d = "snd (inw io base d)"
  have w: "fst (inw io base d) = push_bit 8 (ucast b1) OR ucast b0"
    "v ?d = (v d)\<lparr>h_phase := if cs = [] then Idle else DataIn cs\<rparr>"
    using Suc.prems bs by (simp_all add: view hw_inw_def)
  show ?case
  proof (cases "n = 0")
    case True
    with w bs show ?thesis by (simp add: case_prod_beta word_of_bytes)
  next
    case False
    then have "\<exists>d'. insw io base n ?d = (cs, d') \<and> v d' = (v ?d)\<lparr>h_phase := Idle\<rparr>"
      using Suc.prems bs w by (intro Suc.IH) auto
    with w bs show ?thesis by (auto simp: case_prod_beta word_of_bytes)
  qed
qed simp

lemma outsw_data:
  assumes "h_phase (v d) = DataOut acc" "h_busy (v d) = 0" "length acc + 2 * n = 512" "0 < n" "2 * n \<le> length bs"
  shows "v (outsw io base n bs d) = hw_store (acc @ take (2 * n) bs) (v d)"
  using assms
proof (induction n arbitrary: d acc bs)
  case (Suc n)
  then obtain b0 b1 cs where bs: "bs = b0 # b1 # cs" "2 * n \<le> length cs"
    by (cases bs; cases "tl bs") auto
  let ?d = "outw io base (push_bit 8 (ucast b1) OR ucast b0) d"
  show ?case
  proof (cases "n = 0")
    case True
    with Suc.prems bs show ?thesis by (simp add: view hw_outw_def Let_def word_of_bytes)
  next
    case False
    then have w: "v ?d = (v d)\<lparr>h_phase := DataOut (acc @ [b0, b1])\<rparr>"
      using Suc.prems bs by (simp add: view hw_outw_def Let_def word_of_bytes)
    have "v (outsw io base n cs ?d) = hw_store ((acc @ [b0, b1]) @ take (2 * n) cs) (v ?d)"
      using Suc.prems bs w False by (intro Suc.IH) auto
    also have "\<dots> = hw_store (acc @ b0 # b1 # take (2 * n) cs) (v d)"
      unfolding w by (simp add: hw_store_def hw_start_def hw_lba_def)
    finally show ?thesis by (simp add: bs)
  qed
qed simp

lemma select_sector_v:
  assumes "portBase a = base" "h_busy (v d) = 0"
  shows "v (select_sector io a n d) = addressed a n (v d)"
  using assms by (simp add: select_sector_def Let_def view hw_outb_def addressed_def device_byte_def)

lemma sector_command:
  assumes "portBase a = base" "master a \<longleftrightarrow> \<not> h_slave (v d)" "h_busy (v d) = 0"
  shows "v (outb io (base + 7) c (select_sector io a n d)) = hw_start (hw_command c (addressed a n (v d))) (addressed a n (v d))"
  using assms by (simp add: view hw_outb_def select_sector_v)

lemma Read28_sector:
  assumes a: "portBase a = base" "master a \<longleftrightarrow> \<not> h_slave (v d)" and ready: "hw_ready (v d)"
    and n: "n \<le> 0x0FFFFFFF" and c: "0 < count"
  shows "\<exists>d'. Read28 io a n (Some buf) count d =
      (Some (if ata_rd_err (h_disk (v d)) n then buf
             else take (min (nat count) 512) (ata_sectors (h_disk (v d)) n) @ drop (min (nat count) 512) buf), d') \<and>
    hw_ready (v d') \<and> h_disk (v d') = h_disk (v d) \<and> h_slave (v d') = h_slave (v d)"
proof -
  define d1 where "d1 = outb io (base + 7) 0x20 (select_sector io a n d)"
  define ph where "ph = (if ata_rd_err (h_disk (v d)) n then Failed else DataIn (ata_sectors (h_disk (v d)) n))"
  have v1: "v d1 = hw_start ph (addressed a n (v d))"
    using a ready n by (simp add: d1_def ph_def sector_command hw_ready_def hw_command_def)
  define d2 where "d2 = snd (inb io (base + 7) (snd (inb io (base + 7) (snd (inb io (base + 7) (snd (inb io (base + 7) d1)))))))"
  have "h_busy (v d1) \<le> 1000000" using ready by (simp add: v1 hw_start_def hw_ready_def)
  moreover have "\<not> (hw_status (h_phase (v d1))) AND 0x80 = 0x80" by (cases "h_phase (v d1)") auto
  ultimately obtain d3 where w: "wait_while io (base + 7) (\<lambda>st. BSY st) (\<lambda>_. False) PIO_POLLS (fst (inb io (base + 7) d1)) d2
      = (Some (hw_status ph), d3)" and v3: "v d3 = (v d1)\<lparr>h_busy := 0\<rparr>"
    using wait_while_from [of "\<lambda>st. BSY st" "\<lambda>_. False" d1 PIO_POLLS d2]
    by (auto simp: d2_def status_read v1 hw_start_def)
  have nn: "\<not> 0x0FFFFFFF < n" using n by simp
  show ?thesis
  proof (cases "ata_rd_err (h_disk (v d)) n")
    case True
    then have "Read28 io a n (Some buf) count d = (Some buf, d3)"
      using a nn c w by (simp add: Read28_def Let_def case_prod_beta d1_def [symmetric] d2_def [symmetric] ph_def)
    then show ?thesis using True ready by (simp add: v3 v1 ph_def hw_start_def hw_ready_def)
  next
    case False
    have "\<exists>d'. insw io base 256 d3 = (ata_sectors (h_disk (v d)) n, d') \<and> v d' = (v d3)\<lparr>h_phase := Idle\<rparr>"
      using False ready by (intro insw_data) (simp_all add: v3 v1 ph_def hw_start_def hw_ready_def)
    then obtain d4 where i: "insw io base 256 d3 = (ata_sectors (h_disk (v d)) n, d4)" "v d4 = (v d3)\<lparr>h_phase := Idle\<rparr>" by blast
    have "length (ata_sectors (h_disk (v d)) n) = 512" using ready by (simp add: hw_ready_def)
    moreover have "wait_while io (base + 7) (\<lambda>st. \<not> DRQ st) (\<lambda>st. ERR st \<or> DF st) PIO_POLLS 0x58 d3 = (Some 0x58, d3)"
      by (simp add: wait_while.simps)
    ultimately have "Read28 io a n (Some buf) count d =
        (Some (take (min (nat count) 512) (ata_sectors (h_disk (v d)) n) @ drop (min (nat count) 512) buf), d4)"
      unfolding Read28_def Let_def a(1) d1_def [symmetric] using nn c w False i
      by (cases "count = 512"; cases "512 < count") (auto simp: case_prod_beta d2_def [symmetric] ph_def min_def nat_le_iff)
    then show ?thesis using False ready by (simp add: i v3 v1 ph_def hw_start_def hw_ready_def)
  qed
qed

lemma Flush_disk:
  assumes a: "portBase a = base" "master a \<longleftrightarrow> \<not> h_slave (v d)" and ready: "hw_ready (v d)"
  shows "\<exists>d'. Flush io a d = (\<not> ata_flush_err (h_disk (v d)), d') \<and>
    hw_ready (v d') \<and> h_disk (v d') = h_disk (v d) \<and> h_slave (v d') = h_slave (v d)"
proof -
  define d1 where "d1 = outb io (base + 7) 0xE7 (outb io (base + 6) (if master a then 0xE0 else 0xF0) d)"
  define ph where "ph = (if ata_flush_err (h_disk (v d)) then Failed else Idle)"
  have dev: "bit (if master a then 0xE0 else 0xF0 :: u8) 4 \<longleftrightarrow> \<not> master a" by simp
  have v1: "v d1 = hw_start ph ((v d)\<lparr>h_dev := if master a then 0xE0 else 0xF0\<rparr>)"
    using a ready dev by (simp add: d1_def ph_def view hw_ready_def hw_outb_def hw_command_def)
  have "h_busy (v d1) \<le> 1000000" using ready by (simp add: v1 hw_start_def hw_ready_def)
  moreover have "\<not> (hw_status ph) AND 0x80 = 0x80" by (simp add: ph_def)
  ultimately obtain d2 where w: "wait_while io (base + 7) (\<lambda>st. BSY st) (\<lambda>st. ERR st) FLUSH_POLLS (fst (inb io (base + 7) d1))
      (snd (inb io (base + 7) d1)) = (Some (hw_status ph), d2)" and v2: "v d2 = (v d1)\<lparr>h_busy := 0\<rparr>"
    using wait_while_from [of "\<lambda>st. BSY st" "\<lambda>st. ERR st" d1 FLUSH_POLLS "snd (inb io (base + 7) d1)"]
    by (auto simp: status_read v1 hw_start_def)
  have "fst (inb io (base + 7) d1) \<noteq> 0" by (simp add: status_read v1 hw_start_def ph_def)
  then have "Flush io a d = (\<not> ata_flush_err (h_disk (v d)), d2)"
    unfolding Flush_def Let_def a(1) d1_def [symmetric] using w by (simp add: case_prod_beta ph_def)
  then show ?thesis using ready by (simp add: v2 v1 ph_def hw_start_def hw_ready_def)
qed

lemma program_sector:
  assumes a: "portBase a = base" "master a \<longleftrightarrow> \<not> h_slave (v d)" and ready: "hw_ready (v d)"
    and n: "n \<le> 0x0FFFFFFF" and bs: "512 \<le> length bs"
  shows "\<exists>d2 d3. ata_wait_drq io (base + 7) (outb io (base + 7) 0x30 (select_sector io a n d)) = (True, d2) \<and>
    ata_wait_ready io (base + 7) (outsw io base 256 bs d2) = (\<not> ata_wr_err (h_disk (v d)) n, d3) \<and>
    hw_ready (v d3) \<and> h_disk (v d3) = programmed n (take 512 bs) (h_disk (v d)) \<and> h_slave (v d3) = h_slave (v d)"
proof -
  define d1 where "d1 = outb io (base + 7) 0x30 (select_sector io a n d)"
  have v1: "v d1 = hw_start (DataOut []) (addressed a n (v d))"
    using a ready by (simp add: d1_def sector_command hw_ready_def hw_command_def)
  have "\<exists>d'. ata_wait_drq io (base + 7) d1 = (h_phase (v d1) \<noteq> Failed, d') \<and> v d' = (v d1)\<lparr>h_busy := 0\<rparr>"
    using ready by (intro wait_drq) (simp_all add: v1 hw_start_def hw_ready_def)
  then obtain d2 where d2: "ata_wait_drq io (base + 7) d1 = (True, d2)" "v d2 = (v d1)\<lparr>h_busy := 0\<rparr>"
    by (auto simp: v1 hw_start_def)
  define d3 where "d3 = outsw io base 256 bs d2"
  have "v d3 = hw_store ([] @ take (2 * 256) bs) (v d2)"
    unfolding d3_def using bs by (intro outsw_data) (simp_all add: d2 v1 hw_start_def)
  moreover have "hw_lba (v d2) = hw_lba (addressed a n (v d))" by (simp add: d2 v1 hw_start_def hw_lba_def)
  ultimately have v3: "v d3 = hw_start (if ata_wr_err (h_disk (v d)) n then Failed else Idle)
      ((v d2)\<lparr>h_disk := programmed n (take 512 bs) (h_disk (v d))\<rparr>)"
    using n by (simp add: hw_store_def programmed_def) (simp add: d2 v1 hw_start_def)
  have "\<exists>d'. ata_wait_ready io (base + 7) d3 = (h_phase (v d3) = Idle, d') \<and> v d' = (v d3)\<lparr>h_busy := 0\<rparr>"
    using ready by (intro wait_ready) (simp_all add: v3 d2 v1 hw_start_def hw_ready_def)
  moreover have "length (ata_sectors (programmed n (take 512 bs) (h_disk (v d))) k) = 512" for k
    using ready bs by (simp add: programmed_def hw_ready_def)
  ultimately show ?thesis
    using d2(1) ready unfolding d1_def [symmetric] d3_def
    by (auto simp: v3 [unfolded d3_def] d2(2) v1 hw_start_def hw_ready_def)
qed

lemma Write28_sector:
  assumes a: "portBase a = base" "master a \<longleftrightarrow> \<not> h_slave (v d)" and ready: "hw_ready (v d)"
    and n: "n \<le> 0x0FFFFFFF" and c: "512 \<le> count" and bs: "512 \<le> length buf"
  shows "\<exists>d'. Write28 io a n (Some buf) count d =
      (\<not> ata_wr_err (h_disk (v d)) n \<and> \<not> ata_flush_err (h_disk (v d)), d') \<and>
    hw_ready (v d') \<and> h_disk (v d') = programmed n (take 512 buf) (h_disk (v d)) \<and> h_slave (v d') = h_slave (v d)"
proof -
  obtain d2 d3 where p: "ata_wait_drq io (base + 7) (outb io (base + 7) 0x30 (select_sector io a n d)) = (True, d2)"
    "ata_wait_ready io (base + 7) (outsw io base 256 buf d2) = (\<not> ata_wr_err (h_disk (v d)) n, d3)"
    and d3: "hw_ready (v d3)" "h_disk (v d3) = programmed n (take 512 buf) (h_disk (v d))" "h_slave (v d3) = h_slave (v d)"
    using program_sector [OF a ready n bs] by blast
  have g: "\<not> 0x0FFFFFFF < n" "count \<noteq> 0" "(if count > 512 then 512 else count) = 512"
    using n c by (auto simp: not_less)
  have fl: "ata_flush_err (h_disk (v d3)) = ata_flush_err (h_disk (v d))" by (simp add: d3 programmed_def)
  obtain d4 where f: "Flush io a d3 = (\<not> ata_flush_err (h_disk (v d)), d4)" "hw_ready (v d4)" "h_disk (v d4) = h_disk (v d3)"
    "h_slave (v d4) = h_slave (v d3)"
    using Flush_disk [of a d3] a d3 fl by auto
  have "Write28 io a n (Some buf) count d =
      (if ata_wr_err (h_disk (v d)) n then (False, d3) else (\<not> ata_flush_err (h_disk (v d)), d4))"
    unfolding Write28_def Let_def g(3) a(1) using g p f(1) by simp
  then show ?thesis using d3 f by auto
qed

lemma Write28_prefix:
  assumes a: "portBase a = base" "master a \<longleftrightarrow> \<not> h_slave (v d)" and ready: "hw_ready (v d)"
    and n: "n \<le> 0x0FFFFFFF" and c: "0 < count" "count < 512" and bs: "unat count \<le> length buf"
    and rd: "\<not> ata_rd_err (h_disk (v d)) n"
  shows "\<exists>d'. Write28 io a n (Some buf) count d =
      (\<not> ata_wr_err (h_disk (v d)) n \<and> \<not> ata_flush_err (h_disk (v d)), d') \<and> hw_ready (v d') \<and>
    h_disk (v d') = programmed n (take (unat count) buf @ drop (unat count) (ata_sectors (h_disk (v d)) n)) (h_disk (v d)) \<and>
    h_slave (v d') = h_slave (v d)"
proof -
  let ?old = "ata_sectors (h_disk (v d)) n"
  let ?new = "take (unat count) buf @ drop (unat count) ?old"
  have len: "length ?old = 512" using ready by (simp add: hw_ready_def)
  define d1 where "d1 = outb io (base + 7) 0x20 (select_sector io a n d)"
  have v1: "v d1 = hw_start (DataIn ?old) (addressed a n (v d))"
    using a ready rd n by (simp add: d1_def sector_command hw_ready_def hw_command_def)
  have "\<exists>d'. ata_wait_drq io (base + 7) d1 = (h_phase (v d1) \<noteq> Failed, d') \<and> v d' = (v d1)\<lparr>h_busy := 0\<rparr>"
    using ready by (intro wait_drq) (simp_all add: v1 hw_start_def hw_ready_def)
  then obtain d2 where d2: "ata_wait_drq io (base + 7) d1 = (True, d2)" "v d2 = (v d1)\<lparr>h_busy := 0\<rparr>"
    by (auto simp: v1 hw_start_def)
  have "\<exists>d'. insw io base 256 d2 = (?old, d') \<and> v d' = (v d2)\<lparr>h_phase := Idle\<rparr>"
    using len by (intro insw_data) (simp_all add: d2 v1 hw_start_def)
  then obtain d3 where d3: "insw io base 256 d2 = (?old, d3)" "v d3 = (v d2)\<lparr>h_phase := Idle\<rparr>" by blast
  have "\<exists>d'. ata_wait_ready io (base + 7) d3 = (h_phase (v d3) = Idle, d') \<and> v d' = (v d3)\<lparr>h_busy := 0\<rparr>"
    by (intro wait_ready) (simp_all add: d3 d2)
  then obtain d4 where d4: "ata_wait_ready io (base + 7) d3 = (True, d4)" "v d4 = (v d3)\<lparr>h_busy := 0\<rparr>"
    by (auto simp: d3)
  have r4: "hw_ready (v d4)" "h_disk (v d4) = h_disk (v d)" "h_slave (v d4) = h_slave (v d)"
    using ready by (simp_all add: d4 d3 d2 v1 hw_start_def hw_ready_def)
  have len': "length ?new = 512" using len bs c(2) by (simp add: word_less_nat_alt)
  then have "512 \<le> length ?new" by simp
  from program_sector [OF a(1) _ r4(1) n this, unfolded r4] a(2)
  obtain d5 d6 where p: "ata_wait_drq io (base + 7) (outb io (base + 7) 0x30 (select_sector io a n d4)) = (True, d5)"
    "ata_wait_ready io (base + 7) (outsw io base 256 ?new d5) = (\<not> ata_wr_err (h_disk (v d)) n, d6)"
    and d6: "hw_ready (v d6)" "h_disk (v d6) = programmed n (take 512 ?new) (h_disk (v d))" "h_slave (v d6) = h_slave (v d)"
    by blast
  have "ata_flush_err (h_disk (v d6)) = ata_flush_err (h_disk (v d))" by (simp add: d6 programmed_def)
  then obtain d7 where f: "Flush io a d6 = (\<not> ata_flush_err (h_disk (v d)), d7)" "hw_ready (v d7)" "h_disk (v d7) = h_disk (v d6)"
    "h_slave (v d7) = h_slave (v d6)"
    using Flush_disk [of a d6] a d6 by auto
  have g: "\<not> 0x0FFFFFFF < n" "count \<noteq> 0" "(if count > 512 then 512 else count) = count" "count \<noteq> 512"
    using n c by (auto simp: not_less)
  have "Write28 io a n (Some buf) count d =
      (if ata_wr_err (h_disk (v d)) n then (False, d6) else (\<not> ata_flush_err (h_disk (v d)), d7))"
    unfolding Write28_def Let_def g(3) a(1) using g(1,2,4) d2(1) [unfolded d1_def] d3(1) d4(1) p f(1) by simp
  moreover have "take 512 ?new = ?new" using len' by (intro take_all) simp
  ultimately show ?thesis using d6 f by auto
qed

lemma identify_words_block:
  assumes "portBase a = base" "h_busy (v d) = 0" "length bs = 512" "i \<le> 256"
    and "h_phase (v d) = (if i < 256 then DataIn (drop (2 * i) bs) else Idle)"
  shows "\<exists>d'. identify_words io i tot a d =
      (Some (if i \<le> 60 then ident_size bs else if i = 61 then tot OR push_bit 16 (ucast (ld_16 bs 122)) else tot),
       if i = 0 then identified bs a else a, d') \<and> v d' = (v d)\<lparr>h_phase := Idle\<rparr>"
  using assms
proof (induction "256 - i" arbitrary: i tot a d)
  case 0
  then have "i = 256" by simp
  with 0 show ?case by (auto simp: identify_words.simps intro!: exI [of _ d])
next
  case (Suc k)
  then have i: "i < 256" by simp
  let ?d1 = "snd (inb io (base + 7) d)" and ?d2 = "snd (inw io base (snd (inb io (base + 7) d)))"
  let ?a = "if i = 0 then a\<lparr>identify_general_config := ld_16 bs 0, isAtapi := ld_16 bs 0 AND 0x8000 \<noteq> 0, isRemovable := ld_16 bs 0 AND 0x0080 \<noteq> 0\<rparr> else a"
  let ?tot = "if i = 60 then ucast (ld_16 bs (2 * i)) else if i = 61 then tot OR push_bit 16 (ucast (ld_16 bs (2 * i))) else tot"
  have ph: "h_phase (v d) = DataIn (bs ! (2 * i) # bs ! (2 * i + 1) # drop (2 * (i + 1)) bs)"
    using Suc.prems i by (simp add: Cons_nth_drop_Suc)
  have v1: "v ?d1 = v d" using Suc.prems hw_busy_0 [of "v d"] by (simp add: status_read)
  have w: "fst (inw io base ?d1) = ld_16 bs (2 * i)"
    "v ?d2 = (v d)\<lparr>h_phase := if i + 1 < 256 then DataIn (drop (2 * (i + 1)) bs) else Idle\<rparr>"
    using Suc.prems(2,3) ph i by (simp_all add: inw_v v1 hw_inw_def ld_16_def)
  have "wait_while io (base + 7) (\<lambda>st. \<not> DRQ st) (\<lambda>st. ERR st \<or> DF st) PIO_POLLS 0x58 ?d1 = (Some 0x58, ?d1)"
    by (simp add: wait_while.simps)
  moreover have "fst (inb io (base + 7) d) = 0x58" using Suc.prems(2) ph by (simp add: status_read)
  ultimately have step: "identify_words io i tot a d = identify_words io (i + 1) ?tot ?a ?d2"
    using i Suc.prems(1) w(1) by (subst identify_words.simps) (simp add: case_prod_beta)
  have "\<exists>d'. identify_words io (i + 1) ?tot ?a ?d2 =
      (Some (if i + 1 \<le> 60 then ident_size bs else if i + 1 = 61 then ?tot OR push_bit 16 (ucast (ld_16 bs 122)) else ?tot),
       if i + 1 = 0 then identified bs ?a else ?a, d') \<and> v d' = (v ?d2)\<lparr>h_phase := Idle\<rparr>"
    using Suc.hyps(2) Suc.prems i w(2) by (intro Suc.hyps(1)) auto
  then show ?case
    unfolding step using i by (auto simp: w(2) identified_def ident_size_def)
qed

lemma Identify_disk:
  assumes a: "portBase a = base" "master a \<longleftrightarrow> \<not> h_slave (v d)" and ready: "hw_ready (v d)"
    and id: "length (h_ident (v d)) = 512" "\<not> (h_mid (v d) = 0x14 \<and> h_hi (v d) = 0xEB)"
  shows "\<exists>d'. Identify io a d = (ident_size (h_ident (v d)), (identified (h_ident (v d)) a)\<lparr>ata_size := ident_size (h_ident (v d))\<rparr>, d') \<and>
    hw_ready (v d') \<and> h_disk (v d') = h_disk (v d) \<and> h_slave (v d') = h_slave (v d)"
proof -
  let ?A = "if master a then 0xA0 else 0xB0 :: u8"
  define d1 where "d1 = outb io (base + 6) ?A (outb io (base + 0x206) 0 (outb io (base + 6) ?A d))"
  have dev: "bit ?A 4 \<longleftrightarrow> \<not> master a" by simp
  have b0: "h_busy (v d) = 0" using ready by (simp add: hw_ready_def)
  have v1: "v d1 = (v d)\<lparr>h_dev := ?A\<rparr>" using b0 by (simp add: d1_def view hw_outb_def)
  have st: "fst (inb io (base + 7) d1) \<noteq> 0xFF" using ready by (auto simp: status_read v1 hw_ready_def)
  have idle: "v (snd (inb io (base + 7) x)) = v x" if "h_busy (v x) = 0" for x
    using that hw_busy_0 [of "v x"] by (simp add: status_read)
  have regs: "v (snd (inb io (base + 4) x)) = v x" "v (snd (inb io (base + 5) x)) = v x"
    "fst (inb io (base + 4) x) = h_mid (v x)" "fst (inb io (base + 5) x) = h_hi (v x)" for x
    by (simp_all add: view hw_inb_def)
  define d2 where "d2 = snd (inb io (base + 7) (snd (inb io (base + 7) (snd (inb io (base + 7) (snd (inb io (base + 7)
    (snd (inb io (base + 7) d1)))))))))"
  have v2: "v d2 = v d1" using b0 by (simp add: d2_def v1 idle)
  define d3 where "d3 = snd (inb io (base + 5) (snd (inb io (base + 4) d2)))"
  have v3: "v d3 = v d1" by (simp add: d3_def regs v2)
  define d4 where "d4 = outb io (base + 7) 0xEC (outb io (base + 5) 0 (outb io (base + 4) 0 (outb io (base + 3) 0
    (outb io (base + 2) 0 (outb io (base + 6) ?A d3)))))"
  have v4: "v d4 = hw_start (DataIn (h_ident (v d))) ((v d)\<lparr>h_dev := ?A, h_lo := 0, h_mid := 0, h_hi := 0\<rparr>)"
    using b0 a(2) dev by (simp add: d4_def view hw_outb_def v3 v1 hw_command_def)
  have nz: "fst (inb io (base + 7) d4) \<noteq> 0" by (simp add: status_read v4 hw_start_def)
  have "h_delay (v d) (h_count (v d)) \<le> 1000000" using ready by (simp add: hw_ready_def)
  then obtain d5 where w: "wait_while io (base + 7) (\<lambda>st. BSY st \<and> \<not> ERR st) (\<lambda>_. False) PIO_POLLS (fst (inb io (base + 7) d4))
      (snd (inb io (base + 7) d4)) = (Some 0x58, d5)" and v5: "v d5 = (v d4)\<lparr>h_busy := 0\<rparr>"
    using wait_while_from [of "\<lambda>st. BSY st \<and> \<not> ERR st" "\<lambda>_. False" d4 PIO_POLLS "snd (inb io (base + 7) d4)"]
    by (auto simp: status_read v4 hw_start_def)
  have "\<exists>d'. identify_words io 0 0 a d5 = (Some (if (0::nat) \<le> 60 then ident_size (h_ident (v d)) else if (0::nat) = 61 then
       0 OR push_bit 16 (ucast (ld_16 (h_ident (v d)) 122)) else 0), if (0::nat) = 0 then identified (h_ident (v d)) a else a, d') \<and>
      v d' = (v d5)\<lparr>h_phase := Idle\<rparr>"
    using a id by (intro identify_words_block) (simp_all add: v5 v4 hw_start_def)
  then obtain d6 where d6: "identify_words io 0 0 a d5 = (Some (ident_size (h_ident (v d))), identified (h_ident (v d)) a, d6)"
    "v d6 = (v d5)\<lparr>h_phase := Idle\<rparr>" by auto
  have sig: "\<not> (fst (inb io (base + 4) d2) = 0x14 \<and> fst (inb io (base + 5) (snd (inb io (base + 4) d2))) = 0xEB)"
    using id(2) by (simp add: regs v2 v1)
  have "Identify io a d = (ident_size (h_ident (v d)), (identified (h_ident (v d)) a)\<lparr>ata_size := ident_size (h_ident (v d))\<rparr>, d6)"
    unfolding Identify_def Let_def a(1) d1_def [symmetric] case_prod_beta
    unfolding d2_def [symmetric] d3_def [symmetric] if_not_P [OF sig] d4_def [symmetric]
    using st nz w d6(1) by simp
  then show ?thesis using ready by (simp add: d6(2) v5 v4 hw_start_def hw_ready_def)
qed
end

subsection \<open>Properties\<close>

text \<open>A disk on the primary channel that answers after two status reads, one bad sector on it.\<close>

definition sample_disk :: ata where
  "sample_disk = \<lparr>ata_sectors = (\<lambda>_. replicate 512 7), ata_rd_err = (\<lambda>n. n = 9), ata_wr_err = (\<lambda>n. n = 9), ata_flush_err = False\<rparr>"

definition sample_hw :: hw where
  "sample_hw = \<lparr>h_disk = sample_disk, h_slave = False, h_ident = replicate 120 0 @ [0, 8] @ replicate 390 0, h_dev = 0, h_lo = 1, h_mid = 0, h_hi = 0,
     h_phase = Idle, h_busy = 0, h_delay = (\<lambda>_. 2), h_count = 0\<rparr>"

lemma sample_hw_ready: "hw_ready sample_hw"
  by (simp add: hw_ready_def sample_hw_def sample_disk_def)

text \<open>
  Property C22. The driver implements a sector store: on any machine whose ports show an ATA disk
  that obeys the PIO protocol and answers within the polling budget, \<^verbatim>\<open>Read28\<close> and \<^verbatim>\<open>Write28\<close> of a full
  sector, with every register write, status poll and data word they do, return and store exactly
  what the abstract \<^verbatim>\<open>Read28\<close> and \<^verbatim>\<open>Write28\<close> of the filesystem layer do, errors included, and leave
  the disk ready for the next command.
\<close>

theorem ata_refines_sector_store:
  assumes dev: "ata_device io base v" and a: "portBase a = base" "master a \<longleftrightarrow> \<not> h_slave (v d)"
    and ready: "hw_ready (v d)" and buf: "length buf = 512"
  shows "(case Read28 io a n (Some buf) 512 d of (buf', d') \<Rightarrow>
      buf' = Some (Fat_Volume.Read28 (h_disk (v d)) n buf) \<and> h_disk (v d') = h_disk (v d) \<and> hw_ready (v d')) \<and>
    (case Write28 io a n (Some buf) 512 d of (ok, d') \<Rightarrow>
      (ok, h_disk (v d')) = Fat_Volume.Write28 (h_disk (v d)) n buf \<and> hw_ready (v d'))"
proof (cases "n \<le> 0x0FFFFFFF")
  case True
  from ata_device.Read28_sector [OF dev a ready True, of 512 buf] buf True ready
  have "case Read28 io a n (Some buf) 512 d of (buf', d') \<Rightarrow>
      buf' = Some (Fat_Volume.Read28 (h_disk (v d)) n buf) \<and> h_disk (v d') = h_disk (v d) \<and> hw_ready (v d')"
    by (auto simp: Fat_Volume.Read28_def hw_ready_def not_less [symmetric])
  moreover from ata_device.Write28_sector [OF dev a ready True, of 512 buf] buf True
  have "case Write28 io a n (Some buf) 512 d of (ok, d') \<Rightarrow>
      (ok, h_disk (v d')) = Fat_Volume.Write28 (h_disk (v d)) n buf \<and> hw_ready (v d')"
    by (auto simp: Fat_Volume.Write28_def programmed_def not_less [symmetric])
  ultimately show ?thesis by blast
next
  case False
  then have "0x0FFFFFFF < n" by simp
  with ready show ?thesis
    by (simp add: Read28_def Write28_def Fat_Volume.Read28_def Fat_Volume.Write28_def)
qed

theorem ata_refines_sector_store_witness:
  "fst (Read28 (hw_ports 0x1F0) (AdvancedTechnologyAttachment 0 True 0x1F0) 5 (Some (replicate 512 0)) 512 sample_hw) = Some (replicate 512 7) \<and>
   fst (Write28 (hw_ports 0x1F0) (AdvancedTechnologyAttachment 0 True 0x1F0) 9 (Some (replicate 512 0)) 512 sample_hw) = False"
proof -
  let ?a = "AdvancedTechnologyAttachment 0 True 0x1F0"
  have "portBase ?a = 0x1F0" "master ?a \<longleftrightarrow> \<not> h_slave (id sample_hw)" "hw_ready (id sample_hw)" "length (replicate 512 (0::u8)) = 512"
    by (simp_all add: AdvancedTechnologyAttachment_def sample_hw_ready) (simp add: sample_hw_def)
  note r = ata_refines_sector_store [OF pio.ata_device_axioms this]
  from r [of 5] r [of 9] show ?thesis
    by (auto simp: case_prod_beta Fat_Volume.Read28_def Fat_Volume.Write28_def sample_hw_def sample_disk_def)
qed

text \<open>
  A partial \<^verbatim>\<open>Write28\<close> (fewer than 512 bytes) replaces exactly the first \<^verbatim>\<open>count\<close>
  bytes of the sector on such a disk and keeps the others, and every other sector; it reports
  failure when the disk does.
\<close>

theorem ata_partial_write:
  assumes dev: "ata_device io base v" and a: "portBase a = base" "master a \<longleftrightarrow> \<not> h_slave (v d)"
    and ready: "hw_ready (v d)" and n: "n \<le> 0x0FFFFFFF" "\<not> ata_rd_err (h_disk (v d)) n"
    and count: "0 < count" "count < 512" "unat count \<le> length buf"
  shows "case Write28 io a n (Some buf) count d of (ok, d') \<Rightarrow>
    (ok, h_disk (v d')) = Fat_Volume.Write28 (h_disk (v d)) n (take (unat count) buf @ drop (unat count) (ata_sectors (h_disk (v d)) n)) \<and>
    hw_ready (v d')"
  using ata_device.Write28_prefix [OF dev a ready n(1) count n(2)] n(1)
  by (auto simp: Fat_Volume.Write28_def programmed_def not_less [symmetric])

text \<open>
  \<^verbatim>\<open>Identify\<close> on such a disk (without the signature of a packet device in its
  registers) returns the LBA28 sector count of words 60 and 61 of the identification block,
  records it as the size of the drive and the configuration bits of word 0, and leaves the disk
  ready.
\<close>

theorem Identify_reads_size:
  assumes "ata_device io base v" "portBase a = base" "master a \<longleftrightarrow> \<not> h_slave (v d)" "hw_ready (v d)"
    and "length (h_ident (v d)) = 512" "\<not> (h_mid (v d) = 0x14 \<and> h_hi (v d) = 0xEB)"
  shows "\<exists>d'. Identify io a d = (ident_size (h_ident (v d)), (identified (h_ident (v d)) a)\<lparr>ata_size := ident_size (h_ident (v d))\<rparr>, d') \<and>
    hw_ready (v d') \<and> h_disk (v d') = h_disk (v d)"
  using ata_device.Identify_disk [OF assms] by blast

theorem ata_partial_write_witness:
  "snd (Fat_Volume.Write28 sample_disk 5 ([1, 2, 3] @ drop 3 (replicate 512 7))) =
   h_disk (snd (Write28 (hw_ports 0x1F0) (AdvancedTechnologyAttachment 0 True 0x1F0) 5 (Some [1, 2, 3]) 3 sample_hw))"
proof -
  let ?a = "AdvancedTechnologyAttachment 0 True 0x1F0"
  have "portBase ?a = 0x1F0" "master ?a \<longleftrightarrow> \<not> h_slave (id sample_hw)" "hw_ready (id sample_hw)"
    "(5 :: u32) \<le> 0x0FFFFFFF" "\<not> ata_rd_err (h_disk (id sample_hw)) 5" "(0 :: u32) < 3" "(3 :: u32) < 512" "unat (3 :: u32) \<le> length [1, 2, 3 :: u8]"
    by (simp_all add: AdvancedTechnologyAttachment_def sample_hw_ready) (simp_all add: sample_hw_def sample_disk_def)
  from ata_partial_write [OF pio.ata_device_axioms this] show ?thesis
    by (simp add: case_prod_beta sample_hw_def sample_disk_def) (metis snd_conv)
qed

theorem Identify_reads_size_witness:
  "fst (Identify (hw_ports 0x1F0) (AdvancedTechnologyAttachment 0 True 0x1F0) sample_hw) = 0x800"
proof -
  let ?a = "AdvancedTechnologyAttachment 0 True 0x1F0"
  have "portBase ?a = 0x1F0" "master ?a \<longleftrightarrow> \<not> h_slave (id sample_hw)" "hw_ready (id sample_hw)"
    "length (h_ident (id sample_hw)) = 512" "\<not> (h_mid (id sample_hw) = 0x14 \<and> h_hi (id sample_hw) = 0xEB)"
    by (simp_all add: AdvancedTechnologyAttachment_def sample_hw_ready) (simp_all add: sample_hw_def)
  from Identify_reads_size [OF pio.ata_device_axioms this] show ?thesis
    by (auto simp: sample_hw_def ident_size_def ld_16_def nth_append)
qed

end
