(* ===== verification/Msdos_Part.thy ===== *)
theory Msdos_Part
  imports Ata_Driver Fat_Table
begin

text \<open>
  The MBR partition table, \<^verbatim>\<open>core/filesystem/msdospart.cpp\<close>: the on-disk layout, the creation of a
  two-partition disk and the mounting of what an MBR describes. The FatFs entry points that it calls
  (\<^verbatim>\<open>f_mkfs\<close>, \<^verbatim>\<open>f_mount\<close>, and the destructor of a mounted \<^verbatim>\<open>FatFsWrapper\<close>) are a parameter. A failed
  allocation of a wrapper halts the kernel and is not modelled.
\<close>

subsection \<open>Layout\<close>

text \<open>The two CHS bit-fields of an entry share one 16-bit unit.\<close>

record PartitionTableEntry =
  bootable :: u8
  start_head :: u8
  start_chs :: u16
  partition_id :: u8
  end_head :: u8
  end_chs :: u16
  start_lba :: u32
  part_length :: u32

record MasterBootRecord =
  bootloader :: "u8 list"
  signature :: u32
  unused :: u16
  primaryPartition :: "PartitionTableEntry list"
  magicnumber :: u16

definition zero_entry :: PartitionTableEntry where
  "zero_entry = \<lparr>bootable = 0, start_head = 0, start_chs = 0, partition_id = 0, end_head = 0, end_chs = 0, start_lba = 0, part_length = 0\<rparr>"

definition zero_mbr :: MasterBootRecord where
  "zero_mbr = \<lparr>bootloader = replicate 440 0, signature = 0, unused = 0, primaryPartition = replicate 4 zero_entry, magicnumber = 0\<rparr>"

text \<open>The packed structures as bytes, and the cast of 512 bytes to an MBR.\<close>

definition bytes_16 :: "u16 \<Rightarrow> u8 list" where
  "bytes_16 w = [ucast w, ucast (drop_bit 8 w)]"

definition bytes_32 :: "u32 \<Rightarrow> u8 list" where
  "bytes_32 w = [ucast w, ucast (drop_bit 8 w), ucast (drop_bit 16 w), ucast (drop_bit 24 w)]"

definition entry_bytes :: "PartitionTableEntry \<Rightarrow> u8 list" where
  "entry_bytes e = [bootable e, start_head e] @ bytes_16 (start_chs e) @ [partition_id e, end_head e] @ bytes_16 (end_chs e) @
     bytes_32 (start_lba e) @ bytes_32 (part_length e)"

definition mbr_bytes :: "MasterBootRecord \<Rightarrow> u8 list" where
  "mbr_bytes m = bootloader m @ bytes_32 (signature m) @ bytes_16 (unused m) @ concat (map entry_bytes (primaryPartition m)) @
     bytes_16 (magicnumber m)"

definition entry_at :: "u8 list \<Rightarrow> nat \<Rightarrow> PartitionTableEntry" where
  "entry_at bs k = \<lparr>bootable = bs ! k, start_head = bs ! (k + 1), start_chs = ld_16 bs (k + 2), partition_id = bs ! (k + 4),
     end_head = bs ! (k + 5), end_chs = ld_16 bs (k + 6), start_lba = ld_32 bs (k + 8), part_length = ld_32 bs (k + 12)\<rparr>"

definition mbr_at :: "u8 list \<Rightarrow> MasterBootRecord" where
  "mbr_at bs = \<lparr>bootloader = take 440 bs, signature = ld_32 bs 440, unused = ld_16 bs 444,
     primaryPartition = map (\<lambda>i. entry_at bs (446 + 16 * i)) [0..<4], magicnumber = ld_16 bs 510\<rparr>"

subsection \<open>State\<close>

text \<open>A mounted \<^verbatim>\<open>FatFsWrapper\<close>: its partition and its FatFs drive number.\<close>

record wrapper =
  partitionOffset :: u32
  w_pdrv :: u8
  partitionSize :: u32

record fatfs_ops =
  f_mkfs :: "u8 \<Rightarrow> u32 \<times> u32 \<Rightarrow> ata \<Rightarrow> FRESULT \<times> ata"
  f_mount :: "wrapper \<Rightarrow> ata \<Rightarrow> FRESULT"
  f_unmount :: "wrapper \<Rightarrow> ata \<Rightarrow> ata"

text \<open>
  The disk, what \<^verbatim>\<open>Identify\<close> recorded of it, the extents that \<^verbatim>\<open>fatfs_init\<close> binds to the two FatFs drives,
  and the static table of partitions; \<open>mount_result\<close> is what the last \<^verbatim>\<open>f_mount\<close> returned, which is
  only logged.
\<close>

record part_table =
  ata_dev :: ata_drive
  disk :: ata
  g_part :: "(u32 \<times> u32) list"
  partitions :: "wrapper option list"
  partitionsCounter :: u32
  mount_result :: FRESULT

definition bind_drive :: "u8 \<Rightarrow> u32 \<Rightarrow> u32 \<Rightarrow> part_table \<Rightarrow> part_table" where
  "bind_drive pd start sz s = (if FF_VOLUMES \<le> pd then s else s\<lparr>g_part := (g_part s)[unat pd := (start, sz)]\<rparr>)"

definition FatFsWrapper :: "fatfs_ops \<Rightarrow> u32 \<Rightarrow> u8 \<Rightarrow> u32 \<Rightarrow> part_table \<Rightarrow> wrapper \<times> part_table" where
  "FatFsWrapper fops offs pd sz s =
     (let w = \<lparr>partitionOffset = offs, w_pdrv = pd, partitionSize = sz\<rparr>;
          s = bind_drive pd offs sz s in
      (w, s\<lparr>mount_result := f_mount fops w (disk s)\<rparr>))"

subsection \<open>Creating a partition table\<close>

definition fresh_mbr :: "u32 \<Rightarrow> u32 \<Rightarrow> u32 \<Rightarrow> u32 \<Rightarrow> MasterBootRecord" where
  "fresh_mbr p1_start p1_size p2_start p2_size =
     (let mbr = zero_mbr\<lparr>magicnumber := 0xAA55\<rparr>;
          e0 = (primaryPartition mbr ! 0)\<lparr>bootable := 0x80, partition_id := 0x0C, start_lba := p1_start, part_length := p1_size,
                 start_head := 0, end_head := 0\<rparr>;
          e1 = (primaryPartition mbr ! 1)\<lparr>bootable := 0x00, partition_id := 0x0C, start_lba := p2_start, part_length := p2_size,
                 start_head := 0, end_head := 0\<rparr> in
      mbr\<lparr>primaryPartition := (primaryPartition mbr)[0 := e0, 1 := e1]\<rparr>)"

definition Initialize :: "fatfs_ops \<Rightarrow> part_table \<Rightarrow> part_table" where
  "Initialize fops s =
     (if isAtapi (ata_dev s) then s
      else
        let totalSectors = GetSizeInSectors (ata_dev s) in
        if totalSectors = 0 then s
        else if totalSectors \<le> 63 then s
        else
          let available = totalSectors - 63 in
          if available < 2 then s
          else
            let p1_size = available div 2;
                p2_size = available - p1_size;
                p1_start = 63;
                p2_start = 63 + p1_size in
            if p1_size < 128 \<or> p2_size < 128 then s
            else case Fat_Volume.Write28 (disk s) 0 (mbr_bytes (fresh_mbr p1_start p1_size p2_start p2_size)) of
              (False, dk) \<Rightarrow> s\<lparr>disk := dk\<rparr>
            | (True, dk) \<Rightarrow>
                let s = bind_drive 0 p1_start p1_size (s\<lparr>disk := dk\<rparr>) in
                case f_mkfs fops 0 (p1_start, p1_size) (disk s) of (res, dk) \<Rightarrow>
                let s = s\<lparr>disk := dk\<rparr> in
                if res \<noteq> FR_OK then s
                else
                  let s = bind_drive 1 p2_start p2_size s in
                  case f_mkfs fops 1 (p2_start, p2_size) (disk s) of (res, dk) \<Rightarrow> s\<lparr>disk := dk\<rparr>)"

subsection \<open>Mounting\<close>

fun unmount_all :: "fatfs_ops \<Rightarrow> nat list \<Rightarrow> part_table \<Rightarrow> part_table" where
  "unmount_all fops [] s = s"
| "unmount_all fops (i # is) s =
     unmount_all fops is
       (case partitions s ! i of
          None \<Rightarrow> s
        | Some w \<Rightarrow> s\<lparr>disk := f_unmount fops w (disk s), partitions := (partitions s)[i := None]\<rparr>)"

definition bad_extent :: "u32 \<Rightarrow> PartitionTableEntry \<Rightarrow> bool" where
  "bad_extent totalSectors e \<longleftrightarrow>
     part_length e = 0 \<or> totalSectors \<le> start_lba e \<or> totalSectors - start_lba e < part_length e"

text \<open>The loop over the entries; ending the list early is the \<^verbatim>\<open>break\<close>.\<close>

fun mount_entries :: "fatfs_ops \<Rightarrow> u32 \<Rightarrow> PartitionTableEntry list \<Rightarrow> part_table \<Rightarrow> part_table" where
  "mount_entries fops totalSectors [] s = s"
| "mount_entries fops totalSectors (e # es) s =
     (if partition_id e = 0 then mount_entries fops totalSectors es s
      else if 4 \<le> partitionsCounter s then s
      else if bad_extent totalSectors e then mount_entries fops totalSectors es s
      else if partition_id e = 0x0C \<or> partition_id e = 0x0B then
        if ucast FF_VOLUMES \<le> partitionsCounter s then s
        else case FatFsWrapper fops (start_lba e) (ucast (partitionsCounter s)) (part_length e) s of
          (fs, s) \<Rightarrow>
            mount_entries fops totalSectors es
              (s\<lparr>partitions := (partitions s)[unat (partitionsCounter s) := Some fs], partitionsCounter := partitionsCounter s + 1\<rparr>)
      else mount_entries fops totalSectors es s)"

definition ReadPartitions :: "fatfs_ops \<Rightarrow> part_table \<Rightarrow> part_table" where
  "ReadPartitions fops s =
     (let s = (unmount_all fops [0..<4] s)\<lparr>partitionsCounter := 0\<rparr>;
          totalSectors = GetSizeInSectors (ata_dev s) in
      if totalSectors = 0 then s
      else if totalSectors \<le> 63 then s
      else
        let mbr = mbr_at (Fat_Volume.Read28 (disk s) 0 (mbr_bytes zero_mbr)) in
        if magicnumber mbr \<noteq> 0xAA55 then s
        else mount_entries fops totalSectors (primaryPartition mbr) s)"

subsection \<open>The layout is read back\<close>

lemma ld_bytes:
  "ld_16 (pre @ bytes_16 w @ post) (length pre) = w"
  "ld_32 (pre @ bytes_32 x @ post) (length pre) = x"
proof -
  have "push_bit 8 (ucast (ucast (drop_bit 8 w) :: u8)) OR ucast (ucast w :: u8) = w"
    by (rule bit_word_eqI) (auto simp: bit_simps)
  then show "ld_16 (pre @ bytes_16 w @ post) (length pre) = w"
    by (simp add: ld_16_def bytes_16_def nth_append)
  show "ld_32 (pre @ bytes_32 x @ post) (length pre) = x"
    using bytes32 [of x] by (simp add: ld_32_def bytes_32_def nth_append le32_def Let_def)
qed

lemma length_bytes [simp]: "length (bytes_16 w) = 2" "length (bytes_32 x) = 4" "length (entry_bytes e) = 16"
  by (simp_all add: bytes_16_def bytes_32_def entry_bytes_def)

lemma entry_at_bytes: "entry_at (pre @ entry_bytes e @ post) (length pre) = e"
proof -
  let ?bs = "pre @ entry_bytes e @ post"
  have "ld_16 ?bs (length pre + 2) = start_chs e"
    using ld_bytes(1) [of "pre @ [bootable e, start_head e]" "start_chs e"] by (simp add: entry_bytes_def)
  moreover have "ld_16 ?bs (length pre + 6) = end_chs e"
    using ld_bytes(1) [of "pre @ [bootable e, start_head e] @ bytes_16 (start_chs e) @ [partition_id e, end_head e]" "end_chs e"]
    by (simp add: entry_bytes_def)
  moreover have "ld_32 ?bs (length pre + 8) = start_lba e"
    using ld_bytes(2) [of "pre @ [bootable e, start_head e] @ bytes_16 (start_chs e) @ [partition_id e, end_head e] @ bytes_16 (end_chs e)" "start_lba e"]
    by (simp add: entry_bytes_def)
  moreover have "ld_32 ?bs (length pre + 12) = part_length e"
    using ld_bytes(2) [of "pre @ [bootable e, start_head e] @ bytes_16 (start_chs e) @ [partition_id e, end_head e] @ bytes_16 (end_chs e) @ bytes_32 (start_lba e)" "part_length e"]
    by (simp add: entry_bytes_def)
  moreover have "?bs ! length pre = bootable e" "?bs ! (length pre + 1) = start_head e" "?bs ! (length pre + 4) = partition_id e"
    "?bs ! (length pre + 5) = end_head e"
    by (simp_all add: entry_bytes_def nth_append bytes_16_def)
  ultimately show ?thesis by (simp add: entry_at_def)
qed

definition mbr_wf :: "MasterBootRecord \<Rightarrow> bool" where
  "mbr_wf m \<longleftrightarrow> length (bootloader m) = 440 \<and> length (primaryPartition m) = 4"

lemma four_entries: "length xs = 4 \<Longrightarrow> \<exists>a b c d. xs = [a, b, c, d]"
  by (auto simp: numeral_eq_Suc length_Suc_conv)

lemma length_mbr_bytes: "mbr_wf m \<Longrightarrow> length (mbr_bytes m) = 512"
  by (auto simp: mbr_wf_def mbr_bytes_def dest!: four_entries)

lemma mbr_roundtrip:
  assumes "mbr_wf m"
  shows "mbr_at (mbr_bytes m) = m"
proof -
  obtain e0 e1 e2 e3 where es: "primaryPartition m = [e0, e1, e2, e3]"
    using assms four_entries [of "primaryPartition m"] by (auto simp: mbr_wf_def)
  have bl: "length (bootloader m) = 440" using assms by (simp add: mbr_wf_def)
  let ?h = "bootloader m @ bytes_32 (signature m) @ bytes_16 (unused m)"
  let ?t = "bytes_16 (magicnumber m)"
  have bs: "mbr_bytes m = ?h @ entry_bytes e0 @ entry_bytes e1 @ entry_bytes e2 @ entry_bytes e3 @ ?t"
    by (simp add: mbr_bytes_def es)
  have "entry_at (mbr_bytes m) 446 = e0" "entry_at (mbr_bytes m) 462 = e1" "entry_at (mbr_bytes m) 478 = e2"
    "entry_at (mbr_bytes m) 494 = e3"
    using entry_at_bytes [of ?h e0] entry_at_bytes [of "?h @ entry_bytes e0" e1] entry_at_bytes [of "?h @ entry_bytes e0 @ entry_bytes e1" e2]
      entry_at_bytes [of "?h @ entry_bytes e0 @ entry_bytes e1 @ entry_bytes e2" e3]
    by (simp_all add: bs bl)
  moreover have "ld_32 (mbr_bytes m) 440 = signature m" "ld_16 (mbr_bytes m) 444 = unused m"
    using ld_bytes(2) [of "bootloader m" "signature m"] ld_bytes(1) [of "bootloader m @ bytes_32 (signature m)" "unused m"]
    by (simp_all add: bs bl)
  moreover have "ld_16 (mbr_bytes m) 510 = magicnumber m"
    using ld_bytes(1) [of "?h @ entry_bytes e0 @ entry_bytes e1 @ entry_bytes e2 @ entry_bytes e3" "magicnumber m" "[]"] by (simp add: bs bl)
  moreover have "take 440 (mbr_bytes m) = bootloader m" using bl by (simp add: bs)
  moreover have "[0..<4] = [0, 1, 2, 3 :: nat]" by (simp add: upt_rec)
  ultimately show ?thesis by (simp add: mbr_at_def es)
qed

subsection \<open>What is mounted\<close>

text \<open>The table's slots: a mounted partition is driven by the FatFs drive of its number and lies inside the disk.\<close>

definition mounted_ok :: "u32 \<Rightarrow> part_table \<Rightarrow> nat \<Rightarrow> wrapper \<Rightarrow> bool" where
  "mounted_ok tot s i w \<longleftrightarrow> i < 2 \<and> unat (w_pdrv w) = i \<and> 0 < unat (partitionSize w) \<and>
     unat (partitionOffset w) + unat (partitionSize w) \<le> unat tot \<and> g_part s ! i = (partitionOffset w, partitionSize w)"

definition table_ok :: "u32 \<Rightarrow> part_table \<Rightarrow> bool" where
  "table_ok tot s \<longleftrightarrow> length (partitions s) = 4 \<and> length (g_part s) = 2 \<and> unat (partitionsCounter s) \<le> 2 \<and>
     (\<forall>i<4. case partitions s ! i of None \<Rightarrow> unat (partitionsCounter s) \<le> i
            | Some w \<Rightarrow> i < unat (partitionsCounter s) \<and> mounted_ok tot s i w)"

lemma bad_extent_iff:
  "\<not> bad_extent tot e \<longleftrightarrow> 0 < unat (part_length e) \<and> unat (start_lba e) + unat (part_length e) \<le> unat tot"
proof (cases "tot \<le> start_lba e")
  case True
  then have "unat tot \<le> unat (start_lba e)" by (simp add: word_le_nat_alt)
  then have "\<not> (0 < unat (part_length e) \<and> unat (start_lba e) + unat (part_length e) \<le> unat tot)" by linarith
  with True show ?thesis by (simp add: bad_extent_def)
next
  case False
  then have "unat (tot - start_lba e) = unat tot - unat (start_lba e)" by (intro unat_sub) simp
  with False show ?thesis by (auto simp: bad_extent_def word_le_nat_alt word_less_nat_alt unat_gt_0)
qed

lemma mount_one:
  assumes ok: "table_ok tot s" and c: "\<not> 2 \<le> partitionsCounter s" and e: "\<not> bad_extent tot e"
    and w: "FatFsWrapper fops (start_lba e) (ucast (partitionsCounter s)) (part_length e) s = (w, s')"
  shows "table_ok tot (s'\<lparr>partitions := (partitions s')[unat (partitionsCounter s') := Some w], partitionsCounter := partitionsCounter s' + 1\<rparr>)"
proof -
  have cn: "unat (partitionsCounter s) < 2" using c by (simp add: word_le_nat_alt)
  have pd: "unat (ucast (partitionsCounter s) :: u8) = unat (partitionsCounter s)"
    using cn by (simp add: take_bit_nat_eq_self unsigned_ucast_eq)
  then have nv: "\<not> FF_VOLUMES \<le> (ucast (partitionsCounter s) :: u8)" using cn by (simp add: word_le_nat_alt)
  have inc: "unat (partitionsCounter s + 1) = Suc (unat (partitionsCounter s))" using cn by (intro unat_inc) simp
  obtain r where s': "s' = s\<lparr>g_part := (g_part s)[unat (partitionsCounter s) := (start_lba e, part_length e)], mount_result := r\<rparr>"
    and wd: "w = \<lparr>partitionOffset = start_lba e, w_pdrv = ucast (partitionsCounter s), partitionSize = part_length e\<rparr>"
    using w nv pd by (auto simp: FatFsWrapper_def bind_drive_def Let_def)
  let ?n = "unat (partitionsCounter s)"
  define s2 where "s2 = s'\<lparr>partitions := (partitions s')[unat (partitionsCounter s') := Some w], partitionsCounter := partitionsCounter s' + 1\<rparr>"
  have f: "partitions s2 = (partitions s)[?n := Some w]" "unat (partitionsCounter s2) = Suc ?n"
    "g_part s2 = (g_part s)[?n := (start_lba e, part_length e)]"
    using inc by (simp_all add: s2_def s')
  have "case partitions s2 ! i of None \<Rightarrow> Suc ?n \<le> i | Some w' \<Rightarrow> i < Suc ?n \<and> mounted_ok tot s2 i w'" if "i < 4" for i
  proof (cases "i = ?n")
    case True
    with ok cn e show ?thesis by (simp add: table_ok_def bad_extent_iff mounted_ok_def wd pd f)
  next
    case False
    have "case partitions s ! i of None \<Rightarrow> ?n \<le> i | Some w \<Rightarrow> i < ?n \<and> mounted_ok tot s i w"
      using ok that by (simp add: table_ok_def)
    with False show ?thesis by (auto simp: mounted_ok_def f split: option.splits)
  qed
  moreover have "length (partitions s2) = 4" "length (g_part s2) = 2" using ok by (simp_all add: f table_ok_def)
  ultimately have "table_ok tot s2" using cn unfolding table_ok_def f(2) by simp
  then show ?thesis by (simp add: s2_def)
qed

lemma mount_entries_ok:
  assumes "table_ok tot s"
  shows "table_ok tot (mount_entries fops tot es s)"
  using assms
proof (induction es arbitrary: s)
  case (Cons e es)
  obtain w s' where w: "FatFsWrapper fops (start_lba e) (ucast (partitionsCounter s)) (part_length e) s = (w, s')" by fastforce
  show ?case
  proof (cases "\<not> bad_extent tot e \<and> \<not> 2 \<le> partitionsCounter s")
    case True
    with mount_one [OF Cons.prems _ _ w] Cons show ?thesis by (simp add: w)
  qed (use Cons in auto)
qed simp

lemma unmount_all_frame:
  "ata_dev (unmount_all fops is s) = ata_dev s" "g_part (unmount_all fops is s) = g_part s"
  "length (partitions (unmount_all fops is s)) = length (partitions s)"
  "mount_result (unmount_all fops is s) = mount_result s"
  by (induction "is" arbitrary: s) (auto split: option.split)

lemma unmount_all_None:
  "i < length (partitions s) \<Longrightarrow> i \<in> set is \<or> partitions s ! i = None \<Longrightarrow> partitions (unmount_all fops is s) ! i = None"
proof (induction "is" arbitrary: s)
  case (Cons a "is")
  have "(partitions s)[a := None] ! i = None" if "partitions s ! i = None" using that by (cases "a = i") (use Cons.prems in auto)
  with Cons show ?case by (auto split: option.split)
qed simp

lemma unmount_all_empty:
  assumes "length (partitions s) = 4"
  shows "partitions (unmount_all fops [0..<4] s) = replicate 4 None"
  using assms by (intro nth_equalityI) (simp_all add: unmount_all_frame unmount_all_None)

text \<open>The table after the reset at the start of \<^verbatim>\<open>ReadPartitions\<close>.\<close>

abbreviation reset_table :: "fatfs_ops \<Rightarrow> part_table \<Rightarrow> part_table" where
  "reset_table fops s \<equiv> (unmount_all fops [0..<4] s)\<lparr>partitionsCounter := 0\<rparr>"

lemma reset_table_ok:
  assumes "length (partitions s) = 4" "length (g_part s) = 2"
  shows "table_ok tot (reset_table fops s)"
  using assms by (auto simp: table_ok_def unmount_all_frame unmount_all_empty)

lemma ReadPartitions_ok:
  assumes "length (partitions s) = 4" "length (g_part s) = 2"
  shows "table_ok (GetSizeInSectors (ata_dev s)) (ReadPartitions fops s)"
  using reset_table_ok [OF assms] mount_entries_ok [OF reset_table_ok [OF assms]]
  by (simp add: ReadPartitions_def Let_def unmount_all_frame)

subsection \<open>Properties\<close>

text \<open>FatFs formats and unmounts a volume through its drive only, so it writes inside the partition bound to it.\<close>

definition stays_inside :: "u32 \<Rightarrow> u32 \<Rightarrow> ata \<Rightarrow> ata \<Rightarrow> bool" where
  "stays_inside start len dk dk' \<longleftrightarrow> ata_rd_err dk' = ata_rd_err dk \<and> ata_wr_err dk' = ata_wr_err dk \<and> ata_flush_err dk' = ata_flush_err dk \<and>
     (\<forall>n. \<not> (unat start \<le> unat n \<and> unat n < unat start + unat len) \<longrightarrow> ata_sectors dk' n = ata_sectors dk n)"

definition confined :: "fatfs_ops \<Rightarrow> bool" where
  "confined fops \<longleftrightarrow> (\<forall>pd p dk. stays_inside (fst p) (snd p) dk (snd (f_mkfs fops pd p dk))) \<and>
     (\<forall>w dk. stays_inside (partitionOffset w) (partitionSize w) dk (f_unmount fops w dk))"

text \<open>
  Property C25. Whatever the first sector of the disk contains, \<^verbatim>\<open>ReadPartitions\<close> mounts at most two
  partitions, one per FatFs drive and in order from slot 0; each one is non-empty and lies inside
  the device, and the disk interface of its drive is bound to exactly that extent.
\<close>

theorem ReadPartitions_in_bounds:
  assumes "length (partitions s) = 4" "length (g_part s) = 2" "i < 4" "partitions (ReadPartitions fops s) ! i = Some w"
  shows "i < 2 \<and> unat (w_pdrv w) = i \<and> 0 < unat (partitionSize w) \<and>
    unat (partitionOffset w) + unat (partitionSize w) \<le> unat (GetSizeInSectors (ata_dev s)) \<and>
    g_part (ReadPartitions fops s) ! i = (partitionOffset w, partitionSize w)"
proof -
  have "case partitions (ReadPartitions fops s) ! i of None \<Rightarrow> unat (partitionsCounter (ReadPartitions fops s)) \<le> i
      | Some w \<Rightarrow> i < unat (partitionsCounter (ReadPartitions fops s)) \<and> mounted_ok (GetSizeInSectors (ata_dev s)) (ReadPartitions fops s) i w"
    using ReadPartitions_ok [OF assms(1,2), of fops] assms(3) unfolding table_ok_def by blast
  then show ?thesis by (simp add: assms(4) mounted_ok_def)
qed

text \<open>
  Property C30. What is refused leaves no trace: \<^verbatim>\<open>ReadPartitions\<close> mounts nothing when the drive
  is unidentified or has at most 63 sectors or the first sector lacks the signature 0xAA55 (also when it
  cannot be read), after unmounting what was mounted, and never writes a partition table; and
  \<^verbatim>\<open>Initialize\<close> changes nothing on a packet device or on a disk of fewer than 319 sectors.
\<close>

theorem partition_table_rejects:
  assumes "length (partitions s) = 4"
  shows "(GetSizeInSectors (ata_dev s) \<le> 63 \<or>
      magicnumber (mbr_at (Fat_Volume.Read28 (disk (unmount_all fops [0..<4] s)) 0 (mbr_bytes zero_mbr))) \<noteq> 0xAA55 \<longrightarrow>
      partitions (ReadPartitions fops s) = replicate 4 None \<and> partitionsCounter (ReadPartitions fops s) = 0 \<and>
      disk (ReadPartitions fops s) = disk (unmount_all fops [0..<4] s) \<and> g_part (ReadPartitions fops s) = g_part s) \<and>
    (isAtapi (ata_dev s) \<or> unat (GetSizeInSectors (ata_dev s)) < 319 \<longrightarrow> Initialize fops s = s)"
proof (intro conjI impI)
  assume small: "isAtapi (ata_dev s) \<or> unat (GetSizeInSectors (ata_dev s)) < 319"
  let ?t = "GetSizeInSectors (ata_dev s)"
  have "(?t - 63) div 2 < 128" if "unat ?t < 319" "\<not> ?t \<le> 63"
  proof -
    have "unat (?t - 63) = unat ?t - 63" using that(2) by (subst unat_sub) auto
    with that(1) have "unat ((?t - 63) div 2) < 128" by (simp add: unat_div)
    then show ?thesis by (simp add: word_less_nat_alt)
  qed
  with small show "Initialize fops s = s" by (auto simp: Initialize_def Let_def)
qed (use unmount_all_empty [OF assms, of fops] in \<open>auto simp: ReadPartitions_def Let_def unmount_all_frame\<close>)

text \<open>The two halves of a disk of \<open>t\<close> sectors, as words and as numbers.\<close>

lemma split_sizes:
  assumes "319 \<le> unat (t :: u32)"
  defines "p1 \<equiv> (t - 63) div 2"
  defines "p2 \<equiv> t - 63 - p1"
  shows "unat p1 = (unat t - 63) div 2" "unat p2 = unat t - 63 - (unat t - 63) div 2" "unat (63 + p1) = 63 + (unat t - 63) div 2"
    "\<not> t - 63 < 2" "\<not> (p1 < 128 \<or> p2 < 128)" "\<not> t \<le> 63"
proof -
  have le: "63 \<le> t" using assms(1) by (simp add: word_le_nat_alt)
  have a: "unat (t - 63) = unat t - 63" using le by (subst unat_sub) auto
  show 1: "unat p1 = (unat t - 63) div 2" by (simp add: p1_def unat_div a)
  have "p1 \<le> t - 63" by (simp add: word_le_nat_alt 1 a)
  then show 2: "unat p2 = unat t - 63 - (unat t - 63) div 2" using 1 a by (simp add: p2_def unat_sub)
  have "unat t < 2 ^ 32" by (rule unat_u32_bound)
  then show "unat (63 + p1) = 63 + (unat t - 63) div 2" using 1 assms(1) by (subst unat_add_small) auto
  show "\<not> t - 63 < 2" "\<not> t \<le> 63" using a assms(1) by (simp_all add: word_less_nat_alt word_le_nat_alt)
  have "128 \<le> (unat t - 63) div 2" "128 \<le> unat t - 63 - (unat t - 63) div 2" using assms(1) by linarith+
  then show "\<not> (p1 < 128 \<or> p2 < 128)" by (simp add: word_less_nat_alt 1 2 not_less)
qed

lemma fresh_mbr_simps:
  "mbr_wf (fresh_mbr a b c d)" "magicnumber (fresh_mbr a b c d) = 0xAA55"
  "primaryPartition (fresh_mbr a b c d) = [zero_entry\<lparr>bootable := 0x80, partition_id := 0x0C, start_lba := a, part_length := b\<rparr>,
     zero_entry\<lparr>partition_id := 0x0C, start_lba := c, part_length := d\<rparr>, zero_entry, zero_entry]"
  by (simp_all add: fresh_mbr_def zero_mbr_def Let_def mbr_wf_def zero_entry_def numeral_eq_Suc)

lemma two_drives: "length xs = 2 \<Longrightarrow> \<exists>a b. xs = [a, b]"
  by (auto simp: numeral_eq_Suc length_Suc_conv)

lemma small_words: "\<not> (4 :: u32) \<le> 1" "\<not> (2 :: u32) \<le> 1" "\<not> (2 :: u8) \<le> 1"
  by (simp_all add: word_le_nat_alt)

lemma four_slots: "replicate 4 x = [x, x, x, x]"
  by (simp add: eval_nat_numeral)

text \<open>A disk that \<^verbatim>\<open>Initialize\<close> has prepared: its first sector survives the formatting.\<close>

lemma Initialize_writes_mbr:
  fixes s :: part_table
  defines "t \<equiv> GetSizeInSectors (ata_dev s)"
  defines "p1 \<equiv> (t - 63) div 2"
  defines "p2 \<equiv> t - 63 - p1"
  assumes fops: "confined fops"
    and t: "319 \<le> unat t" "\<not> isAtapi (ata_dev s)"
    and dk: "\<not> ata_wr_err (disk s) 0" "\<not> ata_flush_err (disk s)"
  shows "ata_sectors (disk (Initialize fops s)) 0 = mbr_bytes (fresh_mbr 63 p1 (63 + p1) p2) \<and>
    ata_rd_err (disk (Initialize fops s)) = ata_rd_err (disk s) \<and> ata_dev (Initialize fops s) = ata_dev s \<and>
    partitions (Initialize fops s) = partitions s \<and> length (g_part (Initialize fops s)) = length (g_part s)"
proof -
  note sz = split_sizes [OF t(1), folded p1_def, folded p2_def]
  define d1 where "d1 = (disk s)\<lparr>ata_sectors := (ata_sectors (disk s))(0 := mbr_bytes (fresh_mbr 63 p1 (63 + p1) p2))\<rparr>"
  obtain res d2 where mk: "f_mkfs fops 0 (63, p1) d1 = (res, d2)" by fastforce
  define d3 where "d3 = (if res = FR_OK then snd (f_mkfs fops 1 (63 + p1, p2) d2) else d2)"
  have "Fat_Volume.Write28 (disk s) 0 (mbr_bytes (fresh_mbr 63 p1 (63 + p1) p2)) = (True, d1)"
    using dk by (simp add: Fat_Volume.Write28_def d1_def)
  then have "disk (Initialize fops s) = d3 \<and> ata_dev (Initialize fops s) = ata_dev s \<and> partitions (Initialize fops s) = partitions s \<and>
      length (g_part (Initialize fops s)) = length (g_part s)"
    unfolding Initialize_def Let_def t_def [symmetric] p1_def [symmetric] p2_def [symmetric]
    using t(2) sz mk by (auto simp: bind_drive_def d3_def split: prod.splits)
  moreover have "stays_inside 63 p1 d1 d2" using fops mk unfolding confined_def by (metis fst_conv snd_conv)
  moreover have "stays_inside (63 + p1) p2 d2 d3"
    using fops unfolding confined_def d3_def by (cases "res = FR_OK") (simp_all add: stays_inside_def)
  ultimately show ?thesis by (simp add: stays_inside_def sz d1_def)
qed

text \<open>
  Property C23. Partitioning round trip: on an identified disk of at least 319 sectors whose
  first sector can be written and read, \<^verbatim>\<open>Initialize\<close> followed by \<^verbatim>\<open>ReadPartitions\<close> enters exactly two
  partitions into the table, the first from sector 63 with half of the remaining sectors and the second right after it
  up to the last sector of the disk, and binds the two FatFs drives to them. Formatting may succeed or fail (FatFs refuses small
  volumes); it is only assumed to write inside the partition it is given, as is unmounting.
\<close>

theorem Initialize_ReadPartitions:
  fixes s :: part_table
  defines "t \<equiv> GetSizeInSectors (ata_dev s)"
  defines "p1 \<equiv> (t - 63) div 2"
  defines "p2 \<equiv> t - 63 - p1"
  assumes fops: "confined fops"
    and t: "319 \<le> unat t" "\<not> isAtapi (ata_dev s)"
    and dk: "\<not> ata_rd_err (disk s) 0" "\<not> ata_wr_err (disk s) 0" "\<not> ata_flush_err (disk s)"
    and s: "partitions s = replicate 4 None" "length (g_part s) = 2"
  defines "s' \<equiv> ReadPartitions fops (Initialize fops s)"
  shows "partitions s' = [Some \<lparr>partitionOffset = 63, w_pdrv = 0, partitionSize = p1\<rparr>,
      Some \<lparr>partitionOffset = 63 + p1, w_pdrv = 1, partitionSize = p2\<rparr>, None, None] \<and>
    g_part s' = [(63, p1), (63 + p1, p2)] \<and> partitionsCounter s' = 2 \<and>
    unat (63 + p1) = 63 + unat p1 \<and> unat (63 + p1) + unat p2 = unat t"
proof -
  let ?s = "Initialize fops s"
  note i = Initialize_writes_mbr [where s = s, folded t_def, folded p1_def, folded p2_def, OF fops t dk(2,3)]
  note sz = split_sizes [OF t(1), folded p1_def, folded p2_def]
  have um: "unmount_all fops [0..<4] ?s = ?s" using i s by (simp add: upt_rec)
  have "Fat_Volume.Read28 (disk ?s) 0 (mbr_bytes zero_mbr) = mbr_bytes (fresh_mbr 63 p1 (63 + p1) p2)"
    using i dk(1) by (simp add: Fat_Volume.Read28_def)
  then have "s' = mount_entries fops t (primaryPartition (fresh_mbr 63 p1 (63 + p1) p2)) (?s\<lparr>partitionsCounter := 0\<rparr>)"
    using i sz(6) by (auto simp: s'_def ReadPartitions_def Let_def um mbr_roundtrip fresh_mbr_simps t_def)
  moreover have "\<not> bad_extent t (zero_entry\<lparr>bootable := 0x80, partition_id := 0x0C, start_lba := 63, part_length := p1\<rparr>)"
    "\<not> bad_extent t (zero_entry\<lparr>partition_id := 0x0C, start_lba := 63 + p1, part_length := p2\<rparr>)"
    using sz(1-3) t(1) by (simp_all add: bad_extent_iff)
  moreover have "length (g_part ?s) = 2" "partitions ?s = replicate 4 None" using i s by auto
  moreover from two_drives [OF this(1)] obtain a b where "g_part ?s = [a, b]" by blast
  ultimately have "partitions s' = [Some \<lparr>partitionOffset = 63, w_pdrv = 0, partitionSize = p1\<rparr>,
      Some \<lparr>partitionOffset = 63 + p1, w_pdrv = 1, partitionSize = p2\<rparr>, None, None]"
    "g_part s' = [(63, p1), (63 + p1, p2)]" "partitionsCounter s' = 2"
    by (simp_all add: fresh_mbr_simps FatFsWrapper_def bind_drive_def Let_def zero_entry_def four_slots small_words)
  with sz(1-3) t(1) show ?thesis by simp
qed

text \<open>A drive of 1000 sectors and a FatFs that writes nothing.\<close>

definition idle_fatfs :: fatfs_ops where
  "idle_fatfs = \<lparr>f_mkfs = (\<lambda>_ _ dk. (FR_OK, dk)), f_mount = (\<lambda>_ _. FR_OK), f_unmount = (\<lambda>_ dk. dk)\<rparr>"

definition sample_table :: part_table where
  "sample_table = \<lparr>ata_dev = (AdvancedTechnologyAttachment 1000 True 0x1F0), disk = sample_disk, g_part = [(0, 0), (0, 0)],
     partitions = replicate 4 None, partitionsCounter = 0, mount_result = FR_OK\<rparr>"

lemma idle_fatfs_confined: "confined idle_fatfs"
  by (simp add: confined_def idle_fatfs_def stays_inside_def)

lemma sample_table_size: "GetSizeInSectors (ata_dev sample_table) = 1000"
  by (simp add: sample_table_def AdvancedTechnologyAttachment_def GetSizeInSectors_def)

theorem Initialize_ReadPartitions_witness:
  "partitions (ReadPartitions idle_fatfs (Initialize idle_fatfs sample_table)) =
     [Some \<lparr>partitionOffset = 63, w_pdrv = 0, partitionSize = 468\<rparr>, Some \<lparr>partitionOffset = 531, w_pdrv = 1, partitionSize = 469\<rparr>, None, None]"
proof -
  have "319 \<le> unat (GetSizeInSectors (ata_dev sample_table))" by (simp add: sample_table_size)
  then show ?thesis
    using Initialize_ReadPartitions [of idle_fatfs sample_table, OF idle_fatfs_confined]
    by (simp add: sample_table_size) (simp add: sample_table_def sample_disk_def AdvancedTechnologyAttachment_def)
qed

definition sample_formatted :: part_table where
  "sample_formatted = sample_table\<lparr>disk := sample_disk\<lparr>ata_sectors := (\<lambda>_. mbr_bytes (fresh_mbr 63 400 463 400))\<rparr>\<rparr>"

lemma sample_formatted_mounts:
  "partitions (ReadPartitions idle_fatfs sample_formatted) ! 1 = Some \<lparr>partitionOffset = 463, w_pdrv = 1, partitionSize = 400\<rparr>"
proof -
  have um: "unmount_all idle_fatfs [0..<4] sample_formatted = sample_formatted"
    by (simp add: upt_rec sample_formatted_def sample_table_def)
  have "Fat_Volume.Read28 (disk sample_formatted) 0 (mbr_bytes zero_mbr) = mbr_bytes (fresh_mbr 63 400 463 400)"
    by (simp add: Fat_Volume.Read28_def sample_formatted_def sample_disk_def)
  moreover have "GetSizeInSectors (ata_dev sample_formatted) = 1000" using sample_table_size by (simp add: sample_formatted_def)
  ultimately show ?thesis
    by (simp add: ReadPartitions_def um Let_def mbr_roundtrip fresh_mbr_simps zero_entry_def bad_extent_def FatFsWrapper_def bind_drive_def small_words)
      (simp add: sample_formatted_def sample_table_def four_slots)
qed

theorem ReadPartitions_in_bounds_witness:
  "unat (463 :: u32) + unat (400 :: u32) \<le> unat (GetSizeInSectors (ata_dev sample_formatted))"
proof -
  have "length (partitions sample_formatted) = 4" "length (g_part sample_formatted) = 2" "(1 :: nat) < 4"
    by (simp_all add: sample_formatted_def sample_table_def)
  from ReadPartitions_in_bounds [OF this sample_formatted_mounts] show ?thesis by simp
qed

theorem partition_table_rejects_witness:
  "partitions (ReadPartitions idle_fatfs sample_table) = replicate 4 None"
proof -
  have "unmount_all idle_fatfs [0..<4] sample_table = sample_table" by (simp add: upt_rec sample_table_def)
  moreover have "magicnumber (mbr_at (Fat_Volume.Read28 (disk sample_table) 0 (mbr_bytes zero_mbr))) \<noteq> 0xAA55"
    by (simp add: Fat_Volume.Read28_def sample_table_def sample_disk_def mbr_at_def ld_16_def)
  moreover have "length (partitions sample_table) = 4" by (simp add: sample_table_def)
  ultimately show ?thesis using partition_table_rejects [of sample_table idle_fatfs] by simp
qed

end
