(* ===== verification/Bitmap.thy ===== *)
theory Bitmap
  imports Prelude
begin

text \<open>
  Allocation bitmaps. Both the physical memory manager (\<^verbatim>\<open>core/pmm.cpp\<close>) and the kernel
  stack zone (\<^verbatim>\<open>core/kstack.cpp\<close>) keep one bit per resource in an array of 32-bit words.
  This theory holds the word-array operations the two share, and the locale
  \<open>slot_set\<close>: the interface of such a bitmap, whose clients see a finite set of used
  slots and nothing of the words.
\<close>

subsection \<open>Bits in an array of words\<close>

definition bm_test :: "u32 list \<Rightarrow> nat \<Rightarrow> bool" where
  "bm_test ws b \<longleftrightarrow> ws ! (b div 32) AND push_bit (b mod 32) 1 \<noteq> 0"

definition bm_set :: "u32 list \<Rightarrow> nat \<Rightarrow> u32 list" where
  "bm_set ws b = ws[b div 32 := ws ! (b div 32) OR push_bit (b mod 32) 1]"

definition bm_clear :: "u32 list \<Rightarrow> nat \<Rightarrow> u32 list" where
  "bm_clear ws b = ws[b div 32 := ws ! (b div 32) AND NOT (push_bit (b mod 32) 1)]"

lemma length_bm_set [simp]: "length (bm_set ws b) = length ws"
  by (simp add: bm_set_def)

lemma length_bm_clear [simp]: "length (bm_clear ws b) = length ws"
  by (simp add: bm_clear_def)

lemma bm_test_bit: "bm_test ws b \<longleftrightarrow> bit (ws ! (b div 32)) (b mod 32)"
  by (simp add: bm_test_def)

lemma div_mod_32_eq: "a div 32 = b div 32 \<Longrightarrow> a mod 32 = b mod 32 \<Longrightarrow> a = (b :: nat)"
  by (metis mult_div_mod_eq)

lemma bm_test_set:
  "b < 32 * length ws \<Longrightarrow> bm_test (bm_set ws b) c \<longleftrightarrow> b = c \<or> bm_test ws c"
  by (auto simp: bm_test_bit bm_set_def nth_list_update bit_set_iff less_mult_imp_div_less
      mult.commute dest: div_mod_32_eq)

lemma bm_test_clear:
  "b < 32 * length ws \<Longrightarrow> bm_test (bm_clear ws b) c \<longleftrightarrow> b \<noteq> c \<and> bm_test ws c"
  by (auto simp: bm_test_bit bm_clear_def nth_list_update bit_clear_iff less_mult_imp_div_less
      mult.commute dest: div_mod_32_eq)

text \<open>A word of all ones is the fast path of every search: its 32 slots are taken.\<close>

lemma bm_test_full_word:
  assumes "ws ! i = 0xffffffff" and "32 * i \<le> b" and "b < 32 * i + 32"
  shows "bm_test ws b"
proof -
  from assms(2,3) have "b div 32 = i" by simp
  with assms(1) show ?thesis by (simp add: bm_test_bit all_ones_iff)
qed

lemma bm_test_word:
  "j < 32 \<Longrightarrow> bm_test ws (32 * i + j) \<longleftrightarrow> bit (ws ! i) j"
  by (simp add: bm_test_bit)

subsection \<open>Searching for the first free slot\<close>

text \<open>
  Both allocators scan the words from the lowest up, skip full words, and look at the bits
  of the others. \<open>first_free_in enc U lo hi r\<close>: the result \<open>r\<close> encodes (with \<open>enc\<close>) the least
  slot of \<open>[lo, hi)\<close> outside the used set \<open>U\<close>, or that there is none.
\<close>

definition first_free_in :: "(nat option \<Rightarrow> 'r) \<Rightarrow> nat set \<Rightarrow> nat \<Rightarrow> nat \<Rightarrow> 'r \<Rightarrow> bool" where
  "first_free_in enc U lo hi r \<longleftrightarrow>
     (if {lo..<hi} \<subseteq> U then r = enc None
      else \<exists>b. r = enc (Some b) \<and> b \<in> {lo..<hi} - U \<and> {lo..<b} \<subseteq> U)"

lemma first_free_in_here:
  "lo < hi \<Longrightarrow> lo \<notin> U \<Longrightarrow> first_free_in enc U lo hi (enc (Some lo))"
  by (auto simp: first_free_in_def)

lemma first_free_in_skip:
  assumes "{lo..<mid} \<subseteq> U" and "lo \<le> mid" and "first_free_in enc U mid hi r"
  shows "first_free_in enc U lo hi r"
proof -
  have "{lo..<b} \<subseteq> U \<longleftrightarrow> {mid..<b} \<subseteq> U" for b
    using assms(1,2) by (fastforce simp: subset_iff not_le)
  with assms(3) assms(2) show ?thesis by (auto simp: first_free_in_def split: if_splits)
qed

lemma first_free_in_end: "hi \<le> lo \<Longrightarrow> first_free_in enc U lo hi (enc None)"
  by (simp add: first_free_in_def)

text \<open>
  What an inner loop over \<open>[lo, mid)\<close> tells its caller: it found the first free slot below
  \<open>hi\<close>, or everything it looked at is used.
\<close>

definition scan_ok :: "(nat option \<Rightarrow> 'r) \<Rightarrow> nat set \<Rightarrow> nat \<Rightarrow> nat \<Rightarrow> nat \<Rightarrow> 'r option \<Rightarrow> bool" where
  "scan_ok enc U lo mid hi res \<longleftrightarrow>
     (case res of None \<Rightarrow> {lo..<mid} \<subseteq> U | Some r \<Rightarrow> first_free_in enc U lo hi r)"

lemma scan_ok_step:
  assumes "lo \<in> U" and "scan_ok enc U (Suc lo) mid hi res"
  shows "scan_ok enc U lo mid hi res"
proof (cases res)
  case None
  have "{lo..<mid} \<subseteq> insert lo {Suc lo..<mid}" by auto
  with assms None show ?thesis by (auto simp: scan_ok_def)
next
  case (Some r)
  have "{lo..<Suc lo} \<subseteq> U" using assms(1) by simp
  moreover from assms(2) Some have "first_free_in enc U (Suc lo) hi r" by (simp add: scan_ok_def)
  ultimately have "first_free_in enc U lo hi r" using first_free_in_skip [of lo "Suc lo" U enc hi r] by simp
  with Some show ?thesis by (simp add: scan_ok_def)
qed

lemma scan_ok_stop: "hi \<le> lo \<Longrightarrow> scan_ok enc U lo mid hi (Some (enc None))"
  by (simp add: scan_ok_def first_free_in_end)

lemma scan_ok_empty: "mid \<le> lo \<Longrightarrow> scan_ok enc U lo mid hi None"
  by (simp add: scan_ok_def)

lemma scan_ok_next_word:
  assumes "scan_ok enc U (i * 32) (min (i * 32 + 32) m) m None"
    and "first_free_in enc U (Suc i * 32) m r"
  shows "first_free_in enc U (i * 32) m r"
proof (cases "Suc i * 32 \<le> m")
  case True
  with assms(1) have "{i * 32..<Suc i * 32} \<subseteq> U" by (simp add: scan_ok_def add.commute)
  then show ?thesis by (rule first_free_in_skip [OF _ _ assms(2)]) simp
next
  case False
  with assms show ?thesis by (auto simp: first_free_in_def scan_ok_def split: if_splits)
qed

subsection \<open>The interface: a finite set of slots\<close>

text \<open>
  \<open>used s\<close> is the abstract value of a bitmap \<open>s\<close>; \<open>ok\<close> its representation invariant;
  \<open>cap\<close> the number of slots. A provider promises that \<open>test\<close>, \<open>mark\<close> and \<open>unmark\<close>
  are membership, insertion and deletion.
\<close>

locale slot_set =
  fixes test :: "'s \<Rightarrow> nat \<Rightarrow> bool"
    and mark :: "'s \<Rightarrow> nat \<Rightarrow> 's"
    and unmark :: "'s \<Rightarrow> nat \<Rightarrow> 's"
    and cap :: "'s \<Rightarrow> nat"
    and used :: "'s \<Rightarrow> nat set"
    and ok :: "'s \<Rightarrow> bool"
  assumes used_cap: "ok s \<Longrightarrow> used s \<subseteq> {..<cap s}"
    and test_used: "ok s \<Longrightarrow> i < cap s \<Longrightarrow> test s i \<longleftrightarrow> i \<in> used s"
    and used_mark: "ok s \<Longrightarrow> i < cap s \<Longrightarrow> used (mark s i) = insert i (used s)"
    and used_unmark: "ok s \<Longrightarrow> i < cap s \<Longrightarrow> used (unmark s i) = used s - {i}"
    and cap_mark: "cap (mark s i) = cap s"
    and cap_unmark: "cap (unmark s i) = cap s"
    and ok_mark: "ok s \<Longrightarrow> ok (mark s i)"
    and ok_unmark: "ok s \<Longrightarrow> ok (unmark s i)"
begin

lemma finite_used: "ok s \<Longrightarrow> finite (used s)"
  using used_cap finite_subset by blast

lemma card_used_le: "ok s \<Longrightarrow> card (used s) \<le> cap s"
  using card_mono [OF _ used_cap] by fastforce

lemma card_mark_free:
  "ok s \<Longrightarrow> i < cap s \<Longrightarrow> \<not> test s i \<Longrightarrow> card (used (mark s i)) = Suc (card (used s))"
  by (simp add: used_mark test_used finite_used)

lemma card_unmark_used:
  "ok s \<Longrightarrow> i < cap s \<Longrightarrow> test s i \<Longrightarrow> Suc (card (used (unmark s i))) = card (used s)"
  by (simp add: used_unmark test_used finite_used card_gt_0_iff) (metis Suc_pred card_gt_0_iff
      emptyE finite_used)

lemma unmark_mark: "ok s \<Longrightarrow> i < cap s \<Longrightarrow> \<not> test s i \<Longrightarrow> used (unmark (mark s i) i) = used s"
  by (simp add: used_mark used_unmark test_used cap_mark ok_mark)

lemma free_slot_exists: "ok s \<Longrightarrow> card (used s) < cap s \<Longrightarrow> \<exists>i<cap s. \<not> test s i"
proof (rule ccontr)
  assume ok: "ok s" and lt: "card (used s) < cap s" and "\<not> (\<exists>i<cap s. \<not> test s i)"
  then have "\<forall>i<cap s. i \<in> used s" using test_used [OF ok] by blast
  then have "{..<cap s} \<subseteq> used s" by blast
  then have "card {..<cap s} \<le> card (used s)" by (rule card_mono [OF finite_used [OF ok]])
  with lt show False by simp
qed

lemma used_mark_range:
  "ok s \<Longrightarrow> a + n \<le> cap s \<Longrightarrow>
   used (fold (\<lambda>i s. mark s i) [a..<a + n] s) = used s \<union> {a..<a + n}
   \<and> ok (fold (\<lambda>i s. mark s i) [a..<a + n] s)
   \<and> cap (fold (\<lambda>i s. mark s i) [a..<a + n] s) = cap s"
proof (induction n)
  case (Suc n)
  then have IH: "used (fold (\<lambda>i s. mark s i) [a..<a + n] s) = used s \<union> {a..<a + n}"
    "ok (fold (\<lambda>i s. mark s i) [a..<a + n] s)"
    "cap (fold (\<lambda>i s. mark s i) [a..<a + n] s) = cap s" by auto
  with Suc.prems show ?case
    by (simp add: used_mark ok_mark cap_mark atLeastLessThanSuc)
qed simp

end

end
