(* ===== verification/Pmm.thy ===== *)
theory Pmm
  imports Bitmap
begin

text \<open>
  The physical memory manager, \<^verbatim>\<open>core/pmm.cpp\<close>: one bit per 4 KiB frame, set when the
  frame is used. The record \<open>pmm_info\<close> is the global \<^verbatim>\<open>g_pmm_info\<close>; each operation takes
  it and returns the new one, with the C result first. Addresses are 32-bit words and a
  null result is the address 0. An \<^verbatim>\<open>int\<close> frame number is a word read with \<^term>\<open>sint\<close>,
  and the search loops count with natural numbers below 2^32.
\<close>

subsection \<open>State\<close>

abbreviation PMM_BLOCK_SIZE :: u32 where "PMM_BLOCK_SIZE \<equiv> 4096"

text \<open>
  \<open>memory_map_base\<close> is the pointer \<^verbatim>\<open>memory_map_array\<close> and \<open>memory_map_array\<close> the words it
  points to.
\<close>

record pmm_info =
  memory_size :: u32
  max_blocks :: u32
  memory_map_base :: u32
  memory_map_array :: "u32 list"
  memory_map_end :: u32
  used_blocks :: u32

subsection \<open>Bit operations\<close>

definition bit_in_range :: "pmm_info \<Rightarrow> s32 \<Rightarrow> bool" where
  "bit_in_range p b \<longleftrightarrow> 0 \<le> sint b \<and> sint b < sint (max_blocks p)"

definition pmm_mmap_set :: "pmm_info \<Rightarrow> s32 \<Rightarrow> pmm_info" where
  "pmm_mmap_set p b =
     (if bit_in_range p b then p\<lparr>memory_map_array := bm_set (memory_map_array p) (unat b)\<rparr> else p)"

definition pmm_mmap_unset :: "pmm_info \<Rightarrow> s32 \<Rightarrow> pmm_info" where
  "pmm_mmap_unset p b =
     (if bit_in_range p b then p\<lparr>memory_map_array := bm_clear (memory_map_array p) (unat b)\<rparr> else p)"

definition pmm_mmap_test :: "pmm_info \<Rightarrow> s32 \<Rightarrow> bool" where
  "pmm_mmap_test p b = (if bit_in_range p b then bm_test (memory_map_array p) (unat b) else False)"

definition pmm_get_max_blocks :: "pmm_info \<Rightarrow> u32" where
  "pmm_get_max_blocks p = max_blocks p"

definition pmm_get_used_blocks :: "pmm_info \<Rightarrow> u32" where
  "pmm_get_used_blocks p = used_blocks p"

subsection \<open>Searches\<close>

definition mmap_entries :: "pmm_info \<Rightarrow> nat" where
  "mmap_entries p = unat ((max_blocks p + 31) div 32)"

text \<open>\<^verbatim>\<open>int bit = i * 32 + j;\<close>\<close>

definition bit_index :: "nat \<Rightarrow> nat \<Rightarrow> s32" where
  "bit_index i j = of_nat (i * 32 + j)"

text \<open>The inner loop of \<^verbatim>\<open>pmm_mmap_first_free\<close>: \<open>None\<close> when it breaks or runs out.\<close>

function first_free_bit :: "pmm_info \<Rightarrow> nat \<Rightarrow> nat \<Rightarrow> s32 option" where
  "first_free_bit p i j =
     (if j < 32 then
        let b = bit_index i j in
        if sint (max_blocks p) \<le> sint b then None
        else if memory_map_array p ! i AND push_bit j 1 = 0 then Some b
        else first_free_bit p i (Suc j)
      else None)"
  by pat_completeness auto
termination by (relation "measure (\<lambda>(p, i, j). 32 - j)") auto

function first_free_word :: "pmm_info \<Rightarrow> nat \<Rightarrow> s32" where
  "first_free_word p i =
     (if i < mmap_entries p then
        if memory_map_array p ! i \<noteq> 0xffffffff then
          (case first_free_bit p i 0 of Some b \<Rightarrow> b | None \<Rightarrow> first_free_word p (Suc i))
        else first_free_word p (Suc i)
      else -1)"
  by pat_completeness auto
termination by (relation "measure (\<lambda>(p, i). mmap_entries p - i)") auto

definition pmm_mmap_first_free :: "pmm_info \<Rightarrow> s32" where
  "pmm_mmap_first_free p = first_free_word p 0"

text \<open>
  The inner loop of \<^verbatim>\<open>pmm_mmap_first_free_low\<close> either returns from the function
  (\<open>Some\<close> of the result, which is -1 at the limit) or falls through (\<open>None\<close>).
\<close>

function first_free_low_bit :: "pmm_info \<Rightarrow> u32 \<Rightarrow> nat \<Rightarrow> nat \<Rightarrow> s32 option" where
  "first_free_low_bit p limit_frame i j =
     (if j < 32 then
        let b = bit_index i j in
        if sint limit_frame \<le> sint b then Some (-1)
        else if sint (max_blocks p) \<le> sint b then Some (-1)
        else if memory_map_array p ! i AND push_bit j 1 = 0 then Some b
        else first_free_low_bit p limit_frame i (Suc j)
      else None)"
  by pat_completeness auto
termination by (relation "measure (\<lambda>(p, l, i, j). 32 - j)") auto

function first_free_low_word :: "pmm_info \<Rightarrow> u32 \<Rightarrow> nat \<Rightarrow> s32" where
  "first_free_low_word p limit_frame i =
     (if i < mmap_entries p then
        if limit_frame \<le> of_nat (i * 32) then -1
        else if memory_map_array p ! i \<noteq> 0xffffffff then
          (case first_free_low_bit p limit_frame i 0 of
             Some b \<Rightarrow> b | None \<Rightarrow> first_free_low_word p limit_frame (Suc i))
        else first_free_low_word p limit_frame (Suc i)
      else -1)"
  by pat_completeness auto
termination by (relation "measure (\<lambda>(p, l, i). mmap_entries p - i)") auto

definition pmm_mmap_first_free_low :: "pmm_info \<Rightarrow> u32 \<Rightarrow> s32" where
  "pmm_mmap_first_free_low p limit_frame = first_free_low_word p limit_frame 0"

text \<open>
  \<^verbatim>\<open>pmm_mmap_first_free_by_size\<close> carries the length \<open>fr\<close> of the current free run and its
  start. The inner loop returns from the function (\<open>Inl\<close>) or hands both on (\<open>Inr\<close>).
\<close>

function free_run_bit ::
  "pmm_info \<Rightarrow> u32 \<Rightarrow> nat \<Rightarrow> nat \<Rightarrow> u32 \<Rightarrow> s32 \<Rightarrow> s32 + u32 \<times> s32" where
  "free_run_bit p sz i j fr start_index =
     (if j < 32 then
        let b = bit_index i j in
        if sint (max_blocks p) \<le> sint b then Inl (-1)
        else if \<not> pmm_mmap_test p b then
          let start' = (if fr = 0 then b else start_index); fr' = fr + 1 in
          if fr' = sz then Inl start' else free_run_bit p sz i (Suc j) fr' start'
        else free_run_bit p sz i (Suc j) 0 (-1)
      else Inr (fr, start_index))"
  by pat_completeness auto
termination by (relation "measure (\<lambda>(p, sz, i, j, fr, st). 32 - j)") auto

function free_run_word :: "pmm_info \<Rightarrow> u32 \<Rightarrow> nat \<Rightarrow> u32 \<Rightarrow> s32 \<Rightarrow> s32" where
  "free_run_word p sz i fr start_index =
     (if i < mmap_entries p then
        if memory_map_array p ! i \<noteq> 0xffffffff then
          (case free_run_bit p sz i 0 fr start_index of
             Inl r \<Rightarrow> r
           | Inr (fr', start') \<Rightarrow> free_run_word p sz (Suc i) fr' start')
        else free_run_word p sz (Suc i) 0 (-1)
      else -1)"
  by pat_completeness auto
termination by (relation "measure (\<lambda>(p, sz, i, fr, st). mmap_entries p - i)") auto

definition pmm_mmap_first_free_by_size :: "pmm_info \<Rightarrow> u32 \<Rightarrow> s32" where
  "pmm_mmap_first_free_by_size p sz = (if sz = 0 then -1 else free_run_word p sz 0 0 (-1))"

definition pmm_next_free_frame :: "pmm_info \<Rightarrow> s32 \<Rightarrow> s32" where
  "pmm_next_free_frame p sz = pmm_mmap_first_free_by_size p sz"

declare first_free_bit.simps [simp del] first_free_word.simps [simp del]
  first_free_low_bit.simps [simp del] first_free_low_word.simps [simp del]
  free_run_bit.simps [simp del] free_run_word.simps [simp del]

subsection \<open>Initialisation and regions\<close>

text \<open>
  \<^verbatim>\<open>memset(memory_map_array, 0xff, n)\<close> on the words at that address: byte \<open>k\<close> of the
  range lies in word \<open>k div 4\<close>, least significant byte first; bytes past \<open>n\<close> keep
  their old contents.
\<close>

definition memset_ff_word :: "nat \<Rightarrow> nat \<Rightarrow> u32 \<Rightarrow> u32" where
  "memset_ff_word n k w = (if 4 * k < n then w OR mask (8 * (n - 4 * k)) else w)"

definition memset_ff :: "nat \<Rightarrow> u32 list \<Rightarrow> u32 list" where
  "memset_ff n ws = map2 (memset_ff_word n) [0..<length ws] ws"

text \<open>\<open>old\<close> is what the memory at \<open>bitmap\<close> held before.\<close>

definition pmm_init :: "u32 list \<Rightarrow> u32 \<Rightarrow> u32 \<Rightarrow> pmm_info" where
  "pmm_init old bitmap total_memory_size =
     (let blocks = total_memory_size div PMM_BLOCK_SIZE;
          map_size = (blocks + 7) div 8;
          map_end = bitmap + map_size
      in \<lparr>memory_size = total_memory_size, max_blocks = blocks, memory_map_base = bitmap,
          memory_map_array = memset_ff (unat map_size) old,
          memory_map_end = (if map_end mod PMM_BLOCK_SIZE \<noteq> 0
             then map_end + (PMM_BLOCK_SIZE - map_end mod PMM_BLOCK_SIZE) else map_end),
          used_blocks = blocks\<rparr>)"

fun init_region_loop :: "nat \<Rightarrow> s32 \<Rightarrow> pmm_info \<Rightarrow> pmm_info" where
  "init_region_loop 0 align p = p"
| "init_region_loop (Suc blocks) align p =
     init_region_loop blocks (align + 1)
       (if pmm_mmap_test p align
        then (pmm_mmap_unset p align)\<lparr>used_blocks := used_blocks p - 1\<rparr> else p)"

definition pmm_init_region :: "pmm_info \<Rightarrow> u32 \<Rightarrow> u32 \<Rightarrow> pmm_info" where
  "pmm_init_region p base region_size =
     (if region_size = 0 then p
      else init_region_loop (unat (region_size div PMM_BLOCK_SIZE)) (base div PMM_BLOCK_SIZE) p)"

fun deinit_region_loop :: "nat \<Rightarrow> s32 \<Rightarrow> pmm_info \<Rightarrow> pmm_info" where
  "deinit_region_loop 0 align p = p"
| "deinit_region_loop (Suc blocks) align p =
     deinit_region_loop blocks (align + 1)
       (if \<not> pmm_mmap_test p align
        then (pmm_mmap_set p align)\<lparr>used_blocks := used_blocks p + 1\<rparr> else p)"

definition pmm_deinit_region :: "pmm_info \<Rightarrow> u32 \<Rightarrow> u32 \<Rightarrow> pmm_info" where
  "pmm_deinit_region p base region_size =
     (if region_size = 0 then p
      else deinit_region_loop (unat (region_size div PMM_BLOCK_SIZE)) (base div PMM_BLOCK_SIZE) p)"

subsection \<open>Allocation and release\<close>

definition pmm_alloc_block :: "pmm_info \<Rightarrow> u32 \<times> pmm_info" where
  "pmm_alloc_block p =
     (if max_blocks p \<le> used_blocks p then (null_ptr, p)
      else let frame = pmm_mmap_first_free p in
        if frame = -1 then (null_ptr, p)
        else (frame * PMM_BLOCK_SIZE,
              (pmm_mmap_set p frame)\<lparr>used_blocks := used_blocks p + 1\<rparr>))"

definition pmm_alloc_block_low :: "pmm_info \<Rightarrow> u32 \<Rightarrow> u32 \<times> pmm_info" where
  "pmm_alloc_block_low p limit_addr =
     (if max_blocks p \<le> used_blocks p then (null_ptr, p)
      else let limit_frame = limit_addr div PMM_BLOCK_SIZE;
               frame = pmm_mmap_first_free_low p limit_frame in
        if frame = -1 then (null_ptr, p)
        else (frame * PMM_BLOCK_SIZE,
              (pmm_mmap_set p frame)\<lparr>used_blocks := used_blocks p + 1\<rparr>))"

text \<open>
  \<^verbatim>\<open>pmm_free_block\<close> reads the kernel page directory through \<^verbatim>\<open>g_paging\<close>: \<open>None\<close> before
  paging exists, otherwise the directory's address and its 1024 entries. The stack walk
  there only feeds a debug message.
\<close>

type_synonym kernel_pd = "(u32 \<times> u32 list) option"

definition kernel_pd_slots :: "nat list" where
  "kernel_pd_slots = [0..<64] @ [768..<1024]"

lemma set_kernel_pd_slots: "set kernel_pd_slots = {0..<64} \<union> {768..<1024}"
  by (simp only: kernel_pd_slots_def set_append set_upt)

definition frame_is_kernel_pt :: "kernel_pd \<Rightarrow> u32 \<Rightarrow> bool" where
  "frame_is_kernel_pt g_paging frame_addr =
     (case g_paging of
        None \<Rightarrow> False
      | Some (dir, entries) \<Rightarrow>
          list_ex (\<lambda>i. entries ! i AND 0xFFFFF000 = frame_addr) kernel_pd_slots
          \<or> frame_addr = dir AND 0xFFFFF000)"

definition pmm_free_block :: "kernel_pd \<Rightarrow> pmm_info \<Rightarrow> u32 \<Rightarrow> pmm_info" where
  "pmm_free_block g_paging p addr =
     (if addr = null_ptr then p
      else if addr mod PMM_BLOCK_SIZE \<noteq> 0 then p
      else if frame_is_kernel_pt g_paging (addr AND 0xFFFFF000) then p
      else let frame = addr div PMM_BLOCK_SIZE in
        if sint frame < 0 \<or> max_blocks p \<le> frame then p
        else if \<not> pmm_mmap_test p frame then p
        else (pmm_mmap_unset p frame)\<lparr>used_blocks := used_blocks p - 1\<rparr>)"

fun set_frames_loop :: "nat \<Rightarrow> s32 \<Rightarrow> pmm_info \<Rightarrow> pmm_info" where
  "set_frames_loop 0 frame p = p"
| "set_frames_loop (Suc n) frame p = set_frames_loop n (frame + 1) (pmm_mmap_set p frame)"

definition pmm_alloc_blocks :: "pmm_info \<Rightarrow> u32 \<Rightarrow> u32 \<times> pmm_info" where
  "pmm_alloc_blocks p sz =
     (if max_blocks p < used_blocks p + sz then (null_ptr, p)
      else let frame = pmm_mmap_first_free_by_size p sz in
        if frame = -1 then (null_ptr, p)
        else (frame * PMM_BLOCK_SIZE,
              (set_frames_loop (unat sz) frame p)\<lparr>used_blocks := used_blocks p + sz\<rparr>))"

fun free_frames_loop :: "nat \<Rightarrow> s32 \<Rightarrow> pmm_info \<Rightarrow> u32 \<Rightarrow> u32 \<times> pmm_info" where
  "free_frames_loop 0 frame p freed = (freed, p)"
| "free_frames_loop (Suc n) frame p freed =
     (if pmm_mmap_test p frame then free_frames_loop n (frame + 1) (pmm_mmap_unset p frame) (freed + 1)
      else free_frames_loop n (frame + 1) p freed)"

definition pmm_free_blocks :: "pmm_info \<Rightarrow> u32 \<Rightarrow> u32 \<Rightarrow> pmm_info" where
  "pmm_free_blocks p addr sz =
     (if addr = null_ptr then p
      else if addr mod PMM_BLOCK_SIZE \<noteq> 0 then p
      else let frame = addr div PMM_BLOCK_SIZE in
        if sint frame < 0 \<or> max_blocks p \<le> frame \<or> max_blocks p < frame + sz then p
        else case free_frames_loop (unat sz) frame p 0 of
          (freed, p') \<Rightarrow> p'\<lparr>used_blocks := used_blocks p' - freed\<rparr>)"

subsection \<open>Abstraction and invariant\<close>

text \<open>
  The bitmap stands for the set of used frames. \<open>pmm_ok\<close> is the representation
  invariant \<^verbatim>\<open>pmm_init\<close> establishes; \<open>pmm_inv\<close> adds that \<^verbatim>\<open>used_blocks\<close> counts the set.
\<close>

definition used_frames :: "pmm_info \<Rightarrow> nat set" where
  "used_frames p = {b. b < unat (max_blocks p) \<and> bm_test (memory_map_array p) b}"

definition pmm_ok :: "pmm_info \<Rightarrow> bool" where
  "pmm_ok p \<longleftrightarrow> max_blocks p = memory_size p div PMM_BLOCK_SIZE
     \<and> unat (max_blocks p) \<le> 32 * length (memory_map_array p)"

definition pmm_inv :: "pmm_info \<Rightarrow> bool" where
  "pmm_inv p \<longleftrightarrow> pmm_ok p \<and> unat (used_blocks p) = card (used_frames p)"

lemma max_blocks_bound: "pmm_ok p \<Longrightarrow> unat (max_blocks p) < 2 ^ 20"
  using unat_u32_bound [of "memory_size p"] by (auto simp: pmm_ok_def unat_div_distrib)

lemma bit_in_range_iff: "pmm_ok p \<Longrightarrow> bit_in_range p b \<longleftrightarrow> unat b < unat (max_blocks p)"
  using max_blocks_bound [of p] by (simp add: bit_in_range_def sint_range_iff)

text \<open>Updating the counter alone changes neither the set nor the representation.\<close>

lemma used_blocks_upd [frame_simps]:
  "used_frames (p\<lparr>used_blocks := n\<rparr>) = used_frames p"
  "pmm_ok (p\<lparr>used_blocks := n\<rparr>) = pmm_ok p"
  "pmm_mmap_test (p\<lparr>used_blocks := n\<rparr>) b = pmm_mmap_test p b"
  by (simp_all add: used_frames_def pmm_ok_def pmm_mmap_test_def bit_in_range_def)

lemma mmap_set_fields [frame_simps]:
  "max_blocks (pmm_mmap_set p b) = max_blocks p" "memory_size (pmm_mmap_set p b) = memory_size p"
  "used_blocks (pmm_mmap_set p b) = used_blocks p"
  "length (memory_map_array (pmm_mmap_set p b)) = length (memory_map_array p)"
  "memory_map_end (pmm_mmap_set p b) = memory_map_end p"
  by (simp_all add: pmm_mmap_set_def)

lemma mmap_unset_fields [frame_simps]:
  "max_blocks (pmm_mmap_unset p b) = max_blocks p" "memory_size (pmm_mmap_unset p b) = memory_size p"
  "used_blocks (pmm_mmap_unset p b) = used_blocks p"
  "length (memory_map_array (pmm_mmap_unset p b)) = length (memory_map_array p)"
  "memory_map_end (pmm_mmap_unset p b) = memory_map_end p"
  by (simp_all add: pmm_mmap_unset_def)

lemma test_used_frames: "pmm_ok p \<Longrightarrow> pmm_mmap_test p b \<longleftrightarrow> unat b \<in> used_frames p"
  by (simp add: pmm_mmap_test_def used_frames_def bit_in_range_iff)

lemma used_frames_set:
  assumes "pmm_ok p" and "unat b < unat (max_blocks p)"
  shows "used_frames (pmm_mmap_set p b) = insert (unat b) (used_frames p)"
  using assms by (auto simp: used_frames_def pmm_mmap_set_def bit_in_range_iff bm_test_set pmm_ok_def)

lemma used_frames_unset:
  assumes "pmm_ok p" and "unat b < unat (max_blocks p)"
  shows "used_frames (pmm_mmap_unset p b) = used_frames p - {unat b}"
  using assms
  by (auto simp: used_frames_def pmm_mmap_unset_def bit_in_range_iff bm_test_clear pmm_ok_def)

lemma ok_set [inv_intros]: "pmm_ok p \<Longrightarrow> pmm_ok (pmm_mmap_set p b)"
  by (auto simp: pmm_ok_def frame_simps)

lemma ok_unset [inv_intros]: "pmm_ok p \<Longrightarrow> pmm_ok (pmm_mmap_unset p b)"
  by (auto simp: pmm_ok_def frame_simps)

text \<open>
  The PMM's bitmap provides the \<open>slot_set\<close> interface, with a frame number \<open>n\<close> passed as
  the \<^verbatim>\<open>int\<close> the source passes.
\<close>

interpretation pmm: slot_set
  "\<lambda>p n. pmm_mmap_test p (of_nat n)" "\<lambda>p n. pmm_mmap_set p (of_nat n)"
  "\<lambda>p n. pmm_mmap_unset p (of_nat n)" "\<lambda>p. unat (max_blocks p)" used_frames pmm_ok
proof (unfold_locales, goal_cases)
  case (1 s) show ?case by (auto simp: used_frames_def)
next
  case (2 s i) then show ?case using max_blocks_bound [of s] by (simp add: test_used_frames)
next
  case (3 s i) then show ?case using max_blocks_bound [of s] by (simp add: used_frames_set)
next
  case (4 s i) then show ?case using max_blocks_bound [of s] by (simp add: used_frames_unset)
qed (simp_all add: frame_simps inv_intros)

subsection \<open>The searches find the first free frame\<close>

lemma mmap_entries_eq: "pmm_ok p \<Longrightarrow> mmap_entries p = (unat (max_blocks p) + 31) div 32"
  using max_blocks_bound [of p] by (simp add: mmap_entries_def unat_div_distrib unat_add_small)

lemma used_frames_word:
  "j < 32 \<Longrightarrow> i * 32 + j \<in> used_frames p \<longleftrightarrow>
     i * 32 + j < unat (max_blocks p) \<and> bit (memory_map_array p ! i) j"
  using bm_test_word [of j "memory_map_array p" i] by (simp add: used_frames_def mult.commute)

lemma frame_sint:
  assumes "pmm_ok p" and "i < mmap_entries p" and "j < 32"
  shows "sint (max_blocks p) \<le> sint (bit_index i j) \<longleftrightarrow> unat (max_blocks p) \<le> i * 32 + j"
proof -
  have "i * 32 + j < 2 ^ 31"
    using assms max_blocks_bound [of p] by (simp add: mmap_entries_eq)
  then have "sint (bit_index i j) = int (i * 32 + j)" unfolding bit_index_def by (rule sint_of_nat_small)
  moreover have "sint (max_blocks p) = int (unat (max_blocks p))"
    using max_blocks_bound [OF assms(1)] by (intro sint_eq_unat) simp
  ultimately show ?thesis by linarith
qed

definition frame_enc :: "nat option \<Rightarrow> s32" where
  "frame_enc b = (case b of None \<Rightarrow> -1 | Some n \<Rightarrow> of_nat n)"

lemma frame_enc_simps [simp]: "frame_enc None = -1" "frame_enc (Some n) = of_nat n"
  by (simp_all add: frame_enc_def)

lemmas frame_end = first_free_in_end [where enc = frame_enc, unfolded frame_enc_simps]
lemmas frame_stop = scan_ok_stop [where enc = frame_enc, unfolded frame_enc_simps]

lemma scan_ok_found:
  "i * 32 + j < hi \<Longrightarrow> i * 32 + j \<notin> used_frames p \<Longrightarrow>
   scan_ok frame_enc (used_frames p) (i * 32 + j) mid hi (Some (bit_index i j))"
  using first_free_in_here [of "i * 32 + j" hi "used_frames p" frame_enc] by (simp add: scan_ok_def bit_index_def)

text \<open>The words a search has passed over are full, either by the fast test or bit by bit.\<close>

lemma scan_ok_full_word:
  assumes "memory_map_array p ! i = 0xffffffff" and "hi \<le> unat (max_blocks p)"
  shows "scan_ok frame_enc (used_frames p) (i * 32) (min (i * 32 + 32) hi) hi None"
  using bm_test_full_word [of "memory_map_array p" i] assms
  by (auto simp: used_frames_def scan_ok_def mult.commute)

lemma first_free_bit_spec:
  assumes "pmm_ok p" and "i < mmap_entries p" and "j \<le> 32"
  shows "scan_ok frame_enc (used_frames p) (i * 32 + j) (min (i * 32 + 32) (unat (max_blocks p))) (unat (max_blocks p))
    (first_free_bit p i j)"
  using assms
proof (induction p i j rule: first_free_bit.induct)
  case (1 p i j)
  note unfold = first_free_bit.simps [of p i j] frame_sint [OF "1.prems"(1,2)]
  show ?case
  proof (cases "j < 32 \<and> i * 32 + j < unat (max_blocks p)")
    case False
    with 1 show ?thesis by (auto simp: unfold scan_ok_empty)
  next
    case True
    show ?thesis
    proof (cases "bit (memory_map_array p ! i) j")
      case False
      with True show ?thesis
        by (simp add: unfold used_frames_word scan_ok_found)
    next
      case taken: True
      with "1.IH" "1.prems" True show ?thesis
        by (simp add: unfold scan_ok_step used_frames_word)
    qed
  qed
qed

lemma first_free_word_spec:
  "pmm_ok p \<Longrightarrow> first_free_in frame_enc (used_frames p) (i * 32) (unat (max_blocks p)) (first_free_word p i)"
proof (induction p i rule: first_free_word.induct)
  case (1 p i)
  note unfold = first_free_word.simps [of p i]
  show ?case
  proof (cases "i < mmap_entries p")
    case False
    with "1.prems" have "unat (max_blocks p) \<le> i * 32" by (simp add: mmap_entries_eq)
    with False show ?thesis by (simp add: unfold frame_end)
  next
    case True
    note bits = first_free_bit_spec [OF "1.prems" True, of 0]
    show ?thesis
    proof (cases "memory_map_array p ! i = 0xffffffff")
      case full: True
      with 1 True show ?thesis by (simp add: unfold scan_ok_next_word [OF scan_ok_full_word])
    next
      case False
      with 1 True bits show ?thesis
        by (cases "first_free_bit p i 0")
           (simp_all add: unfold scan_ok_next_word, simp add: scan_ok_def)
    qed
  qed
qed

text \<open>The low-memory search stops at the limit or at the end of memory, whichever is first.\<close>

lemma limit_sint:
  assumes "pmm_ok p" and "i < mmap_entries p" and "j < 32" and "unat (limit :: u32) < 2 ^ 31"
  shows "sint limit \<le> sint (bit_index i j) \<longleftrightarrow> unat limit \<le> i * 32 + j"
proof -
  have "i * 32 + j < 2 ^ 31"
    using assms max_blocks_bound [of p] by (simp add: mmap_entries_eq)
  then have "sint (bit_index i j) = int (i * 32 + j)"
    unfolding bit_index_def by (rule sint_of_nat_small)
  moreover have "sint limit = int (unat limit)" using assms(4) by (rule sint_eq_unat)
  ultimately show ?thesis by linarith
qed

lemma first_free_low_bit_spec:
  assumes "pmm_ok p" and "i < mmap_entries p" and "j \<le> 32" and "unat limit < 2 ^ 31"
  defines "hi \<equiv> min (unat limit) (unat (max_blocks p))"
  shows "scan_ok frame_enc (used_frames p) (i * 32 + j) (min (i * 32 + 32) hi) hi (first_free_low_bit p limit i j)"
  using assms(1-4) unfolding hi_def
proof (induction p limit i j rule: first_free_low_bit.induct)
  case (1 p limit i j)
  note unfold = first_free_low_bit.simps [of p limit i j]
    frame_sint [OF "1.prems"(1,2)] limit_sint [OF "1.prems"(1,2) _ "1.prems"(4)]
  consider "j = 32" | "j < 32" "min (unat limit) (unat (max_blocks p)) \<le> i * 32 + j"
    | "j < 32" "i * 32 + j < unat limit" "i * 32 + j < unat (max_blocks p)" using "1.prems"(3) by linarith
  then show ?case
  proof cases
    case 1
    then show ?thesis by (simp add: first_free_low_bit.simps [of p limit i 32] scan_ok_empty)
  next
    case 2
    then have "first_free_low_bit p limit i j = Some (-1)"
      by (auto simp: unfold Let_def min_le_iff_disj)
    with 2 show ?thesis by (simp add: frame_stop)
  next
    case 3
    show ?thesis
    proof (cases "bit (memory_map_array p ! i) j")
      case False
      with 3 show ?thesis
        by (simp add: unfold used_frames_word scan_ok_found)
    next
      case taken: True
      with "1.IH" "1.prems" 3 show ?thesis
        by (simp add: unfold scan_ok_step used_frames_word)
    qed
  qed
qed

lemma first_free_low_word_spec:
  assumes "pmm_ok p" and "unat limit < 2 ^ 31"
  shows "first_free_in frame_enc (used_frames p) (i * 32) (min (unat limit) (unat (max_blocks p))) (first_free_low_word p limit i)"
  using assms
proof (induction p limit i rule: first_free_low_word.induct)
  case (1 p limit i)
  note unfold = first_free_low_word.simps [of p limit i]
  show ?case
  proof (cases "i < mmap_entries p")
    case False
    with "1.prems" have "unat (max_blocks p) \<le> i * 32" by (simp add: mmap_entries_eq)
    with False show ?thesis by (simp add: unfold frame_end)
  next
    case True
    then have "i * 32 < 2 ^ 32" using max_blocks_bound [OF "1.prems"(1)] "1.prems"(1)
      by (simp add: mmap_entries_eq)
    then have lim: "limit \<le> of_nat (i * 32) \<longleftrightarrow> unat limit \<le> i * 32"
      by (simp add: word_le_nat_alt del: of_nat_mult)
    note bits = first_free_low_bit_spec [OF "1.prems"(1) True _ "1.prems"(2), of 0]
    consider "unat limit \<le> i * 32" | "i * 32 < unat limit" "memory_map_array p ! i = 0xffffffff"
      | "i * 32 < unat limit" "memory_map_array p ! i \<noteq> 0xffffffff" by linarith
    then show ?thesis
    proof cases
      case 1
      with True lim show ?thesis by (simp add: unfold frame_end del: of_nat_mult)
    next
      case 2
      with 1 True lim show ?thesis
        by (simp add: unfold scan_ok_next_word [OF scan_ok_full_word] del: of_nat_mult)
    next
      case 3
      with 1 True lim bits show ?thesis
        by (cases "first_free_low_bit p limit i 0")
           (simp_all add: unfold scan_ok_next_word del: of_nat_mult, simp add: scan_ok_def)
    qed
  qed
qed

text \<open>
  The contiguous search. \<open>run_state p n b fr st\<close> is the invariant of its loops when the next
  bit to look at is \<open>b\<close>: the \<open>fr\<close> frames just below \<open>b\<close> are a maximal free run starting at
  \<open>st\<close>, and no run of \<open>n\<close> free frames ends at or before \<open>b\<close>.
\<close>

definition free_frames :: "pmm_info \<Rightarrow> nat set" where
  "free_frames p = {..<unat (max_blocks p)} - used_frames p"

definition first_run_in :: "pmm_info \<Rightarrow> nat \<Rightarrow> s32 \<Rightarrow> bool" where
  "first_run_in p n r \<longleftrightarrow>
     (if \<exists>a. {a..<a + n} \<subseteq> free_frames p
      then \<exists>a. r = of_nat a \<and> {a..<a + n} \<subseteq> free_frames p \<and> (\<forall>a'<a. \<not> {a'..<a' + n} \<subseteq> free_frames p)
      else r = -1)"

definition run_state :: "pmm_info \<Rightarrow> nat \<Rightarrow> nat \<Rightarrow> nat \<Rightarrow> s32 \<Rightarrow> bool" where
  "run_state p n b k st \<longleftrightarrow> k \<le> b \<and> k < n \<and> {b - k..<b} \<subseteq> free_frames p
     \<and> (0 < k \<longrightarrow> st = of_nat (b - k)) \<and> (k < b \<longrightarrow> b - k - 1 \<notin> free_frames p)
     \<and> (\<forall>a. a + n \<le> b \<longrightarrow> \<not> {a..<a + n} \<subseteq> free_frames p)"

lemma run_state_used:
  assumes "run_state p n b k st" and "b \<notin> free_frames p"
  shows "run_state p n (Suc b) 0 (-1)"
proof -
  have "\<not> {a..<a + n} \<subseteq> free_frames p" if "a + n \<le> Suc b" for a
  proof (cases "a + n \<le> b")
    case False
    with that assms(1) have "b \<in> {a..<a + n}" by (auto simp: run_state_def)
    with assms(2) show ?thesis by blast
  qed (use assms(1) in \<open>simp add: run_state_def\<close>)
  with assms show ?thesis by (simp add: run_state_def)
qed

text \<open>A run of \<open>n\<close> free frames that ends at \<open>b + 1\<close> starts inside the current maximal run.\<close>

lemma run_state_straddle:
  assumes "run_state p n b k st" and "a + n = Suc b" and "{a..<a + n} \<subseteq> free_frames p"
  shows "n \<le> Suc k"
proof (rule ccontr)
  assume "\<not> n \<le> Suc k"
  with assms(1,2) have "k < b" and "b - k - 1 \<in> {a..<a + n}" by (auto simp: run_state_def)
  with assms(1,3) show False by (auto simp: run_state_def)
qed

lemma run_state_grow:
  assumes "run_state p n b k st" and "b \<in> free_frames p" and "Suc k < n"
  shows "run_state p n (Suc b) (Suc k) (if k = 0 then of_nat b else st)"
proof -
  have "\<not> {a..<a + n} \<subseteq> free_frames p" if "a + n \<le> Suc b" for a
    using that run_state_straddle [OF assms(1), of a] assms(1,3)
    by (cases "a + n = Suc b") (auto simp: run_state_def)
  moreover have "{b - k..<Suc b} \<subseteq> free_frames p"
    using assms(1,2) by (auto simp: run_state_def atLeastLessThanSuc)
  ultimately show ?thesis using assms by (auto simp: run_state_def)
qed

lemma run_state_found:
  assumes "run_state p n b k st" and "b \<in> free_frames p" and "Suc k = n"
  shows "first_run_in p n (if k = 0 then of_nat b else st)"
proof -
  have run: "{b - k..<b - k + n} \<subseteq> free_frames p"
    using assms by (auto simp: run_state_def atLeastLessThanSuc)
  have first: "\<not> {a..<a + n} \<subseteq> free_frames p" if "a < b - k" for a
    using that assms by (auto simp: run_state_def)
  have st: "(if k = 0 then of_nat b else st) = (of_nat (b - k) :: s32)"
    using assms(1) by (auto simp: run_state_def)
  have "\<exists>a. (of_nat (b - k) :: s32) = of_nat a \<and> {a..<a + n} \<subseteq> free_frames p
      \<and> (\<forall>a'<a. \<not> {a'..<a' + n} \<subseteq> free_frames p)"
    using run first by blast
  with run show ?thesis unfolding first_run_in_def st by presburger
qed

lemma run_state_none:
  assumes "run_state p n b k st" and "unat (max_blocks p) \<le> b"
  shows "first_run_in p n (-1)"
proof -
  have "\<not> {a..<a + n} \<subseteq> free_frames p" for a
  proof
    assume run: "{a..<a + n} \<subseteq> free_frames p"
    have "a + n - 1 \<in> {a..<a + n}" using assms(1) by (auto simp: run_state_def)
    with run assms(2) have "a + n \<le> b" by (auto simp: free_frames_def)
    with run assms(1) show False by (auto simp: run_state_def)
  qed
  then show ?thesis by (simp add: first_run_in_def)
qed

lemma run_state_full_word:
  assumes "run_state p n (i * 32) k st" and "memory_map_array p ! i = 0xffffffff"
  shows "run_state p n (Suc i * 32) 0 (-1)"
proof -
  have used: "b \<notin> free_frames p" if "i * 32 \<le> b" "b < i * 32 + 32" for b
    using that bm_test_full_word [of "memory_map_array p" i b] assms(2)
    by (auto simp: free_frames_def used_frames_def mult.commute)
  have "\<exists>k st. run_state p n (i * 32 + m) k st" if "m \<le> 31" for m
    using that
  proof (induction m)
    case 0
    with assms(1) show ?case by auto
  next
    case (Suc m)
    then obtain k st where "run_state p n (i * 32 + m) k st" by auto
    then have "run_state p n (Suc (i * 32 + m)) 0 (-1)"
      by (rule run_state_used) (use Suc.prems in \<open>simp add: used\<close>)
    then show ?case by auto
  qed
  from this [of 31] obtain k st where "run_state p n (i * 32 + 31) k st" by auto
  then have "run_state p n (Suc (i * 32 + 31)) 0 (-1)" by (rule run_state_used) (simp add: used)
  then show ?thesis by (simp add: add.commute)
qed

lemma free_frames_word:
  assumes "pmm_ok p" and "i < mmap_entries p" and "j < 32" and "i * 32 + j < unat (max_blocks p)"
  shows "pmm_mmap_test p (bit_index i j) \<longleftrightarrow> i * 32 + j \<notin> free_frames p"
proof -
  have "unat (bit_index i j) = i * 32 + j" unfolding bit_index_def
    using assms max_blocks_bound [of p] by (intro unat_of_nat_small) simp
  with assms show ?thesis by (simp add: test_used_frames free_frames_def)
qed

lemma free_run_bit_spec:
  assumes "pmm_ok p" and "i < mmap_entries p" and "j \<le> 32"
    and "run_state p (unat sz) (i * 32 + j) (unat fr) st"
  shows "case free_run_bit p sz i j fr st of
      Inl r \<Rightarrow> first_run_in p (unat sz) r
    | Inr (fr', st') \<Rightarrow> run_state p (unat sz) (Suc i * 32) (unat fr') st'"
  using assms
proof (induction p sz i j fr st rule: free_run_bit.induct)
  case (1 p sz i j fr st)
  note unfold = free_run_bit.simps [of p sz i j fr st] frame_sint [OF "1.prems"(1,2)]
  note rs = "1.prems"(4)
  have no_wrap: "unat (fr + 1) = Suc (unat fr)"
    using rs unat_u32_bound [of sz] by (intro unat_inc) (simp add: run_state_def)
  consider "j = 32" | "j < 32" "unat (max_blocks p) \<le> i * 32 + j"
    | "j < 32" "i * 32 + j < unat (max_blocks p)" using "1.prems"(3) by linarith
  then show ?case
  proof cases
    case 1
    with rs show ?thesis by (simp add: free_run_bit.simps [of p sz i 32] add.commute)
  next
    case 2
    with rs show ?thesis by (simp add: unfold run_state_none)
  next
    case 3
    note free_iff = free_frames_word [OF "1.prems"(1,2) 3]
    show ?thesis
    proof (cases "i * 32 + j \<in> free_frames p")
      case False
      with "1.IH"(2) "1.prems" 3 run_state_used [OF rs False] show ?thesis
        by (simp add: unfold free_iff)
    next
      case True
      let ?st = "if fr = 0 then bit_index i j else st"
      have st: "?st = (if unat fr = 0 then of_nat (i * 32 + j) else st)"
        by (simp add: bit_index_def unat_eq_0)
      show ?thesis
      proof (cases "fr + 1 = sz")
        case eq: True
        then have "Suc (unat fr) = unat sz" using no_wrap by simp
        with run_state_found [OF rs True] st eq True 3 show ?thesis
          by (simp add: unfold free_iff Let_def)
      next
        case neq: False
        then have "Suc (unat fr) < unat sz" using no_wrap rs
          by (metis Suc_leI le_neq_implies_less run_state_def word_unat_eq_iff)
        from run_state_grow [OF rs True this] st
        have "run_state p (unat sz) (i * 32 + Suc j) (unat (fr + 1)) ?st" by (simp add: no_wrap)
        with "1.IH"(1) [OF _ refl _ _ refl refl neq] "1.prems"(1,2) True 3 neq show ?thesis
          by (simp add: unfold free_iff Let_def)
      qed
    qed
  qed
qed

lemma free_run_word_spec:
  assumes "pmm_ok p" and "run_state p (unat sz) (i * 32) (unat fr) st"
  shows "first_run_in p (unat sz) (free_run_word p sz i fr st)"
  using assms
proof (induction p sz i fr st rule: free_run_word.induct)
  case (1 p sz i fr st)
  note unfold = free_run_word.simps [of p sz i fr st] and rs = "1.prems"(2)
  show ?case
  proof (cases "i < mmap_entries p")
    case False
    with "1.prems"(1) have "unat (max_blocks p) \<le> i * 32" by (simp add: mmap_entries_eq)
    with rs False show ?thesis by (simp add: unfold run_state_none)
  next
    case True
    note bits = free_run_bit_spec [OF "1.prems"(1) True, of 0 sz fr st]
    show ?thesis
    proof (cases "memory_map_array p ! i = 0xffffffff")
      case full: True
      from "1.IH"(2) [OF True] full "1.prems"(1) run_state_full_word [OF rs full]
      show ?thesis using True full by (simp add: unfold)
    next
      case False
      with "1.IH"(1) [OF True False _ refl] "1.prems" True bits show ?thesis
        by (auto simp: unfold split: sum.split)
    qed
  qed
qed

text \<open>The three searches, read on the set of free frames.\<close>

lemma pmm_mmap_first_free_spec:
  "pmm_ok p \<Longrightarrow> first_free_in frame_enc (used_frames p) 0 (unat (max_blocks p)) (pmm_mmap_first_free p)"
  using first_free_word_spec [of p 0] by (simp add: pmm_mmap_first_free_def)

lemma pmm_mmap_first_free_low_spec:
  "pmm_ok p \<Longrightarrow> unat limit < 2 ^ 31 \<Longrightarrow>
   first_free_in frame_enc (used_frames p) 0 (min (unat limit) (unat (max_blocks p))) (pmm_mmap_first_free_low p limit)"
  using first_free_low_word_spec [of p limit 0] by (simp add: pmm_mmap_first_free_low_def)

lemma pmm_mmap_first_free_by_size_spec:
  assumes "pmm_ok p" and "sz \<noteq> 0"
  shows "first_run_in p (unat sz) (pmm_mmap_first_free_by_size p sz)"
proof -
  have "run_state p (unat sz) (0 * 32) (unat 0) (-1)"
    using assms(2) by (simp add: run_state_def unat_gt_0)
  from free_run_word_spec [OF assms(1) this] assms(2) show ?thesis
    by (simp add: pmm_mmap_first_free_by_size_def)
qed

subsection \<open>Runs of frames\<close>

text \<open>
  The frame numbers \<open>a, a + 1, \<dots>\<close> a loop of \<open>n\<close> rounds touches; the counter is 32 bits
  wide and wraps.
\<close>

definition frames_from :: "u32 \<Rightarrow> nat \<Rightarrow> nat set" where
  "frames_from a n = (\<lambda>i. unat (a + of_nat i)) ` {..<n}"

lemma frames_from_0 [simp]: "frames_from a 0 = {}"
  by (simp add: frames_from_def)

lemma frames_from_Suc: "frames_from a (Suc n) = insert (unat a) (frames_from (a + 1) n)"
  unfolding frames_from_def lessThan_Suc_eq_insert_0 by (simp add: image_image add.assoc)

lemma frames_from_interval:
  assumes "unat a + n \<le> 2 ^ 32"
  shows "frames_from a n = {unat a..<unat a + n}"
proof -
  have "unat (a + of_nat i) = unat a + i" if "i < n" for i
    using that assms unat_add_small [of a "of_nat i"] by simp
  then have "frames_from a n = (\<lambda>i. unat a + i) ` {..<n}" by (simp add: frames_from_def)
  then show ?thesis by (simp add: image_add_atLeastLessThan lessThan_atLeast0 add.commute)
qed

lemma inv_ok [inv_intros]: "pmm_inv p \<Longrightarrow> pmm_ok p"
  by (simp add: pmm_inv_def)

lemma inv_unset_step [inv_intros]:
  assumes "pmm_inv p" and "pmm_mmap_test p b"
  shows "pmm_inv ((pmm_mmap_unset p b)\<lparr>used_blocks := used_blocks p - 1\<rparr>)"
proof -
  from assms have b: "unat b \<in> used_frames p" "unat b < unat (max_blocks p)"
    by (auto simp: pmm_inv_def test_used_frames used_frames_def)
  then have "card (used_frames p - {unat b}) = card (used_frames p) - 1" "0 < card (used_frames p)"
    using assms(1) pmm.finite_used [of p] by (auto simp: pmm_inv_def card_gt_0_iff)
  with assms(1) b show ?thesis
    by (simp add: pmm_inv_def frame_simps inv_intros used_frames_unset unat_dec)
qed

lemma inv_set_step [inv_intros]:
  assumes "pmm_inv p" and "\<not> pmm_mmap_test p b" and "unat b < unat (max_blocks p)"
  shows "pmm_inv ((pmm_mmap_set p b)\<lparr>used_blocks := used_blocks p + 1\<rparr>)"
proof -
  have "card (insert (unat b) (used_frames p)) = Suc (card (used_frames p))"
    using assms pmm.finite_used [of p] by (simp add: pmm_inv_def test_used_frames)
  moreover have "unat (used_blocks p + 1) = Suc (unat (used_blocks p))"
    using assms(1) pmm.card_used_le [of p] max_blocks_bound [of p] by (intro unat_inc) (simp add: pmm_inv_def)
  ultimately show ?thesis using assms
    by (simp add: pmm_inv_def frame_simps inv_intros used_frames_set)
qed

lemma init_region_loop_spec:
  "pmm_inv p \<Longrightarrow> pmm_inv (init_region_loop n a p)
     \<and> used_frames (init_region_loop n a p) = used_frames p - frames_from a n
     \<and> max_blocks (init_region_loop n a p) = max_blocks p"
proof (induction n a p rule: init_region_loop.induct)
  case (2 n a p)
  show ?case
  proof (cases "pmm_mmap_test p a")
    case True
    then have a: "unat a < unat (max_blocks p)" using "2.prems"
      by (simp add: inv_intros test_used_frames used_frames_def)
    let ?q = "(pmm_mmap_unset p a)\<lparr>used_blocks := used_blocks p - 1\<rparr>"
    have "pmm_inv ?q" and "used_frames ?q = used_frames p - {unat a}" and "max_blocks ?q = max_blocks p"
      using "2.prems" True a by (simp_all add: inv_intros frame_simps used_frames_unset)
    with "2.IH" True show ?thesis by (auto simp: frames_from_Suc)
  next
    case False
    with 2 show ?thesis by (auto simp: frames_from_Suc inv_intros test_used_frames)
  qed
qed simp

lemma deinit_region_loop_spec:
  "pmm_inv p \<Longrightarrow> frames_from a n \<subseteq> {..<unat (max_blocks p)} \<Longrightarrow>
     pmm_inv (deinit_region_loop n a p)
     \<and> used_frames (deinit_region_loop n a p) = used_frames p \<union> frames_from a n
     \<and> max_blocks (deinit_region_loop n a p) = max_blocks p"
proof (induction n a p rule: deinit_region_loop.induct)
  case (2 n a p)
  then have a: "unat a < unat (max_blocks p)" by (simp add: frames_from_Suc)
  show ?case
  proof (cases "pmm_mmap_test p a")
    case False
    let ?q = "(pmm_mmap_set p a)\<lparr>used_blocks := used_blocks p + 1\<rparr>"
    have "pmm_inv ?q" and "used_frames ?q = insert (unat a) (used_frames p)"
      and "max_blocks ?q = max_blocks p"
      using "2.prems"(1) False a by (simp_all add: inv_intros frame_simps used_frames_set)
    with "2.IH" "2.prems"(2) False show ?thesis by (auto simp: frames_from_Suc)
  next
    case True
    with 2 show ?thesis by (auto simp: frames_from_Suc inv_intros test_used_frames)
  qed
qed simp

lemma set_frames_loop_spec:
  "pmm_ok p \<Longrightarrow> frames_from a n \<subseteq> {..<unat (max_blocks p)} \<Longrightarrow>
     pmm_ok (set_frames_loop n a p)
     \<and> used_frames (set_frames_loop n a p) = used_frames p \<union> frames_from a n
     \<and> max_blocks (set_frames_loop n a p) = max_blocks p"
proof (induction n a p rule: set_frames_loop.induct)
  case (2 n a p)
  then have "pmm_ok (pmm_mmap_set p a)"
    and "used_frames (pmm_mmap_set p a) = insert (unat a) (used_frames p)"
    and "max_blocks (pmm_mmap_set p a) = max_blocks p"
    by (auto simp: inv_intros frame_simps used_frames_set frames_from_Suc)
  with 2 show ?case by (auto simp: frames_from_Suc)
qed simp

lemma free_frames_loop_spec:
  assumes "pmm_ok p" and "free_frames_loop n a p f = (f', p')"
  shows "pmm_ok p' \<and> used_frames p' = used_frames p - frames_from a n
     \<and> max_blocks p' = max_blocks p \<and> used_blocks p' = used_blocks p
     \<and> f' = f + of_nat (card (used_frames p) - card (used_frames p'))"
  using assms
proof (induction n a p f arbitrary: f' p' rule: free_frames_loop.induct)
  case (2 n a p f)
  show ?case
  proof (cases "pmm_mmap_test p a")
    case True
    then have a: "unat a \<in> used_frames p" "unat a < unat (max_blocks p)"
      using "2.prems"(1) by (auto simp: test_used_frames used_frames_def)
    let ?q = "pmm_mmap_unset p a"
    have q: "pmm_ok ?q" "used_frames ?q = used_frames p - {unat a}"
      "max_blocks ?q = max_blocks p" "used_blocks ?q = used_blocks p"
      using "2.prems"(1) a by (simp_all add: inv_intros frame_simps used_frames_unset)
    from "2.prems"(2) True have "free_frames_loop n (a + 1) ?q (f + 1) = (f', p')" by simp
    from "2.IH"(1) [OF True q(1) this] q
    have p': "pmm_ok p'" "used_frames p' = used_frames p - {unat a} - frames_from (a + 1) n"
      "max_blocks p' = max_blocks p" "used_blocks p' = used_blocks p"
      "f' = f + 1 + of_nat (card (used_frames ?q) - card (used_frames p'))" by simp_all
    have fin: "finite (used_frames p)" using "2.prems"(1) by (rule pmm.finite_used)
    have "card (used_frames p') \<le> card (used_frames ?q)"
      using fin by (intro card_mono) (auto simp: q p')
    moreover have "card (used_frames p) = Suc (card (used_frames ?q))"
      using card_Suc_Diff1 [OF fin a(1)] by (simp add: q)
    ultimately have "1 + of_nat (card (used_frames ?q) - card (used_frames p'))
        = (of_nat (card (used_frames p) - card (used_frames p')) :: u32)"
      by (simp add: Suc_diff_le)
    with p' show ?thesis by (auto simp: frames_from_Suc add.assoc)
  next
    case False
    with "2.prems" "2.IH"(2) [OF False "2.prems"(1), of f' p'] show ?thesis
      by (auto simp: frames_from_Suc test_used_frames)
  qed
qed simp

end
