(* ===== verification/Pmm_Alloc.thy ===== *)
theory Pmm_Alloc
  imports Pmm
begin

text \<open>
  Correctness of the physical memory manager's operations against an abstract frame
  allocator: a set of used frame numbers, where an allocation takes the least free frame
  below a bound (or the first free run) and a release removes frames from the set.
\<close>

subsection \<open>The abstract allocator\<close>

definition spec_alloc :: "nat \<Rightarrow> nat set \<Rightarrow> (nat \<times> nat set) option" where
  "spec_alloc hi U =
     (if {..<hi} \<subseteq> U then None else let b = Min ({..<hi} - U) in Some (b, insert b U))"

lemma spec_alloc_Some:
  assumes "spec_alloc hi U = Some (b, U')"
  shows "b < hi" and "b \<notin> U" and "U' = insert b U" and "\<forall>c<b. c \<in> U"
proof -
  from assms have ne: "{..<hi} - U \<noteq> {}" and b: "b = Min ({..<hi} - U)" and U': "U' = insert b U"
    by (auto simp: spec_alloc_def Let_def split: if_splits)
  from Min_in [OF _ ne] have "b \<in> {..<hi} - U" by (simp add: b)
  then show "b < hi" and "b \<notin> U" by auto
  show "U' = insert b U" by (rule U')
  show "\<forall>c<b. c \<in> U"
  proof (intro allI impI, rule ccontr)
    fix c assume "c < b" "c \<notin> U"
    with \<open>b < hi\<close> have "c \<in> {..<hi} - U" by simp
    then have "b \<le> c" unfolding b by (intro Min_le) simp
    with \<open>c < b\<close> show False by simp
  qed
qed

lemma first_free_in_Min:
  assumes "first_free_in frame_enc (used_frames p) 0 hi r"
  shows "r = (if {..<hi} \<subseteq> used_frames p then -1 else of_nat (Min ({..<hi} - used_frames p)))"
proof (cases "{..<hi} \<subseteq> used_frames p")
  case False
  with assms obtain b where b: "r = of_nat b" "b \<in> {..<hi} - used_frames p" "{..<b} \<subseteq> used_frames p"
    by (auto simp: first_free_in_def atLeast0LessThan)
  have "Min ({..<hi} - used_frames p) = b"
    using b by (intro Min_eqI) (auto simp: not_le [symmetric])
  with b False show ?thesis by simp
qed (use assms in \<open>simp add: first_free_in_def atLeast0LessThan\<close>)

lemma no_free_frame_iff:
  assumes "pmm_inv p"
  shows "max_blocks p \<le> used_blocks p \<longleftrightarrow> {..<unat (max_blocks p)} \<subseteq> used_frames p"
proof -
  have sub: "used_frames p \<subseteq> {..<unat (max_blocks p)}" by (auto simp: used_frames_def)
  have "unat (max_blocks p) \<le> card (used_frames p) \<longleftrightarrow> {..<unat (max_blocks p)} \<subseteq> used_frames p"
  proof
    assume "unat (max_blocks p) \<le> card (used_frames p)"
    then have "card {..<unat (max_blocks p)} \<le> card (used_frames p)" by simp
    with sub have "used_frames p = {..<unat (max_blocks p)}" by (intro card_seteq) auto
    then show "{..<unat (max_blocks p)} \<subseteq> used_frames p" by simp
  next
    assume "{..<unat (max_blocks p)} \<subseteq> used_frames p"
    with sub have "used_frames p = {..<unat (max_blocks p)}" by blast
    then show "unat (max_blocks p) \<le> card (used_frames p)" by simp
  qed
  with assms show ?thesis by (simp add: pmm_inv_def word_le_nat_alt)
qed

text \<open>Marking the frame a search returned: what both single-frame allocators do last.\<close>

lemma take_frame:
  assumes "pmm_inv p" and "spec_alloc hi (used_frames p) = Some (b, U)" and "hi \<le> unat (max_blocks p)"
  defines "q \<equiv> (pmm_mmap_set p (of_nat b))\<lparr>used_blocks := used_blocks p + 1\<rparr>"
  shows "of_nat b \<noteq> (-1 :: s32)" and "used_frames q = U" and "pmm_inv q" and "max_blocks q = max_blocks p"
proof -
  note b = spec_alloc_Some [OF assms(2)]
  have bound: "b < 2 ^ 20" using b(1) assms(1,3) max_blocks_bound [of p] by (simp add: inv_intros)
  then have unat_b: "unat (of_nat b :: s32) = b" by simp
  show "of_nat b \<noteq> (-1 :: s32)" using bound by (intro of_nat_not_minus1) simp
  show "used_frames q = U" and "max_blocks q = max_blocks p"
    using assms(1,3) b unat_b by (simp_all add: q_def frame_simps used_frames_set inv_intros)
  show "pmm_inv q" unfolding q_def
    using assms(1,3) b unat_b by (intro inv_set_step) (simp_all add: test_used_frames inv_intros)
qed

subsection \<open>Single frames\<close>

text \<open>
  The result of an allocator call, related to the abstract allocator: a null result with
  the state unchanged exactly when there is no free frame, otherwise the address of the
  frame the specification picks.
\<close>

definition alloc_refines :: "nat \<Rightarrow> pmm_info \<Rightarrow> u32 \<times> pmm_info \<Rightarrow> bool" where
  "alloc_refines hi p res \<longleftrightarrow>
     (case spec_alloc hi (used_frames p) of
        None \<Rightarrow> res = (null_ptr, p)
      | Some (b, U) \<Rightarrow> \<exists>p'. res = (of_nat b * PMM_BLOCK_SIZE, p') \<and> used_frames p' = U
          \<and> pmm_inv p' \<and> max_blocks p' = max_blocks p)"

lemma alloc_refines_search:
  assumes "pmm_inv p" and "hi \<le> unat (max_blocks p)" and "first_free_in frame_enc (used_frames p) 0 hi r"
  shows "alloc_refines hi p
    (if r = -1 then (null_ptr, p)
     else (r * PMM_BLOCK_SIZE, (pmm_mmap_set p r)\<lparr>used_blocks := used_blocks p + 1\<rparr>))"
proof (cases "spec_alloc hi (used_frames p)")
  case None
  with first_free_in_Min [OF assms(3)] show ?thesis
    by (auto simp: alloc_refines_def spec_alloc_def Let_def split: if_splits)
next
  case (Some bU)
  then obtain b U where bU: "spec_alloc hi (used_frames p) = Some (b, U)" by (cases bU) auto
  with first_free_in_Min [OF assms(3)] have r: "r = of_nat b"
    by (auto simp: spec_alloc_def Let_def split: if_splits)
  show ?thesis using take_frame [OF assms(1) bU assms(2)] bU
    by (simp add: alloc_refines_def r)
qed

lemma alloc_block_refines:
  assumes "pmm_inv p"
  shows "alloc_refines (unat (max_blocks p)) p (pmm_alloc_block p)"
proof (cases "max_blocks p \<le> used_blocks p")
  case True
  with assms have "spec_alloc (unat (max_blocks p)) (used_frames p) = None"
    by (simp add: no_free_frame_iff spec_alloc_def)
  with True show ?thesis by (simp add: alloc_refines_def pmm_alloc_block_def)
next
  case False
  from alloc_refines_search [OF assms order_refl pmm_mmap_first_free_spec [OF inv_ok [OF assms]]] False
  show ?thesis by (simp add: pmm_alloc_block_def Let_def)
qed

lemma alloc_block_low_refines:
  assumes "pmm_inv p"
  shows "alloc_refines (min (unat limit div 4096) (unat (max_blocks p))) p (pmm_alloc_block_low p limit)"
proof (cases "max_blocks p \<le> used_blocks p")
  case True
  with assms have "{..<unat (max_blocks p)} \<subseteq> used_frames p" by (simp add: no_free_frame_iff)
  then have "spec_alloc (min (unat limit div 4096) (unat (max_blocks p))) (used_frames p) = None"
    by (auto simp: spec_alloc_def)
  with True show ?thesis by (simp add: alloc_refines_def pmm_alloc_block_low_def)
next
  case False
  have lim: "unat (limit div PMM_BLOCK_SIZE) = unat limit div 4096" by (simp add: unat_div_distrib)
  then have "unat (limit div PMM_BLOCK_SIZE) < 2 ^ 31" using unat_u32_bound [of limit] by simp
  from alloc_refines_search [OF assms _ pmm_mmap_first_free_low_spec [OF inv_ok [OF assms] this]] False
  show ?thesis by (simp add: pmm_alloc_block_low_def Let_def lim)
qed

subsection \<open>Contiguous runs\<close>

lemma alloc_blocks_run:
  assumes "pmm_inv p" and "{a..<a + unat sz} \<subseteq> free_frames p" and "sz \<noteq> 0"
  defines "q \<equiv> (set_frames_loop (unat sz) (of_nat a) p)\<lparr>used_blocks := used_blocks p + sz\<rparr>"
  shows "of_nat a \<noteq> (-1 :: s32)" and "used_frames q = used_frames p \<union> {a..<a + unat sz}"
    and "pmm_inv q" and "max_blocks q = max_blocks p" and "used_blocks p + sz \<le> max_blocks p"
proof -
  have ok: "pmm_ok p" using assms(1) by (rule inv_ok)
  have n: "0 < unat sz" using assms(3) by (simp add: unat_gt_0)
  with assms(2) have "a + unat sz - 1 \<in> free_frames p" by force
  then have top: "a + unat sz \<le> unat (max_blocks p)" by (auto simp: free_frames_def)
  note max = max_blocks_bound [OF ok]
  have a: "unat (of_nat a :: u32) = a" using top max by simp
  show "of_nat a \<noteq> (-1 :: s32)" using top max n by (intro of_nat_not_minus1) simp
  have run: "frames_from (of_nat a) (unat sz) = {a..<a + unat sz}"
    using frames_from_interval [of "of_nat a" "unat sz"] top max a by simp
  have "frames_from (of_nat a) (unat sz) \<subseteq> {..<unat (max_blocks p)}" using run top by auto
  from set_frames_loop_spec [OF ok this] run
  have loop: "pmm_ok (set_frames_loop (unat sz) (of_nat a) p)"
    "used_frames (set_frames_loop (unat sz) (of_nat a) p) = used_frames p \<union> {a..<a + unat sz}"
    "max_blocks (set_frames_loop (unat sz) (of_nat a) p) = max_blocks p" by auto
  show used: "used_frames q = used_frames p \<union> {a..<a + unat sz}" and "max_blocks q = max_blocks p"
    using loop by (simp_all add: q_def frame_simps)
  have "card (used_frames p \<union> {a..<a + unat sz}) = card (used_frames p) + unat sz"
    using assms(2) pmm.finite_used [OF ok] by (subst card_Un_disjoint) (auto simp: free_frames_def)
  then have card: "card (used_frames q) = unat (used_blocks p) + unat sz"
    using assms(1) by (simp add: used pmm_inv_def)
  have "pmm_ok q" using loop by (simp add: q_def frame_simps)
  then have le: "unat (used_blocks p) + unat sz \<le> unat (max_blocks p)"
    using pmm.card_used_le [of q] card loop(3) by (simp add: q_def)
  then have add: "unat (used_blocks p + sz) = unat (used_blocks p) + unat sz"
    using max by (intro unat_add_small) simp
  with le show "used_blocks p + sz \<le> max_blocks p" by (simp add: word_le_nat_alt)
  show "pmm_inv q" using \<open>pmm_ok q\<close> card add by (simp add: pmm_inv_def q_def)
qed

text \<open>
  \<^verbatim>\<open>pmm_alloc_blocks\<close> returns the first run of free frames of the requested length, whatever
  its early check on \<^verbatim>\<open>used_blocks + size\<close> (a sum that may wrap) says: the check never
  refuses a request that a run could satisfy.
\<close>

lemma alloc_blocks_none:
  assumes "pmm_inv p" and "\<not> (\<exists>a. {a..<a + unat sz} \<subseteq> free_frames p)"
  shows "pmm_alloc_blocks p sz = (null_ptr, p)"
proof -
  have "sz \<noteq> 0" using assms(2) by auto
  from pmm_mmap_first_free_by_size_spec [OF inv_ok [OF assms(1)] this] assms(2)
  show ?thesis by (simp add: pmm_alloc_blocks_def first_run_in_def)
qed

lemma alloc_blocks_zero: "pmm_alloc_blocks p 0 = (null_ptr, p)"
  by (simp add: pmm_alloc_blocks_def pmm_mmap_first_free_by_size_def)

lemma alloc_blocks_some:
  assumes "pmm_inv p" and "{a..<a + unat sz} \<subseteq> free_frames p" and "sz \<noteq> 0"
    and "\<forall>a'<a. \<not> {a'..<a' + unat sz} \<subseteq> free_frames p"
  shows "pmm_alloc_blocks p sz = (of_nat a * PMM_BLOCK_SIZE,
    (set_frames_loop (unat sz) (of_nat a) p)\<lparr>used_blocks := used_blocks p + sz\<rparr>)"
proof -
  from pmm_mmap_first_free_by_size_spec [OF inv_ok [OF assms(1)] assms(3)] assms(2)
  obtain b where b: "pmm_mmap_first_free_by_size p sz = of_nat b"
    "{b..<b + unat sz} \<subseteq> free_frames p" "\<forall>a'<b. \<not> {a'..<a' + unat sz} \<subseteq> free_frames p"
    by (auto simp: first_run_in_def split: if_splits)
  have "b = a" using b(2,3) assms(2,4) by (metis linorder_neqE_nat)
  with b(1) alloc_blocks_run [OF assms(1-3)] show ?thesis
    by (simp add: pmm_alloc_blocks_def Let_def leD)
qed

subsection \<open>Release\<close>

lemma page_frame:
  fixes addr :: u32
  assumes "addr mod PMM_BLOCK_SIZE = 0"
  shows "unat addr = unat (addr div PMM_BLOCK_SIZE) * 4096"
proof -
  have "unat (addr mod PMM_BLOCK_SIZE) = 0" using assms by simp
  then have "unat addr mod 4096 = 0" by (simp add: unat_mod_distrib)
  with div_mult_mod_eq [of "unat addr" 4096] show ?thesis by (simp add: unat_div_distrib)
qed

lemma free_block_spec:
  assumes "pmm_inv p"
  shows "pmm_inv (pmm_free_block g p addr) \<and> max_blocks (pmm_free_block g p addr) = max_blocks p
    \<and> used_frames (pmm_free_block g p addr) =
       (if addr = 0 \<or> addr mod PMM_BLOCK_SIZE \<noteq> 0 \<or> frame_is_kernel_pt g (addr AND 0xFFFFF000)
        then used_frames p else used_frames p - {unat addr div 4096})"
proof -
  let ?f = "addr div PMM_BLOCK_SIZE"
  have ok: "pmm_ok p" using assms by (rule inv_ok)
  have f: "unat ?f = unat addr div 4096" by (simp add: unat_div_distrib)
  then have pos: "\<not> sint ?f < 0" using unat_u32_bound [of addr] by (simp add: sint_neg_iff)
  have gone: "used_frames p - {unat addr div 4096} = used_frames p" if "\<not> pmm_mmap_test p ?f"
    using that ok by (simp add: test_used_frames f)
  have range: "max_blocks p \<le> ?f \<Longrightarrow> \<not> pmm_mmap_test p ?f"
    using ok by (simp add: test_used_frames used_frames_def word_le_nat_alt)
  show ?thesis
  proof (cases "pmm_mmap_test p ?f")
    case True
    then have "unat ?f < unat (max_blocks p)" using ok by (simp add: test_used_frames used_frames_def)
    with True assms show ?thesis
      by (auto simp: pmm_free_block_def Let_def pos inv_unset_step frame_simps used_frames_unset ok f
          dest: range)
  next
    case False
    with assms gone show ?thesis by (auto simp: pmm_free_block_def Let_def)
  qed
qed

text \<open>
  \<^verbatim>\<open>pmm_free_blocks\<close> releases exactly the frames its loop visits. The range check adds two
  32-bit values, so it bounds the loop only when that sum does not wrap.
\<close>

definition free_blocks_rejects :: "pmm_info \<Rightarrow> u32 \<Rightarrow> u32 \<Rightarrow> bool" where
  "free_blocks_rejects p addr sz \<longleftrightarrow> addr = 0 \<or> addr mod PMM_BLOCK_SIZE \<noteq> 0
     \<or> max_blocks p \<le> addr div PMM_BLOCK_SIZE \<or> max_blocks p < addr div PMM_BLOCK_SIZE + sz"

lemma free_blocks_spec:
  assumes "pmm_inv p"
  shows "pmm_inv (pmm_free_blocks p addr sz) \<and> max_blocks (pmm_free_blocks p addr sz) = max_blocks p
    \<and> used_frames (pmm_free_blocks p addr sz) =
       (if free_blocks_rejects p addr sz then used_frames p
        else used_frames p - frames_from (addr div PMM_BLOCK_SIZE) (unat sz))"
proof -
  let ?f = "addr div PMM_BLOCK_SIZE"
  have ok: "pmm_ok p" using assms by (rule inv_ok)
  have "unat ?f = unat addr div 4096" by (simp add: unat_div_distrib)
  then have pos: "\<not> sint ?f < 0" using unat_u32_bound [of addr] by (simp add: sint_neg_iff)
  obtain f' p' where loop: "free_frames_loop (unat sz) ?f p 0 = (f', p')" by fastforce
  note L = free_frames_loop_spec [OF ok loop]
  have "card (used_frames p') \<le> card (used_frames p)"
    using L pmm.finite_used [OF ok] by (intro card_mono) auto
  moreover have "card (used_frames p) < 2 ^ 32"
    using pmm.card_used_le [OF ok] max_blocks_bound [OF ok] by simp
  ultimately have "unat (used_blocks p - f') = card (used_frames p')"
    using assms L by (simp add: pmm_inv_def unat_sub word_le_nat_alt)
  with L loop assms show ?thesis
    by (auto simp: pmm_free_blocks_def Let_def pos free_blocks_rejects_def frame_simps pmm_inv_def)
qed

subsection \<open>Initialisation and regions\<close>

lemma memset_ff_test:
  assumes "b < 8 * n" and "b < 32 * length ws"
  shows "bm_test (memset_ff n ws) b"
proof -
  have k: "b div 32 < length ws" using assms(2) by (simp add: less_mult_imp_div_less mult.commute)
  have lt: "4 * (b div 32) < n" using assms(1) by linarith
  moreover have "b mod 32 < 8 * (n - 4 * (b div 32))"
    using assms(1) lt mult_div_mod_eq [of 32 b] by linarith
  ultimately show ?thesis using k
    by (simp add: bm_test_bit memset_ff_def memset_ff_word_def bit_or_iff bit_mask_iff)
qed

lemma pmm_init_spec:
  assumes "unat (msize div PMM_BLOCK_SIZE) \<le> 32 * length old"
  shows "pmm_inv (pmm_init old bitmap msize)"
    and "used_frames (pmm_init old bitmap msize) = {..<unat (msize div PMM_BLOCK_SIZE)}"
    and "max_blocks (pmm_init old bitmap msize) = msize div PMM_BLOCK_SIZE"
proof -
  let ?blocks = "msize div PMM_BLOCK_SIZE"
  have "unat ?blocks < 2 ^ 20" using unat_u32_bound [of msize] by (simp add: unat_div_distrib)
  then have sz: "unat ((?blocks + 7) div 8) = (unat ?blocks + 7) div 8"
    by (simp add: unat_div_distrib [of _ 8] unat_add_small [of ?blocks 7])
  show max: "max_blocks (pmm_init old bitmap msize) = ?blocks" by (simp add: pmm_init_def Let_def)
  have map: "memory_map_array (pmm_init old bitmap msize) = memset_ff ((unat ?blocks + 7) div 8) old"
    by (simp add: pmm_init_def Let_def sz)
  show used: "used_frames (pmm_init old bitmap msize) = {..<unat ?blocks}"
    using assms by (auto simp: used_frames_def max map intro!: memset_ff_test)
  show "pmm_inv (pmm_init old bitmap msize)"
    using assms used by (simp add: pmm_inv_def pmm_ok_def max map memset_ff_def)
       (simp add: pmm_init_def Let_def)
qed

lemma region_frames:
  fixes base rsize :: u32
  assumes "n = unat (rsize div PMM_BLOCK_SIZE)"
  shows "frames_from (base div PMM_BLOCK_SIZE) n = {unat base div 4096..<unat base div 4096 + unat rsize div 4096}"
proof -
  have "unat (base div PMM_BLOCK_SIZE) + n \<le> 2 ^ 32"
    using unat_u32_bound [of base] unat_u32_bound [of rsize] by (simp add: assms unat_div_distrib)
  then show ?thesis by (simp add: frames_from_interval assms unat_div_distrib)
qed

lemma init_region_spec:
  assumes "pmm_inv p"
  shows "pmm_inv (pmm_init_region p base rsize)"
    and "used_frames (pmm_init_region p base rsize) =
      used_frames p - {unat base div 4096..<unat base div 4096 + unat rsize div 4096}"
    and "max_blocks (pmm_init_region p base rsize) = max_blocks p"
  using init_region_loop_spec [OF assms, of "unat (rsize div PMM_BLOCK_SIZE)" "base div PMM_BLOCK_SIZE"]
    assms by (auto simp: pmm_init_region_def region_frames)

lemma deinit_region_spec:
  assumes "pmm_inv p" and "unat base div 4096 + unat rsize div 4096 \<le> unat (max_blocks p)"
  shows "pmm_inv (pmm_deinit_region p base rsize)"
    and "used_frames (pmm_deinit_region p base rsize) =
      used_frames p \<union> {unat base div 4096..<unat base div 4096 + unat rsize div 4096}"
    and "max_blocks (pmm_deinit_region p base rsize) = max_blocks p"
proof -
  have "frames_from (base div PMM_BLOCK_SIZE) (unat (rsize div PMM_BLOCK_SIZE)) \<subseteq> {..<unat (max_blocks p)}"
    using assms(2) by (simp add: region_frames) auto
  from deinit_region_loop_spec [OF assms(1) this] assms(1)
  show "pmm_inv (pmm_deinit_region p base rsize)"
    and "used_frames (pmm_deinit_region p base rsize) =
      used_frames p \<union> {unat base div 4096..<unat base div 4096 + unat rsize div 4096}"
    and "max_blocks (pmm_deinit_region p base rsize) = max_blocks p"
    by (auto simp: pmm_deinit_region_def region_frames)
qed

subsection \<open>Every history of calls\<close>

text \<open>
  The calls the kernel makes on the manager once it is initialised. A region is reserved
  only inside the managed memory, as \<^verbatim>\<open>kstack_init\<close> does.
\<close>

inductive pmm_step :: "pmm_info \<Rightarrow> pmm_info \<Rightarrow> bool" where
  step_alloc: "pmm_alloc_block p = (a, p') \<Longrightarrow> pmm_step p p'"
| step_alloc_low: "pmm_alloc_block_low p limit = (a, p') \<Longrightarrow> pmm_step p p'"
| step_alloc_blocks: "pmm_alloc_blocks p sz = (a, p') \<Longrightarrow> pmm_step p p'"
| step_free: "pmm_step p (pmm_free_block g p addr)"
| step_free_blocks: "pmm_step p (pmm_free_blocks p addr sz)"
| step_init_region: "pmm_step p (pmm_init_region p base rsize)"
| step_deinit_region: "unat base div 4096 + unat rsize div 4096 \<le> unat (max_blocks p) \<Longrightarrow>
     pmm_step p (pmm_deinit_region p base rsize)"

inductive pmm_reachable :: "pmm_info \<Rightarrow> bool" where
  boot: "unat (msize div PMM_BLOCK_SIZE) \<le> 32 * length old \<Longrightarrow> pmm_reachable (pmm_init old bitmap msize)"
| call: "pmm_reachable p \<Longrightarrow> pmm_step p p' \<Longrightarrow> pmm_reachable p'"

lemma alloc_refines_inv: "alloc_refines hi p (a, p') \<Longrightarrow> pmm_inv p \<Longrightarrow> pmm_inv p'"
  by (auto simp: alloc_refines_def split: option.splits)

lemma alloc_blocks_inv:
  assumes "pmm_inv p" and "pmm_alloc_blocks p sz = (a, p')"
  shows "pmm_inv p'"
proof (cases "sz \<noteq> 0 \<and> (\<exists>a. {a..<a + unat sz} \<subseteq> free_frames p)")
  case True
  then have sz: "sz \<noteq> 0" by simp
  from True obtain a where a: "{a..<a + unat sz} \<subseteq> free_frames p"
    "\<forall>a'<a. \<not> {a'..<a' + unat sz} \<subseteq> free_frames p"
    using exists_least_iff [of "\<lambda>a. {a..<a + unat sz} \<subseteq> free_frames p"] by blast
  from alloc_blocks_some [OF assms(1) a(1) sz a(2)] alloc_blocks_run(3) [OF assms(1) a(1) sz]
  show ?thesis using assms(2) by simp
next
  case False
  with alloc_blocks_none [OF assms(1), of sz] alloc_blocks_zero [of p] assms show ?thesis by auto
qed

lemma step_inv: "pmm_step p p' \<Longrightarrow> pmm_inv p \<Longrightarrow> pmm_inv p'"
proof (induction rule: pmm_step.induct)
  case (step_alloc p a p')
  then show ?case using alloc_block_refines [of p] by (auto intro: alloc_refines_inv)
next
  case (step_alloc_low p limit a p')
  then show ?case using alloc_block_low_refines [of p limit] by (auto intro: alloc_refines_inv)
next
  case (step_alloc_blocks p sz a p')
  then show ?case by (blast intro: alloc_blocks_inv)
qed (simp_all add: free_block_spec free_blocks_spec init_region_spec deinit_region_spec)

lemma reachable_inv: "pmm_reachable p \<Longrightarrow> pmm_inv p"
  by (induction rule: pmm_reachable.induct) (auto intro: pmm_init_spec step_inv)

subsection \<open>Properties\<close>

text \<open>
  A memory of eight frames, frames 1 to 3 free, for the concrete instances below.
\<close>

definition sample_pmm :: pmm_info where
  "sample_pmm = pmm_init_region (pmm_init [0] 0x100000 0x8000) 0x1000 0x3000"

lemma sample_pmm_inv: "pmm_inv sample_pmm"
  unfolding sample_pmm_def by (intro init_region_spec pmm_init_spec) simp

lemma sample_pmm_used: "used_frames sample_pmm = {0, 4, 5, 6, 7}"
proof -
  have "pmm_inv (pmm_init [0] 0x100000 0x8000)" by (intro pmm_init_spec) simp
  from init_region_spec(2) [OF this, of "0x1000" "0x3000"]
  have "used_frames sample_pmm = {..<8} - {1..<4}"
    by (simp add: sample_pmm_def pmm_init_spec)
  also have "\<dots> = {0, 4, 5, 6, 7}" by (auto simp: lessThan_nat_numeral lessThan_Suc)
  finally show ?thesis .
qed

text \<open>
  Property C4. In every state the kernel can reach through calls on the physical memory
  manager, the bitmap covers the managed memory and \<^verbatim>\<open>used_blocks\<close> is exactly the number of
  frames marked used.
\<close>

theorem pmm_reachable_inv:
  assumes "pmm_reachable p"
  shows "unat (used_blocks p) = card (used_frames p)
    \<and> unat (max_blocks p) \<le> 32 * length (memory_map_array p)
    \<and> max_blocks p = memory_size p div PMM_BLOCK_SIZE"
  using reachable_inv [OF assms] by (auto simp: pmm_inv_def pmm_ok_def)

theorem pmm_reachable_inv_witness:
  "pmm_reachable sample_pmm \<and> unat (used_blocks sample_pmm) = card {0 :: nat, 4, 5, 6, 7}"
proof -
  have "pmm_reachable (pmm_init [0] 0x100000 0x8000)" by (intro boot) simp
  then have "pmm_reachable sample_pmm" unfolding sample_pmm_def by (rule call) (rule step_init_region)
  then show ?thesis using pmm_reachable_inv [of sample_pmm] by (simp add: sample_pmm_used)
qed

text \<open>
  Property C15. \<^verbatim>\<open>pmm_alloc_block\<close> implements the abstract allocator: it returns null and
  changes nothing exactly when no frame is free, and otherwise returns the address of the
  lowest free frame, which is then used, every other frame keeping its state.
\<close>

theorem pmm_alloc_block_correct:
  assumes "pmm_inv p"
  shows "case spec_alloc (unat (max_blocks p)) (used_frames p) of
      None \<Rightarrow> pmm_alloc_block p = (null_ptr, p)
    | Some (b, U) \<Rightarrow> fst (pmm_alloc_block p) = of_nat b * PMM_BLOCK_SIZE
        \<and> used_frames (snd (pmm_alloc_block p)) = U \<and> pmm_inv (snd (pmm_alloc_block p))"
  using alloc_block_refines [OF assms] by (auto simp: alloc_refines_def split: option.splits)

theorem pmm_alloc_block_correct_witness:
  "pmm_inv sample_pmm \<and> fst (pmm_alloc_block sample_pmm) = 0x1000
     \<and> used_frames (snd (pmm_alloc_block sample_pmm)) = {0, 1, 4, 5, 6, 7}"
proof -
  have max: "unat (max_blocks sample_pmm) = 8" by code_simp
  have free: "{..<8} - used_frames sample_pmm = {1, 2, 3 :: nat}"
    by (auto simp: sample_pmm_used lessThan_nat_numeral lessThan_Suc)
  have "spec_alloc 8 (used_frames sample_pmm) = Some (1, {0, 1, 4, 5, 6, 7})"
    using free by (auto simp: spec_alloc_def Let_def sample_pmm_used)
  then show ?thesis
    using pmm_alloc_block_correct [OF sample_pmm_inv] sample_pmm_inv by (simp add: max)
qed

text \<open>The address of a frame below the managed limit, read back as a frame number.\<close>

lemma frame_address:
  assumes "pmm_ok p" and "b < unat (max_blocks p)"
  shows "unat (of_nat b * PMM_BLOCK_SIZE) = b * 4096"
proof -
  have b: "b < 2 ^ 20" using assms max_blocks_bound [of p] by simp
  then have "unat (of_nat b :: u32) * unat PMM_BLOCK_SIZE < 2 ^ 32" by simp
  from unat_mult_small [OF this] b show ?thesis by simp
qed

text \<open>
  A block from \<^verbatim>\<open>pmm_alloc_block_low\<close> is a frame that was free, page aligned and
  wholly below the address limit, and it is the only frame whose state changes; the paging
  code relies on this for its page tables.
\<close>

theorem pmm_alloc_block_low_correct:
  assumes "pmm_inv p" and "pmm_alloc_block_low p limit = (a, p')" and "a \<noteq> null_ptr"
  shows "unat a mod 4096 = 0 \<and> unat a + 4096 \<le> unat limit \<and> unat a div 4096 \<notin> used_frames p
    \<and> used_frames p' = insert (unat a div 4096) (used_frames p) \<and> pmm_inv p'"
proof -
  let ?hi = "min (unat limit div 4096) (unat (max_blocks p))"
  from alloc_block_low_refines [OF assms(1), of limit] assms(2,3)
  obtain b U where bU: "spec_alloc ?hi (used_frames p) = Some (b, U)"
    and a: "a = of_nat b * PMM_BLOCK_SIZE" "used_frames p' = U" "pmm_inv p'"
    by (auto simp: alloc_refines_def split: option.splits)
  note b = spec_alloc_Some [OF bU]
  have "unat a = b * 4096" using frame_address [OF inv_ok [OF assms(1)], of b] a(1) b(1) by simp
  moreover have "b < unat limit div 4096" using b(1) by simp
  then have "b * 4096 + 4096 \<le> unat limit" by linarith
  ultimately show ?thesis using a b by simp
qed

theorem pmm_alloc_block_low_correct_witness:
  "\<exists>a p'. pmm_alloc_block_low sample_pmm 0x3000 = (a, p') \<and> a \<noteq> null_ptr
     \<and> unat a + 4096 \<le> 0x3000 \<and> pmm_inv p'"
proof -
  obtain a p' where ap: "pmm_alloc_block_low sample_pmm 0x3000 = (a, p')" by fastforce
  moreover have "fst (pmm_alloc_block_low sample_pmm 0x3000) = 0x1000" by code_simp
  ultimately have "a \<noteq> null_ptr" by simp
  from pmm_alloc_block_low_correct [OF sample_pmm_inv ap this] ap this show ?thesis by auto
qed

text \<open>
  Property C31. \<^verbatim>\<open>pmm_alloc_blocks\<close> returns the first run of \<open>n\<close> free frames and takes exactly
  those frames; when there is no such run it returns null and changes nothing. The early
  test on \<^verbatim>\<open>used_blocks + size\<close>, which may wrap, never decides otherwise.
\<close>

theorem pmm_alloc_blocks_correct:
  assumes "pmm_inv p" and "n \<noteq> 0" and "pmm_alloc_blocks p n = (addr, p')"
  shows "if \<exists>a. {a..<a + unat n} \<subseteq> free_frames p
    then \<exists>a. addr = of_nat a * PMM_BLOCK_SIZE \<and> {a..<a + unat n} \<subseteq> free_frames p
       \<and> (\<forall>a'<a. \<not> {a'..<a' + unat n} \<subseteq> free_frames p)
       \<and> used_frames p' = used_frames p \<union> {a..<a + unat n} \<and> pmm_inv p'
    else addr = null_ptr \<and> p' = p"
proof (cases "\<exists>a. {a..<a + unat n} \<subseteq> free_frames p")
  case True
  then obtain a where a: "{a..<a + unat n} \<subseteq> free_frames p"
    "\<forall>a'<a. \<not> {a'..<a' + unat n} \<subseteq> free_frames p"
    using exists_least_iff [of "\<lambda>a. {a..<a + unat n} \<subseteq> free_frames p"] by blast
  note run = alloc_blocks_run [OF assms(1) a(1) assms(2)]
  from alloc_blocks_some [OF assms(1) a(1) assms(2) a(2)] assms(3)
  have "addr = of_nat a * PMM_BLOCK_SIZE"
    "p' = (set_frames_loop (unat n) (of_nat a) p)\<lparr>used_blocks := used_blocks p + n\<rparr>" by simp_all
  with run a True show ?thesis by (simp only: if_True simp_thms) blast
next
  case False
  with alloc_blocks_none [OF assms(1) False] assms(3) show ?thesis by simp
qed

theorem pmm_alloc_blocks_correct_witness:
  "\<exists>a addr p'. pmm_alloc_blocks sample_pmm 2 = (addr, p') \<and> addr = of_nat a * PMM_BLOCK_SIZE
     \<and> {a..<a + 2} \<subseteq> free_frames sample_pmm \<and> pmm_inv p'"
proof -
  have max: "unat (max_blocks sample_pmm) = 8" by code_simp
  have "{1..<1 + unat (2 :: u32)} \<subseteq> free_frames sample_pmm"
    by (auto simp: free_frames_def max sample_pmm_used)
  then have ex: "\<exists>a. {a..<a + unat (2 :: u32)} \<subseteq> free_frames sample_pmm" by blast
  obtain addr p' where ap: "pmm_alloc_blocks sample_pmm 2 = (addr, p')" by fastforce
  from pmm_alloc_blocks_correct [OF sample_pmm_inv _ ap] ex ap show ?thesis by auto
qed

text \<open>
  Property C32. Freeing what an allocation returned restores the set of used frames and the
  counter, unless the frame is one of the kernel page tables, which \<^verbatim>\<open>pmm_free_block\<close>
  refuses to release.
\<close>

theorem pmm_alloc_free_roundtrip:
  assumes "pmm_inv p" and "pmm_alloc_block p = (a, p')" and "a \<noteq> null_ptr"
  shows "used_frames (pmm_free_block g p' a) =
      (if frame_is_kernel_pt g (a AND 0xFFFFF000) then used_frames p' else used_frames p)
    \<and> (\<not> frame_is_kernel_pt g (a AND 0xFFFFF000) \<longrightarrow>
        used_blocks (pmm_free_block g p' a) = used_blocks p)"
proof -
  from alloc_block_refines [OF assms(1)] assms(2,3)
  obtain b U where bU: "spec_alloc (unat (max_blocks p)) (used_frames p) = Some (b, U)"
    and a: "a = of_nat b * PMM_BLOCK_SIZE" "used_frames p' = U" "pmm_inv p'"
    by (auto simp: alloc_refines_def split: option.splits)
  note b = spec_alloc_Some [OF bU]
  have addr: "unat a = b * 4096" using frame_address [OF inv_ok [OF assms(1)] b(1)] a(1) by simp
  then have "unat (a mod PMM_BLOCK_SIZE) = 0" by (simp add: unat_mod_distrib)
  then have aligned: "a mod PMM_BLOCK_SIZE = 0" by (simp add: unat_eq_0)
  note free = free_block_spec [OF a(3), of g a]
  with aligned assms(3) addr a(2) b
  have used: "used_frames (pmm_free_block g p' a) =
      (if frame_is_kernel_pt g (a AND 0xFFFFF000) then used_frames p' else used_frames p)" by auto
  moreover have "used_blocks (pmm_free_block g p' a) = used_blocks p"
    if "used_frames (pmm_free_block g p' a) = used_frames p"
    using that free assms(1) by (simp add: pmm_inv_def word_unat_eq_iff)
  ultimately show ?thesis by simp
qed

theorem pmm_alloc_free_roundtrip_witness:
  "\<exists>a p'. pmm_alloc_block sample_pmm = (a, p') \<and> a \<noteq> null_ptr
     \<and> used_frames (pmm_free_block None p' a) = {0, 4, 5, 6, 7}"
proof -
  obtain a p' where ap: "pmm_alloc_block sample_pmm = (a, p')" by fastforce
  moreover have "fst (pmm_alloc_block sample_pmm) = 0x1000" by code_simp
  ultimately have "a \<noteq> null_ptr" by simp
  from pmm_alloc_free_roundtrip [OF sample_pmm_inv ap this, of None] ap this show ?thesis
    by (auto simp: frame_is_kernel_pt_def sample_pmm_used)
qed

text \<open>
  \<^verbatim>\<open>pmm_free_block\<close> releases a frame only for a non-null, page-aligned address that
  is not the kernel page directory nor one of the page tables behind its shared entries,
  and releases that frame alone; every other call leaves all frames as they were.
\<close>

theorem pmm_free_block_guarded:
  assumes "pmm_inv p"
  shows "used_frames (pmm_free_block g p addr) =
     (if addr = null_ptr \<or> unat addr mod 4096 \<noteq> 0 \<or> frame_is_kernel_pt g (addr AND 0xFFFFF000)
      then used_frames p else used_frames p - {unat addr div 4096})
    \<and> pmm_inv (pmm_free_block g p addr)"
proof -
  have "addr mod PMM_BLOCK_SIZE = 0 \<longleftrightarrow> unat (addr mod PMM_BLOCK_SIZE) = 0" by (simp add: unat_eq_0)
  then have "addr mod PMM_BLOCK_SIZE = 0 \<longleftrightarrow> unat addr mod 4096 = 0" by (simp add: unat_mod_distrib)
  with free_block_spec [OF assms, of g addr] show ?thesis by simp
qed

definition sample_kpd :: kernel_pd where
  "sample_kpd = Some (0x5000, replicate 1024 0)"

lemma sample_kpd_frames:
  "frame_is_kernel_pt sample_kpd 0x5000" "\<not> frame_is_kernel_pt sample_kpd 0x6000"
  by (auto simp: sample_kpd_def frame_is_kernel_pt_def list_ex_iff set_kernel_pd_slots)

theorem pmm_free_block_guarded_witness:
  "used_frames (pmm_free_block sample_kpd sample_pmm 0x6000) = {0, 4, 5, 7}
    \<and> used_frames (pmm_free_block sample_kpd sample_pmm 0x5000) = {0, 4, 5, 6, 7}"
proof -
  have "used_frames (pmm_free_block sample_kpd sample_pmm 0x6000) = used_frames sample_pmm - {6}"
    using pmm_free_block_guarded [OF sample_pmm_inv, of sample_kpd "0x6000"] sample_kpd_frames by simp
  moreover have "{0, 4, 5, 6, 7} - {6} = {0, 4, 5, 7 :: nat}" by auto
  moreover have "used_frames (pmm_free_block sample_kpd sample_pmm 0x5000) = used_frames sample_pmm"
    using pmm_free_block_guarded [OF sample_pmm_inv, of sample_kpd "0x5000"] sample_kpd_frames by simp
  ultimately show ?thesis by (simp add: sample_pmm_used)
qed

text \<open>
  Property C33. \<^verbatim>\<open>pmm_free_blocks\<close> releases exactly the \<open>n\<close> frames from its address when the run
  lies inside the managed memory, and it keeps the counter exact. Its range check adds the
  frame number and the length in 32 bits: with a length of \<open>2^32 - 1\<close> and frame 1 the sum
  wraps to 0, the check passes, and every frame but frame 0 is released.
\<close>

theorem pmm_free_blocks_effect:
  assumes "pmm_inv p" and "1 < unat (max_blocks p)"
  shows "(\<forall>b n. 0 < b \<longrightarrow> b + unat n \<le> unat (max_blocks p) \<longrightarrow> b < unat (max_blocks p) \<longrightarrow>
       used_frames (pmm_free_blocks p (of_nat b * PMM_BLOCK_SIZE) n) = used_frames p - {b..<b + unat n}
       \<and> pmm_inv (pmm_free_blocks p (of_nat b * PMM_BLOCK_SIZE) n))
    \<and> used_frames (pmm_free_blocks p 0x1000 0xFFFFFFFF) = used_frames p \<inter> {0}"
proof (intro conjI allI impI)
  have ok: "pmm_ok p" using assms(1) by (rule inv_ok)
  note max = max_blocks_bound [OF ok]
  fix b and n :: u32
  assume b: "0 < b" "b + unat n \<le> unat (max_blocks p)" "b < unat (max_blocks p)"
  let ?a = "of_nat b * PMM_BLOCK_SIZE :: u32"
  have addr: "unat ?a = b * 4096" using frame_address [OF ok b(3)] .
  then have "unat (?a mod PMM_BLOCK_SIZE) = 0" and frame: "unat (?a div PMM_BLOCK_SIZE) = b"
    by (simp_all add: unat_mod_distrib unat_div_distrib)
  then have "?a mod PMM_BLOCK_SIZE = 0" and "?a \<noteq> 0" using addr b(1) by (auto simp: unat_eq_0)
  moreover have "unat (?a div PMM_BLOCK_SIZE + n) = b + unat n"
    using frame b(2) max by (simp add: unat_add_small)
  ultimately have "\<not> free_blocks_rejects p ?a n"
    using b frame by (simp add: free_blocks_rejects_def word_le_nat_alt word_less_nat_alt)
  moreover have "frames_from (?a div PMM_BLOCK_SIZE) (unat n) = {b..<b + unat n}"
    using frames_from_interval [of "?a div PMM_BLOCK_SIZE" "unat n"] frame b(2) max by simp
  ultimately show "used_frames (pmm_free_blocks p ?a n) = used_frames p - {b..<b + unat n}"
    and "pmm_inv (pmm_free_blocks p ?a n)"
    using free_blocks_spec [OF assms(1), of ?a n] by simp_all
next
  have "frames_from 1 (2 ^ 32 - 1) = {1..<2 ^ 32}"
    using frames_from_interval [of 1 "2 ^ 32 - 1"] by simp
  then have all: "frames_from 1 0xFFFFFFFF = {1..<2 ^ 32}" by simp
  have "(0x1000 div PMM_BLOCK_SIZE :: u32) + 0xFFFFFFFF = 0" by code_simp
  then have "\<not> free_blocks_rejects p 0x1000 0xFFFFFFFF"
    using assms(2) by (simp only: free_blocks_rejects_def) (simp add: word_le_nat_alt)
  then have "used_frames (pmm_free_blocks p 0x1000 0xFFFFFFFF) = used_frames p - {1..<2 ^ 32}"
    using free_blocks_spec [OF assms(1), of "0x1000" "0xFFFFFFFF"] all by simp
  also have "\<dots> = used_frames p \<inter> {0}"
    using max_blocks_bound [OF inv_ok [OF assms(1)]] by (auto simp: used_frames_def)
  finally show "used_frames (pmm_free_blocks p 0x1000 0xFFFFFFFF) = used_frames p \<inter> {0}" .
qed

theorem pmm_free_blocks_effect_witness:
  "used_frames (pmm_free_blocks sample_pmm 0x1000 0xFFFFFFFF) = {0}
    \<and> used_frames (pmm_free_blocks sample_pmm 0x4000 2) = {0, 6, 7}"
proof -
  have max: "unat (max_blocks sample_pmm) = 8" by code_simp
  note eff = pmm_free_blocks_effect [OF sample_pmm_inv, unfolded max sample_pmm_used]
  have "used_frames (pmm_free_blocks sample_pmm (of_nat 4 * PMM_BLOCK_SIZE) 2)
      = {0, 4, 5, 6, 7} - {4..<4 + unat (2 :: u32)}"
    using eff [THEN conjunct1, rule_format, of 4 2] by simp
  moreover have "{0, 4, 5, 6, 7} - {4..<4 + unat (2 :: u32)} = {0, 6, 7}" by auto
  moreover have "used_frames (pmm_free_blocks sample_pmm 0x1000 0xFFFFFFFF) = {0, 4, 5, 6, 7} \<inter> {0}"
    using eff [THEN conjunct2] by simp
  ultimately show ?thesis by simp
qed

lemma deinit_out_of_range:
  "pmm_ok p \<Longrightarrow> frames_from a n \<inter> {..<unat (max_blocks p)} = {} \<Longrightarrow>
   deinit_region_loop n a p = p\<lparr>used_blocks := used_blocks p + of_nat n\<rparr>"
proof (induction n a p rule: deinit_region_loop.induct)
  case (2 n a p)
  then have "\<not> unat a < unat (max_blocks p)" by (simp add: frames_from_Suc)
  then have "\<not> pmm_mmap_test p a" and "pmm_mmap_set p a = p"
    using "2.prems"(1) by (simp_all add: pmm_mmap_test_def pmm_mmap_set_def bit_in_range_iff)
  with 2 show ?case by (simp add: frame_simps frames_from_Suc add.assoc add.commute)
qed simp

text \<open>
  \<^verbatim>\<open>pmm_deinit_region\<close> reserves exactly the frames of a region inside the managed
  memory. Past the end of memory the bit test answers "free" and the bit is never set, so
  each such frame adds one to \<^verbatim>\<open>used_blocks\<close> although no frame changes state.
\<close>

theorem pmm_deinit_region_effect:
  assumes "pmm_inv p" and "unat rsize div 4096 \<noteq> 0"
  shows "(unat base div 4096 + unat rsize div 4096 \<le> unat (max_blocks p) \<longrightarrow>
       used_frames (pmm_deinit_region p base rsize) =
         used_frames p \<union> {unat base div 4096..<unat base div 4096 + unat rsize div 4096}
       \<and> pmm_inv (pmm_deinit_region p base rsize))
    \<and> (unat (max_blocks p) \<le> unat base div 4096 \<longrightarrow>
       pmm_deinit_region p base rsize = p\<lparr>used_blocks := used_blocks p + of_nat (unat rsize div 4096)\<rparr>)"
proof (intro conjI impI)
  assume out: "unat (max_blocks p) \<le> unat base div 4096"
  have "rsize \<noteq> 0" using assms(2) by auto
  moreover have "frames_from (base div PMM_BLOCK_SIZE) (unat (rsize div PMM_BLOCK_SIZE))
      \<inter> {..<unat (max_blocks p)} = {}"
    using out by (simp add: region_frames) auto
  from deinit_out_of_range [OF inv_ok [OF assms(1)] this]
  have "deinit_region_loop (unat (rsize div PMM_BLOCK_SIZE)) (base div PMM_BLOCK_SIZE) p
      = p\<lparr>used_blocks := used_blocks p + of_nat (unat rsize div 4096)\<rparr>"
    by (simp add: unat_div_distrib)
  ultimately show "pmm_deinit_region p base rsize = p\<lparr>used_blocks := used_blocks p + of_nat (unat rsize div 4096)\<rparr>"
    by (simp add: pmm_deinit_region_def)
qed (use deinit_region_spec [OF assms(1)] in simp_all)

theorem pmm_deinit_region_effect_witness:
  "used_frames (pmm_deinit_region sample_pmm 0x1000 0x2000) = {0, 1, 2, 4, 5, 6, 7}
    \<and> used_blocks (pmm_deinit_region sample_pmm 0x9000 0x2000) = used_blocks sample_pmm + 2"
proof -
  have max: "unat (max_blocks sample_pmm) = 8" by code_simp
  note eff = pmm_deinit_region_effect [OF sample_pmm_inv, unfolded max sample_pmm_used]
  have "used_frames (pmm_deinit_region sample_pmm 0x1000 0x2000) = {0, 4, 5, 6, 7} \<union> {1..<3}"
    using eff [of "0x2000" "0x1000"] by (simp add: numeral_3_eq_3)
  moreover have "{0, 4, 5, 6, 7} \<union> {1..<3} = {0, 1, 2, 4, 5, 6, 7 :: nat}" by auto
  moreover have "used_blocks (pmm_deinit_region sample_pmm 0x9000 0x2000) = used_blocks sample_pmm + 2"
    using eff [of "0x2000" "0x9000"] by simp
  ultimately show ?thesis by simp
qed

end
