(* ===== verification/Kstack.thy ===== *)
theory Kstack
  imports Pmm_Alloc
begin

text \<open>
  The kernel-stack zone, \<^verbatim>\<open>core/kstack.cpp\<close>: fixed-size stack slots in reserved low memory,
  each preceded by a guard page. The record \<open>kstack_zone\<close> holds the file's static
  variables; \<^verbatim>\<open>InterruptGuard\<close> makes every operation atomic, so each is one function of the
  state. The zone is reserved in the physical memory manager, and its slot bitmap provides
  the \<open>slot_set\<close> interface.
\<close>

subsection \<open>State and constants\<close>

abbreviation PAGE_SIZE :: u32 where "PAGE_SIZE \<equiv> 4096"
abbreviation KERNEL_STACK_SIZE :: u32 where "KERNEL_STACK_SIZE \<equiv> 0x10000"
abbreviation KSTACK_GUARD_PAGES :: u32 where "KSTACK_GUARD_PAGES \<equiv> 1"
abbreviation KSTACK_SLOT_SIZE :: u32 where "KSTACK_SLOT_SIZE \<equiv> 0x11000"
abbreviation KSTACK_ZONE_BASE :: u32 where "KSTACK_ZONE_BASE \<equiv> 0x0E000000"
abbreviation KSTACK_ZONE_SIZE :: u32 where "KSTACK_ZONE_SIZE \<equiv> 0x02000000"
abbreviation KSTACK_ZONE_MIN_SIZE :: u32 where "KSTACK_ZONE_MIN_SIZE \<equiv> 0x01000000"

text \<open>The static bitmap has \<^verbatim>\<open>(KSTACK_MAX_SLOTS + 31) / 32\<close> words: 481 slots, 16 words.\<close>

record kstack_zone =
  g_zoneReady :: bool
  g_zoneBase :: u32
  g_zoneEnd :: u32
  g_slotCount :: u32
  g_inUse :: u32
  g_slotBitmap :: "u32 list"

definition kstack_static :: kstack_zone where
  "kstack_static = \<lparr>g_zoneReady = False, g_zoneBase = 0, g_zoneEnd = 0, g_slotCount = 0,
     g_inUse = 0, g_slotBitmap = replicate 16 0\<rparr>"

subsection \<open>Operations\<close>

definition kstack_slot_in_use :: "kstack_zone \<Rightarrow> u32 \<Rightarrow> bool" where
  "kstack_slot_in_use z idx \<longleftrightarrow>
     drop_bit (unat (idx mod 32)) (g_slotBitmap z ! unat (idx div 32)) AND 1 \<noteq> 0"

definition kstack_slot_set :: "kstack_zone \<Rightarrow> u32 \<Rightarrow> kstack_zone" where
  "kstack_slot_set z idx = z\<lparr>g_slotBitmap := (g_slotBitmap z)
     [unat (idx div 32) := g_slotBitmap z ! unat (idx div 32) OR push_bit (unat (idx mod 32)) 1]\<rparr>"

definition kstack_slot_clear :: "kstack_zone \<Rightarrow> u32 \<Rightarrow> kstack_zone" where
  "kstack_slot_clear z idx = z\<lparr>g_slotBitmap := (g_slotBitmap z)
     [unat (idx div 32) := g_slotBitmap z ! unat (idx div 32) AND NOT (push_bit (unat (idx mod 32)) 1)]\<rparr>"

text \<open>
  \<^verbatim>\<open>kstack_init\<close> reads \<^verbatim>\<open>g_kmap.available.end_addr\<close> and reserves the zone in the physical
  memory manager; its result is 0 or -1. \<open>zone_size\<close> is the clamped size, \<open>None\<close> when the
  function fails.
\<close>

definition zone_size :: "u32 \<Rightarrow> u32 option" where
  "zone_size avail_end =
     (let base = KSTACK_ZONE_BASE; sz = KSTACK_ZONE_SIZE;
          cap = (if avail_end < 0x10000000 then avail_end else 0x10000000) in
      if (ucast cap :: u64) < ucast base + ucast sz then
        if cap \<le> base + KSTACK_ZONE_MIN_SIZE then None
        else let sz = cap - base; sz = sz - sz mod KSTACK_SLOT_SIZE in
          if sz < KSTACK_ZONE_MIN_SIZE then None else Some sz
      else Some sz)"

definition kstack_init :: "u32 \<Rightarrow> pmm_info \<Rightarrow> kstack_zone \<Rightarrow> s32 \<times> pmm_info \<times> kstack_zone" where
  "kstack_init avail_end p z =
     (if g_zoneReady z then (0, p, z)
      else case zone_size avail_end of
        None \<Rightarrow> (-1, p, z)
      | Some sz \<Rightarrow>
          (0, pmm_deinit_region p KSTACK_ZONE_BASE sz,
           \<lparr>g_zoneReady = True, g_zoneBase = KSTACK_ZONE_BASE, g_zoneEnd = KSTACK_ZONE_BASE + sz,
            g_slotCount = sz div KSTACK_SLOT_SIZE, g_inUse = 0,
            g_slotBitmap = map (\<lambda>_. 0) (g_slotBitmap z)\<rparr>))"

text \<open>The scan of \<^verbatim>\<open>kstack_alloc\<close>: the inner loop over bits, then the loop over words.\<close>

function kstack_scan_bit :: "kstack_zone \<Rightarrow> nat \<Rightarrow> nat \<Rightarrow> nat option" where
  "kstack_scan_bit z w b =
     (if b < 32 then
        let idx = w * 32 + b in
        if unat (g_slotCount z) \<le> idx then None
        else if kstack_slot_in_use z (of_nat idx) then kstack_scan_bit z w (Suc b)
        else Some idx
      else None)"
  by pat_completeness auto
termination by (relation "measure (\<lambda>(z, w, b). 32 - b)") auto

function kstack_scan_word :: "kstack_zone \<Rightarrow> nat \<Rightarrow> nat option" where
  "kstack_scan_word z w =
     (if w < unat ((g_slotCount z + 31) div 32) then
        if g_slotBitmap z ! w = 0xFFFFFFFF then kstack_scan_word z (Suc w)
        else (case kstack_scan_bit z w 0 of
                Some idx \<Rightarrow> Some idx | None \<Rightarrow> kstack_scan_word z (Suc w))
      else None)"
  by pat_completeness auto
termination by (relation "measure (\<lambda>(z, w). unat ((g_slotCount z + 31) div 32) - w)") auto

declare kstack_scan_bit.simps [simp del] kstack_scan_word.simps [simp del]

definition kstack_alloc :: "kstack_zone \<Rightarrow> u32 \<times> kstack_zone" where
  "kstack_alloc z =
     (if \<not> g_zoneReady z then (null_ptr, z)
      else if g_slotCount z \<le> g_inUse z then (null_ptr, z)
      else case kstack_scan_word z 0 of
        None \<Rightarrow> (null_ptr, z)
      | Some n \<Rightarrow> let idx = of_nat n in
          (g_zoneBase z + idx * KSTACK_SLOT_SIZE + KSTACK_GUARD_PAGES * PAGE_SIZE,
           (kstack_slot_set z idx)\<lparr>g_inUse := g_inUse z + 1\<rparr>))"

definition kstack_free :: "kstack_zone \<Rightarrow> u32 \<Rightarrow> kstack_zone" where
  "kstack_free z addr =
     (if addr = null_ptr then z
      else if \<not> g_zoneReady z then z
      else let guardOffset = KSTACK_GUARD_PAGES * PAGE_SIZE in
        if addr < g_zoneBase z + guardOffset \<or> g_zoneEnd z \<le> addr then z
        else let off = addr - g_zoneBase z - guardOffset in
          if off mod KSTACK_SLOT_SIZE \<noteq> 0 then z
          else let idx = off div KSTACK_SLOT_SIZE in
            if g_slotCount z \<le> idx then z
            else if \<not> kstack_slot_in_use z idx then z
            else (kstack_slot_clear z idx)\<lparr>g_inUse := g_inUse z - 1\<rparr>)"

definition kstack_is_guard_page :: "kstack_zone \<Rightarrow> u32 \<Rightarrow> bool" where
  "kstack_is_guard_page z addr =
     (if \<not> g_zoneReady z then False
      else if addr < g_zoneBase z \<or> g_zoneEnd z \<le> addr then False
      else (addr - g_zoneBase z) mod KSTACK_SLOT_SIZE < KSTACK_GUARD_PAGES * PAGE_SIZE)"

definition kstack_get_zone_base :: "kstack_zone \<Rightarrow> u32" where "kstack_get_zone_base z = g_zoneBase z"
definition kstack_get_zone_end :: "kstack_zone \<Rightarrow> u32" where "kstack_get_zone_end z = g_zoneEnd z"
definition kstack_get_slot_size :: "kstack_zone \<Rightarrow> u32" where "kstack_get_slot_size z = KSTACK_SLOT_SIZE"
definition kstack_get_in_use_count :: "kstack_zone \<Rightarrow> u32" where "kstack_get_in_use_count z = g_inUse z"

subsection \<open>Invariant\<close>

definition used_slots :: "kstack_zone \<Rightarrow> nat set" where
  "used_slots z = {i. i < unat (g_slotCount z) \<and> bm_test (g_slotBitmap z) i}"

definition kstack_ok :: "kstack_zone \<Rightarrow> bool" where
  "kstack_ok z \<longleftrightarrow> g_zoneReady z \<and> g_zoneBase z = KSTACK_ZONE_BASE \<and> length (g_slotBitmap z) = 16
     \<and> unat (g_slotCount z) \<le> 481
     \<and> unat KSTACK_ZONE_BASE + unat (g_slotCount z) * unat KSTACK_SLOT_SIZE \<le> unat (g_zoneEnd z)
     \<and> unat (g_zoneEnd z) < unat KSTACK_ZONE_BASE + Suc (unat (g_slotCount z)) * unat KSTACK_SLOT_SIZE
     \<and> unat (g_zoneEnd z) \<le> 0x10000000"

definition kstack_inv :: "kstack_zone \<Rightarrow> bool" where
  "kstack_inv z \<longleftrightarrow> kstack_ok z \<and> unat (g_inUse z) = card (used_slots z)"

lemma slot_in_use_test:
  "kstack_slot_in_use z i \<longleftrightarrow> bm_test (g_slotBitmap z) (unat i)"
  by (simp add: kstack_slot_in_use_def bm_test_bit unat_div_distrib unat_mod_distrib
      bit_iff_odd_drop_bit and_one_eq odd_iff_mod_2_eq_one)

lemma slot_set_bm: "g_slotBitmap (kstack_slot_set z i) = bm_set (g_slotBitmap z) (unat i)"
  by (simp add: kstack_slot_set_def bm_set_def unat_div_distrib unat_mod_distrib)

lemma slot_clear_bm: "g_slotBitmap (kstack_slot_clear z i) = bm_clear (g_slotBitmap z) (unat i)"
  by (simp add: kstack_slot_clear_def bm_clear_def unat_div_distrib unat_mod_distrib)

lemma slot_set_fields [frame_simps]:
  "g_zoneReady (kstack_slot_set z i) = g_zoneReady z" "g_zoneBase (kstack_slot_set z i) = g_zoneBase z"
  "g_zoneEnd (kstack_slot_set z i) = g_zoneEnd z" "g_slotCount (kstack_slot_set z i) = g_slotCount z"
  "g_inUse (kstack_slot_set z i) = g_inUse z"
  by (simp_all add: kstack_slot_set_def)

lemma slot_clear_fields [frame_simps]:
  "g_zoneReady (kstack_slot_clear z i) = g_zoneReady z" "g_zoneBase (kstack_slot_clear z i) = g_zoneBase z"
  "g_zoneEnd (kstack_slot_clear z i) = g_zoneEnd z" "g_slotCount (kstack_slot_clear z i) = g_slotCount z"
  "g_inUse (kstack_slot_clear z i) = g_inUse z"
  by (simp_all add: kstack_slot_clear_def)

lemma in_use_upd [frame_simps]:
  "used_slots (z\<lparr>g_inUse := n\<rparr>) = used_slots z" "kstack_ok (z\<lparr>g_inUse := n\<rparr>) = kstack_ok z"
  by (simp_all add: used_slots_def kstack_ok_def)

lemma kstack_ok_set [inv_intros]: "kstack_ok z \<Longrightarrow> kstack_ok (kstack_slot_set z i)"
  by (simp add: kstack_ok_def frame_simps slot_set_bm)

lemma kstack_ok_clear [inv_intros]: "kstack_ok z \<Longrightarrow> kstack_ok (kstack_slot_clear z i)"
  by (simp add: kstack_ok_def frame_simps slot_clear_bm)

lemma slot_used_iff:
  "kstack_ok z \<Longrightarrow> unat i < unat (g_slotCount z) \<Longrightarrow> kstack_slot_in_use z i \<longleftrightarrow> unat i \<in> used_slots z"
  by (simp add: used_slots_def slot_in_use_test)

interpretation kst: slot_set
  "\<lambda>z n. kstack_slot_in_use z (of_nat n)" "\<lambda>z n. kstack_slot_set z (of_nat n)"
  "\<lambda>z n. kstack_slot_clear z (of_nat n)" "\<lambda>z. unat (g_slotCount z)" used_slots kstack_ok
proof (unfold_locales, goal_cases)
  case (1 s) show ?case by (auto simp: used_slots_def)
next
  case (2 s i) then show ?case by (simp add: slot_used_iff kstack_ok_def)
next
  case (3 s i) then show ?case
    by (auto simp: used_slots_def frame_simps slot_set_bm bm_test_set kstack_ok_def)
next
  case (4 s i) then show ?case
    by (auto simp: used_slots_def frame_simps slot_clear_bm bm_test_clear kstack_ok_def)
qed (simp_all add: frame_simps inv_intros)

subsection \<open>The scan finds the first free slot\<close>

lemma used_slots_word:
  "b < 32 \<Longrightarrow> w * 32 + b \<in> used_slots z \<longleftrightarrow>
     w * 32 + b < unat (g_slotCount z) \<and> bit (g_slotBitmap z ! w) b"
  using bm_test_word [of b "g_slotBitmap z" w] by (simp add: used_slots_def mult.commute)

lemma kstack_scan_bit_spec:
  assumes "kstack_ok z" and "b \<le> 32"
  shows "scan_ok (\<lambda>r. r) (used_slots z) (w * 32 + b) (min (w * 32 + 32) (unat (g_slotCount z)))
    (unat (g_slotCount z)) (map_option Some (kstack_scan_bit z w b))"
  using assms
proof (induction z w b rule: kstack_scan_bit.induct)
  case (1 z w b)
  note unfold = kstack_scan_bit.simps [of z w b]
  have small: "unat (g_slotCount z) \<le> 481" using "1.prems"(1) by (simp add: kstack_ok_def)
  show ?case
  proof (cases "b < 32 \<and> w * 32 + b < unat (g_slotCount z)")
    case False
    with "1.prems"(2) show ?thesis by (auto simp: unfold scan_ok_empty)
  next
    case True
    then have use: "kstack_slot_in_use z (of_nat (w * 32 + b)) \<longleftrightarrow> w * 32 + b \<in> used_slots z"
      using "1.prems"(1) small kst.test_used [of z "w * 32 + b"] by simp
    show ?thesis
    proof (cases "w * 32 + b \<in> used_slots z")
      case taken: True
      from True taken use have "kstack_scan_bit z w b = kstack_scan_bit z w (Suc b)"
        by (simp add: unfold Let_def)
      moreover have "scan_ok (\<lambda>r. r) (used_slots z) (w * 32 + Suc b)
          (min (w * 32 + 32) (unat (g_slotCount z))) (unat (g_slotCount z))
          (map_option Some (kstack_scan_bit z w (Suc b)))"
        using "1.IH" [OF _ refl] "1.prems"(1) True taken use by simp
      ultimately show ?thesis using taken by (simp add: scan_ok_step)
    next
      case False
      with True use have "kstack_scan_bit z w b = Some (w * 32 + b)" by (simp add: unfold Let_def)
      with True False show ?thesis
        using first_free_in_here [of "w * 32 + b" "unat (g_slotCount z)" "used_slots z" "\<lambda>r. r"]
        by (simp add: scan_ok_def)
    qed
  qed
qed

lemma full_slot_word:
  assumes "g_slotBitmap z ! w = 0xffffffff"
  shows "scan_ok (\<lambda>r. r) (used_slots z) (w * 32) (min (w * 32 + 32) (unat (g_slotCount z)))
    (unat (g_slotCount z)) None"
  using bm_test_full_word [of "g_slotBitmap z" w] assms
  by (auto simp: used_slots_def scan_ok_def mult.commute)

lemma kstack_scan_word_spec:
  assumes "kstack_ok z"
  shows "first_free_in (\<lambda>r. r) (used_slots z) (w * 32) (unat (g_slotCount z)) (kstack_scan_word z w)"
  using assms
proof (induction z w rule: kstack_scan_word.induct)
  case (1 z w)
  note unfold = kstack_scan_word.simps [of z w]
  have small: "unat (g_slotCount z) \<le> 481" using "1.prems"(1) by (simp add: kstack_ok_def)
  then have words: "unat ((g_slotCount z + 31) div 32) = (unat (g_slotCount z) + 31) div 32"
    by (simp add: unat_div_distrib unat_add_small)
  note bits = kstack_scan_bit_spec [OF "1.prems", of 0 w]
  consider "\<not> w < unat ((g_slotCount z + 31) div 32)"
    | "w < unat ((g_slotCount z + 31) div 32)" "g_slotBitmap z ! w = 0xffffffff"
    | "w < unat ((g_slotCount z + 31) div 32)" "g_slotBitmap z ! w \<noteq> 0xffffffff" by blast
  then show ?case
  proof cases
    case 1
    then have "unat (g_slotCount z) \<le> w * 32" by (simp add: words)
    with 1 show ?thesis by (simp add: unfold first_free_in_def)
  next
    case 2
    with "1.IH" "1.prems" show ?thesis by (simp add: unfold scan_ok_next_word [OF full_slot_word])
  next
    case 3
    with "1.IH" "1.prems" bits show ?thesis
      by (cases "kstack_scan_bit z w 0")
         (simp_all add: unfold scan_ok_next_word, simp add: scan_ok_def)
  qed
qed

lemma kstack_scan_correct:
  assumes "kstack_ok z"
  shows "case kstack_scan_word z 0 of
      None \<Rightarrow> {..<unat (g_slotCount z)} \<subseteq> used_slots z
    | Some n \<Rightarrow> n < unat (g_slotCount z) \<and> n \<notin> used_slots z \<and> {..<n} \<subseteq> used_slots z"
  using kstack_scan_word_spec [OF assms, of 0]
  by (auto simp: first_free_in_def atLeast0LessThan split: option.splits if_splits)

subsection \<open>Slots as address ranges\<close>

text \<open>The base of the data pages of slot \<open>i\<close>, which is what \<^verbatim>\<open>kstack_alloc\<close> returns.\<close>

definition stack_base :: "nat \<Rightarrow> nat" where
  "stack_base i = 0x0E000000 + i * 0x11000 + 0x1000"

lemma kstack_inv_ok [inv_intros]: "kstack_inv z \<Longrightarrow> kstack_ok z"
  by (simp add: kstack_inv_def)

lemma stack_address:
  assumes "kstack_ok z" and "i < unat (g_slotCount z)"
  shows "unat (g_zoneBase z + of_nat i * KSTACK_SLOT_SIZE + KSTACK_GUARD_PAGES * PAGE_SIZE) = stack_base i"
proof -
  have i: "i \<le> 480" using assms by (simp add: kstack_ok_def)
  then have m: "unat (of_nat i * KSTACK_SLOT_SIZE :: u32) = i * 0x11000"
    by (subst unat_mult_small) simp_all
  then have "unat (KSTACK_ZONE_BASE + of_nat i * KSTACK_SLOT_SIZE) = 0x0E000000 + i * 0x11000"
    using i by (subst unat_add_small) simp_all
  then show ?thesis using assms(1) i by (subst unat_add_small) (simp_all add: kstack_ok_def stack_base_def)
qed

lemma stack_in_zone:
  "kstack_ok z \<Longrightarrow> i < unat (g_slotCount z) \<Longrightarrow>
   unat (g_zoneBase z) + 0x1000 \<le> stack_base i \<and> stack_base i + 0x10000 \<le> unat (g_zoneEnd z)"
  by (auto simp: kstack_ok_def stack_base_def)

text \<open>\<^verbatim>\<open>kstack_free\<close> acts exactly on the base addresses of slots in use.\<close>

lemma free_slot_index:
  assumes "kstack_ok z" and "unat addr = stack_base i" and "i < unat (g_slotCount z)"
  shows "kstack_free z addr = (if i \<in> used_slots z
    then (kstack_slot_clear z (of_nat i))\<lparr>g_inUse := g_inUse z - 1\<rparr> else z)"
proof -
  have base: "g_zoneBase z = KSTACK_ZONE_BASE" and ready: "g_zoneReady z" and i: "i \<le> 480"
    using assms by (auto simp: kstack_ok_def)
  have off: "unat (addr - KSTACK_ZONE_BASE - 4096) = i * 0x11000"
  proof -
    have "KSTACK_ZONE_BASE \<le> addr" using assms(2) by (simp add: word_le_nat_alt stack_base_def)
    then have a: "unat (addr - KSTACK_ZONE_BASE) = i * 0x11000 + 0x1000"
      using assms(2) by (simp add: unat_sub stack_base_def)
    then have "4096 \<le> addr - KSTACK_ZONE_BASE" by (simp add: word_le_nat_alt)
    from unat_sub [OF this] a show ?thesis by simp
  qed
  then have m: "unat ((addr - KSTACK_ZONE_BASE - 4096) mod KSTACK_SLOT_SIZE) = 0"
    and d: "unat ((addr - KSTACK_ZONE_BASE - 4096) div KSTACK_SLOT_SIZE) = i"
    by (simp_all add: unat_mod_distrib unat_div_distrib)
  have dw: "(addr - KSTACK_ZONE_BASE - 4096) div KSTACK_SLOT_SIZE = of_nat i"
    using d i by (simp only: word_unat_eq_iff) simp
  have bounds: "\<not> addr < KSTACK_ZONE_BASE + 4096" "\<not> g_zoneEnd z \<le> addr" "addr \<noteq> 0"
    using assms stack_in_zone [OF assms(1,3)] base
    by (auto simp: word_less_nat_alt word_le_nat_alt stack_base_def)
  have "\<not> g_slotCount z \<le> of_nat i" using assms(3) i by (simp add: word_le_nat_alt)
  moreover have "kstack_slot_in_use z (of_nat i) \<longleftrightarrow> i \<in> used_slots z"
    using kst.test_used [OF assms(1,3)] .
  ultimately show ?thesis using ready m dw bounds
    by (simp add: kstack_free_def Let_def base unat_eq_0)
qed

lemma free_other:
  assumes "kstack_ok z" and "\<nexists>i. i < unat (g_slotCount z) \<and> unat addr = stack_base i"
  shows "kstack_free z addr = z"
proof (rule ccontr)
  assume ne: "kstack_free z addr \<noteq> z"
  have base: "g_zoneBase z = KSTACK_ZONE_BASE" using assms(1) by (simp add: kstack_ok_def)
  let ?off = "addr - KSTACK_ZONE_BASE - 4096"
  from ne base have g: "\<not> addr < KSTACK_ZONE_BASE + 4096" "?off mod KSTACK_SLOT_SIZE = 0"
    "\<not> g_slotCount z \<le> ?off div KSTACK_SLOT_SIZE"
    by (auto simp: kstack_free_def Let_def split: if_splits)
  then have le: "0x0E001000 \<le> unat addr" by (simp add: word_less_nat_alt)
  then have "KSTACK_ZONE_BASE \<le> addr" by (simp add: word_le_nat_alt)
  then have a: "unat (addr - KSTACK_ZONE_BASE) = unat addr - 0x0E000000" by (simp add: unat_sub)
  then have "4096 \<le> addr - KSTACK_ZONE_BASE" using le by (simp add: word_le_nat_alt)
  from unat_sub [OF this] a have off: "unat ?off = unat addr - 0x0E001000" by simp
  have "unat (?off mod KSTACK_SLOT_SIZE) = 0" using g(2) by simp
  then have "unat ?off mod 0x11000 = 0" by (simp add: unat_mod_distrib)
  then have "unat ?off = unat ?off div 0x11000 * 0x11000" by (metis add.right_neutral div_mult_mod_eq)
  with off le have "unat addr = stack_base (unat ?off div 0x11000)" by (simp add: stack_base_def)
  moreover have "unat ?off div 0x11000 < unat (g_slotCount z)"
    using g(3) by (simp add: word_le_nat_alt unat_div_distrib)
  ultimately show False using assms(2) by blast
qed

lemma alloc_slot:
  assumes "kstack_inv z"
  shows "if {..<unat (g_slotCount z)} \<subseteq> used_slots z then kstack_alloc z = (null_ptr, z)
    else \<exists>i. i < unat (g_slotCount z) \<and> i \<notin> used_slots z \<and> {..<i} \<subseteq> used_slots z
      \<and> unat (fst (kstack_alloc z)) = stack_base i
      \<and> snd (kstack_alloc z) = (kstack_slot_set z (of_nat i))\<lparr>g_inUse := g_inUse z + 1\<rparr>"
proof -
  have ok: "kstack_ok z" using assms by (rule kstack_inv_ok)
  have full: "g_slotCount z \<le> g_inUse z" if "{..<unat (g_slotCount z)} \<subseteq> used_slots z"
    using card_mono [OF kst.finite_used [OF ok] that] assms
    by (simp add: kstack_inv_def word_le_nat_alt)
  have not_full: "\<not> g_slotCount z \<le> g_inUse z" if "\<not> {..<unat (g_slotCount z)} \<subseteq> used_slots z"
  proof -
    have "used_slots z \<subset> {..<unat (g_slotCount z)}" using that kst.used_cap [OF ok] by blast
    from psubset_card_mono [OF finite_lessThan this]
    have "card (used_slots z) < unat (g_slotCount z)" by simp
    with assms show ?thesis by (simp add: kstack_inv_def word_le_nat_alt)
  qed
  have ready: "g_zoneReady z" using ok by (simp add: kstack_ok_def)
  show ?thesis
  proof (cases "{..<unat (g_slotCount z)} \<subseteq> used_slots z")
    case True
    with full ready show ?thesis by (simp add: kstack_alloc_def)
  next
    case False
    with kstack_scan_correct [OF ok] obtain i where
      i: "kstack_scan_word z 0 = Some i" "i < unat (g_slotCount z)" "i \<notin> used_slots z" "{..<i} \<subseteq> used_slots z"
      by (auto split: option.splits)
    with not_full [OF False] ready stack_address [OF ok i(2)]
    have "unat (fst (kstack_alloc z)) = stack_base i"
      and "snd (kstack_alloc z) = (kstack_slot_set z (of_nat i))\<lparr>g_inUse := g_inUse z + 1\<rparr>"
      by (simp_all add: kstack_alloc_def Let_def)
    with False i show ?thesis by auto
  qed
qed

lemma set_slot_inv:
  assumes "kstack_inv z" and "i < unat (g_slotCount z)" and "i \<notin> used_slots z"
  defines "z' \<equiv> (kstack_slot_set z (of_nat i))\<lparr>g_inUse := g_inUse z + 1\<rparr>"
  shows "kstack_inv z'" and "used_slots z' = insert i (used_slots z)" and "g_slotCount z' = g_slotCount z"
proof -
  have ok: "kstack_ok z" using assms(1) by (rule kstack_inv_ok)
  have "card (used_slots z) \<le> 481" using kst.card_used_le [OF ok] ok by (simp add: kstack_ok_def)
  then have inc: "unat (g_inUse z + 1) = Suc (unat (g_inUse z))"
    using assms(1) by (intro unat_inc) (simp add: kstack_inv_def)
  show "used_slots z' = insert i (used_slots z)" and "g_slotCount z' = g_slotCount z"
    using kst.used_mark [OF ok assms(2)] by (simp_all add: z'_def frame_simps)
  then show "kstack_inv z'" using assms(1,3) ok inc kst.finite_used [OF ok]
    by (simp add: kstack_inv_def z'_def frame_simps inv_intros)
qed

lemma clear_slot_inv:
  assumes "kstack_inv z" and "i \<in> used_slots z"
  defines "z' \<equiv> (kstack_slot_clear z (of_nat i))\<lparr>g_inUse := g_inUse z - 1\<rparr>"
  shows "kstack_inv z'" and "used_slots z' = used_slots z - {i}" and "g_slotCount z' = g_slotCount z"
proof -
  have ok: "kstack_ok z" using assms(1) by (rule kstack_inv_ok)
  have i: "i < unat (g_slotCount z)" using assms(2) by (simp add: used_slots_def)
  show used: "used_slots z' = used_slots z - {i}" and "g_slotCount z' = g_slotCount z"
    using kst.used_unmark [OF ok i] by (simp_all add: z'_def frame_simps)
  have "0 < card (used_slots z)" using assms(2) kst.finite_used [OF ok] by (auto simp: card_gt_0_iff)
  then have "unat (g_inUse z - 1) = card (used_slots z) - 1"
    using assms(1) by (simp add: kstack_inv_def unat_dec)
  then show "kstack_inv z'" using used ok assms(2) kst.finite_used [OF ok]
    by (simp add: kstack_inv_def z'_def frame_simps inv_intros)
qed

lemma guard_page_iff:
  assumes "kstack_ok z" and "i < unat (g_slotCount z)"
    and "stack_base i - 0x1000 \<le> unat addr" and "unat addr < stack_base i + 0x10000"
  shows "kstack_is_guard_page z addr \<longleftrightarrow> unat addr < stack_base i"
proof -
  have base: "g_zoneBase z = KSTACK_ZONE_BASE" and ready: "g_zoneReady z"
    using assms(1) by (auto simp: kstack_ok_def)
  note zone = stack_in_zone [OF assms(1,2)]
  have le: "KSTACK_ZONE_BASE \<le> addr" using assms(3) by (simp add: word_le_nat_alt stack_base_def)
  then have "unat (addr - KSTACK_ZONE_BASE) = unat addr - 0x0E000000" by (simp add: unat_sub)
  then have "unat ((addr - KSTACK_ZONE_BASE) mod KSTACK_SLOT_SIZE) = (unat addr - 0x0E000000) mod 0x11000"
    by (simp add: unat_mod_distrib)
  also have "\<dots> = unat addr - 0x0E000000 - i * 0x11000"
  proof -
    obtain k where k: "unat addr = 0x0E000000 + i * 0x11000 + k" "k < 0x11000"
      using assms(3,4) le_Suc_ex [of "0x0E000000 + i * 0x11000" "unat addr"] by (auto simp: stack_base_def)
    then show ?thesis by simp
  qed
  finally have "(addr - KSTACK_ZONE_BASE) mod KSTACK_SLOT_SIZE < 4096 \<longleftrightarrow> unat addr < stack_base i"
    using assms(3) by (auto simp: word_less_nat_alt stack_base_def)
  moreover have "\<not> addr < KSTACK_ZONE_BASE" and "\<not> g_zoneEnd z \<le> addr"
    using le zone assms(4) by (auto simp: word_le_nat_alt word_less_nat_alt)
  ultimately show ?thesis using ready base by (simp add: kstack_is_guard_page_def)
qed

subsection \<open>The zone after initialisation\<close>

lemma zone_size_Some:
  assumes "zone_size avail_end = Some sz"
  shows "unat sz \<le> 0x02000000" and "0x01000000 \<le> unat sz" and "unat sz mod 4096 = 0"
    and "0x0E000000 + unat sz \<le> unat avail_end" and "0x0E000000 + unat sz \<le> 0x10000000"
proof -
  define cap where "cap = (if avail_end < 0x10000000 then avail_end else 0x10000000)"
  have cap: "unat cap \<le> 0x10000000" "unat cap \<le> unat avail_end"
    by (auto simp: cap_def word_less_nat_alt)
  have test: "(ucast cap :: u64) < ucast KSTACK_ZONE_BASE + ucast KSTACK_ZONE_SIZE \<longleftrightarrow> unat cap < 0x10000000"
    by (simp add: word_less_nat_alt unat_ucast64)
  define d where "d = cap - KSTACK_ZONE_BASE"
  have "(unat sz = 0x02000000 \<and> unat cap = 0x10000000) \<or>
      (0x0F000000 < unat cap \<and> unat cap < 0x10000000 \<and> sz = d - d mod KSTACK_SLOT_SIZE \<and> 0x01000000 \<le> unat sz)"
    using assms cap unfolding zone_size_def Let_def cap_def [symmetric] test d_def [symmetric]
    by (auto split: if_splits simp: word_le_nat_alt word_less_nat_alt)
  then have "unat sz \<le> 0x02000000 \<and> 0x01000000 \<le> unat sz \<and> unat sz mod 4096 = 0
     \<and> 0x0E000000 + unat sz \<le> unat cap"
  proof
    assume c: "0x0F000000 < unat cap \<and> unat cap < 0x10000000 \<and> sz = d - d mod KSTACK_SLOT_SIZE \<and> 0x01000000 \<le> unat sz"
    then have "KSTACK_ZONE_BASE \<le> cap" by (simp add: word_le_nat_alt)
    then have d: "unat d = unat cap - 0x0E000000" by (simp add: d_def unat_sub)
    have "d mod KSTACK_SLOT_SIZE \<le> d" by (simp add: word_le_nat_alt unat_mod_distrib)
    then have "unat sz = unat d - unat d mod 0x11000" using c by (simp add: unat_sub unat_mod_distrib)
    also have "\<dots> = unat d div 0x11000 * 0x11000" by (simp add: minus_mod_eq_div_mult)
    finally have sz: "unat sz = unat d div 0x11000 * 0x11000" .
    then have "unat sz = (unat d div 0x11000 * 17) * 4096" by simp
    then have "unat sz mod 4096 = 0" by (metis mod_mult_self2_is_0)
    moreover have "unat sz \<le> unat d" using sz by simp
    ultimately show ?thesis using c d by auto
  qed auto
  then show "unat sz \<le> 0x02000000" and "0x01000000 \<le> unat sz" and "unat sz mod 4096 = 0"
    and "0x0E000000 + unat sz \<le> unat avail_end" and "0x0E000000 + unat sz \<le> 0x10000000"
    using cap by auto
qed
lemma kstack_init_inv:
  assumes "\<not> g_zoneReady z" and "length (g_slotBitmap z) = 16" and "kstack_init avail_end p z = (0, p', z')"
  shows "kstack_inv z'" and "used_slots z' = {}" and "unat (g_slotCount z') > 0"
    and "\<exists>sz. zone_size avail_end = Some sz \<and> p' = pmm_deinit_region p KSTACK_ZONE_BASE sz
      \<and> unat (g_zoneEnd z') = 0x0E000000 + unat sz"
proof -
  from assms obtain sz where sz: "zone_size avail_end = Some sz"
    and p': "p' = pmm_deinit_region p KSTACK_ZONE_BASE sz"
    and z': "z' = \<lparr>g_zoneReady = True, g_zoneBase = KSTACK_ZONE_BASE, g_zoneEnd = KSTACK_ZONE_BASE + sz,
      g_slotCount = sz div KSTACK_SLOT_SIZE, g_inUse = 0, g_slotBitmap = map (\<lambda>_. 0) (g_slotBitmap z)\<rparr>"
    by (auto simp: kstack_init_def split: option.splits)
  note size = zone_size_Some [OF sz]
  have "\<not> bm_test (g_slotBitmap z') i" if "i < unat (g_slotCount z')" for i
  proof -
    have "i div 32 < 16" using that size(1) by (simp add: z' unat_div_distrib)
    with assms(2) show ?thesis by (simp add: bm_test_bit z')
  qed
  then show empty: "used_slots z' = {}" by (auto simp: used_slots_def)
  have cnt: "unat (g_slotCount z') = unat sz div 0x11000" by (simp add: z' unat_div_distrib)
  with size(2) show "unat (g_slotCount z') > 0" by (simp add: div_greater_zero_iff)
  have zend: "unat (g_zoneEnd z') = 0x0E000000 + unat sz"
    using size(5) unat_add_small [of KSTACK_ZONE_BASE sz] by (simp add: z')
  with p' sz show "\<exists>sz. zone_size avail_end = Some sz \<and> p' = pmm_deinit_region p KSTACK_ZONE_BASE sz
      \<and> unat (g_zoneEnd z') = 0x0E000000 + unat sz" by blast
  have "kstack_ok z'" using size(1,5) cnt zend assms(2) dividend_less_times_div [of "0x11000" "unat sz"]
    by (simp add: kstack_ok_def z')
  then show "kstack_inv z'" using empty by (simp add: kstack_inv_def z')
qed

subsection \<open>Properties\<close>

definition sample_zone :: kstack_zone where
  "sample_zone = snd (snd (kstack_init 0x10000000 (pmm_init [] 0 0) kstack_static))"

lemma sample_zone_inv: "kstack_inv sample_zone \<and> used_slots sample_zone = {} \<and> 0 < unat (g_slotCount sample_zone)"
proof -
  have "zone_size 0x10000000 = Some KSTACK_ZONE_SIZE" by code_simp
  then obtain p' where "kstack_init 0x10000000 (pmm_init [] 0 0) kstack_static = (0, p', sample_zone)"
    by (simp add: sample_zone_def kstack_init_def kstack_static_def)
  from kstack_init_inv [OF _ _ this] show ?thesis by (simp add: kstack_static_def)
qed

text \<open>
  Property C16. \<^verbatim>\<open>kstack_alloc\<close> fails only when every slot is in use. A stack it returns is a
  slot that was free; its 64 KiB lie inside the zone, hold no guard-page address, are
  preceded by a page that \<^verbatim>\<open>kstack_is_guard_page\<close> recognises, and overlap no live stack.
\<close>

theorem kstack_alloc_correct:
  assumes "kstack_inv z" and "kstack_alloc z = (a, z')"
  shows "(a = null_ptr \<longleftrightarrow> {..<unat (g_slotCount z)} \<subseteq> used_slots z)
    \<and> (a \<noteq> null_ptr \<longrightarrow> (\<exists>i. i < unat (g_slotCount z) \<and> i \<notin> used_slots z \<and> unat a = stack_base i
        \<and> used_slots z' = insert i (used_slots z) \<and> kstack_inv z'
        \<and> unat a + 0x10000 \<le> unat (g_zoneEnd z)
        \<and> (\<forall>x. unat a \<le> unat x \<and> unat x < unat a + 0x10000 \<longrightarrow> \<not> kstack_is_guard_page z x)
        \<and> (\<forall>x. unat a - 0x1000 \<le> unat x \<and> unat x < unat a \<longrightarrow> kstack_is_guard_page z x)
        \<and> (\<forall>j\<in>used_slots z. stack_base j + 0x10000 \<le> unat a \<or> unat a + 0x10000 \<le> stack_base j)))"
proof (cases "{..<unat (g_slotCount z)} \<subseteq> used_slots z")
  case True
  with alloc_slot [OF assms(1)] assms(2) show ?thesis by simp
next
  case False
  with alloc_slot [OF assms(1)] assms(2) obtain i where
    i: "i < unat (g_slotCount z)" "i \<notin> used_slots z" "unat a = stack_base i"
    and z': "z' = (kstack_slot_set z (of_nat i))\<lparr>g_inUse := g_inUse z + 1\<rparr>" by auto
  have ok: "kstack_ok z" using assms(1) by (rule kstack_inv_ok)
  have nz: "a \<noteq> null_ptr" using i(3) by (auto simp: stack_base_def)
  have guard: "kstack_is_guard_page z x \<longleftrightarrow> unat x < stack_base i"
    if "stack_base i - 0x1000 \<le> unat x" "unat x < stack_base i + 0x10000" for x
    using guard_page_iff [OF ok i(1) that] .
  have sep: "stack_base j + 0x10000 \<le> stack_base i \<or> stack_base i + 0x10000 \<le> stack_base j"
    if "j \<in> used_slots z" for j
  proof -
    have "j < i \<or> i < j" using that i(2) by (metis linorder_neqE_nat)
    then show ?thesis unfolding stack_base_def by linarith
  qed
  have data: "\<not> kstack_is_guard_page z x" if "unat a \<le> unat x" "unat x < unat a + 0x10000" for x
    using guard [of x] that i(3) by auto
  have below: "kstack_is_guard_page z x" if "unat a - 0x1000 \<le> unat x" "unat x < unat a" for x
    using guard [of x] that i(3) by auto
  have zone: "unat a + 0x10000 \<le> unat (g_zoneEnd z)" using stack_in_zone [OF ok i(1)] i(3) by simp
  have "used_slots z' = insert i (used_slots z)" "kstack_inv z'"
    using set_slot_inv [OF assms(1) i(1,2)] z' by simp_all
  with False nz i zone data below sep show ?thesis by (simp only: simp_thms) blast
qed

theorem kstack_alloc_correct_witness:
  "\<exists>a z' i. kstack_alloc sample_zone = (a, z') \<and> a \<noteq> null_ptr \<and> unat a = stack_base i \<and> used_slots z' = {i}"
proof -
  obtain a z' where az: "kstack_alloc sample_zone = (a, z')" by fastforce
  have ne: "\<not> {..<unat (g_slotCount sample_zone)} \<subseteq> used_slots sample_zone"
    using sample_zone_inv by auto
  from kstack_alloc_correct [OF conjunct1 [OF sample_zone_inv] az] ne sample_zone_inv az
  show ?thesis by auto
qed

text \<open>
  \<^verbatim>\<open>kstack_free\<close> clears a slot exactly when it is given the base address of that
  slot while the slot is in use; a null, foreign, misaligned or already freed address
  changes nothing, so a double free cannot put two threads on one stack.
\<close>

theorem kstack_free_exact:
  assumes "kstack_inv z"
  shows "kstack_inv (kstack_free z addr)
    \<and> used_slots (kstack_free z addr) = used_slots z - {i. unat addr = stack_base i}
    \<and> ((\<nexists>i. i \<in> used_slots z \<and> unat addr = stack_base i) \<longrightarrow> kstack_free z addr = z)"
proof -
  have ok: "kstack_ok z" using assms by (rule kstack_inv_ok)
  have inj: "stack_base i = stack_base j \<Longrightarrow> i = j" for i j by (simp add: stack_base_def)
  have lt: "i \<in> used_slots z \<Longrightarrow> i < unat (g_slotCount z)" for i by (simp add: used_slots_def)
  consider i where "i < unat (g_slotCount z)" "unat addr = stack_base i"
    | "\<nexists>i. i < unat (g_slotCount z) \<and> unat addr = stack_base i" by blast
  then show ?thesis
  proof cases
    case (1 i)
    then have set: "{j. unat addr = stack_base j} = {i}" using inj by auto
    note eq = free_slot_index [OF ok 1(2,1)]
    show ?thesis
    proof (cases "i \<in> used_slots z")
      case True
      with eq set 1 clear_slot_inv [OF assms True] show ?thesis by auto
    next
      case False
      with eq set assms show ?thesis by simp
    qed
  next
    case 2
    with free_other [OF ok 2] assms lt show ?thesis by auto
  qed
qed

theorem kstack_free_exact_witness:
  "\<exists>a z'. kstack_alloc sample_zone = (a, z') \<and> a \<noteq> null_ptr
     \<and> used_slots (kstack_free (kstack_free z' a) a) = {} \<and> kstack_inv (kstack_free z' a)"
proof -
  obtain a z' where a: "kstack_alloc sample_zone = (a, z')" by fastforce
  have "\<not> {..<unat (g_slotCount sample_zone)} \<subseteq> used_slots sample_zone" using sample_zone_inv by auto
  with alloc_slot [of sample_zone] sample_zone_inv a obtain i where
    i: "i < unat (g_slotCount sample_zone)" "i \<notin> used_slots sample_zone" "unat a = stack_base i"
    and z': "z' = (kstack_slot_set sample_zone (of_nat i))\<lparr>g_inUse := g_inUse sample_zone + 1\<rparr>" by auto
  have az: "kstack_alloc sample_zone = (a, z')" "a \<noteq> null_ptr" "unat a = stack_base i" "used_slots z' = {i}"
    "kstack_inv z'"
    using a i set_slot_inv [OF conjunct1 [OF sample_zone_inv] i(1,2)] z' sample_zone_inv
    by (auto simp: stack_base_def)
  from kstack_free_exact [OF az(5), of a] az have 1: "kstack_inv (kstack_free z' a)" "used_slots (kstack_free z' a) = {}"
    by auto
  from kstack_free_exact [OF 1(1), of a] 1 az show ?thesis by auto
qed

text \<open>
  \<^verbatim>\<open>kstack_init\<close> reserves the whole zone in the physical memory manager, so no
  frame the manager hands out afterwards overlaps a kernel stack or a guard page; the zone
  starts empty, inside usable memory and below 256 MiB.
\<close>

theorem kstack_init_reserves:
  assumes "pmm_inv p" and "max_blocks p = avail_end div PMM_BLOCK_SIZE"
    and "kstack_init avail_end p kstack_static = (0, p', z)"
  shows "kstack_inv z \<and> used_slots z = {} \<and> pmm_inv p'
    \<and> unat (g_zoneEnd z) \<le> unat avail_end \<and> unat (g_zoneEnd z) \<le> 0x10000000
    \<and> {unat (g_zoneBase z) div 4096..<unat (g_zoneEnd z) div 4096} \<subseteq> used_frames p'
    \<and> (\<forall>a q. pmm_alloc_block p' = (a, q) \<and> a \<noteq> null_ptr \<longrightarrow>
        \<not> (unat (g_zoneBase z) \<le> unat a \<and> unat a < unat (g_zoneEnd z)))"
proof -
  from kstack_init_inv [OF _ _ assms(3)] have z: "kstack_inv z" "used_slots z = {}"
    by (simp_all add: kstack_static_def)
  from kstack_init_inv(4) [OF _ _ assms(3)] obtain sz where sz: "zone_size avail_end = Some sz"
    and p': "p' = pmm_deinit_region p KSTACK_ZONE_BASE sz" and zend: "unat (g_zoneEnd z) = 0x0E000000 + unat sz"
    by (auto simp: kstack_static_def)
  note size = zone_size_Some [OF sz]
  have base: "unat (g_zoneBase z) = 0x0E000000" using z(1) by (simp add: kstack_inv_def kstack_ok_def)
  have whole: "(0x0E000000 + unat sz) div 4096 = 0xE000 + unat sz div 4096"
    using size(3) by (simp add: div_plus_div_distrib_dvd_left)
  have "0xE000 + unat sz div 4096 \<le> unat (max_blocks p)"
    using div_le_mono [OF size(4), of 4096] whole assms(2) by (simp add: unat_div_distrib)
  then have fits: "unat KSTACK_ZONE_BASE div 4096 + unat sz div 4096 \<le> unat (max_blocks p)" by simp
  note reg = deinit_region_spec [OF assms(1) fits]
  have inv: "pmm_inv p'" and zone: "{0xE000..<0xE000 + unat sz div 4096} \<subseteq> used_frames p'"
    using reg by (auto simp: p')
  have "\<not> (0x0E000000 \<le> unat a \<and> unat a < 0x0E000000 + unat sz)"
    if "pmm_alloc_block p' = (a, q)" "a \<noteq> null_ptr" for a q
  proof
    assume a: "0x0E000000 \<le> unat a \<and> unat a < 0x0E000000 + unat sz"
    from alloc_block_refines [OF inv] that obtain b U where
      b: "spec_alloc (unat (max_blocks p')) (used_frames p') = Some (b, U)" "a = of_nat b * PMM_BLOCK_SIZE"
      by (auto simp: alloc_refines_def split: option.splits)
    note spec = spec_alloc_Some [OF b(1)]
    have "unat a = b * 4096" using frame_address [OF inv_ok [OF inv] spec(1)] b(2) by simp
    with a size(3) have "b \<in> {0xE000..<0xE000 + unat sz div 4096}" by auto
    with zone spec(2) show False by blast
  qed
  with z inv zone base zend size whole show ?thesis by auto
qed

theorem kstack_init_reserves_witness:
  "\<exists>p' z. kstack_init 0x10000000 (pmm_init (replicate 2048 0) 0 0x10000000) kstack_static = (0, p', z)
     \<and> kstack_inv z \<and> {0xE000..<0x10000} \<subseteq> used_frames p'"
proof -
  have z: "zone_size 0x10000000 = Some KSTACK_ZONE_SIZE" by code_simp
  let ?p = "pmm_init (replicate 2048 0) 0 0x10000000"
  have max: "max_blocks ?p = 0x10000000 div PMM_BLOCK_SIZE" by (simp add: pmm_init_def Let_def)
  have inv: "pmm_inv ?p" by (intro pmm_init_spec) simp
  obtain p' z where i: "kstack_init 0x10000000 ?p kstack_static = (0, p', z)"
    by (simp add: kstack_init_def kstack_static_def z)
  have "g_zoneBase z = KSTACK_ZONE_BASE" "g_zoneEnd z = KSTACK_ZONE_BASE + KSTACK_ZONE_SIZE"
    using i by (auto simp: kstack_init_def kstack_static_def z)
  with kstack_init_reserves [OF inv max i] i show ?thesis by auto
qed

end
