(* ===== verification/Paging.thy ===== *)
theory Paging
  imports Kstack
begin

text \<open>
  Two-level x86 page tables, \<^verbatim>\<open>core/paging.cpp\<close>. Physical memory is a function from the
  address of an aligned 32-bit word to its value; page directories and page tables are
  pages of it, reached through 32-bit addresses as in the source. Page-table frames come
  from the physical memory manager's low-memory allocator, which the client lemmas use
  only through the locale \<open>low_frame_source\<close>.
\<close>

subsection \<open>State\<close>

abbreviation PAGE_PRESENT :: u32 where "PAGE_PRESENT \<equiv> 1"
abbreviation PAGE_RW :: u32 where "PAGE_RW \<equiv> 2"
abbreviation PAGE_USER :: u32 where "PAGE_USER \<equiv> 4"
abbreviation LOW_LIMIT :: u32 where "LOW_LIMIT \<equiv> 0x10000000"

type_synonym memory = "u32 \<Rightarrow> u32"

text \<open>
  \<open>vm_frames\<close> is the state of the frame allocator and \<open>vm_depth\<close> the static recursion guard
  \<^verbatim>\<open>paging_map_depth\<close>; \<open>vm_cr3\<close> is the directory register and \<open>vm_kernel_dir\<close> the member
  \<^verbatim>\<open>KernelPageDirectory\<close>.
\<close>

record 'f vm =
  vm_mem :: memory
  vm_frames :: 'f
  vm_depth :: s32
  vm_cr3 :: u32
  vm_kernel_dir :: u32
  vm_active :: bool

text \<open>\<^verbatim>\<open>table[i]\<close> for a \<^verbatim>\<open>uint32_t*\<close>, and \<^verbatim>\<open>memset(page, 0, 4096)\<close>.\<close>

definition entry :: "u32 \<Rightarrow> u32 \<Rightarrow> u32" where
  "entry page i = page + 4 * i"

definition clear_page :: "memory \<Rightarrow> u32 \<Rightarrow> memory" where
  "clear_page m page = (\<lambda>a. if unat page \<le> unat a \<and> unat a < unat page + 4096 then 0 else m a)"

definition pd_index :: "u32 \<Rightarrow> u32" where
  "pd_index virtual_addr = drop_bit 22 virtual_addr"

definition pt_index :: "u32 \<Rightarrow> u32" where
  "pt_index virtual_addr = drop_bit 12 virtual_addr AND 0x03FF"

subsection \<open>Operations\<close>

definition GetPhysicalAddress :: "memory \<Rightarrow> u32 \<Rightarrow> u32 \<Rightarrow> u32" where
  "GetPhysicalAddress m directory virtual_addr =
     (let pde = m (entry directory (pd_index virtual_addr)) in
      if pde AND PAGE_PRESENT = 0 then 0xFFFFFFFF
      else let table = pde AND 0xFFFFF000; pte = m (entry table (pt_index virtual_addr)) in
        if pte AND PAGE_PRESENT = 0 then 0xFFFFFFFF
        else (pte AND 0xFFFFF000) + (virtual_addr AND 0xFFF))"

definition kernel_range :: "u32 \<Rightarrow> bool" where
  "kernel_range pd_idx \<longleftrightarrow> pd_idx < 64 \<or> (768 \<le> pd_idx \<and> pd_idx < 1024)"

text \<open>
  \<^verbatim>\<open>MapPage\<close> over any frame allocator \<open>alloc\<close>; the source's call is the instance below. The
  first step makes sure the page table exists (\<open>None\<close>: the function returns false).
\<close>

definition ensure_table :: "('f \<Rightarrow> u32 \<times> 'f) \<Rightarrow> 'f vm \<Rightarrow> u32 \<Rightarrow> u32 \<Rightarrow> bool \<times> 'f vm" where
  "ensure_table alloc s directory pd_idx =
     (if vm_mem s (entry directory pd_idx) AND PAGE_PRESENT = 0 then
        if 0 < sint (vm_depth s) then (False, s)
        else case alloc (vm_frames s) of
          (new_table, f) \<Rightarrow>
            if new_table = null_ptr then (False, s\<lparr>vm_frames := f\<rparr>)
            else (True, s\<lparr>vm_frames := f,
                vm_mem := (clear_page (vm_mem s) new_table)
                  (entry directory pd_idx := new_table OR PAGE_PRESENT OR PAGE_RW OR PAGE_USER)\<rparr>)
      else (True, s))"

definition map_page_with ::
  "('f \<Rightarrow> u32 \<times> 'f) \<Rightarrow> 'f vm \<Rightarrow> u32 \<Rightarrow> u32 \<Rightarrow> u32 \<Rightarrow> u32 \<Rightarrow> bool \<times> 'f vm" where
  "map_page_with alloc s directory virtual_addr physical_addr flags =
     (let pd_idx = pd_index virtual_addr; pt_idx = pt_index virtual_addr in
      if kernel_range pd_idx then (False, s)
      else case ensure_table alloc s directory pd_idx of
        (False, s') \<Rightarrow> (False, s')
      | (True, s') \<Rightarrow>
          let table = vm_mem s' (entry directory pd_idx) AND 0xFFFFF000 in
          (True, s'\<lparr>vm_mem := (vm_mem s')
             (entry table pt_idx := (physical_addr AND 0xFFFFF000) OR flags)\<rparr>))"

definition MapPage ::
  "pmm_info vm \<Rightarrow> u32 \<Rightarrow> u32 \<Rightarrow> u32 \<Rightarrow> u32 \<Rightarrow> bool \<times> pmm_info vm" where
  "MapPage = map_page_with (\<lambda>p. pmm_alloc_block_low p LOW_LIMIT)"

text \<open>\<^verbatim>\<open>CreateProcessDirectory\<close>: the two copy loops over the shared kernel entries.\<close>

fun copy_entries :: "u32 \<Rightarrow> u32 \<Rightarrow> nat list \<Rightarrow> memory \<Rightarrow> memory" where
  "copy_entries dst src [] m = m"
| "copy_entries dst src (i # is) m =
     copy_entries dst src is (m(entry dst (of_nat i) := m (entry src (of_nat i))))"

definition create_directory_with :: "('f \<Rightarrow> u32 \<times> 'f) \<Rightarrow> 'f vm \<Rightarrow> u32 \<times> 'f vm" where
  "create_directory_with alloc s =
     (case alloc (vm_frames s) of
        (new_dir, f) \<Rightarrow>
          if new_dir = null_ptr then (0, s\<lparr>vm_frames := f\<rparr>)
          else (new_dir, s\<lparr>vm_frames := f,
            vm_mem := copy_entries new_dir (vm_kernel_dir s) kernel_pd_slots (clear_page (vm_mem s) new_dir)\<rparr>))"

definition CreateProcessDirectory :: "pmm_info vm \<Rightarrow> u32 \<times> pmm_info vm" where
  "CreateProcessDirectory = create_directory_with (\<lambda>p. pmm_alloc_block_low p LOW_LIMIT)"

definition SwitchDirectory :: "'f vm \<Rightarrow> u32 \<Rightarrow> 'f vm" where
  "SwitchDirectory s new_dir = (if new_dir = null_ptr then s else s\<lparr>vm_cr3 := new_dir\<rparr>)"

text \<open>
  \<^verbatim>\<open>Activate\<close>: allocate the directory, then one identity-mapped table per kernel slot. The
  source spins forever when an allocation fails, which is \<open>None\<close> here.
\<close>

fun fill_identity :: "u32 \<Rightarrow> u32 \<Rightarrow> nat list \<Rightarrow> memory \<Rightarrow> memory" where
  "fill_identity table i [] m = m"
| "fill_identity table i (j # js) m =
     fill_identity table i js
       (m(entry table (of_nat j) := ((i * 1024 + of_nat j) * 4096) OR PAGE_PRESENT OR PAGE_RW))"

fun install_tables :: "('f \<Rightarrow> u32 \<times> 'f) \<Rightarrow> u32 \<Rightarrow> nat list \<Rightarrow> memory \<times> 'f \<Rightarrow> (memory \<times> 'f) option" where
  "install_tables alloc dir [] mf = Some mf"
| "install_tables alloc dir (i # is) (m, f) =
     (case alloc f of
        (page_table, f') \<Rightarrow>
          if page_table = null_ptr then None
          else let m = clear_page m page_table;
                   m = fill_identity page_table (of_nat i) [0..<1024] m;
                   m = m(entry dir (of_nat i) := page_table OR PAGE_PRESENT OR PAGE_RW) in
            install_tables alloc dir is (m, f'))"

definition activate_with :: "('f \<Rightarrow> u32 \<times> 'f) \<Rightarrow> 'f vm \<Rightarrow> 'f vm option" where
  "activate_with alloc s =
     (case alloc (vm_frames s) of
        (dir, f) \<Rightarrow>
          if dir = null_ptr \<or> dir AND 0xFFF \<noteq> 0 then None
          else map_option (\<lambda>(m, f'). s\<lparr>vm_mem := m, vm_frames := f', vm_kernel_dir := dir,
                 vm_cr3 := dir, vm_active := True\<rparr>)
            (install_tables alloc dir kernel_pd_slots (clear_page (vm_mem s) dir, f)))"

definition Activate :: "pmm_info vm \<Rightarrow> pmm_info vm option" where
  "Activate = activate_with (\<lambda>p. pmm_alloc_block_low p LOW_LIMIT)"

text \<open>
  \<^verbatim>\<open>kstack_zone_activate\<close> (\<^verbatim>\<open>core/kstack.cpp\<close>) unmaps the guard page of every slot in the
  kernel's page tables.
\<close>

fun unmap_guards :: "u32 \<Rightarrow> u32 \<Rightarrow> nat list \<Rightarrow> memory \<Rightarrow> memory" where
  "unmap_guards dir base [] m = m"
| "unmap_guards dir base (s # ss) m =
     (let guard = base + of_nat s * KSTACK_SLOT_SIZE; pde = m (entry dir (pd_index guard)) in
      if pde AND PAGE_PRESENT = 0 then unmap_guards dir base ss m
      else unmap_guards dir base ss (m(entry (pde AND 0xFFFFF000) (pt_index guard) := 0)))"

definition kstack_zone_activate :: "kstack_zone \<Rightarrow> u32 \<Rightarrow> memory \<Rightarrow> memory" where
  "kstack_zone_activate z kernel_page_directory m =
     (if kernel_page_directory = null_ptr \<or> \<not> g_zoneReady z then m
      else unmap_guards kernel_page_directory (g_zoneBase z) [0..<unat (g_slotCount z)] m)"

subsection \<open>Page geometry\<close>

definition page_aligned :: "u32 \<Rightarrow> bool" where
  "page_aligned p \<longleftrightarrow> p AND 0xFFF = 0"

lemma mask12: "0xFFF = (mask 12 :: u32)" by (simp add: mask_eq_exp_minus_1)

lemma mask20: "0xFFFFF000 = (NOT (mask 12) :: u32)" by (simp add: mask_eq_exp_minus_1)

lemma aligned_iff_bits: "page_aligned p \<longleftrightarrow> (\<forall>n<12. \<not> bit p n)"
proof -
  have "page_aligned p \<longleftrightarrow> (\<forall>n. \<not> (n < 12 \<and> bit p n))"
    unfolding page_aligned_def mask12 using bit_imp_le_length [of p]
    by (auto simp: bit_eq_iff bit_simps)
  then show ?thesis by blast
qed

lemma masked_aligned [simp]: "page_aligned (w AND 0xFFFFF000)"
  unfolding mask20 aligned_iff_bits by (auto simp: bit_simps)

lemma mask_aligned: "page_aligned t \<Longrightarrow> f AND 0xFFFFF000 = 0 \<Longrightarrow> (t OR f) AND 0xFFFFF000 = t"
  unfolding mask20 aligned_iff_bits by (auto simp: bit_eq_iff bit_simps)

lemma aligned_iff: "page_aligned p \<longleftrightarrow> unat p mod 4096 = 0"
proof -
  have "p AND 0xFFF = p mod 2 ^ 12" unfolding mask12
    by (simp add: take_bit_eq_mask [symmetric] take_bit_eq_mod)
  then have "page_aligned p \<longleftrightarrow> unat (p mod 4096) = 0" by (simp add: page_aligned_def unat_eq_0)
  then show ?thesis by (simp add: unat_mod_distrib)
qed

lemma aligned_unat:
  assumes "page_aligned p"
  shows "unat p = unat p div 4096 * 4096" and "unat p + 4096 \<le> 2 ^ 32"
proof -
  show eq: "unat p = unat p div 4096 * 4096"
    using assms div_mult_mod_eq [of "unat p" 4096] by (simp add: aligned_iff)
  have "unat p div 4096 < 1048576" using unat_u32_bound [of p] by simp
  with eq have "unat p + 4096 \<le> 4294967296" by linarith
  then show "unat p + 4096 \<le> 2 ^ 32" by simp
qed

lemma pd_index_unat: "unat (pd_index v) = unat v div 2 ^ 22" 
  unfolding pd_index_def drop_bit_eq_div unat_div_distrib by simp

lemma pd_index_bound: "unat (pd_index v) < 1024"
  using unat_u32_bound [of v] by (simp add: pd_index_unat)

lemma pt_index_unat: "unat (pt_index v) = unat v div 4096 mod 1024"
proof -
  have "pt_index v = drop_bit 12 v mod 1024" unfolding pt_index_def
    using take_bit_eq_mask [of 10 "drop_bit 12 v"] by (simp add: mask_eq_exp_minus_1 take_bit_eq_mod)
  then show ?thesis by (simp add: unat_mod_distrib drop_bit_eq_div unat_div_distrib)
qed

lemma pt_index_bound: "unat (pt_index v) < 1024"
  by (simp add: pt_index_unat)

lemma entry_unat:
  assumes "page_aligned p" and "unat i < 1024"
  shows "unat (entry p i) = unat p + 4 * unat i"
proof -
  note p = aligned_unat(2) [OF assms(1)]
  have "unat (4 * i) = 4 * unat i" using unat_mult_small [of 4 i] assms(2) by simp
  then show ?thesis using p assms(2) by (simp add: entry_def unat_add_small)
qed

lemma entry_frame: "page_aligned p \<Longrightarrow> unat i < 1024 \<Longrightarrow> unat (entry p i) div 4096 = unat p div 4096"
  using aligned_unat(1) [of p] by (simp add: entry_unat)

lemma aligned_frame_inj: "page_aligned p \<Longrightarrow> page_aligned q \<Longrightarrow> unat p div 4096 = unat q div 4096 \<Longrightarrow> p = q"
  using aligned_unat(1) [of p] aligned_unat(1) [of q] by (simp add: word_unat_eq_iff)

lemma entry_eq_iff:
  assumes "page_aligned p" "page_aligned q" "unat i < 1024" "unat j < 1024"
  shows "entry p i = entry q j \<longleftrightarrow> p = q \<and> i = j"
proof
  assume eq: "entry p i = entry q j"
  then have pq: "p = q" using entry_frame [OF assms(1,3)] entry_frame [OF assms(2,4)] aligned_frame_inj [OF assms(1,2)] by simp
  with eq entry_unat [OF assms(1,3)] entry_unat [OF assms(2,4)] show "p = q \<and> i = j" by (simp add: word_unat_eq_iff)
qed simp

lemma clear_page_entry:
  assumes "page_aligned p" "page_aligned q" "unat i < 1024"
  shows "clear_page m p (entry q i) = (if p = q then 0 else m (entry q i))"
proof -
  have iff: "k * 4096 \<le> x \<and> x < k * 4096 + 4096 \<longleftrightarrow> x div 4096 = k" for k x :: nat by auto
  have "unat p \<le> unat (entry q i) \<and> unat (entry q i) < unat p + 4096
      \<longleftrightarrow> unat (entry q i) div 4096 = unat p div 4096"
    using iff [of "unat p div 4096" "unat (entry q i)"] aligned_unat(1) [OF assms(1)] by simp
  then show ?thesis using entry_frame [OF assms(2,3)] aligned_frame_inj [OF assms(1,2)] by (auto simp: clear_page_def)
qed

lemma same_page_iff:
  "unat v div 4096 = unat w div 4096 \<longleftrightarrow> pd_index v = pd_index w \<and> pt_index v = pt_index w"
proof -
  have "pd_index v = pd_index w \<longleftrightarrow> unat v div 4096 div 1024 = unat w div 4096 div 1024"
    by (simp add: word_unat_eq_iff pd_index_unat div_mult2_eq [symmetric])
  moreover have "pt_index v = pt_index w \<longleftrightarrow> unat v div 4096 mod 1024 = unat w div 4096 mod 1024"
    by (simp add: word_unat_eq_iff pt_index_unat)
  ultimately show ?thesis by (metis mult_div_mod_eq)
qed
subsection \<open>Address spaces\<close>

text \<open>
  \<open>vm_inv D U m\<close> for the set \<open>D\<close> of live page directories and the set \<open>U\<close> of used frames:
  directories and the tables they point to are used frames, no table is a directory, and
  a table behind a user entry is behind no other entry of any directory.
\<close>

definition present :: "u32 \<Rightarrow> bool" where
  "present e \<longleftrightarrow> e AND PAGE_PRESENT \<noteq> 0"

lemma present_bit: "present e \<longleftrightarrow> bit e 0"
  by (simp add: present_def and_one_eq odd_iff_mod_2_eq_one bit_0)

lemma present_0 [simp]: "\<not> present 0"
  by (simp add: present_def)

definition table_of :: "u32 \<Rightarrow> u32" where
  "table_of e = e AND 0xFFFFF000"

definition live_pde :: "memory \<Rightarrow> u32 \<Rightarrow> u32 \<Rightarrow> bool" where
  "live_pde m d i \<longleftrightarrow> unat i < 1024 \<and> present (m (entry d i))"

definition vm_inv :: "u32 set \<Rightarrow> nat set \<Rightarrow> memory \<Rightarrow> bool" where
  "vm_inv D U m \<longleftrightarrow>
     (\<forall>d\<in>D. page_aligned d \<and> unat d div 4096 \<in> U)
     \<and> (\<forall>d\<in>D. \<forall>i. live_pde m d i \<longrightarrow>
          unat (table_of (m (entry d i))) div 4096 \<in> U \<and> table_of (m (entry d i)) \<notin> D)
     \<and> (\<forall>d\<in>D. \<forall>d'\<in>D. \<forall>i j. live_pde m d i \<and> live_pde m d' j \<and> \<not> kernel_range i
          \<and> table_of (m (entry d i)) = table_of (m (entry d' j)) \<longrightarrow> d = d' \<and> i = j)"

lemma vm_inv_aligned: "vm_inv D U m \<Longrightarrow> d \<in> D \<Longrightarrow> page_aligned d"
  and vm_inv_dir_used: "vm_inv D U m \<Longrightarrow> d \<in> D \<Longrightarrow> unat d div 4096 \<in> U"
  and vm_inv_table: "vm_inv D U m \<Longrightarrow> d \<in> D \<Longrightarrow> live_pde m d i \<Longrightarrow>
    unat (table_of (m (entry d i))) div 4096 \<in> U \<and> table_of (m (entry d i)) \<notin> D"
  and vm_inv_unique: "vm_inv D U m \<Longrightarrow> d \<in> D \<Longrightarrow> d' \<in> D \<Longrightarrow> live_pde m d i \<Longrightarrow> live_pde m d' j \<Longrightarrow>
    \<not> kernel_range i \<Longrightarrow> table_of (m (entry d i)) = table_of (m (entry d' j)) \<Longrightarrow> d = d' \<and> i = j"
  unfolding vm_inv_def by blast+

lemma table_aligned [simp]: "page_aligned (table_of e)"
  by (simp add: table_of_def)

lemma GetPhysicalAddress_alt:
  "GetPhysicalAddress m d v =
     (if live_pde m d (pd_index v) \<and> present (m (entry (table_of (m (entry d (pd_index v)))) (pt_index v)))
      then table_of (m (entry (table_of (m (entry d (pd_index v)))) (pt_index v))) + (v AND 0xFFF)
      else 0xFFFFFFFF)"
  by (simp add: GetPhysicalAddress_def Let_def present_def table_of_def live_pde_def pd_index_bound)

text \<open>Two memories with the same directory entries in \<open>D\<close> satisfy the invariant together.\<close>

lemma vm_inv_cong:
  assumes "vm_inv D U m" and "U \<subseteq> U'"
    and "\<And>d i. d \<in> D \<Longrightarrow> unat i < 1024 \<Longrightarrow> m' (entry d i) = m (entry d i)"
  shows "vm_inv D U' m'"
proof -
  have live: "live_pde m' d i \<longleftrightarrow> live_pde m d i" if "d \<in> D" for d i
    using assms(3) [OF that] by (auto simp: live_pde_def)
  have eq: "m' (entry d i) = m (entry d i)" if "d \<in> D" "live_pde m d i" for d i
    using assms(3) that by (simp add: live_pde_def)
  show ?thesis unfolding vm_inv_def
  proof (intro conjI ballI allI impI)
    fix d i assume "d \<in> D"
    then show "page_aligned d" "unat d div 4096 \<in> U'"
      using assms(1,2) vm_inv_aligned vm_inv_dir_used by blast+
    assume "live_pde m' d i"
    with \<open>d \<in> D\<close> show "unat (table_of (m' (entry d i))) div 4096 \<in> U'" "table_of (m' (entry d i)) \<notin> D"
      using vm_inv_table [OF assms(1)] assms(2) live eq by auto
  next
    fix d d' i j assume "d \<in> D" "d' \<in> D" "live_pde m' d i \<and> live_pde m' d' j \<and> \<not> kernel_range i
      \<and> table_of (m' (entry d i)) = table_of (m' (entry d' j))"
    then show "d = d'" "i = j" using vm_inv_unique [OF assms(1), of d d' i j] live eq by auto
  qed
qed

subsection \<open>Writing one page-table entry\<close>

lemma write_pte:
  fixes e :: u32
  assumes inv: "vm_inv D U m" and d: "d \<in> D" and i: "live_pde m d i" "\<not> kernel_range i"
    and j: "unat j < 1024"
  defines "m' \<equiv> m(entry (table_of (m (entry d i))) j := e)"
  shows "vm_inv D U m'"
    and "d' \<in> D \<Longrightarrow> GetPhysicalAddress m' d' v =
      (if d' = d \<and> pd_index v = i \<and> pt_index v = j
       then if present e then table_of e + (v AND 0xFFF) else 0xFFFFFFFF
       else GetPhysicalAddress m d' v)"
proof -
  let ?T = "table_of (m (entry d i))"
  have T: "?T \<notin> D" using vm_inv_table [OF inv d i(1)] by simp
  have pde: "m' (entry d' k) = m (entry d' k)" if "d' \<in> D" "unat k < 1024" for d' k
  proof -
    have "?T \<noteq> d'" using that(1) T by auto
    then show ?thesis using vm_inv_aligned [OF inv that(1)] that(2) j
      by (simp add: m'_def entry_eq_iff)
  qed
  then show "vm_inv D U m'" by (intro vm_inv_cong [OF inv]) auto
  assume d': "d' \<in> D"
  have eq: "m' (entry d' (pd_index v)) = m (entry d' (pd_index v))"
    using pde [OF d' pd_index_bound] .
  show "GetPhysicalAddress m' d' v =
      (if d' = d \<and> pd_index v = i \<and> pt_index v = j
       then if present e then table_of e + (v AND 0xFFF) else 0xFFFFFFFF
       else GetPhysicalAddress m d' v)"
  proof (cases "live_pde m d' (pd_index v)")
    case live: True
    let ?S = "table_of (m (entry d' (pd_index v)))"
    have "?S = ?T \<longleftrightarrow> d' = d \<and> pd_index v = i"
      using vm_inv_unique [OF inv d d' i(1) live i(2)] by auto
    then have pte: "m' (entry ?S (pt_index v)) =
        (if d' = d \<and> pd_index v = i \<and> pt_index v = j then e else m (entry ?S (pt_index v)))"
      using j pt_index_bound [of v] by (auto simp: m'_def entry_eq_iff)
    from live eq pte show ?thesis by (auto simp: GetPhysicalAddress_alt live_pde_def)
  next
    case False
    with eq i(1) show ?thesis by (auto simp: GetPhysicalAddress_alt live_pde_def)
  qed
qed

text \<open>Building an entry from an aligned frame address and flag bits.\<close>

lemma make_pde:
  assumes "page_aligned t"
  shows "table_of (t OR PAGE_PRESENT OR PAGE_RW OR PAGE_USER) = t" "present (t OR PAGE_PRESENT OR PAGE_RW OR PAGE_USER)"
    "table_of (t OR PAGE_PRESENT OR PAGE_RW) = t" "present (t OR PAGE_PRESENT OR PAGE_RW)"
proof -
  have "(t OR 7) AND 0xFFFFF000 = t" "(t OR 3) AND 0xFFFFF000 = t"
    using assms by (intro mask_aligned; simp)+
  then show "table_of (t OR PAGE_PRESENT OR PAGE_RW OR PAGE_USER) = t"
    "table_of (t OR PAGE_PRESENT OR PAGE_RW) = t"
    by (simp_all add: table_of_def or.assoc)
  show "present (t OR PAGE_PRESENT OR PAGE_RW OR PAGE_USER)" "present (t OR PAGE_PRESENT OR PAGE_RW)"
    unfolding present_bit by (simp_all only: bit_or_iff) simp_all
qed

lemma make_pte:
  assumes "flags AND 0xFFFFF000 = 0"
  shows "table_of ((phys AND 0xFFFFF000) OR flags) = phys AND 0xFFFFF000"
  unfolding table_of_def using assms by (intro mask_aligned) simp_all

lemma make_pte_present:
  "present ((phys AND 0xFFFFF000) OR flags) \<longleftrightarrow> flags AND PAGE_PRESENT \<noteq> 0"
  unfolding present_def [of flags, symmetric] present_bit mask20 by (simp add: bit_simps)

subsection \<open>Copying and filling entries\<close>

lemma kernel_range_slots: "unat i < 1024 \<Longrightarrow> kernel_range i \<longleftrightarrow> unat i \<in> set kernel_pd_slots"
  by (auto simp: kernel_range_def set_kernel_pd_slots word_less_nat_alt word_le_nat_alt)

lemma slots_bound: "i \<in> set kernel_pd_slots \<Longrightarrow> i < 1024"
  by (auto simp: set_kernel_pd_slots)

lemma entry_of_nat_eq:
  assumes "page_aligned p" "page_aligned q" "i < 1024" "unat k < 1024"
  shows "entry p (of_nat i) = entry q k \<longleftrightarrow> p = q \<and> k = of_nat i"
    and "k = of_nat i \<longleftrightarrow> unat k = i"
proof -
  have i: "unat (of_nat i :: u32) = i" using assms(3) by simp
  then show "entry p (of_nat i) = entry q k \<longleftrightarrow> p = q \<and> k = of_nat i"
    using assms entry_eq_iff [of p q "of_nat i" k] by auto
  show "k = of_nat i \<longleftrightarrow> unat k = i" using i by (auto simp: word_unat_eq_iff [of k])
qed

lemma copy_entries_at:
  assumes "page_aligned dst" "page_aligned src" "dst \<noteq> src" "\<forall>i\<in>set is. i < 1024"
    and "page_aligned q" "unat k < 1024"
  shows "copy_entries dst src is m (entry q k) =
    (if q = dst \<and> unat k \<in> set is then m (entry src k) else m (entry q k))"
  using assms(4)
proof (induction "is" arbitrary: m)
  case (Cons i "is")
  then have i: "i < 1024" by simp
  note q = entry_of_nat_eq [OF assms(1,5) i assms(6)] and s = entry_of_nat_eq(1) [OF assms(1,2) i assms(6)]
  let ?m = "m(entry dst (of_nat i) := m (entry src (of_nat i)))"
  have at_q: "?m (entry q k) = (if q = dst \<and> unat k = i then m (entry src k) else m (entry q k))"
    unfolding fun_upd_def using q by metis
  have at_src: "?m (entry src k) = m (entry src k)" unfolding fun_upd_def using s assms(3) by metis
  have "copy_entries dst src (i # is) m (entry q k) =
      (if q = dst \<and> unat k \<in> set is then ?m (entry src k) else ?m (entry q k))"
    using Cons by simp
  then show ?case unfolding at_q at_src by (cases "q = dst"; cases "unat k = i"; cases "unat k \<in> set is") simp_all
qed simp

definition identity_pte :: "u32 \<Rightarrow> u32 \<Rightarrow> u32" where
  "identity_pte i j = ((i * 1024 + j) * 4096) OR PAGE_PRESENT OR PAGE_RW"

lemma fill_identity_at:
  assumes "page_aligned table" "\<forall>j\<in>set js. j < 1024" and "page_aligned q" "unat k < 1024"
  shows "fill_identity table i js m (entry q k) =
    (if q = table \<and> unat k \<in> set js then identity_pte i k else m (entry q k))"
  using assms(2)
proof (induction js arbitrary: m)
  case (Cons j js)
  then have j: "j < 1024" by simp
  note q = entry_of_nat_eq [OF assms(1,3) j assms(4)]
  let ?m = "m(entry table (of_nat j) := identity_pte i (of_nat j))"
  have at_q: "?m (entry q k) = (if q = table \<and> unat k = j then identity_pte i k else m (entry q k))"
    unfolding fun_upd_def using q by metis
  have "fill_identity table i (j # js) m = fill_identity table i js ?m" by (simp add: identity_pte_def)
  then have "fill_identity table i (j # js) m (entry q k) =
      (if q = table \<and> unat k \<in> set js then identity_pte i k else ?m (entry q k))"
    using Cons by simp
  then show ?case unfolding at_q by (cases "q = table"; cases "unat k = j"; cases "unat k \<in> set js") simp_all
qed simp

lemma page_number:
  "unat v = (unat (pd_index v) * 1024 + unat (pt_index v)) * 4096 + unat (v AND 0xFFF)"
proof -
  have "v AND 0xFFF = v mod 4096" unfolding mask12
    by (simp add: take_bit_eq_mask [symmetric] take_bit_eq_mod)
  then have low: "unat (v AND 0xFFF) = unat v mod 4096" by (simp add: unat_mod_distrib)
  have "unat v div 4194304 = unat v div 4096 div 1024" by (simp add: div_mult2_eq [symmetric])
  then have "unat (pd_index v) * 1024 + unat (pt_index v) = unat v div 4096"
    by (simp add: pd_index_unat pt_index_unat)
  then show ?thesis by (simp add: low)
qed

lemma identity_pte_frame:
  assumes "unat i < 1024" "unat j < 1024"
  shows "present (identity_pte i j)" and "unat (table_of (identity_pte i j)) = (unat i * 1024 + unat j) * 4096"
proof -
  have "unat (i * 1024) = unat i * 1024" using unat_mult_small [of i 1024] assms(1) by simp
  then have ij: "unat (i * 1024 + j) = unat i * 1024 + unat j"
    using unat_add_small [of "i * 1024" j] assms by simp
  then have u: "unat ((i * 1024 + j) * 4096) = (unat i * 1024 + unat j) * 4096"
    using unat_mult_small [of "i * 1024 + j" 4096] assms by simp
  then have al: "page_aligned ((i * 1024 + j) * 4096)" by (simp add: aligned_iff)
  show "present (identity_pte i j)" "unat (table_of (identity_pte i j)) = (unat i * 1024 + unat j) * 4096"
    using make_pde(3,4) [OF al] u by (simp_all add: identity_pte_def)
qed

lemma identity_pte_addr: "table_of (identity_pte (pd_index v) (pt_index v)) + (v AND 0xFFF) = v"
proof -
  note f = identity_pte_frame(2) [OF pd_index_bound pt_index_bound, of v v]
  have "unat (table_of (identity_pte (pd_index v) (pt_index v))) + unat (v AND 0xFFF) = unat v"
    using page_number [of v] f by simp
  then show ?thesis using unat_add_small unat_u32_bound [of v] by (metis word_unat_eq_iff)
qed

text \<open>
  A directory under construction by \<^verbatim>\<open>Activate\<close>: the slots in \<open>S\<close> point to identity-mapped
  tables in used frames, all other entries are clear.
\<close>

definition identity_dir :: "u32 \<Rightarrow> nat set \<Rightarrow> nat set \<Rightarrow> memory \<Rightarrow> bool" where
  "identity_dir dir U S m \<longleftrightarrow> page_aligned dir \<and> unat dir div 4096 \<in> U
     \<and> (\<forall>i. unat i < 1024 \<longrightarrow>
          (if unat i \<in> S
           then present (m (entry dir i)) \<and> unat (table_of (m (entry dir i))) div 4096 \<in> U
             \<and> table_of (m (entry dir i)) \<noteq> dir
             \<and> (\<forall>j. unat j < 1024 \<longrightarrow> m (entry (table_of (m (entry dir i))) j) = identity_pte i j)
           else m (entry dir i) = 0))"

lemma identity_dir_translates:
  "identity_dir dir U S m \<Longrightarrow>
   GetPhysicalAddress m dir v = (if unat (pd_index v) \<in> S then v else 0xFFFFFFFF)"
  using pd_index_bound [of v] pt_index_bound [of v]
  by (auto simp: identity_dir_def GetPhysicalAddress_alt live_pde_def identity_pte_addr identity_pte_frame)

lemma identity_dir_live: "identity_dir dir U S m \<Longrightarrow> live_pde m dir i \<longleftrightarrow> unat i < 1024 \<and> unat i \<in> S"
  by (auto simp: identity_dir_def live_pde_def split: if_splits)

text \<open>Distinct entries of a directory lead to distinct tables, none of them the directory.\<close>

definition tables_distinct :: "u32 \<Rightarrow> memory \<Rightarrow> bool" where
  "tables_distinct dir m \<longleftrightarrow> page_aligned dir
     \<and> (\<forall>i. live_pde m dir i \<longrightarrow> table_of (m (entry dir i)) \<noteq> dir)
     \<and> (\<forall>i j. live_pde m dir i \<and> live_pde m dir j
          \<and> table_of (m (entry dir i)) = table_of (m (entry dir j)) \<longrightarrow> i = j)"

lemma identity_dir_distinct:
  assumes "identity_dir dir U S m"
  shows "tables_distinct dir m"
proof -
  have "i = j" if "live_pde m dir i" "live_pde m dir j"
    "table_of (m (entry dir i)) = table_of (m (entry dir j))" for i j
  proof -
    have id: "m (entry (table_of (m (entry dir k))) 0) = identity_pte k 0" if "live_pde m dir k" for k
    proof -
      have "unat k < 1024" "unat k \<in> S" using that by (simp_all add: identity_dir_live [OF assms])
      then show ?thesis using assms unfolding identity_dir_def by (metis unat_0 zero_less_numeral)
    qed
    have "identity_pte i 0 = identity_pte j 0" using id [OF that(1)] id [OF that(2)] that(3) by simp
    then have "unat i * 1024 * 4096 = unat j * 1024 * 4096"
      using that(1,2) identity_pte_frame(2) [of i 0] identity_pte_frame(2) [of j 0] by (simp add: live_pde_def)
    then show ?thesis by (simp add: word_unat_eq_iff)
  qed
  moreover have "table_of (m (entry dir i)) \<noteq> dir" if "live_pde m dir i" for i
    using that assms by (auto simp: identity_dir_live) (auto simp: identity_dir_def)
  moreover have "page_aligned dir" using assms by (simp add: identity_dir_def)
  ultimately show ?thesis unfolding tables_distinct_def by blast
qed

lemma identity_dir_vm_inv:
  assumes id: "identity_dir dir U (set kernel_pd_slots) m"
  shows "vm_inv {dir} U m"
proof -
  have k: "kernel_range i" if "live_pde m dir i" for i
    using that by (simp add: identity_dir_live [OF id] kernel_range_slots)
  have t: "unat (table_of (m (entry dir i))) div 4096 \<in> U \<and> table_of (m (entry dir i)) \<noteq> dir" if "live_pde m dir i" for i
  proof -
    have "unat i < 1024" "unat i \<in> set kernel_pd_slots" using that by (simp_all add: identity_dir_live [OF id])
    then show ?thesis using id unfolding identity_dir_def by (metis (full_types))
  qed
  show ?thesis using id k t unfolding vm_inv_def identity_dir_def by auto
qed

lemma unmap_one:
  assumes dist: "tables_distinct dir m" and i: "live_pde m dir i" and j: "unat j < 1024"
  defines "m' \<equiv> m(entry (table_of (m (entry dir i))) j := 0)"
  shows "tables_distinct dir m'"
    and "GetPhysicalAddress m' dir v =
      (if pd_index v = i \<and> pt_index v = j then 0xFFFFFFFF else GetPhysicalAddress m dir v)"
proof -
  let ?T = "table_of (m (entry dir i))"
  have al: "page_aligned dir" and T: "?T \<noteq> dir" using dist i by (auto simp: tables_distinct_def)
  have pde: "m' (entry dir k) = m (entry dir k)" if "unat k < 1024" for k
    using T al that j by (simp add: m'_def entry_eq_iff)
  then have live: "live_pde m' dir k \<longleftrightarrow> live_pde m dir k" for k by (auto simp: live_pde_def)
  have "table_of (m' (entry dir k)) = table_of (m (entry dir k))" if "live_pde m dir k" for k
    using pde that by (simp add: live_pde_def)
  then show "tables_distinct dir m'" using dist live unfolding tables_distinct_def by auto
  show "GetPhysicalAddress m' dir v =
      (if pd_index v = i \<and> pt_index v = j then 0xFFFFFFFF else GetPhysicalAddress m dir v)"
  proof (cases "live_pde m dir (pd_index v)")
    case True
    let ?S = "table_of (m (entry dir (pd_index v)))"
    have "?S = ?T \<longleftrightarrow> pd_index v = i" using dist True i unfolding tables_distinct_def by blast
    then have pte: "m' (entry ?S (pt_index v)) =
        (if pd_index v = i \<and> pt_index v = j then 0 else m (entry ?S (pt_index v)))"
      using j pt_index_bound [of v] by (auto simp: m'_def entry_eq_iff)
    have "m' (entry dir (pd_index v)) = m (entry dir (pd_index v))" by (rule pde [OF pd_index_bound])
    with True live pte show ?thesis by (simp add: GetPhysicalAddress_alt)
  next
    case False
    with live i show ?thesis by (auto simp: GetPhysicalAddress_alt)
  qed
qed

lemma unmap_guards_spec:
  assumes "tables_distinct dir m"
  shows "GetPhysicalAddress (unmap_guards dir base ss m) dir v =
    (if \<exists>s\<in>set ss. unat v div 4096 = unat (base + of_nat s * KSTACK_SLOT_SIZE) div 4096 then 0xFFFFFFFF
     else GetPhysicalAddress m dir v)"
  using assms
proof (induction ss arbitrary: m)
  case (Cons s ss)
  let ?g = "base + of_nat s * KSTACK_SLOT_SIZE"
  show ?case
  proof (cases "live_pde m dir (pd_index ?g)")
    case True
    let ?m = "m(entry (table_of (m (entry dir (pd_index ?g)))) (pt_index ?g) := 0)"
    note u = unmap_one [OF Cons.prems True pt_index_bound [of ?g]]
    have "unmap_guards dir base (s # ss) m = unmap_guards dir base ss ?m"
      using True by (simp add: live_pde_def present_def table_of_def Let_def)
    then have "GetPhysicalAddress (unmap_guards dir base (s # ss) m) dir v =
      (if \<exists>s\<in>set ss. unat v div 4096 = unat (base + of_nat s * KSTACK_SLOT_SIZE) div 4096 then 0xFFFFFFFF
       else if unat v div 4096 = unat ?g div 4096 then 0xFFFFFFFF else GetPhysicalAddress m dir v)"
      by (simp only: Cons.IH [OF u(1)] u(2) same_page_iff [of v ?g])
    then show ?thesis by (simp only: list.set bex_simps) simp
  next
    case False
    then have "unmap_guards dir base (s # ss) m = unmap_guards dir base ss m"
      using pd_index_bound [of ?g] by (simp add: live_pde_def present_def Let_def)
    moreover have "GetPhysicalAddress m dir v = 0xFFFFFFFF" if "unat v div 4096 = unat ?g div 4096"
      using False that unfolding same_page_iff by (simp add: GetPhysicalAddress_alt)
    ultimately show ?thesis by (simp only: Cons.IH [OF Cons.prems] list.set bex_simps) simp
  qed
qed simp

text \<open>The guard page of slot \<open>i\<close>: the page just below the slot's stack.\<close>

lemma guard_page_of_slot:
  assumes "kstack_ok z" and "i < unat (g_slotCount z)"
  shows "unat v div 4096 = unat (g_zoneBase z + of_nat i * KSTACK_SLOT_SIZE) div 4096
    \<longleftrightarrow> stack_base i - 0x1000 \<le> unat v \<and> unat v < stack_base i"
proof -
  have i: "i \<le> 480" using assms by (simp add: kstack_ok_def)
  then have "unat (of_nat i * KSTACK_SLOT_SIZE :: u32) = i * 0x11000"
    by (subst unat_mult_small) simp_all
  then have g: "unat (g_zoneBase z + of_nat i * KSTACK_SLOT_SIZE) = (0xE000 + i * 0x11) * 4096"
    using i assms(1) by (subst unat_add_small) (simp_all add: kstack_ok_def)
  have iff: "x div 4096 = k \<longleftrightarrow> k * 4096 \<le> x \<and> x < k * 4096 + 4096" for k x :: nat by auto
  have "unat v div 4096 = 0xE000 + i * 0x11 \<longleftrightarrow> stack_base i - 0x1000 \<le> unat v \<and> unat v < stack_base i"
    unfolding iff by (auto simp: stack_base_def)
  then show ?thesis unfolding g by (simp add: mult.commute)
qed

subsection \<open>The frame source, and mapping a page through it\<close>

text \<open>
  What the paging code relies on: an address it is given is a page of an unused frame,
  which is used from then on, and used frames stay used.
\<close>

locale low_frame_source =
  fixes alloc :: "'f \<Rightarrow> u32 \<times> 'f"
    and used :: "'f \<Rightarrow> nat set"
    and ok :: "'f \<Rightarrow> bool"
  assumes alloc_ok: "ok f \<Longrightarrow> alloc f = (a, f') \<Longrightarrow> ok f'"
    and alloc_mono: "ok f \<Longrightarrow> alloc f = (a, f') \<Longrightarrow> used f \<subseteq> used f'"
    and alloc_fresh: "ok f \<Longrightarrow> alloc f = (a, f') \<Longrightarrow> a \<noteq> 0 \<Longrightarrow>
      page_aligned a \<and> unat a div 4096 \<notin> used f \<and> unat a div 4096 \<in> used f'"
begin

lemma new_table:
  assumes ok: "ok f" and al: "alloc f = (a, f')" "a \<noteq> 0" and inv: "vm_inv D (used f) m"
    and d: "d \<in> D" and i: "unat i < 1024" "\<not> present (m (entry d i))"
  defines "m' \<equiv> (clear_page m a)(entry d i := a OR PAGE_PRESENT OR PAGE_RW OR PAGE_USER)"
  shows "vm_inv D (used f') m'" and "live_pde m' d i"
    and "d' \<in> D \<Longrightarrow> GetPhysicalAddress m' d' v = GetPhysicalAddress m d' v"
proof -
  note fresh = alloc_fresh [OF ok al] and mono = alloc_mono [OF ok al(1)]
  have a: "page_aligned a" using fresh by simp
  have not_used: "x \<noteq> a" if "unat x div 4096 \<in> used f" for x using fresh that by auto
  have aD: "d' \<noteq> a" if "d' \<in> D" for d' using vm_inv_dir_used [OF inv that] not_used by blast
  have pde: "m' (entry d' k) = (if d' = d \<and> k = i then a OR PAGE_PRESENT OR PAGE_RW OR PAGE_USER
      else m (entry d' k))" if "d' \<in> D" "unat k < 1024" for d' k
    using that aD [OF that(1)] vm_inv_aligned [OF inv] d i(1) a
    by (auto simp: m'_def entry_eq_iff clear_page_entry)
  have own: "table_of (m' (entry d i)) = a" and present_i: "present (m' (entry d i))"
    using pde [OF d i(1)] make_pde [OF a] by simp_all
  then show "live_pde m' d i" using i(1) by (simp add: live_pde_def)
  have live: "live_pde m' d' k \<longleftrightarrow> (d' = d \<and> k = i) \<or> live_pde m d' k" if "d' \<in> D" for d' k
    using pde [OF that] present_i i(1) by (auto simp: live_pde_def split: if_splits)
  have tab: "table_of (m' (entry d' k)) = table_of (m (entry d' k))" "table_of (m (entry d' k)) \<noteq> a"
    if "d' \<in> D" "live_pde m d' k" for d' k
  proof -
    have "\<not> (d' = d \<and> k = i)" using that(2) i(2) by (auto simp: live_pde_def)
    then show "table_of (m' (entry d' k)) = table_of (m (entry d' k))"
      using pde [OF that(1)] that(2) by (auto simp: live_pde_def)
    show "table_of (m (entry d' k)) \<noteq> a" using vm_inv_table [OF inv that] not_used by blast
  qed
  have not_live: "\<not> live_pde m d i" using i(2) by (simp add: live_pde_def)
  show "vm_inv D (used f') m'" unfolding vm_inv_def
  proof (intro conjI ballI allI impI)
    fix d' k assume d': "d' \<in> D"
    then show "page_aligned d'" "unat d' div 4096 \<in> used f'"
      using vm_inv_aligned [OF inv] vm_inv_dir_used [OF inv] mono by blast+
    assume "live_pde m' d' k"
    then consider "d' = d" "k = i" | "live_pde m d' k" using live [OF d'] by blast
    then show "unat (table_of (m' (entry d' k))) div 4096 \<in> used f'" "table_of (m' (entry d' k)) \<notin> D"
      using own fresh aD vm_inv_table [OF inv d'] tab [OF d'] mono by (cases; auto)+
  next
    fix d1 d2 k l assume D: "d1 \<in> D" "d2 \<in> D" and h: "live_pde m' d1 k \<and> live_pde m' d2 l \<and> \<not> kernel_range k
      \<and> table_of (m' (entry d1 k)) = table_of (m' (entry d2 l))"
    have "(d1 = d \<and> k = i) \<longleftrightarrow> (d2 = d \<and> l = i)"
      using h live [OF D(1)] live [OF D(2)] own tab [OF D(1)] tab [OF D(2)] by metis
    moreover have "d1 = d2 \<and> k = l" if "live_pde m d1 k" "live_pde m d2 l"
      using vm_inv_unique [OF inv D that] h tab(1) [OF D(1) that(1)] tab(1) [OF D(2) that(2)] by simp
    ultimately show "d1 = d2" "k = l" using h live [OF D(1)] live [OF D(2)] by blast+
  qed
  assume d': "d' \<in> D"
  show "GetPhysicalAddress m' d' v = GetPhysicalAddress m d' v"
  proof (cases "d' = d \<and> pd_index v = i")
    case True
    have "m' (entry a (pt_index v)) = 0"
      using a vm_inv_aligned [OF inv d] aD [OF d] i(1) pt_index_bound [of v]
      by (auto simp: m'_def entry_eq_iff clear_page_entry)
    with True own not_live show ?thesis by (simp add: GetPhysicalAddress_alt present_def)
  next
    case False
    show ?thesis
    proof (cases "live_pde m d' (pd_index v)")
      case True
      have "table_of (m (entry d' (pd_index v))) \<noteq> d" using vm_inv_table [OF inv d' True] d by auto
      then have "m' (entry (table_of (m (entry d' (pd_index v)))) (pt_index v))
          = m (entry (table_of (m (entry d' (pd_index v)))) (pt_index v))"
        using a tab(2) [OF d' True] vm_inv_aligned [OF inv d] i(1) pt_index_bound [of v]
        by (auto simp: m'_def entry_eq_iff clear_page_entry)
      with True False tab(1) [OF d' True] live [OF d'] pde [OF d' pd_index_bound]
      show ?thesis by (auto simp: GetPhysicalAddress_alt)
    next
      case nl: False
      with False live [OF d'] show ?thesis by (auto simp: GetPhysicalAddress_alt)
    qed
  qed
qed

lemma ensure_table_spec:
  assumes ok: "ok (vm_frames s)" and inv: "vm_inv D (used (vm_frames s)) (vm_mem s)" and d: "d \<in> D"
    and i: "unat i < 1024" and r: "ensure_table alloc s d i = (b, s')"
  shows "ok (vm_frames s')" and "vm_inv D (used (vm_frames s')) (vm_mem s')"
    and "b \<Longrightarrow> live_pde (vm_mem s') d i"
    and "d' \<in> D \<Longrightarrow> GetPhysicalAddress (vm_mem s') d' v = GetPhysicalAddress (vm_mem s) d' v"
proof -
  obtain a f where al: "alloc (vm_frames s) = (a, f)" by fastforce
  note f = alloc_ok [OF ok al]
  have grow: "vm_inv D (used f) (vm_mem s)"
    using vm_inv_cong [OF inv alloc_mono [OF ok al]] by simp
  consider (old) "present (vm_mem s (entry d i))" "b" "s' = s"
    | (deep) "\<not> b" "s' = s" | (full) "\<not> b" "s' = s\<lparr>vm_frames := f\<rparr>"
    | (new) "\<not> present (vm_mem s (entry d i))" "a \<noteq> 0" "s' = s\<lparr>vm_frames := f, vm_mem := (clear_page (vm_mem s) a)
        (entry d i := a OR PAGE_PRESENT OR PAGE_RW OR PAGE_USER)\<rparr>"
    using r by (auto simp: ensure_table_def present_def al split: if_splits)
  then have "ok (vm_frames s') \<and> vm_inv D (used (vm_frames s')) (vm_mem s') \<and> (b \<longrightarrow> live_pde (vm_mem s') d i)
    \<and> (d' \<in> D \<longrightarrow> GetPhysicalAddress (vm_mem s') d' v = GetPhysicalAddress (vm_mem s) d' v)"
  proof cases
    case new
    show ?thesis using new_table [OF ok al new(2) inv d i new(1)] f by (simp add: new(3))
  qed (use ok inv f grow i in \<open>auto simp: live_pde_def\<close>)
  then show "ok (vm_frames s')" "vm_inv D (used (vm_frames s')) (vm_mem s')"
    "b \<Longrightarrow> live_pde (vm_mem s') d i"
    "d' \<in> D \<Longrightarrow> GetPhysicalAddress (vm_mem s') d' v = GetPhysicalAddress (vm_mem s) d' v" by auto
qed

lemma map_page_spec:
  assumes ok: "ok (vm_frames s)" and inv: "vm_inv D (used (vm_frames s)) (vm_mem s)" and d: "d \<in> D"
    and r: "map_page_with alloc s d v phys flags = (b, s')" and fl: "flags AND 0xFFFFF000 = 0"
  shows "ok (vm_frames s')" and "vm_inv D (used (vm_frames s')) (vm_mem s')"
    and "d' \<in> D \<Longrightarrow> GetPhysicalAddress (vm_mem s') d' w =
      (if b \<and> d' = d \<and> unat w div 4096 = unat v div 4096
       then if flags AND PAGE_PRESENT \<noteq> 0 then (phys AND 0xFFFFF000) + (w AND 0xFFF) else 0xFFFFFFFF
       else GetPhysicalAddress (vm_mem s) d' w)"
    and "kernel_range (pd_index v) \<Longrightarrow> \<not> b"
proof -
  obtain c t where e: "ensure_table alloc s d (pd_index v) = (c, t)" by fastforce
  note E = ensure_table_spec [OF ok inv d pd_index_bound e]
  have "ok (vm_frames s') \<and> vm_inv D (used (vm_frames s')) (vm_mem s')
    \<and> (d' \<in> D \<longrightarrow> GetPhysicalAddress (vm_mem s') d' w =
      (if b \<and> d' = d \<and> unat w div 4096 = unat v div 4096
       then if flags AND PAGE_PRESENT \<noteq> 0 then (phys AND 0xFFFFF000) + (w AND 0xFFF) else 0xFFFFFFFF
       else GetPhysicalAddress (vm_mem s) d' w))"
  proof (cases "kernel_range (pd_index v) \<or> \<not> c")
    case True
    then have "\<not> b" and "s' = s \<or> s' = t" using r e by (auto simp: map_page_with_def Let_def split: if_splits)
    with ok inv E show ?thesis by auto
  next
    case False
    then have s': "b" "s' = t\<lparr>vm_mem := (vm_mem t)(entry (table_of (vm_mem t (entry d (pd_index v)))) (pt_index v)
        := (phys AND 0xFFFFF000) OR flags)\<rparr>"
      using r e by (simp_all add: map_page_with_def Let_def table_of_def)
    have live: "live_pde (vm_mem t) d (pd_index v)" using E(3) False by simp
    have nk: "\<not> kernel_range (pd_index v)" using False by simp
    note W = write_pte [OF E(2) d live nk pt_index_bound [of v], where e = "(phys AND 0xFFFFF000) OR flags"]
    show ?thesis using W(1) W(2) [of d' w] E(1) E(4) [of d' w] s'
      by (auto simp: same_page_iff make_pte [OF fl] make_pte_present)
  qed
  then show "ok (vm_frames s')" "vm_inv D (used (vm_frames s')) (vm_mem s')"
    "d' \<in> D \<Longrightarrow> GetPhysicalAddress (vm_mem s') d' w =
      (if b \<and> d' = d \<and> unat w div 4096 = unat v div 4096
       then if flags AND PAGE_PRESENT \<noteq> 0 then (phys AND 0xFFFFF000) + (w AND 0xFFF) else 0xFFFFFFFF
       else GetPhysicalAddress (vm_mem s) d' w)" by auto
  show "kernel_range (pd_index v) \<Longrightarrow> \<not> b" using r by (simp add: map_page_with_def Let_def)
qed

lemma create_directory_spec:
  assumes ok: "ok (vm_frames s)" and inv: "vm_inv D (used (vm_frames s)) (vm_mem s)"
    and K: "vm_kernel_dir s \<in> D" and r: "create_directory_with alloc s = (nd, s')" and nd: "nd \<noteq> 0"
  shows "ok (vm_frames s')" and "nd \<notin> D" and "vm_inv (insert nd D) (used (vm_frames s')) (vm_mem s')"
    and "d \<in> D \<Longrightarrow> GetPhysicalAddress (vm_mem s') d v = GetPhysicalAddress (vm_mem s) d v"
    and "GetPhysicalAddress (vm_mem s') nd v =
      (if kernel_range (pd_index v) then GetPhysicalAddress (vm_mem s) (vm_kernel_dir s) v else 0xFFFFFFFF)"
proof -
  let ?K = "vm_kernel_dir s" and ?m = "vm_mem s" and ?m' = "vm_mem s'"
  obtain f where al: "alloc (vm_frames s) = (nd, f)"
    and s': "s' = s\<lparr>vm_frames := f, vm_mem := copy_entries nd ?K kernel_pd_slots (clear_page ?m nd)\<rparr>"
    using r nd by (auto simp: create_directory_with_def split: prod.splits if_splits)
  have frames: "vm_frames s' = f" by (simp add: s')
  note fresh = alloc_fresh [OF ok al nd] and mono = alloc_mono [OF ok al]
  have not_used: "x \<noteq> nd" if "unat x div 4096 \<in> used (vm_frames s)" for x using fresh that by auto
  show "ok (vm_frames s')" using alloc_ok [OF ok al] s' by simp
  show ndD: "nd \<notin> D" using not_used vm_inv_dir_used [OF inv] by blast
  have nK: "nd \<noteq> ?K" using ndD K by auto
  have KA: "page_aligned ?K" by (rule vm_inv_aligned [OF inv K])
  have at: "?m' (entry q k) = (if q = nd then if kernel_range k then ?m (entry ?K k) else 0 else ?m (entry q k))"
    if "page_aligned q" "unat k < 1024" for q k
  proof -
    have "?m' (entry q k) = (if q = nd \<and> kernel_range k then clear_page ?m nd (entry ?K k) else clear_page ?m nd (entry q k))"
      using copy_entries_at [of nd ?K kernel_pd_slots q k "clear_page ?m nd"] fresh KA nK that slots_bound
      by (simp add: s' kernel_range_slots)
    then show ?thesis using that fresh KA nK by (auto simp: clear_page_entry)
  qed
  have old: "?m' (entry d k) = ?m (entry d k)" if "d \<in> D" "unat k < 1024" for d k
    using at [OF vm_inv_aligned [OF inv that(1)] that(2)] that(1) ndD by auto
  have live_old: "live_pde ?m' d k \<longleftrightarrow> live_pde ?m d k" if "d \<in> D" for d k
    using old [OF that] by (auto simp: live_pde_def)
  have live_new: "live_pde ?m' nd k \<longleftrightarrow> kernel_range k \<and> live_pde ?m ?K k" for k
    using at [of nd k] fresh by (auto simp: live_pde_def present_def split: if_splits)
  have inv': "vm_inv D (used f) ?m'" by (rule vm_inv_cong [OF inv mono old])
  have new_entry: "?m' (entry nd k) = ?m' (entry ?K k)" if "live_pde ?m' nd k" for k
    using that at [of nd k] old [OF K] live_new fresh by (auto simp: live_pde_def)
  have tab: "table_of (?m' (entry d k)) \<noteq> nd" if "d \<in> D" "live_pde ?m d k" for d k
    using vm_inv_table [OF inv that] old that not_used by (auto simp: live_pde_def)
  have K': "live_pde ?m' ?K k \<and> kernel_range k" if "live_pde ?m' nd k" for k
    using that live_new live_old [OF K] by simp
  show "vm_inv (insert nd D) (used (vm_frames s')) ?m'" unfolding vm_inv_def frames
  proof (intro conjI ballI allI impI)
    fix d k assume d: "d \<in> insert nd D"
    then show "page_aligned d" "unat d div 4096 \<in> used f"
      using fresh vm_inv_aligned [OF inv'] vm_inv_dir_used [OF inv'] by blast+
    assume live: "live_pde ?m' d k"
    then obtain e where e: "e \<in> D" "live_pde ?m' e k" "?m' (entry d k) = ?m' (entry e k)"
      using d new_entry K' K by blast
    show "unat (table_of (?m' (entry d k))) div 4096 \<in> used f" "table_of (?m' (entry d k)) \<notin> insert nd D"
      using vm_inv_table [OF inv' e(1,2)] tab [OF e(1)] e live_old [OF e(1)] by auto
  next
    fix d1 d2 k l assume D: "d1 \<in> insert nd D" "d2 \<in> insert nd D" and h: "live_pde ?m' d1 k \<and> live_pde ?m' d2 l
      \<and> \<not> kernel_range k \<and> table_of (?m' (entry d1 k)) = table_of (?m' (entry d2 l))"
    have d1: "d1 \<in> D" using h D(1) live_new by auto
    have "d2 \<in> D" 
    proof (rule ccontr)
      assume "d2 \<notin> D"
      then have "d2 = nd" using D(2) by simp
      then show False using vm_inv_unique [OF inv' d1 K] h K' [of l] new_entry [of l] by auto
    qed
    then show "d1 = d2" "k = l" using vm_inv_unique [OF inv' d1] h by blast+
  qed
  have same: "GetPhysicalAddress ?m' d v = GetPhysicalAddress ?m d v" if d: "d \<in> D" for d v
  proof (cases "live_pde ?m d (pd_index v)")
    case True
    then have "table_of (?m (entry d (pd_index v))) \<noteq> nd" using vm_inv_table [OF inv d True] not_used by blast
    then show ?thesis using at [OF table_aligned pt_index_bound] old [OF d pd_index_bound] live_old [OF d]
      by (simp add: GetPhysicalAddress_alt)
  next
    case False
    then show ?thesis using live_old [OF d] by (simp add: GetPhysicalAddress_alt)
  qed
  then show "d \<in> D \<Longrightarrow> GetPhysicalAddress ?m' d v = GetPhysicalAddress ?m d v" by simp
  show "GetPhysicalAddress ?m' nd v =
      (if kernel_range (pd_index v) then GetPhysicalAddress ?m ?K v else 0xFFFFFFFF)"
  proof (cases "live_pde ?m' nd (pd_index v)")
    case True
    then have "GetPhysicalAddress ?m' nd v = GetPhysicalAddress ?m' ?K v"
      using K' [OF True] new_entry [OF True] by (simp add: GetPhysicalAddress_alt)
    then show ?thesis using K' [OF True] same [OF K, of v] by simp
  next
    case False
    then show ?thesis using live_new live_old [OF K] same [OF K, of v] by (auto simp: GetPhysicalAddress_alt)
  qed
qed

lemma install_table_step:
  assumes ok: "ok f" and al: "alloc f = (t, f')" "t \<noteq> 0" and id: "identity_dir dir (used f) S m"
    and i: "unat i < 1024" "unat i \<notin> S"
  shows "identity_dir dir (used f') (insert (unat i) S)
    ((fill_identity t i [0..<1024] (clear_page m t))(entry dir i := t OR PAGE_PRESENT OR PAGE_RW))"
    (is "identity_dir _ _ _ ?m'")
proof -
  note fresh = alloc_fresh [OF ok al] and mono = alloc_mono [OF ok al(1)]
  have t: "page_aligned t" and dir: "page_aligned dir" "unat dir div 4096 \<in> used f"
    using fresh id by (auto simp: identity_dir_def)
  have td: "t \<noteq> dir" using fresh dir by auto
  have at: "?m' (entry q k) = (if q = dir \<and> k = i then t OR PAGE_PRESENT OR PAGE_RW
      else if q = t then identity_pte i k else m (entry q k))" if "page_aligned q" "unat k < 1024" for q k
    using that t dir i fill_identity_at [of t "[0..<1024]" q k i "clear_page m t"]
    by (auto simp: entry_eq_iff clear_page_entry simp del: upt_rec_numeral)
  note e = make_pde(3,4) [OF t]
  show ?thesis unfolding identity_dir_def
  proof (intro conjI allI impI)
    show "page_aligned dir" "unat dir div 4096 \<in> used f'" using dir mono by auto
    fix k :: u32 assume k: "unat k < 1024"
    show "if unat k \<in> insert (unat i) S
      then present (?m' (entry dir k)) \<and> unat (table_of (?m' (entry dir k))) div 4096 \<in> used f'
        \<and> table_of (?m' (entry dir k)) \<noteq> dir
        \<and> (\<forall>j. unat j < 1024 \<longrightarrow> ?m' (entry (table_of (?m' (entry dir k))) j) = identity_pte k j)
      else ?m' (entry dir k) = 0"
    proof (cases "k = i")
      case True
      then have "?m' (entry dir k) = t OR PAGE_PRESENT OR PAGE_RW" using at [OF dir(1) k] by simp
      moreover have "?m' (entry t j) = identity_pte i j" if "unat j < 1024" for j
        using at [OF t that] td by simp
      ultimately show ?thesis using True e fresh td by simp
    next
      case False
      then have mk: "?m' (entry dir k) = m (entry dir k)" and ki: "unat k \<noteq> unat i"
        using at [OF dir(1) k] td by (auto simp: word_unat_eq_iff)
      show ?thesis
      proof (cases "unat k \<in> S")
        case True
        let ?T = "table_of (m (entry dir k))"
        have T: "present (m (entry dir k))" "unat ?T div 4096 \<in> used f" "?T \<noteq> dir"
          "\<forall>j. unat j < 1024 \<longrightarrow> m (entry ?T j) = identity_pte k j"
          using id k True by (auto simp: identity_dir_def)
        then have "?T \<noteq> t" using fresh by auto
        with T have "?m' (entry ?T j) = identity_pte k j" if "unat j < 1024" for j
          using at [OF table_aligned that] that by simp
        with T True mono show ?thesis by (auto simp only: mk if_True insert_iff simp_thms)
      next
        case nS: False
        then have "m (entry dir k) = 0" using id k by (simp add: identity_dir_def)
        then show ?thesis using nS ki by (simp only: mk insert_iff) simp
      qed
    qed
  qed
qed

lemma install_tables_spec:
  assumes "install_tables alloc dir is (m, f) = Some (m', f')"
    and "ok f" and "identity_dir dir (used f) S m" and "distinct is" "\<forall>i\<in>set is. i < 1024" "set is \<inter> S = {}"
  shows "ok f' \<and> identity_dir dir (used f') (S \<union> set is) m'"
  using assms
proof (induction "is" arbitrary: m f S)
  case (Cons i "is")
  obtain t g where al: "alloc f = (t, g)" by fastforce
  from Cons.prems(1) al have t: "t \<noteq> 0" by (auto split: if_splits)
  let ?m = "(fill_identity t (of_nat i) [0..<1024] (clear_page m t))
     (entry dir (of_nat i) := t OR PAGE_PRESENT OR PAGE_RW)"
  have rest: "install_tables alloc dir is (?m, g) = Some (m', f')"
    using Cons.prems(1) al t by (simp only: install_tables.simps Let_def prod.case if_False)
  have i: "unat (of_nat i :: u32) = i" using Cons.prems(5) by simp
  have "identity_dir dir (used g) (insert i S) ?m"
    using install_table_step [OF Cons.prems(2) al t Cons.prems(3), of "of_nat i"] Cons.prems(5,6) unfolding i by simp
  from Cons.IH [OF rest alloc_ok [OF Cons.prems(2) al] this] Cons.prems
  show ?case by auto
qed auto

lemma activate_spec:
  assumes "ok (vm_frames s)" and "activate_with alloc s = Some s'"
  shows "ok (vm_frames s')"
    and "identity_dir (vm_kernel_dir s') (used (vm_frames s')) (set kernel_pd_slots) (vm_mem s')"
    and "vm_kernel_dir s' \<noteq> 0"
    and "vm_cr3 s' = vm_kernel_dir s'" and "vm_active s'"
proof -
  obtain dir f where al: "alloc (vm_frames s) = (dir, f)" by fastforce
  with assms(2) obtain m f' where dir: "dir \<noteq> 0"
    and run: "install_tables alloc dir kernel_pd_slots (clear_page (vm_mem s) dir, f) = Some (m, f')"
    and s': "s' = s\<lparr>vm_mem := m, vm_frames := f', vm_kernel_dir := dir, vm_cr3 := dir, vm_active := True\<rparr>"
    by (auto simp: activate_with_def split: if_splits)
  note fresh = alloc_fresh [OF assms(1) al dir]
  have start: "identity_dir dir (used f) {} (clear_page (vm_mem s) dir)"
    using fresh by (simp add: identity_dir_def clear_page_entry)
  have "distinct kernel_pd_slots" unfolding kernel_pd_slots_def
    by (simp only: distinct_append distinct_upt set_upt) auto
  from install_tables_spec [OF run alloc_ok [OF assms(1) al] start this] slots_bound
  show "ok (vm_frames s')"
    "identity_dir (vm_kernel_dir s') (used (vm_frames s')) (set kernel_pd_slots) (vm_mem s')"
    by (simp_all add: s')
  show "vm_kernel_dir s' \<noteq> 0" "vm_cr3 s' = vm_kernel_dir s'" "vm_active s'" using dir by (simp_all add: s')
qed

end

text \<open>
  A source that can say how many more pages it will supply; then \<^verbatim>\<open>Activate\<close> does not hang
  when the count covers the directory and its 320 tables.
\<close>

locale low_frame_supply = low_frame_source +
  fixes avail :: "'a \<Rightarrow> nat"
  assumes alloc_avail: "ok f \<Longrightarrow> alloc f = (a, f') \<Longrightarrow> 0 < avail f \<Longrightarrow> a \<noteq> 0 \<and> avail f = Suc (avail f')"
begin

lemma install_tables_total:
  "ok f \<Longrightarrow> length is \<le> avail f \<Longrightarrow> install_tables alloc dir is (m, f) \<noteq> None"
proof (induction "is" arbitrary: m f)
  case (Cons i "is")
  obtain t g where al: "alloc f = (t, g)" by fastforce
  then have "t \<noteq> 0" "avail f = Suc (avail g)" using alloc_avail [OF Cons.prems(1) al] Cons.prems(2) by auto
  then show ?case using Cons.IH [of g] alloc_ok [OF Cons.prems(1) al] Cons.prems(2) al
    by (simp add: Let_def del: upt_rec_numeral)
qed simp

lemma activate_total:
  assumes "ok (vm_frames s)" and "Suc (length kernel_pd_slots) \<le> avail (vm_frames s)"
  shows "activate_with alloc s \<noteq> None"
proof -
  obtain dir f where al: "alloc (vm_frames s) = (dir, f)" by fastforce
  from alloc_avail [OF assms(1) al] assms(2) have dir: "dir \<noteq> 0" and f: "length kernel_pd_slots \<le> avail f" by auto
  have "dir AND 0xFFF = 0" using alloc_fresh [OF assms(1) al dir] by (simp add: page_aligned_def)
  with install_tables_total [OF alloc_ok [OF assms(1) al] f] al dir show ?thesis
    by (simp add: activate_with_def)
qed

end

subsection \<open>The physical memory manager as the frame source\<close>

text \<open>
  The low-memory allocator answers null for frame 0, which it marks used all the same; the
  supply counts the free low frames once frame 0 is reserved.
\<close>

definition low_avail :: "pmm_info \<Rightarrow> nat" where
  "low_avail p = (if 0 \<in> used_frames p
     then card ({..<min (unat LOW_LIMIT div 4096) (unat (max_blocks p))} - used_frames p) else 0)"

lemma low_alloc_cases:
  assumes "pmm_inv p" and "pmm_alloc_block_low p limit = (a, p')"
  obtains (none) "{..<min (unat limit div 4096) (unat (max_blocks p))} \<subseteq> used_frames p" "a = 0" "p' = p"
  | (some) b where "b < min (unat limit div 4096) (unat (max_blocks p))" "b \<notin> used_frames p"
      "unat a = b * 4096" "used_frames p' = insert b (used_frames p)" "pmm_inv p'" "max_blocks p' = max_blocks p"
proof (cases "spec_alloc (min (unat limit div 4096) (unat (max_blocks p))) (used_frames p)")
  case None
  then show ?thesis using alloc_block_low_refines [OF assms(1), of limit] assms(2)
    by (intro none) (auto simp: alloc_refines_def spec_alloc_def Let_def split: if_splits)
next
  case (Some bU)
  then obtain b U where bU: "spec_alloc (min (unat limit div 4096) (unat (max_blocks p))) (used_frames p) = Some (b, U)"
    by (cases bU) auto
  note spec = spec_alloc_Some [OF bU]
  have "unat (of_nat b * PMM_BLOCK_SIZE) = b * 4096" using frame_address [OF inv_ok [OF assms(1)], of b] spec(1) by simp
  then show ?thesis using alloc_block_low_refines [OF assms(1), of limit] assms(2) bU spec
    by (intro some [of b]) (auto simp: alloc_refines_def)
qed

interpretation pmm_low: low_frame_supply "\<lambda>p. pmm_alloc_block_low p LOW_LIMIT" used_frames pmm_inv low_avail
proof
  fix p a p' assume inv: "pmm_inv p" and al: "pmm_alloc_block_low p LOW_LIMIT = (a, p')"
  show "pmm_inv p'" by (cases rule: low_alloc_cases [OF inv al]) (use inv in auto)
  show "used_frames p \<subseteq> used_frames p'" by (cases rule: low_alloc_cases [OF inv al]) auto
  show "page_aligned a \<and> unat a div 4096 \<notin> used_frames p \<and> unat a div 4096 \<in> used_frames p'" if "a \<noteq> 0"
    by (cases rule: low_alloc_cases [OF inv al]) (use that in \<open>auto simp: aligned_iff\<close>)
  assume av: "0 < low_avail p"
  then have used0: "0 \<in> used_frames p" by (auto simp: low_avail_def split: if_splits)
  show "a \<noteq> 0 \<and> low_avail p = Suc (low_avail p')"
    using inv al
  proof (cases rule: low_alloc_cases)
    case none
    then have "{..<min (unat LOW_LIMIT div 4096) (unat (max_blocks p))} - used_frames p = {}" by blast
    with av used0 have False by (simp only: low_avail_def if_True card.empty)
    then show ?thesis ..
  next
    case (some b)
    let ?F = "\<lambda>p. {..<min (unat LOW_LIMIT div 4096) (unat (max_blocks p))} - used_frames p"
    have "b \<noteq> 0" using some(2) used0 by metis
    then have "a \<noteq> 0" using some(3) by auto
    moreover have "?F p = insert b (?F p')" "b \<notin> ?F p'" using some by auto
    then have "card (?F p) = Suc (card (?F p'))" by simp
    ultimately show ?thesis using used0 some(4) by (simp only: low_avail_def if_True insert_iff simp_thms)
  qed
qed

subsection \<open>Properties\<close>

text \<open>A directory in frame 4 of the sample memory, empty but for being live.\<close>

definition sample_vm :: "pmm_info vm" where
  "sample_vm = \<lparr>vm_mem = (\<lambda>_. 0), vm_frames = sample_pmm, vm_depth = 0, vm_cr3 = 0x4000,
     vm_kernel_dir = 0x4000, vm_active = True\<rparr>"

lemma sample_vm_inv: "vm_inv {0x4000} (used_frames (vm_frames sample_vm)) (vm_mem sample_vm)"
proof -
  have "page_aligned 0x4000" by code_simp
  then show ?thesis by (simp add: vm_inv_def sample_vm_def sample_pmm_used live_pde_def)
qed

text \<open>
  Property C5. \<^verbatim>\<open>MapPage\<close> is an update of one page of one address space: on success the
  4 KiB page of the given directory translates to the requested frame (or becomes unmapped
  if the flags lack the present bit), and every other page of that directory and every
  page of every other live directory translates as before; on failure no translation
  changes. Addresses of the shared kernel ranges are always refused. The separation of
  the page tables is kept.
\<close>

theorem MapPage_updates_one_page:
  assumes "pmm_inv (vm_frames s)" and "vm_inv D (used_frames (vm_frames s)) (vm_mem s)" and "d \<in> D"
    and "flags AND 0xFFFFF000 = 0" and "MapPage s d v phys flags = (b, s')"
  shows "pmm_inv (vm_frames s') \<and> vm_inv D (used_frames (vm_frames s')) (vm_mem s')
    \<and> (kernel_range (pd_index v) \<longrightarrow> \<not> b)
    \<and> (\<forall>d'\<in>D. \<forall>w. GetPhysicalAddress (vm_mem s') d' w =
        (if b \<and> d' = d \<and> unat w div 4096 = unat v div 4096
         then if flags AND PAGE_PRESENT \<noteq> 0 then (phys AND 0xFFFFF000) + (w AND 0xFFF) else 0xFFFFFFFF
         else GetPhysicalAddress (vm_mem s) d' w))"
  using pmm_low.map_page_spec [OF assms(1,2,3) assms(5) [unfolded MapPage_def] assms(4)] by blast

theorem MapPage_updates_one_page_witness:
  "\<exists>s'. MapPage sample_vm 0x4000 0x40000000 0x5000 7 = (True, s')
     \<and> GetPhysicalAddress (vm_mem s') 0x4000 0x40000123 = 0x5123
     \<and> GetPhysicalAddress (vm_mem s') 0x4000 0x40001123 = 0xFFFFFFFF"
proof -
  obtain b s' where r: "MapPage sample_vm 0x4000 0x40000000 0x5000 7 = (b, s')" by fastforce
  have "fst (MapPage sample_vm 0x4000 0x40000000 0x5000 7)" by code_simp
  with r have b: "b" by simp
  have "pmm_inv (vm_frames sample_vm)" by (simp add: sample_vm_def sample_pmm_inv)
  from MapPage_updates_one_page [OF this sample_vm_inv _ _ r]
  have eff: "GetPhysicalAddress (vm_mem s') 0x4000 w =
      (if unat w div 4096 = unat (0x40000000 :: u32) div 4096 then 0x5000 + (w AND 0xFFF)
       else GetPhysicalAddress (vm_mem sample_vm) 0x4000 w)" for w
    using b by simp
  have "GetPhysicalAddress (vm_mem sample_vm) 0x4000 0x40001123 = 0xFFFFFFFF" by code_simp
  with eff [of "0x40000123"] eff [of "0x40001123"] b r show ?thesis by simp
qed

text \<open>
  Property C17. A directory made by \<^verbatim>\<open>CreateProcessDirectory\<close> is new: its user part maps
  nothing, its kernel ranges translate exactly as the kernel directory does, no live
  address space changes, and the enlarged set of directories stays separated.
\<close>

theorem CreateProcessDirectory_isolated:
  assumes "pmm_inv (vm_frames s)" and "vm_inv D (used_frames (vm_frames s)) (vm_mem s)"
    and "vm_kernel_dir s \<in> D" and "CreateProcessDirectory s = (nd, s')" and "nd \<noteq> null_ptr"
  shows "pmm_inv (vm_frames s') \<and> nd \<notin> D \<and> vm_inv (insert nd D) (used_frames (vm_frames s')) (vm_mem s')
    \<and> (\<forall>d\<in>D. \<forall>v. GetPhysicalAddress (vm_mem s') d v = GetPhysicalAddress (vm_mem s) d v)
    \<and> (\<forall>v. GetPhysicalAddress (vm_mem s') nd v =
        (if kernel_range (pd_index v) then GetPhysicalAddress (vm_mem s) (vm_kernel_dir s) v else 0xFFFFFFFF))"
  using pmm_low.create_directory_spec [OF assms(1,2,3) assms(4) [unfolded CreateProcessDirectory_def] assms(5)]
  by blast

theorem CreateProcessDirectory_isolated_witness:
  "\<exists>nd s'. CreateProcessDirectory sample_vm = (nd, s') \<and> nd \<notin> {0x4000}
     \<and> GetPhysicalAddress (vm_mem s') nd 0x40000000 = 0xFFFFFFFF"
proof -
  obtain nd s' where r: "CreateProcessDirectory sample_vm = (nd, s')" by fastforce
  have "fst (pmm_alloc_block_low (vm_frames sample_vm) LOW_LIMIT) = 0x1000" by code_simp
  then have nd: "nd \<noteq> null_ptr" using r
    by (auto simp: CreateProcessDirectory_def create_directory_with_def split: prod.splits if_splits)
  have inv: "pmm_inv (vm_frames sample_vm)" by (simp add: sample_vm_def sample_pmm_inv)
  have k: "vm_kernel_dir sample_vm \<in> {0x4000}" by (simp add: sample_vm_def)
  have "\<not> kernel_range (pd_index 0x40000000)" by code_simp
  with CreateProcessDirectory_isolated [OF inv sample_vm_inv k r nd] r show ?thesis by auto
qed

text \<open>
  Property C34. With frame 0 reserved and 321 free frames below 256 MiB, \<^verbatim>\<open>Activate\<close> does not
  hang. It leaves a kernel directory, loaded in CR3, in which the first 256 MiB and the last
  1 GiB are mapped onto themselves and nothing else is mapped; arming the kernel-stack
  zone then unmaps exactly the guard page below each stack slot.
\<close>

theorem Activate_boot_address_space:
  assumes "pmm_inv (vm_frames s)" and "321 \<le> low_avail (vm_frames s)" and "kstack_inv z"
  shows "\<exists>s'. Activate s = Some s' \<and> vm_active s' \<and> vm_cr3 s' = vm_kernel_dir s' \<and> pmm_inv (vm_frames s')
    \<and> vm_inv {vm_kernel_dir s'} (used_frames (vm_frames s')) (vm_mem s')
    \<and> (\<forall>v. GetPhysicalAddress (vm_mem s') (vm_kernel_dir s') v = (if kernel_range (pd_index v) then v else 0xFFFFFFFF))
    \<and> (\<forall>v. GetPhysicalAddress (kstack_zone_activate z (vm_kernel_dir s') (vm_mem s')) (vm_kernel_dir s') v =
        (if \<exists>i<unat (g_slotCount z). stack_base i - 0x1000 \<le> unat v \<and> unat v < stack_base i then 0xFFFFFFFF
         else GetPhysicalAddress (vm_mem s') (vm_kernel_dir s') v))"
proof -
  have "length kernel_pd_slots = 320" by (simp add: kernel_pd_slots_def del: upt_rec_numeral)
  then obtain s' where s': "Activate s = Some s'"
    using pmm_low.activate_total [OF assms(1)] assms(2) by (auto simp: Activate_def)
  note spec = pmm_low.activate_spec [OF assms(1) s' [unfolded Activate_def]]
  have ok: "kstack_ok z" by (rule kstack_inv_ok [OF assms(3)])
  then have "g_zoneReady z" by (simp add: kstack_ok_def)
  then have zone: "kstack_zone_activate z (vm_kernel_dir s') m =
      unmap_guards (vm_kernel_dir s') (g_zoneBase z) [0..<unat (g_slotCount z)] m" for m
    using spec(3) by (simp add: kstack_zone_activate_def)
  have guard: "(\<exists>i\<in>set [0..<unat (g_slotCount z)]. unat v div 4096 = unat (g_zoneBase z + of_nat i * KSTACK_SLOT_SIZE) div 4096)
      \<longleftrightarrow> (\<exists>i<unat (g_slotCount z). stack_base i - 0x1000 \<le> unat v \<and> unat v < stack_base i)" for v
    using guard_page_of_slot [OF ok, where v = v] by auto
  have id: "GetPhysicalAddress (vm_mem s') (vm_kernel_dir s') v = (if kernel_range (pd_index v) then v else 0xFFFFFFFF)" for v
    using identity_dir_translates [OF spec(2)] by (simp add: kernel_range_slots [OF pd_index_bound])
  note armed = unmap_guards_spec [OF identity_dir_distinct [OF spec(2)], of "g_zoneBase z" "[0..<unat (g_slotCount z)]",
      folded zone, unfolded guard]
  show ?thesis
    by (intro exI [of _ s'] conjI allI s' spec id identity_dir_vm_inv armed)
qed

theorem Activate_boot_address_space_witness:
  "\<exists>s'. Activate (sample_vm\<lparr>vm_frames := pmm_init_region (pmm_init (replicate 16 0) 0 0x200000) 0x1000 0x1FF000\<rparr>) = Some s'
     \<and> GetPhysicalAddress (vm_mem s') (vm_kernel_dir s') 0x00123456 = 0x00123456
     \<and> GetPhysicalAddress (kstack_zone_activate sample_zone (vm_kernel_dir s') (vm_mem s')) (vm_kernel_dir s') 0x0E000004 = 0xFFFFFFFF"
proof -
  let ?p = "pmm_init_region (pmm_init (replicate 16 0) 0 0x200000) 0x1000 0x1FF000"
  have i: "pmm_inv (pmm_init (replicate 16 0) 0 0x200000)" by (intro pmm_init_spec) simp
  have inv: "pmm_inv ?p" by (rule init_region_spec(1) [OF i])
  have max: "unat (max_blocks ?p) = 512" using init_region_spec(3) [OF i] by (simp add: pmm_init_spec)
  have used: "used_frames ?p = {0}" using init_region_spec(2) [OF i] by (auto simp: pmm_init_spec)
  have "{..<512} - {0} = {1..<512 :: nat}" by auto
  then have av: "low_avail ?p = 511" unfolding low_avail_def used max by simp
  have k: "kernel_range (pd_index 0x00123456)" by code_simp
  have slot: "\<exists>i<unat (g_slotCount sample_zone). stack_base i - 0x1000 \<le> unat (0x0E000004 :: u32) \<and> unat (0x0E000004 :: u32) < stack_base i"
    using sample_zone_inv by (intro exI [of _ 0]) (simp add: stack_base_def)
  from Activate_boot_address_space [of "sample_vm\<lparr>vm_frames := ?p\<rparr>" sample_zone] inv av sample_zone_inv
  obtain s' where s': "Activate (sample_vm\<lparr>vm_frames := ?p\<rparr>) = Some s'"
    and id: "\<forall>v. GetPhysicalAddress (vm_mem s') (vm_kernel_dir s') v = (if kernel_range (pd_index v) then v else 0xFFFFFFFF)"
    and gd: "\<forall>v. GetPhysicalAddress (kstack_zone_activate sample_zone (vm_kernel_dir s') (vm_mem s')) (vm_kernel_dir s') v =
        (if \<exists>i<unat (g_slotCount sample_zone). stack_base i - 0x1000 \<le> unat v \<and> unat v < stack_base i then 0xFFFFFFFF
         else GetPhysicalAddress (vm_mem s') (vm_kernel_dir s') v)" by auto
  show ?thesis using s' id k gd [rule_format, of "0x0E000004"] slot by auto
qed

end
