(* ===== verification/User_Stack.thy ===== *)
theory User_Stack
  imports Paging
begin

text \<open>
  User-mode stacks and address spaces, from \<^verbatim>\<open>core/scheduler.cpp\<close>: the pool of stack slots below
  the 3 GB boundary, mapping and unmapping a slot's pages, freeing and copying a whole user address
  space. The scheduler's lists are sequences here; that \<^verbatim>\<open>LinkedList\<close> behaves as a sequence is
  shown in the theory \<open>Linked_List\<close>.
\<close>

subsection \<open>Frames and words\<close>

abbreviation USER_STACK_VIRT_TOP :: u32 where "USER_STACK_VIRT_TOP \<equiv> 0xC0000000"
abbreviation USER_STACK_VIRT_BOTTOM :: u32 where "USER_STACK_VIRT_BOTTOM \<equiv> 0x10000000"
abbreviation USER_EXIT_TRAMPOLINE_VIRT :: u32 where "USER_EXIT_TRAMPOLINE_VIRT \<equiv> 0x40000000"
abbreviation USER_STACK_PAGES :: nat where "USER_STACK_PAGES \<equiv> 128"
abbreviation user_stack_size :: u32 where "user_stack_size \<equiv> 0x80000"
abbreviation UINT32_MAX :: u32 where "UINT32_MAX \<equiv> 0xFFFFFFFF"

text \<open>What \<^verbatim>\<open>pmm_free_block\<close> sees of the kernel page directory.\<close>

definition kernel_pd_of :: "'f vm \<Rightarrow> kernel_pd" where
  "kernel_pd_of s = (if vm_kernel_dir s = null_ptr then None
     else Some (vm_kernel_dir s, map (\<lambda>i. vm_mem s (entry (vm_kernel_dir s) (of_nat i))) [0..<1024]))"

definition free_frame :: "u32 \<Rightarrow> pmm_info vm \<Rightarrow> pmm_info vm" where
  "free_frame p s = s\<lparr>vm_frames := pmm_free_block (kernel_pd_of s) (vm_frames s) p\<rparr>"

text \<open>\<^verbatim>\<open>*(uint32_t* )a = v\<close> for an address that need not be aligned, and \<^verbatim>\<open>memcpy\<close> of one page.\<close>

definition store32 :: "memory \<Rightarrow> u32 \<Rightarrow> u32 \<Rightarrow> memory" where
  "store32 m a v =
     (let k = 8 * unat (a AND 3); lo = a AND NOT 3 in
      if k = 0 then m(a := v)
      else m(lo := (m lo AND mask k) OR push_bit k v,
             lo + 4 := (m (lo + 4) AND NOT (mask k)) OR drop_bit (32 - k) v))"

definition copy_page :: "memory \<Rightarrow> u32 \<Rightarrow> u32 \<Rightarrow> memory" where
  "copy_page m dst src = (\<lambda>a. if unat dst \<le> unat a \<and> unat a < unat dst + 4096 then m (a - dst + src) else m a)"

subsection \<open>Choosing a stack slot\<close>

text \<open>The base of a slot as the pool scan and \<^verbatim>\<open>FreeUserStackSlot\<close> compute it, in 64 bits cut to 32.\<close>

definition slot_base :: "u32 \<Rightarrow> u32" where
  "slot_base slotIdx = USER_STACK_VIRT_TOP - ucast ((ucast slotIdx + 1) * (ucast user_stack_size) :: u64)"

definition slot_mapped :: "memory \<Rightarrow> u32 \<Rightarrow> u32 \<Rightarrow> bool" where
  "slot_mapped m page_directory candidate \<longleftrightarrow>
     list_ex (\<lambda>p. GetPhysicalAddress m page_directory (slot_base candidate + of_nat p * PAGE_SIZE) \<noteq> 0xFFFFFFFF)
       [0..<USER_STACK_PAGES]"

text \<open>
  The scan of \<^verbatim>\<open>g_freeStackOffsets\<close>: pop the front; a mapped candidate goes back with
  \<^verbatim>\<open>Add\<close>, which prepends it. \<open>mapped\<close> is the test of the destination page directory.
\<close>

fun scan_pool :: "(u32 \<Rightarrow> bool) \<Rightarrow> nat \<Rightarrow> u32 list \<Rightarrow> u32 \<times> u32 list" where
  "scan_pool mapped 0 pool = (UINT32_MAX, pool)"
| "scan_pool mapped (Suc i) pool =
     (let candidate = (case pool of [] \<Rightarrow> 0 | c # _ \<Rightarrow> c); pool = tl pool in
      if mapped candidate then scan_pool mapped i (candidate # pool)
      else if candidate = UINT32_MAX then scan_pool mapped i pool
      else (candidate, pool))"

text \<open>The slot, the pool and the slot counter afterwards; \<open>None\<close> when the range is used up.\<close>

definition choose_slot :: "(u32 \<Rightarrow> bool) \<Rightarrow> u32 list \<Rightarrow> u32 \<Rightarrow> u32 option \<times> u32 list \<times> u32" where
  "choose_slot mapped pool nextIdx =
     (case (if pool \<noteq> [] then scan_pool mapped (length pool) pool else (UINT32_MAX, pool)) of
        (slotIdx, pool) \<Rightarrow>
          if slotIdx = UINT32_MAX then
            let nextOffset = nextIdx * user_stack_size in
            if nextOffset div user_stack_size \<noteq> nextIdx
              \<or> USER_STACK_VIRT_TOP - USER_STACK_VIRT_BOTTOM - user_stack_size \<le> nextOffset
            then (None, pool, nextIdx)
            else (Some nextIdx, pool, nextIdx + 1)
          else (Some slotIdx, pool, nextIdx))"

text \<open>The base of the chosen slot, with the two range checks that follow; \<open>None\<close> when one fails.\<close>

definition stack_base_of :: "u32 \<Rightarrow> u32 option" where
  "stack_base_of slotIdx =
     (let stack_offset64 = (ucast slotIdx :: u64) * ucast user_stack_size in
      if (ucast USER_STACK_VIRT_TOP :: u64) - ucast user_stack_size < stack_offset64 then None
      else let user_stack_base = USER_STACK_VIRT_TOP - ucast stack_offset64 - user_stack_size in
        if user_stack_base < USER_STACK_VIRT_BOTTOM then None else Some user_stack_base)"

subsection \<open>Mapping and unmapping a slot\<close>

fun unmap_pages :: "u32 \<Rightarrow> u32 \<Rightarrow> nat list \<Rightarrow> pmm_info vm \<Rightarrow> pmm_info vm" where
  "unmap_pages page_directory base [] s = s"
| "unmap_pages page_directory base (q # qs) s =
     (let va = base + of_nat q * PAGE_SIZE; pf = GetPhysicalAddress (vm_mem s) page_directory va;
          s = (if pf \<noteq> 0xFFFFFFFF then
                 let pt = vm_mem s (entry page_directory (pd_index va)) AND 0xFFFFF000 in
                 free_frame pf (s\<lparr>vm_mem := (vm_mem s)(entry pt (pt_index va) := 0)\<rparr>)
               else s) in
      unmap_pages page_directory base qs s)"

text \<open>The loop over the pages of the slot, from page \<open>p\<close> on: the physical address of the top page.\<close>

function map_stack_pages :: "u32 \<Rightarrow> u32 \<Rightarrow> nat \<Rightarrow> u32 \<Rightarrow> pmm_info vm \<Rightarrow> u32 option \<times> pmm_info vm" where
  "map_stack_pages page_directory base p top_page_phys s =
     (if USER_STACK_PAGES \<le> p then (Some top_page_phys, s)
      else case pmm_alloc_block_low (vm_frames s) LOW_LIMIT of
        (phys, f) \<Rightarrow>
          let s = s\<lparr>vm_frames := f\<rparr> in
          if phys = null_ptr then (None, unmap_pages page_directory base [0..<p] s)
          else
            let s = s\<lparr>vm_mem := clear_page (vm_mem s) phys\<rparr> in
            case MapPage s page_directory (base + of_nat p * PAGE_SIZE) phys (PAGE_PRESENT OR PAGE_RW OR PAGE_USER) of
              (False, s) \<Rightarrow> (None, unmap_pages page_directory base [0..<p] (free_frame phys s))
            | (True, s) \<Rightarrow>
                map_stack_pages page_directory base (p + 1) (if p = USER_STACK_PAGES - 1 then phys else top_page_phys) s)"
  by pat_completeness auto
termination by (relation "measure (\<lambda>(_, _, p, _). USER_STACK_PAGES - p)") auto

fun free_slot_pages :: "u32 \<Rightarrow> u32 \<Rightarrow> nat list \<Rightarrow> pmm_info vm \<Rightarrow> pmm_info vm" where
  "free_slot_pages page_directory base [] s = s"
| "free_slot_pages page_directory base (p # ps) s =
     (let va = base + of_nat p * PAGE_SIZE; pde = vm_mem s (entry page_directory (pd_index va)) in
      if pde AND PAGE_PRESENT = 0 then free_slot_pages page_directory base ps s
      else let pt = pde AND 0xFFFFF000; pte = vm_mem s (entry pt (pt_index va)) in
        if pte AND PAGE_PRESENT = 0 then free_slot_pages page_directory base ps s
        else free_slot_pages page_directory base ps
          (free_frame (pte AND 0xFFFFF000) (s\<lparr>vm_mem := (vm_mem s)(entry pt (pt_index va) := 0)\<rparr>)))"

definition FreeUserStackSlot :: "u32 \<Rightarrow> u32 \<Rightarrow> pmm_info vm \<Rightarrow> pmm_info vm" where
  "FreeUserStackSlot page_directory slotIdx s =
     (let base = slot_base slotIdx in
      if base < USER_STACK_VIRT_BOTTOM then s
      else free_slot_pages page_directory base [1..<USER_STACK_PAGES] s)"

subsection \<open>Whole address spaces\<close>

text \<open>
  The sweep over the user page tables, in \<^verbatim>\<open>CreateProcess\<close>, \<^verbatim>\<open>CloneCurrentProcess\<close> and
  \<^verbatim>\<open>KillProcess\<close>: free every present frame but the shared trampoline, clear its entry, then
  free the table.
\<close>

fun free_table_frames :: "u32 \<Rightarrow> u32 \<Rightarrow> nat list \<Rightarrow> pmm_info vm \<Rightarrow> pmm_info vm" where
  "free_table_frames trampolinePhys pt [] s = s"
| "free_table_frames trampolinePhys pt (i # is) s =
     (let e = vm_mem s (entry pt (of_nat i)) in
      if e AND PAGE_PRESENT = 0 then free_table_frames trampolinePhys pt is s
      else let phys = e AND 0xFFFFF000;
               s = (if phys \<noteq> 0 \<and> phys \<noteq> trampolinePhys then free_frame phys s else s) in
        free_table_frames trampolinePhys pt is (s\<lparr>vm_mem := (vm_mem s)(entry pt (of_nat i) := 0)\<rparr>))"

fun free_user_tables :: "u32 \<Rightarrow> u32 \<Rightarrow> nat list \<Rightarrow> pmm_info vm \<Rightarrow> pmm_info vm" where
  "free_user_tables trampolinePhys page_directory [] s = s"
| "free_user_tables trampolinePhys page_directory (pd # pds) s =
     (let e = vm_mem s (entry page_directory (of_nat pd)) in
      if e AND PAGE_PRESENT = 0 then free_user_tables trampolinePhys page_directory pds s
      else let s = free_table_frames trampolinePhys (e AND 0xFFFFF000) [0..<1024] s;
               s = free_frame (vm_mem s (entry page_directory (of_nat pd)) AND 0xFFFFF000) s in
        free_user_tables trampolinePhys page_directory pds
          (s\<lparr>vm_mem := (vm_mem s)(entry page_directory (of_nat pd) := 0)\<rparr>))"

definition freeChildAddressSpace :: "u32 \<Rightarrow> u32 \<Rightarrow> pmm_info vm \<Rightarrow> pmm_info vm" where
  "freeChildAddressSpace trampolinePhys page_directory s =
     free_frame page_directory (free_user_tables trampolinePhys page_directory [64..<768] s)"

text \<open>\<^verbatim>\<open>KillProcess\<close> also frees page tables that are private copies of kernel ones, not their frames.\<close>

fun free_private_tables :: "u32 \<Rightarrow> nat list \<Rightarrow> pmm_info vm \<Rightarrow> pmm_info vm" where
  "free_private_tables page_directory [] s = s"
| "free_private_tables page_directory (i # is) s =
     (let e = vm_mem s (entry page_directory (of_nat i)) in
      if e AND PAGE_PRESENT = 0 \<or> e = vm_mem s (entry (vm_kernel_dir s) (of_nat i))
      then free_private_tables page_directory is s
      else free_private_tables page_directory is
        ((free_frame (e AND 0xFFFFF000) s)\<lparr>vm_mem := (vm_mem s)(entry page_directory (of_nat i) := 0)\<rparr>))"

definition free_address_space :: "u32 \<Rightarrow> u32 \<Rightarrow> pmm_info vm \<Rightarrow> pmm_info vm" where
  "free_address_space trampolinePhys page_directory s =
     free_frame page_directory
       (free_private_tables page_directory [768..<1024]
         (free_private_tables page_directory [0..<64]
           (free_user_tables trampolinePhys page_directory [64..<768] s)))"

text \<open>\<^verbatim>\<open>CloneCurrentProcess\<close>: duplicate the present user pages; \<open>False\<close> when memory runs out.\<close>

fun clone_table :: "u32 \<Rightarrow> u32 \<Rightarrow> nat \<Rightarrow> nat list \<Rightarrow> pmm_info vm \<Rightarrow> bool \<times> pmm_info vm" where
  "clone_table child parentTable pd [] s = (True, s)"
| "clone_table child parentTable pd (pt # pts) s =
     (let e = vm_mem s (entry parentTable (of_nat pt)) in
      if e AND PAGE_PRESENT = 0 then clone_table child parentTable pd pts s
      else case pmm_alloc_block_low (vm_frames s) LOW_LIMIT of
        (dstPhys, f) \<Rightarrow>
          let s = s\<lparr>vm_frames := f\<rparr> in
          if dstPhys = null_ptr then (False, s)
          else
            let s = s\<lparr>vm_mem := copy_page (vm_mem s) dstPhys (e AND 0xFFFFF000)\<rparr>;
                virt = push_bit 22 (of_nat pd) OR push_bit 12 (of_nat pt);
                flags = vm_mem s (entry parentTable (of_nat pt)) AND 0xFFF in
            case MapPage s child virt dstPhys flags of
              (False, s) \<Rightarrow> (False, free_frame dstPhys s)
            | (True, s) \<Rightarrow> clone_table child parentTable pd pts s)"

fun clone_user_space :: "u32 \<Rightarrow> u32 \<Rightarrow> nat list \<Rightarrow> pmm_info vm \<Rightarrow> bool \<times> pmm_info vm" where
  "clone_user_space child parent [] s = (True, s)"
| "clone_user_space child parent (pd # pds) s =
     (let e = vm_mem s (entry parent (of_nat pd)) in
      if e AND PAGE_PRESENT = 0 then clone_user_space child parent pds s
      else case clone_table child (e AND 0xFFFFF000) pd [0..<1024] s of
        (False, s) \<Rightarrow> (False, s)
      | (True, s) \<Rightarrow> clone_user_space child parent pds s)"

text \<open>The lambda \<^verbatim>\<open>safeWriteTid\<close>: a word of user memory, inside one mapped page.\<close>

definition safeWriteTid :: "u32 \<Rightarrow> u32 \<Rightarrow> u32 \<Rightarrow> 'f vm \<Rightarrow> bool \<times> 'f vm" where
  "safeWriteTid uaddr tid_val page_dir s =
     (let endp = uaddr + 3; page = uaddr AND NOT 0xFFF in
      if uaddr < USER_STACK_VIRT_BOTTOM \<or> endp < uaddr \<or> USER_STACK_VIRT_TOP \<le> endp
        \<or> 4092 < uaddr AND 0xFFF
        \<or> list_ex (\<lambda>k. GetPhysicalAddress (vm_mem s) page_dir (page + of_nat k * PAGE_SIZE) = 0xFFFFFFFF)
            [0..<unat ((endp - page) div PAGE_SIZE) + 1]
      then (False, s)
      else let phys = GetPhysicalAddress (vm_mem s) page_dir uaddr in
        if phys = 0xFFFFFFFF then (False, s)
        else (True, s\<lparr>vm_mem := store32 (vm_mem s) phys tid_val\<rparr>))"

subsection \<open>Where the stacks are\<close>

lemma stack_offset: "(ucast i :: u64) * ucast user_stack_size = of_nat (unat (i :: u32) * 0x80000)"
proof -
  have "(ucast i :: u64) = of_nat (unat i)" by simp
  then show ?thesis by simp
qed

lemma stack_base_of_exact:
  "stack_base_of i = (if unat i < 5632 then Some (of_nat (0xC0000000 - (unat i + 1) * 0x80000)) else None)"
proof -
  define k where "k = unat i * 0x80000"
  have off: "(ucast i :: u64) * ucast user_stack_size = of_nat k"
    unfolding k_def by (rule stack_offset)
  have k64: "k < 2 ^ 64" using unat_u32_bound [of i] by (simp add: k_def)
  have c1: "(ucast USER_STACK_VIRT_TOP :: u64) - ucast user_stack_size < of_nat k \<longleftrightarrow> 0xBFF80000 < k"
    using k64 by (simp add: word_less_nat_alt unat_of_nat)
  have b: "USER_STACK_VIRT_TOP - ucast (of_nat k :: u64) - user_stack_size = of_nat (0xC0000000 - (unat i + 1) * 0x80000)" if "k \<le> 0xBFF80000"
  proof -
    have "(of_nat (0xC0000000 - (unat i + 1) * 0x80000) :: u32) = of_nat (0xC0000000 - (k + 0x80000))" by (simp add: k_def)
    also have "\<dots> = of_nat 0xC0000000 - of_nat (k + 0x80000)" using that by (intro of_nat_diff) simp
    moreover have "ucast (of_nat k :: u64) = (of_nat k :: u32)"
      using k64 of_nat_unat [of "of_nat k :: u64", where ?'a = "32 word"] by (simp add: unat_of_nat take_bit_nat_eq_self)
    ultimately show ?thesis by simp
  qed
  have c2: "(of_nat (0xC0000000 - (unat i + 1) * 0x80000) :: u32) < USER_STACK_VIRT_BOTTOM \<longleftrightarrow> 5632 \<le> unat i" if "k \<le> 0xBFF80000"
  proof -
    define m where "m = 0xC0000000 - (unat i + 1) * 0x80000"
    have "unat (of_nat m :: u32) = m" by (intro unat_of_nat_small) (simp add: m_def)
    then have "(of_nat m :: u32) < USER_STACK_VIRT_BOTTOM \<longleftrightarrow> m < 0x10000000" by (simp add: word_less_nat_alt)
    then show ?thesis using that unfolding m_def k_def by auto
  qed
  show ?thesis
    unfolding stack_base_of_def Let_def off c1 using b c2 by (auto simp: k_def)
qed

lemma stack_base_of_bounds:
  assumes "stack_base_of i = Some a"
  shows "unat a + unat i * 0x80000 = 0xBFF80000 \<and> unat i < 5632"
proof -
  define m where "m = 0xC0000000 - (unat i + 1) * 0x80000"
  have m: "unat (of_nat m :: u32) = m" by (intro unat_of_nat_small) (simp add: m_def)
  have i: "unat i < 5632" and "a = of_nat m"
    using assms unfolding stack_base_of_exact m_def [symmetric] by (auto split: if_splits)
  with m have a: "unat a = m" by simp
  show ?thesis using i unfolding a m_def by simp
qed

text \<open>
  Property C38. A slot that passes the range checks is wholly inside the user-stack range, below 3 GB
  and above 256 MB, and the stacks of two different slots do not overlap.
\<close>

theorem user_stacks_disjoint:
  assumes "stack_base_of i = Some a" "stack_base_of j = Some b" "i \<noteq> j"
  shows "unat USER_STACK_VIRT_BOTTOM \<le> unat a \<and> unat a + unat user_stack_size \<le> unat USER_STACK_VIRT_TOP
    \<and> {unat a..<unat a + unat user_stack_size} \<inter> {unat b..<unat b + unat user_stack_size} = {}"
proof -
  obtain a: "unat a + unat i * 0x80000 = 0xBFF80000" "unat i < 5632" using stack_base_of_bounds [OF assms(1)] by blast
  obtain b: "unat b + unat j * 0x80000 = 0xBFF80000" "unat j < 5632" using stack_base_of_bounds [OF assms(2)] by blast
  have "unat i \<noteq> unat j" using assms(3) by (simp add: word_unat_eq_iff)
  then have "unat i < unat j \<or> unat j < unat i" by linarith
  then have d: "unat a + 0x80000 \<le> unat b \<or> unat b + 0x80000 \<le> unat a" using a b by arith
  have c: "unat USER_STACK_VIRT_BOTTOM = 0x10000000" "unat user_stack_size = 0x80000" "unat USER_STACK_VIRT_TOP = 0xC0000000" by simp_all
  have "{unat a..<unat a + 0x80000} \<inter> {unat b..<unat b + 0x80000} = {}"
    using d unfolding disjoint_iff atLeastLessThan_iff by linarith
  moreover have "0x10000000 \<le> unat a" "unat a + 0x80000 \<le> 0xC0000000" using a by linarith+
  ultimately show ?thesis unfolding c by blast
qed

theorem user_stacks_disjoint_witness:
  "stack_base_of 0 = Some 0xBFF80000 \<and> stack_base_of 1 = Some 0xBFF00000
     \<and> {unat (0xBFF80000 :: u32)..<unat (0xBFF80000 :: u32) + unat user_stack_size}
        \<inter> {unat (0xBFF00000 :: u32)..<unat (0xBFF00000 :: u32) + unat user_stack_size} = {}"
proof -
  have e: "stack_base_of 0 = Some 0xBFF80000" "stack_base_of 1 = Some 0xBFF00000" by (simp_all add: stack_base_of_exact)
  have n: "(0 :: u32) \<noteq> 1" by simp
  from user_stacks_disjoint [OF e n] e show ?thesis by blast
qed

subsection \<open>The scan of the pool\<close>

lemma scan_pool_mapped_head: "mapped c \<Longrightarrow> scan_pool mapped n (c # rest) = (UINT32_MAX, c # rest)"
  by (induction n) simp_all

text \<open>
  A mapped candidate goes back to the front of the pool, so the scan takes it again and
  again: only the front of the pool decides. When it is mapped in the destination, a fresh slot is
  taken although a later candidate may be free; the comment says that all are checked.
\<close>

theorem choose_slot_front_only:
  assumes "c \<noteq> UINT32_MAX"
  shows "choose_slot mapped (c # rest) nextIdx =
    (if mapped c then (case choose_slot mapped [] nextIdx of (r, _, n) \<Rightarrow> (r, c # rest, n)) else (Some c, rest, nextIdx))"
  using assms by (simp add: choose_slot_def scan_pool_mapped_head del: scan_pool.simps)
    (simp add: Let_def)

theorem choose_slot_front_only_witness: "choose_slot (\<lambda>c. c = 7) [7, 3] 9 = (Some 9, [7, 3], 10)"
proof -
  have "choose_slot (\<lambda>c. c = 7) [] 9 = (Some 9, [], 10)" by code_simp
  then show ?thesis using choose_slot_front_only [of 7 "\<lambda>c. c = 7" "[3]" 9] by simp
qed

end
