(* ===== verification/Linked_List.thy ===== *)
theory Linked_List
  imports Prelude "HOL-Library.Monad_Syntax"
begin

text \<open>
  The template \<^verbatim>\<open>LinkedList<T>\<close> of \<^verbatim>\<open>include/utils/linkedList.h\<close>, at the level of its nodes and
  pointers: the heap of nodes is a partial map from addresses, a list is its head and tail pointers
  and its element count. The allocator behind \<^verbatim>\<open>new Node\<close> is a parameter. A loop along the
  \<^verbatim>\<open>next\<close> pointers is a \<^theory_text>\<open>partial_function\<close>; \<open>None\<close> is a loop that does not end or that
  follows a pointer to no node.
\<close>

subsection \<open>Nodes and lists\<close>

record 'a node =
  data :: 'a
  "next" :: u32

type_synonym 'a nodes = "u32 \<rightharpoonup> 'a node"

record linked_list =
  head :: u32
  tail :: u32
  ll_size :: u32

definition LinkedList :: linked_list where
  "LinkedList = \<lparr>head = null_ptr, tail = null_ptr, ll_size = 0\<rparr>"

subsection \<open>Operations\<close>

definition Add :: "('a nodes \<Rightarrow> u32) \<Rightarrow> 'a \<Rightarrow> 'a nodes \<times> linked_list \<Rightarrow> 'a nodes \<times> linked_list" where
  "Add new item = (\<lambda>(h, l).
     let newNode = new h; h = h(newNode \<mapsto> \<lparr>data = item, next = head l\<rparr>) in
     (h, l\<lparr>head := newNode, tail := if tail l = null_ptr then newNode else tail l, ll_size := ll_size l + 1\<rparr>))"

definition PushBack :: "('a nodes \<Rightarrow> u32) \<Rightarrow> 'a \<Rightarrow> 'a nodes \<times> linked_list \<Rightarrow> ('a nodes \<times> linked_list) option" where
  "PushBack new item = (\<lambda>(h, l).
     let newNode = new h; h = h(newNode \<mapsto> \<lparr>data = item, next = null_ptr\<rparr>) in
     if tail l = null_ptr then Some (h, l\<lparr>head := newNode, tail := newNode, ll_size := ll_size l + 1\<rparr>)
     else do {
       t \<leftarrow> h (tail l);
       Some (h(tail l \<mapsto> t\<lparr>next := newNode\<rparr>), l\<lparr>tail := newNode, ll_size := ll_size l + 1\<rparr>) })"

text \<open>\<^verbatim>\<open>T{}\<close> is the argument \<open>dflt\<close>.\<close>

partial_function (option) find_from :: "'a \<Rightarrow> ('a \<Rightarrow> bool) \<Rightarrow> 'a nodes \<Rightarrow> u32 \<Rightarrow> 'a option" where
  [code]: "find_from dflt condition h current =
     (if current = null_ptr then Some dflt
      else do {
        n \<leftarrow> h current;
        (if condition (data n) then Some (data n) else find_from dflt condition h (next n)) })"

definition Find :: "'a \<Rightarrow> ('a \<Rightarrow> bool) \<Rightarrow> 'a nodes \<times> linked_list \<Rightarrow> 'a option" where
  "Find dflt condition = (\<lambda>(h, l). find_from dflt condition h (head l))"

text \<open>Unlinking a node found by \<^verbatim>\<open>Remove\<close> or \<^verbatim>\<open>Take\<close>, and deleting it.\<close>

definition unlink :: "u32 \<Rightarrow> u32 \<Rightarrow> 'a node \<Rightarrow> 'a nodes \<times> linked_list \<Rightarrow> ('a nodes \<times> linked_list) option" where
  "unlink prev current n = (\<lambda>(h, l).
     do {
       (h, l) \<leftarrow> (if prev \<noteq> null_ptr
                 then do { p \<leftarrow> h prev; Some (h(prev \<mapsto> p\<lparr>next := next n\<rparr>), l) }
                 else Some (h, l\<lparr>head := next n\<rparr>));
       Some (h(current := None),
             l\<lparr>tail := if current = tail l then prev else tail l, ll_size := ll_size l - 1\<rparr>) })"

partial_function (option) remove_from ::
  "('a \<Rightarrow> bool) \<Rightarrow> u32 \<Rightarrow> u32 \<Rightarrow> 'a nodes \<times> linked_list \<Rightarrow> (bool \<times> 'a nodes \<times> linked_list) option" where
  [code]: "remove_from condition prev current s =
     (if current = null_ptr then Some (False, s)
      else do {
        n \<leftarrow> fst s current;
        (if condition (data n) then do { s \<leftarrow> unlink prev current n s; Some (True, s) }
         else remove_from condition current (next n) s) })"

definition Remove :: "('a \<Rightarrow> bool) \<Rightarrow> 'a nodes \<times> linked_list \<Rightarrow> (bool \<times> 'a nodes \<times> linked_list) option" where
  "Remove condition s = remove_from condition null_ptr (head (snd s)) s"

partial_function (option) take_from ::
  "'a \<Rightarrow> ('a \<Rightarrow> bool) \<Rightarrow> u32 \<Rightarrow> u32 \<Rightarrow> 'a nodes \<times> linked_list \<Rightarrow> ('a \<times> 'a nodes \<times> linked_list) option" where
  [code]: "take_from dflt condition prev current s =
     (if current = null_ptr then Some (dflt, s)
      else do {
        n \<leftarrow> fst s current;
        (if condition (data n) then do { s \<leftarrow> unlink prev current n s; Some (data n, s) }
         else take_from dflt condition current (next n) s) })"

definition Take :: "'a \<Rightarrow> ('a \<Rightarrow> bool) \<Rightarrow> 'a nodes \<times> linked_list \<Rightarrow> ('a \<times> 'a nodes \<times> linked_list) option" where
  "Take dflt condition s = take_from dflt condition null_ptr (head (snd s)) s"

definition GetSize :: "'a nodes \<times> linked_list \<Rightarrow> u32" where
  "GetSize s = ll_size (snd s)"

definition IsEmpty :: "'a nodes \<times> linked_list \<Rightarrow> bool" where
  "IsEmpty s \<longleftrightarrow> ll_size (snd s) = 0"

definition PopFront :: "'a \<Rightarrow> 'a nodes \<times> linked_list \<Rightarrow> ('a \<times> 'a nodes \<times> linked_list) option" where
  "PopFront dflt = (\<lambda>(h, l).
     if head l = null_ptr then Some (dflt, h, l)
     else do {
       n \<leftarrow> h (head l);
       Some (data n, h(head l := None),
         l\<lparr>head := next n, tail := if next n = null_ptr then null_ptr else tail l, ll_size := ll_size l - 1\<rparr>) })"

definition GetFront :: "'a \<Rightarrow> 'a nodes \<times> linked_list \<Rightarrow> 'a option" where
  "GetFront dflt = (\<lambda>(h, l). if head l = null_ptr then Some dflt else do { n \<leftarrow> h (head l); Some (data n) })"

partial_function (option) clear_from :: "u32 \<Rightarrow> 'a nodes \<Rightarrow> 'a nodes option" where
  [code]: "clear_from current h =
     (if current = null_ptr then Some h
      else do { n \<leftarrow> h current; clear_from (next n) (h(current := None)) })"

definition Clear :: "'a nodes \<times> linked_list \<Rightarrow> ('a nodes \<times> linked_list) option" where
  "Clear = (\<lambda>(h, l).
     do { h \<leftarrow> clear_from (head l) h; Some (h, l\<lparr>head := null_ptr, tail := null_ptr, ll_size := 0\<rparr>) })"

text \<open>The elements \<^verbatim>\<open>ForEach\<close> passes to its callback, in order.\<close>

partial_function (option) elements_from :: "'a nodes \<Rightarrow> u32 \<Rightarrow> 'a list option" where
  [code]: "elements_from h current =
     (if current = null_ptr then Some []
      else do { n \<leftarrow> h current; xs \<leftarrow> elements_from h (next n); Some (data n # xs) })"

definition ForEach :: "'a nodes \<times> linked_list \<Rightarrow> 'a list option" where
  "ForEach = (\<lambda>(h, l). elements_from h (head l))"

text \<open>The fixed-size stack of \<^verbatim>\<open>ReverseForEach\<close>: at most \<open>room\<close> further elements are pushed.\<close>

fun stack_from :: "'a nodes \<Rightarrow> nat \<Rightarrow> u32 \<Rightarrow> 'a list option" where
  "stack_from h 0 current = Some []"
| "stack_from h (Suc room) current =
     (if current = null_ptr then Some []
      else do { n \<leftarrow> h current; xs \<leftarrow> stack_from h room (next n); Some (data n # xs) })"

definition ReverseForEach :: "'a nodes \<times> linked_list \<Rightarrow> 'a list option" where
  "ReverseForEach = (\<lambda>(h, l). map_option rev (stack_from h 128 (head l)))"

text \<open>\<^verbatim>\<open>CopyFrom\<close> appends the elements of another list, which lives in the same heap.\<close>

partial_function (option) copy_from ::
  "('a nodes \<Rightarrow> u32) \<Rightarrow> u32 \<Rightarrow> 'a nodes \<times> linked_list \<Rightarrow> ('a nodes \<times> linked_list) option" where
  [code]: "copy_from new current s =
     (if current = null_ptr then Some s
      else do {
        n \<leftarrow> fst s current;
        s \<leftarrow> PushBack new (data n) s;
        m \<leftarrow> fst s current;
        copy_from new (next m) s })"

definition CopyFrom :: "('a nodes \<Rightarrow> u32) \<Rightarrow> linked_list \<Rightarrow> 'a nodes \<times> linked_list \<Rightarrow> ('a nodes \<times> linked_list) option" where
  "CopyFrom new other s = copy_from new (head other) s"

definition copy_construct :: "('a nodes \<Rightarrow> u32) \<Rightarrow> linked_list \<Rightarrow> 'a nodes \<Rightarrow> ('a nodes \<times> linked_list) option" where
  "copy_construct new other h = CopyFrom new other (h, LinkedList)"

text \<open>Assignment, for a list that is not the same object as the other.\<close>

definition assign :: "('a nodes \<Rightarrow> u32) \<Rightarrow> linked_list \<Rightarrow> 'a nodes \<times> linked_list \<Rightarrow> ('a nodes \<times> linked_list) option" where
  "assign new other s = do { s \<leftarrow> Clear s; CopyFrom new other s }"

subsection \<open>Chains of nodes\<close>

text \<open>\<open>seg h p as q\<close>: following \<^verbatim>\<open>next\<close> from \<open>p\<close> visits the nodes \<open>as\<close> and arrives at \<open>q\<close>.\<close>

fun seg :: "'a nodes \<Rightarrow> u32 \<Rightarrow> u32 list \<Rightarrow> u32 \<Rightarrow> bool" where
  "seg h p [] q \<longleftrightarrow> p = q"
| "seg h p (a # as) q \<longleftrightarrow> p = a \<and> a \<noteq> null_ptr \<and> (\<exists>n. h a = Some n \<and> seg h (next n) as q)"

definition elem :: "'a nodes \<Rightarrow> u32 \<Rightarrow> 'a" where
  "elem h a = data (the (h a))"

lemma seg_append: "seg h p (as @ bs) q \<longleftrightarrow> (\<exists>r. seg h p as r \<and> seg h r bs q)"
  by (induction as arbitrary: p) auto

lemma seg_cong: "seg h p as q \<Longrightarrow> (\<And>a. a \<in> set as \<Longrightarrow> h' a = h a) \<Longrightarrow> seg h' p as q"
  by (induction as arbitrary: p) auto

lemma seg_nodes: "seg h p as q \<Longrightarrow> a \<in> set as \<Longrightarrow> a \<noteq> null_ptr \<and> a \<in> dom h"
  by (induction as arbitrary: p) auto

lemma seg_head: "seg h p as null_ptr \<Longrightarrow> p = (if as = [] then null_ptr else hd as)"
  by (cases as) auto

text \<open>The representation of the elements \<open>xs\<close> by the nodes \<open>as\<close>.\<close>

definition repr :: "'a nodes \<times> linked_list \<Rightarrow> u32 list \<Rightarrow> 'a list \<Rightarrow> bool" where
  "repr s as xs \<longleftrightarrow> seg (fst s) (head (snd s)) as null_ptr \<and> distinct as
     \<and> tail (snd s) = (if as = [] then null_ptr else last as)
     \<and> xs = map (elem (fst s)) as \<and> ll_size (snd s) = of_nat (length as)"

text \<open>The address the allocator returns on a heap is new, and it finds one whenever there is one.\<close>

definition fresh :: "('a nodes \<Rightarrow> u32) \<Rightarrow> 'a nodes \<Rightarrow> bool" where
  "fresh new h \<longleftrightarrow> new h \<noteq> null_ptr \<and> new h \<notin> dom h"

definition room :: "'a nodes \<Rightarrow> u32 set" where
  "room h = - insert null_ptr (dom h)"

definition allocator :: "('a nodes \<Rightarrow> u32) \<Rightarrow> bool" where
  "allocator new \<longleftrightarrow> (\<forall>h. room h \<noteq> {} \<longrightarrow> fresh new h)"

text \<open>A step changes no node outside the list it works on.\<close>

definition frame :: "u32 set \<Rightarrow> 'a nodes \<Rightarrow> 'a nodes \<Rightarrow> bool" where
  "frame A h h' \<longleftrightarrow> (\<forall>a. a \<in> dom h \<and> a \<notin> A \<longrightarrow> h' a = h a)"

subsection \<open>Updates of chains\<close>

lemma seg_relink:
  assumes "seg h p (bs @ [b]) q" "distinct (bs @ [b])" "h b = Some n"
  shows "seg (h(b \<mapsto> n\<lparr>next := r\<rparr>)) p (bs @ [b]) r"
proof -
  have b: "seg h p bs b" "b \<noteq> null_ptr" using assms(1) by (auto simp: seg_append)
  have "seg (h(b \<mapsto> n\<lparr>next := r\<rparr>)) p bs b" by (rule seg_cong [OF b(1)]) (use assms(2) in auto)
  then show ?thesis using \<open>b \<noteq> null_ptr\<close> by (auto simp: seg_append)
qed

lemma repr_dom: "repr s as xs \<Longrightarrow> set as \<subseteq> dom (fst s)" "repr s as xs \<Longrightarrow> null_ptr \<notin> set as"
  using seg_nodes by (fastforce simp: repr_def)+

lemma repr_tail: "repr s as xs \<Longrightarrow> tail (snd s) = null_ptr \<longleftrightarrow> as = []"
  using repr_dom(2) [of s as xs] last_in_set [of as] unfolding repr_def by metis

lemma repr_length:
  assumes "repr s as xs"
  shows "length xs = length as" "length as < 2 ^ 32"
proof -
  show "length xs = length as" using assms by (simp add: repr_def)
  have "length as = card (set as)" using assms by (simp add: repr_def distinct_card)
  also have "\<dots> \<le> card (UNIV - {null_ptr :: u32})" using repr_dom(2) [OF assms] by (intro card_mono) auto
  also have "\<dots> < 2 ^ 32" by (simp add: card_Diff_singleton card_word)
  finally show "length as < 2 ^ 32" .
qed

lemma repr_empty: "repr (h, LinkedList) [] []"
  by (simp add: repr_def LinkedList_def)

lemma Add_repr:
  assumes "repr s as xs" "fresh new (fst s)"
  shows "repr (Add new x s) (new (fst s) # as) (x # xs)" "frame {} (fst s) (fst (Add new x s))"
proof -
  let ?p = "new (fst s)"
  have p: "?p \<noteq> null_ptr" "?p \<notin> dom (fst s)" "?p \<notin> set as" using assms repr_dom(1) [OF assms(1)] by (auto simp: fresh_def)
  let ?h = "(fst s)(?p \<mapsto> \<lparr>data = x, next = head (snd s)\<rparr>)"
  have "seg ?h (head (snd s)) as null_ptr" by (rule seg_cong [of "fst s"]) (use assms(1) p in \<open>auto simp: repr_def\<close>)
  moreover have "map (elem ?h) as = map (elem (fst s)) as" using p(3) by (auto simp: elem_def)
  ultimately show "repr (Add new x s) (?p # as) (x # xs)"
    using assms(1) p repr_tail [OF assms(1)] by (auto simp: repr_def Add_def Let_def split_def elem_def)
  show "frame {} (fst s) (fst (Add new x s))" using p(2) by (auto simp: frame_def Add_def Let_def split_def)
qed

lemma PushBack_repr:
  assumes r: "repr s as xs" and new: "fresh new (fst s)"
  obtains s' where "PushBack new x s = Some s'" "repr s' (as @ [new (fst s)]) (xs @ [x])" "frame (set as) (fst s) (fst s')"
    "dom (fst s') = insert (new (fst s)) (dom (fst s))"
proof (cases as rule: rev_cases)
  case Nil
  let ?p = "new (fst s)" and ?l = "snd s"
  have p: "?p \<noteq> null_ptr" "?p \<notin> dom (fst s)" using new by (auto simp: fresh_def)
  let ?s = "((fst s)(?p \<mapsto> \<lparr>data = x, next = null_ptr\<rparr>), ?l\<lparr>head := ?p, tail := ?p, ll_size := ll_size ?l + 1\<rparr>)"
  have "PushBack new x s = Some ?s" using r Nil by (simp add: PushBack_def repr_def Let_def split_def)
  moreover have "repr ?s (as @ [?p]) (xs @ [x])" using r Nil p by (simp add: repr_def elem_def)
  moreover have "frame (set as) (fst s) (fst ?s)" "dom (fst ?s) = insert ?p (dom (fst s))" using p by (auto simp: frame_def)
  ultimately show thesis by (rule that)
next
  case (snoc bs b)
  let ?p = "new (fst s)" and ?l = "snd s" and ?h = "fst s"
  have p: "?p \<noteq> null_ptr" "?p \<notin> dom ?h" "?p \<notin> set as" using new repr_dom(1) [OF r] by (auto simp: fresh_def)
  have b: "b \<noteq> null_ptr" "?p \<noteq> b" using repr_dom(2) [OF r] p(3) snoc by auto
  obtain n where n: "?h b = Some n" using repr_dom(1) [OF r] snoc by auto
  let ?h1 = "?h(?p \<mapsto> \<lparr>data = x, next = null_ptr\<rparr>)"
  let ?s = "(?h1(b \<mapsto> n\<lparr>next := ?p\<rparr>), ?l\<lparr>tail := ?p, ll_size := ll_size ?l + 1\<rparr>)"
  have "PushBack new x s = Some ?s"
    using r snoc b n by (simp add: PushBack_def repr_def Let_def split_def)
  moreover have "repr ?s (as @ [?p]) (xs @ [x])"
  proof -
    have "seg ?h1 (head ?l) (bs @ [b]) null_ptr"
      by (rule seg_cong [of ?h]) (use r snoc p in \<open>auto simp: repr_def\<close>)
    then have "seg (fst ?s) (head ?l) (bs @ [b]) ?p"
      using seg_relink [of ?h1 "head ?l" bs b null_ptr n ?p] n b r snoc by (simp add: repr_def)
    moreover have "map (elem (fst ?s)) as = map (elem ?h) as" using p(3) n by (auto simp: elem_def)
    ultimately show ?thesis using r snoc p b by (auto simp: repr_def seg_append elem_def)
  qed
  moreover have "frame (set as) ?h (fst ?s)" "dom (fst ?s) = insert ?p (dom ?h)" using p n snoc by (auto simp: frame_def)
  ultimately show thesis by (rule that)
qed

lemma PopFront_repr:
  assumes r: "repr s (a # as) xs"
  obtains s' where "PopFront dflt s = Some (hd xs, s')" "repr s' as (tl xs)" "frame {a} (fst s) (fst s')" "a \<in> room (fst s')"
proof -
  obtain n where n: "fst s a = Some n" "seg (fst s) (next n) as null_ptr" "a \<noteq> null_ptr" "head (snd s) = a"
    using r by (auto simp: repr_def)
  let ?h = "(fst s)(a := None)" and ?l = "snd s"
  let ?s = "(?h, ?l\<lparr>head := next n, tail := if next n = null_ptr then null_ptr else tail ?l, ll_size := ll_size ?l - 1\<rparr>)"
  have "seg ?h (next n) as null_ptr" by (rule seg_cong [OF n(2)]) (use r in \<open>auto simp: repr_def\<close>)
  moreover have "next n = null_ptr \<longleftrightarrow> as = []" using n(2) repr_dom(2) [OF r] by (cases as) auto
  moreover have "map (elem ?h) as = map (elem (fst s)) as" using r by (auto simp: repr_def elem_def)
  ultimately have "repr ?s as (tl xs)" using r n by (auto simp: repr_def)
  moreover have "PopFront dflt s = Some (hd xs, ?s)" using r n by (simp add: PopFront_def split_def repr_def elem_def)
  moreover have "frame {a} (fst s) (fst ?s)" "a \<in> room (fst ?s)" using n(3) by (simp_all add: frame_def room_def)
  ultimately show thesis using that by blast
qed

text \<open>What \<^verbatim>\<open>Remove\<close> and \<^verbatim>\<open>Take\<close> leave: the list without its first matching element.\<close>

fun remove_first :: "('a \<Rightarrow> bool) \<Rightarrow> 'a list \<Rightarrow> 'a list" where
  "remove_first P [] = []"
| "remove_first P (x # xs) = (if P x then xs else x # remove_first P xs)"

lemma find_append_none: "\<forall>x \<in> set xs. \<not> P x \<Longrightarrow> find P (xs @ ys) = find P ys"
  by (induction xs) auto

lemma remove_first_append: "\<forall>x \<in> set xs. \<not> P x \<Longrightarrow> remove_first P (xs @ ys) = xs @ remove_first P ys"
  by (induction xs) auto

lemma repr_split:
  assumes "repr s (ps @ c # vs) xs"
  obtains n where "fst s c = Some n" "seg (fst s) (head (snd s)) ps c" "seg (fst s) (next n) vs null_ptr" "c \<noteq> null_ptr"
    "c \<notin> set ps" "c \<notin> set vs" "data n = elem (fst s) c"
  using assms by (auto simp: repr_def seg_append elem_def)

lemma unlink_repr:
  assumes r: "repr s (ps @ c # vs) xs" and n: "fst s c = Some n"
  obtains s' where "unlink (if ps = [] then null_ptr else last ps) c n s = Some s'"
    "repr s' (ps @ vs) (map (elem (fst s)) (ps @ vs))" "frame (set (ps @ [c])) (fst s) (fst s')"
proof (cases ps rule: rev_cases)
  case Nil
  let ?s = "((fst s)(c := None), (snd s)\<lparr>head := next n, tail := if c = tail (snd s) then null_ptr else tail (snd s),
    ll_size := ll_size (snd s) - 1\<rparr>)"
  have sg: "seg (fst s) (next n) vs null_ptr" and cv: "c \<notin> set vs" using r n Nil by (auto simp: repr_def)
  have "seg (fst ?s) (next n) vs null_ptr" by (rule seg_cong [OF sg]) (use cv in auto)
  moreover have "map (elem (fst ?s)) vs = map (elem (fst s)) vs" using cv by (auto simp: elem_def)
  moreover have "c = tail (snd s) \<longleftrightarrow> vs = []" using r Nil cv last_in_set [of vs] by (auto simp: repr_def)
  ultimately have "repr ?s (ps @ vs) (map (elem (fst s)) (ps @ vs))" using r Nil by (auto simp: repr_def)
  moreover have "unlink null_ptr c n s = Some ?s" by (simp add: unlink_def split_def)
  ultimately show thesis using that [of ?s] Nil by (simp add: frame_def)
next
  case (snoc bs b)
  obtain bn where bn: "fst s b = Some bn" "b \<noteq> null_ptr" "b \<noteq> c" "b \<notin> set vs"
    using r snoc repr_dom [OF r] by (auto simp: repr_def)
  let ?h1 = "(fst s)(b \<mapsto> bn\<lparr>next := next n\<rparr>)"
  let ?s = "(?h1(c := None), (snd s)\<lparr>tail := if c = tail (snd s) then b else tail (snd s), ll_size := ll_size (snd s) - 1\<rparr>)"
  have sg: "seg (fst s) (next n) vs null_ptr" "seg (fst s) (head (snd s)) (bs @ [b]) c"
    and cv: "c \<notin> set vs" "c \<notin> set bs" and d: "distinct (bs @ [b])" using r n snoc by (auto simp: repr_def seg_append)
  have "seg (fst ?s) (next n) vs null_ptr" by (rule seg_cong [OF sg(1)]) (use cv bn in auto)
  moreover have "seg (fst ?s) (head (snd s)) (bs @ [b]) (next n)"
    by (rule seg_cong [OF seg_relink [OF sg(2) d bn(1)]]) (use cv bn in auto)
  moreover have "map (elem (fst ?s)) (ps @ vs) = map (elem (fst s)) (ps @ vs)" using cv bn snoc by (auto simp: elem_def)
  moreover have "c = tail (snd s) \<longleftrightarrow> vs = []" using r snoc cv last_in_set [of vs] by (auto simp: repr_def)
  ultimately have "repr ?s (ps @ vs) (map (elem (fst s)) (ps @ vs))"
    using r snoc by (auto simp: repr_def seg_append)
  moreover have "unlink b c n s = Some ?s" using bn by (simp add: unlink_def split_def)
  ultimately show thesis using that [of ?s] snoc bn(2) by (auto simp: frame_def)
qed

text \<open>The two searches, from a position inside the list.\<close>

lemma search_found:
  assumes r: "repr s (ps @ us @ c # vs) xs" and no: "\<forall>a \<in> set us. \<not> P (elem (fst s) a)" and c: "P (elem (fst s) c)"
  shows "\<exists>s'. remove_from P (if ps = [] then null_ptr else last ps) (hd (us @ [c])) s = Some (True, s')
    \<and> take_from dflt P (if ps = [] then null_ptr else last ps) (hd (us @ [c])) s = Some (elem (fst s) c, s')
    \<and> find_from dflt P (fst s) (hd (us @ [c])) = Some (elem (fst s) c)
    \<and> repr s' (ps @ us @ vs) (map (elem (fst s)) (ps @ us @ vs)) \<and> frame (set (ps @ us @ [c])) (fst s) (fst s')"
  using r no
proof (induction us arbitrary: ps)
  case Nil
  obtain n where n: "fst s c = Some n" "c \<noteq> null_ptr" "data n = elem (fst s) c" using repr_split [of s ps c vs xs] Nil.prems(1) by auto
  obtain s' where s': "unlink (if ps = [] then null_ptr else last ps) c n s = Some s'"
    "repr s' (ps @ vs) (map (elem (fst s)) (ps @ vs))" "frame (set (ps @ [c])) (fst s) (fst s')"
    using unlink_repr [OF _ n(1), of ps vs xs] Nil.prems(1) by auto
  then show ?case using n c by (simp add: remove_from.simps [of P _ c s] take_from.simps [of dflt P _ c s] find_from.simps [of dflt P _ c])
next
  case (Cons u us)
  have r': "repr s ((ps @ [u]) @ us @ c # vs) xs" using Cons.prems(1) by simp
  obtain n where n: "fst s u = Some n" "u \<noteq> null_ptr" "data n = elem (fst s) u" "seg (fst s) (next n) (us @ c # vs) null_ptr"
    using repr_split [of s ps u "us @ c # vs" xs] Cons.prems(1) by auto
  have nx: "next n = hd (us @ [c])" using n(4) by (cases us) auto
  show ?case using Cons.IH [OF r'] Cons.prems(2) n nx
    by (simp add: remove_from.simps [of P _ u s] take_from.simps [of dflt P _ u s] find_from.simps [of dflt P _ u])
qed

lemma search_missing:
  assumes "seg h p as null_ptr" "\<forall>a \<in> set as. \<not> P (elem h a)"
  shows "remove_from P prev p (h, l) = Some (False, h, l) \<and> take_from dflt P prev p (h, l) = Some (dflt, h, l)
    \<and> find_from dflt P h p = Some dflt"
  using assms
proof (induction as arbitrary: p prev)
  case Nil
  then show ?case by (simp add: remove_from.simps take_from.simps find_from.simps)
next
  case (Cons a as)
  then obtain n where n: "p = a" "a \<noteq> null_ptr" "h a = Some n" "seg h (next n) as null_ptr" "\<not> P (data n)" by (auto simp: elem_def)
  show ?case using Cons.IH [OF n(4), of a] Cons.prems(2) n
    by (simp add: remove_from.simps [of P _ a] take_from.simps [of dflt P _ a] find_from.simps [of dflt P _ a])
qed

lemma first_match:
  obtains "\<forall>a \<in> set as. \<not> P (f a)"
  | us c vs where "as = us @ c # vs" "\<forall>a \<in> set us. \<not> P (f a)" "P (f c)"
  using split_list_first_prop [of as "\<lambda>a. P (f a)"] by blast

lemma Remove_repr:
  assumes r: "repr s as xs"
  obtains s' as' where "Remove P s = Some (\<exists>x \<in> set xs. P x, s')" "Take dflt P s = Some (case find P xs of Some x \<Rightarrow> x | None \<Rightarrow> dflt, s')"
    "Find dflt P s = Some (case find P xs of Some x \<Rightarrow> x | None \<Rightarrow> dflt)"
    "repr s' as' (remove_first P xs)" "set as' \<subseteq> set as" "frame (set as) (fst s) (fst s')"
proof (cases rule: first_match [of as P "elem (fst s)"])
  case 1
  then have m: "\<not> (\<exists>x \<in> set xs. P x)" "find P xs = None" "remove_first P xs = xs"
    using r remove_first_append [of xs P "[]"] by (auto simp: repr_def find_None_iff)
  show thesis
    by (rule that [of s as])
      (use r m search_missing [of "fst s" "head (snd s)" as P null_ptr "snd s" dflt] 1 in
        \<open>auto simp: Remove_def Take_def Find_def split_def repr_def frame_def\<close>)
next
  case (2 us c vs)
  have hd: "head (snd s) = hd (us @ [c])" using r 2(1) by (cases us) (auto simp: repr_def)
  have xs: "xs = map (elem (fst s)) us @ elem (fst s) c # map (elem (fst s)) vs" using r 2(1) by (simp add: repr_def)
  have "find P xs = Some (elem (fst s) c)" "remove_first P xs = map (elem (fst s)) (us @ vs)" "\<exists>x \<in> set xs. P x"
    unfolding xs using 2 by (auto simp: remove_first_append find_append_none)
  moreover obtain s' where "remove_from P null_ptr (hd (us @ [c])) s = Some (True, s')"
    "take_from dflt P null_ptr (hd (us @ [c])) s = Some (elem (fst s) c, s')"
    "find_from dflt P (fst s) (hd (us @ [c])) = Some (elem (fst s) c)"
    "repr s' (us @ vs) (map (elem (fst s)) (us @ vs))" "frame (set (us @ [c])) (fst s) (fst s')"
    using search_found [of s "[]" us c vs xs P dflt] r 2 by auto
  ultimately show thesis
    by (intro that [of s' "us @ vs"]) (use 2(1) hd in \<open>auto simp: Remove_def Take_def Find_def split_def frame_def\<close>)
qed

subsection \<open>Traversals\<close>

lemma clear_from_seg:
  "seg h p as null_ptr \<Longrightarrow> distinct as \<Longrightarrow> clear_from p h = Some (\<lambda>a. if a \<in> set as then None else h a)"
proof (induction as arbitrary: p h)
  case Nil
  then show ?case by (simp add: clear_from.simps)
next
  case (Cons a as)
  then obtain n where n: "p = a" "a \<noteq> null_ptr" "h a = Some n" "seg h (next n) as null_ptr" by auto
  define g where "g = h(a := None)"
  have "seg g (next n) as null_ptr" by (rule seg_cong [OF n(4)]) (use Cons.prems(2) in \<open>auto simp: g_def\<close>)
  from Cons.IH [OF this] have "clear_from (next n) g = Some (\<lambda>x. if x \<in> set as then None else g x)"
    using Cons.prems(2) by simp
  then show ?case using n by (subst clear_from.simps) (auto simp: fun_eq_iff g_def [symmetric], simp_all add: g_def)
qed

lemma elements_from_seg: "seg h p as null_ptr \<Longrightarrow> elements_from h p = Some (map (elem h) as)"
proof (induction as arbitrary: p)
  case Nil
  then show ?case by (simp add: elements_from.simps)
next
  case (Cons a as)
  then show ?case by (subst elements_from.simps) (auto simp: elem_def)
qed

lemma stack_from_seg: "seg h p as null_ptr \<Longrightarrow> stack_from h k p = Some (take k (map (elem h) as))"
proof (induction as arbitrary: p k)
  case Nil
  then show ?case by (cases k) auto
next
  case (Cons a as)
  then show ?case by (cases k) (auto simp: elem_def)
qed

lemma Clear_repr:
  assumes "repr s as xs"
  obtains s' where "Clear s = Some s'" "repr s' [] []" "frame (set as) (fst s) (fst s')" "set as \<inter> dom (fst s') = {}"
proof -
  have sg: "seg (fst s) (head (snd s)) as null_ptr" "distinct as" using assms by (simp_all add: repr_def)
  show thesis
    by (rule that [of "(\<lambda>a. if a \<in> set as then None else fst s a, (snd s)\<lparr>head := null_ptr, tail := null_ptr, ll_size := 0\<rparr>)"])
      (auto simp: Clear_def split_def clear_from_seg [OF sg] repr_def frame_def split: if_splits)
qed

text \<open>Copying another list, whose nodes \<open>bs\<close> are disjoint from those of the list appended to.\<close>

lemma copy_from_repr:
  assumes new: "allocator new" and "repr s as xs" "seg (fst s) p bs null_ptr" "set as \<inter> set bs = {}"
    "length bs \<le> card (room (fst s))"
  shows "\<exists>s' as'. copy_from new p s = Some s' \<and> repr s' as' (xs @ map (elem (fst s)) bs)
    \<and> set as' \<inter> (dom (fst s) - set as) = {} \<and> frame (set as) (fst s) (fst s')"
  using assms(2-)
proof (induction bs arbitrary: p s as xs)
  case Nil
  then show ?case by (subst copy_from.simps) (auto simp: frame_def intro!: exI [of _ as])
next
  case (Cons b bs)
  then obtain n where n: "p = b" "b \<noteq> null_ptr" "fst s b = Some n" "seg (fst s) (next n) bs null_ptr" by auto
  have "room (fst s) \<noteq> {}" using Cons.prems(4) by (metis card.empty le_zero_eq length_0_conv list.distinct(1))
  then have fr: "fresh new (fst s)" using new by (simp add: allocator_def)
  then have nn: "new (fst s) \<notin> dom (fst s)" "new (fst s) \<in> room (fst s)" by (simp_all add: fresh_def room_def)
  obtain s1 where s1: "PushBack new (data n) s = Some s1" "repr s1 (as @ [new (fst s)]) (xs @ [data n])" "frame (set as) (fst s) (fst s1)"
    "dom (fst s1) = insert (new (fst s)) (dom (fst s))" by (rule PushBack_repr [OF Cons.prems(1) fr])
  have "room (fst s1) = room (fst s) - {new (fst s)}" using s1(4) by (auto simp: room_def)
  then have rm: "length bs \<le> card (room (fst s1))" using Cons.prems(4) nn(2) by simp
  have bs: "x \<in> dom (fst s)" "fst s1 x = fst s x" if "x \<in> set (b # bs)" for x
    using s1(3) seg_nodes [OF Cons.prems(2) that] that Cons.prems(3) by (auto simp: frame_def)
  have sg: "seg (fst s1) (next n) bs null_ptr" by (rule seg_cong [OF n(4)]) (use bs in auto)
  have dis: "set (as @ [new (fst s)]) \<inter> set bs = {}" using Cons.prems(3) nn bs(1) by auto
  from Cons.IH [OF s1(2) sg dis rm] obtain s' as' where s': "copy_from new (next n) s1 = Some s'"
    "repr s' as' ((xs @ [data n]) @ map (elem (fst s1)) bs)" "set as' \<inter> (dom (fst s1) - set (as @ [new (fst s)])) = {}"
    "frame (set (as @ [new (fst s)])) (fst s1) (fst s')" by blast
  have "copy_from new p s = Some s'" using n s1(1) s'(1) bs(2) [of b] by (subst copy_from.simps) simp
  moreover have "(xs @ [data n]) @ map (elem (fst s1)) bs = xs @ map (elem (fst s)) (b # bs)"
    using n bs(2) by (simp add: elem_def)
  moreover have "fst s1 x = fst s x" if "x \<in> dom (fst s) - set as" for x using s1(3) that by (auto simp: frame_def)
  then have "dom (fst s) - set as \<subseteq> dom (fst s1) - set (as @ [new (fst s)])" using nn by (auto simp: dom_def)
  then have "set as' \<inter> (dom (fst s) - set as) = {}" using s'(3) by blast
  moreover have "frame (set as) (fst s) (fst s')" unfolding frame_def
    using s1(3) s'(4) nn unfolding frame_def by (metis Un_iff domIff empty_iff empty_set insert_iff list.simps(15) set_append)
  ultimately show ?case using s'(2) by metis
qed

subsection \<open>The queue interface\<close>

text \<open>
  The scheduler walks its lists by popping every element and pushing it back. What this relies on is a
  first-in first-out queue; \<open>rotate_find\<close> is the walk of \<^verbatim>\<open>Scheduler::FindProcess\<close>, which returns
  the first matching element, and \<open>rotate_until\<close> that of \<^verbatim>\<open>KillProcess\<close>, which stops at the match.
\<close>

fun rotate_find :: "('s \<Rightarrow> ('a \<times> 's) option) \<Rightarrow> ('a \<Rightarrow> 's \<Rightarrow> 's option) \<Rightarrow> ('a \<Rightarrow> bool) \<Rightarrow> nat \<Rightarrow> 'a option \<Rightarrow> 's
    \<Rightarrow> ('a option \<times> 's) option" where
  "rotate_find pop push P 0 found s = Some (found, s)"
| "rotate_find pop push P (Suc n) found s =
     do { (t, s) \<leftarrow> pop s; s \<leftarrow> push t s;
          rotate_find pop push P n (if found = None \<and> P t then Some t else found) s }"

fun rotate_until :: "('s \<Rightarrow> ('a \<times> 's) option) \<Rightarrow> ('a \<Rightarrow> 's \<Rightarrow> 's option) \<Rightarrow> ('a \<Rightarrow> bool) \<Rightarrow> nat \<Rightarrow> 's
    \<Rightarrow> ('a option \<times> 's) option" where
  "rotate_until pop push P 0 s = Some (None, s)"
| "rotate_until pop push P (Suc n) s =
     do { (t, s) \<leftarrow> pop s; s \<leftarrow> push t s;
          (if P t then Some (Some t, s) else rotate_until pop push P n s) }"

locale fifo =
  fixes holds :: "'s \<Rightarrow> 'a list \<Rightarrow> bool" and has_room :: "'s \<Rightarrow> bool" and pop :: "'s \<Rightarrow> ('a \<times> 's) option" and push :: "'a \<Rightarrow> 's \<Rightarrow> 's option"
  assumes pop: "holds s (x # xs) \<Longrightarrow> \<exists>s'. pop s = Some (x, s') \<and> holds s' xs \<and> has_room s'"
    and push: "holds s xs \<Longrightarrow> has_room s \<Longrightarrow> \<exists>s'. push x s = Some s' \<and> holds s' (xs @ [x])"
begin

lemma rotate_step:
  assumes "holds s (x # xs)"
  obtains s1 s2 where "pop s = Some (x, s1)" "push x s1 = Some s2" "holds s2 (xs @ [x])"
  using pop [OF assms] push by blast

lemma rotate_find_from:
  "holds s (ys @ xs) \<Longrightarrow> \<exists>s'. rotate_find pop push P (length ys) found s = Some (if found = None then find P ys else found, s')
    \<and> holds s' (xs @ ys)"
proof (induction ys arbitrary: xs found s)
  case Nil
  then show ?case by simp
next
  case (Cons y ys)
  obtain s1 s2 where s: "pop s = Some (y, s1)" "push y s1 = Some s2" "holds s2 (ys @ xs @ [y])"
    using rotate_step [of s y "ys @ xs"] Cons.prems by auto
  from Cons.IH [OF s(3), of "if found = None \<and> P y then Some y else found"] show ?case using s(1,2)
    by (auto split: if_splits)
qed

lemma rotate_find_all:
  assumes "holds s xs"
  shows "\<exists>s'. rotate_find pop push P (length xs) None s = Some (find P xs, s') \<and> holds s' xs"
  using rotate_find_from [of s xs "[]" P None] assms by simp

lemma rotate_until_from:
  "holds s (ys @ xs) \<Longrightarrow> \<exists>s'. rotate_until pop push P (length ys) s = Some (find P ys, s')
    \<and> (\<exists>zs ws. ys @ xs = zs @ ws \<and> holds s' (ws @ zs))"
proof (induction ys arbitrary: xs s)
  case Nil
  then have "[] @ xs = [] @ xs \<and> holds s (xs @ [])" by simp
  then show ?case by (simp del: append_Nil append_Nil2) blast
next
  case (Cons y ys)
  obtain s1 s2 where s: "pop s = Some (y, s1)" "push y s1 = Some s2" "holds s2 (ys @ xs @ [y])"
    using rotate_step [of s y "ys @ xs"] Cons.prems by auto
  show ?case
  proof (cases "P y")
    case True
    have "(y # ys) @ xs = [y] @ (ys @ xs) \<and> holds s2 ((ys @ xs) @ [y])" using s(3) by simp
    then have "\<exists>zs ws. (y # ys) @ xs = zs @ ws \<and> holds s2 (ws @ zs)" by blast
    then show ?thesis using s True by auto
  next
    case False
    from Cons.IH [OF s(3)] obtain s' zs ws where s': "rotate_until pop push P (length ys) s2 = Some (find P ys, s')"
      "ys @ xs @ [y] = zs @ ws" "holds s' (ws @ zs)" by blast
    have "\<exists>zs' ws'. (y # ys) @ xs = zs' @ ws' \<and> ws' @ zs' = ws @ zs"
    proof (cases ws rule: rev_cases)
      case Nil
      then show ?thesis using s'(2) by (intro exI [of _ "[y]"] exI [of _ "ys @ xs"]) simp
    next
      case (snoc ws' w)
      then show ?thesis using s'(2) by (intro exI [of _ "y # zs"] exI [of _ ws']) auto
    qed
    then have "\<exists>zs ws. (y # ys) @ xs = zs @ ws \<and> holds s' (ws @ zs)" using s'(3) by metis
    then show ?thesis using s s'(1) False by auto
  qed
qed

lemma rotate_until_all:
  assumes "holds s xs"
  shows "\<exists>s'. rotate_until pop push P (length xs) s = Some (find P xs, s') \<and> (\<exists>zs ws. xs = zs @ ws \<and> holds s' (ws @ zs))"
  using rotate_until_from [of s xs "[]" P] assms by simp

end

interpretation ll: fifo "\<lambda>s xs. allocator new \<and> (\<exists>as. repr s as xs)" "\<lambda>s. room (fst s) \<noteq> {}" "PopFront dflt" "PushBack new" for dflt new
proof unfold_locales
  fix s :: "'a nodes \<times> linked_list" and x xs
  assume "allocator new \<and> (\<exists>as. repr s as (x # xs))"
  then obtain a as where r: "allocator new" "repr s (a # as) (x # xs)" by (metis length_0_conv list.exhaust list.distinct(1) repr_length(1))
  show "\<exists>s'. PopFront dflt s = Some (x, s') \<and> (allocator new \<and> (\<exists>as. repr s' as xs)) \<and> room (fst s') \<noteq> {}"
    by (rule PopFront_repr [OF r(2), of dflt]) (use r(1) in auto)
next
  fix s :: "'a nodes \<times> linked_list" and x xs
  assume a: "allocator new \<and> (\<exists>as. repr s as xs)" "room (fst s) \<noteq> {}"
  then have "fresh new (fst s)" by (simp add: allocator_def)
  with a show "\<exists>s'. PushBack new x s = Some s' \<and> allocator new \<and> (\<exists>as. repr s' as (xs @ [x]))"
    using PushBack_repr by metis
qed

subsection \<open>Properties\<close>

text \<open>
  Property C14 (refinement). A list object that holds the elements \<open>xs\<close> behaves as that sequence under
  every operation, whatever \<^verbatim>\<open>T{}\<close> is and wherever the allocator finds a fresh address: the pointer
  loops end, each operation returns what it would on the sequence and leaves an object that holds the
  new sequence, and it touches no node of another list.
\<close>

theorem LinkedList_refines_sequence:
  assumes r: "repr s as xs" and new: "new (fst s) \<noteq> null_ptr \<and> new (fst s) \<notin> dom (fst s)"
  shows "(\<exists>bs. repr (Add new x s) bs (x # xs) \<and> frame (set as) (fst s) (fst (Add new x s)))
    \<and> (\<exists>t bs. PushBack new x s = Some t \<and> repr t bs (xs @ [x]) \<and> frame (set as) (fst s) (fst t))
    \<and> (\<exists>t bs. PopFront dflt s = Some (if xs = [] then dflt else hd xs, t) \<and> repr t bs (tl xs) \<and> frame (set as) (fst s) (fst t))
    \<and> GetFront dflt s = Some (if xs = [] then dflt else hd xs)
    \<and> (\<exists>t bs. Remove P s = Some (\<exists>x \<in> set xs. P x, t) \<and> Take dflt P s = Some (case find P xs of Some x \<Rightarrow> x | None \<Rightarrow> dflt, t)
        \<and> repr t bs (remove_first P xs) \<and> frame (set as) (fst s) (fst t))
    \<and> Find dflt P s = Some (case find P xs of Some x \<Rightarrow> x | None \<Rightarrow> dflt)
    \<and> (\<exists>t. Clear s = Some t \<and> repr t [] [] \<and> set as \<inter> dom (fst t) = {} \<and> frame (set as) (fst s) (fst t))
    \<and> GetSize s = of_nat (length xs) \<and> (IsEmpty s \<longleftrightarrow> xs = []) \<and> ForEach s = Some xs"
proof (intro conjI)
  have fr: "fresh new (fst s)" using new by (simp add: fresh_def)
  show "\<exists>bs. repr (Add new x s) bs (x # xs) \<and> frame (set as) (fst s) (fst (Add new x s))"
    using Add_repr [OF r fr, of x] by (auto simp: frame_def)
  show "\<exists>t bs. PushBack new x s = Some t \<and> repr t bs (xs @ [x]) \<and> frame (set as) (fst s) (fst t)"
    by (rule PushBack_repr [OF r fr, of x]) blast
  show "\<exists>t bs. PopFront dflt s = Some (if xs = [] then dflt else hd xs, t) \<and> repr t bs (tl xs) \<and> frame (set as) (fst s) (fst t)"
  proof (cases as)
    case Nil
    then show ?thesis using r by (intro exI [of _ s] exI [of _ as]) (auto simp: PopFront_def split_def repr_def frame_def)
  next
    case (Cons a bs)
    then have "xs \<noteq> []" using repr_length(1) [OF r] by auto
    then show ?thesis by (rule_tac PopFront_repr [of s a bs xs dflt]) (use r Cons in \<open>auto simp: frame_def\<close>)
  qed
  show "GetFront dflt s = Some (if xs = [] then dflt else hd xs)"
    using r by (cases as) (auto simp: GetFront_def split_def repr_def elem_def)
  show "\<exists>t bs. Remove P s = Some (\<exists>x \<in> set xs. P x, t) \<and> Take dflt P s = Some (case find P xs of Some x \<Rightarrow> x | None \<Rightarrow> dflt, t)
      \<and> repr t bs (remove_first P xs) \<and> frame (set as) (fst s) (fst t)"
    by (rule Remove_repr [OF r, of P dflt]) blast
  show "Find dflt P s = Some (case find P xs of Some x \<Rightarrow> x | None \<Rightarrow> dflt)" by (rule Remove_repr [OF r, of P dflt])
  show "\<exists>t. Clear s = Some t \<and> repr t [] [] \<and> set as \<inter> dom (fst t) = {} \<and> frame (set as) (fst s) (fst t)"
    by (rule Clear_repr [OF r]) blast
  show "GetSize s = of_nat (length xs)" using r by (simp add: GetSize_def repr_def)
  show "IsEmpty s \<longleftrightarrow> xs = []"
    using r repr_length [OF r] by (auto simp: IsEmpty_def repr_def dest: arg_cong [of _ _ unat])
  show "ForEach s = Some xs" using r elements_from_seg by (auto simp: ForEach_def split_def repr_def)
qed

definition sample_list :: "nat nodes \<times> linked_list" where
  "sample_list = ([16 \<mapsto> \<lparr>data = 5, next = 32\<rparr>, 32 \<mapsto> \<lparr>data = 7, next = 0\<rparr>], \<lparr>head = 16, tail = 32, ll_size = 2\<rparr>)"

lemma sample_list_repr: "repr sample_list [16, 32] [5, 7]"
  by (simp add: repr_def sample_list_def elem_def)

theorem LinkedList_refines_sequence_witness:
  "\<exists>t bs. Remove (\<lambda>x. x = 7) sample_list = Some (True, t) \<and> repr t bs [5]"
  using LinkedList_refines_sequence [OF sample_list_repr, of "\<lambda>_. 48" 0 0 "\<lambda>x. x = 7"]
  by (auto simp: sample_list_def)

text \<open>
  Property C37 (bounds). \<^verbatim>\<open>ReverseForEach\<close> visits the elements in reverse order, but only the first 128
  of the list: the elements after them are not visited.
\<close>

theorem ReverseForEach_first_128:
  assumes "repr s as xs"
  shows "ReverseForEach s = Some (rev (take 128 xs))"
  using assms stack_from_seg [of "fst s" "head (snd s)" as 128] by (simp add: ReverseForEach_def split_def repr_def)

theorem ReverseForEach_first_128_witness: "ReverseForEach sample_list = Some [7, 5]"
  using ReverseForEach_first_128 [OF sample_list_repr] by simp

end
