(* ===== verification/Scheduler.thy ===== *)
theory Scheduler
  imports User_Stack Linked_List
begin

text \<open>
  The scheduler, \<^verbatim>\<open>core/scheduler.cpp\<close>: processes and threads, the ready and blocked queues, round
  robin, sleeping and waking, thread and process creation, cloning, exit and reclamation. Thread and
  process control blocks are records behind their addresses; the queues are sequences of thread
  addresses. Page tables, frames and kernel stacks are those of the theories \<open>Paging\<close>, \<open>Pmm\<close> and
  \<open>Kstack\<close>. The kernel heap behind \<^verbatim>\<open>new\<close> is a parameter. Interrupts are masked inside each
  operation, so operations are atomic steps.
\<close>

subsection \<open>State\<close>

datatype thread_state = THREAD_STATE_NEW | THREAD_STATE_READY | THREAD_STATE_RUNNING
  | THREAD_STATE_BLOCKED | THREAD_STATE_TERMINATED

record CPUState =
  eax :: u32
  ebx :: u32
  ecx :: u32
  edx :: u32
  esi :: u32
  edi :: u32
  ebp :: u32
  ds :: u32
  es :: u32
  fs_reg :: u32
  gs :: u32
  err :: u32
  eip :: u32
  cs :: u32
  eflags :: u32
  esp :: u32
  ss :: u32

definition zero_context :: CPUState where
  "zero_context = \<lparr>eax = 0, ebx = 0, ecx = 0, edx = 0, esi = 0, edi = 0, ebp = 0, ds = 0, es = 0, fs_reg = 0,
     gs = 0, err = 0, eip = 0, cs = 0, eflags = 0, esp = 0, ss = 0\<rparr>"

record tcb =
  tid :: u32
  t_pid :: u32
  t_state :: thread_state
  stack :: u32
  cpu_context :: u32
  t_parent :: u32
  wakeTime :: u32
  stackSlotIdx :: u32

definition new_tcb :: tcb where
  "new_tcb = \<lparr>tid = 0, t_pid = 0, t_state = THREAD_STATE_NEW, stack = 0, cpu_context = 0, t_parent = 0,
     wakeTime = 0, stackSlotIdx = 0\<rparr>"

record pcb =
  p_pid :: u32
  page_directory :: u32
  p_threads :: "u32 list"
  p_parent :: u32
  isKernelProcess :: bool
  mainEntry :: u32
  appType :: u16
  heap :: "u32 \<times> u32 \<times> u32"
  fdTable :: "u32 list"
  programArgs :: u32
  cwd :: "u8 list"
  stdinQueue :: "u8 list"
  stdinHead :: u16
  stdinTail :: u16
  stdinAttached :: bool
  isCliHost :: bool
  cliHostViewId :: u32
  cliHostPid :: u32
  cliAttachedViewId :: u32
  deferredStackSlots :: "u32 list"
  deferredSlotCount :: s32

definition new_pcb :: pcb where
  "new_pcb = \<lparr>p_pid = 0, page_directory = 0, p_threads = [], p_parent = 0, isKernelProcess = False, mainEntry = 0,
     appType = 0, heap = (0, 0, 0), fdTable = replicate 128 0, programArgs = 0, cwd = replicate 256 0,
     stdinQueue = replicate 256 0, stdinHead = 0, stdinTail = 0, stdinAttached = False, isCliHost = False,
     cliHostViewId = 0, cliHostPid = 0, cliAttachedViewId = 0, deferredStackSlots = replicate 256 0,
     deferredSlotCount = 0\<rparr>"

text \<open>
  The members of the scheduler object, the two statics of the file (\<open>pool\<close> is
  \<^verbatim>\<open>g_freeStackOffsets\<close>), the control blocks, saved contexts by address, and the machine state it
  drives. \<open>threadExit\<close> and \<open>idleTask\<close> are the code addresses of the two C functions.
\<close>

record sched =
  procs :: "u32 \<rightharpoonup> pcb"
  threads :: "u32 \<rightharpoonup> tcb"
  globalProcessList :: "u32 list"
  readyQueue :: "u32 list"
  blockedQueue :: "u32 list"
  terminatedQueue :: "u32 list"
  pendingReclaims :: "u32 list"
  pidCounter :: u32
  tidCounter :: u32
  trampolinePhys :: u32
  currentThread :: u32
  idleThread :: u32
  pool :: "u32 list"
  nextStackSlotIdx :: u32
  contexts :: "u32 \<Rightarrow> CPUState"
  vm :: "pmm_info vm"
  zone :: kstack_zone
  tss_esp0 :: u32
  timerTicks :: u64
  threadExit :: u32
  idleTask :: u32

abbreviation thread :: "sched \<Rightarrow> u32 \<Rightarrow> tcb" where "thread s t \<equiv> the (threads s t)"
abbreviation proc :: "sched \<Rightarrow> u32 \<Rightarrow> pcb" where "proc s p \<equiv> the (procs s p)"

definition upd_thread :: "u32 \<Rightarrow> (tcb \<Rightarrow> tcb) \<Rightarrow> sched \<Rightarrow> sched" where
  "upd_thread t f s = s\<lparr>threads := (threads s)(t \<mapsto> f (thread s t))\<rparr>"

definition upd_proc :: "u32 \<Rightarrow> (pcb \<Rightarrow> pcb) \<Rightarrow> sched \<Rightarrow> sched" where
  "upd_proc p f s = s\<lparr>procs := (procs s)(p \<mapsto> f (proc s p))\<rparr>"

text \<open>\<^verbatim>\<open>kstack_free(thread->stack); delete thread\<close>.\<close>

definition delete_thread :: "u32 \<Rightarrow> sched \<Rightarrow> sched" where
  "delete_thread t s = s\<lparr>zone := kstack_free (zone s) (stack (thread s t)), threads := (threads s)(t := None)\<rparr>"

subsection \<open>Creating threads\<close>

text \<open>
  \<^verbatim>\<open>AllocUserStack\<close>: the slot's base and its top frame, or \<open>None\<close> after the thread has been
  deleted and the slot recycled.
\<close>

definition AllocUserStack :: "u32 \<Rightarrow> u32 \<Rightarrow> sched \<Rightarrow> (u32 \<times> u32) option \<times> sched" where
  "AllocUserStack t pd s =
     (case choose_slot (slot_mapped (vm_mem (vm s)) pd) (pool s) (nextStackSlotIdx s) of
        (None, po, nx) \<Rightarrow> (None, delete_thread t (s\<lparr>pool := po, nextStackSlotIdx := nx\<rparr>))
      | (Some slotIdx, po, nx) \<Rightarrow>
          let s = upd_thread t (\<lambda>tc. tc\<lparr>stackSlotIdx := slotIdx\<rparr>) (s\<lparr>pool := po, nextStackSlotIdx := nx\<rparr>);
              recycled = s\<lparr>pool := slotIdx # pool s\<rparr> in
          case stack_base_of slotIdx of
            None \<Rightarrow> (None, delete_thread t recycled)
          | Some base \<Rightarrow>
              (case map_stack_pages pd base 1 0 (vm s) of
                 (None, v) \<Rightarrow> (None, delete_thread t (recycled\<lparr>vm := v\<rparr>))
               | (Some top_page_phys, v) \<Rightarrow> (Some (base, top_page_phys), s\<lparr>vm := v\<rparr>)))"

text \<open>The initial register frame of a thread, and where a user thread finds its argument.\<close>

definition kernel_context :: "u32 \<Rightarrow> u32 \<Rightarrow> u32 \<Rightarrow> CPUState" where
  "kernel_context exit entrypoint arg = zero_context\<lparr>eip := entrypoint, eflags := 0x202, cs := 0x08,
     ds := 0x10, es := 0x10, fs_reg := 0x10, gs := 0x10, esp := exit, ss := arg\<rparr>"

definition user_context :: "u32 \<Rightarrow> u32 \<Rightarrow> CPUState" where
  "user_context entrypoint base = zero_context\<lparr>eip := entrypoint, eflags := 0x202, cs := 0x1B,
     ds := 0x23, es := 0x23, fs_reg := 0x23, gs := 0x23, esp := base + user_stack_size - 8, ss := 0x23\<rparr>"

definition push_entry_frame :: "u32 \<Rightarrow> u32 \<Rightarrow> memory \<Rightarrow> memory" where
  "push_entry_frame top_page_phys arg m =
     m(top_page_phys + PAGE_SIZE - 4 := arg, top_page_phys + PAGE_SIZE - 8 := USER_EXIT_TRAMPOLINE_VIRT)"

definition context_of :: "u32 \<Rightarrow> u32" where
  "context_of stk = stk + KERNEL_STACK_SIZE - 68"

definition set_context :: "u32 \<Rightarrow> CPUState \<Rightarrow> sched \<Rightarrow> sched" where
  "set_context t c s = s\<lparr>contexts := (contexts s)(cpu_context (thread s t) := c)\<rparr>"

definition make_ready :: "u32 \<Rightarrow> u32 \<Rightarrow> sched \<Rightarrow> sched" where
  "make_ready parent t s =
     (let s = upd_proc parent (\<lambda>p. p\<lparr>p_threads := p_threads p @ [t]\<rparr>) s;
          s = upd_thread t (\<lambda>tc. tc\<lparr>t_state := THREAD_STATE_READY\<rparr>) s in
      s\<lparr>readyQueue := readyQueue s @ [t]\<rparr>)"

text \<open>
  \<open>newT\<close> is \<^verbatim>\<open>new ThreadControlBlock()\<close>, 0 when the heap is exhausted. The result is the thread's
  address, 0 on failure.
\<close>

definition start_tcb :: "u32 \<Rightarrow> u32 \<Rightarrow> sched \<Rightarrow> (bool \<times> sched)" where
  "start_tcb t parent s =
     (let tc = new_tcb\<lparr>tid := tidCounter s, t_parent := parent,
            t_pid := if parent = null_ptr then 0 else p_pid (proc s parent), stackSlotIdx := UINT32_MAX\<rparr>;
          s = s\<lparr>tidCounter := tidCounter s + 1\<rparr> in
      case kstack_alloc (zone s) of
        (stk, z) \<Rightarrow>
          let s = s\<lparr>zone := z\<rparr> in
          if stk = null_ptr then (False, s)
          else (True, s\<lparr>threads := (threads s)(t \<mapsto> tc\<lparr>stack := stk, cpu_context := context_of stk\<rparr>)\<rparr>))"

definition CreateThread :: "(sched \<Rightarrow> u32) \<Rightarrow> u32 \<Rightarrow> u32 \<Rightarrow> u32 \<Rightarrow> sched \<Rightarrow> u32 \<times> sched" where
  "CreateThread newT parent entrypoint arg s =
     (let t = newT s in
      if t = null_ptr then (0, s)
      else case start_tcb t parent s of
        (False, s) \<Rightarrow> (0, s)
      | (True, s) \<Rightarrow>
          if parent = null_ptr then (t, set_context t (kernel_context (threadExit s) entrypoint arg) s)
          else if isKernelProcess (proc s parent)
          then (t, make_ready parent t (set_context t (kernel_context (threadExit s) entrypoint arg) s))
          else (case AllocUserStack t (page_directory (proc s parent)) s of
              (None, s) \<Rightarrow> (0, s)
            | (Some (base, top_page_phys), s) \<Rightarrow>
                let s = set_context t (user_context entrypoint base) s;
                    s = s\<lparr>vm := (vm s)\<lparr>vm_mem := push_entry_frame top_page_phys arg (vm_mem (vm s))\<rparr>\<rparr> in
                (t, make_ready parent t s)))"

subsection \<open>Ending threads\<close>

definition reclaim_user_stack :: "u32 \<Rightarrow> sched \<Rightarrow> sched" where
  "reclaim_user_stack t s =
     (let tc = thread s t in
      if t_parent tc \<noteq> null_ptr \<and> stackSlotIdx tc \<noteq> UINT32_MAX then
        let pd = page_directory (proc s (t_parent tc));
            s = (if pd \<noteq> null_ptr then s\<lparr>vm := FreeUserStackSlot pd (stackSlotIdx tc) (vm s)\<rparr> else s);
            s = s\<lparr>pool := stackSlotIdx tc # pool s\<rparr> in
        upd_thread t (\<lambda>tc. tc\<lparr>stackSlotIdx := UINT32_MAX\<rparr>) s
      else s)"

definition leave_parent :: "u32 \<Rightarrow> sched \<Rightarrow> sched" where
  "leave_parent t s =
     (let p = t_parent (thread s t) in
      if p \<noteq> null_ptr then upd_proc p (\<lambda>pc. pc\<lparr>p_threads := remove1 t (p_threads pc)\<rparr>) s else s)"

definition TerminateThread :: "u32 \<Rightarrow> sched \<Rightarrow> sched" where
  "TerminateThread t s =
     (if t = null_ptr \<or> t_state (thread s t) = THREAD_STATE_TERMINATED then s
      else
        let s = upd_thread t (\<lambda>tc. tc\<lparr>t_state := THREAD_STATE_TERMINATED\<rparr>) s;
            s = s\<lparr>readyQueue := remove1 t (readyQueue s), blockedQueue := remove1 t (blockedQueue s)\<rparr>;
            s = leave_parent t (reclaim_user_stack t s) in
        if t = currentThread s then s\<lparr>currentThread := null_ptr, pendingReclaims := pendingReclaims s @ [t]\<rparr>
        else if stack (thread s t) \<noteq> null_ptr then delete_thread t s
        else s\<lparr>threads := (threads s)(t := None)\<rparr>)"

text \<open>The first process with the pid, and the process list rotated up to it.\<close>

fun rotate_to :: "(u32 \<Rightarrow> bool) \<Rightarrow> nat \<Rightarrow> u32 list \<Rightarrow> u32 \<times> u32 list" where
  "rotate_to P 0 ps = (null_ptr, ps)"
| "rotate_to P (Suc n) ps =
     (case ps of [] \<Rightarrow> (null_ptr, [])
      | p # ps \<Rightarrow> if P p then (p, ps @ [p]) else rotate_to P n (ps @ [p]))"

fun terminate_threads :: "u32 \<Rightarrow> nat \<Rightarrow> sched \<Rightarrow> sched" where
  "terminate_threads target 0 s = s"
| "terminate_threads target (Suc n) s =
     (case p_threads (proc s target) of
        [] \<Rightarrow> terminate_threads target n (TerminateThread null_ptr s)
      | t # ts \<Rightarrow>
          terminate_threads target n (TerminateThread t (upd_proc target (\<lambda>pc. pc\<lparr>p_threads := ts\<rparr>) s)))"

fun recycle_deferred :: "u32 list \<Rightarrow> u32 list \<Rightarrow> u32 list" where
  "recycle_deferred [] po = po"
| "recycle_deferred (slot # slots) po = recycle_deferred slots (slot # po)"

text \<open>\<^verbatim>\<open>FreeProgramArguments\<close> only returns kernel-heap memory of the process that is deleted here.\<close>

definition KillProcess :: "u32 \<Rightarrow> sched \<Rightarrow> bool \<times> sched" where
  "KillProcess pid s =
     (case rotate_to (\<lambda>p. p_pid (proc s p) = pid) (length (globalProcessList s)) (globalProcessList s) of
        (target, ps) \<Rightarrow>
          let s = s\<lparr>globalProcessList := ps\<rparr> in
          if target = null_ptr then (False, s)
          else
            let pd = page_directory (proc s target);
                s = (if pd = vm_cr3 (vm s) then s\<lparr>vm := SwitchDirectory (vm s) (vm_kernel_dir (vm s))\<rparr> else s);
                slots = take (nat (sint (deferredSlotCount (proc s target)))) (deferredStackSlots (proc s target));
                s = terminate_threads target (length (p_threads (proc s target))) s;
                s = (if isKernelProcess (proc s target) then s
                     else s\<lparr>vm := free_address_space (trampolinePhys s) pd (vm s)\<rparr>) in
            (True, s\<lparr>pool := recycle_deferred slots (pool s), globalProcessList := remove1 target (globalProcessList s),
               procs := (procs s)(target := None)\<rparr>))"

definition GetCurrentProcess :: "sched \<Rightarrow> u32" where
  "GetCurrentProcess s = (if currentThread s \<noteq> null_ptr then t_parent (thread s (currentThread s)) else null_ptr)"

text \<open>The walk over the process list and back to its order is the queue lemma \<open>rotate_find_all\<close>.\<close>

definition FindProcess :: "u32 \<Rightarrow> sched \<Rightarrow> u32" where
  "FindProcess pid s =
     (if pid = 0 then GetCurrentProcess s
      else case find (\<lambda>p. p_pid (proc s p) = pid) (globalProcessList s) of Some p \<Rightarrow> p | None \<Rightarrow> null_ptr)"

definition ExitCurrentThread :: "sched \<Rightarrow> bool \<times> sched" where
  "ExitCurrentThread s =
     (if currentThread s = null_ptr then (False, s)
      else let parent = t_parent (thread s (currentThread s)) in
        if parent = null_ptr then (False, TerminateThread (currentThread s) s)
        else if length (filter (\<lambda>t. t_state (thread s t) \<noteq> THREAD_STATE_TERMINATED) (p_threads (proc s parent))) \<le> 1
        then (True, snd (KillProcess (p_pid (proc s parent)) s))
        else (False, TerminateThread (currentThread s) s))"

subsection \<open>Creating processes\<close>

definition CreateProcess :: "(sched \<Rightarrow> u32) \<Rightarrow> (sched \<Rightarrow> u32) \<Rightarrow> bool \<Rightarrow> u32 \<Rightarrow> u32 \<Rightarrow> bool \<Rightarrow> sched \<Rightarrow> (u32 \<times> sched) option" where
  "CreateProcess newP newT isKernel entrypoint arg createMainThread s =
     (let p = newP s in
      if p = null_ptr then None
      else
        let pc = new_pcb\<lparr>p_pid := pidCounter s, isKernelProcess := isKernel, mainEntry := entrypoint, appType := 1,
              cwd := (replicate 256 0)[0 := 0x2F, 1 := 0]\<rparr>;
            s = s\<lparr>pidCounter := pidCounter s + 1\<rparr> in
        case (if isKernel then (vm_kernel_dir (vm s), vm s) else CreateProcessDirectory (vm s)) of (pd, v) \<Rightarrow>
        case (if isKernel then (True, v)
              else MapPage v pd USER_EXIT_TRAMPOLINE_VIRT (trampolinePhys s) (PAGE_PRESENT OR PAGE_USER)) of (ok, v) \<Rightarrow>
        if \<not> ok then Some (0, s\<lparr>vm := if pd \<noteq> vm_kernel_dir v then free_frame pd v else v\<rparr>)
        else
          let s = s\<lparr>vm := v, procs := (procs s)(p \<mapsto> pc\<lparr>page_directory := pd\<rparr>),
                    globalProcessList := globalProcessList s @ [p]\<rparr> in
          if \<not> createMainThread then Some (p, s)
          else case CreateThread newT p entrypoint arg s of
            (t, s) \<Rightarrow>
              if t \<noteq> null_ptr then Some (p, s)
              else Some (0, s\<lparr>vm := if \<not> isKernel \<and> pd \<noteq> vm_kernel_dir (vm s)
                                   then freeChildAddressSpace (trampolinePhys s) pd (vm s) else vm s,
                             globalProcessList := remove1 p (globalProcessList s), procs := (procs s)(p := None)\<rparr>))"

definition StartProcess :: "(sched \<Rightarrow> u32) \<Rightarrow> u32 \<Rightarrow> u32 \<Rightarrow> sched \<Rightarrow> bool \<times> sched" where
  "StartProcess newT p arg s =
     (if p = null_ptr \<or> mainEntry (proc s p) = null_ptr then (False, s)
      else case CreateThread newT p (mainEntry (proc s p)) arg s of
        (t, s) \<Rightarrow> if t \<noteq> null_ptr then (True, s) else (False, snd (KillProcess (p_pid (proc s p)) s)))"

subsection \<open>Cloning\<close>

abbreviation CLONE_PARENT_SETTID :: u32 where "CLONE_PARENT_SETTID \<equiv> 0x00100000"
abbreviation CLONE_CHILD_SETTID :: u32 where "CLONE_CHILD_SETTID \<equiv> 0x01000000"

definition report_tid :: "u32 \<Rightarrow> u32 \<Rightarrow> u32 \<Rightarrow> u32 \<Rightarrow> u32 \<Rightarrow> sched \<Rightarrow> sched" where
  "report_tid clone_flags flag addr pd t s =
     (if clone_flags AND flag \<noteq> 0 \<and> addr \<noteq> null_ptr
      then s\<lparr>vm := snd (safeWriteTid addr (tid (thread s t)) pd (vm s))\<rparr> else s)"

text \<open>The child's stack pointer: the given stack, or a slot of the pool; \<open>False\<close> on failure.\<close>

definition clone_stack :: "u32 \<Rightarrow> u32 \<Rightarrow> u32 \<Rightarrow> CPUState \<Rightarrow> sched \<Rightarrow> bool \<times> sched" where
  "clone_stack t pd child_stack c s =
     (if child_stack \<noteq> null_ptr then (True, set_context t (c\<lparr>esp := child_stack\<rparr>) s)
      else case AllocUserStack t pd s of
        (None, s) \<Rightarrow> (False, s)
      | (Some (base, top_page_phys), s) \<Rightarrow>
          (True, (set_context t (c\<lparr>esp := base + user_stack_size - 8\<rparr>) s)
             \<lparr>vm := (vm s)\<lparr>vm_mem := push_entry_frame top_page_phys 0 (vm_mem (vm s))\<rparr>\<rparr>))"

definition CloneCurrentThread ::
  "(sched \<Rightarrow> u32) \<Rightarrow> u32 \<Rightarrow> u32 \<Rightarrow> u32 \<Rightarrow> u32 \<Rightarrow> u32 \<Rightarrow> sched \<Rightarrow> u32 \<times> sched" where
  "CloneCurrentThread newT parentContext clone_flags child_stack parent_tid child_tid s =
     (if currentThread s = null_ptr \<or> t_parent (thread s (currentThread s)) = null_ptr \<or> parentContext = null_ptr
      then (0, s)
      else
        let parent = t_parent (thread s (currentThread s)); t = newT s; c = (contexts s parentContext)\<lparr>eax := 0\<rparr> in
        if t = null_ptr then (0, s)
        else case start_tcb t parent s of
          (False, s) \<Rightarrow> (0, s)
        | (True, s) \<Rightarrow>
            (case clone_stack t (page_directory (proc s parent)) child_stack c s of
               (False, s) \<Rightarrow> (0, s)
             | (True, s) \<Rightarrow>
                 let pd = page_directory (proc s parent);
                     s = report_tid clone_flags CLONE_PARENT_SETTID parent_tid pd t s;
                     s = report_tid clone_flags CLONE_CHILD_SETTID child_tid pd t s in
                 (t, make_ready parent t s)))"

definition clone_pcb :: "u32 \<Rightarrow> u32 \<Rightarrow> pcb \<Rightarrow> u32 \<Rightarrow> pcb" where
  "clone_pcb pid parent pp pd = new_pcb\<lparr>p_pid := pid, appType := appType pp, p_parent := parent,
     cwd := (cwd pp)[255 := 0], page_directory := pd, heap := heap pp\<rparr>"

definition CloneCurrentProcess ::
  "(sched \<Rightarrow> u32) \<Rightarrow> (sched \<Rightarrow> u32) \<Rightarrow> u32 \<Rightarrow> u32 \<Rightarrow> u32 \<Rightarrow> u32 \<Rightarrow> u32 \<Rightarrow> sched \<Rightarrow> u32 \<times> sched" where
  "CloneCurrentProcess newP newT parentContext clone_flags child_stack parent_tid child_tid s =
     (if currentThread s = null_ptr \<or> t_parent (thread s (currentThread s)) = null_ptr \<or> parentContext = null_ptr
      then (0, s)
      else let parent = t_parent (thread s (currentThread s)) in
        if isKernelProcess (proc s parent) then (0, s)
        else let p = newP s; c = (contexts s parentContext)\<lparr>eax := 0\<rparr> in
          if p = null_ptr then (0, s)
          else case CreateProcessDirectory (vm s) of (pd, v) \<Rightarrow>
            let child = clone_pcb (pidCounter s) parent (proc s parent) pd;
                s = s\<lparr>pidCounter := pidCounter s + 1, vm := v\<rparr>;
                discard = (\<lambda>s. s\<lparr>vm := freeChildAddressSpace (trampolinePhys s) pd (vm s), procs := (procs s)(p := None)\<rparr>) in
            if pd = null_ptr then (0, s)
            else
              case clone_user_space pd (page_directory (proc s parent)) [64..<768] (vm s) of (ok, v) \<Rightarrow>
              let s = s\<lparr>vm := v, procs := (procs s)(p \<mapsto> child)\<rparr> in
              if \<not> ok then (0, discard s)
              else let t = newT s in
                if t = null_ptr then (0, discard s)
                else case start_tcb t p s of
                  (False, s) \<Rightarrow> (0, discard s)
                | (True, s) \<Rightarrow>
                    (case clone_stack t pd child_stack c s of
                       (False, s) \<Rightarrow> (0, discard s)
                     | (True, s) \<Rightarrow>
                         let s = report_tid clone_flags CLONE_PARENT_SETTID parent_tid (page_directory (proc s parent)) t s;
                             s = report_tid clone_flags CLONE_CHILD_SETTID child_tid pd t s;
                             s = make_ready p t s in
                         (t, s\<lparr>globalProcessList := globalProcessList s @ [p]\<rparr>)))"

subsection \<open>Scheduling\<close>

definition Sleep :: "u32 \<Rightarrow> sched \<Rightarrow> sched" where
  "Sleep milliseconds s =
     (if currentThread s = null_ptr then s
      else upd_thread (currentThread s)
        (\<lambda>tc. tc\<lparr>wakeTime := ucast (timerTicks s + ucast milliseconds), t_state := THREAD_STATE_BLOCKED\<rparr>) s)"

definition WakeThread :: "u32 \<Rightarrow> sched \<Rightarrow> sched" where
  "WakeThread t s =
     (if t = null_ptr \<or> t_state (thread s t) \<noteq> THREAD_STATE_BLOCKED then s
      else let s = upd_thread t (\<lambda>tc. tc\<lparr>t_state := THREAD_STATE_READY, wakeTime := 0\<rparr>) s in
        s\<lparr>blockedQueue := remove1 t (blockedQueue s), readyQueue := readyQueue s @ [t]\<rparr>)"

text \<open>Putting the outgoing thread on the queue of its state.\<close>

definition park_current :: "u32 \<Rightarrow> sched \<Rightarrow> sched" where
  "park_current ctx s =
     (let t = currentThread s in
      if t = null_ptr then s
      else let s = upd_thread t (\<lambda>tc. tc\<lparr>cpu_context := ctx\<rparr>) s in
        if t_state (thread s t) = THREAD_STATE_RUNNING \<and> t \<noteq> idleThread s then
          let s = upd_thread t (\<lambda>tc. tc\<lparr>t_state := THREAD_STATE_READY\<rparr>) s in s\<lparr>readyQueue := readyQueue s @ [t]\<rparr>
        else if t_state (thread s t) = THREAD_STATE_BLOCKED then s\<lparr>blockedQueue := blockedQueue s @ [t]\<rparr>
        else if t_state (thread s t) = THREAD_STATE_TERMINATED then s\<lparr>terminatedQueue := terminatedQueue s @ [t]\<rparr>
        else s)"

text \<open>The scan of the blocked queue, for its first \<open>count\<close> elements.\<close>

fun wake_expired :: "nat \<Rightarrow> sched \<Rightarrow> sched" where
  "wake_expired 0 s = s"
| "wake_expired (Suc i) s =
     (case blockedQueue s of
        [] \<Rightarrow> wake_expired i s
      | t # ts \<Rightarrow>
          let s = s\<lparr>blockedQueue := ts\<rparr> in
          if t_state (thread s t) = THREAD_STATE_BLOCKED \<and> ucast (wakeTime (thread s t)) \<le> timerTicks s then
            let s = upd_thread t (\<lambda>tc. tc\<lparr>t_state := THREAD_STATE_READY, wakeTime := 0\<rparr>) s in
            wake_expired i (s\<lparr>readyQueue := readyQueue s @ [t]\<rparr>)
          else wake_expired i (s\<lparr>blockedQueue := ts @ [t]\<rparr>))"

fun drain :: "u32 list \<Rightarrow> sched \<Rightarrow> sched" where
  "drain [] s = s"
| "drain (t # ts) s =
     drain ts (if stack (thread s t) \<noteq> null_ptr then delete_thread t s else s\<lparr>threads := (threads s)(t := None)\<rparr>)"

definition DrainPendingReclaims :: "sched \<Rightarrow> sched" where
  "DrainPendingReclaims s = (drain (pendingReclaims s) s)\<lparr>pendingReclaims := []\<rparr>"

definition dispatch :: "sched \<Rightarrow> sched" where
  "dispatch s =
     (case readyQueue s of
        [] \<Rightarrow>
          let s = upd_thread (idleThread s) (\<lambda>tc. tc\<lparr>t_state := THREAD_STATE_RUNNING\<rparr>) (s\<lparr>currentThread := idleThread s\<rparr>) in
          s\<lparr>tss_esp0 := stack (thread s (idleThread s)) + KERNEL_STACK_SIZE, vm := SwitchDirectory (vm s) (vm_kernel_dir (vm s))\<rparr>
      | t # ts \<Rightarrow>
          let s = upd_thread t (\<lambda>tc. tc\<lparr>t_state := THREAD_STATE_RUNNING\<rparr>) (s\<lparr>readyQueue := ts, currentThread := t\<rparr>);
              p = t_parent (thread s t) in
          s\<lparr>tss_esp0 := stack (thread s t) + KERNEL_STACK_SIZE,
            vm := SwitchDirectory (vm s) (if p \<noteq> null_ptr then page_directory (proc s p) else vm_kernel_dir (vm s))\<rparr>)"

definition Schedule :: "u32 \<Rightarrow> sched \<Rightarrow> u32 \<times> sched" where
  "Schedule ctx s =
     (let s = park_current ctx s;
          s = wake_expired (length (blockedQueue s)) s;
          s = DrainPendingReclaims (dispatch s) in
      (cpu_context (thread s (currentThread s)), s))"

subsection \<open>Start-up\<close>

text \<open>The machine code of the exit trampoline: \<^verbatim>\<open>mov eax, 1; int 0x80; jmp $\<close>.\<close>

definition trampoline_code :: "u32 \<Rightarrow> memory \<Rightarrow> memory" where
  "trampoline_code p m = (clear_page m p)(p := 0x000001B8, p + 4 := 0xEB80CD00, p + 8 := 0x000000FE)"

text \<open>The constructor, over a state whose members are not yet set; \<open>None\<close> when it halts.\<close>

definition Scheduler :: "(sched \<Rightarrow> u32) \<Rightarrow> sched \<Rightarrow> sched option" where
  "Scheduler newT s =
     (let s = s\<lparr>globalProcessList := [], readyQueue := [], blockedQueue := [], terminatedQueue := [],
                pendingReclaims := [], pidCounter := 0, tidCounter := 0, currentThread := null_ptr\<rparr> in
      case pmm_alloc_block_low (vm_frames (vm s)) LOW_LIMIT of
        (tp, f) \<Rightarrow>
          if tp = null_ptr then None
          else
            let s = s\<lparr>trampolinePhys := tp,
                      vm := (vm s)\<lparr>vm_frames := f, vm_mem := trampoline_code tp (vm_mem (vm s))\<rparr>\<rparr> in
            case CreateThread newT null_ptr (idleTask s) null_ptr s of
              (t, s) \<Rightarrow> if t = null_ptr then None else Some (s\<lparr>idleThread := t\<rparr>))"

end
