(* ===== verification/Sched_Inv.thy ===== *)
theory Sched_Inv
  imports Scheduler
begin

text \<open>
  The scheduler's invariants. Every thread is in exactly one place, given by its state; every step of
  the scheduler keeps this, so no thread is lost, queued twice, or queued while it runs.
\<close>

subsection \<open>The queue invariant\<close>

text \<open>
  Where a thread is, by its state: a ready thread is on the ready queue, a blocked one on the blocked
  queue unless it is still the current thread, a terminated one waits for reclamation, and only the
  current thread and the idle thread are running.
\<close>

definition placed :: "sched \<Rightarrow> u32 \<Rightarrow> thread_state \<Rightarrow> bool" where
  "placed s t st = (case st of
     THREAD_STATE_NEW \<Rightarrow> t = idleThread s
   | THREAD_STATE_READY \<Rightarrow> t \<in> set (readyQueue s) \<and> t \<noteq> idleThread s
   | THREAD_STATE_RUNNING \<Rightarrow> t = currentThread s \<or> t = idleThread s
   | THREAD_STATE_BLOCKED \<Rightarrow> (t \<in> set (blockedQueue s)) \<noteq> (t = currentThread s) \<and> t \<noteq> idleThread s
   | THREAD_STATE_TERMINATED \<Rightarrow> t \<in> set (pendingReclaims s) \<and> t \<noteq> idleThread s \<and> t \<noteq> currentThread s)"

definition in_state :: "sched \<Rightarrow> thread_state \<Rightarrow> u32 \<Rightarrow> bool" where
  "in_state s st t \<longleftrightarrow> (\<exists>tc. threads s t = Some tc \<and> t_state tc = st)"

definition queue_inv :: "sched \<Rightarrow> bool" where
  "queue_inv s \<longleftrightarrow> distinct (readyQueue s) \<and> distinct (blockedQueue s) \<and> distinct (pendingReclaims s)
     \<and> (\<forall>t st. in_state s st t \<longrightarrow> placed s t st)
     \<and> (\<forall>t \<in> set (readyQueue s). in_state s THREAD_STATE_READY t)
     \<and> (\<forall>t \<in> set (blockedQueue s). in_state s THREAD_STATE_BLOCKED t)
     \<and> (\<forall>t \<in> set (pendingReclaims s). in_state s THREAD_STATE_TERMINATED t)
     \<and> (currentThread s \<noteq> null_ptr \<longrightarrow> currentThread s \<in> dom (threads s))
     \<and> idleThread s \<in> dom (threads s) \<and> null_ptr \<notin> dom (threads s)"

lemma in_state_upd:
  "in_state (upd_thread t f s) st t' \<longleftrightarrow> (if t' = t then t_state (f (thread s t)) = st else in_state s st t')"
  by (auto simp: in_state_def upd_thread_def)

lemma upd_thread_fields [simp]:
  "procs (upd_thread t f s) = procs s" "globalProcessList (upd_thread t f s) = globalProcessList s"
  "readyQueue (upd_thread t f s) = readyQueue s" "blockedQueue (upd_thread t f s) = blockedQueue s"
  "terminatedQueue (upd_thread t f s) = terminatedQueue s" "pendingReclaims (upd_thread t f s) = pendingReclaims s"
  "currentThread (upd_thread t f s) = currentThread s" "idleThread (upd_thread t f s) = idleThread s"
  "timerTicks (upd_thread t f s) = timerTicks s" "pool (upd_thread t f s) = pool s" "vm (upd_thread t f s) = vm s"
  "zone (upd_thread t f s) = zone s" "dom (threads (upd_thread t f s)) = insert t (dom (threads s))"
  by (auto simp: upd_thread_def)

lemma upd_thread_thread [simp]: "thread (upd_thread t f s) t' = (if t' = t then f (thread s t) else thread s t')"
  by (simp add: upd_thread_def)

lemma placed_upd [simp]: "placed (upd_thread t f s) = placed s"
  by (simp add: placed_def fun_eq_iff split: thread_state.splits)

lemma in_state_unique: "in_state s st t \<Longrightarrow> in_state s st' t \<Longrightarrow> st = st'"
  by (auto simp: in_state_def)

lemma queue_invD:
  assumes "queue_inv s"
  shows "in_state s st t \<Longrightarrow> placed s t st" and "t \<in> set (readyQueue s) \<Longrightarrow> in_state s THREAD_STATE_READY t"
    and "t \<in> set (blockedQueue s) \<Longrightarrow> in_state s THREAD_STATE_BLOCKED t"
    and "t \<in> set (pendingReclaims s) \<Longrightarrow> in_state s THREAD_STATE_TERMINATED t"
    and "distinct (readyQueue s)" "distinct (blockedQueue s)" "distinct (pendingReclaims s)"
    and "currentThread s \<noteq> null_ptr \<Longrightarrow> currentThread s \<in> dom (threads s)" "idleThread s \<in> dom (threads s)"
    and "null_ptr \<notin> dom (threads s)"
  using assms by (auto simp: queue_inv_def)

lemma in_state_thread: "t \<in> dom (threads s) \<Longrightarrow> in_state s (t_state (thread s t)) t"
  by (auto simp: in_state_def)

lemma in_state_eq: "in_state s st t \<Longrightarrow> t_state (thread s t) = st \<and> t \<in> dom (threads s)"
  by (auto simp: in_state_def)

text \<open>Updates that leave the thread states and queues alone.\<close>

lemma queue_inv_cong:
  assumes "queue_inv s" and "\<And>t. map_option t_state (threads s' t) = map_option t_state (threads s t)"
    and "readyQueue s' = readyQueue s" "blockedQueue s' = blockedQueue s" "pendingReclaims s' = pendingReclaims s"
    "currentThread s' = currentThread s" "idleThread s' = idleThread s"
  shows "queue_inv s'"
proof -
  have st: "in_state s' st t = in_state s st t" for st t using assms(2) [of t] by (auto simp: in_state_def map_option_case split: option.splits)
  have "threads s' t = None \<longleftrightarrow> threads s t = None" for t using assms(2) [of t] by (metis option.map_disc_iff)
  then have dom: "dom (threads s') = dom (threads s)" by (simp add: dom_def)
  have pl: "placed s' t st = placed s t st" for t st using assms by (auto simp: placed_def split: thread_state.splits)
  show ?thesis using assms(1) unfolding queue_inv_def st pl dom assms(3-7) .
qed

subsection \<open>Sleeping, waking and switching\<close>

lemma Sleep_queue_inv:
  assumes "queue_inv s" "in_state s THREAD_STATE_RUNNING (currentThread s)" "currentThread s \<noteq> idleThread s"
  shows "queue_inv (Sleep ms s)"
proof -
  have nq: "currentThread s \<notin> set (readyQueue s)" "currentThread s \<notin> set (blockedQueue s)" "currentThread s \<notin> set (pendingReclaims s)"
    using queue_invD(2,3,4) [OF assms(1)] in_state_unique [OF assms(2)] by blast+
  show ?thesis
    using assms nq unfolding Sleep_def queue_inv_def
    by (auto simp: in_state_upd placed_def split: thread_state.splits)
qed

text \<open>One thread changes its state and place, or disappears; all others stay where they are.\<close>

definition same_elsewhere :: "u32 \<Rightarrow> sched \<Rightarrow> sched \<Rightarrow> bool" where
  "same_elsewhere t s s' \<longleftrightarrow> idleThread s' = idleThread s
     \<and> distinct (readyQueue s') \<and> distinct (blockedQueue s') \<and> distinct (pendingReclaims s')
     \<and> (\<forall>x. x \<noteq> t \<longrightarrow> (x \<in> set (readyQueue s') \<longleftrightarrow> x \<in> set (readyQueue s))
          \<and> (x \<in> set (blockedQueue s') \<longleftrightarrow> x \<in> set (blockedQueue s))
          \<and> (x \<in> set (pendingReclaims s') \<longleftrightarrow> x \<in> set (pendingReclaims s))
          \<and> (x \<noteq> null_ptr \<longrightarrow> (x = currentThread s' \<longleftrightarrow> x = currentThread s)) \<and> threads s' x = threads s x)"

lemma same_elsewhereD:
  assumes "same_elsewhere t s s'" "x \<noteq> t"
  shows "x \<in> set (readyQueue s') \<longleftrightarrow> x \<in> set (readyQueue s)" "x \<in> set (blockedQueue s') \<longleftrightarrow> x \<in> set (blockedQueue s)"
    "x \<in> set (pendingReclaims s') \<longleftrightarrow> x \<in> set (pendingReclaims s)" "x \<noteq> null_ptr \<Longrightarrow> x = currentThread s' \<longleftrightarrow> x = currentThread s"
    "threads s' x = threads s x"
  using assms unfolding same_elsewhere_def by blast+

lemma queue_inv_move:
  assumes inv: "queue_inv s" and same: "same_elsewhere t s s'" and t: "threads s' t = Some tc" "t \<noteq> null_ptr"
    and place: "placed s' t (t_state tc)" "t \<in> set (readyQueue s') \<Longrightarrow> t_state tc = THREAD_STATE_READY"
      "t \<in> set (blockedQueue s') \<Longrightarrow> t_state tc = THREAD_STATE_BLOCKED"
      "t \<in> set (pendingReclaims s') \<Longrightarrow> t_state tc = THREAD_STATE_TERMINATED"
  shows "queue_inv s'"
proof -
  have st: "in_state s' st x \<longleftrightarrow> (if x = t then st = t_state tc else in_state s st x)" for st x
    using same t by (cases "x = t") (auto simp: in_state_def same_elsewhere_def)
  have pl: "placed s' x st = placed s x st" if "x \<noteq> t" "x \<noteq> null_ptr" for x st
    using same that by (auto simp: placed_def same_elsewhere_def split: thread_state.splits)
  have dom: "x \<in> dom (threads s') \<longleftrightarrow> x = t \<or> x \<in> dom (threads s)" for x
    using same t by (cases "x = t") (auto simp: same_elsewhere_def dom_def)
  show ?thesis unfolding queue_inv_def
  proof (intro conjI allI ballI impI)
    show "placed s' x st" if "in_state s' st x" for x st
      using that place(1) queue_invD(1) [OF inv, of st x] queue_invD(10) [OF inv] in_state_eq [of s st x]
      by (cases "x = t"; cases "x = null_ptr") (auto simp: st pl)
    show "in_state s' THREAD_STATE_READY x" if "x \<in> set (readyQueue s')" for x
      using that place(2) same_elsewhereD [OF same, of x] queue_invD(2) [OF inv, of x] by (cases "x = t") (auto simp: st)
    show "in_state s' THREAD_STATE_BLOCKED x" if "x \<in> set (blockedQueue s')" for x
      using that place(3) same_elsewhereD [OF same, of x] queue_invD(3) [OF inv, of x] by (cases "x = t") (auto simp: st)
    show "in_state s' THREAD_STATE_TERMINATED x" if "x \<in> set (pendingReclaims s')" for x
      using that place(4) same_elsewhereD [OF same, of x] queue_invD(4) [OF inv, of x] by (cases "x = t") (auto simp: st)
    show "currentThread s' \<in> dom (threads s')" if "currentThread s' \<noteq> null_ptr"
      using that same queue_invD(8) [OF inv] unfolding dom same_elsewhere_def by metis
    show "idleThread s' \<in> dom (threads s')" "null_ptr \<notin> dom (threads s')"
      using queue_invD(9,10) [OF inv] t(2) same unfolding dom by (auto simp: same_elsewhere_def)
  qed (use same in \<open>simp_all add: same_elsewhere_def\<close>)
qed

lemma queue_inv_delete:
  assumes inv: "queue_inv s" and same: "same_elsewhere t s s'" and t: "threads s' t = None" "t \<noteq> idleThread s" "t \<noteq> currentThread s'"
    and place: "t \<notin> set (readyQueue s')" "t \<notin> set (blockedQueue s')" "t \<notin> set (pendingReclaims s')"
  shows "queue_inv s'"
proof -
  have st: "in_state s' st x \<longleftrightarrow> x \<noteq> t \<and> in_state s st x" for st x
    using same t by (cases "x = t") (auto simp: in_state_def same_elsewhere_def)
  have pl: "placed s' x st = placed s x st" if "x \<noteq> t" "x \<noteq> null_ptr" for x st
    using same that by (auto simp: placed_def same_elsewhere_def split: thread_state.splits)
  have dom: "x \<in> dom (threads s') \<longleftrightarrow> x \<noteq> t \<and> x \<in> dom (threads s)" for x
    using same t by (cases "x = t") (auto simp: same_elsewhere_def dom_def)
  show ?thesis unfolding queue_inv_def
  proof (intro conjI allI ballI impI)
    show "placed s' x st" if "in_state s' st x" for x st
      using that queue_invD(1) [OF inv, of st x] queue_invD(10) [OF inv] in_state_eq [of s st x]
      by (cases "x = null_ptr") (auto simp: st pl)
    show "in_state s' THREAD_STATE_READY x" if "x \<in> set (readyQueue s')" for x
      using that place(1) same_elsewhereD [OF same, of x] queue_invD(2) [OF inv, of x] by (cases "x = t") (auto simp: st)
    show "in_state s' THREAD_STATE_BLOCKED x" if "x \<in> set (blockedQueue s')" for x
      using that place(2) same_elsewhereD [OF same, of x] queue_invD(3) [OF inv, of x] by (cases "x = t") (auto simp: st)
    show "in_state s' THREAD_STATE_TERMINATED x" if "x \<in> set (pendingReclaims s')" for x
      using that place(3) same_elsewhereD [OF same, of x] queue_invD(4) [OF inv, of x] by (cases "x = t") (auto simp: st)
    show "currentThread s' \<in> dom (threads s')" if "currentThread s' \<noteq> null_ptr"
      using that same t(3) queue_invD(8) [OF inv] unfolding dom same_elsewhere_def by metis
    show "idleThread s' \<in> dom (threads s')" "null_ptr \<notin> dom (threads s')"
      using queue_invD(9,10) [OF inv] t(2) same unfolding dom by (auto simp: same_elsewhere_def)
  qed (use same in \<open>simp_all add: same_elsewhere_def\<close>)
qed

lemma WakeThread_queue_inv:
  assumes inv: "queue_inv s" and t: "t \<in> dom (threads s)"
  shows "queue_inv (WakeThread t s)"
proof (cases "in_state s THREAD_STATE_BLOCKED t")
  case False
  then show ?thesis using assms in_state_thread [OF t] by (auto simp: WakeThread_def)
next
  case True
  have nq: "t \<notin> set (readyQueue s)" "t \<notin> set (pendingReclaims s)" "t \<noteq> null_ptr"
    using queue_invD(2,4,10) [OF inv] in_state_unique [OF True] t by (blast | auto)+
  have pl: "placed s t THREAD_STATE_BLOCKED" by (rule queue_invD(1) [OF inv True])
  define tc where "tc = (thread s t)\<lparr>t_state := THREAD_STATE_READY, wakeTime := 0\<rparr>"
  have w: "WakeThread t s = s\<lparr>threads := (threads s)(t \<mapsto> tc), blockedQueue := remove1 t (blockedQueue s), readyQueue := readyQueue s @ [t]\<rparr>"
    using nq(3) in_state_eq [OF True] by (simp add: WakeThread_def Let_def upd_thread_def tc_def)
  show ?thesis unfolding w
    by (rule queue_inv_move [OF inv, where t = t and tc = tc])
      (use nq pl queue_invD(5,6,7) [OF inv] in \<open>auto simp: same_elsewhere_def placed_def tc_def\<close>)
qed

lemma park_current_inv:
  assumes inv: "queue_inv s"
  shows "queue_inv ((park_current ctx s)\<lparr>currentThread := null_ptr\<rparr>)"
proof (cases "currentThread s = null_ptr")
  case True
  then have "(park_current ctx s)\<lparr>currentThread := null_ptr\<rparr> = s" by (simp add: park_current_def)
  then show ?thesis using inv by simp
next
  case False
  define t where "t = currentThread s"
  define st where "st = t_state (thread s t)"
  have t: "t \<in> dom (threads s)" "in_state s st t" "t \<noteq> null_ptr"
    using queue_invD(8) [OF inv False] in_state_thread [of t s] False by (auto simp: t_def st_def)
  have pl: "placed s t st" by (rule queue_invD(1) [OF inv t(2)])
  have q: "t \<in> set (readyQueue s) \<Longrightarrow> st = THREAD_STATE_READY" "t \<in> set (blockedQueue s) \<Longrightarrow> st = THREAD_STATE_BLOCKED"
    "t \<in> set (pendingReclaims s) \<Longrightarrow> st = THREAD_STATE_TERMINATED"
    using queue_invD(2-4) [OF inv, of t] in_state_unique [OF t(2)] by blast+
  let ?s = "(park_current ctx s)\<lparr>currentThread := null_ptr\<rparr>"
  define tc where "tc = (thread s t)\<lparr>cpu_context := ctx,
    t_state := if st = THREAD_STATE_RUNNING \<and> t \<noteq> idleThread s then THREAD_STATE_READY else st\<rparr>"
  have f: "threads ?s = (threads s)(t \<mapsto> tc)" "readyQueue ?s = readyQueue s @ (if st = THREAD_STATE_RUNNING \<and> t \<noteq> idleThread s then [t] else [])"
    "blockedQueue ?s = blockedQueue s @ (if st = THREAD_STATE_BLOCKED then [t] else [])" "pendingReclaims ?s = pendingReclaims s"
    "idleThread ?s = idleThread s" "currentThread ?s = null_ptr"
    using False by (auto simp: park_current_def Let_def t_def [symmetric] st_def tc_def upd_thread_def)
  have tst: "t_state tc = (if st = THREAD_STATE_RUNNING \<and> t \<noteq> idleThread s then THREAD_STATE_READY else st)" by (simp add: tc_def)
  have nq: "st = THREAD_STATE_RUNNING \<Longrightarrow> t \<notin> set (readyQueue s)" "st = THREAD_STATE_BLOCKED \<Longrightarrow> t \<notin> set (blockedQueue s)"
    using q pl by (auto simp: placed_def t_def)
  have same: "same_elsewhere t s ?s" unfolding same_elsewhere_def f using nq queue_invD(5-7) [OF inv] by (cases st) (simp_all add: t_def)
  have pl': "placed ?s t (t_state tc)" unfolding placed_def f tst using q pl t(3)
    by (cases st) (auto simp: placed_def t_def [symmetric])
  have th: "threads ?s t = Some tc" by (simp only: f fun_upd_same)
  show ?thesis
  proof (rule queue_inv_move [OF inv same th t(3) pl'])
    show "t_state tc = THREAD_STATE_READY" if "t \<in> set (readyQueue ?s)" using that q(1) unfolding f tst by (auto split: if_splits)
    show "t_state tc = THREAD_STATE_BLOCKED" if "t \<in> set (blockedQueue ?s)" using that q(2) unfolding f tst by (auto split: if_splits)
    show "t_state tc = THREAD_STATE_TERMINATED" if "t \<in> set (pendingReclaims ?s)" using that q(3) unfolding f tst by auto
  qed
qed

lemma current_outward:
  "s\<lparr>currentThread := c, blockedQueue := b\<rparr> = s\<lparr>blockedQueue := b, currentThread := c\<rparr>"
  "s\<lparr>currentThread := c, readyQueue := b\<rparr> = s\<lparr>readyQueue := b, currentThread := c\<rparr>"
  "s\<lparr>currentThread := c, threads := th\<rparr> = s\<lparr>threads := th, currentThread := c\<rparr>"
  for s :: sched
  by simp_all

lemma wake_expired_current: "wake_expired n (s\<lparr>currentThread := c\<rparr>) = (wake_expired n s)\<lparr>currentThread := c\<rparr>"
proof (induction n arbitrary: s)
  case (Suc n)
  show ?case by (cases "blockedQueue s") (simp_all add: Let_def upd_thread_def Suc.IH current_outward)
qed simp

lemma idle_not_queued:
  assumes "queue_inv s"
  shows "idleThread s \<notin> set (readyQueue s)" "idleThread s \<notin> set (blockedQueue s)" "idleThread s \<notin> set (pendingReclaims s)"
  using queue_invD(1) [OF assms queue_invD(2) [OF assms]] queue_invD(1) [OF assms queue_invD(3) [OF assms]]
    queue_invD(1) [OF assms queue_invD(4) [OF assms]] by (auto simp: placed_def)

lemma wake_expired_fields:
  "idleThread (wake_expired n s) = idleThread s" "pendingReclaims (wake_expired n s) = pendingReclaims s"
  "timerTicks (wake_expired n s) = timerTicks s"
proof (induction n arbitrary: s)
  case (Suc n)
  { case 1 show ?case by (cases "blockedQueue s") (simp_all add: Let_def Suc) }
  { case 2 show ?case by (cases "blockedQueue s") (simp_all add: Let_def Suc) }
  { case 3 show ?case by (cases "blockedQueue s") (simp_all add: Let_def Suc) }
qed simp_all

lemma wake_expired_inv: "queue_inv s \<Longrightarrow> queue_inv (wake_expired n s)"
proof (induction n arbitrary: s)
  case (Suc n)
  show ?case
  proof (cases "blockedQueue s")
    case Nil
    then show ?thesis using Suc by simp
  next
    case (Cons t ts)
    note inv = Suc.prems
    have b: "in_state s THREAD_STATE_BLOCKED t" using queue_invD(3) [OF inv] Cons by simp
    have nq: "t \<notin> set (readyQueue s)" "t \<notin> set (pendingReclaims s)" "t \<noteq> null_ptr" "t \<notin> set ts" "t \<noteq> currentThread s" "t \<noteq> idleThread s"
      using queue_invD(2,4,6,10) [OF inv] in_state_unique [OF b] in_state_eq [OF b] queue_invD(1) [OF inv b] Cons
      by (auto simp: placed_def)
    define tc where "tc = (thread s t)\<lparr>t_state := THREAD_STATE_READY, wakeTime := 0\<rparr>"
    let ?r = "s\<lparr>blockedQueue := ts, threads := (threads s)(t \<mapsto> tc), readyQueue := readyQueue s @ [t]\<rparr>"
    let ?b = "s\<lparr>blockedQueue := ts @ [t]\<rparr>"
    have "wake_expired (Suc n) s = (if ucast (wakeTime (thread s t)) \<le> timerTicks s then wake_expired n ?r else wake_expired n ?b)"
      using Cons in_state_eq [OF b] by (simp add: Let_def upd_thread_def tc_def)
    moreover have "queue_inv ?r"
      by (rule queue_inv_move [OF inv, where t = t and tc = tc])
        (use nq Cons queue_invD(5,6,7) [OF inv] in \<open>simp_all add: same_elsewhere_def placed_def tc_def\<close>)
    moreover have "queue_inv ?b"
      by (rule queue_inv_move [OF inv, where t = t and tc = "thread s t"])
        (use nq Cons queue_invD(5,6,7) [OF inv] in_state_eq [OF b] in \<open>auto simp: same_elsewhere_def placed_def\<close>)
    ultimately show ?thesis using Suc.IH by simp
  qed
qed simp

lemma dispatch_inv:
  assumes inv: "queue_inv (s\<lparr>currentThread := null_ptr\<rparr>)"
  shows "queue_inv (dispatch s)"
proof (cases "readyQueue s")
  case Nil
  define t where "t = idleThread s"
  define tc where "tc = (thread s t)\<lparr>t_state := THREAD_STATE_RUNNING\<rparr>"
  have f: "threads (dispatch s) = (threads s)(t \<mapsto> tc)" "readyQueue (dispatch s) = []" "blockedQueue (dispatch s) = blockedQueue s"
    "pendingReclaims (dispatch s) = pendingReclaims s" "currentThread (dispatch s) = t" "idleThread (dispatch s) = idleThread s"
    using Nil by (simp_all add: dispatch_def Let_def upd_thread_def tc_def t_def)
  have nq: "t \<notin> set (blockedQueue s)" "t \<notin> set (pendingReclaims s)" "t \<noteq> null_ptr"
    using idle_not_queued [OF inv] queue_invD(9,10) [OF inv] by (auto simp: t_def)
  show ?thesis
    by (rule queue_inv_move [OF inv, where t = t and tc = tc])
      (use nq Nil queue_invD(5,6,7) [OF inv] in \<open>simp_all add: f same_elsewhere_def placed_def tc_def\<close>)
next
  case (Cons t ts)
  define tc where "tc = (thread s t)\<lparr>t_state := THREAD_STATE_RUNNING\<rparr>"
  have f: "threads (dispatch s) = (threads s)(t \<mapsto> tc)" "readyQueue (dispatch s) = ts" "blockedQueue (dispatch s) = blockedQueue s"
    "pendingReclaims (dispatch s) = pendingReclaims s" "currentThread (dispatch s) = t" "idleThread (dispatch s) = idleThread s"
    using Cons by (simp_all add: dispatch_def Let_def upd_thread_def tc_def)
  have r: "in_state (s\<lparr>currentThread := null_ptr\<rparr>) THREAD_STATE_READY t" using queue_invD(2) [OF inv] Cons by simp
  have nq: "t \<notin> set (blockedQueue s)" "t \<notin> set (pendingReclaims s)" "t \<noteq> null_ptr" "t \<notin> set ts"
    using queue_invD(3,4,5,10) [OF inv] in_state_unique [OF r] in_state_eq [OF r] Cons by auto
  show ?thesis
    by (rule queue_inv_move [OF inv, where t = t and tc = tc])
      (use nq Cons queue_invD(5,6,7) [OF inv] in \<open>simp_all add: f same_elsewhere_def placed_def tc_def\<close>)
qed

text \<open>Reclaiming the threads that ended while they ran.\<close>

lemma drain_fields:
  "readyQueue (drain ts s) = readyQueue s" "blockedQueue (drain ts s) = blockedQueue s"
  "currentThread (drain ts s) = currentThread s" "idleThread (drain ts s) = idleThread s" "procs (drain ts s) = procs s"
  "threads (drain ts s) x = (if x \<in> set ts then None else threads s x)" "globalProcessList (drain ts s) = globalProcessList s"
  "timerTicks (drain ts s) = timerTicks s"
  by (induction ts arbitrary: s) (simp_all add: delete_thread_def)

lemma DrainPendingReclaims_inv:
  assumes inv: "queue_inv s"
  shows "queue_inv (DrainPendingReclaims s)"
proof -
  let ?s = "DrainPendingReclaims s"
  have f: "readyQueue ?s = readyQueue s" "blockedQueue ?s = blockedQueue s" "currentThread ?s = currentThread s"
    "idleThread ?s = idleThread s" "pendingReclaims ?s = []" by (simp_all add: DrainPendingReclaims_def drain_fields)
  have th: "threads ?s x = (if x \<in> set (pendingReclaims s) then None else threads s x)" for x
    by (simp add: DrainPendingReclaims_def drain_fields)
  have st: "in_state ?s st x \<longleftrightarrow> in_state s st x \<and> st \<noteq> THREAD_STATE_TERMINATED" for st x
    using queue_invD(1) [OF inv, of st x] queue_invD(4) [OF inv, of x] in_state_unique [of s st x]
    by (auto simp: in_state_def th placed_def split: if_splits)
  have pl: "placed ?s x st = placed s x st" if "st \<noteq> THREAD_STATE_TERMINATED" for x st
    using that by (auto simp: placed_def f split: thread_state.splits)
  have cur: "currentThread s \<notin> set (pendingReclaims s)"
    using queue_invD(1) [OF inv queue_invD(4) [OF inv]] by (auto simp: placed_def)
  show ?thesis unfolding queue_inv_def f using inv idle_not_queued(3) [OF inv] cur
    by (auto simp: st pl th queue_inv_def dom_def)
qed

lemma Schedule_queue_inv:
  assumes "queue_inv s"
  shows "queue_inv (snd (Schedule ctx s))"
proof -
  define s1 where "s1 = park_current ctx s"
  have "queue_inv (s1\<lparr>currentThread := null_ptr\<rparr>)" unfolding s1_def by (rule park_current_inv [OF assms])
  then have "queue_inv ((wake_expired (length (blockedQueue s1)) s1)\<lparr>currentThread := null_ptr\<rparr>)"
    by (metis wake_expired_current wake_expired_inv)
  then show ?thesis by (simp add: Schedule_def Let_def s1_def [symmetric] dispatch_inv DrainPendingReclaims_inv)
qed

subsection \<open>Ending and creating threads\<close>

lemma reclaim_fields:
  assumes "t \<in> dom (threads s)"
  shows "readyQueue (reclaim_user_stack t s) = readyQueue s" "blockedQueue (reclaim_user_stack t s) = blockedQueue s"
    "pendingReclaims (reclaim_user_stack t s) = pendingReclaims s" "currentThread (reclaim_user_stack t s) = currentThread s"
    "idleThread (reclaim_user_stack t s) = idleThread s" "procs (reclaim_user_stack t s) = procs s"
    "globalProcessList (reclaim_user_stack t s) = globalProcessList s"
    "x \<noteq> t \<Longrightarrow> threads (reclaim_user_stack t s) x = threads s x"
    "\<exists>k. threads (reclaim_user_stack t s) t = Some ((thread s t)\<lparr>stackSlotIdx := k\<rparr>)"
proof -
  obtain tc where tc: "threads s t = Some tc" using assms by auto
  have "\<exists>k. tc = tc\<lparr>stackSlotIdx := k\<rparr>" by (rule exI [of _ "stackSlotIdx tc"]) simp
  then show "\<exists>k. threads (reclaim_user_stack t s) t = Some ((thread s t)\<lparr>stackSlotIdx := k\<rparr>)"
    using tc by (auto simp: reclaim_user_stack_def Let_def upd_thread_def)
qed (simp_all add: reclaim_user_stack_def Let_def upd_thread_def)

lemma leave_parent_fields:
  "readyQueue (leave_parent t s) = readyQueue s" "blockedQueue (leave_parent t s) = blockedQueue s"
  "pendingReclaims (leave_parent t s) = pendingReclaims s" "currentThread (leave_parent t s) = currentThread s"
  "idleThread (leave_parent t s) = idleThread s" "threads (leave_parent t s) = threads s"
  "globalProcessList (leave_parent t s) = globalProcessList s"
  "procs (leave_parent t s) = (let p = t_parent (thread s t) in
     if p \<noteq> null_ptr then (procs s)(p \<mapsto> (proc s p)\<lparr>p_threads := remove1 t (p_threads (proc s p))\<rparr>) else procs s)"
  by (simp_all add: leave_parent_def Let_def upd_proc_def)

lemma TerminateThread_fields:
  assumes t: "t \<in> dom (threads s)" "t \<noteq> null_ptr" "t_state (thread s t) \<noteq> THREAD_STATE_TERMINATED"
  defines "s' \<equiv> TerminateThread t s"
  shows "readyQueue s' = remove1 t (readyQueue s)" "blockedQueue s' = remove1 t (blockedQueue s)"
    "pendingReclaims s' = pendingReclaims s @ (if t = currentThread s then [t] else [])"
    "currentThread s' = (if t = currentThread s then null_ptr else currentThread s)"
    "idleThread s' = idleThread s" "x \<noteq> t \<Longrightarrow> threads s' x = threads s x"
    "t \<noteq> currentThread s \<Longrightarrow> threads s' t = None"
    "t = currentThread s \<Longrightarrow> \<exists>k. threads s' t = Some ((thread s t)\<lparr>t_state := THREAD_STATE_TERMINATED, stackSlotIdx := k\<rparr>)"
    "globalProcessList s' = globalProcessList s"
    "procs s' = (let p = t_parent (thread s t) in
       if p \<noteq> null_ptr then (procs s)(p \<mapsto> (proc s p)\<lparr>p_threads := remove1 t (p_threads (proc s p))\<rparr>) else procs s)"
proof -
  define s1 where "s1 = (upd_thread t (\<lambda>tc. tc\<lparr>t_state := THREAD_STATE_TERMINATED\<rparr>) s)
    \<lparr>readyQueue := remove1 t (readyQueue s), blockedQueue := remove1 t (blockedQueue s)\<rparr>"
  have t1: "t \<in> dom (threads s1)" "threads s1 = (threads s)(t \<mapsto> (thread s t)\<lparr>t_state := THREAD_STATE_TERMINATED\<rparr>)"
    by (simp_all add: s1_def upd_thread_def)
  note f = reclaim_fields [OF t1(1)]
  obtain k where k: "threads (reclaim_user_stack t s1) t = Some ((thread s t)\<lparr>t_state := THREAD_STATE_TERMINATED, stackSlotIdx := k\<rparr>)"
    using f(9) t1(2) by auto
  have s1: "readyQueue s1 = remove1 t (readyQueue s)" "blockedQueue s1 = remove1 t (blockedQueue s)" "pendingReclaims s1 = pendingReclaims s"
    "currentThread s1 = currentThread s" "idleThread s1 = idleThread s" "globalProcessList s1 = globalProcessList s" "procs s1 = procs s"
    by (simp_all add: s1_def)
  define s2 where "s2 = leave_parent t (reclaim_user_stack t s1)"
  have s2: "readyQueue s2 = remove1 t (readyQueue s)" "blockedQueue s2 = remove1 t (blockedQueue s)" "pendingReclaims s2 = pendingReclaims s"
    "currentThread s2 = currentThread s" "idleThread s2 = idleThread s" "globalProcessList s2 = globalProcessList s"
    "threads s2 t = Some ((thread s t)\<lparr>t_state := THREAD_STATE_TERMINATED, stackSlotIdx := k\<rparr>)"
    "x \<noteq> t \<Longrightarrow> threads s2 x = threads s x" "procs s2 = (let p = t_parent (thread s t) in
       if p \<noteq> null_ptr then (procs s)(p \<mapsto> (proc s p)\<lparr>p_threads := remove1 t (p_threads (proc s p))\<rparr>) else procs s)" for x
    by (simp_all add: s2_def leave_parent_fields f(1-8) s1 k t1 Let_def)
  have eq: "s' = (if t = currentThread s then s2\<lparr>currentThread := null_ptr, pendingReclaims := pendingReclaims s @ [t]\<rparr>
      else if stack (thread s2 t) \<noteq> null_ptr then delete_thread t s2 else s2\<lparr>threads := (threads s2)(t := None)\<rparr>)"
    unfolding s2(3,4) [symmetric] using t(2,3) by (simp add: s'_def TerminateThread_def s1_def s2_def Let_def)
  show "readyQueue s' = remove1 t (readyQueue s)" "blockedQueue s' = remove1 t (blockedQueue s)"
    "pendingReclaims s' = pendingReclaims s @ (if t = currentThread s then [t] else [])"
    "currentThread s' = (if t = currentThread s then null_ptr else currentThread s)"
    "idleThread s' = idleThread s" "globalProcessList s' = globalProcessList s" "x \<noteq> t \<Longrightarrow> threads s' x = threads s x"
    "t \<noteq> currentThread s \<Longrightarrow> threads s' t = None"
    by (simp_all add: eq delete_thread_def s2(1-6,8))
  show "t = currentThread s \<Longrightarrow> \<exists>k. threads s' t = Some ((thread s t)\<lparr>t_state := THREAD_STATE_TERMINATED, stackSlotIdx := k\<rparr>)"
    using s2(7) by (auto simp: eq)
  show "procs s' = (let p = t_parent (thread s t) in
       if p \<noteq> null_ptr then (procs s)(p \<mapsto> (proc s p)\<lparr>p_threads := remove1 t (p_threads (proc s p))\<rparr>) else procs s)"
    unfolding s2(9) [symmetric] by (simp add: eq delete_thread_def)
qed

lemma TerminateThread_queue_inv:
  assumes inv: "queue_inv s" and t: "t \<in> dom (threads s)" "t \<noteq> idleThread s"
  shows "queue_inv (TerminateThread t s)"
proof (cases "t_state (thread s t) = THREAD_STATE_TERMINATED")
  case True
  then show ?thesis using inv by (simp add: TerminateThread_def)
next
  case False
  have n0: "t \<noteq> null_ptr" using t queue_invD(10) [OF inv] by auto
  note f = TerminateThread_fields [OF t(1) n0 False]
  have np: "t \<notin> set (pendingReclaims s)" using queue_invD(4) [OF inv, of t] False by (auto simp: in_state_def)
  have same: "same_elsewhere t s (TerminateThread t s)"
    unfolding same_elsewhere_def using np queue_invD(5-7) [OF inv] f(1-6) by auto
  have q: "t \<notin> set (readyQueue (TerminateThread t s))" "t \<notin> set (blockedQueue (TerminateThread t s))"
    using queue_invD(5,6) [OF inv] by (simp_all add: f)
  show ?thesis
  proof (cases "t = currentThread s")
    case True
    have pl: "placed (TerminateThread t s) t THREAD_STATE_TERMINATED" unfolding placed_def f(3-5) using True t(2) n0 by simp
    obtain k where "threads (TerminateThread t s) t = Some ((thread s t)\<lparr>t_state := THREAD_STATE_TERMINATED, stackSlotIdx := k\<rparr>)"
      using f(8) [OF True] by blast
    then show ?thesis
      by (rule queue_inv_move [OF inv same _ n0]) (use pl q in simp_all)
  next
    case cur: False
    show ?thesis
      by (rule queue_inv_delete [OF inv same]) (use cur t np q in \<open>simp_all add: f(3-5,7)\<close>)
  qed
qed

end
