(* ===== verification/Sched_Proc.thy ===== *)
theory Sched_Proc
  imports Sched_Inv
begin

text \<open>
  Processes: the process list, the thread lists of the processes and the parents of the live threads
  agree, and every operation of the scheduler keeps both invariants. The last section is the step
  relation of the whole scheduler, with its reachable states.
\<close>

subsection \<open>Processes and their threads\<close>

text \<open>The thread lists of the processes and the parents of the live threads agree.\<close>

definition live :: "sched \<Rightarrow> u32 \<Rightarrow> u32 \<Rightarrow> bool" where
  "live s t p \<longleftrightarrow> (\<exists>tc. threads s t = Some tc \<and> t_parent tc = p \<and> t_state tc \<noteq> THREAD_STATE_TERMINATED)"

definition proc_inv :: "sched \<Rightarrow> bool" where
  "proc_inv s \<longleftrightarrow> distinct (globalProcessList s) \<and> set (globalProcessList s) = dom (procs s) \<and> null_ptr \<notin> dom (procs s)
     \<and> (\<forall>p pc. procs s p = Some pc \<longrightarrow> distinct (p_threads pc) \<and> (\<forall>t. t \<in> set (p_threads pc) \<longleftrightarrow> live s t p))
     \<and> (\<forall>t p. live s t p \<and> p \<noteq> null_ptr \<longrightarrow> p \<in> dom (procs s))
     \<and> live s (idleThread s) null_ptr"

lemma proc_invD:
  assumes "proc_inv s"
  shows "distinct (globalProcessList s)" "set (globalProcessList s) = dom (procs s)" "null_ptr \<notin> dom (procs s)"
    "procs s p = Some pc \<Longrightarrow> distinct (p_threads pc)" "procs s p = Some pc \<Longrightarrow> t \<in> set (p_threads pc) \<longleftrightarrow> live s t p"
    "live s t p \<Longrightarrow> p \<noteq> null_ptr \<Longrightarrow> p \<in> dom (procs s)" "live s (idleThread s) null_ptr"
  using assms unfolding proc_inv_def by blast+

lemma proc_inv_cong:
  assumes "proc_inv s" "\<And>t p. live s' t p = live s t p" "idleThread s' = idleThread s"
    "globalProcessList s' = globalProcessList s" "\<And>p. map_option p_threads (procs s' p) = map_option p_threads (procs s p)"
  shows "proc_inv s'"
proof -
  have d: "p \<in> dom (procs s') \<longleftrightarrow> p \<in> dom (procs s)" for p using assms(5) [of p] by (metis domIff option.map_disc_iff)
  then have dom: "dom (procs s') = dom (procs s)" by blast
  have "\<exists>pc'. procs s p = Some pc' \<and> p_threads pc' = p_threads pc" if "procs s' p = Some pc" for p pc
    using assms(5) [of p] that by (cases "procs s p") auto
  then have "distinct (p_threads pc) \<and> (\<forall>t. t \<in> set (p_threads pc) \<longleftrightarrow> live s t p)" if "procs s' p = Some pc" for p pc
    using that proc_invD(4,5) [OF assms(1)] by metis
  with assms(1) show ?thesis unfolding proc_inv_def dom assms(2,3,4) by blast
qed

lemma live_parent_unique: "live s t p \<Longrightarrow> live s t q \<Longrightarrow> p = q"
  by (auto simp: live_def)

lemma live_dom: "live s t p \<Longrightarrow> t \<in> dom (threads s) \<and> t_parent (thread s t) = p \<and> t_state (thread s t) \<noteq> THREAD_STATE_TERMINATED"
  by (auto simp: live_def)

text \<open>Steps that change no process.\<close>

lemma live_upd:
  assumes "t \<in> dom (threads s)" "t_state (thread s t) \<noteq> THREAD_STATE_TERMINATED"
    "t_state (f (thread s t)) \<noteq> THREAD_STATE_TERMINATED" "t_parent (f (thread s t)) = t_parent (thread s t)"
  shows "live (upd_thread t f s) x p = live s x p"
  using assms by (auto simp: live_def upd_thread_def)

lemma proc_inv_upd:
  assumes "proc_inv s" "t \<in> dom (threads s)" "t_state (thread s t) \<noteq> THREAD_STATE_TERMINATED"
    "t_state (f (thread s t)) \<noteq> THREAD_STATE_TERMINATED" "t_parent (f (thread s t)) = t_parent (thread s t)"
  shows "proc_inv (upd_thread t f s)"
  by (rule proc_inv_cong [OF assms(1)]) (use live_upd [of t s f] assms(2-5) in auto)

lemma proc_inv_queues:
  "proc_inv s \<Longrightarrow> proc_inv (s\<lparr>readyQueue := r, blockedQueue := b\<rparr>)"
  "proc_inv s \<Longrightarrow> proc_inv (s\<lparr>readyQueue := r\<rparr>)" "proc_inv s \<Longrightarrow> proc_inv (s\<lparr>blockedQueue := b\<rparr>)"
  "proc_inv s \<Longrightarrow> proc_inv (s\<lparr>currentThread := c\<rparr>)" "proc_inv s \<Longrightarrow> proc_inv (s\<lparr>vm := v\<rparr>)"
  "proc_inv s \<Longrightarrow> proc_inv (s\<lparr>tss_esp0 := e, vm := v\<rparr>)" "proc_inv s \<Longrightarrow> proc_inv (s\<lparr>pendingReclaims := q\<rparr>)"
  "proc_inv s \<Longrightarrow> proc_inv (s\<lparr>timerTicks := k\<rparr>)"
  by (erule proc_inv_cong; simp add: live_def)+

lemma current_not_terminated: "queue_inv s \<Longrightarrow> currentThread s \<noteq> null_ptr \<Longrightarrow> t_state (thread s (currentThread s)) \<noteq> THREAD_STATE_TERMINATED"
  using queue_invD(1) [of s THREAD_STATE_TERMINATED "currentThread s"] queue_invD(8) [of s] in_state_thread [of "currentThread s" s]
  by (auto simp: placed_def)

lemma Sleep_proc_inv: "proc_inv s \<Longrightarrow> queue_inv s \<Longrightarrow> proc_inv (Sleep ms s)"
  using current_not_terminated [of s] queue_invD(8) [of s] by (auto simp: Sleep_def intro!: proc_inv_upd)

lemma swap_queues: "s\<lparr>blockedQueue := b, readyQueue := r\<rparr> = s\<lparr>readyQueue := r, blockedQueue := b\<rparr>" for s :: sched
  by simp

lemma WakeThread_proc_inv: "proc_inv s \<Longrightarrow> t \<in> dom (threads s) \<Longrightarrow> proc_inv (WakeThread t s)"
  using proc_inv_queues(1) [OF proc_inv_upd [of s t "\<lambda>tc. tc\<lparr>t_state := THREAD_STATE_READY, wakeTime := 0\<rparr>"],
      where r = "readyQueue s @ [t]" and b = "remove1 t (blockedQueue s)"]
  by (simp add: WakeThread_def Let_def swap_queues)

lemma park_current_proc_inv:
  assumes "proc_inv s" "queue_inv s"
  shows "proc_inv (park_current ctx s)"
proof (cases "currentThread s = null_ptr")
  case True
  then show ?thesis using assms by (simp add: park_current_def)
next
  case False
  define s1 where "s1 = upd_thread (currentThread s) (\<lambda>tc. tc\<lparr>cpu_context := ctx\<rparr>) s"
  note c = queue_invD(8) [OF assms(2) False] current_not_terminated [OF assms(2) False]
  have 1: "proc_inv s1" unfolding s1_def using c by (intro proc_inv_upd [OF assms(1)]) auto
  have c1: "currentThread s \<in> dom (threads s1)" "t_state (thread s1 (currentThread s)) \<noteq> THREAD_STATE_TERMINATED"
    using c by (simp_all add: s1_def)
  have 2: "proc_inv (upd_thread (currentThread s) (\<lambda>tc. tc\<lparr>t_state := THREAD_STATE_READY\<rparr>) s1)"
    using c1 by (intro proc_inv_upd [OF 1]) auto
  show ?thesis using False c1 1 2 by (simp add: park_current_def Let_def s1_def [symmetric] proc_inv_queues)
qed

lemma wake_expired_proc_inv: "proc_inv s \<Longrightarrow> queue_inv s \<Longrightarrow> proc_inv (wake_expired n s)"
proof (induction n arbitrary: s)
  case (Suc n)
  show ?case
  proof (cases "blockedQueue s")
    case (Cons t ts)
    have q1: "queue_inv (wake_expired 1 s)" by (rule wake_expired_inv [OF Suc.prems(2)])
    have b: "in_state s THREAD_STATE_BLOCKED t" using queue_invD(3) [OF Suc.prems(2)] Cons by simp
    have "proc_inv (wake_expired 1 s)"
      using Cons Suc.prems(1) in_state_eq [OF b] by (auto simp: Let_def intro!: proc_inv_queues proc_inv_upd)
    then have "proc_inv (wake_expired n (wake_expired 1 s))" using Suc.IH q1 by blast
    then show ?thesis using Cons by (auto simp: Let_def split: if_splits)
  qed (use Suc in simp)
qed simp

lemma dispatch_proc_inv:
  assumes inv: "proc_inv s" and q: "queue_inv (s\<lparr>currentThread := null_ptr\<rparr>)"
  shows "proc_inv (dispatch s)"
proof (cases "readyQueue s")
  case Nil
  have i: "idleThread s \<in> dom (threads s)" "t_state (thread s (idleThread s)) \<noteq> THREAD_STATE_TERMINATED"
    using live_dom [OF proc_invD(7) [OF inv]] by auto
  have "proc_inv (upd_thread (idleThread s) (\<lambda>tc. tc\<lparr>t_state := THREAD_STATE_RUNNING\<rparr>) (s\<lparr>currentThread := idleThread s\<rparr>))"
    by (rule proc_inv_upd [OF proc_inv_queues(4) [OF inv]]) (use i in simp_all)
  then show ?thesis using Nil by (simp add: dispatch_def Let_def proc_inv_queues)
next
  case (Cons t ts)
  then have "in_state (s\<lparr>currentThread := null_ptr\<rparr>) THREAD_STATE_READY t" using queue_invD(2) [OF q, of t] by simp
  then have i: "t \<in> dom (threads s)" "t_state (thread s t) \<noteq> THREAD_STATE_TERMINATED" by (auto simp: in_state_def)
  have "proc_inv (upd_thread t (\<lambda>tc. tc\<lparr>t_state := THREAD_STATE_RUNNING\<rparr>) (s\<lparr>readyQueue := ts, currentThread := t\<rparr>))"
    by (rule proc_inv_upd [OF proc_inv_queues(4) [OF proc_inv_queues(2) [OF inv]]]) (use i in simp_all)
  then show ?thesis using Cons by (simp add: dispatch_def Let_def proc_inv_queues)
qed

lemma DrainPendingReclaims_proc_inv:
  assumes inv: "proc_inv s" and q: "queue_inv s"
  shows "proc_inv (DrainPendingReclaims s)"
proof (rule proc_inv_cong [OF inv])
  show "live (DrainPendingReclaims s) t p = live s t p" for t p
    using queue_invD(4) [OF q, of t] by (auto simp: live_def DrainPendingReclaims_def drain_fields in_state_def)
qed (simp_all add: DrainPendingReclaims_def drain_fields)

lemma Schedule_proc_inv:
  assumes "proc_inv s" "queue_inv s"
  shows "proc_inv (snd (Schedule ctx s))"
proof -
  define s1 where "s1 = park_current ctx s"
  define s2 where "s2 = wake_expired (length (blockedQueue s1)) s1"
  have q: "queue_inv (s1\<lparr>currentThread := null_ptr\<rparr>)" unfolding s1_def by (rule park_current_inv [OF assms(2)])
  have p1: "proc_inv (s1\<lparr>currentThread := null_ptr\<rparr>)" unfolding s1_def by (intro proc_inv_queues park_current_proc_inv assms)
  have p2: "proc_inv (s2\<lparr>currentThread := null_ptr\<rparr>)" and q2: "queue_inv (s2\<lparr>currentThread := null_ptr\<rparr>)"
    using wake_expired_proc_inv [OF p1 q] wake_expired_inv [OF q] by (simp_all add: wake_expired_current s2_def)
  have "proc_inv s2" using proc_inv_queues(4) [OF p2, of "currentThread s2"] by simp
  then show ?thesis using dispatch_proc_inv q2 dispatch_inv DrainPendingReclaims_proc_inv
    by (simp add: Schedule_def Let_def s1_def [symmetric] s2_def [symmetric])
qed

text \<open>Ending a thread.\<close>

lemma TerminateThread_live:
  assumes "t \<in> dom (threads s)" "t \<noteq> null_ptr" "t_state (thread s t) \<noteq> THREAD_STATE_TERMINATED"
  shows "live (TerminateThread t s) x p \<longleftrightarrow> x \<noteq> t \<and> live s x p"
  using TerminateThread_fields(6) [OF assms] TerminateThread_fields(7,8) [OF assms]
  by (cases "x = t"; cases "t = currentThread s") (auto simp: live_def)

lemma TerminateThread_proc_inv:
  assumes inv: "proc_inv s" and t: "t \<in> dom (threads s)" "t \<noteq> null_ptr" "t \<noteq> idleThread s"
  shows "proc_inv (TerminateThread t s)"
proof (cases "t_state (thread s t) = THREAD_STATE_TERMINATED")
  case True
  then show ?thesis using inv by (simp add: TerminateThread_def)
next
  case False
  note f = TerminateThread_fields [OF t(1,2) False] and lv = TerminateThread_live [OF t(1,2) False]
  define p where "p = t_parent (thread s t)"
  have lt: "live s t p" using t(1) False by (auto simp: live_def p_def)
  have pr: "procs (TerminateThread t s) = (if p \<noteq> null_ptr then (procs s)(p \<mapsto> (proc s p)\<lparr>p_threads := remove1 t (p_threads (proc s p))\<rparr>) else procs s)"
    using f(10) by (simp add: p_def Let_def)
  have dom: "dom (procs (TerminateThread t s)) = dom (procs s)" using proc_invD(6) [OF inv lt] by (auto simp: pr)
  have "distinct (p_threads pc) \<and> (\<forall>x. x \<in> set (p_threads pc) \<longleftrightarrow> x \<noteq> t \<and> live s x q)"
    if q: "procs (TerminateThread t s) q = Some pc" for q pc
  proof (cases "q = p \<and> p \<noteq> null_ptr")
    case True
    then obtain pc0 where pc0: "procs s p = Some pc0" using proc_invD(6) [OF inv lt] by blast
    have pc: "p_threads pc = remove1 t (p_threads pc0)" using q True pc0 unfolding pr by auto
    note d = proc_invD(4) [OF inv pc0]
    have "x \<in> set (p_threads pc) \<longleftrightarrow> x \<noteq> t \<and> live s x q" for x
      unfolding pc set_remove1_eq [OF d] using proc_invD(5) [OF inv pc0, of x] True by auto
    then show ?thesis using d by (simp add: pc)
  next
    case F: False
    then have pq: "procs s q = Some pc" using q by (auto simp: pr split: if_splits)
    then have "\<not> live s t q" using F live_parent_unique [OF lt, of q] proc_invD(3) [OF inv] by auto
    with pq show ?thesis using proc_invD(4,5) [OF inv pq] by auto
  qed
  then show ?thesis unfolding proc_inv_def dom f(5,9) lv using proc_invD(1-3,7) [OF inv] t(3) proc_invD(6) [OF inv, THEN domD]
    by (metis domI)
qed

subsection \<open>What the invariants depend on\<close>

definition sched_inv :: "sched \<Rightarrow> bool" where
  "sched_inv s \<longleftrightarrow> queue_inv s \<and> proc_inv s"

text \<open>The invariants do not look at page tables, stacks, saved registers or the counters.\<close>

definition view :: "sched \<Rightarrow> (u32 \<rightharpoonup> tcb) \<times> (u32 \<rightharpoonup> pcb) \<times> u32 list \<times> u32 list \<times> u32 list \<times> u32 list \<times> u32 \<times> u32" where
  "view s = (threads s, procs s, globalProcessList s, readyQueue s, blockedQueue s, pendingReclaims s, currentThread s, idleThread s)"

lemma view_sched_inv: "view s' = view s \<Longrightarrow> sched_inv s' = sched_inv s"
  by (simp add: view_def sched_inv_def queue_inv_def proc_inv_def placed_def in_state_def live_def cong: thread_state.case_cong)

lemma view_make_ready: "view s' = view s \<Longrightarrow> view (make_ready p t s') = view (make_ready p t s)"
  by (simp add: view_def make_ready_def Let_def upd_proc_def upd_thread_def)

lemma view_outside:
  "view (s\<lparr>vm := v\<rparr>) = view s" "view (s\<lparr>zone := z\<rparr>) = view s" "view (s\<lparr>pool := q\<rparr>) = view s"
  "view (s\<lparr>nextStackSlotIdx := n\<rparr>) = view s" "view (s\<lparr>tidCounter := n\<rparr>) = view s" "view (s\<lparr>pidCounter := n\<rparr>) = view s"
  "view (set_context t c s) = view s" "view (report_tid fl b a pd t s) = view s"
  by (simp_all add: view_def set_context_def report_tid_def)

lemma delete_thread_view: "view (delete_thread t s) = view (s\<lparr>threads := (threads s)(t := None)\<rparr>)"
  by (simp add: view_def delete_thread_def)

lemma AllocUserStack_view:
  assumes "threads s t = Some tc"
  shows "AllocUserStack t pd s = (None, s') \<Longrightarrow> view s' = view (s\<lparr>threads := (threads s)(t := None)\<rparr>)"
    and "AllocUserStack t pd s = (Some r, s') \<Longrightarrow> \<exists>k. view s' = view (s\<lparr>threads := (threads s)(t \<mapsto> tc\<lparr>stackSlotIdx := k\<rparr>)\<rparr>)"
proof -
  obtain c po nx where ch: "choose_slot (slot_mapped (vm_mem (vm s)) pd) (pool s) (nextStackSlotIdx s) = (c, po, nx)"
    by (metis prod_cases3)
  show "view s' = view (s\<lparr>threads := (threads s)(t := None)\<rparr>)" if "AllocUserStack t pd s = (None, s')"
    using that ch by (auto simp: AllocUserStack_def Let_def delete_thread_def upd_thread_def view_def split: option.splits prod.splits)
  show "\<exists>k. view s' = view (s\<lparr>threads := (threads s)(t \<mapsto> tc\<lparr>stackSlotIdx := k\<rparr>)\<rparr>)" if "AllocUserStack t pd s = (Some r, s')"
    using that ch assms by (auto simp: AllocUserStack_def Let_def upd_thread_def view_def split: option.splits prod.splits)
qed

lemma start_tcb_view:
  "start_tcb t p s = (False, s') \<Longrightarrow> view s' = view s"
  "start_tcb t p s = (True, s') \<Longrightarrow> \<exists>tc. t_parent tc = p \<and> t_state tc = THREAD_STATE_NEW \<and> view s' = view (s\<lparr>threads := (threads s)(t \<mapsto> tc)\<rparr>)"
proof -
  show "view s' = view s" if "start_tcb t p s = (False, s')"
    using that by (auto simp: start_tcb_def Let_def view_def split: prod.splits if_splits)
  show "\<exists>tc. t_parent tc = p \<and> t_state tc = THREAD_STATE_NEW \<and> view s' = view (s\<lparr>threads := (threads s)(t \<mapsto> tc)\<rparr>)"
    if "start_tcb t p s = (True, s')"
    by (rule exI [of _ "thread s' t"])
      (use that in \<open>auto simp: start_tcb_def Let_def view_def new_tcb_def split: prod.splits if_splits\<close>)
qed

lemma clone_stack_view:
  assumes "threads s t = Some tc"
  shows "clone_stack t pd st c s = (False, s') \<Longrightarrow> view s' = view (s\<lparr>threads := (threads s)(t := None)\<rparr>)"
    and "clone_stack t pd st c s = (True, s') \<Longrightarrow> \<exists>k. view s' = view (s\<lparr>threads := (threads s)(t \<mapsto> tc\<lparr>stackSlotIdx := k\<rparr>)\<rparr>)"
proof -
  obtain r s1 where a: "AllocUserStack t pd s = (r, s1)" by (cases "AllocUserStack t pd s")
  show "view s' = view (s\<lparr>threads := (threads s)(t := None)\<rparr>)" if "clone_stack t pd st c s = (False, s')"
    using that AllocUserStack_view(1) [OF assms, of pd s1] a by (cases r) (auto simp: clone_stack_def split: if_splits prod.splits)
  show "\<exists>k. view s' = view (s\<lparr>threads := (threads s)(t \<mapsto> tc\<lparr>stackSlotIdx := k\<rparr>)\<rparr>)" if c: "clone_stack t pd st c s = (True, s')"
  proof (cases "st = null_ptr")
    case False
    then have "view s' = view s" using c by (auto simp: clone_stack_def view_outside)
    also have "\<dots> = view (s\<lparr>threads := (threads s)(t \<mapsto> tc\<lparr>stackSlotIdx := stackSlotIdx tc\<rparr>)\<rparr>)"
      using assms by (simp add: view_def map_upd_triv)
    finally show ?thesis by blast
  next
    case True
    then have "r \<noteq> None" "view s' = view s1" using c a by (auto simp: clone_stack_def view_outside split: option.splits prod.splits)
    then show ?thesis using AllocUserStack_view(2) [OF assms, of pd] a by auto
  qed
qed

text \<open>A new thread of an existing process.\<close>

definition add_thread :: "u32 \<Rightarrow> u32 \<Rightarrow> tcb \<Rightarrow> sched \<Rightarrow> sched" where
  "add_thread p t tc s = make_ready p t (s\<lparr>threads := (threads s)(t \<mapsto> tc)\<rparr>)"

lemma add_thread_fields:
  "threads (add_thread p t tc s) = (threads s)(t \<mapsto> tc\<lparr>t_state := THREAD_STATE_READY\<rparr>)"
  "procs (add_thread p t tc s) = (procs s)(p \<mapsto> (proc s p)\<lparr>p_threads := p_threads (proc s p) @ [t]\<rparr>)"
  "readyQueue (add_thread p t tc s) = readyQueue s @ [t]" "blockedQueue (add_thread p t tc s) = blockedQueue s"
  "pendingReclaims (add_thread p t tc s) = pendingReclaims s" "currentThread (add_thread p t tc s) = currentThread s"
  "idleThread (add_thread p t tc s) = idleThread s" "globalProcessList (add_thread p t tc s) = globalProcessList s"
  by (simp_all add: add_thread_def make_ready_def Let_def upd_proc_def upd_thread_def)

lemma add_thread_queue_inv:
  assumes inv: "queue_inv s" and t: "t \<notin> dom (threads s)" "t \<noteq> null_ptr"
  shows "queue_inv (add_thread p t tc s)"
proof -
  note f = add_thread_fields [of p t tc s]
  have nq: "t \<notin> set (readyQueue s)" "t \<notin> set (blockedQueue s)" "t \<notin> set (pendingReclaims s)" "t \<noteq> currentThread s" "t \<noteq> idleThread s"
    using queue_invD(2-4,8,9) [OF inv] in_state_eq t by blast+
  have "threads (add_thread p t tc s) t = Some (tc\<lparr>t_state := THREAD_STATE_READY\<rparr>)" by (simp add: f)
  then show ?thesis
    by (rule queue_inv_move [OF inv, rotated])
      (use nq t queue_invD(5-7) [OF inv] in \<open>simp_all add: f same_elsewhere_def placed_def\<close>)
qed

lemma add_thread_proc_inv:
  assumes inv: "proc_inv s" and t: "t \<notin> dom (threads s)" and p: "p \<in> dom (procs s)" "t_parent tc = p"
  shows "proc_inv (add_thread p t tc s)"
proof -
  note f = add_thread_fields [of p t tc s]
  have lv: "live (add_thread p t tc s) x q \<longleftrightarrow> (if x = t then q = p else live s x q)" for x q
    using p(2) by (auto simp: live_def f)
  have nt: "\<not> live s t q" for q using t live_dom by blast
  have dom: "dom (procs (add_thread p t tc s)) = dom (procs s)" using p(1) by (auto simp: f)
  have "distinct (p_threads pc) \<and> (\<forall>x. x \<in> set (p_threads pc) \<longleftrightarrow> live (add_thread p t tc s) x q)"
    if "procs (add_thread p t tc s) q = Some pc" for q pc
  proof (cases "q = p")
    case True
    obtain pc0 where pc0: "procs s p = Some pc0" using p(1) by blast
    have pc: "p_threads pc = p_threads pc0 @ [t]" using that True pc0 by (auto simp: f)
    show ?thesis unfolding pc lv using proc_invD(4,5) [OF inv pc0] nt [of p] True by auto
  next
    case False
    then have "procs s q = Some pc" using that by (simp add: f)
    then show ?thesis unfolding lv using proc_invD(4,5) [OF inv] nt [of q] False by metis
  qed
  moreover have "q \<in> dom (procs s)" if "live (add_thread p t tc s) x q" "q \<noteq> null_ptr" for x q
    using that p(1) proc_invD(6) [OF inv, of x q] by (cases "x = t") (simp_all add: lv)
  moreover have "live (add_thread p t tc s) (idleThread s) null_ptr"
    using proc_invD(7) [OF inv] nt [of null_ptr] by (auto simp: lv)
  ultimately show ?thesis unfolding proc_inv_def dom f(7,8) using proc_invD(1-3) [OF inv] by blast
qed

lemma add_thread_inv:
  "sched_inv s \<Longrightarrow> t \<notin> dom (threads s) \<Longrightarrow> t \<noteq> null_ptr \<Longrightarrow> p \<in> dom (procs s) \<Longrightarrow> t_parent tc = p \<Longrightarrow> sched_inv (add_thread p t tc s)"
  by (simp add: sched_inv_def add_thread_queue_inv add_thread_proc_inv)

text \<open>
  \<open>fresh_objects newP newT\<close> is what the scheduler relies on in \<^verbatim>\<open>new\<close>: no address, or one that no live object has.
\<close>

definition fresh_objects :: "(sched \<Rightarrow> u32) \<Rightarrow> (sched \<Rightarrow> u32) \<Rightarrow> bool" where
  "fresh_objects newP newT \<longleftrightarrow> (\<forall>s. newT s = null_ptr \<or> newT s \<notin> dom (threads s)) \<and> (\<forall>s. newP s = null_ptr \<or> newP s \<notin> dom (procs s))"

lemma freshD:
  "fresh_objects newP newT \<Longrightarrow> newT s \<noteq> null_ptr \<Longrightarrow> newT s \<notin> dom (threads s)"
  "fresh_objects newP newT \<Longrightarrow> newP s \<noteq> null_ptr \<Longrightarrow> newP s \<notin> dom (procs s)"
  unfolding fresh_objects_def by blast+

lemma view_parts:
  "view s' = view s \<Longrightarrow> threads s' = threads s \<and> procs s' = procs s \<and> globalProcessList s' = globalProcessList s
     \<and> readyQueue s' = readyQueue s \<and> blockedQueue s' = blockedQueue s \<and> pendingReclaims s' = pendingReclaims s
     \<and> currentThread s' = currentThread s \<and> idleThread s' = idleThread s"
  by (simp add: view_def)

text \<open>The two ends of every creation: the thread is made ready, or it is deleted again.\<close>

lemma thread_made_view:
  assumes "view s1 = view (s\<lparr>threads := (threads s)(t \<mapsto> tc)\<rparr>)" "view s2 = view (s1\<lparr>threads := (threads s1)(t \<mapsto> tc')\<rparr>)"
  shows "view (make_ready p t s2) = view (add_thread p t tc' s)"
  unfolding add_thread_def by (rule view_make_ready) (use assms in \<open>simp add: view_def\<close>)

lemma thread_undone_view:
  assumes "view s1 = view (s\<lparr>threads := (threads s)(t \<mapsto> tc)\<rparr>)" "view s2 = view (s1\<lparr>threads := (threads s1)(t := None)\<rparr>)" "t \<notin> dom (threads s)"
  shows "view s2 = view s"
proof -
  have "(threads s)(t := None) = threads s" using assms(3) by auto
  then show ?thesis using assms(1,2) by (simp add: view_def)
qed

lemma CreateThread_view:
  assumes n: "newT s \<notin> dom (threads s)" and p: "p \<noteq> null_ptr" and c: "CreateThread newT p ep arg s = (t, s')"
  shows "(t = null_ptr \<and> view s' = view s)
    \<or> (t \<noteq> null_ptr \<and> t = newT s \<and> (\<exists>tc. t_parent tc = p \<and> view s' = view (add_thread p t tc s)))"
proof -
  define t0 where "t0 = newT s"
  obtain b s1 where st: "start_tcb t0 p s = (b, s1)" by fastforce
  consider "t0 = null_ptr \<or> \<not> b" | "t0 \<noteq> null_ptr" b by blast
  then show ?thesis
  proof cases
    case 1
    then show ?thesis using c st start_tcb_view(1) [of t0 p s s1]
      by (cases "t0 = null_ptr") (auto simp: CreateThread_def Let_def t0_def [symmetric])
  next
    case 2
    obtain tc where tc: "t_parent tc = p" "view s1 = view (s\<lparr>threads := (threads s)(t0 \<mapsto> tc)\<rparr>)"
      using start_tcb_view(2) [of t0 p s s1] st 2 by auto
    then have th: "threads s1 t0 = Some tc" by (simp add: view_def)
    obtain a s2 where al: "AllocUserStack t0 (page_directory (proc s1 p)) s1 = (a, s2)" by fastforce
    consider "isKernelProcess (proc s1 p)" | "\<not> isKernelProcess (proc s1 p)" "a = None" | r where "\<not> isKernelProcess (proc s1 p)" "a = Some r"
      by blast
    then show ?thesis
    proof cases
      case k: 1
      then have "t = t0" "view s' = view (make_ready p t0 s1)"
        using c st 2 p by (auto simp: CreateThread_def Let_def view_outside t0_def [symmetric] intro!: view_make_ready)
      moreover have "view s1 = view (s1\<lparr>threads := (threads s1)(t0 \<mapsto> tc)\<rparr>)" using th by (simp add: view_def map_upd_triv)
      ultimately show ?thesis using tc 2 thread_made_view [OF tc(2)] by (auto simp: t0_def)
    next
      case u: 2
      then have "t = null_ptr" "view s' = view (s1\<lparr>threads := (threads s1)(t0 := None)\<rparr>)"
        using c st 2 p al AllocUserStack_view(1) [OF th] by (auto simp: CreateThread_def Let_def t0_def [symmetric])
      then show ?thesis using thread_undone_view [OF tc(2)] n by (simp add: t0_def)
    next
      case u: 3
      obtain k where "view s2 = view (s1\<lparr>threads := (threads s1)(t0 \<mapsto> tc\<lparr>stackSlotIdx := k\<rparr>)\<rparr>)"
        using AllocUserStack_view(2) [OF th] al u by blast
      note made = thread_made_view [OF tc(2) this, of p]
      have "t = t0" "view s' = view (make_ready p t0 s2)"
        using c st 2 p al u by (auto simp: CreateThread_def Let_def view_outside t0_def [symmetric] intro!: view_make_ready split: prod.splits)
      then show ?thesis using tc(1) 2 made by (auto simp: t0_def intro!: exI [of _ "tc\<lparr>stackSlotIdx := k\<rparr>"])
    qed
  qed
qed

lemma CreateThread_inv:
  assumes "sched_inv s" "fresh_objects newP newT" "p \<in> dom (procs s)"
  shows "sched_inv (snd (CreateThread newT p ep arg s))"
proof -
  obtain t s' where c: "CreateThread newT p ep arg s = (t, s')" by fastforce
  have p: "p \<noteq> null_ptr" using assms(1,3) proc_invD(3) by (auto simp: sched_inv_def)
  show ?thesis
  proof (cases "newT s = null_ptr")
    case True
    then show ?thesis using assms(1) by (simp add: CreateThread_def)
  next
    case False
    note n = freshD(1) [OF assms(2) False]
    from CreateThread_view [OF n p c]
    have "sched_inv s'"
    proof (elim disjE conjE exE)
      show "sched_inv s'" if "view s' = view s" using view_sched_inv [OF that] assms(1) by blast
      show "sched_inv s'" if "t = newT s" "t_parent tc = p" "view s' = view (add_thread p t tc s)" for tc
        using view_sched_inv [OF that(3)] add_thread_inv [OF assms(1) n False assms(3) that(2)] that(1) by simp
    qed
    then show ?thesis by (simp add: c)
  qed
qed

subsection \<open>Creating and cloning processes\<close>

definition add_proc :: "u32 \<Rightarrow> pcb \<Rightarrow> sched \<Rightarrow> sched" where
  "add_proc p pc s = s\<lparr>procs := (procs s)(p \<mapsto> pc), globalProcessList := globalProcessList s @ [p]\<rparr>"

lemma add_proc_inv:
  assumes inv: "sched_inv s" and p: "p \<notin> dom (procs s)" "p \<noteq> null_ptr" and pc: "p_threads pc = []"
  shows "sched_inv (add_proc p pc s)"
proof -
  have q: "queue_inv s" and i: "proc_inv s" using inv by (simp_all add: sched_inv_def)
  have lv: "live (add_proc p pc s) t r = live s t r" for t r by (simp add: live_def add_proc_def)
  have none: "\<not> live s t p" for t using proc_invD(6) [OF i, of t p] p by blast
  have th: "distinct (p_threads pc') \<and> (\<forall>t. t \<in> set (p_threads pc') \<longleftrightarrow> live (add_proc p pc s) t r)"
    if "procs (add_proc p pc s) r = Some pc'" for r pc'
    unfolding lv using that pc none proc_invD(4,5) [OF i, of r pc'] by (cases "r = p") (auto simp: add_proc_def)
  have "queue_inv (add_proc p pc s)" by (rule queue_inv_cong [OF q]) (simp_all add: add_proc_def)
  moreover have "proc_inv (add_proc p pc s)"
    unfolding proc_inv_def
  proof (intro conjI allI impI)
    show "distinct (globalProcessList (add_proc p pc s))" using proc_invD(1,2) [OF i] p by (auto simp: add_proc_def)
    show "set (globalProcessList (add_proc p pc s)) = dom (procs (add_proc p pc s))" using proc_invD(2) [OF i] by (auto simp: add_proc_def)
    show "null_ptr \<notin> dom (procs (add_proc p pc s))" using proc_invD(3) [OF i] p by (auto simp: add_proc_def)
    show "r \<in> dom (procs (add_proc p pc s))" if "live (add_proc p pc s) t r \<and> r \<noteq> null_ptr" for t r
      using proc_invD(6) [OF i, of t r] that unfolding lv by (auto simp: add_proc_def)
    show "live (add_proc p pc s) (idleThread (add_proc p pc s)) null_ptr" unfolding lv using proc_invD(7) [OF i] by (simp add: add_proc_def)
  qed (use th in blast)+
  ultimately show ?thesis by (simp add: sched_inv_def)
qed

lemma CreateProcess_inv:
  assumes inv: "sched_inv s" and fr: "fresh_objects newP newT" and c: "CreateProcess newP newT k ep arg main s = Some (p, s')"
  shows "sched_inv s'"
proof -
  define p0 where "p0 = newP s"
  have p0: "p0 \<noteq> null_ptr" using c by (auto simp: CreateProcess_def Let_def p0_def split: if_splits)
  have new: "p0 \<notin> dom (procs s)" using freshD(2) [OF fr, of s] p0 by (simp add: p0_def)
  obtain pd v where d: "(if k then (vm_kernel_dir (vm s), vm s) else CreateProcessDirectory (vm s)) = (pd, v)" by fastforce
  obtain ok v' where m: "(if k then (True, v) else MapPage v pd USER_EXIT_TRAMPOLINE_VIRT (trampolinePhys s) (PAGE_PRESENT OR PAGE_USER)) = (ok, v')"
    by fastforce
  define pc where "pc = new_pcb\<lparr>p_pid := pidCounter s, isKernelProcess := k, mainEntry := ep, appType := 1,
              cwd := (replicate 256 0)[0 := 0x2F, 1 := 0]\<rparr>\<lparr>page_directory := pd\<rparr>"
  define s1 where "s1 = s\<lparr>pidCounter := pidCounter s + 1, vm := v', procs := (procs s)(p0 \<mapsto> pc), globalProcessList := globalProcessList s @ [p0]\<rparr>"
  have v1: "view s1 = view (add_proc p0 pc s)" by (simp add: s1_def add_proc_def view_def)
  then have i1: "sched_inv s1" using add_proc_inv [OF inv new p0, of pc] view_sched_inv [OF v1] by (simp add: pc_def new_pcb_def)
  obtain t s2 where ct: "CreateThread newT p0 ep arg s1 = (t, s2)" by fastforce
  have eq: "Some (p, s') = (if \<not> ok then Some (0, s\<lparr>pidCounter := pidCounter s + 1, vm := if pd \<noteq> vm_kernel_dir v' then free_frame pd v' else v'\<rparr>)
      else if \<not> main then Some (p0, s1) else if t \<noteq> null_ptr then Some (p0, s2)
      else Some (0, s2\<lparr>vm := if \<not> k \<and> pd \<noteq> vm_kernel_dir (vm s2)
                                   then freeChildAddressSpace (trampolinePhys s2) pd (vm s2) else vm s2,
                             globalProcessList := remove1 p0 (globalProcessList s2), procs := (procs s2)(p0 := None)\<rparr>))"
    unfolding c [symmetric] using p0 d m ct
    by (cases "ok \<and> main") (auto simp: CreateProcess_def Let_def p0_def [symmetric] pc_def s1_def simp del: One_nat_def)
  have v2: "view s2 = view s1" if "t = null_ptr"
  proof (cases "newT s1 = null_ptr")
    case True
    then show ?thesis using ct by (simp add: CreateThread_def)
  next
    case False
    then show ?thesis using CreateThread_view [OF freshD(1) [OF fr False] p0 ct] that by simp
  qed
  have undo: "(procs s)(p0 := None) = procs s" "remove1 p0 (globalProcessList s) = globalProcessList s"
    using new proc_invD(2) inv by (auto simp: sched_inv_def remove1_idem)
  consider "\<not> ok" | "ok" "\<not> main" | "ok" main "t \<noteq> null_ptr" | "ok" main "t = null_ptr" by blast
  then show ?thesis
  proof cases
    case 1
    then have "view s' = view s" using eq by (simp add: view_def)
    then show ?thesis using inv view_sched_inv by blast
  next
    case 2
    then show ?thesis using eq i1 by simp
  next
    case 3
    then show ?thesis using eq CreateThread_inv [OF i1 fr, of p0 ep arg] by (simp add: ct) (simp add: s1_def)
  next
    case 4
    then have "view s' = view s" using eq v2 v1 undo proc_invD(2) inv new
      by (auto simp: view_def add_proc_def remove1_append sched_inv_def)
    then show ?thesis using inv view_sched_inv by blast
  qed
qed

lemma current_parent_known:
  assumes "sched_inv s" "currentThread s \<noteq> null_ptr" "t_parent (thread s (currentThread s)) \<noteq> null_ptr"
  shows "t_parent (thread s (currentThread s)) \<in> dom (procs s)"
proof -
  have q: "queue_inv s" and i: "proc_inv s" using assms(1) by (simp_all add: sched_inv_def)
  have "live s (currentThread s) (t_parent (thread s (currentThread s)))"
    using queue_invD(8) [OF q assms(2)] current_not_terminated [OF q assms(2)] by (auto simp: live_def)
  then show ?thesis by (rule proc_invD(6) [OF i _ assms(3)])
qed

lemma start_clone_view:
  assumes n: "t \<notin> dom (threads s)" and st: "start_tcb t p s = (True, s1)"
  shows "clone_stack t pd stk c s1 = (False, s2) \<Longrightarrow> view s2 = view s"
    and "clone_stack t pd stk c s1 = (True, s2) \<Longrightarrow> \<exists>tc. t_parent tc = p \<and> view (make_ready q t s2) = view (add_thread q t tc s)"
proof -
  obtain tc where tc: "t_parent tc = p" "view s1 = view (s\<lparr>threads := (threads s)(t \<mapsto> tc)\<rparr>)" using start_tcb_view(2) [OF st] by blast
  then have th: "threads s1 t = Some tc" by (simp add: view_def)
  show "view s2 = view s" if "clone_stack t pd stk c s1 = (False, s2)"
    by (rule thread_undone_view [OF tc(2) clone_stack_view(1) [OF th that] n])
  show "\<exists>tc. t_parent tc = p \<and> view (make_ready q t s2) = view (add_thread q t tc s)" if cl: "clone_stack t pd stk c s1 = (True, s2)"
  proof -
    obtain k where "view s2 = view (s1\<lparr>threads := (threads s1)(t \<mapsto> tc\<lparr>stackSlotIdx := k\<rparr>)\<rparr>)" using clone_stack_view(2) [OF th cl] by blast
    from thread_made_view [OF tc(2) this] show ?thesis using tc(1) by (intro exI [of _ "tc\<lparr>stackSlotIdx := k\<rparr>"]) simp
  qed
qed

lemma CloneCurrentThread_inv:
  assumes inv: "sched_inv s" and fr: "fresh_objects newP newT"
  shows "sched_inv (snd (CloneCurrentThread newT pctx fl stk ptid ctid s))"
proof (cases "currentThread s = null_ptr \<or> t_parent (thread s (currentThread s)) = null_ptr \<or> pctx = null_ptr \<or> newT s = null_ptr")
  case True
  then show ?thesis using inv by (auto simp: CloneCurrentThread_def Let_def)
next
  case False
  define p where "p = t_parent (thread s (currentThread s))"
  define t where "t = newT s"
  define c where "c = (contexts s pctx)\<lparr>eax := 0\<rparr>"
  have p: "p \<in> dom (procs s)" "p \<noteq> null_ptr" using current_parent_known [OF inv] False by (auto simp: p_def)
  have t: "t \<notin> dom (threads s)" "t \<noteq> null_ptr" using freshD(1) [OF fr, of s] False by (simp_all add: t_def)
  obtain b s1 where st: "start_tcb t p s = (b, s1)" by fastforce
  obtain b' s2 where cl: "clone_stack t (page_directory (proc s1 p)) stk c s1 = (b', s2)" by fastforce
  have eq: "CloneCurrentThread newT pctx fl stk ptid ctid s = (if \<not> b then (0, s1) else if \<not> b' then (0, s2)
      else (t, make_ready p t (report_tid fl CLONE_CHILD_SETTID ctid (page_directory (proc s2 p)) t
        (report_tid fl CLONE_PARENT_SETTID ptid (page_directory (proc s2 p)) t s2))))"
    using False st cl by (auto simp: CloneCurrentThread_def Let_def p_def [symmetric] t_def [symmetric] c_def [symmetric])
  consider "\<not> b" | b "\<not> b'" | b b' by blast
  then show ?thesis
  proof cases
    case 1
    then have "view s1 = view s" using start_tcb_view(1) st by simp
    from view_sched_inv [OF this] show ?thesis using 1 inv by (simp add: eq)
  next
    case 2
    then have "view s2 = view s" using start_clone_view(1) [OF t(1), of p s1] st cl by simp
    from view_sched_inv [OF this] show ?thesis using 2 inv by (simp add: eq)
  next
    case 3
    then obtain tc where tc: "t_parent tc = p" "view (make_ready p t s2) = view (add_thread p t tc s)"
      using start_clone_view(2) [OF t(1), of p s1] st cl by metis
    have "view (snd (CloneCurrentThread newT pctx fl stk ptid ctid s)) = view (make_ready p t s2)"
      unfolding eq using 3 by (simp add: view_make_ready [OF trans [OF view_outside(8) view_outside(8)]])
    from view_sched_inv [OF trans [OF this tc(2)]] show ?thesis using add_thread_inv [OF inv t p(1) tc(1)] by simp
  qed
qed

lemma CloneCurrentProcess_inv:
  assumes inv: "sched_inv s" and fr: "fresh_objects newP newT"
  shows "sched_inv (snd (CloneCurrentProcess newP newT pctx fl stk ptid ctid s))"
proof (cases "currentThread s = null_ptr \<or> t_parent (thread s (currentThread s)) = null_ptr \<or> pctx = null_ptr
    \<or> isKernelProcess (proc s (t_parent (thread s (currentThread s)))) \<or> newP s = null_ptr")
  case True
  then show ?thesis using inv by (auto simp: CloneCurrentProcess_def Let_def)
next
  case False
  define par where "par = t_parent (thread s (currentThread s))"
  define p where "p = newP s"
  define c where "c = (contexts s pctx)\<lparr>eax := 0\<rparr>"
  obtain pd v where d: "CreateProcessDirectory (vm s) = (pd, v)" by fastforce
  define child where "child = clone_pcb (pidCounter s) par (proc s par) pd"
  obtain ok v' where u: "clone_user_space pd (page_directory (proc s par)) [64..<768] v = (ok, v')" by fastforce
  define s0 where "s0 = s\<lparr>pidCounter := pidCounter s + 1, vm := v', procs := (procs s)(p \<mapsto> child)\<rparr>"
  define t where "t = newT s0"
  obtain b s1 where st: "start_tcb t p s0 = (b, s1)" by fastforce
  obtain b' s2 where cl: "clone_stack t pd stk c s1 = (b', s2)" by fastforce
  define discard where "discard = (\<lambda>s :: sched. s\<lparr>vm := freeChildAddressSpace (trampolinePhys s) pd (vm s), procs := (procs s)(p := None)\<rparr>)"
  let ?r = "snd (CloneCurrentProcess newP newT pctx fl stk ptid ctid s)"
  have eq: "?r = (if pd = null_ptr then s\<lparr>pidCounter := pidCounter s + 1, vm := v\<rparr>
      else if \<not> ok \<or> t = null_ptr then discard s0 else if \<not> b then discard s1 else if \<not> b' then discard s2
      else (\<lambda>s. s\<lparr>globalProcessList := globalProcessList s @ [p]\<rparr>) (make_ready p t (report_tid fl CLONE_CHILD_SETTID ctid pd t
        (report_tid fl CLONE_PARENT_SETTID ptid (page_directory (proc s2 par)) t s2))))"
    using False d u st cl by (auto simp: CloneCurrentProcess_def Let_def par_def [symmetric] p_def [symmetric] t_def
        c_def [symmetric] child_def [symmetric] discard_def s0_def simp del: upt_rec_numeral)
  have p: "p \<notin> dom (procs s)" "p \<noteq> null_ptr" using freshD(2) [OF fr, of s] False by (simp_all add: p_def)
  have undo: "(procs s)(p := None) = procs s" using p by auto
  have s0: "view s0 = view (s\<lparr>procs := (procs s)(p \<mapsto> child)\<rparr>)" by (simp add: s0_def view_def)
  have gone: "view (discard s') = view s" if "view s' = view s0" for s'
    using that s0 undo by (simp add: discard_def view_def)
  have t: "t \<noteq> null_ptr \<Longrightarrow> t \<notin> dom (threads s0)" using freshD(1) [OF fr] by (simp add: t_def)
  consider "pd = null_ptr \<or> \<not> ok \<or> t = null_ptr \<or> \<not> b \<or> \<not> b'" | "pd \<noteq> null_ptr" ok "t \<noteq> null_ptr" b b' by blast
  then show ?thesis
  proof cases
    case 1
    then have "view ?r = view s"
      unfolding eq using gone [of s0] gone [of s1] gone [of s2] start_tcb_view(1) [of t p s0 s1] start_clone_view(1) [OF t, of p s1] st cl
      by (auto simp: view_outside)
    from view_sched_inv [OF this] show ?thesis using inv by blast
  next
    case 2
    then obtain tc where tc: "t_parent tc = p" "view (make_ready p t s2) = view (add_thread p t tc s0)"
      using start_clone_view(2) [OF t, of p s1] st cl by metis
    have "view (make_ready p t (report_tid fl CLONE_CHILD_SETTID ctid pd t
        (report_tid fl CLONE_PARENT_SETTID ptid (page_directory (proc s2 par)) t s2))) = view (make_ready p t s2)"
      by (rule view_make_ready [OF trans [OF view_outside(8) view_outside(8)]])
    with tc(2) have v: "view ?r = view (add_thread p t tc (add_proc p child s))"
      unfolding eq using 2 s0 by (simp add: view_def add_thread_fields add_proc_def)
    have "sched_inv (add_thread p t tc (add_proc p child s))"
      using add_proc_inv [OF inv p, of child] tc(1) 2 t s0
      by (intro add_thread_inv) (auto simp: add_proc_def child_def clone_pcb_def new_pcb_def view_def)
    then show ?thesis using view_sched_inv [OF v] by blast
  qed
qed

subsection \<open>Killing a process\<close>

lemma TerminateThread_inv:
  assumes "sched_inv s" "t \<in> dom (threads s)" "t \<noteq> idleThread s"
  shows "sched_inv (TerminateThread t s)"
proof -
  have "t \<noteq> null_ptr" using assms queue_invD(10) by (auto simp: sched_inv_def)
  then show ?thesis using assms TerminateThread_queue_inv TerminateThread_proc_inv by (simp add: sched_inv_def)
qed

text \<open>Taking the first thread off the list before ending it changes nothing, since ending it takes it off anyway.\<close>

lemma terminate_popped:
  assumes inv: "sched_inv s" and p: "procs s p = Some pc" "p_threads pc = t # ts"
  defines "s' \<equiv> TerminateThread t (upd_proc p (\<lambda>pc. pc\<lparr>p_threads := ts\<rparr>) s)"
  shows "sched_inv s' \<and> procs s' = (procs s)(p \<mapsto> pc\<lparr>p_threads := ts\<rparr>) \<and> globalProcessList s' = globalProcessList s
    \<and> readyQueue s' = filter (\<lambda>x. x \<noteq> t) (readyQueue s) \<and> (\<forall>x q. live s' x q \<longleftrightarrow> x \<noteq> t \<and> live s x q)"
proof -
  define s1 where "s1 = upd_proc p (\<lambda>pc. pc\<lparr>p_threads := ts\<rparr>) s"
  have q: "queue_inv s" and i: "proc_inv s" using inv by (simp_all add: sched_inv_def)
  have d: "t \<notin> set ts" "remove1 t ts = ts" using proc_invD(4) [OF i p(1)] p(2) by (simp_all add: remove1_idem)
  have lv: "live s t p" using proc_invD(5) [OF i p(1), of t] p(2) by simp
  then have t: "t \<in> dom (threads s)" "t_parent (thread s t) = p" "t_state (thread s t) \<noteq> THREAD_STATE_TERMINATED" using live_dom by blast+
  have p0: "p \<noteq> null_ptr" using proc_invD(3) [OF i] p(1) by auto
  have ti: "t \<noteq> idleThread s" using live_parent_unique [OF lv, of null_ptr] proc_invD(7) [OF i] p0 by auto
  have t0: "t \<noteq> null_ptr" using queue_invD(10) [OF q] t(1) by auto
  have f1: "threads s1 = threads s" "procs s1 = (procs s)(p \<mapsto> pc\<lparr>p_threads := ts\<rparr>)" "globalProcessList s1 = globalProcessList s"
    "readyQueue s1 = readyQueue s" "blockedQueue s1 = blockedQueue s" "pendingReclaims s1 = pendingReclaims s"
    "currentThread s1 = currentThread s" "idleThread s1 = idleThread s"
    using p(1) by (simp_all add: s1_def upd_proc_def)
  have t1: "t \<in> dom (threads s1)" "t_state (thread s1 t) \<noteq> THREAD_STATE_TERMINATED" using t f1(1) by simp_all
  note g = TerminateThread_fields [OF t1(1) t0 t1(2)] and h = TerminateThread_fields [OF t(1) t0 t(3)]
  have s': "s' = TerminateThread t s1" by (simp add: s'_def s1_def)
  have pr: "procs s' = (procs s)(p \<mapsto> pc\<lparr>p_threads := ts\<rparr>)" "procs (TerminateThread t s) = procs s'"
    using g(10) h(10) t(2) p p0 d(2) by (simp_all add: s' f1 Let_def)
  have gl: "globalProcessList s' = globalProcessList s" using g(9) by (simp add: s' f1)
  have q': "queue_inv s'"
  proof -
    have "queue_inv s1" by (rule queue_inv_cong [OF q]) (simp_all add: f1)
    then show ?thesis unfolding s' using TerminateThread_queue_inv t1(1) ti f1(8) by simp
  qed
  have ls: "live s' x r \<longleftrightarrow> x \<noteq> t \<and> live s x r" for x r
    unfolding s' TerminateThread_live [OF t1(1) t0 t1(2)] by (simp add: live_def f1)
  have rq: "readyQueue s' = filter (\<lambda>x. x \<noteq> t) (readyQueue s)"
    using g(1) distinct_remove1_removeAll [OF queue_invD(5) [OF q], of t] by (simp add: s' f1 removeAll_filter_not_eq eq_commute)
  have "proc_inv s'"
    by (intro proc_inv_cong [OF TerminateThread_proc_inv [OF i t(1) t0 ti]])
      (use gl g(5) h(5,9) f1(8) pr(2) ls TerminateThread_live [OF t(1) t0 t(3)] in \<open>simp_all add: s'\<close>)
  with q' pr(1) gl rq ls show ?thesis by (simp add: sched_inv_def)
qed

lemma terminate_threads_inv:
  "sched_inv s \<Longrightarrow> procs s p = Some pc \<Longrightarrow>
   sched_inv (terminate_threads p (length (p_threads pc)) s)
   \<and> procs (terminate_threads p (length (p_threads pc)) s) = (procs s)(p \<mapsto> pc\<lparr>p_threads := []\<rparr>)
   \<and> globalProcessList (terminate_threads p (length (p_threads pc)) s) = globalProcessList s
   \<and> readyQueue (terminate_threads p (length (p_threads pc)) s) = filter (\<lambda>x. x \<notin> set (p_threads pc)) (readyQueue s)
   \<and> (\<forall>x q. live (terminate_threads p (length (p_threads pc)) s) x q \<longleftrightarrow> x \<notin> set (p_threads pc) \<and> live s x q)"
proof (induction "p_threads pc" arbitrary: s pc)
  case Nil
  from Nil(1) [symmetric] have "pc\<lparr>p_threads := []\<rparr> = pc" by simp
  with Nil(2,3) show ?case by (simp add: map_upd_triv Nil(1) [symmetric])
next
  case (Cons t ts)
  let ?s = "TerminateThread t (upd_proc p (\<lambda>pc. pc\<lparr>p_threads := ts\<rparr>) s)"
  note k = terminate_popped [OF Cons.prems Cons.hyps(2) [symmetric]]
  have "terminate_threads p (length (p_threads pc)) s = terminate_threads p (length ts) ?s"
    using Cons.prems(2) by (simp add: Cons.hyps(2) [symmetric])
  then show ?case using Cons.hyps(1) [of "pc\<lparr>p_threads := ts\<rparr>" ?s] k
    by (simp add: Cons.hyps(2) [symmetric]) (simp add: conj_commute conj_left_commute)
qed

lemma rotate_to_spec:
  assumes "rotate_to P n ps = (q, qs)"
  shows "set qs = set ps" "distinct qs = distinct ps" "q \<noteq> null_ptr \<Longrightarrow> q \<in> set ps \<and> P q"
proof -
  have "set qs = set ps \<and> distinct qs = distinct ps \<and> (q \<noteq> null_ptr \<longrightarrow> q \<in> set ps \<and> P q)"
    using assms by (induction P n ps rule: rotate_to.induct) (auto split: list.splits if_splits)
  then show "set qs = set ps" "distinct qs = distinct ps" "q \<noteq> null_ptr \<Longrightarrow> q \<in> set ps \<and> P q" by blast+
qed

lemma rotate_to_misses:
  "fst (rotate_to P (length xs) (xs @ ys)) = null_ptr \<Longrightarrow> null_ptr \<notin> set xs \<Longrightarrow> x \<in> set xs \<Longrightarrow> \<not> P x"
proof (induction xs arbitrary: ys)
  case (Cons z zs)
  then show ?case using Cons.IH [of "ys @ [z]"] by (auto split: if_splits)
qed simp

lemma reorder_processes_inv:
  assumes "sched_inv s" "set ps = set (globalProcessList s)" "distinct ps = distinct (globalProcessList s)"
  shows "sched_inv (s\<lparr>globalProcessList := ps\<rparr>)"
proof -
  have lv: "live (s\<lparr>globalProcessList := ps\<rparr>) = live s" by (simp add: live_def fun_eq_iff)
  have "queue_inv (s\<lparr>globalProcessList := ps\<rparr>)" by (rule queue_inv_cong [of s]) (use assms(1) in \<open>simp_all add: sched_inv_def\<close>)
  moreover have "proc_inv s" using assms(1) by (simp add: sched_inv_def)
  then have "proc_inv (s\<lparr>globalProcessList := ps\<rparr>)" unfolding proc_inv_def lv by (simp add: assms(2,3)) blast
  ultimately show ?thesis by (simp add: sched_inv_def)
qed

lemma drop_proc_inv:
  assumes inv: "sched_inv s" and p: "procs s p = Some pc" "p_threads pc = []"
  shows "sched_inv (s\<lparr>globalProcessList := remove1 p (globalProcessList s), procs := (procs s)(p := None)\<rparr>)" (is "sched_inv ?s")
proof -
  have q: "queue_inv s" and i: "proc_inv s" using inv by (simp_all add: sched_inv_def)
  have lv: "live ?s t r = live s t r" for t r by (simp add: live_def)
  have none: "\<not> live s t p" for t using proc_invD(5) [OF i p(1)] p(2) by auto
  have "queue_inv ?s" by (rule queue_inv_cong [OF q]) simp_all
  moreover have "proc_inv ?s"
    unfolding proc_inv_def lv
  proof (intro conjI allI impI)
    show "r \<in> dom (procs ?s)" if "live s t r \<and> r \<noteq> null_ptr" for t r
      using that none [of t] proc_invD(6) [OF i, of t r] by (cases "r = p") auto
    show "distinct (p_threads pc')" if "procs ?s r = Some pc'" for r pc'
      using that proc_invD(4) [OF i, of r pc'] by (simp split: if_splits)
    show "t \<in> set (p_threads pc') \<longleftrightarrow> live s t r" if "procs ?s r = Some pc'" for r pc' t
      using that proc_invD(5) [OF i, of r pc'] by (simp split: if_splits)
  qed (use proc_invD(1-3,7) [OF i] in \<open>auto simp: set_remove1_eq\<close>)
  ultimately show ?thesis by (simp add: sched_inv_def)
qed

text \<open>A killed process is off the process list, its control block is gone, and no live thread is left of it.\<close>

definition killed :: "u32 \<Rightarrow> sched \<Rightarrow> bool" where
  "killed p s \<longleftrightarrow> p \<notin> dom (procs s) \<and> p \<notin> set (globalProcessList s) \<and> (\<forall>t. \<not> live s t p)"

lemma no_proc_killed: "sched_inv s \<Longrightarrow> p \<notin> dom (procs s) \<Longrightarrow> p \<noteq> null_ptr \<Longrightarrow> killed p s"
  unfolding killed_def sched_inv_def by (metis proc_invD(2,6))

lemma KillProcess_spec:
  assumes inv: "sched_inv s" and k: "KillProcess pid s = (b, s')"
  shows "sched_inv s' \<and> (\<exists>A. readyQueue s' = filter (\<lambda>x. x \<notin> A) (readyQueue s) \<and> (\<forall>x \<in> A. \<forall>q. \<not> live s' x q))
    \<and> (b \<longleftrightarrow> (\<exists>p \<in> set (globalProcessList s). p_pid (proc s p) = pid))
    \<and> (b \<longrightarrow> (\<exists>p \<in> set (globalProcessList s). p_pid (proc s p) = pid \<and> killed p s' \<and> (\<forall>x q. live s' x q \<longleftrightarrow> live s x q \<and> q \<noteq> p)))"
proof -
  obtain p ps where r: "rotate_to (\<lambda>p. p_pid (proc s p) = pid) (length (globalProcessList s)) (globalProcessList s) = (p, ps)" by fastforce
  note rs = rotate_to_spec [OF r]
  define s0 where "s0 = s\<lparr>globalProcessList := ps\<rparr>"
  have i0: "sched_inv s0" unfolding s0_def by (rule reorder_processes_inv [OF inv rs(1,2)])
  show ?thesis
  proof (cases "p = null_ptr")
    case True
    then have "\<not> (\<exists>p \<in> set (globalProcessList s). p_pid (proc s p) = pid)" "\<not> b"
      using rotate_to_misses [of "\<lambda>p. p_pid (proc s p) = pid" "globalProcessList s" "[]"] inv proc_invD(2,3) k
      by (auto simp: r sched_inv_def KillProcess_def)
    then show ?thesis using True k i0 by (auto simp: KillProcess_def r s0_def intro!: exI [of _ "{}"])
  next
    case False
    then have p: "p \<in> set (globalProcessList s)" "p_pid (proc s p) = pid" using rs(3) by blast+
    then obtain pc where pc: "procs s p = Some pc" using inv proc_invD(2) by (auto simp: sched_inv_def)
    define s1 where "s1 = (if page_directory pc = vm_cr3 (vm s) then s0\<lparr>vm := SwitchDirectory (vm s) (vm_kernel_dir (vm s))\<rparr> else s0)"
    have pc1: "procs s1 p = Some pc" "sched_inv s1" "readyQueue s1 = readyQueue s"
      using pc i0 view_sched_inv [of s1 s0] by (simp_all add: s1_def s0_def view_def)
    define s2 where "s2 = terminate_threads p (length (p_threads pc)) s1"
    have i2: "sched_inv s2" "procs s2 p = Some (pc\<lparr>p_threads := []\<rparr>)" and rq: "readyQueue s2 = filter (\<lambda>x. x \<notin> set (p_threads pc)) (readyQueue s)"
      and lv: "\<And>x q. live s2 x q \<longleftrightarrow> x \<notin> set (p_threads pc) \<and> live s1 x q"
      using terminate_threads_inv [OF pc1(2,1)] pc1(3) by (simp_all add: s2_def)
    have l1: "live s1 = live s" by (simp add: live_def fun_eq_iff s1_def s0_def)
    have "proc_inv s" using inv by (simp add: sched_inv_def)
    note mem = proc_invD(5) [OF this pc]
    have l2: "live s2 x q \<longleftrightarrow> live s x q \<and> q \<noteq> p" for x q
      using lv [of x q] mem [of x] live_parent_unique [of s x p q] unfolding l1 by blast
    have dead: "\<forall>x \<in> set (p_threads pc). \<forall>q. \<not> live s2 x q" using lv by blast
    have v: "b" "view s' = view (s2\<lparr>globalProcessList := remove1 p (globalProcessList s2), procs := (procs s2)(p := None)\<rparr>)"
      using k False pc pc1(1) unfolding KillProcess_def r by (auto simp: Let_def view_def s0_def s1_def s2_def)
    then have "live s' = live s2" "readyQueue s' = readyQueue s2" "p \<notin> dom (procs s')" by (simp_all add: view_def live_def fun_eq_iff domIff)
    moreover have "sched_inv s'" using view_sched_inv [OF v(2)] drop_proc_inv [OF i2] by simp
    ultimately have "killed p s'" "sched_inv s'" "\<And>x q. live s' x q \<longleftrightarrow> live s x q \<and> q \<noteq> p"
      "readyQueue s' = filter (\<lambda>x. x \<notin> set (p_threads pc)) (readyQueue s) \<and> (\<forall>x \<in> set (p_threads pc). \<forall>q. \<not> live s' x q)"
      using False no_proc_killed rq dead l2 by auto
    with v(1) p show ?thesis by blast
  qed
qed

subsection \<open>Every state of the scheduler\<close>

lemma Sleep_inv:
  assumes inv: "sched_inv s" and c: "t_state (thread s (currentThread s)) \<in> {THREAD_STATE_RUNNING, THREAD_STATE_BLOCKED}"
    "currentThread s \<noteq> idleThread s" "currentThread s \<noteq> null_ptr"
  shows "sched_inv (Sleep ms s)"
proof -
  have q: "queue_inv s" and i: "proc_inv s" using inv by (simp_all add: sched_inv_def)
  note d = in_state_thread [OF queue_invD(8) [OF q c(3)]]
  have "queue_inv (Sleep ms s)"
  proof (cases "t_state (thread s (currentThread s)) = THREAD_STATE_RUNNING")
    case True
    with d have "in_state s THREAD_STATE_RUNNING (currentThread s)" by simp
    then show ?thesis using Sleep_queue_inv [OF q] c(2) by blast
  next
    case False
    then have st: "t_state (thread s (currentThread s)) = THREAD_STATE_BLOCKED" using c(1) by simp
    show ?thesis
    proof (rule queue_inv_cong [OF q])
      show "map_option t_state (threads (Sleep ms s) t) = map_option t_state (threads s t)" for t
        using queue_invD(8) [OF q c(3)] st by (auto simp: Sleep_def upd_thread_def)
    qed (simp_all add: Sleep_def)
  qed
  then show ?thesis using Sleep_proc_inv [OF i q] by (simp add: sched_inv_def)
qed

lemma CreateThread_procs:
  assumes "sched_inv s" "fresh_objects newP newT" "p \<in> dom (procs s)" "CreateThread newT p ep arg s = (null_ptr, s')"
  shows "view s' = view s"
proof (cases "newT s = null_ptr")
  case False
  have "p \<noteq> null_ptr" using assms(1,3) proc_invD(3) by (auto simp: sched_inv_def)
  from CreateThread_view [OF freshD(1) [OF assms(2) False] this assms(4)] show ?thesis by simp
qed (use assms(4) in \<open>simp add: CreateThread_def\<close>)

lemma StartProcess_inv:
  assumes inv: "sched_inv s" and fr: "fresh_objects newP newT" and p: "p \<in> dom (procs s)"
  shows "sched_inv (snd (StartProcess newT p arg s))"
proof -
  obtain t s1 where c: "CreateThread newT p (mainEntry (proc s p)) arg s = (t, s1)" by fastforce
  have "sched_inv s1" using CreateThread_inv [OF inv fr p, of "mainEntry (proc s p)" arg] by (simp add: c)
  moreover from this have "sched_inv (snd (KillProcess k s1))" for k using KillProcess_spec [of s1 k] by (cases "KillProcess k s1") simp
  ultimately show ?thesis using inv by (simp add: StartProcess_def c)
qed

lemma ExitCurrentThread_inv:
  assumes "sched_inv s" "currentThread s \<noteq> idleThread s"
  shows "sched_inv (snd (ExitCurrentThread s))"
proof -
  have "sched_inv (snd (KillProcess k s))" for k using KillProcess_spec [OF assms(1), of k] by (cases "KillProcess k s") simp
  moreover have "currentThread s \<noteq> null_ptr \<Longrightarrow> sched_inv (TerminateThread (currentThread s) s)"
    using TerminateThread_inv [OF assms(1)] assms queue_invD(8) by (simp add: sched_inv_def)
  ultimately show ?thesis using assms(1) by (simp add: ExitCurrentThread_def Let_def)
qed

text \<open>The state after the constructor, on a machine that has no thread and no process yet.\<close>

lemma Scheduler_inv:
  assumes e: "threads s = Map.empty" "procs s = Map.empty" and c: "Scheduler newT s = Some s'"
  shows "sched_inv s'"
proof -
  obtain tp f where a: "pmm_alloc_block_low (vm_frames (vm s)) LOW_LIMIT = (tp, f)" by fastforce
  define s1 where "s1 = s\<lparr>globalProcessList := [], readyQueue := [], blockedQueue := [], terminatedQueue := [],
                pendingReclaims := [], pidCounter := 0, tidCounter := 0, currentThread := null_ptr\<rparr>
     \<lparr>trampolinePhys := tp, vm := (vm s)\<lparr>vm_frames := f, vm_mem := trampoline_code tp (vm_mem (vm s))\<rparr>\<rparr>"
  obtain t s2 where ct: "CreateThread newT null_ptr (idleTask s) null_ptr s1 = (t, s2)" by fastforce
  have t: "t \<noteq> null_ptr" "s' = s2\<lparr>idleThread := t\<rparr>"
    using c ct unfolding Scheduler_def by (auto simp: a s1_def Let_def split: if_splits)
  obtain b s3 where st: "start_tcb (newT s1) null_ptr s1 = (b, s3)" by fastforce
  have b: b "t = newT s1" "view s2 = view s3"
    using ct t(1) st by (cases b; auto simp: CreateThread_def Let_def view_outside split: if_splits)+
  obtain tc where tc: "t_parent tc = null_ptr" "t_state tc = THREAD_STATE_NEW" "view s3 = view (s1\<lparr>threads := (threads s1)(t \<mapsto> tc)\<rparr>)"
    using start_tcb_view(2) [of t null_ptr s1 s3] st b by auto
  have v: "threads s' = [t \<mapsto> tc]" "procs s' = Map.empty" "globalProcessList s' = []" "readyQueue s' = []" "blockedQueue s' = []"
    "pendingReclaims s' = []" "currentThread s' = null_ptr" "idleThread s' = t"
    using tc(3) b(3) e by (simp_all add: view_def t(2) s1_def)
  have "queue_inv s'" unfolding queue_inv_def using v tc t(1) by (auto simp: in_state_def placed_def split: if_splits)
  moreover have "proc_inv s'" unfolding proc_inv_def using v tc by (auto simp: live_def split: if_splits)
  ultimately show ?thesis by (simp add: sched_inv_def)
qed

text \<open>
  What the kernel does with its scheduler: timer ticks, switches, and the calls of threads and
  interrupt handlers. The guards are the callers' obligations: a thread sleeps or exits only while it
  executes (the idle thread does neither), and addresses handed in are those of existing objects.
\<close>

inductive sched_call :: "(sched \<Rightarrow> u32) \<Rightarrow> (sched \<Rightarrow> u32) \<Rightarrow> sched \<Rightarrow> sched \<Rightarrow> bool" for newP newT where
  tick: "sched_call newP newT s (s\<lparr>timerTicks := timerTicks s + 1\<rparr>)"
| sleep: "t_state (thread s (currentThread s)) \<in> {THREAD_STATE_RUNNING, THREAD_STATE_BLOCKED} \<Longrightarrow> currentThread s \<noteq> idleThread s
    \<Longrightarrow> currentThread s \<noteq> null_ptr \<Longrightarrow> sched_call newP newT s (Sleep ms s)"
| wake: "t \<in> dom (threads s) \<Longrightarrow> sched_call newP newT s (WakeThread t s)"
| terminate: "t \<in> dom (threads s) \<Longrightarrow> t \<noteq> idleThread s \<Longrightarrow> sched_call newP newT s (TerminateThread t s)"
| exit: "currentThread s \<noteq> idleThread s \<Longrightarrow> sched_call newP newT s (snd (ExitCurrentThread s))"
| kill: "sched_call newP newT s (snd (KillProcess pid s))"
| create_thread: "p \<in> dom (procs s) \<Longrightarrow> sched_call newP newT s (snd (CreateThread newT p ep arg s))"
| create_process: "CreateProcess newP newT k ep arg main s = Some (p, s') \<Longrightarrow> sched_call newP newT s s'"
| start_process: "p \<in> dom (procs s) \<Longrightarrow> sched_call newP newT s (snd (StartProcess newT p arg s))"
| clone_thread: "sched_call newP newT s (snd (CloneCurrentThread newT pctx fl stk ptid ctid s))"
| clone_process: "sched_call newP newT s (snd (CloneCurrentProcess newP newT pctx fl stk ptid ctid s))"

text \<open>A switch is the timer interrupt's call of \<^verbatim>\<open>Schedule\<close>; everything else is a call.\<close>

inductive sched_step :: "(sched \<Rightarrow> u32) \<Rightarrow> (sched \<Rightarrow> u32) \<Rightarrow> sched \<Rightarrow> sched \<Rightarrow> bool" for newP newT where
  call: "sched_call newP newT s s' \<Longrightarrow> sched_step newP newT s s'"
| schedule: "sched_step newP newT s (snd (Schedule ctx s))"

inductive sched_reachable :: "(sched \<Rightarrow> u32) \<Rightarrow> (sched \<Rightarrow> u32) \<Rightarrow> sched \<Rightarrow> bool" for newP newT where
  start: "threads s = Map.empty \<Longrightarrow> procs s = Map.empty \<Longrightarrow> Scheduler newT s = Some s' \<Longrightarrow> sched_reachable newP newT s'"
| step: "sched_reachable newP newT s \<Longrightarrow> sched_step newP newT s s' \<Longrightarrow> sched_reachable newP newT s'"

lemma sched_call_inv:
  assumes "sched_call newP newT s s'" "fresh_objects newP newT" "sched_inv s"
  shows "sched_inv s'"
  using assms
proof (induction rule: sched_call.induct)
  case (tick s)
  then show ?case using view_sched_inv [of "s\<lparr>timerTicks := timerTicks s + 1\<rparr>" s] by (simp add: view_def)
next
  case (wake t s)
  then show ?case by (simp add: sched_inv_def WakeThread_queue_inv WakeThread_proc_inv)
next
  case (kill s pid)
  then show ?case using KillProcess_spec [of s pid] by (cases "KillProcess pid s") simp
next
  case (sleep s ms)
  then show ?case by (intro Sleep_inv)
next
  case (terminate t s)
  then show ?case by (intro TerminateThread_inv)
next
  case (exit s)
  then show ?case by (intro ExitCurrentThread_inv)
next
  case (create_thread p s ep arg)
  then show ?case by (intro CreateThread_inv)
next
  case (create_process k ep arg main s p s')
  show ?case by (rule CreateProcess_inv [OF create_process(3,2,1)])
next
  case (start_process p s arg)
  then show ?case by (intro StartProcess_inv)
next
  case (clone_thread s pctx fl stk ptid ctid)
  then show ?case by (intro CloneCurrentThread_inv)
next
  case (clone_process s pctx fl stk ptid ctid)
  then show ?case by (intro CloneCurrentProcess_inv)
qed

lemma Schedule_inv: "sched_inv s \<Longrightarrow> sched_inv (snd (Schedule ctx s))"
  by (simp add: sched_inv_def Schedule_queue_inv Schedule_proc_inv)

lemma sched_step_inv:
  assumes "sched_step newP newT s s'" "fresh_objects newP newT" "sched_inv s"
  shows "sched_inv s'"
  using assms by cases (simp_all add: sched_call_inv Schedule_inv)

lemma sched_reachable_inv:
  assumes "fresh_objects newP newT" "sched_reachable newP newT s"
  shows "sched_inv s"
  using assms(2,1) by (induction rule: sched_reachable.induct) (blast intro: Scheduler_inv sched_step_inv)+

end
