(* ===== verification/Sched_Fair.thy ===== *)
theory Sched_Fair
  imports Sched_Proc
begin

text \<open>
  Order and time in the scheduler: the ready queue is first in, first out, a waiting thread is passed
  over at most as often as there are threads ahead of it, and a sleeper is woken by the first switch
  after its time and not before. The last section evaluates the properties on a small machine.
\<close>

subsection \<open>The scan of the blocked queue\<close>

definition expired :: "sched \<Rightarrow> u32 \<Rightarrow> bool" where
  "expired s t \<longleftrightarrow> ucast (wakeTime (thread s t)) \<le> timerTicks s"

definition woken :: "tcb \<Rightarrow> tcb" where
  "woken tc = tc\<lparr>t_state := THREAD_STATE_READY, wakeTime := 0\<rparr>"

text \<open>One pass over the blocked queue wakes the expired threads in order and keeps the others in order.\<close>

lemma wake_expired_scan:
  assumes "blockedQueue s = xs @ ys" "distinct xs" "\<And>t. t \<in> set xs \<Longrightarrow> in_state s THREAD_STATE_BLOCKED t"
  defines "s' \<equiv> wake_expired (length xs) s"
  shows "blockedQueue s' = ys @ filter (\<lambda>t. \<not> expired s t) xs \<and> readyQueue s' = readyQueue s @ filter (expired s) xs
    \<and> threads s' = (\<lambda>t. if t \<in> set xs \<and> expired s t then map_option woken (threads s t) else threads s t)"
  using assms(1-3) unfolding s'_def
proof (induction xs arbitrary: s ys)
  case (Cons t xs)
  have b: "t_state (thread s t) = THREAD_STATE_BLOCKED" "t \<in> dom (threads s)" using Cons.prems(3) [of t] in_state_eq by auto
  then obtain tc where tc: "threads s t = Some tc" by blast
  show ?case
  proof (cases "expired s t")
    case True
    define s1 where "s1 = s\<lparr>blockedQueue := xs @ ys, threads := (threads s)(t \<mapsto> woken tc), readyQueue := readyQueue s @ [t]\<rparr>"
    have eq: "wake_expired (length (t # xs)) s = wake_expired (length xs) s1"
      using Cons.prems(1) b True tc by (simp add: Let_def s1_def upd_thread_def woken_def expired_def)
    have e: "expired s1 x = expired s x" "in_state s1 THREAD_STATE_BLOCKED x" if "x \<in> set xs" for x
      using Cons.prems(2,3) that by (auto simp: expired_def s1_def in_state_def)
    have fi: "filter (expired s1) xs = filter (expired s) xs" "filter (\<lambda>t. \<not> expired s1 t) xs = filter (\<lambda>t. \<not> expired s t) xs"
      using e(1) by (auto cong: filter_cong)
    have "threads (wake_expired (length xs) s1) = (\<lambda>x. if x \<in> set xs \<and> expired s1 x then map_option woken (threads s1 x) else threads s1 x)"
      using Cons.IH [of s1 ys] Cons.prems e by (simp add: s1_def)
    also have "\<dots> = (\<lambda>x. if x \<in> set (t # xs) \<and> expired s x then map_option woken (threads s x) else threads s x)"
      using e(1) True tc Cons.prems(2) by (auto simp: s1_def fun_eq_iff)
    finally show ?thesis using Cons.IH [of s1 ys] Cons.prems e(2) True unfolding eq fi by (simp add: s1_def)
  next
    case False
    define s1 where "s1 = s\<lparr>blockedQueue := xs @ (ys @ [t])\<rparr>"
    have eq: "wake_expired (length (t # xs)) s = wake_expired (length xs) s1"
      using Cons.prems(1) b False by (simp add: Let_def s1_def expired_def)
    have e: "expired s1 = expired s" by (simp add: expired_def s1_def fun_eq_iff)
    have "in_state s1 THREAD_STATE_BLOCKED x" if "x \<in> set xs" for x using Cons.prems(3) that by (simp add: s1_def in_state_def)
    then show ?thesis using Cons.IH [of s1 "ys @ [t]"] Cons.prems(2) False unfolding eq e by (auto simp: s1_def fun_eq_iff)
  qed
qed (simp add: fun_eq_iff)

lemma wake_expired_all:
  assumes "queue_inv s"
  shows "blockedQueue (wake_expired (length (blockedQueue s)) s) = filter (\<lambda>t. \<not> expired s t) (blockedQueue s)"
    and "readyQueue (wake_expired (length (blockedQueue s)) s) = readyQueue s @ filter (expired s) (blockedQueue s)"
    and "threads (wake_expired (length (blockedQueue s)) s) t
      = (if t \<in> set (blockedQueue s) \<and> expired s t then map_option woken (threads s t) else threads s t)"
  using wake_expired_scan [of s "blockedQueue s" "[]"] queue_invD(3,6) [OF assms] by auto

subsection \<open>What one switch does\<close>

lemma dispatch_fields:
  "blockedQueue (dispatch s) = blockedQueue s" "pendingReclaims (dispatch s) = pendingReclaims s" "timerTicks (dispatch s) = timerTicks s"
  "readyQueue (dispatch s) = tl (readyQueue s)"
  "currentThread (dispatch s) = (case readyQueue s of [] \<Rightarrow> idleThread s | t # _ \<Rightarrow> t)"
  "threads (dispatch s) = (let t = currentThread (dispatch s) in (threads s)(t \<mapsto> (thread s t)\<lparr>t_state := THREAD_STATE_RUNNING\<rparr>))"
  by (cases "readyQueue s"; simp add: dispatch_def Let_def upd_thread_def)+

lemma park_current_fields:
  "timerTicks (park_current ctx s) = timerTicks s" "idleThread (park_current ctx s) = idleThread s"
  "pendingReclaims (park_current ctx s) = pendingReclaims s"
  "readyQueue (park_current ctx s) = readyQueue s @ (if currentThread s \<noteq> null_ptr \<and> currentThread s \<noteq> idleThread s
     \<and> t_state (thread s (currentThread s)) = THREAD_STATE_RUNNING then [currentThread s] else [])"
  "blockedQueue (park_current ctx s) = blockedQueue s @ (if currentThread s \<noteq> null_ptr
     \<and> t_state (thread s (currentThread s)) = THREAD_STATE_BLOCKED then [currentThread s] else [])"
  by (auto simp: park_current_def Let_def)

text \<open>The ready queue is first in, first out: a switch takes its head and appends what became ready.\<close>

lemma Schedule_fifo:
  assumes q: "queue_inv s" and r: "readyQueue s = t # ts"
  shows "currentThread (snd (Schedule ctx s)) = t \<and> (\<exists>zs. readyQueue (snd (Schedule ctx s)) = ts @ zs)"
proof -
  define s1 where "s1 = park_current ctx s"
  define s2 where "s2 = wake_expired (length (blockedQueue s1)) s1"
  have "queue_inv (s1\<lparr>currentThread := null_ptr\<rparr>)" unfolding s1_def by (rule park_current_inv [OF q])
  from wake_expired_all(2) [OF this] have "\<exists>zs. readyQueue s2 = readyQueue s1 @ zs" by (simp add: wake_expired_current s2_def)
  then obtain zs where "readyQueue s2 = t # ts @ zs" using r park_current_fields(4) [of ctx s] by (auto simp: s1_def)
  then show ?thesis by (auto simp: Schedule_def Let_def s1_def [symmetric] s2_def [symmetric] DrainPendingReclaims_def drain_fields dispatch_fields)
qed

lemma dispatch_current: "dispatch (s\<lparr>currentThread := c\<rparr>) = dispatch s"
  by (cases "readyQueue s") (simp_all add: dispatch_def Let_def upd_thread_def)

text \<open>A switch treats every blocked thread by its time: an expired one becomes ready, or runs at once.\<close>

lemma Schedule_blocked:
  fixes ctx :: u32
  assumes inv: "queue_inv s" and t: "in_state s THREAD_STATE_BLOCKED t"
  defines "s' \<equiv> snd (Schedule ctx s)"
  shows "if expired s t
    then wakeTime (thread s' t) = 0 \<and> (in_state s' THREAD_STATE_READY t \<and> t \<in> set (readyQueue s') \<or> in_state s' THREAD_STATE_RUNNING t \<and> t = currentThread s')
    else in_state s' THREAD_STATE_BLOCKED t \<and> t \<in> set (blockedQueue s') \<and> wakeTime (thread s' t) = wakeTime (thread s t) \<and> t \<noteq> currentThread s'"
proof -
  define s1 where "s1 = (park_current ctx s)\<lparr>currentThread := null_ptr\<rparr>"
  define s2 where "s2 = wake_expired (length (blockedQueue s1)) s1"
  have q1: "queue_inv s1" unfolding s1_def by (rule park_current_inv [OF inv])
  have q2: "queue_inv s2" unfolding s2_def by (rule wake_expired_inv [OF q1])
  note w = wake_expired_all [OF q1, folded s2_def]
  obtain tc where tc: "threads s t = Some tc" "t_state tc = THREAD_STATE_BLOCKED" using t by (auto simp: in_state_def)
  have pl: "placed s t THREAD_STATE_BLOCKED" by (rule queue_invD(1) [OF inv t])
  have t0: "t \<noteq> null_ptr" using queue_invD(10) [OF inv] tc by auto
  obtain c where th1: "threads s1 t = Some (tc\<lparr>cpu_context := c\<rparr>)"
  proof (cases "t = currentThread s")
    case True
    then have "threads s1 t = Some (tc\<lparr>cpu_context := ctx\<rparr>)" using tc t0 by (auto simp: s1_def park_current_def Let_def upd_thread_def)
    then show ?thesis by (rule that)
  next
    case False
    then have "threads s1 t = Some (tc\<lparr>cpu_context := cpu_context tc\<rparr>)" using tc by (auto simp: s1_def park_current_def Let_def upd_thread_def)
    then show ?thesis by (rule that)
  qed
  then have b1: "in_state s1 THREAD_STATE_BLOCKED t" using tc by (simp add: in_state_def)
  then have m: "t \<in> set (blockedQueue s1)" using queue_invD(1) [OF q1 b1] t0 by (auto simp: placed_def s1_def)
  have e: "expired s1 t = expired s t" using tc th1 by (simp add: expired_def s1_def park_current_fields)
  have sch: "s' = DrainPendingReclaims (dispatch s2)"
    unfolding s'_def s2_def s1_def by (simp add: Schedule_def Let_def wake_expired_current dispatch_current)
  have th2: "threads s2 t = Some (if expired s t then woken (tc\<lparr>cpu_context := c\<rparr>) else tc\<lparr>cpu_context := c\<rparr>)"
    using w(3) [of t] m th1 e by simp
  define r where "r = currentThread s'"
  have r: "r = currentThread (dispatch s2)" by (simp add: r_def sch DrainPendingReclaims_def drain_fields)
  have np: "t \<notin> set (pendingReclaims s2)" using queue_invD(4) [OF q2, of t] th2 tc by (auto simp: in_state_def woken_def split: if_splits)
  have th': "threads s' t = (if t = r then Some ((the (threads s2 t))\<lparr>t_state := THREAD_STATE_RUNNING\<rparr>) else threads s2 t)"
    using np by (simp add: sch DrainPendingReclaims_def drain_fields dispatch_fields(2,6) Let_def r)
  have q': "readyQueue s' = tl (readyQueue s2)" "blockedQueue s' = blockedQueue s2"
    by (simp_all add: sch DrainPendingReclaims_def drain_fields dispatch_fields)
  have ti: "t \<noteq> idleThread s2" using idle_not_queued(2) [OF q1] m by (auto simp: s2_def wake_expired_fields)
  show ?thesis
  proof (cases "expired s t")
    case True
    have "t \<in> set (readyQueue s2)" using m True e by (simp add: w(2))
    then have "t = r \<or> t \<in> set (readyQueue s')" unfolding q' r dispatch_fields(5) by (cases "readyQueue s2") auto
    then show ?thesis using True th' th2 by (auto simp: in_state_def woken_def r_def)
  next
    case False
    have b2: "in_state s2 THREAD_STATE_BLOCKED t" using th2 False tc by (simp add: in_state_def)
    then have "t \<notin> set (readyQueue s2)" using queue_invD(2) [OF q2] in_state_unique by blast
    then have "t \<noteq> r" unfolding r dispatch_fields(5) using ti by (cases "readyQueue s2") auto
    then show ?thesis using False th' th2 tc m e by (simp add: in_state_def r_def q' w(1))
  qed
qed

subsection \<open>Calls keep the order of the ready queue\<close>

text \<open>A call takes threads that it ends off the ready queue, and appends the threads that it makes ready.\<close>

definition ended :: "sched \<Rightarrow> u32 \<Rightarrow> bool" where
  "ended s t \<longleftrightarrow> (\<forall>p. \<not> live s t p)"

definition keeps_order :: "sched \<Rightarrow> sched \<Rightarrow> bool" where
  "keeps_order s s' \<longleftrightarrow> (\<exists>A zs. readyQueue s' = filter (\<lambda>x. x \<notin> A) (readyQueue s) @ zs \<and> (\<forall>x \<in> A. ended s' x))"

lemma keeps_orderI: "readyQueue s' = readyQueue s @ zs \<Longrightarrow> keeps_order s s'"
  unfolding keeps_order_def by (rule exI [of _ "{}"]) simp

lemma AllocUserStack_ready: "readyQueue (snd (AllocUserStack t pd s)) = readyQueue s"
  by (simp add: AllocUserStack_def delete_thread_def upd_thread_def Let_def split: option.split prod.split)

lemma start_tcb_ready: "readyQueue (snd (start_tcb t p s)) = readyQueue s"
  by (simp add: start_tcb_def Let_def split: prod.split)

lemma make_ready_ready: "readyQueue (make_ready p t s) = readyQueue s @ [t]"
  by (simp add: make_ready_def Let_def upd_proc_def)

lemma report_tid_ready: "readyQueue (report_tid fl b a pd t s) = readyQueue s" "readyQueue (set_context t c s) = readyQueue s"
  by (simp_all add: report_tid_def set_context_def)

lemma clone_stack_ready: "readyQueue (snd (clone_stack t pd st c s)) = readyQueue s"
  using AllocUserStack_ready [of t pd s]
  by (cases "AllocUserStack t pd s"; cases "fst (AllocUserStack t pd s)") (auto simp: clone_stack_def set_context_def)

lemma CreateThread_ready: "\<exists>zs. readyQueue (snd (CreateThread newT p ep arg s)) = readyQueue s @ zs"
proof -
  obtain b s1 where st: "start_tcb (newT s) p s = (b, s1)" by fastforce
  obtain a s2 where al: "AllocUserStack (newT s) (page_directory (proc s1 p)) s1 = (a, s2)" by fastforce
  have "readyQueue s1 = readyQueue s" "readyQueue s2 = readyQueue s1"
    using start_tcb_ready [of "newT s" p s] AllocUserStack_ready [of "newT s" "page_directory (proc s1 p)" s1] by (simp_all add: st al)
  then show ?thesis by (cases b; cases a) (auto simp: CreateThread_def Let_def st al make_ready_ready report_tid_ready)
qed

lemma CreateProcess_ready: "CreateProcess newP newT k ep arg main s = Some (p, s') \<Longrightarrow> \<exists>zs. readyQueue s' = readyQueue s @ zs"
proof -
  assume c: "CreateProcess newP newT k ep arg main s = Some (p, s')"
  have ct: "\<exists>zs. readyQueue s2 = readyQueue s1 @ zs" if "CreateThread newT q ep arg s1 = (t, s2)" for q s1 t s2
    using CreateThread_ready [of newT q ep arg s1] that by simp
  show ?thesis using c by (auto simp: CreateProcess_def Let_def split: prod.splits if_splits dest!: ct)
qed

lemma CloneCurrentThread_ready: "\<exists>zs. readyQueue (snd (CloneCurrentThread newT pctx fl stk ptid ctid s)) = readyQueue s @ zs"
proof -
  have st: "readyQueue s1 = readyQueue s" if "start_tcb t p s = (b, s1)" for t p b s1 using start_tcb_ready [of t p s] that by simp
  have cl: "readyQueue s2 = readyQueue s1" if "clone_stack t pd k c s1 = (b, s2)" for t pd k c s1 b s2
    using clone_stack_ready [of t pd k c s1] that by simp
  show ?thesis
    by (auto simp: CloneCurrentThread_def Let_def make_ready_ready report_tid_ready split: prod.split bool.split dest!: st cl)
qed

lemma CloneCurrentProcess_ready: "\<exists>zs. readyQueue (snd (CloneCurrentProcess newP newT pctx fl stk ptid ctid s)) = readyQueue s @ zs"
proof -
  have st: "readyQueue s1 = readyQueue s0" if "start_tcb t p s0 = (b, s1)" for t p b s0 s1 using start_tcb_ready [of t p s0] that by simp
  have cl: "readyQueue s2 = readyQueue s1" if "clone_stack t pd k c s1 = (b, s2)" for t pd k c s1 b s2
    using clone_stack_ready [of t pd k c s1] that by simp
  show ?thesis
    by (auto simp: CloneCurrentProcess_def Let_def make_ready_ready report_tid_ready simp del: upt_rec_numeral
        split: prod.split bool.split dest!: st cl)
qed

lemma TerminateThread_order:
  assumes inv: "sched_inv s" and t: "t \<in> dom (threads s)"
  shows "keeps_order s (TerminateThread t s)"
proof (cases "t_state (thread s t) = THREAD_STATE_TERMINATED")
  case True
  then show ?thesis by (intro keeps_orderI [where zs = "[]"]) (simp add: TerminateThread_def)
next
  case False
  have q: "queue_inv s" using inv by (simp add: sched_inv_def)
  then have t0: "t \<noteq> null_ptr" using t queue_invD(10) by auto
  have "readyQueue (TerminateThread t s) = filter (\<lambda>x. x \<notin> {t}) (readyQueue s)"
    using TerminateThread_fields(1) [OF t t0 False] distinct_remove1_removeAll [OF queue_invD(5) [OF q], of t]
    by (simp add: removeAll_filter_not_eq eq_commute)
  moreover have "ended (TerminateThread t s) t" by (simp add: ended_def TerminateThread_live [OF t t0 False])
  ultimately show ?thesis unfolding keeps_order_def by (intro exI [of _ "{t}"] exI [of _ "[]"]) simp
qed

lemma KillProcess_order:
  assumes "sched_inv s"
  shows "keeps_order s (snd (KillProcess pid s))"
proof -
  obtain b s' where k: "KillProcess pid s = (b, s')" by fastforce
  obtain A where "readyQueue s' = filter (\<lambda>x. x \<notin> A) (readyQueue s)" "\<forall>x \<in> A. \<forall>q. \<not> live s' x q"
    using KillProcess_spec [OF assms k] by blast
  then show ?thesis unfolding keeps_order_def ended_def k by (intro exI [of _ A] exI [of _ "[]"]) simp
qed

lemma StartProcess_order:
  assumes inv: "sched_inv s" and fr: "fresh_objects newP newT" and p: "p \<in> dom (procs s)"
  shows "keeps_order s (snd (StartProcess newT p arg s))"
proof -
  obtain t s1 where c: "CreateThread newT p (mainEntry (proc s p)) arg s = (t, s1)" by fastforce
  have i1: "sched_inv s1" using CreateThread_inv [OF inv fr p, of "mainEntry (proc s p)" arg] by (simp add: c)
  consider "p = null_ptr \<or> mainEntry (proc s p) = null_ptr" | "p \<noteq> null_ptr" "mainEntry (proc s p) \<noteq> null_ptr" "t \<noteq> null_ptr"
    | "p \<noteq> null_ptr" "mainEntry (proc s p) \<noteq> null_ptr" "t = null_ptr" by blast
  then show ?thesis
  proof cases
    case 1
    then show ?thesis by (intro keeps_orderI [where zs = "[]"]) (auto simp: StartProcess_def)
  next
    case 2
    then show ?thesis using CreateThread_ready [of newT p "mainEntry (proc s p)" arg s] by (auto simp: StartProcess_def c intro: keeps_orderI)
  next
    case 3
    then have "readyQueue s1 = readyQueue s" using CreateThread_procs [OF inv fr p, of "mainEntry (proc s p)" arg s1] c by (simp add: view_def)
    then show ?thesis using 3 KillProcess_order [OF i1] by (simp add: StartProcess_def c keeps_order_def)
  qed
qed

lemma sched_call_order:
  assumes "sched_call newP newT s s'" "fresh_objects newP newT" "sched_inv s"
  shows "keeps_order s s'"
  using assms
proof cases
  case tick
  then show ?thesis by (intro keeps_orderI [where zs = "[]"]) simp
next
  case sleep
  then show ?thesis by (intro keeps_orderI [where zs = "[]"]) (simp add: Sleep_def)
next
  case (wake t)
  then show ?thesis by (cases "t_state (thread s t) = THREAD_STATE_BLOCKED \<and> t \<noteq> null_ptr")
     (auto simp: WakeThread_def Let_def intro: keeps_orderI)
next
  case (exit)
  then show ?thesis using assms(3) TerminateThread_order [OF assms(3), of "currentThread s"] KillProcess_order [OF assms(3)] queue_invD(8) [of s]
    by (auto simp: ExitCurrentThread_def Let_def sched_inv_def intro: keeps_orderI [where zs = "[]"])
qed (use assms(2,3) TerminateThread_order KillProcess_order CreateThread_ready CreateProcess_ready StartProcess_order
    CloneCurrentThread_ready CloneCurrentProcess_ready keeps_orderI in metis)+

subsection \<open>Round robin\<close>

definition ahead :: "u32 \<Rightarrow> sched \<Rightarrow> nat" where
  "ahead t s = length (takeWhile (\<lambda>x. x \<noteq> t) (readyQueue s))"

lemma takeWhile_filter_length: "Q t \<Longrightarrow> length (takeWhile (\<lambda>x. x \<noteq> t) (filter Q xs)) \<le> length (takeWhile (\<lambda>x. x \<noteq> t) xs)"
  by (induction xs) auto

lemma takeWhile_append_found: "t \<in> set xs \<Longrightarrow> takeWhile (\<lambda>x. x \<noteq> t) (xs @ zs) = takeWhile (\<lambda>x. x \<noteq> t) xs"
  by (induction xs) auto

lemma keeps_order_ahead:
  assumes "keeps_order s s'" "t \<in> set (readyQueue s)" "\<not> ended s' t"
  shows "t \<in> set (readyQueue s') \<and> ahead t s' \<le> ahead t s"
proof -
  obtain A zs where A: "readyQueue s' = filter (\<lambda>x. x \<notin> A) (readyQueue s) @ zs" "t \<notin> A" using assms by (auto simp: keeps_order_def)
  then have "t \<in> set (filter (\<lambda>x. x \<notin> A) (readyQueue s))" using assms(2) by simp
  then show ?thesis using A takeWhile_filter_length [of "\<lambda>x. x \<notin> A" t "readyQueue s"] by (simp add: ahead_def takeWhile_append_found)
qed

lemma Schedule_ahead:
  assumes q: "queue_inv s" and t: "t \<in> set (readyQueue s)"
  shows "if ahead t s = 0 then currentThread (snd (Schedule ctx s)) = t
    else t \<in> set (readyQueue (snd (Schedule ctx s))) \<and> Suc (ahead t (snd (Schedule ctx s))) = ahead t s"
proof -
  obtain x xs where r: "readyQueue s = x # xs" using t by (cases "readyQueue s") auto
  obtain zs where zs: "currentThread (snd (Schedule ctx s)) = x" "readyQueue (snd (Schedule ctx s)) = xs @ zs"
    using Schedule_fifo [OF q r] by blast
  show ?thesis using t r zs by (auto simp: ahead_def takeWhile_append_found)
qed

text \<open>
  \<open>waits newP newT t n s s'\<close>: a run from \<open>s\<close> to \<open>s'\<close> with \<open>n\<close> switches and any calls between them,
  in which \<open>t\<close> is not ended and no switch picks it.
\<close>

inductive waits :: "(sched \<Rightarrow> u32) \<Rightarrow> (sched \<Rightarrow> u32) \<Rightarrow> u32 \<Rightarrow> nat \<Rightarrow> sched \<Rightarrow> sched \<Rightarrow> bool" for newP newT t where
  now: "waits newP newT t 0 s s"
| call: "waits newP newT t n s s' \<Longrightarrow> sched_call newP newT s' s'' \<Longrightarrow> \<not> ended s'' t \<Longrightarrow> waits newP newT t n s s''"
| passed: "waits newP newT t n s s' \<Longrightarrow> currentThread (snd (Schedule ctx s')) \<noteq> t \<Longrightarrow> waits newP newT t (Suc n) s (snd (Schedule ctx s'))"

lemma waits_position:
  assumes "waits newP newT t n s s'" "fresh_objects newP newT" "sched_inv s" "t \<in> set (readyQueue s)"
  shows "sched_inv s' \<and> t \<in> set (readyQueue s') \<and> n + ahead t s' \<le> ahead t s"
  using assms
proof (induction rule: waits.induct)
  case (call n s s' s'')
  then have i: "sched_inv s'" "t \<in> set (readyQueue s')" "n + ahead t s' \<le> ahead t s" by blast+
  have "keeps_order s' s''" "sched_inv s''" using sched_call_order sched_call_inv call i by blast+
  with keeps_order_ahead [of s' s'' t] i call(3) show ?case by auto
next
  case (passed n s s' ctx)
  then have i: "sched_inv s'" "t \<in> set (readyQueue s')" "n + ahead t s' \<le> ahead t s" by blast+
  with passed(2) Schedule_ahead [of s' t ctx] Schedule_inv [of s' ctx] show ?case by (auto simp: sched_inv_def split: if_splits)
qed simp

lemma Schedule_runs_current: "queue_inv s \<Longrightarrow> in_state (snd (Schedule ctx s)) THREAD_STATE_RUNNING (currentThread (snd (Schedule ctx s)))"
proof -
  assume q: "queue_inv s"
  define s1 where "s1 = (park_current ctx s)\<lparr>currentThread := null_ptr\<rparr>"
  define s2 where "s2 = wake_expired (length (blockedQueue s1)) s1"
  have q2: "queue_inv s2" unfolding s2_def s1_def by (intro wake_expired_inv park_current_inv q)
  have s2c: "s2\<lparr>currentThread := null_ptr\<rparr> = s2" by (simp add: s2_def s1_def wake_expired_current)
  have sch: "snd (Schedule ctx s) = DrainPendingReclaims (dispatch s2)"
    unfolding s2_def s1_def by (simp add: Schedule_def Let_def wake_expired_current dispatch_current)
  have qd: "queue_inv (dispatch s2)" using dispatch_inv [of s2] q2 s2c by simp
  have "in_state (dispatch s2) THREAD_STATE_RUNNING (currentThread (dispatch s2))" by (simp add: in_state_def dispatch_fields(6) Let_def)
  then have "currentThread (dispatch s2) \<notin> set (pendingReclaims (dispatch s2))"
    using queue_invD(4) [OF qd] in_state_unique by blast
  then show ?thesis by (simp add: sch DrainPendingReclaims_def drain_fields in_state_def dispatch_fields(6) Let_def)
qed

subsection \<open>The properties, and a small machine\<close>

text \<open>
  A machine whose scheduler has just started: the frames of \<open>sample_vm\<close>, an unused kernel-stack zone, and a heap that hands out ascending addresses while they are free.
\<close>

definition sample_newT :: "sched \<Rightarrow> u32" where
  "sample_newT s = (let a = 0x100000 + tidCounter s * 0x100 in if threads s a = None then a else null_ptr)"

definition sample_newP :: "sched \<Rightarrow> u32" where
  "sample_newP s = (let a = 0x200000 + pidCounter s * 0x1000 in if procs s a = None then a else null_ptr)"

definition sample_boot :: sched where
  "sample_boot = \<lparr>procs = Map.empty, threads = Map.empty, globalProcessList = [], readyQueue = [], blockedQueue = [],
     terminatedQueue = [], pendingReclaims = [], pidCounter = 0, tidCounter = 0, trampolinePhys = 0, currentThread = 0,
     idleThread = 0, pool = [], nextStackSlotIdx = 0, contexts = (\<lambda>_. zero_context), vm = sample_vm, 
     zone = \<lparr>g_zoneReady = True, g_zoneBase = 0x0E000000, g_zoneEnd = 0x10000000, g_slotCount = 481, g_inUse = 0, g_slotBitmap = replicate 16 0\<rparr>,
     tss_esp0 = 0, timerTicks = 5, threadExit = 0x1234, idleTask = 0x5678\<rparr>"

definition sample_sched :: sched where
  "sample_sched = the (Scheduler sample_newT sample_boot)"

text \<open>One kernel process with its first thread, and then a second thread.\<close>

definition sample_proc :: sched where
  "sample_proc = snd (the (CreateProcess sample_newP sample_newT True 0x9000 0 True sample_sched))"

definition sample_two :: sched where
  "sample_two = snd (CreateThread sample_newT 0x200000 0xA000 0 sample_proc)"

lemma sample_fresh: "fresh_objects sample_newP sample_newT"
  by (simp add: fresh_objects_def sample_newP_def sample_newT_def Let_def domIff)

lemma sample_boots: "Scheduler sample_newT sample_boot \<noteq> None" by code_simp

lemma sample_creates: "CreateProcess sample_newP sample_newT True 0x9000 0 True sample_sched \<noteq> None" by code_simp

lemma sample_ready: "readyQueue sample_two = [0x100100, 0x100200] \<and> readyQueue sample_proc = [0x100100]" by code_simp

lemma sample_current: "currentThread (snd (Schedule 0 sample_two)) = 0x100100" by code_simp

lemma sample_reachable: "sched_reachable sample_newP sample_newT sample_two"
proof -
  have s: "Scheduler sample_newT sample_boot = Some sample_sched" using sample_boots by (simp add: sample_sched_def)
  then have r: "sched_reachable sample_newP sample_newT sample_sched" by (rule sched_reachable.start [rotated 2]) (simp_all add: sample_boot_def)
  obtain p where "CreateProcess sample_newP sample_newT True 0x9000 0 True sample_sched = Some (p, sample_proc)"
    using sample_creates by (metis not_None_eq option.sel prod.collapse sample_proc_def)
  then have rp: "sched_reachable sample_newP sample_newT sample_proc"
    by (intro sched_reachable.step [OF r] sched_step.call sched_call.create_process)
  have "procs sample_proc 0x200000 \<noteq> None" by code_simp
  then have "0x200000 \<in> dom (procs sample_proc)" by (simp add: domIff)
  then show ?thesis unfolding sample_two_def by (intro sched_reachable.step [OF rp] sched_step.call sched_call.create_thread)
qed

text \<open>
  Property C1. In every state the scheduler can reach, the invariants hold: no thread is lost or queued
  twice, the ready queue holds exactly the ready threads, the ready and blocked queues have no common
  thread, a thread that runs is the current or the idle one, and the threads that a process lists are
  exactly its live threads.
\<close>

theorem scheduler_invariant:
  assumes "fresh_objects newP newT" "sched_reachable newP newT s"
  shows "sched_inv s \<and> (\<forall>t. in_state s THREAD_STATE_READY t \<longleftrightarrow> t \<in> set (readyQueue s))
    \<and> set (readyQueue s) \<inter> set (blockedQueue s) = {}
    \<and> (\<forall>t. in_state s THREAD_STATE_RUNNING t \<longrightarrow> t = currentThread s \<or> t = idleThread s)
    \<and> (\<forall>p pc t. procs s p = Some pc \<longrightarrow> (t \<in> set (p_threads pc) \<longleftrightarrow> live s t p))"
proof -
  have i: "sched_inv s" by (rule sched_reachable_inv [OF assms])
  then have q: "queue_inv s" and p: "proc_inv s" by (simp_all add: sched_inv_def)
  have "placed s t st" if "in_state s st t" for t st using queue_invD(1) [OF q that] .
  then have "in_state s THREAD_STATE_READY t \<Longrightarrow> t \<in> set (readyQueue s)"
      "in_state s THREAD_STATE_RUNNING t \<Longrightarrow> t = currentThread s \<or> t = idleThread s" for t
    by (fastforce simp: placed_def)+
  moreover have "set (readyQueue s) \<inter> set (blockedQueue s) = {}"
    using queue_invD(2,3) [OF q] in_state_unique by blast
  ultimately show ?thesis using i queue_invD(2) [OF q] proc_invD(5) [OF p] by blast
qed

theorem scheduler_invariant_witness:
  "sched_inv sample_two \<and> in_state sample_two THREAD_STATE_READY 0x100200 \<and> 0x100200 \<notin> set (blockedQueue sample_two)"
  using scheduler_invariant [OF sample_fresh sample_reachable] sample_ready by auto

text \<open>
  Property C9. Round robin without starvation: a ready thread that has \<open>k\<close> threads ahead of it is passed
  over by at most \<open>k\<close> switches, whatever calls threads and interrupt handlers make in between, and
  after that many the next switch runs it.
\<close>

theorem round_robin:
  assumes "fresh_objects newP newT" "sched_reachable newP newT s" "t \<in> set (readyQueue s)" "waits newP newT t n s s'"
  shows "n \<le> ahead t s \<and> (n = ahead t s \<longrightarrow> currentThread (snd (Schedule ctx s')) = t
    \<and> in_state (snd (Schedule ctx s')) THREAD_STATE_RUNNING t)"
proof -
  note w = waits_position [OF assms(4,1) sched_reachable_inv [OF assms(1,2)] assms(3)]
  then have q: "queue_inv s'" by (simp add: sched_inv_def)
  have "currentThread (snd (Schedule ctx s')) = t" if "n = ahead t s" using Schedule_ahead [OF q, of t ctx] w that by simp
  then show ?thesis using w Schedule_runs_current [OF q, of ctx] by auto
qed

theorem round_robin_witness:
  "currentThread (snd (Schedule 0 sample_two)) = 0x100100
    \<and> currentThread (snd (Schedule 0 (snd (Schedule 0 sample_two)))) = 0x100200"
proof -
  have "waits sample_newP sample_newT 0x100200 (Suc 0) sample_two (snd (Schedule 0 sample_two))"
    by (intro waits.passed waits.now) (simp add: sample_current)
  moreover have "ahead 0x100200 sample_two = Suc 0" by (simp add: ahead_def sample_ready)
  ultimately show ?thesis
    using round_robin [OF sample_fresh sample_reachable, of "0x100200" "Suc 0" "snd (Schedule 0 sample_two)" 0] sample_ready sample_current by simp
qed

text \<open>
  Property C19. Sleeping: in every reachable state a switch wakes a blocked thread exactly when the 64-bit clock has reached its stored
  32-bit wake time. Such a sleeper is ready or runs after the switch, any other stays blocked and does not run.
\<close>

theorem sleepers_wake_on_time:
  assumes "fresh_objects newP newT" "sched_reachable newP newT s" "in_state s THREAD_STATE_BLOCKED t"
  shows "if ucast (wakeTime (thread s t)) \<le> timerTicks s
    then in_state (snd (Schedule ctx s)) THREAD_STATE_READY t \<and> t \<in> set (readyQueue (snd (Schedule ctx s)))
      \<or> in_state (snd (Schedule ctx s)) THREAD_STATE_RUNNING t \<and> t = currentThread (snd (Schedule ctx s))
    else in_state (snd (Schedule ctx s)) THREAD_STATE_BLOCKED t \<and> t \<in> set (blockedQueue (snd (Schedule ctx s)))
      \<and> t \<noteq> currentThread (snd (Schedule ctx s))"
proof -
  have "queue_inv s" using sched_reachable_inv [OF assms(1,2)] by (simp add: sched_inv_def)
  from Schedule_blocked [OF this assms(3), of ctx] show ?thesis by (auto simp: expired_def split: if_splits)
qed

text \<open>The first thread of the small machine runs and goes to sleep for 10 ticks.\<close>

definition sample_asleep :: sched where
  "sample_asleep = Sleep 10 (snd (Schedule 0 sample_two))"

lemma sample_asleep_reachable: "sched_reachable sample_newP sample_newT sample_asleep"
proof -
  have r: "sched_reachable sample_newP sample_newT (snd (Schedule 0 sample_two))"
    by (rule sched_reachable.step [OF sample_reachable sched_step.schedule])
  have "t_state (thread (snd (Schedule 0 sample_two)) 0x100100) = THREAD_STATE_RUNNING" by code_simp
  moreover have "idleThread (snd (Schedule 0 sample_two)) = 0x100000" by code_simp
  ultimately show ?thesis unfolding sample_asleep_def
    by (intro sched_reachable.step [OF r] sched_step.call sched_call.sleep) (simp_all add: sample_current)
qed

lemma sample_asleep_blocked: "in_state sample_asleep THREAD_STATE_BLOCKED 0x100100"
proof -
  have "in_state sample_asleep (t_state (thread sample_asleep (currentThread sample_asleep))) (currentThread sample_asleep)"
    by (simp add: sample_asleep_def Sleep_def sample_current in_state_upd)
  then show ?thesis by (simp add: sample_asleep_def Sleep_def sample_current)
qed

theorem sleepers_wake_on_time_witness:
  "in_state (snd (Schedule 0 sample_asleep)) THREAD_STATE_BLOCKED 0x100100 \<and> currentThread (snd (Schedule 0 sample_asleep)) \<noteq> 0x100100"
proof -
  have "timerTicks (snd (Schedule 0 sample_two)) = 5" by code_simp
  then have "\<not> ucast (wakeTime (thread sample_asleep 0x100100)) \<le> timerTicks sample_asleep"
    by (simp add: sample_asleep_def Sleep_def sample_current)
  then show ?thesis using sleepers_wake_on_time [OF sample_fresh sample_asleep_reachable sample_asleep_blocked, of 0] by auto
qed

text \<open>
  The wake time is stored in 32 bits and compared with the 64-bit clock. A sleep of \<open>ms\<close> that starts at tick \<open>timerTicks s\<close> ends
  with the first switch at or after the low 32 bits of \<open>timerTicks s + ms\<close>: at its time as long as that sum is below 2^32, and, once the
  clock has passed 2^32, with the very next switch.
\<close>

lemma wake_time: "unat (ucast (k + ucast ms :: u64) :: u32) = (unat k + unat ms) mod 2 ^ 32" for k :: u64 and ms :: u32
proof -
  have d: "(2 :: nat) ^ 32 dvd 2 ^ 64" by simp
  have "unat (ucast (k + ucast ms :: u64) :: u32) = unat (k + ucast ms) mod 2 ^ 32" by (simp add: unsigned_ucast_eq take_bit_eq_mod)
  also have "unat (k + ucast ms) = (unat k + unat ms) mod 2 ^ 64" by (simp add: unat_word_ariths unat_ucast64)
  also have "\<dots> mod 2 ^ 32 = (unat k + unat ms) mod 2 ^ 32" by (rule mod_mod_cancel [OF d])
  finally show ?thesis .
qed

theorem Sleep_deadline:
  assumes "fresh_objects newP newT" "sched_reachable newP newT s" "t = currentThread s" "t \<noteq> null_ptr" "t \<noteq> idleThread s"
    "in_state s THREAD_STATE_RUNNING t"
  shows "in_state (snd (Schedule ctx ((Sleep ms s)\<lparr>timerTicks := k\<rparr>))) THREAD_STATE_BLOCKED t \<longleftrightarrow>
      unat k < (unat (timerTicks s) + unat ms) mod 2 ^ 32"
    and "2 ^ 32 \<le> unat (timerTicks s) \<Longrightarrow> \<not> in_state (snd (Schedule ctx (Sleep ms s))) THREAD_STATE_BLOCKED t"
proof -
  have q: "queue_inv s" using sched_reachable_inv [OF assms(1,2)] by (simp add: sched_inv_def)
  have wt: "wakeTime (thread (Sleep ms s) t) = ucast (timerTicks s + ucast ms)" "in_state (Sleep ms s) THREAD_STATE_BLOCKED t"
    "timerTicks (Sleep ms s) = timerTicks s"
    using assms(3,4) by (simp_all add: Sleep_def in_state_upd)
  have qs: "queue_inv (Sleep ms s)" using Sleep_queue_inv [OF q] assms(3,5,6) by simp
  define s1 where "s1 = (\<lambda>k. (Sleep ms s)\<lparr>timerTicks := k\<rparr>)"
  have q1: "queue_inv (s1 k)" for k by (rule queue_inv_cong [OF qs]) (simp_all add: s1_def)
  have b1: "in_state (s1 k) THREAD_STATE_BLOCKED t" for k using wt(2) by (simp add: s1_def in_state_def)
  have bl: "in_state (snd (Schedule ctx (s1 k))) THREAD_STATE_BLOCKED t \<longleftrightarrow> unat k < (unat (timerTicks s) + unat ms) mod 2 ^ 32" for k
  proof -
    have "expired (s1 k) t \<longleftrightarrow> (unat (timerTicks s) + unat ms) mod 2 ^ 32 \<le> unat k"
      using wt(1) by (simp only: expired_def word_le_nat_alt unat_ucast64 wake_time [symmetric]) (simp add: s1_def)
    then show ?thesis using Schedule_blocked [OF q1 [of k] b1 [of k], of ctx] by (auto simp: in_state_def not_le split: if_splits)
  qed
  then show "in_state (snd (Schedule ctx ((Sleep ms s)\<lparr>timerTicks := k\<rparr>))) THREAD_STATE_BLOCKED t \<longleftrightarrow>
      unat k < (unat (timerTicks s) + unat ms) mod 2 ^ 32" by (simp only: s1_def)
  have sl: "Sleep ms s = s1 (timerTicks s)" using wt(3) by (simp add: s1_def)
  have "(unat (timerTicks s) + unat ms) mod 2 ^ 32 < 2 ^ 32" by simp
  then show "\<not> in_state (snd (Schedule ctx (Sleep ms s))) THREAD_STATE_BLOCKED t" if "2 ^ 32 \<le> unat (timerTicks s)"
    unfolding sl bl using that by linarith
qed

theorem Sleep_deadline_witness:
  "in_state (snd (Schedule 0 ((Sleep 10 (snd (Schedule 0 sample_two)))\<lparr>timerTicks := 14\<rparr>))) THREAD_STATE_BLOCKED 0x100100
   \<and> \<not> in_state (snd (Schedule 0 ((Sleep 10 (snd (Schedule 0 sample_two)))\<lparr>timerTicks := 15\<rparr>))) THREAD_STATE_BLOCKED 0x100100"
proof -
  let ?s = "snd (Schedule 0 sample_two)"
  have r: "sched_reachable sample_newP sample_newT ?s" by (rule sched_reachable.step [OF sample_reachable sched_step.schedule])
  have i: "idleThread ?s = 0x100000" and k: "timerTicks ?s = 5" by code_simp+
  have st: "in_state ?s THREAD_STATE_RUNNING (currentThread ?s)"
    by (rule Schedule_runs_current) (use sched_reachable_inv [OF sample_fresh sample_reachable] in \<open>simp add: sched_inv_def\<close>)
  note d = Sleep_deadline(1) [OF sample_fresh r refl, where ctx = 0 and ms = 10]
  show ?thesis using d [where k = 14] d [where k = 15] st by (simp add: sample_current i k)
qed

text \<open>
  Property C13. Killing a process by pid succeeds exactly when the process list has one. The killed
  process is off the list, its control block is gone, all its threads have ended, and no thread of another
  process has.
\<close>

theorem KillProcess_kills_one:
  assumes "fresh_objects newP newT" "sched_reachable newP newT s" "KillProcess pid s = (b, s')"
  shows "(b \<longleftrightarrow> (\<exists>p \<in> set (globalProcessList s). p_pid (proc s p) = pid)) \<and> sched_inv s'
    \<and> (b \<longrightarrow> (\<exists>p \<in> set (globalProcessList s). p_pid (proc s p) = pid \<and> p \<notin> set (globalProcessList s') \<and> p \<notin> dom (procs s')
          \<and> (\<forall>t q. live s' t q \<longleftrightarrow> live s t q \<and> q \<noteq> p)))"
  using KillProcess_spec [OF sched_reachable_inv [OF assms(1,2)] assms(3)] by (auto simp: killed_def)

theorem KillProcess_kills_one_witness:
  "fst (KillProcess 0 sample_two) \<and> \<not> (\<exists>t. live (snd (KillProcess 0 sample_two)) t 0x200000)"
proof -
  have l: "globalProcessList sample_two = [0x200000]" by code_simp
  have p: "p_pid (proc sample_two 0x200000) = 0" by code_simp
  obtain b s' where k: "KillProcess 0 sample_two = (b, s')" by fastforce
  show ?thesis using KillProcess_kills_one [OF sample_fresh sample_reachable k] by (auto simp: l p k)
qed

end
