(* ===== verification/File_Layer.thy ===== *)
theory File_Layer
  imports Fat_Volume
begin

text \<open>
  Open files: the slot table and path handling of \<^verbatim>\<open>core/filesystem/FatFs/FatFsWrapper.cpp\<close>, the
  \<^verbatim>\<open>File\<close> objects and the descriptor table of \<^verbatim>\<open>core/filesystem/File.cpp\<close>. The FatFs entry points are a
  parameter over an abstract volume \<open>'v\<close>, file streams \<open>'f\<close> and directory streams \<open>'d\<close>; so is the kernel
  heap behind \<^verbatim>\<open>new File()\<close>. Strings are their bytes without the closing NUL.
\<close>

subsection \<open>FatFs\<close>

record ('v, 'f, 'd) fatfs_api =
  f_opendir :: "u8 list \<Rightarrow> 'v \<Rightarrow> FRESULT \<times> 'd \<times> 'v"
  f_closedir :: "'d \<Rightarrow> 'v \<Rightarrow> 'v"
  f_rewinddir :: "'d \<Rightarrow> 'v \<Rightarrow> 'd"
  f_readdir :: "'d \<Rightarrow> 'v \<Rightarrow> FRESULT \<times> u8 list \<times> u8 \<times> 'd \<times> 'v"
  f_stat :: "u8 list \<Rightarrow> 'v \<Rightarrow> FRESULT \<times> u8 \<times> u32"
  f_open :: "u8 list \<Rightarrow> u8 \<Rightarrow> 'v \<Rightarrow> FRESULT \<times> 'f \<times> 'v"
  first_cluster :: "'f \<Rightarrow> 'f"
  f_close :: "'f \<Rightarrow> 'v \<Rightarrow> 'v"
  f_size :: "'f \<Rightarrow> u32"
  f_lseek :: "'f \<Rightarrow> u32 \<Rightarrow> 'v \<Rightarrow> FRESULT \<times> 'f \<times> 'v"
  f_read :: "'f \<Rightarrow> u32 \<Rightarrow> 'v \<Rightarrow> FRESULT \<times> u8 list \<times> 'f \<times> 'v"
  f_write :: "'f \<Rightarrow> u8 list \<Rightarrow> 'v \<Rightarrow> FRESULT \<times> u32 \<times> 'f \<times> 'v"
  f_mkdir :: "u8 list \<Rightarrow> 'v \<Rightarrow> FRESULT \<times> 'v"
  f_unlink :: "u8 list \<Rightarrow> 'v \<Rightarrow> FRESULT \<times> 'v"
  f_mkfs :: "u8 list \<Rightarrow> 'v \<Rightarrow> FRESULT \<times> 'v"
  f_unmount :: "'v \<Rightarrow> 'v"

text \<open>\<open>f_rewinddir\<close> is \<^verbatim>\<open>f_readdir(dp, NULL)\<close> and \<open>first_cluster\<close> the assignment \<^verbatim>\<open>fil.clust = fil.obj.sclust\<close>.\<close>

abbreviation FA_READ :: u8 where "FA_READ \<equiv> 0x01"
abbreviation FA_WRITE :: u8 where "FA_WRITE \<equiv> 0x02"
abbreviation FA_OPEN_EXISTING :: u8 where "FA_OPEN_EXISTING \<equiv> 0x00"
abbreviation FA_CREATE_NEW :: u8 where "FA_CREATE_NEW \<equiv> 0x04"
abbreviation FA_CREATE_ALWAYS :: u8 where "FA_CREATE_ALWAYS \<equiv> 0x08"
abbreviation FA_OPEN_ALWAYS :: u8 where "FA_OPEN_ALWAYS \<equiv> 0x10"
abbreviation AM_DIR :: u8 where "AM_DIR \<equiv> 0x10"

abbreviation O_RDONLY :: u32 where "O_RDONLY \<equiv> 0x0000"
abbreviation O_WRONLY :: u32 where "O_WRONLY \<equiv> 0x0001"
abbreviation O_RDWR :: u32 where "O_RDWR \<equiv> 0x0002"
abbreviation O_CREAT :: u32 where "O_CREAT \<equiv> 0x0040"
abbreviation O_EXCL :: u32 where "O_EXCL \<equiv> 0x0080"
abbreviation O_TRUNC :: u32 where "O_TRUNC \<equiv> 0x0200"
abbreviation O_APPEND :: u32 where "O_APPEND \<equiv> 0x0400"
abbreviation O_ACCMODE :: u32 where "O_ACCMODE \<equiv> 0x0003"

subsection \<open>State\<close>

record File =
  name :: "u8 list"
  fsize :: u32
  file_id :: u32
  flags :: u32
  openFlags :: u32
  position :: u32
  filesystem :: bool

datatype ('f, 'd) stream = NoStream | FIL (fil_of: 'f) | DIR (dir_of: 'd)

record ('f, 'd) FatFsSlot =
  s_file :: u32
  used :: bool
  isDir :: bool
  dirReadCount :: u32
  u :: "('f, 'd) stream"

text \<open>One mounted wrapper: its drive number, its slots, the volume below and the \<^verbatim>\<open>File\<close> objects by address.\<close>

record ('v, 'f, 'd) fsys =
  w_drive :: u8
  slots :: "('f, 'd) FatFsSlot list"
  vol :: 'v
  objs :: "u32 \<rightharpoonup> File"

definition empty_slot :: "('f, 'd) FatFsSlot" where
  "empty_slot = \<lparr>s_file = 0, used = False, isDir = False, dirReadCount = 0, u = NoStream\<rparr>"

definition new_File :: File where
  "new_File = \<lparr>name = replicate 128 0, fsize = 0, file_id = 0, flags = 0, openFlags = O_RDONLY, position = 0, filesystem = False\<rparr>"

definition IsWritable :: "File \<Rightarrow> bool" where
  "IsWritable f \<longleftrightarrow> (let acc = openFlags f AND O_ACCMODE in acc = O_WRONLY \<or> acc = O_RDWR)"

definition IsReadable :: "File \<Rightarrow> bool" where
  "IsReadable f \<longleftrightarrow> (let acc = openFlags f AND O_ACCMODE in acc = O_RDONLY \<or> acc = O_RDWR)"

subsection \<open>The slot table\<close>

fun slot_alloc :: "u32 \<Rightarrow> bool \<Rightarrow> ('f, 'd) FatFsSlot list \<Rightarrow> (nat \<times> ('f, 'd) FatFsSlot list) option" where
  "slot_alloc file dir [] = None"
| "slot_alloc file dir (sl # sls) =
     (if \<not> used sl then Some (0, sl\<lparr>s_file := file, used := True, isDir := dir, dirReadCount := 0\<rparr> # sls)
      else map_option (\<lambda>(i, sls). (Suc i, sl # sls)) (slot_alloc file dir sls))"

definition slot_free :: "nat \<Rightarrow> ('f, 'd) FatFsSlot list \<Rightarrow> ('f, 'd) FatFsSlot list" where
  "slot_free i sls = sls[i := (sls ! i)\<lparr>s_file := null_ptr, used := False\<rparr>]"

fun slot_find :: "u32 \<Rightarrow> ('f, 'd) FatFsSlot list \<Rightarrow> nat option" where
  "slot_find file [] = None"
| "slot_find file (sl # sls) = (if used sl \<and> s_file sl = file then Some 0 else map_option Suc (slot_find file sls))"

definition set_stream :: "nat \<Rightarrow> ('f, 'd) stream \<Rightarrow> ('v, 'f, 'd) fsys \<Rightarrow> ('v, 'f, 'd) fsys" where
  "set_stream i st s = s\<lparr>slots := (slots s)[i := (slots s ! i)\<lparr>u := st\<rparr>]\<rparr>"

subsection \<open>Paths\<close>

text \<open>The copying loop: \<open>room\<close> is \<^verbatim>\<open>outLen - 1 - j\<close>. \<open>None\<close> when the source does not fit.\<close>

fun copy_path :: "nat \<Rightarrow> u8 list \<Rightarrow> u8 list option" where
  "copy_path room [] = Some []"
| "copy_path 0 (c # cs) = None"
| "copy_path (Suc room) (c # cs) = map_option (Cons c) (copy_path room cs)"

definition PathToFatFs :: "u8 \<Rightarrow> u8 list option \<Rightarrow> nat \<Rightarrow> u8 list option" where
  "PathToFatFs drive path outLen =
     (case path of None \<Rightarrow> None
      | Some p \<Rightarrow>
          if outLen < 3 then None
          else map_option (\<lambda>rest. [0x30 + drive, 0x3A] @ rest)
            (copy_path (outLen - 3) (if p \<noteq> [] \<and> hd p = 0x2F then tl p else p)))"

text \<open>The name field: at most 127 bytes, the rest zero.\<close>

definition file_name :: "u8 list \<Rightarrow> u8 list" where
  "file_name path = take 127 path @ replicate (128 - min 127 (length path)) 0"

subsection \<open>Opening and closing\<close>

definition open_mode :: "u32 \<Rightarrow> u32 \<Rightarrow> u8" where
  "open_mode acc fl =
     (let mode = (if acc = O_WRONLY then FA_WRITE else if acc = O_RDWR then FA_READ OR FA_WRITE else FA_READ) in
      if fl AND O_EXCL \<noteq> 0 then mode OR FA_CREATE_NEW
      else if fl AND O_TRUNC \<noteq> 0 then mode OR FA_CREATE_ALWAYS
      else if fl AND O_CREAT \<noteq> 0 then mode OR FA_OPEN_ALWAYS
      else mode OR FA_OPEN_EXISTING)"

definition open_dir ::
  "('v, 'f, 'd) fatfs_api \<Rightarrow> (('v, 'f, 'd) fsys \<Rightarrow> u32) \<Rightarrow> u8 list \<Rightarrow> u8 list \<Rightarrow> ('v, 'f, 'd) fsys \<Rightarrow> u32 \<times> ('v, 'f, 'd) fsys" where
  "open_dir api newF fatPath nm s =
     (case f_opendir api fatPath (vol s) of (res, d, v) \<Rightarrow>
      let s = s\<lparr>vol := v\<rparr> in
      if res \<noteq> FR_OK then (null_ptr, s)
      else case slot_alloc null_ptr True (slots s) of
        None \<Rightarrow> (null_ptr, s\<lparr>vol := f_closedir api d (vol s)\<rparr>)
      | Some (i, sls) \<Rightarrow>
          let s = set_stream i (DIR d) (s\<lparr>slots := sls\<rparr>);
              dir = newF s in
          if dir = null_ptr then (null_ptr, s\<lparr>vol := f_closedir api d (vol s), slots := slot_free i (slots s)\<rparr>)
          else (dir, s\<lparr>objs := (objs s)(dir \<mapsto> new_File\<lparr>name := nm, filesystem := True, flags := 1, openFlags := O_RDONLY\<rparr>),
                       slots := (slots s)[i := (slots s ! i)\<lparr>s_file := dir\<rparr>]\<rparr>))"

definition open_file ::
  "('v, 'f, 'd) fatfs_api \<Rightarrow> (('v, 'f, 'd) fsys \<Rightarrow> u32) \<Rightarrow> u8 list \<Rightarrow> u8 list \<Rightarrow> u8 \<Rightarrow> u32 \<Rightarrow> ('v, 'f, 'd) fsys \<Rightarrow> u32 \<times> ('v, 'f, 'd) fsys" where
  "open_file api newF fatPath path mode fl s =
     (case f_open api fatPath mode (vol s) of (res, fil, v) \<Rightarrow>
      let s = s\<lparr>vol := v\<rparr> in
      if res \<noteq> FR_OK then (null_ptr, s)
      else
        let fil = first_cluster api fil; file = newF s in
        if file = null_ptr then (null_ptr, s\<lparr>vol := f_close api fil (vol s)\<rparr>)
        else case slot_alloc file False (slots s) of
          None \<Rightarrow> (null_ptr, s\<lparr>vol := f_close api fil (vol s)\<rparr>)
        | Some (i, sls) \<Rightarrow>
            (file, (set_stream i (FIL fil) (s\<lparr>slots := sls\<rparr>))\<lparr>objs := (objs s)(file \<mapsto> new_File\<lparr>name := file_name path,
               fsize := f_size api fil, filesystem := True, flags := 0, openFlags := fl\<rparr>)\<rparr>))"

definition OpenWithFlags ::
  "('v, 'f, 'd) fatfs_api \<Rightarrow> (('v, 'f, 'd) fsys \<Rightarrow> u32) \<Rightarrow> u8 list option \<Rightarrow> u32 \<Rightarrow> ('v, 'f, 'd) fsys \<Rightarrow> u32 \<times> ('v, 'f, 'd) fsys" where
  "OpenWithFlags api newF path fl s =
     (case path of None \<Rightarrow> (null_ptr, s)
      | Some p \<Rightarrow>
          let acc = fl AND O_ACCMODE;
              acc = (if acc \<noteq> O_RDONLY \<and> acc \<noteq> O_WRONLY \<and> acc \<noteq> O_RDWR then O_RDONLY else acc) in
          if fl AND O_TRUNC \<noteq> 0 \<and> acc = O_RDONLY then (null_ptr, s)
          else if fl AND O_EXCL \<noteq> 0 \<and> fl AND O_CREAT = 0 then (null_ptr, s)
          else case PathToFatFs (w_drive s) path 256 of
            None \<Rightarrow> (null_ptr, s)
          | Some fatPath \<Rightarrow>
              if length fatPath = 2 then open_dir api newF fatPath (file_name [0x2F]) s
              else
                let creating = (fl AND O_CREAT \<noteq> 0) in
                case f_stat api fatPath (vol s) of (res, fattrib, _) \<Rightarrow>
                  if res \<noteq> FR_OK \<and> \<not> creating then (null_ptr, s)
                  else if res = FR_OK \<and> fattrib AND AM_DIR \<noteq> 0 then open_dir api newF fatPath (file_name p) s
                  else open_file api newF fatPath p (open_mode acc fl) fl s)"

definition Open ::
  "('v, 'f, 'd) fatfs_api \<Rightarrow> (('v, 'f, 'd) fsys \<Rightarrow> u32) \<Rightarrow> u8 list option \<Rightarrow> ('v, 'f, 'd) fsys \<Rightarrow> u32 \<times> ('v, 'f, 'd) fsys" where
  "Open api newF path s = OpenWithFlags api newF path O_RDONLY s"

definition close_stream :: "('v, 'f, 'd) fatfs_api \<Rightarrow> ('f, 'd) FatFsSlot \<Rightarrow> 'v \<Rightarrow> 'v" where
  "close_stream api sl v = (if isDir sl then f_closedir api (dir_of (u sl)) v else f_close api (fil_of (u sl)) v)"

definition CloseFile :: "('v, 'f, 'd) fatfs_api \<Rightarrow> u32 \<Rightarrow> ('v, 'f, 'd) fsys \<Rightarrow> ('v, 'f, 'd) fsys" where
  "CloseFile api file s =
     (if file = null_ptr then s
      else case slot_find file (slots s) of
        None \<Rightarrow> s
      | Some i \<Rightarrow> s\<lparr>vol := close_stream api (slots s ! i) (vol s), slots := slot_free i (slots s)\<rparr>)"

text \<open>\<^verbatim>\<open>File::Close\<close> and the destructor.\<close>

definition Close :: "('v, 'f, 'd) fatfs_api \<Rightarrow> u32 \<Rightarrow> ('v, 'f, 'd) fsys \<Rightarrow> ('v, 'f, 'd) fsys" where
  "Close api file s =
     (let f = the (objs s file) in
      if filesystem f then (CloseFile api file s)\<lparr>objs := (objs s)(file \<mapsto> f\<lparr>filesystem := False\<rparr>)\<rparr> else s)"

definition delete_File :: "('v, 'f, 'd) fatfs_api \<Rightarrow> u32 \<Rightarrow> ('v, 'f, 'd) fsys \<Rightarrow> ('v, 'f, 'd) fsys" where
  "delete_File api file s = (let s = Close api file s in s\<lparr>objs := (objs s)(file := None)\<rparr>)"

text \<open>The destructor of the wrapper closes what is still open, then unmounts.\<close>

fun close_all :: "('v, 'f, 'd) fatfs_api \<Rightarrow> nat list \<Rightarrow> ('v, 'f, 'd) fsys \<Rightarrow> ('v, 'f, 'd) fsys" where
  "close_all api [] s = s"
| "close_all api (i # is) s =
     close_all api is
       (if used (slots s ! i)
        then s\<lparr>vol := close_stream api (slots s ! i) (vol s), slots := (slots s)[i := (slots s ! i)\<lparr>used := False\<rparr>]\<rparr>
        else s)"

definition delete_FatFsWrapper :: "('v, 'f, 'd) fatfs_api \<Rightarrow> ('v, 'f, 'd) fsys \<Rightarrow> 'v" where
  "delete_FatFsWrapper api s = f_unmount api (vol (close_all api [0..<32] s))"

subsection \<open>Reading and writing\<close>

definition overwrite :: "u8 list \<Rightarrow> nat \<Rightarrow> u8 list \<Rightarrow> u8 list" where
  "overwrite buf ofs bs = take ofs buf @ bs @ drop (ofs + length bs) buf"

text \<open>A directory record: header of 7 bytes, name, NUL, aligned to 4.\<close>

definition reclen :: "u8 list \<Rightarrow> u32" where
  "reclen fname = (7 + of_nat (length fname) + 1 + 3) AND NOT 3"

definition dirent_bytes :: "u8 list \<Rightarrow> u8 \<Rightarrow> u8 list" where
  "dirent_bytes fname fattrib =
     [0, 0, 0, 0, ucast (reclen fname), ucast (drop_bit 8 (reclen fname)), if fattrib AND AM_DIR \<noteq> 0 then 1 else 0] @ fname @ [0]"

partial_function (option) skip_entries ::
  "('v, 'f, 'd) fatfs_api \<Rightarrow> u32 \<Rightarrow> u32 \<Rightarrow> u32 \<Rightarrow> 'd \<Rightarrow> 'v \<Rightarrow> (u32 \<times> 'd \<times> 'v) option" where
  "skip_entries api pos skipped cnt d v =
     (if skipped < pos then
        case f_readdir api d v of (res, fname, fattrib, d, v) \<Rightarrow>
          if res \<noteq> FR_OK \<or> fname = [] then Some (cnt, d, v)
          else skip_entries api pos (skipped + reclen fname) (cnt + 1) d v
      else Some (cnt, d, v))"

partial_function (option) emit_entries ::
  "('v, 'f, 'd) fatfs_api \<Rightarrow> u32 \<Rightarrow> u32 \<Rightarrow> u8 list \<Rightarrow> u32 \<Rightarrow> 'd \<Rightarrow> 'v \<Rightarrow> (u32 \<times> u8 list \<times> u32 \<times> 'd \<times> 'v) option" where
  "emit_entries api len tot buf cnt d v =
     (if tot + 7 \<le> len then
        case f_readdir api d v of (res, fname, fattrib, d, v) \<Rightarrow>
          if res \<noteq> FR_OK \<or> fname = [] then Some (tot, buf, cnt, d, v)
          else if len < tot + reclen fname then Some (tot, buf, cnt, d, v)
          else emit_entries api len (tot + reclen fname) (overwrite buf (unat tot) (dirent_bytes fname fattrib)) (cnt + 1) d v
      else Some (tot, buf, cnt, d, v))"

declare skip_entries.simps [code]
declare emit_entries.simps [code]

text \<open>
  \<^verbatim>\<open>ReadStream\<close> returns the count and the caller's buffer; \<open>None\<close> is a directory scan that never ends.
\<close>

definition read_dir ::
  "('v, 'f, 'd) fatfs_api \<Rightarrow> nat \<Rightarrow> u32 \<Rightarrow> u8 list \<Rightarrow> u32 \<Rightarrow> ('v, 'f, 'd) fsys \<Rightarrow> (u32 \<times> u8 list \<times> ('v, 'f, 'd) fsys) option" where
  "read_dir api i pos buf len s =
     (let sl = slots s ! i; d = f_rewinddir api (dir_of (u sl)) (vol s) in
      case skip_entries api pos 0 (dirReadCount sl) d (vol s) of
        None \<Rightarrow> None
      | Some (cnt, d, v) \<Rightarrow>
          (case emit_entries api len 0 buf cnt d v of
             None \<Rightarrow> None
           | Some (tot, buf, cnt, d, v) \<Rightarrow>
               Some (tot, buf, s\<lparr>vol := v, slots := (slots s)[i := sl\<lparr>u := DIR d, dirReadCount := cnt\<rparr>]\<rparr>)))"

definition ReadStream ::
  "('v, 'f, 'd) fatfs_api \<Rightarrow> u32 \<Rightarrow> u8 list \<Rightarrow> u32 \<Rightarrow> ('v, 'f, 'd) fsys \<Rightarrow> (u32 \<times> u8 list \<times> ('v, 'f, 'd) fsys) option" where
  "ReadStream api file buf len s =
     (if file = null_ptr \<or> len = 0 then Some (0, buf, s)
      else case slot_find file (slots s) of
        None \<Rightarrow> Some (0, buf, s)
      | Some i \<Rightarrow>
          let pos = position (the (objs s file)) in
          if isDir (slots s ! i) then read_dir api i pos buf len s
          else case f_lseek api (fil_of (u (slots s ! i))) pos (vol s) of (res, fil, v) \<Rightarrow>
            let s = set_stream i (FIL fil) (s\<lparr>vol := v\<rparr>) in
            if res \<noteq> FR_OK then Some (0, buf, s)
            else case f_read api fil len (vol s) of (res, bs, fil, v) \<Rightarrow>
              let s = set_stream i (FIL fil) (s\<lparr>vol := v\<rparr>) in
              if res \<noteq> FR_OK then Some (0, overwrite buf 0 bs, s) else Some (of_nat (length bs), overwrite buf 0 bs, s))"

definition WriteStream ::
  "('v, 'f, 'd) fatfs_api \<Rightarrow> u32 \<Rightarrow> u8 list \<Rightarrow> ('v, 'f, 'd) fsys \<Rightarrow> u32 \<times> ('v, 'f, 'd) fsys" where
  "WriteStream api file buf s =
     (if file = null_ptr \<or> buf = [] then (0, s)
      else case slot_find file (slots s) of
        None \<Rightarrow> (0, s)
      | Some i \<Rightarrow>
          if isDir (slots s ! i) then (0, s)
          else
            let f = the (objs s file);
                fil = fil_of (u (slots s ! i));
                target = (if openFlags f AND O_APPEND \<noteq> 0 then f_size api fil else position f);
                fil = (if target = 0 then first_cluster api fil else fil) in
            case f_lseek api fil target (vol s) of (res, fil, v) \<Rightarrow>
              let s = set_stream i (FIL fil) (s\<lparr>vol := v\<rparr>) in
              if res \<noteq> FR_OK then (0, s)
              else case f_write api fil buf (vol s) of (res, bw, fil, v) \<Rightarrow>
                let s = set_stream i (FIL fil) (s\<lparr>vol := v\<rparr>) in
                if res \<noteq> FR_OK then (0, s) else (bw, s))"

subsection \<open>File objects\<close>

definition upd_File :: "u32 \<Rightarrow> (File \<Rightarrow> File) \<Rightarrow> ('v, 'f, 'd) fsys \<Rightarrow> ('v, 'f, 'd) fsys" where
  "upd_File file g s = s\<lparr>objs := (objs s)(file \<mapsto> g (the (objs s file)))\<rparr>"

definition Read ::
  "('v, 'f, 'd) fatfs_api \<Rightarrow> u32 \<Rightarrow> u8 list option \<Rightarrow> u32 \<Rightarrow> ('v, 'f, 'd) fsys \<Rightarrow> (u32 \<times> u8 list option \<times> ('v, 'f, 'd) fsys) option" where
  "Read api file buffer len s =
     (let f = the (objs s file) in
      if \<not> filesystem f \<or> buffer = None \<or> len = 0 then Some (0, buffer, s)
      else if \<not> IsReadable f then Some (0, buffer, s)
      else
        let isDirectory = (flags f AND 1 \<noteq> 0) in
        if \<not> isDirectory \<and> fsize f \<le> position f then Some (0, buffer, s)
        else
          let len = (if \<not> isDirectory \<and> fsize f < position f + len then fsize f - position f else len) in
          case ReadStream api file (the buffer) len s of
            None \<Rightarrow> None
          | Some (bytesRead, buf, s) \<Rightarrow> Some (bytesRead, Some buf, upd_File file (\<lambda>f. f\<lparr>position := position f + bytesRead\<rparr>) s))"

definition Seek :: "u32 \<Rightarrow> u32 \<Rightarrow> ('v, 'f, 'd) fsys \<Rightarrow> ('v, 'f, 'd) fsys" where
  "Seek file pos s =
     upd_File file (\<lambda>f. let f = f\<lparr>position := pos\<rparr> in if \<not> IsWritable f \<and> fsize f < position f then f\<lparr>position := fsize f\<rparr> else f) s"

definition Write ::
  "('v, 'f, 'd) fatfs_api \<Rightarrow> u32 \<Rightarrow> u8 list option \<Rightarrow> ('v, 'f, 'd) fsys \<Rightarrow> s32 \<times> ('v, 'f, 'd) fsys" where
  "Write api file buffer s =
     (let f = the (objs s file) in
      case buffer of None \<Rightarrow> (-1, s)
      | Some buf \<Rightarrow>
          if \<not> filesystem f then (-1, s)
          else if buf = [] then (0, s)
          else if \<not> IsWritable f then (-1, s)
          else if flags f AND 1 \<noteq> 0 then (-1, s)
          else
            let start = (if openFlags f AND O_APPEND \<noteq> 0 then fsize f else position f) in
            case WriteStream api file buf s of (written, s) \<Rightarrow>
              if written = 0 then (-1, s)
              else (written, upd_File file (\<lambda>f. let f = f\<lparr>position := start + written\<rparr> in
                      if fsize f < position f then f\<lparr>fsize := position f\<rparr> else f) s))"

subsection \<open>Whole-file operations\<close>

text \<open>\<^verbatim>\<open>ListDir\<close> logs the names it reads; \<open>None\<close> is a scan that never ends.\<close>

partial_function (option) list_entries :: "('v, 'f, 'd) fatfs_api \<Rightarrow> 'd \<Rightarrow> 'v \<Rightarrow> ('d \<times> 'v) option" where
  "list_entries api d v =
     (case f_readdir api d v of (res, fname, fattrib, d, v) \<Rightarrow>
        if res = FR_OK \<and> fname \<noteq> [] then list_entries api d v else Some (d, v))"

declare list_entries.simps [code]

definition ListDir :: "('v, 'f, 'd) fatfs_api \<Rightarrow> u8 list \<Rightarrow> ('v, 'f, 'd) fsys \<Rightarrow> ('v, 'f, 'd) fsys option" where
  "ListDir api path s =
     (case PathToFatFs (w_drive s) (Some path) 256 of None \<Rightarrow> Some s
      | Some fatPath \<Rightarrow>
          (case f_opendir api fatPath (vol s) of (res, d, v) \<Rightarrow>
             if res \<noteq> FR_OK then Some (s\<lparr>vol := v\<rparr>)
             else map_option (\<lambda>(d, v). s\<lparr>vol := f_closedir api d v\<rparr>) (list_entries api d v)))"

definition CreateFile :: "('v, 'f, 'd) fatfs_api \<Rightarrow> u8 list \<Rightarrow> ('v, 'f, 'd) fsys \<Rightarrow> ('v, 'f, 'd) fsys" where
  "CreateFile api path s =
     (case PathToFatFs (w_drive s) (Some path) 256 of None \<Rightarrow> s
      | Some fatPath \<Rightarrow>
          (case f_open api fatPath (FA_CREATE_NEW OR FA_WRITE) (vol s) of (res, fil, v) \<Rightarrow>
             s\<lparr>vol := if res \<noteq> FR_OK then v else f_close api fil v\<rparr>))"

definition MakeDirectory :: "('v, 'f, 'd) fatfs_api \<Rightarrow> u8 list \<Rightarrow> ('v, 'f, 'd) fsys \<Rightarrow> ('v, 'f, 'd) fsys" where
  "MakeDirectory api path s =
     (case PathToFatFs (w_drive s) (Some path) 256 of None \<Rightarrow> s | Some fatPath \<Rightarrow> s\<lparr>vol := snd (f_mkdir api fatPath (vol s))\<rparr>)"

definition DeleteFile :: "('v, 'f, 'd) fatfs_api \<Rightarrow> u8 list \<Rightarrow> ('v, 'f, 'd) fsys \<Rightarrow> ('v, 'f, 'd) fsys" where
  "DeleteFile api path s =
     (case PathToFatFs (w_drive s) (Some path) 256 of None \<Rightarrow> s | Some fatPath \<Rightarrow> s\<lparr>vol := snd (f_unlink api fatPath (vol s))\<rparr>)"

definition DeleteDirectory :: "('v, 'f, 'd) fatfs_api \<Rightarrow> u8 list \<Rightarrow> ('v, 'f, 'd) fsys \<Rightarrow> ('v, 'f, 'd) fsys" where
  "DeleteDirectory api path s = DeleteFile api path s"

definition ReadFile :: "('v, 'f, 'd) fatfs_api \<Rightarrow> u8 list \<Rightarrow> u8 list \<Rightarrow> u32 \<Rightarrow> ('v, 'f, 'd) fsys \<Rightarrow> u8 list \<times> ('v, 'f, 'd) fsys" where
  "ReadFile api path buf len s =
     (case PathToFatFs (w_drive s) (Some path) 256 of None \<Rightarrow> (buf, s)
      | Some fatPath \<Rightarrow>
          (case f_open api fatPath FA_READ (vol s) of (res, fil, v) \<Rightarrow>
             if res \<noteq> FR_OK then (buf, s\<lparr>vol := v\<rparr>)
             else case f_read api fil len v of (_, bs, fil, v) \<Rightarrow> (overwrite buf 0 bs, s\<lparr>vol := f_close api fil v\<rparr>)))"

definition WriteFile :: "('v, 'f, 'd) fatfs_api \<Rightarrow> u8 list \<Rightarrow> u8 list \<Rightarrow> ('v, 'f, 'd) fsys \<Rightarrow> ('v, 'f, 'd) fsys" where
  "WriteFile api path buf s =
     (case PathToFatFs (w_drive s) (Some path) 256 of None \<Rightarrow> s
      | Some fatPath \<Rightarrow>
          (case f_open api fatPath (FA_CREATE_ALWAYS OR FA_WRITE) (vol s) of (res, fil, v) \<Rightarrow>
             if res \<noteq> FR_OK then s\<lparr>vol := v\<rparr>
             else case f_write api fil buf v of (_, _, fil, v) \<Rightarrow> s\<lparr>vol := f_close api fil v\<rparr>))"

definition GetFileSize :: "('v, 'f, 'd) fatfs_api \<Rightarrow> u8 list \<Rightarrow> ('v, 'f, 'd) fsys \<Rightarrow> u32" where
  "GetFileSize api path s =
     (case PathToFatFs (w_drive s) (Some path) 256 of None \<Rightarrow> 0
      | Some fatPath \<Rightarrow> (case f_stat api fatPath (vol s) of (res, _, sz) \<Rightarrow> if res = FR_OK then sz else 0))"

definition Format :: "('v, 'f, 'd) fatfs_api \<Rightarrow> ('v, 'f, 'd) fsys \<Rightarrow> ('v, 'f, 'd) fsys" where
  "Format api s = s\<lparr>vol := snd (f_mkfs api [0x30 + w_drive s, 0x3A] (vol s))\<rparr>"

subsection \<open>Descriptors\<close>

abbreviation FD_MIN :: nat where "FD_MIN \<equiv> 3"
abbreviation FD_MAX :: nat where "FD_MAX \<equiv> 128"

definition AllocateFd :: "u32 list option \<Rightarrow> u32 \<Rightarrow> s32 \<times> u32 list option" where
  "AllocateFd tab file =
     (case tab of None \<Rightarrow> (-1, tab)
      | Some t \<Rightarrow>
          if file = null_ptr then (-1, tab)
          else case find (\<lambda>fd. t ! fd = null_ptr) [FD_MIN..<FD_MAX] of
            None \<Rightarrow> (-1, tab)
          | Some fd \<Rightarrow> (of_nat fd, Some (t[fd := file])))"

definition GetFileByFd :: "u32 list option \<Rightarrow> u32 \<Rightarrow> u32" where
  "GetFileByFd tab fd =
     (case tab of None \<Rightarrow> null_ptr | Some t \<Rightarrow> if fd < of_nat FD_MIN \<or> of_nat FD_MAX \<le> fd then null_ptr else t ! unat fd)"

definition ReleaseFd :: "u32 list option \<Rightarrow> u32 \<Rightarrow> u32 list option" where
  "ReleaseFd tab fd =
     (case tab of None \<Rightarrow> None | Some t \<Rightarrow> Some (if fd < of_nat FD_MIN \<or> of_nat FD_MAX \<le> fd then t else t[unat fd := null_ptr]))"

subsection \<open>Handles\<close>

definition used_idx :: "('f, 'd) FatFsSlot list \<Rightarrow> nat set" where
  "used_idx sls = {i. i < length sls \<and> used (sls ! i)}"

lemma finite_used_idx [simp]: "finite (used_idx sls)"
  by (simp add: used_idx_def)

lemma used_idx_update:
  "i < length sls \<Longrightarrow> used_idx (sls[i := x]) = (if used x then insert i (used_idx sls) else used_idx sls - {i})"
  by (auto simp: used_idx_def nth_list_update)

lemma slot_alloc_Some:
  "slot_alloc file dir sls = Some (i, sls') \<Longrightarrow> i < length sls \<and> \<not> used (sls ! i) \<and>
     sls' = sls[i := (sls ! i)\<lparr>s_file := file, used := True, isDir := dir, dirReadCount := 0\<rparr>]"
  by (induction sls arbitrary: i sls') (auto split: if_splits)

lemma slot_alloc_None: "slot_alloc file dir sls = None \<longleftrightarrow> (\<forall>sl \<in> set sls. used sl)"
  by (induction sls) auto

lemma slot_find_Some: "slot_find file sls = Some i \<Longrightarrow> i \<in> used_idx sls \<and> s_file (sls ! i) = file"
  by (induction sls arbitrary: i) (auto simp: used_idx_def split: if_splits)

lemma slot_find_None: "slot_find file sls = None \<longleftrightarrow> (\<forall>i \<in> used_idx sls. s_file (sls ! i) \<noteq> file)"
proof -
  have "slot_find file sls = None \<longleftrightarrow> (\<forall>sl \<in> set sls. used sl \<longrightarrow> s_file sl \<noteq> file)"
    by (induction sls) auto
  also have "\<dots> \<longleftrightarrow> (\<forall>i \<in> used_idx sls. s_file (sls ! i) \<noteq> file)"
    unfolding used_idx_def by (auto simp: all_set_conv_all_nth)
  finally show ?thesis .
qed

text \<open>What FatFs promises about the number of open streams of a volume.\<close>

definition counts_handles :: "('v, 'f, 'd) fatfs_api \<Rightarrow> ('v \<Rightarrow> nat) \<Rightarrow> bool" where
  "counts_handles api opens \<longleftrightarrow>
     (\<forall>p v res d v'. f_opendir api p v = (res, d, v') \<longrightarrow> opens v' = (if res = FR_OK then Suc (opens v) else opens v)) \<and>
     (\<forall>p m v res f v'. f_open api p m v = (res, f, v') \<longrightarrow> opens v' = (if res = FR_OK then Suc (opens v) else opens v)) \<and>
     (\<forall>d v. opens (f_closedir api d v) = opens v - 1) \<and> (\<forall>f v. opens (f_close api f v) = opens v - 1) \<and>
     (\<forall>d v res nm at d' v'. f_readdir api d v = (res, nm, at, d', v') \<longrightarrow> opens v' = opens v) \<and>
     (\<forall>f n v res f' v'. f_lseek api f n v = (res, f', v') \<longrightarrow> opens v' = opens v) \<and>
     (\<forall>f n v res bs f' v'. f_read api f n v = (res, bs, f', v') \<longrightarrow> opens v' = opens v) \<and>
     (\<forall>f b v res w f' v'. f_write api f b v = (res, w, f', v') \<longrightarrow> opens v' = opens v) \<and>
     (\<forall>p v. opens (snd (f_mkdir api p v)) = opens v) \<and> (\<forall>p v. opens (snd (f_unlink api p v)) = opens v)"

lemma counts_handlesD:
  assumes "counts_handles api opens"
  shows "f_opendir api p v = (res, d, v') \<Longrightarrow> opens v' = (if res = FR_OK then Suc (opens v) else opens v)"
    "f_open api p m v = (res, f, v') \<Longrightarrow> opens v' = (if res = FR_OK then Suc (opens v) else opens v)"
    "opens (f_closedir api d v) = opens v - 1" "opens (f_close api f v) = opens v - 1"
    "f_readdir api d v = (res, nm, at, d', v') \<Longrightarrow> opens v' = opens v"
    "f_lseek api f n v = (res, f', v') \<Longrightarrow> opens v' = opens v"
    "f_read api f n v = (res, bs, f', v') \<Longrightarrow> opens v' = opens v"
    "f_write api f b v = (res, w, f', v') \<Longrightarrow> opens v' = opens v"
    "opens (snd (f_mkdir api p v)) = opens v" "opens (snd (f_unlink api p v)) = opens v"
proof -
  note c = assms [unfolded counts_handles_def]
  note t = c [THEN conjunct2, THEN conjunct2, THEN conjunct2, THEN conjunct2]
  show "f_opendir api p v = (res, d, v') \<Longrightarrow> opens v' = (if res = FR_OK then Suc (opens v) else opens v)"
    by (rule c [THEN conjunct1, rule_format])
  show "f_open api p m v = (res, f, v') \<Longrightarrow> opens v' = (if res = FR_OK then Suc (opens v) else opens v)"
    by (rule c [THEN conjunct2, THEN conjunct1, rule_format])
  show "opens (f_closedir api d v) = opens v - 1" "opens (f_close api f v) = opens v - 1" using c by simp_all
  show "f_readdir api d v = (res, nm, at, d', v') \<Longrightarrow> opens v' = opens v" by (rule t [THEN conjunct1, rule_format])
  show "f_lseek api f n v = (res, f', v') \<Longrightarrow> opens v' = opens v" by (rule t [THEN conjunct2, THEN conjunct1, rule_format])
  show "f_read api f n v = (res, bs, f', v') \<Longrightarrow> opens v' = opens v"
    by (rule t [THEN conjunct2, THEN conjunct2, THEN conjunct1, rule_format])
  show "f_write api f b v = (res, w, f', v') \<Longrightarrow> opens v' = opens v"
    by (rule t [THEN conjunct2, THEN conjunct2, THEN conjunct2, THEN conjunct1, rule_format])
  show "opens (snd (f_mkdir api p v)) = opens v" "opens (snd (f_unlink api p v)) = opens v" using c by simp_all
qed

definition stream_typed :: "('f, 'd) FatFsSlot \<Rightarrow> bool" where
  "stream_typed sl \<longleftrightarrow> (if isDir sl then (\<exists>d. u sl = DIR d) else (\<exists>f. u sl = FIL f))"

definition slot_ok :: "(u32 \<rightharpoonup> File) \<Rightarrow> ('f, 'd) FatFsSlot \<Rightarrow> bool" where
  "slot_ok ob sl \<longleftrightarrow> s_file sl \<noteq> null_ptr \<and> stream_typed sl \<and>
     (\<exists>f. ob (s_file sl) = Some f \<and> filesystem f \<and> (isDir sl \<longleftrightarrow> flags f AND 1 \<noteq> 0))"

definition fs_inv :: "('v \<Rightarrow> nat) \<Rightarrow> ('v, 'f, 'd) fsys \<Rightarrow> bool" where
  "fs_inv opens s \<longleftrightarrow> length (slots s) = 32 \<and> opens (vol s) = card (used_idx (slots s)) \<and>
     inj_on (\<lambda>i. s_file (slots s ! i)) (used_idx (slots s)) \<and> (\<forall>i \<in> used_idx (slots s). slot_ok (objs s) (slots s ! i)) \<and>
     (\<forall>p f. objs s p = Some f \<and> filesystem f \<longrightarrow> (\<exists>i \<in> used_idx (slots s). s_file (slots s ! i) = p))"

lemma fs_inv_vol: "fs_inv opens s \<Longrightarrow> opens v = opens (vol s) \<Longrightarrow> fs_inv opens (s\<lparr>vol := v\<rparr>)"
  by (simp add: fs_inv_def)

text \<open>A new handle, a changed one, a closed one.\<close>

lemma fs_inv_add:
  assumes inv: "fs_inv opens s" and i: "i < 32" "\<not> used (slots s ! i)" and p: "p \<notin> dom (objs s)" "p \<noteq> null_ptr"
    and v: "opens v = Suc (opens (vol s))" and x: "used x" "s_file x = p" "stream_typed x"
    and f: "filesystem f" "isDir x \<longleftrightarrow> flags f AND 1 \<noteq> 0"
  shows "fs_inv opens (s\<lparr>vol := v, slots := (slots s)[i := x], objs := (objs s)(p \<mapsto> f)\<rparr>)"
proof -
  have i': "i \<notin> used_idx (slots s)" using i(2) by (simp add: used_idx_def)
  have other: "s_file (slots s ! j) \<noteq> p" "slot_ok (objs s) (slots s ! j)" if "j \<in> used_idx (slots s)" for j
    using inv that p(1) by (auto simp: fs_inv_def slot_ok_def)
  have ne: "j \<noteq> i" if "j \<in> used_idx (slots s)" for j using i' that by auto
  have nth: "(slots s)[i := x] ! j = slots s ! j" if "j \<in> used_idx (slots s)" for j using ne [OF that] by simp
  have "\<exists>j \<in> insert i (used_idx (slots s)). s_file ((slots s)[i := x] ! j) = q"
    if "((objs s)(p \<mapsto> f)) q = Some g" "filesystem g" for q g
  proof (cases "q = p")
    case True
    then show ?thesis using inv i x by (auto simp: fs_inv_def)
  next
    case False
    with that inv obtain j where "j \<in> used_idx (slots s)" "s_file (slots s ! j) = q" by (auto simp: fs_inv_def)
    with nth show ?thesis by auto
  qed
  moreover have "\<forall>j \<in> insert i (used_idx (slots s)). slot_ok ((objs s)(p \<mapsto> f)) ((slots s)[i := x] ! j)"
    using inv i x f p other nth by (auto simp: fs_inv_def slot_ok_def)
  moreover have "inj_on (\<lambda>j. s_file ((slots s)[i := x] ! j)) (insert i (used_idx (slots s)))"
    using inv i x other(1) nth by (auto simp: fs_inv_def inj_on_def; blast)
  ultimately show ?thesis using inv i x v i' by (simp add: fs_inv_def used_idx_update)
qed

lemma fs_inv_touch:
  assumes inv: "fs_inv opens s" and i: "i \<in> used_idx (slots s)" and v: "opens v = opens (vol s)"
    and x: "used x" "s_file x = s_file (slots s ! i)" "isDir x = isDir (slots s ! i)" "stream_typed x"
  shows "fs_inv opens (s\<lparr>vol := v, slots := (slots s)[i := x]\<rparr>)"
proof -
  have idx: "used_idx ((slots s)[i := x]) = used_idx (slots s)"
    using i x(1) by (subst used_idx_update) (auto simp: used_idx_def)
  have sf: "s_file ((slots s)[i := x] ! j) = s_file (slots s ! j)" if "j \<in> used_idx (slots s)" for j
    using x(2) i that by (cases "j = i") (auto simp: used_idx_def)
  have "slot_ok (objs s) ((slots s)[i := x] ! j)" if "j \<in> used_idx (slots s)" for j
    using inv x i that by (cases "j = i") (auto simp: fs_inv_def slot_ok_def used_idx_def)
  with inv v sf show ?thesis by (simp add: fs_inv_def idx inj_on_def)
qed

lemma fs_inv_obj:
  assumes inv: "fs_inv opens s" and f: "objs s p = Some f" "filesystem g = filesystem f" "flags g = flags f"
  shows "fs_inv opens (s\<lparr>objs := (objs s)(p \<mapsto> g)\<rparr>)"
  using assms unfolding fs_inv_def slot_ok_def by (auto split: if_splits)

lemma fs_inv_drop:
  assumes inv: "fs_inv opens s" and i: "i \<in> used_idx (slots s)" and v: "opens v = opens (vol s) - 1"
    and x: "\<not> used x" and ob: "ob (s_file (slots s ! i)) = None \<or> (\<exists>g. ob (s_file (slots s ! i)) = Some g \<and> \<not> filesystem g)"
    "\<And>q. q \<noteq> s_file (slots s ! i) \<Longrightarrow> ob q = objs s q"
  shows "fs_inv opens (s\<lparr>vol := v, slots := (slots s)[i := x], objs := ob\<rparr>)"
proof -
  let ?p = "s_file (slots s ! i)"
  have len: "i < length (slots s)" using i by (simp add: used_idx_def)
  have ne: "s_file (slots s ! j) \<noteq> ?p" if "j \<in> used_idx (slots s) - {i}" for j
    using inv i that by (auto simp: fs_inv_def inj_on_def)
  have nth: "(slots s)[i := x] ! j = slots s ! j" if "j \<in> used_idx (slots s) - {i}" for j using that by auto
  have "slot_ok ob (slots s ! j)" if "j \<in> used_idx (slots s) - {i}" for j
    using inv that ne [OF that] ob(2) [of "s_file (slots s ! j)"] by (auto simp: fs_inv_def slot_ok_def)
  moreover have "\<exists>j \<in> used_idx (slots s) - {i}. s_file (slots s ! j) = q" if "ob q = Some f" "filesystem f" for q f
  proof -
    have "q \<noteq> ?p" using ob(1) that by auto
    with that ob(2) obtain j where "j \<in> used_idx (slots s)" "s_file (slots s ! j) = q"
      using inv by (auto simp: fs_inv_def)
    with \<open>q \<noteq> ?p\<close> show ?thesis by blast
  qed
  moreover have "inj_on (\<lambda>j. s_file ((slots s)[i := x] ! j)) (used_idx (slots s) - {i})"
    using inv nth by (auto simp: fs_inv_def inj_on_def)
  moreover have "opens v = card (used_idx (slots s) - {i})" using inv i v by (simp add: fs_inv_def)
  ultimately show ?thesis
    using inv len x nth by (simp add: fs_inv_def used_idx_update)
qed

subsection \<open>The operations keep the handles\<close>

definition fresh_file :: "(('v, 'f, 'd) fsys \<Rightarrow> u32) \<Rightarrow> bool" where
  "fresh_file newF \<longleftrightarrow> (\<forall>s. newF s \<noteq> null_ptr \<longrightarrow> newF s \<notin> dom (objs s))"

text \<open>A failed open leaves the same handles behind.\<close>

definition same_handles :: "('v \<Rightarrow> nat) \<Rightarrow> ('v, 'f, 'd) fsys \<Rightarrow> ('v, 'f, 'd) fsys \<Rightarrow> bool" where
  "same_handles opens s s' \<longleftrightarrow> objs s' = objs s \<and> opens (vol s') = opens (vol s) \<and> length (slots s') = length (slots s) \<and>
     (\<forall>i < length (slots s). used (slots s' ! i) = used (slots s ! i) \<and> (used (slots s ! i) \<longrightarrow> slots s' ! i = slots s ! i))"

lemma same_handles_refl: "opens v = opens (vol s) \<Longrightarrow> same_handles opens s (s\<lparr>vol := v\<rparr>)" "same_handles opens s s"
  by (simp_all add: same_handles_def)

lemma fs_inv_same:
  assumes "fs_inv opens s" "same_handles opens s s'"
  shows "fs_inv opens s'"
proof -
  have "used_idx (slots s') = used_idx (slots s)" using assms(2) by (auto simp: used_idx_def same_handles_def)
  moreover have "slots s' ! i = slots s ! i" if "i \<in> used_idx (slots s)" for i
    using assms(2) that by (auto simp: used_idx_def same_handles_def)
  ultimately show ?thesis using assms by (simp add: fs_inv_def same_handles_def inj_on_def)
qed

lemma open_dir_handles:
  assumes "counts_handles api opens" "fs_inv opens s" "fresh_file newF" "open_dir api newF fp nm s = (p, s')"
  shows "if p = null_ptr then same_handles opens s s' else fs_inv opens s'"
proof -
  obtain res d v where o: "f_opendir api fp (vol s) = (res, d, v)" by (cases "f_opendir api fp (vol s)") auto
  note ov = counts_handlesD(1) [OF assms(1) o]
  show ?thesis
  proof (cases "res = FR_OK")
    case False
    with assms(4) o ov show ?thesis by (auto simp: open_dir_def same_handles_refl)
  next
    case True
    show ?thesis
    proof (cases "slot_alloc null_ptr True (slots s)")
      case None
      with assms(4) o ov True counts_handlesD(3) [OF assms(1), of d v] show ?thesis
        by (auto simp: open_dir_def Let_def same_handles_def)
    next
      case (Some r)
      obtain i sls where r: "r = (i, sls)" by fastforce
      have len: "length (slots s) = 32" using assms(2) by (simp add: fs_inv_def)
      have i: "i < 32" "\<not> used (slots s ! i)"
        and sls: "sls = (slots s)[i := (slots s ! i)\<lparr>s_file := 0, used := True, isDir := True, dirReadCount := 0\<rparr>]"
        using slot_alloc_Some [OF Some [unfolded r]] len by auto
      define s1 where "s1 = set_stream i (DIR d) (s\<lparr>vol := v, slots := sls\<rparr>)"
      have res: "(p, s') = (if newF s1 = null_ptr then (null_ptr, s1\<lparr>vol := f_closedir api d v, slots := slot_free i (slots s1)\<rparr>)
          else (newF s1, s1\<lparr>objs := (objs s)(newF s1 \<mapsto> new_File\<lparr>name := nm, filesystem := True, flags := 1, openFlags := O_RDONLY\<rparr>),
                       slots := (slots s1)[i := (slots s1 ! i)\<lparr>s_file := newF s1\<rparr>]\<rparr>))"
        using assms(4) o True Some r by (auto simp: open_dir_def Let_def s1_def set_stream_def split: if_splits)
      show ?thesis
      proof (cases "newF s1 = null_ptr")
        case True
        with res show ?thesis
          using i len ov \<open>res = FR_OK\<close> counts_handlesD(3) [OF assms(1), of d v]
          by (auto simp: same_handles_def s1_def set_stream_def sls slot_free_def nth_list_update)
      next
        case False
        then have "newF s1 \<notin> dom (objs s)" using assms(3) unfolding fresh_file_def by (force simp: s1_def set_stream_def)
        moreover define x where "x = (slots s1 ! i)\<lparr>s_file := newF s1\<rparr>"
        have x: "used x" "s_file x = newF s1" "stream_typed x" "isDir x"
          using i len by (simp_all add: x_def s1_def set_stream_def sls stream_typed_def)
        have "s' = s\<lparr>vol := v, slots := (slots s)[i := x],
            objs := (objs s)(newF s1 \<mapsto> new_File\<lparr>name := nm, filesystem := True, flags := 1, openFlags := O_RDONLY\<rparr>)\<rparr>"
          using res False by (intro fsys.equality) (simp_all add: x_def s1_def set_stream_def sls)
        ultimately have "fs_inv opens s'"
          using False fs_inv_add [OF assms(2) i _ False _ x(1-3)] ov \<open>res = FR_OK\<close> x(4) by simp
        with False res show ?thesis by simp
      qed
    qed
  qed
qed

lemma open_file_handles:
  assumes "counts_handles api opens" "fs_inv opens s" "fresh_file newF" "open_file api newF fp path mode fl s = (p, s')"
  shows "if p = null_ptr then same_handles opens s s' else fs_inv opens s'"
proof -
  obtain res f v where o: "f_open api fp mode (vol s) = (res, f, v)" by (cases "f_open api fp mode (vol s)") auto
  note ov = counts_handlesD(2) [OF assms(1) o]
  let ?f = "first_cluster api f" and ?s = "s\<lparr>vol := v\<rparr>"
  show ?thesis
  proof (cases "res = FR_OK \<and> newF ?s \<noteq> null_ptr \<and> slot_alloc (newF ?s) False (slots s) \<noteq> None")
    case False
    with assms(4) o ov counts_handlesD(4) [OF assms(1), of ?f v] show ?thesis
      by (auto simp: open_file_def Let_def same_handles_def split: if_splits option.splits)
  next
    case True
    then obtain i sls where al: "slot_alloc (newF ?s) False (slots s) = Some (i, sls)" by fastforce
    have len: "length (slots s) = 32" using assms(2) by (simp add: fs_inv_def)
    have i: "i < 32" "\<not> used (slots s ! i)"
      and sls: "sls = (slots s)[i := (slots s ! i)\<lparr>s_file := newF ?s, used := True, isDir := False, dirReadCount := 0\<rparr>]"
      using slot_alloc_Some [OF al] len by auto
    define x where "x = (sls ! i)\<lparr>u := FIL ?f\<rparr>"
    define g where "g = new_File\<lparr>name := file_name path, fsize := f_size api ?f, filesystem := True, flags := 0, openFlags := fl\<rparr>"
    have x: "used x" "s_file x = newF ?s" "stream_typed x" "\<not> isDir x"
      using i len by (simp_all add: x_def sls stream_typed_def)
    have ps: "p = newF ?s" "s' = (set_stream i (FIL ?f) (s\<lparr>vol := v, slots := sls\<rparr>))\<lparr>objs := (objs s)(newF ?s \<mapsto> g)\<rparr>"
      using assms(4) o True al by (auto simp: open_file_def Let_def g_def)
    have "s' = s\<lparr>vol := v, slots := (slots s)[i := x], objs := (objs s)(newF ?s \<mapsto> g)\<rparr>"
      unfolding ps(2) by (intro fsys.equality) (simp_all add: x_def set_stream_def sls)
    moreover have "newF ?s \<notin> dom (objs s)" using assms(3) True unfolding fresh_file_def by force
    ultimately have "fs_inv opens s'"
      using True fs_inv_add [OF assms(2) i _ _ _ x(1-3), of v g] ov x(4) by (simp add: g_def)
    with True ps(1) show ?thesis by simp
  qed
qed

lemma OpenWithFlags_handles:
  assumes "counts_handles api opens" "fs_inv opens s" "fresh_file newF" "OpenWithFlags api newF path fl s = (p, s')"
  shows "if p = null_ptr then same_handles opens s s' else fs_inv opens s'"
  using assms(4) open_dir_handles [OF assms(1-3), of _ _ p s'] open_file_handles [OF assms(1-3), of _ _ _ _ p s']
  by (auto simp: OpenWithFlags_def Let_def same_handles_refl split: option.splits if_splits prod.splits)

lemma close_stream_count: "counts_handles api opens \<Longrightarrow> opens (close_stream api sl v) = opens v - 1"
  by (simp add: close_stream_def counts_handlesD(3,4))

lemma Close_inv:
  assumes "counts_handles api opens" "fs_inv opens s" "objs s p = Some f"
  shows "fs_inv opens (Close api p s)"
proof (cases "filesystem f")
  case True
  then obtain i where i: "i \<in> used_idx (slots s)" "s_file (slots s ! i) = p" using assms(2,3) by (auto simp: fs_inv_def)
  then obtain j where find: "slot_find p (slots s) = Some j"
    using slot_find_None [of p "slots s"] by (cases "slot_find p (slots s)") auto
  have j: "j \<in> used_idx (slots s)" "s_file (slots s ! j) = p" using slot_find_Some [OF find] by auto
  have "p \<noteq> null_ptr" using assms(2) j by (auto simp: fs_inv_def slot_ok_def)
  then have "Close api p s = s\<lparr>vol := close_stream api (slots s ! j) (vol s), slots := (slots s)[j := (slots s ! j)\<lparr>s_file := 0, used := False\<rparr>],
      objs := (objs s)(p \<mapsto> f\<lparr>filesystem := False\<rparr>)\<rparr>"
    using True assms(3) find by (simp add: Close_def CloseFile_def Let_def slot_free_def)
  moreover have "fs_inv opens \<dots>"
    using j close_stream_count [OF assms(1)] by (intro fs_inv_drop [OF assms(2)]) auto
  ultimately show ?thesis by simp
qed (use assms in \<open>simp add: Close_def\<close>)

lemma delete_File_inv:
  assumes "counts_handles api opens" "fs_inv opens s" "objs s p = Some f"
  shows "fs_inv opens (delete_File api p s)"
proof -
  have "fs_inv opens (Close api p s)" by (rule Close_inv [OF assms])
  moreover have "\<exists>g. objs (Close api p s) p = Some g \<and> \<not> filesystem g" using assms(3) by (auto simp: Close_def Let_def)
  ultimately show ?thesis unfolding delete_File_def Let_def fs_inv_def slot_ok_def by (auto split: if_splits)
qed

text \<open>Transfers touch one stream and the volume, and keep the type of the stream.\<close>

definition touched :: "('v \<Rightarrow> nat) \<Rightarrow> ('v, 'f, 'd) fsys \<Rightarrow> ('v, 'f, 'd) fsys \<Rightarrow> bool" where
  "touched opens s s' \<longleftrightarrow> objs s' = objs s \<and> (fs_inv opens s \<longrightarrow> fs_inv opens s')"

lemma touched_refl: "touched opens s s"
  by (simp add: touched_def)

lemma touched_trans: "touched opens s s' \<Longrightarrow> touched opens s' s'' \<Longrightarrow> touched opens s s''"
  by (auto simp: touched_def)

lemma touch_file:
  assumes "opens v = opens (vol s)" "i \<in> used_idx (slots s)" "\<not> isDir (slots s ! i)"
  shows "touched opens s (set_stream i (FIL f) (s\<lparr>vol := v\<rparr>))"
    and "i \<in> used_idx (slots (set_stream i (FIL f) (s\<lparr>vol := v\<rparr>)))" "\<not> isDir (slots (set_stream i (FIL f) (s\<lparr>vol := v\<rparr>)) ! i)"
proof -
  have "used (slots s ! i)" using assms(2) by (simp add: used_idx_def)
  with fs_inv_touch [OF _ assms(2,1), of "(slots s ! i)\<lparr>u := FIL f\<rparr>"] assms(3)
  show "touched opens s (set_stream i (FIL f) (s\<lparr>vol := v\<rparr>))" by (simp add: touched_def set_stream_def stream_typed_def)
qed (use assms in \<open>auto simp: set_stream_def used_idx_def nth_list_update\<close>)

lemma skip_entries_opens:
  assumes "counts_handles api opens" "skip_entries api pos sk cnt d v = Some r"
  shows "opens (snd (snd r)) = opens v"
proof -
  have "api = api \<longrightarrow> opens (snd (snd r)) = opens v"
  proof (rule skip_entries.raw_induct [where P = "\<lambda>api' pos sk cnt d v r. api' = api \<longrightarrow> opens (snd (snd r)) = opens v", OF _ assms(2)], rule impI)
    fix rec api' pos sk cnt d v r
    assume IH: "\<And>api' pos sk cnt d v r. rec api' pos sk cnt d v = Some r \<Longrightarrow> api' = api \<longrightarrow> opens (snd (snd r)) = opens v"
      and step: "(if sk < pos then case f_readdir api' d v of (res, fname, fattrib, d, v) \<Rightarrow>
          if res \<noteq> FR_OK \<or> fname = [] then Some (cnt, d, v) else rec api' pos (sk + reclen fname) (cnt + 1) d v
        else Some (cnt, d, v)) = Some r" and "api' = api"
    obtain res nm at d' v' where r: "f_readdir api d v = (res, nm, at, d', v')" by (cases "f_readdir api d v") auto
    from step \<open>api' = api\<close> r counts_handlesD(5) [OF assms(1) r] IH [of api pos "sk + reclen nm" "cnt + 1" d' v' r]
    show "opens (snd (snd r)) = opens v" by (auto split: if_splits)
  qed
  then show ?thesis by simp
qed

lemma emit_entries_opens:
  assumes "counts_handles api opens" "emit_entries api len tot buf cnt d v = Some r"
  shows "opens (snd (snd (snd (snd r)))) = opens v"
proof -
  have "api = api \<longrightarrow> opens (snd (snd (snd (snd r)))) = opens v"
  proof (rule emit_entries.raw_induct [where P = "\<lambda>api' len tot buf cnt d v r. api' = api \<longrightarrow> opens (snd (snd (snd (snd r)))) = opens v", OF _ assms(2)], rule impI)
    fix rec api' len tot buf cnt d v r
    assume IH: "\<And>api' len tot buf cnt d v r. rec api' len tot buf cnt d v = Some r \<Longrightarrow> api' = api \<longrightarrow> opens (snd (snd (snd (snd r)))) = opens v"
      and step: "(if tot + 7 \<le> len then case f_readdir api' d v of (res, fname, fattrib, d, v) \<Rightarrow>
          if res \<noteq> FR_OK \<or> fname = [] then Some (tot, buf, cnt, d, v)
          else if len < tot + reclen fname then Some (tot, buf, cnt, d, v)
          else rec api' len (tot + reclen fname) (overwrite buf (unat tot) (dirent_bytes fname fattrib)) (cnt + 1) d v
        else Some (tot, buf, cnt, d, v)) = Some r" and "api' = api"
    obtain res nm at d' v' where r: "f_readdir api d v = (res, nm, at, d', v')" by (cases "f_readdir api d v") auto
    from step \<open>api' = api\<close> r counts_handlesD(5) [OF assms(1) r]
      IH [of api len "tot + reclen nm" "overwrite buf (unat tot) (dirent_bytes nm at)" "cnt + 1" d' v' r]
    show "opens (snd (snd (snd (snd r)))) = opens v" by (auto split: if_splits)
  qed
  then show ?thesis by simp
qed

lemma read_dir_touched:
  assumes "counts_handles api opens" "i \<in> used_idx (slots s)" "isDir (slots s ! i)" "read_dir api i pos buf len s = Some (n, buf', s')"
  shows "touched opens s s'"
proof -
  obtain cnt d v tot buf'' cnt' d' v' where r:
    "skip_entries api pos 0 (dirReadCount (slots s ! i)) (f_rewinddir api (dir_of (u (slots s ! i))) (vol s)) (vol s) = Some (cnt, d, v)"
    "emit_entries api len 0 buf cnt d v = Some (tot, buf'', cnt', d', v')"
    "s' = s\<lparr>vol := v', slots := (slots s)[i := (slots s ! i)\<lparr>u := DIR d', dirReadCount := cnt'\<rparr>]\<rparr>"
    using assms(4) by (auto simp: read_dir_def Let_def split: option.splits)
  have "opens v' = opens (vol s)" using skip_entries_opens [OF assms(1) r(1)] emit_entries_opens [OF assms(1) r(2)] by simp
  moreover have "used (slots s ! i)" using assms(2) by (simp add: used_idx_def)
  ultimately show ?thesis
    using assms(2,3) unfolding touched_def r(3) by (auto simp: stream_typed_def intro!: fs_inv_touch)
qed

lemma ReadStream_touched:
  assumes "counts_handles api opens" "ReadStream api p buf len s = Some (n, buf', s')"
  shows "touched opens s s'"
proof (cases "p = null_ptr \<or> len = 0 \<or> slot_find p (slots s) = None")
  case True
  with assms(2) show ?thesis by (auto simp: ReadStream_def touched_refl split: if_splits)
next
  case False
  then obtain i where find: "slot_find p (slots s) = Some i" by auto
  have i: "i \<in> used_idx (slots s)" using slot_find_Some [OF find] by simp
  show ?thesis
  proof (cases "isDir (slots s ! i)")
    case True
    with assms False find i show ?thesis by (auto simp: ReadStream_def Let_def intro: read_dir_touched)
  next
    case reg: False
    obtain res f v where l: "f_lseek api (fil_of (u (slots s ! i))) (position (the (objs s p))) (vol s) = (res, f, v)"
      by (cases "f_lseek api (fil_of (u (slots s ! i))) (position (the (objs s p))) (vol s)") auto
    obtain res' bs f' v' where rd: "f_read api f len v = (res', bs, f', v')" by (cases "f_read api f len v") auto
    note t1 = touch_file [OF counts_handlesD(6) [OF assms(1) l] i reg, of f]
    have "opens v' = opens (vol (set_stream i (FIL f) (s\<lparr>vol := v\<rparr>)))"
      using counts_handlesD(7) [OF assms(1) rd] by (simp add: set_stream_def)
    note t2 = touch_file [OF this t1(2,3), of f']
    from assms(2) False find reg l rd show ?thesis
      using t1(1) touched_trans [OF t1(1) t2(1)] by (auto simp: ReadStream_def Let_def set_stream_def split: if_splits)
  qed
qed

lemma WriteStream_touched:
  assumes "counts_handles api opens" "WriteStream api p buf s = (n, s')"
  shows "touched opens s s'"
proof (cases "p = null_ptr \<or> buf = [] \<or> slot_find p (slots s) = None")
  case True
  with assms(2) show ?thesis by (auto simp: WriteStream_def touched_refl split: if_splits)
next
  case False
  then obtain i where find: "slot_find p (slots s) = Some i" by auto
  have i: "i \<in> used_idx (slots s)" using slot_find_Some [OF find] by simp
  show ?thesis
  proof (cases "isDir (slots s ! i)")
    case True
    with assms False find show ?thesis by (auto simp: WriteStream_def Let_def touched_refl)
  next
    case reg: False
    define t where "t = (if openFlags (the (objs s p)) AND O_APPEND \<noteq> 0 then f_size api (fil_of (u (slots s ! i))) else position (the (objs s p)))"
    define g where "g = (if t = 0 then first_cluster api (fil_of (u (slots s ! i))) else fil_of (u (slots s ! i)))"
    obtain res f v where l: "f_lseek api g t (vol s) = (res, f, v)" by (cases "f_lseek api g t (vol s)") auto
    obtain res' w f' v' where wr: "f_write api f buf v = (res', w, f', v')" by (cases "f_write api f buf v") auto
    note t1 = touch_file [OF counts_handlesD(6) [OF assms(1) l] i reg, of f]
    have "opens v' = opens (vol (set_stream i (FIL f) (s\<lparr>vol := v\<rparr>)))"
      using counts_handlesD(8) [OF assms(1) wr] by (simp add: set_stream_def)
    note t2 = touch_file [OF this t1(2,3), of f']
    have "WriteStream api p buf s = (case f_lseek api g t (vol s) of (res, fil, v) \<Rightarrow>
              let s = set_stream i (FIL fil) (s\<lparr>vol := v\<rparr>) in
              if res \<noteq> FR_OK then (0, s)
              else case f_write api fil buf (vol s) of (res, bw, fil, v) \<Rightarrow>
                let s = set_stream i (FIL fil) (s\<lparr>vol := v\<rparr>) in
                if res \<noteq> FR_OK then (0, s) else (bw, s))"
      using False find reg by (simp add: WriteStream_def Let_def t_def g_def)
    with assms(2) l wr show ?thesis
      using t1(1) touched_trans [OF t1(1) t2(1)] by (auto simp: Let_def set_stream_def split: if_splits)
  qed
qed

lemma fs_inv_upd:
  assumes "fs_inv opens s" "objs s p = Some f" "filesystem (g f) = filesystem f" "flags (g f) = flags f"
  shows "fs_inv opens (upd_File p g s)"
  using fs_inv_obj [OF assms(1,2), of "g f"] assms by (simp add: upd_File_def)

lemma Read_inv:
  assumes "counts_handles api opens" "fs_inv opens s" "objs s p = Some f" "Read api p buf len s = Some (n, buf', s')"
  shows "fs_inv opens s'"
proof -
  have "fs_inv opens (upd_File p (\<lambda>f. f\<lparr>position := position f + k\<rparr>) s1)"
    if "ReadStream api p b l s = Some (k, b', s1)" for b l k b' s1
    using ReadStream_touched [OF assms(1) that] assms(2,3) by (intro fs_inv_upd [of _ _ _ f]) (auto simp: touched_def)
  with assms show ?thesis by (auto simp: Read_def Let_def split: if_splits option.splits)
qed

lemma Seek_inv: "fs_inv opens s \<Longrightarrow> objs s p = Some f \<Longrightarrow> fs_inv opens (Seek p pos s)"
  unfolding Seek_def by (rule fs_inv_upd) (auto simp: Let_def)

lemma Write_inv:
  assumes "counts_handles api opens" "fs_inv opens s" "objs s p = Some f" "Write api p buf s = (n, s')"
  shows "fs_inv opens s'"
proof -
  have "fs_inv opens s1 \<and> fs_inv opens (upd_File p (\<lambda>f. let f = f\<lparr>position := st + k\<rparr> in
      if File.fsize f < position f then f\<lparr>fsize := position f\<rparr> else f) s1)" if "WriteStream api p b s = (k, s1)" for b k s1 st
    using WriteStream_touched [OF assms(1) that] assms(2,3) by (auto simp: touched_def Let_def intro!: fs_inv_upd [of _ _ _ f] split: if_splits)
  with assms show ?thesis by (auto simp: Write_def Let_def split: if_splits option.splits prod.splits)
qed

lemma list_entries_opens:
  assumes "counts_handles api opens" "list_entries api d v = Some r"
  shows "opens (snd r) = opens v"
proof -
  have "api = api \<longrightarrow> opens (snd r) = opens v"
  proof (rule list_entries.raw_induct [where P = "\<lambda>api' d v r. api' = api \<longrightarrow> opens (snd r) = opens v", OF _ assms(2)], rule impI)
    fix rec api' d v r
    assume IH: "\<And>api' d v r. rec api' d v = Some r \<Longrightarrow> api' = api \<longrightarrow> opens (snd r) = opens v"
      and step: "(case f_readdir api' d v of (res, fname, fattrib, d, v) \<Rightarrow>
        if res = FR_OK \<and> fname \<noteq> [] then rec api' d v else Some (d, v)) = Some r" and "api' = api"
    obtain res nm at d' v' where r: "f_readdir api d v = (res, nm, at, d', v')" by (cases "f_readdir api d v") auto
    from step \<open>api' = api\<close> r counts_handlesD(5) [OF assms(1) r] IH [of api d' v' r]
    show "opens (snd r) = opens v" by (auto split: if_splits)
  qed
  then show ?thesis by simp
qed

text \<open>The whole-file operations open and close in one call.\<close>

lemma whole_file_opens:
  assumes "counts_handles api opens"
  shows "\<exists>v. CreateFile api path s = s\<lparr>vol := v\<rparr> \<and> opens v = opens (vol s)"
    "\<exists>v. MakeDirectory api path s = s\<lparr>vol := v\<rparr> \<and> opens v = opens (vol s)"
    "\<exists>v. DeleteFile api path s = s\<lparr>vol := v\<rparr> \<and> opens v = opens (vol s)"
    "\<exists>v. snd (ReadFile api path buf len s) = s\<lparr>vol := v\<rparr> \<and> opens v = opens (vol s)"
    "\<exists>v. WriteFile api path buf s = s\<lparr>vol := v\<rparr> \<and> opens v = opens (vol s)"
    "ListDir api path s = Some s' \<Longrightarrow> \<exists>v. s' = s\<lparr>vol := v\<rparr> \<and> opens v = opens (vol s)"
proof -
  note c = counts_handlesD [OF assms]
  have id: "\<exists>v. s = s\<lparr>vol := v\<rparr> \<and> opens v = opens (vol s)" by (rule exI [of _ "vol s"]) simp
  have "(\<exists>v. CreateFile api path s = s\<lparr>vol := v\<rparr> \<and> opens v = opens (vol s)) \<and>
    (\<exists>v. snd (ReadFile api path buf len s) = s\<lparr>vol := v\<rparr> \<and> opens v = opens (vol s)) \<and>
    (\<exists>v. WriteFile api path buf s = s\<lparr>vol := v\<rparr> \<and> opens v = opens (vol s))"
  proof (cases "PathToFatFs (w_drive s) (Some path) 256")
    case None
    then show ?thesis using id by (simp add: CreateFile_def ReadFile_def WriteFile_def)
  next
    case (Some fp)
    have "\<exists>v. CreateFile api path s = s\<lparr>vol := v\<rparr> \<and> opens v = opens (vol s)"
    proof -
      obtain r f v where o: "f_open api fp (FA_CREATE_NEW OR FA_WRITE) (vol s) = (r, f, v)" by (metis prod_cases3)
      then show ?thesis using Some c(2) [OF o] c(4) [of f v] by (auto simp: CreateFile_def)
    qed
    moreover have "\<exists>v. snd (ReadFile api path buf len s) = s\<lparr>vol := v\<rparr> \<and> opens v = opens (vol s)"
    proof -
      obtain r f v where o: "f_open api fp FA_READ (vol s) = (r, f, v)" by (metis prod_cases3)
      obtain r' bs f' v' where rd: "f_read api f len v = (r', bs, f', v')" by (metis prod_cases4)
      show ?thesis using Some o rd c(2) [OF o] c(7) [OF rd] c(4) [of f' v'] by (auto simp: ReadFile_def)
    qed
    moreover have "\<exists>v. WriteFile api path buf s = s\<lparr>vol := v\<rparr> \<and> opens v = opens (vol s)"
    proof -
      obtain r f v where o: "f_open api fp (FA_CREATE_ALWAYS OR FA_WRITE) (vol s) = (r, f, v)" by (metis prod_cases3)
      obtain r' n f' v' where wr: "f_write api f buf v = (r', n, f', v')" by (metis prod_cases4)
      show ?thesis using Some o wr c(2) [OF o] c(8) [OF wr] c(4) [of f' v'] by (auto simp: WriteFile_def)
    qed
    ultimately show ?thesis by blast
  qed
  then show "\<exists>v. CreateFile api path s = s\<lparr>vol := v\<rparr> \<and> opens v = opens (vol s)"
    "\<exists>v. snd (ReadFile api path buf len s) = s\<lparr>vol := v\<rparr> \<and> opens v = opens (vol s)"
    "\<exists>v. WriteFile api path buf s = s\<lparr>vol := v\<rparr> \<and> opens v = opens (vol s)" by blast+
  show "\<exists>v. MakeDirectory api path s = s\<lparr>vol := v\<rparr> \<and> opens v = opens (vol s)"
    "\<exists>v. DeleteFile api path s = s\<lparr>vol := v\<rparr> \<and> opens v = opens (vol s)"
    using id c(9,10) by (auto simp: MakeDirectory_def DeleteFile_def split: option.split)
  show "\<exists>v. s' = s\<lparr>vol := v\<rparr> \<and> opens v = opens (vol s)" if ld: "ListDir api path s = Some s'"
  proof (cases "PathToFatFs (w_drive s) (Some path) 256")
    case None
    then show ?thesis using id ld by (simp add: ListDir_def)
  next
    case (Some fp)
    obtain r d v where o: "f_opendir api fp (vol s) = (r, d, v)" by (metis prod_cases3)
    show ?thesis
      using ld Some o c(1) [OF o] c(3) list_entries_opens [OF assms, of d v] by (auto simp: ListDir_def split: if_splits)
  qed
qed

text \<open>A descriptor is the lowest free one, gives back its file, and is the only entry that changes.\<close>

lemma AllocateFd_lowest:
  assumes "length t = 128" "file \<noteq> null_ptr" "AllocateFd (Some t) file = (fd, tab)"
  shows "if \<forall>k. 3 \<le> k \<and> k < 128 \<longrightarrow> t ! k \<noteq> null_ptr then fd = -1 \<and> tab = Some t
    else \<exists>k. fd = of_nat k \<and> 3 \<le> k \<and> k < 128 \<and> t ! k = null_ptr \<and> (\<forall>j. 3 \<le> j \<and> j < k \<longrightarrow> t ! j \<noteq> null_ptr) \<and>
      tab = Some (t[k := file]) \<and> GetFileByFd tab fd = file \<and> ReleaseFd tab fd = Some t"
proof (cases "find (\<lambda>fd. t ! fd = null_ptr) [3..<128]")
  case None
  then have "\<forall>k. 3 \<le> k \<and> k < 128 \<longrightarrow> t ! k \<noteq> null_ptr" by (simp add: find_None_iff del: upt_rec_numeral)
  moreover have "fd = -1" "tab = Some t" using assms None by (simp_all add: AllocateFd_def del: upt_rec_numeral)
  ultimately show ?thesis by simp
next
  case (Some k)
  then obtain i where i: "i < 125" "k = 3 + i" "t ! k = null_ptr" "\<forall>j<i. t ! (3 + j) \<noteq> null_ptr"
    by (auto simp: find_Some_iff simp del: upt_rec_numeral)
  have low: "t ! j \<noteq> null_ptr" if "3 \<le> j" "j < k" for j
    using i(4) [rule_format, of "j - 3"] that i(2) by simp
  have k: "3 \<le> k" "k < 128" using i by auto
  have fd: "fd = of_nat k" "tab = Some (t[k := file])" using assms Some by (simp_all add: AllocateFd_def del: upt_rec_numeral)
  have rng: "\<not> (of_nat k < (3 :: u32) \<or> 128 \<le> (of_nat k :: u32))" using k by (simp add: word_less_nat_alt word_le_nat_alt)
  have "GetFileByFd tab fd = file" "ReleaseFd tab fd = Some t"
    using k assms(1) i(3) rng list_update_id [of t k] by (simp_all add: fd GetFileByFd_def ReleaseFd_def)
  with k i(3) low fd show ?thesis by auto
qed

subsection \<open>Properties\<close>

text \<open>A freshly mounted wrapper, and what the kernel does with it and its files.\<close>

definition mounted :: "u8 \<Rightarrow> 'v \<Rightarrow> ('v, 'f, 'd) fsys" where
  "mounted drive v = \<lparr>w_drive = drive, slots = replicate 32 empty_slot, vol = v, objs = Map.empty\<rparr>"

inductive fsys_reachable ::
  "('v, 'f, 'd) fatfs_api \<Rightarrow> (('v, 'f, 'd) fsys \<Rightarrow> u32) \<Rightarrow> ('v \<Rightarrow> nat) \<Rightarrow> ('v, 'f, 'd) fsys \<Rightarrow> bool" for api newF opens where
  mount: "opens v = 0 \<Longrightarrow> fsys_reachable api newF opens (mounted drive v)"
| openf: "fsys_reachable api newF opens s \<Longrightarrow> OpenWithFlags api newF path fl s = (p, s') \<Longrightarrow> fsys_reachable api newF opens s'"
| readf: "fsys_reachable api newF opens s \<Longrightarrow> p \<in> dom (objs s) \<Longrightarrow> Read api p buf len s = Some (n, buf', s') \<Longrightarrow>
    fsys_reachable api newF opens s'"
| writef: "fsys_reachable api newF opens s \<Longrightarrow> p \<in> dom (objs s) \<Longrightarrow> Write api p buf s = (n, s') \<Longrightarrow> fsys_reachable api newF opens s'"
| seekf: "fsys_reachable api newF opens s \<Longrightarrow> p \<in> dom (objs s) \<Longrightarrow> fsys_reachable api newF opens (Seek p pos s)"
| closef: "fsys_reachable api newF opens s \<Longrightarrow> p \<in> dom (objs s) \<Longrightarrow> fsys_reachable api newF opens (Close api p s)"
| deletef: "fsys_reachable api newF opens s \<Longrightarrow> p \<in> dom (objs s) \<Longrightarrow> fsys_reachable api newF opens (delete_File api p s)"
| createf: "fsys_reachable api newF opens s \<Longrightarrow> fsys_reachable api newF opens (CreateFile api path s)"
| mkdirf: "fsys_reachable api newF opens s \<Longrightarrow> fsys_reachable api newF opens (MakeDirectory api path s)"
| unlinkf: "fsys_reachable api newF opens s \<Longrightarrow> fsys_reachable api newF opens (DeleteFile api path s)"
| readallf: "fsys_reachable api newF opens s \<Longrightarrow> fsys_reachable api newF opens (snd (ReadFile api path buf len s))"
| writeallf: "fsys_reachable api newF opens s \<Longrightarrow> fsys_reachable api newF opens (WriteFile api path buf s)"
| listf: "fsys_reachable api newF opens s \<Longrightarrow> ListDir api path s = Some s' \<Longrightarrow> fsys_reachable api newF opens s'"

lemma mounted_inv:
  assumes "opens v = 0"
  shows "fs_inv opens (mounted drive v)" (is "fs_inv opens ?s")
proof -
  have "used_idx (slots ?s) = {}" by (auto simp: used_idx_def empty_slot_def mounted_def)
  moreover have "length (slots ?s) = 32" "vol ?s = v" "objs ?s = Map.empty" by (simp_all add: mounted_def)
  ultimately show ?thesis using assms by (simp add: fs_inv_def)
qed

text \<open>
  Property C26. Handles are never lost, shared or confused: after any sequence of opens, reads,
  writes, seeks, closes, deletions and whole-file operations, successful or not, the streams that FatFs
  has open are exactly as many as the used slots; every bound \<^verbatim>\<open>File\<close> has exactly one slot and every
  used slot one bound \<^verbatim>\<open>File\<close>; and the union of a slot holds the member (\<^verbatim>\<open>FIL\<close> or \<^verbatim>\<open>DIR\<close>) that
  its \<^verbatim>\<open>isDir\<close> flag and the flags of the \<^verbatim>\<open>File\<close> say.
\<close>

theorem file_handles_typed:
  assumes "counts_handles api opens" "fresh_file newF" "fsys_reachable api newF opens s"
  shows "fs_inv opens s"
  using assms(3)
proof induction
  case (openf s path fl p s')
  from OpenWithFlags_handles [OF assms(1) openf.IH assms(2) openf.hyps(2)] openf.IH show ?case
    by (auto split: if_splits intro: fs_inv_same)
next
  case (mount v drive)
  then show ?case by (rule mounted_inv)
next
  case (createf s path)
  then show ?case using whole_file_opens(1) [OF assms(1), of path s] by (auto intro: fs_inv_vol)
next
  case (mkdirf s path)
  then show ?case using whole_file_opens(2) [OF assms(1), of path s] by (auto intro: fs_inv_vol)
next
  case (unlinkf s path)
  then show ?case using whole_file_opens(3) [OF assms(1), of path s] by (auto intro: fs_inv_vol)
next
  case (readallf s path buf len)
  then show ?case using whole_file_opens(4) [OF assms(1), of path buf len s] by (auto intro: fs_inv_vol)
next
  case (writeallf s path buf)
  then show ?case using whole_file_opens(5) [OF assms(1), of path buf s] by (auto intro: fs_inv_vol)
next
  case (listf s path s')
  then show ?case using whole_file_opens(6) [OF assms(1), of path s s'] by (auto intro: fs_inv_vol)
qed (auto intro: Read_inv Write_inv Seek_inv Close_inv delete_File_inv assms(1))

text \<open>
  Property C28. A failed \<^verbatim>\<open>OpenWithFlags\<close> (bad flags or path, missing file, FatFs error, no free slot, no
  memory) returns null and leaves no trace in the handles: the same \<^verbatim>\<open>File\<close> objects, the same used
  slots with the same contents, and as many open streams as before.
\<close>

theorem OpenWithFlags_fails_clean:
  assumes "counts_handles api opens" "fs_inv opens s" "fresh_file newF" "OpenWithFlags api newF path fl s = (null_ptr, s')"
  shows "objs s' = objs s \<and> opens (vol s') = opens (vol s) \<and> used_idx (slots s') = used_idx (slots s) \<and>
    (\<forall>i. i \<in> used_idx (slots s) \<longrightarrow> slots s' ! i = slots s ! i)"
  using OpenWithFlags_handles [OF assms] by (auto simp: same_handles_def used_idx_def)

text \<open>
  What FatFs promises about the bytes of files: \<open>fid\<close> names the file of a stream that can be used (\<open>None\<close> once it is closed or has met
  an error) and \<open>ptr\<close> is its pointer. On such a stream, seeking inside the file and reading succeed.
\<close>

definition reads_bytes :: "('v, 'f, 'd) fatfs_api \<Rightarrow> ('f \<Rightarrow> 'k option) \<Rightarrow> ('f \<Rightarrow> nat) \<Rightarrow> ('v \<Rightarrow> 'k \<Rightarrow> u8 list) \<Rightarrow> bool" where
  "reads_bytes api fid ptr cont \<longleftrightarrow>
     (\<forall>f k. fid f = Some k \<longrightarrow> fid (first_cluster api f) = Some k) \<and>
     (\<forall>f k n v. fid f = Some k \<and> unat n \<le> length (cont v k) \<longrightarrow>
        (\<exists>f' v'. f_lseek api f n v = (FR_OK, f', v') \<and> fid f' = Some k \<and> ptr f' = unat n \<and> cont v' = cont v)) \<and>
     (\<forall>f k n v. fid f = Some k \<longrightarrow>
        (\<exists>f' v'. f_read api f n v = (FR_OK, take (unat n) (drop (ptr f) (cont v k)), f', v') \<and> fid f' = Some k \<and> cont v' = cont v))"

lemma reads_bytesD:
  assumes "reads_bytes api fid ptr cont" "fid f = Some k"
  shows "fid (first_cluster api f) = Some k"
    "unat n \<le> length (cont v k) \<Longrightarrow> \<exists>f' v'. f_lseek api f n v = (FR_OK, f', v') \<and> fid f' = Some k \<and> ptr f' = unat n \<and> cont v' = cont v"
    "\<exists>f' v'. f_read api f n v = (FR_OK, take (unat n) (drop (ptr f) (cont v k)), f', v') \<and> fid f' = Some k \<and> cont v' = cont v"
  using assms unfolding reads_bytes_def by simp_all

text \<open>
  Writing may fail, and on a full volume it stops early and reports how many bytes it stored. \<open>space\<close> is a number of bytes the volume is
  sure to take: free clusters on a disk that works, none on one that does not.
\<close>

definition stores_bytes ::
  "('v, 'f, 'd) fatfs_api \<Rightarrow> ('f \<Rightarrow> 'k option) \<Rightarrow> ('f \<Rightarrow> nat) \<Rightarrow> ('v \<Rightarrow> 'k \<Rightarrow> u8 list) \<Rightarrow> ('v \<Rightarrow> nat) \<Rightarrow> bool" where
  "stores_bytes api fid ptr cont space \<longleftrightarrow> reads_bytes api fid ptr cont \<and>
     (\<forall>f k n v. fid f = Some k \<and> unat n \<le> length (cont v k) \<longrightarrow> space (snd (snd (f_lseek api f n v))) = space v) \<and>
     (\<forall>f k b v. fid f = Some k \<and> ptr f \<le> length (cont v k) \<and> ptr f + length b < 2 ^ 32 \<longrightarrow>
        (case f_write api f b v of (res, bw, f', v') \<Rightarrow>
           (res = FR_OK \<longrightarrow> fid f' = Some k \<and> unat bw \<le> length b \<and>
              cont v' = (cont v)(k := overwrite (cont v k) (ptr f) (take (unat bw) b))) \<and>
           (length b \<le> space v \<longrightarrow> res = FR_OK \<and> unat bw = length b)))"

lemma stores_bytesD:
  assumes "stores_bytes api fid ptr cont space"
  shows "reads_bytes api fid ptr cont"
    "fid f = Some k \<Longrightarrow> unat n \<le> length (cont v k) \<Longrightarrow> f_lseek api f n v = (res, f', v') \<Longrightarrow> space v' = space v"
    "fid f = Some k \<Longrightarrow> ptr f \<le> length (cont v k) \<Longrightarrow> ptr f + length b < 2 ^ 32 \<Longrightarrow> f_write api f b v = (res, bw, f', v') \<Longrightarrow>
       (res = FR_OK \<longrightarrow> fid f' = Some k \<and> unat bw \<le> length b \<and>
          cont v' = (cont v)(k := overwrite (cont v k) (ptr f) (take (unat bw) b))) \<and>
       (length b \<le> space v \<longrightarrow> res = FR_OK \<and> unat bw = length b)"
  using assms unfolding stores_bytes_def by (blast, metis snd_conv, fastforce)

text \<open>A regular file opened for reading and writing, with its stream and its recorded size up to date.\<close>

definition open_rw :: "('f \<Rightarrow> 'k option) \<Rightarrow> ('v \<Rightarrow> 'k \<Rightarrow> u8 list) \<Rightarrow> u32 \<Rightarrow> File \<Rightarrow> 'k \<Rightarrow> ('v, 'f, 'd) fsys \<Rightarrow> bool" where
  "open_rw fid cont p f k s \<longleftrightarrow> p \<noteq> null_ptr \<and> objs s p = Some f \<and> filesystem f \<and> flags f AND 1 = 0 \<and>
     openFlags f AND O_ACCMODE = O_RDWR \<and> openFlags f AND O_APPEND = 0 \<and> unat (File.fsize f) = length (cont (vol s) k) \<and>
     (\<exists>i g. slot_find p (slots s) = Some i \<and> \<not> isDir (slots s ! i) \<and> u (slots s ! i) = FIL g \<and> fid g = Some k)"

lemma slot_find_stream:
  assumes "slot_find p sls = Some i"
  shows "slot_find p (sls[i := (sls ! i)\<lparr>u := x\<rparr>]) = Some i"
  using assms by (induction sls arbitrary: i) (auto split: if_splits)

lemma take_drop_overwrite: "ofs \<le> length xs \<Longrightarrow> take (length b) (drop ofs (overwrite xs ofs b)) = b"
  by (simp add: overwrite_def)

lemma length_overwrite: "ofs \<le> length xs \<Longrightarrow> length (overwrite xs ofs b) = max (length xs) (ofs + length b)"
  by (simp add: overwrite_def)

lemma Write_stores:
  assumes laws: "stores_bytes api fid ptr cont space" and rw: "open_rw fid cont p f k s"
    and buf: "buf \<noteq> []" "unat (position f) + length buf < 2 ^ 32" and pos: "position f \<le> File.fsize f"
  shows "\<exists>r s'. Write api p (Some buf) s = (r, s') \<and> (length buf \<le> space (vol s) \<longrightarrow> r = of_nat (length buf)) \<and>
     (r = -1 \<or> (0 < unat r \<and> unat r \<le> length buf \<and>
        (\<exists>f'. open_rw fid cont p f' k s' \<and> position f' = position f + r \<and> openFlags f' = openFlags f) \<and>
        cont (vol s') = (cont (vol s))(k := overwrite (cont (vol s) k) (unat (position f)) (take (unat r) buf))))"
proof -
  obtain i g where sl: "slot_find p (slots s) = Some i" "\<not> isDir (slots s ! i)" "u (slots s ! i) = FIL g" "fid g = Some k"
    using rw by (auto simp: open_rw_def)
  have f: "p \<noteq> null_ptr" "objs s p = Some f" "filesystem f" "flags f AND 1 = 0" "openFlags f AND O_ACCMODE = O_RDWR"
    "openFlags f AND O_APPEND = 0" "unat (File.fsize f) = length (cont (vol s) k)" using rw by (auto simp: open_rw_def)
  note rlaws = stores_bytesD(1) [OF laws]
  define g0 where "g0 = (if position f = 0 then first_cluster api g else g)"
  have g0: "fid g0 = Some k" using reads_bytesD(1) [OF rlaws sl(4)] sl(4) by (simp add: g0_def)
  have le: "unat (position f) \<le> length (cont (vol s) k)" using pos f(7) by (simp add: word_le_nat_alt)
  obtain g1 v1 where ls: "f_lseek api g0 (position f) (vol s) = (FR_OK, g1, v1)" "fid g1 = Some k" "ptr g1 = unat (position f)" "cont v1 = cont (vol s)"
    using reads_bytesD(2) [OF rlaws g0 le] by auto
  have sp: "space v1 = space (vol s)" by (rule stores_bytesD(2) [OF laws g0 le ls(1)])
  obtain res bw g2 v2 where wr: "f_write api g1 buf v1 = (res, bw, g2, v2)" by (metis surj_pair)
  have "ptr g1 \<le> length (cont v1 k)" "ptr g1 + length buf < 2 ^ 32" using ls le buf by simp_all
  from stores_bytesD(3) [OF laws ls(2) this wr]
  have w: "res = FR_OK \<Longrightarrow> fid g2 = Some k" "res = FR_OK \<Longrightarrow> unat bw \<le> length buf"
    "res = FR_OK \<Longrightarrow> cont v2 = (cont v1)(k := overwrite (cont v1 k) (unat (position f)) (take (unat bw) buf))"
    "length buf \<le> space (vol s) \<Longrightarrow> res = FR_OK \<and> unat bw = length buf" using ls sp by simp_all
  define n where "n = (if res = FR_OK then bw else 0)"
  have i: "i < length (slots s)" using slot_find_Some [OF sl(1)] by (simp add: used_idx_def)
  define s1 where "s1 = set_stream i (FIL g2) (set_stream i (FIL g1) (s\<lparr>vol := v1\<rparr>)\<lparr>vol := v2\<rparr>)"
  have WS: "WriteStream api p buf s = (n, s1)"
    using f sl buf ls(1) wr by (simp add: WriteStream_def Let_def g0_def [symmetric] s1_def set_stream_def n_def)
  define f' where "f' = (let f = f\<lparr>position := position f + n\<rparr> in if File.fsize f < position f then f\<lparr>fsize := position f\<rparr> else f)"
  have "openFlags f AND O_ACCMODE = 2" using f(5) by simp
  then have W: "Write api p (Some buf) s = (if n = 0 then (-1, s1) else (n, s1\<lparr>objs := (objs s)(p \<mapsto> f')\<rparr>))"
    using f buf WS by (simp add: Write_def Let_def IsWritable_def upd_File_def s1_def set_stream_def f'_def)
  have len: "length buf < 2 ^ 32" using buf(2) by simp
  have full: "n = of_nat (length buf) \<and> n \<noteq> 0" if "length buf \<le> space (vol s)"
    using w(4) [OF that] buf(1) len by (auto simp: n_def word_unat_eq_iff)
  show ?thesis
  proof (cases "n = 0")
    case True
    then show ?thesis using W full by auto
  next
    case False
    then have ok: "res = FR_OK" "n = bw" by (auto simp: n_def split: if_splits)
    have nb: "0 < unat n" "unat n \<le> length buf" using False w(2) [OF ok(1)] ok(2) by (simp_all add: unat_gt_0)
    have sum: "unat (position f + n) = unat (position f) + unat n" using nb buf(2) by (simp add: unat_add_small)
    have c2: "cont v2 = (cont (vol s))(k := overwrite (cont (vol s) k) (unat (position f)) (take (unat n) buf))" using w(3) [OF ok(1)] ls(4) ok(2) by simp
    have "unat (File.fsize f') = length (cont v2 k)"
      using f(7) pos sum nb by (auto simp: f'_def Let_def c2 length_overwrite word_le_nat_alt word_less_nat_alt max_def)
    moreover have s1: "slot_find p (slots s1) = Some i" "\<not> isDir (slots s1 ! i)" "u (slots s1 ! i) = FIL g2" "vol s1 = v2"
      using sl i slot_find_stream [OF sl(1)] by (simp_all add: s1_def set_stream_def)
    ultimately have "open_rw fid cont p f' k (s1\<lparr>objs := (objs s)(p \<mapsto> f')\<rparr>)"
      using f w(1) [OF ok(1)] by (auto simp: open_rw_def f'_def Let_def)
    moreover have "position f' = position f + n" "openFlags f' = openFlags f" by (simp_all add: f'_def Let_def)
    moreover have "cont (vol (s1\<lparr>objs := (objs s)(p \<mapsto> f')\<rparr>)) = (cont (vol s))(k := overwrite (cont (vol s) k) (unat (position f)) (take (unat n) buf))"
      using c2 s1(4) by simp
    moreover have "Write api p (Some buf) s = (n, s1\<lparr>objs := (objs s)(p \<mapsto> f')\<rparr>)" using W False by simp
    ultimately show ?thesis using full nb by blast
  qed
qed

lemma Read_returns_bytes:
  assumes laws: "reads_bytes api fid ptr cont" and rw: "open_rw fid cont p f k s"
    and len: "0 < len" "unat (position f) + unat len \<le> unat (File.fsize f)"
  shows "\<exists>s'. Read api p (Some out) len s =
     Some (len, Some (overwrite out 0 (take (unat len) (drop (unat (position f)) (cont (vol s) k)))), s')"
proof -
  obtain i g where sl: "slot_find p (slots s) = Some i" "\<not> isDir (slots s ! i)" "u (slots s ! i) = FIL g" "fid g = Some k"
    using rw by (auto simp: open_rw_def)
  have f: "p \<noteq> null_ptr" "objs s p = Some f" "filesystem f" "flags f AND 1 = 0" "openFlags f AND O_ACCMODE = 2"
    "unat (File.fsize f) = length (cont (vol s) k)" using rw by (auto simp: open_rw_def)
  have "unat (position f) \<le> length (cont (vol s) k)" using len f(6) by simp
  from reads_bytesD(2) [OF laws sl(4) this]
  obtain g1 v1 where ls: "f_lseek api g (position f) (vol s) = (FR_OK, g1, v1)" "fid g1 = Some k" "ptr g1 = unat (position f)" "cont v1 = cont (vol s)"
    by auto
  obtain g2 v2 where rd: "f_read api g1 len v1 = (FR_OK, take (unat len) (drop (unat (position f)) (cont (vol s) k)), g2, v2)"
    using reads_bytesD(3) [OF laws ls(2), of len v1] ls(3,4) by auto
  have "unat (File.fsize f) < 2 ^ 32" by (rule unat_u32_bound)
  then have sum: "unat (position f + len) = unat (position f) + unat len" using len(2) by (simp add: unat_add_small)
  have "0 < unat len" using len(1) by (simp add: word_less_nat_alt)
  then have nz: "len \<noteq> 0" "\<not> File.fsize f \<le> position f" "\<not> File.fsize f < position f + len"
    using len(2) sum by (auto simp: word_le_nat_alt word_less_nat_alt)
  have "(of_nat (length (take (unat len) (drop (unat (position f)) (cont (vol s) k)))) :: u32) = len"
    using len(2) f(6) by (simp add: min_absorb2)
  then have "\<exists>s'. ReadStream api p out len s = Some (len, overwrite out 0 (take (unat len) (drop (unat (position f)) (cont (vol s) k))), s')"
    using f sl nz ls rd by (simp add: ReadStream_def Let_def set_stream_def)
  then show ?thesis using f nz by (auto simp: Read_def Let_def IsReadable_def)
qed

text \<open>
  Property C27. What is written is read back: on a regular file opened for reading and writing,
  \<^verbatim>\<open>Write\<close> of a non-empty buffer at a position inside the file returns \<open>-1\<close>, or the number of bytes it stored, at least one and at most
  the length of the buffer; after \<^verbatim>\<open>Seek\<close> back to that position \<^verbatim>\<open>Read\<close> of as many bytes returns exactly these first bytes of the buffer, also when
  the write extended the file. It stores the whole buffer when the volume has the space for it; less when the disk is
  full and \<open>-1\<close> when FatFs fails or stores nothing. Assumed of FatFs (\<open>stores_bytes\<close>): on a stream that has met no error, seeks and reads inside
  the file succeed, and a write that returns \<^verbatim>\<open>FR_OK\<close> stored the number of bytes it reports.
\<close>

theorem file_write_read:
  assumes laws: "stores_bytes api fid ptr cont space" and rw: "open_rw fid cont p f k s"
    and buf: "buf \<noteq> []" "unat (position f) + length buf < 2 ^ 32" and pos: "position f \<le> File.fsize f"
  shows "\<exists>r s1. Write api p (Some buf) s = (r, s1) \<and> (length buf \<le> space (vol s) \<longrightarrow> r = of_nat (length buf)) \<and>
    (r = -1 \<or> (0 < unat r \<and> unat r \<le> length buf \<and>
       (\<exists>s2 bytes. Read api p (Some out) r (Seek p (position f) s1) = Some (r, Some bytes, s2) \<and>
          take (unat r) bytes = take (unat r) buf)))"
proof -
  obtain r s1 where w: "Write api p (Some buf) s = (r, s1)" "length buf \<le> space (vol s) \<longrightarrow> r = of_nat (length buf)"
    and ok: "r = -1 \<or> (0 < unat r \<and> unat r \<le> length buf \<and>
        (\<exists>f'. open_rw fid cont p f' k s1 \<and> position f' = position f + r \<and> openFlags f' = openFlags f) \<and>
        cont (vol s1) = (cont (vol s))(k := overwrite (cont (vol s) k) (unat (position f)) (take (unat r) buf)))"
    using Write_stores [OF laws rw buf pos] by blast
  show ?thesis
  proof (cases "r = -1")
    case True
    then show ?thesis using w by blast
  next
    case False
    with ok obtain f1 where r: "0 < unat r" "unat r \<le> length buf" and rw1: "open_rw fid cont p f1 k s1"
      and c: "cont (vol s1) = (cont (vol s))(k := overwrite (cont (vol s) k) (unat (position f)) (take (unat r) buf))" by blast
    have acc: "openFlags f1 AND O_ACCMODE = 2" using rw1 by (simp add: open_rw_def)
    have le: "unat (position f) \<le> length (cont (vol s) k)" using pos rw by (auto simp: open_rw_def word_le_nat_alt)
    let ?f = "f1\<lparr>position := position f\<rparr>" and ?s = "Seek p (position f) s1"
    have sk: "?s = s1\<lparr>objs := (objs s1)(p \<mapsto> ?f)\<rparr>"
      using rw1 acc by (auto simp: Seek_def upd_File_def Let_def IsWritable_def open_rw_def)
    then have rw2: "open_rw fid cont p ?f k ?s" using rw1 by (auto simp: open_rw_def)
    have len: "length (take (unat r) buf) = unat r" using r(2) by simp
    have "unat (position ?f) + unat r \<le> unat (File.fsize ?f)" using rw1 le len by (simp add: open_rw_def c length_overwrite)
    moreover have "0 < r" using r(1) by (simp add: word_less_nat_alt)
    ultimately obtain s2 where "Read api p (Some out) r ?s = Some (r,
        Some (overwrite out 0 (take (unat r) (drop (unat (position f)) (cont (vol ?s) k)))), s2)"
      using Read_returns_bytes [OF stores_bytesD(1) [OF laws] rw2, of r out] by auto
    moreover have "take (unat r) (drop (unat (position f)) (cont (vol ?s) k)) = take (unat r) buf"
      using take_drop_overwrite [OF le, of "take (unat r) buf"] unfolding len by (simp add: sk c)
    moreover have "take (unat r) (overwrite out 0 (take (unat r) buf)) = take (unat r) buf" using len by (simp add: overwrite_def)
    ultimately show ?thesis using w r by auto
  qed
qed

text \<open>
  A volume with one file of three bytes, held in memory together with the number of open streams. The file can grow to 100 bytes, then the
  volume is full.
\<close>

definition ram_api :: "(nat \<times> u8 list, nat, unit) fatfs_api" where
  "ram_api = \<lparr>f_opendir = (\<lambda>_ (k, c). (FR_OK, (), (k + 1, c))), f_closedir = (\<lambda>_ (k, c). (k - 1, c)), f_rewinddir = (\<lambda>d _. d),
     f_readdir = (\<lambda>d v. (FR_OK, [], 0, d, v)), f_stat = (\<lambda>_ _. (FR_OK, 0, 3)), f_open = (\<lambda>_ _ (k, c). (FR_OK, 0, (k + 1, c))),
     first_cluster = id, f_close = (\<lambda>_ (k, c). (k - 1, c)), f_size = (\<lambda>_. 3), f_lseek = (\<lambda>_ n v. (FR_OK, unat n, v)),
     f_read = (\<lambda>f n (k, c). (FR_OK, take (unat n) (drop f c), f, (k, c))),
     f_write = (\<lambda>f b (k, c). let n = min (length b) (100 - f) in (FR_OK, of_nat n, f + n, (k, overwrite c f (take n b)))),
     f_mkdir = (\<lambda>_ v. (FR_OK, v)), f_unlink = (\<lambda>_ v. (FR_OK, v)), f_mkfs = (\<lambda>_ v. (FR_OK, v)), f_unmount = id\<rparr>"

definition one_File :: "('v, 'f, 'd) fsys \<Rightarrow> u32" where
  "one_File s = (if objs s 0x1000 = None then 0x1000 else null_ptr)"

definition sample_mount :: "(nat \<times> u8 list, nat, unit) fsys" where
  "sample_mount = mounted 0 (0, [1, 2, 3])"

definition sample_open :: "(nat \<times> u8 list, nat, unit) fsys" where
  "sample_open = snd (OpenWithFlags ram_api one_File (Some [0x2F, 0x61]) O_RDWR sample_mount)"

lemma ram_api_counts: "counts_handles ram_api fst"
  by (auto simp: counts_handles_def ram_api_def Let_def)

lemma ram_api_reads: "reads_bytes ram_api (\<lambda>_. Some ()) id (\<lambda>v _. snd v)"
  by (auto simp: reads_bytes_def ram_api_def)

lemma ram_api_stores: "stores_bytes ram_api (\<lambda>_. Some ()) id (\<lambda>v _. snd v) (\<lambda>v. 100 - length (snd v))"
proof -
  have "unat (of_nat (min a b) :: u32) = min a b" if "f + a < 2 ^ 32" for a b f :: nat using that by simp
  then show ?thesis using ram_api_reads by (auto simp: stores_bytes_def ram_api_def Let_def)
qed

lemma one_File_fresh: "fresh_file one_File"
  by (auto simp: fresh_file_def one_File_def)

lemma sample_path: "PathToFatFs 0 (Some [0x2F, 0x61]) 256 = Some [0x30, 0x3A, 0x61]"
  by code_simp

lemma sample_open_step:
  "OpenWithFlags ram_api one_File (Some [0x2F, 0x61]) O_RDWR sample_mount = (0x1000, sample_open)"
  "objs sample_open 0x1000 = Some (new_File\<lparr>name := file_name [0x2F, 0x61], fsize := 3, filesystem := True, flags := 0, openFlags := O_RDWR\<rparr>)"
  "slots sample_open ! 0 = empty_slot\<lparr>s_file := 0x1000, used := True, u := FIL 0\<rparr>" "vol sample_open = (1, [1, 2, 3])"
  "slot_find 0x1000 (slots sample_open) = Some 0"
proof -
  have "replicate 32 (empty_slot :: (nat, unit) FatFsSlot) = empty_slot # replicate 31 empty_slot"
    by (simp add: numeral_eq_Suc)
  then show "OpenWithFlags ram_api one_File (Some [0x2F, 0x61]) O_RDWR sample_mount = (0x1000, sample_open)"
    "objs sample_open 0x1000 = Some (new_File\<lparr>name := file_name [0x2F, 0x61], fsize := 3, filesystem := True, flags := 0, openFlags := O_RDWR\<rparr>)"
    "slots sample_open ! 0 = empty_slot\<lparr>s_file := 0x1000, used := True, u := FIL 0\<rparr>" "vol sample_open = (1, [1, 2, 3])"
    "slot_find 0x1000 (slots sample_open) = Some 0"
    by (simp_all add: sample_open_def sample_mount_def mounted_def OpenWithFlags_def Let_def sample_path
      open_file_def ram_api_def one_File_def set_stream_def empty_slot_def)
qed

theorem file_handles_typed_witness: "fs_inv fst sample_open \<and> 0 \<in> used_idx (slots sample_open)"
proof -
  have "fsys_reachable ram_api one_File fst sample_mount" unfolding sample_mount_def by (rule fsys_reachable.mount) simp
  then have "fsys_reachable ram_api one_File fst sample_open" by (rule fsys_reachable.openf [OF _ sample_open_step(1)])
  from file_handles_typed [OF ram_api_counts one_File_fresh this] slot_find_Some [OF sample_open_step(5)] show ?thesis by simp
qed

theorem OpenWithFlags_fails_clean_witness:
  "fst (vol (snd (OpenWithFlags ram_api (\<lambda>_. null_ptr) (Some [0x2F, 0x61]) O_RDWR sample_mount))) = 0"
proof -
  let ?r = "OpenWithFlags ram_api (\<lambda>_. null_ptr) (Some [0x2F, 0x61]) O_RDWR sample_mount"
  have "fst ?r = null_ptr"
    by (simp add: OpenWithFlags_def Let_def sample_path open_file_def ram_api_def sample_mount_def mounted_def)
  then have r: "?r = (null_ptr, snd ?r)" by (simp add: prod_eq_iff)
  have "fs_inv fst sample_mount" unfolding sample_mount_def by (rule mounted_inv) simp
  moreover have "fresh_file (\<lambda>_ :: (nat \<times> u8 list, nat, unit) fsys. null_ptr)" by (simp add: fresh_file_def)
  ultimately show ?thesis
    using OpenWithFlags_fails_clean [OF ram_api_counts _ _ r] by (simp add: sample_mount_def mounted_def)
qed

theorem file_write_read_witness:
  "\<exists>s1 s2 bytes. Write ram_api 0x1000 (Some [7, 8, 9, 10]) sample_open = (4, s1) \<and>
    Read ram_api 0x1000 (Some []) 4 (Seek 0x1000 0 s1) = Some (4, Some bytes, s2) \<and> take 4 bytes = [7, 8, 9, 10]"
proof -
  let ?f = "new_File\<lparr>name := file_name [0x2F, 0x61], fsize := 3, filesystem := True, flags := 0, openFlags := O_RDWR\<rparr>"
  let ?b = "[7, 8, 9, 10] :: u8 list"
  have rw: "open_rw (\<lambda>_. Some ()) (\<lambda>v _. snd v) 0x1000 ?f () sample_open"
    using sample_open_step by (auto simp: open_rw_def empty_slot_def)
  have sp: "length ?b \<le> 100 - length (snd (vol sample_open))" using rw by (simp add: open_rw_def)
  have b: "of_nat (length ?b) = (4 :: u32)" "unat (4 :: u32) = 4" "(4 :: u32) \<noteq> -1" "take 4 ?b = ?b" by simp_all
  have p: "position ?f = 0" by (simp add: new_File_def)
  have "\<exists>r s1. Write ram_api 0x1000 (Some ?b) sample_open = (r, s1) \<and> (length ?b \<le> 100 - length (snd (vol sample_open)) \<longrightarrow> r = of_nat (length ?b)) \<and>
      (r = -1 \<or> (0 < unat r \<and> unat r \<le> length ?b \<and>
         (\<exists>s2 bytes. Read ram_api 0x1000 (Some []) r (Seek 0x1000 0 s1) = Some (r, Some bytes, s2) \<and> take (unat r) bytes = take (unat r) ?b)))"
    using file_write_read [OF ram_api_stores rw, of ?b "[]"] by (simp add: p)
  then show ?thesis using sp b by metis
qed

end
