(* ===== verification/Elf_Loader.thy ===== *)
theory Elf_Loader
  imports Sched_Fair File_Layer
begin

text \<open>
  The program loader, \<^verbatim>\<open>core/elf.cpp\<close> and the layouts of \<^verbatim>\<open>include/core/elf.h\<close>: it reads an ELF file
  through \<^verbatim>\<open>File::Seek\<close> and \<^verbatim>\<open>File::Read\<close> (theory \<open>File_Layer\<close>), creates a process (\<open>Scheduler\<close>), maps a
  frame for every page of every segment (\<open>Pmm\<close>, \<open>Paging\<close>), copies the file bytes in and zeroes the rest.
  The kernel writes through physical addresses, which are identity mapped below 256 MB. \<open>newA n\<close> says
  whether \<^verbatim>\<open>new\<close> of an array of \<open>n\<close> bytes succeeds.
\<close>

subsection \<open>Bytes of physical memory\<close>

definition load8 :: "memory \<Rightarrow> u32 \<Rightarrow> u8" where
  "load8 m a = ucast (drop_bit (8 * unat (a AND 3)) (m (a AND NOT 3)))"

definition store8 :: "memory \<Rightarrow> u32 \<Rightarrow> u8 \<Rightarrow> memory" where
  "store8 m a b =
     (let k = 8 * unat (a AND 3); lo = a AND NOT 3 in m(lo := (m lo AND NOT (push_bit k 0xFF)) OR push_bit k (ucast b)))"

primrec store_bytes :: "memory \<Rightarrow> u32 \<Rightarrow> u8 list \<Rightarrow> memory" where
  "store_bytes m a [] = m"
| "store_bytes m a (b # bs) = store_bytes (store8 m a b) (a + 1) bs"

definition load_bytes :: "memory \<Rightarrow> u32 \<Rightarrow> nat \<Rightarrow> u8 list" where
  "load_bytes m a n = map (\<lambda>i. load8 m (a + of_nat i)) [0..<n]"

subsection \<open>File layout\<close>

record elf_header =
  h_magic :: u32
  h_ident :: "u8 list"
  h_type :: u16
  h_machine :: u16
  h_version :: u32
  h_entry :: u32
  ph_offset :: u32
  sh_offset :: u32
  h_flags :: u32
  header_size :: u16
  ph_entry_size :: u16
  ph_entry_count :: u16
  sh_size :: u16
  sh_entry_count :: u16
  sh_str_index :: u16

record elf_program_header =
  p_type :: u32
  p_offset :: u32
  virt_addr :: u32
  phys_addr :: u32
  file_size :: u32
  mem_size :: u32
  p_flags :: u32
  p_align :: u32

record elf_section_header =
  s_name :: u32
  s_type :: u32
  s_flags :: u32
  s_addr :: u32
  s_offset :: u32
  s_size :: u32
  s_link :: u32
  s_info :: u32
  s_align :: u32
  s_ent_size :: u32

record hx86_app_meta =
  meta_magic :: u32
  meta_version :: u16
  meta_appType :: u16

text \<open>The packed structs over the bytes that were read into them.\<close>

definition elf_header_of :: "u8 list \<Rightarrow> elf_header" where
  "elf_header_of b = \<lparr>h_magic = ld_32 b 0, h_ident = take 12 (drop 4 b), h_type = ld_16 b 16, h_machine = ld_16 b 18,
     h_version = ld_32 b 20, h_entry = ld_32 b 24, ph_offset = ld_32 b 28, sh_offset = ld_32 b 32, h_flags = ld_32 b 36,
     header_size = ld_16 b 40, ph_entry_size = ld_16 b 42, ph_entry_count = ld_16 b 44, sh_size = ld_16 b 46,
     sh_entry_count = ld_16 b 48, sh_str_index = ld_16 b 50\<rparr>"

definition program_header_at :: "u8 list \<Rightarrow> nat \<Rightarrow> elf_program_header" where
  "program_header_at b i = (let o' = 32 * i in \<lparr>p_type = ld_32 b o', p_offset = ld_32 b (o' + 4), virt_addr = ld_32 b (o' + 8),
     phys_addr = ld_32 b (o' + 12), file_size = ld_32 b (o' + 16), mem_size = ld_32 b (o' + 20), p_flags = ld_32 b (o' + 24),
     p_align = ld_32 b (o' + 28)\<rparr>)"

definition section_header_at :: "u8 list \<Rightarrow> nat \<Rightarrow> elf_section_header" where
  "section_header_at b i = (let o' = 40 * i in \<lparr>s_name = ld_32 b o', s_type = ld_32 b (o' + 4), s_flags = ld_32 b (o' + 8),
     s_addr = ld_32 b (o' + 12), s_offset = ld_32 b (o' + 16), s_size = ld_32 b (o' + 20), s_link = ld_32 b (o' + 24),
     s_info = ld_32 b (o' + 28), s_align = ld_32 b (o' + 32), s_ent_size = ld_32 b (o' + 36)\<rparr>)"

definition app_meta_of :: "u8 list \<Rightarrow> hx86_app_meta" where
  "app_meta_of b = \<lparr>meta_magic = ld_32 b 0, meta_version = ld_16 b 4, meta_appType = ld_16 b 6\<rparr>"

abbreviation ELF_MAGIC :: u32 where "ELF_MAGIC \<equiv> 0x464C457F"
abbreviation HX86_APP_META_MAGIC :: u32 where "HX86_APP_META_MAGIC \<equiv> 0x36385848"
abbreviation HX86_APP_META_VERSION :: u16 where "HX86_APP_META_VERSION \<equiv> 1"
abbreviation APP_BINARY_GUI :: u16 where "APP_BINARY_GUI \<equiv> 1"
abbreviation APP_BINARY_CLI :: u16 where "APP_BINARY_CLI \<equiv> 2"

text \<open>\<^verbatim>\<open>".hx86meta"\<close>.\<close>

definition meta_section :: "u8 list" where
  "meta_section = [0x2E, 0x68, 0x78, 0x38, 0x36, 0x6D, 0x65, 0x74, 0x61]"

subsection \<open>Application type\<close>

function name_loop :: "u8 list \<Rightarrow> u32 \<Rightarrow> u32 \<Rightarrow> u8 list \<Rightarrow> u32 \<Rightarrow> bool" where
  "name_loop namesTable tableSize nameOffset target idx =
     (if nameOffset + idx < tableSize then
        let a = namesTable ! unat (nameOffset + idx); b = (target @ [0]) ! unat idx in
        if a \<noteq> b then False else if a = 0 then True
        else name_loop namesTable tableSize nameOffset target (idx + 1)
      else False)"
  by pat_completeness auto
termination
proof (relation "measure (\<lambda>(_, ts, off, _, idx). unat ts - unat (off + idx))")
  fix ts off idx :: u32 assume lt: "off + idx < ts"
  then have "unat (off + idx) < unat ts" by (simp add: word_less_nat_alt)
  moreover have "unat (off + (idx + 1)) = Suc (unat (off + idx))"
    using unat_inc [of "off + idx"] calculation unat_u32_bound [of ts] by (simp add: add.assoc)
  ultimately show "((nt, ts, off, tg, idx + 1), nt, ts, off, tg, idx) \<in> measure (\<lambda>(_, ts, off, _, idx). unat ts - unat (off + idx))" for nt tg :: "u8 list"
    by simp
qed simp

declare name_loop.simps [simp del]

definition SectionNameEquals :: "u8 list option \<Rightarrow> u32 \<Rightarrow> u32 \<Rightarrow> u8 list option \<Rightarrow> bool" where
  "SectionNameEquals namesTable tableSize nameOffset target =
     (if namesTable = None \<or> target = None \<or> tableSize \<le> nameOffset then False
      else name_loop (the namesTable) tableSize nameOffset (the target) 0)"

text \<open>\<^verbatim>\<open>elf->Seek(pos)\<close> followed by \<^verbatim>\<open>elf->Read(buffer, n)\<close>: the count and the buffer.\<close>

definition read_at ::
  "('v, 'f, 'd) fatfs_api \<Rightarrow> u32 \<Rightarrow> u32 \<Rightarrow> u32 \<Rightarrow> ('v, 'f, 'd) fsys \<Rightarrow> (u32 \<times> u8 list \<times> ('v, 'f, 'd) fsys) option" where
  "read_at api elf pos n fs =
     map_option (\<lambda>(r, buf, fs). (r, the buf, fs)) (Read api elf (Some (replicate (unat n) 0)) n (Seek elf pos fs))"

definition elf_size :: "u32 \<Rightarrow> ('v, 'f, 'd) fsys \<Rightarrow> u32" where
  "elf_size elf fs = fsize (the (objs fs elf))"

fun detect_sections ::
  "('v, 'f, 'd) fatfs_api \<Rightarrow> u32 \<Rightarrow> u8 list \<Rightarrow> u32 \<Rightarrow> elf_section_header list \<Rightarrow> ('v, 'f, 'd) fsys \<Rightarrow> (u16 \<times> ('v, 'f, 'd) fsys) option" where
  "detect_sections api elf shNames shStr_size [] fs = Some (APP_BINARY_GUI, fs)"
| "detect_sections api elf shNames shStr_size (sh # shs) fs =
     (if \<not> SectionNameEquals (Some shNames) shStr_size (s_name sh) (Some meta_section)
        \<or> s_size sh < 8 \<or> elf_size elf fs - 8 < s_offset sh
      then detect_sections api elf shNames shStr_size shs fs
      else case read_at api elf (s_offset sh) 8 fs of
        None \<Rightarrow> None
      | Some (n, buf, fs) \<Rightarrow>
          let meta = app_meta_of buf in
          if n \<noteq> 8 \<or> meta_magic meta \<noteq> HX86_APP_META_MAGIC \<or> meta_version meta \<noteq> HX86_APP_META_VERSION
          then detect_sections api elf shNames shStr_size shs fs
          else Some (if meta_appType meta = APP_BINARY_CLI \<or> meta_appType meta = APP_BINARY_GUI then meta_appType meta
                     else APP_BINARY_GUI, fs))"

definition DetectELFAppType ::
  "('v, 'f, 'd) fatfs_api \<Rightarrow> (u32 \<Rightarrow> bool) \<Rightarrow> u32 \<Rightarrow> elf_header \<Rightarrow> ('v, 'f, 'd) fsys \<Rightarrow> (u16 \<times> ('v, 'f, 'd) fsys) option" where
  "DetectELFAppType api newA elf header fs =
     (let gui = Some (APP_BINARY_GUI, fs); shTableSize = 40 * ucast (sh_entry_count header) in
      if elf = null_ptr \<or> sh_offset header = 0 \<or> sh_entry_count header = 0 \<or> sh_size header \<noteq> 40 then gui
      else if elf_size elf fs < shTableSize \<or> elf_size elf fs - shTableSize < sh_offset header then gui
      else if \<not> newA shTableSize then gui
      else case read_at api elf (sh_offset header) shTableSize fs of
        None \<Rightarrow> None
      | Some (n, shTable, fs) \<Rightarrow>
          if n \<noteq> shTableSize \<or> sh_entry_count header \<le> sh_str_index header then Some (APP_BINARY_GUI, fs)
          else
            let shStr = section_header_at shTable (unat (sh_str_index header)) in
            if s_size shStr = 0 \<or> elf_size elf fs < s_size shStr \<or> elf_size elf fs - s_size shStr < s_offset shStr
              \<or> \<not> newA (s_size shStr)
            then Some (APP_BINARY_GUI, fs)
            else case read_at api elf (s_offset shStr) (s_size shStr) fs of
              None \<Rightarrow> None
            | Some (n, shNames, fs) \<Rightarrow>
                if n \<noteq> s_size shStr then Some (APP_BINARY_GUI, fs)
                else detect_sections api elf shNames (s_size shStr)
                       (map (section_header_at shTable) [0..<unat (sh_entry_count header)]) fs)"

subsection \<open>Segments\<close>

text \<open>
  The mapping loop: page \<open>k\<close> of the list is at \<open>page_start + 4096 k\<close>. Both ends of the source's loop are page
  aligned, so the addresses below \<open>page_end\<close> are exactly these and none of them wraps.
\<close>

fun map_segment_pages :: "u32 \<Rightarrow> u32 \<Rightarrow> nat list \<Rightarrow> pmm_info vm \<Rightarrow> bool \<times> pmm_info vm" where
  "map_segment_pages pd page_start [] v = (True, v)"
| "map_segment_pages pd page_start (k # ks) v =
     (case pmm_alloc_block_low (vm_frames v) LOW_LIMIT of
        (phys_frame, f) \<Rightarrow>
          let v = v\<lparr>vm_frames := f\<rparr> in
          if phys_frame = null_ptr then (False, v)
          else case MapPage v pd (page_start + of_nat k * PAGE_SIZE) phys_frame (PAGE_PRESENT OR PAGE_RW OR PAGE_USER) of
            (False, v) \<Rightarrow> (False, v)
          | (True, v) \<Rightarrow> map_segment_pages pd page_start ks v)"

definition chunk_at :: "u32 \<Rightarrow> u32 \<Rightarrow> u32" where
  "chunk_at virtual_addr bytes =
     (let space_in_page = PAGE_SIZE - virtual_addr mod PAGE_SIZE in if bytes < space_in_page then bytes else space_in_page)"

lemma chunk_at_bounds:
  assumes "0 < bytes"
  shows "0 < unat (chunk_at va bytes)" "chunk_at va bytes \<le> bytes" "unat (va mod PAGE_SIZE) + unat (chunk_at va bytes) \<le> 4096"
    "unat (chunk_at va bytes) = min (unat bytes) (4096 - unat va mod 4096)"
proof -
  have m: "unat (va mod PAGE_SIZE) = unat va mod 4096" by (simp add: unat_mod_distrib)
  have lt: "unat va mod 4096 < 4096" by simp
  have s: "unat (PAGE_SIZE - va mod PAGE_SIZE) = 4096 - unat va mod 4096"
    using lt by (subst unat_sub) (simp_all add: m word_le_nat_alt)
  show u: "unat (chunk_at va bytes) = min (unat bytes) (4096 - unat va mod 4096)"
    by (simp add: chunk_at_def Let_def s word_less_nat_alt)
  have "0 < unat bytes" using assms by (simp add: word_less_nat_alt)
  then show "0 < unat (chunk_at va bytes)" using lt unfolding u by linarith
  show "chunk_at va bytes \<le> bytes" unfolding word_le_nat_alt u by simp
  show "unat (va mod PAGE_SIZE) + unat (chunk_at va bytes) \<le> 4096" using lt unfolding u m by linarith
qed

function copy_segment ::
  "('v, 'f, 'd) fatfs_api \<Rightarrow> u32 \<Rightarrow> u32 \<Rightarrow> u32 \<Rightarrow> u32 \<Rightarrow> ('v, 'f, 'd) fsys \<Rightarrow> memory \<Rightarrow> (u32 option \<times> ('v, 'f, 'd) fsys \<times> memory) option" where
  "copy_segment api elf pd bytes_to_read virtual_addr fs m =
     (if 0 < bytes_to_read then
        let phys_ptr = GetPhysicalAddress m pd virtual_addr in
        if phys_ptr = 0xFFFFFFFF then Some (None, fs, m)
        else
          let chunk = chunk_at virtual_addr bytes_to_read;
              buffer = (if phys_ptr = null_ptr then None else Some (load_bytes m phys_ptr (unat chunk))) in
          case Read api elf buffer chunk fs of
            None \<Rightarrow> None
          | Some (n, buffer, fs) \<Rightarrow>
              let m = (case buffer of None \<Rightarrow> m | Some bs \<Rightarrow> store_bytes m phys_ptr bs) in
              if n \<noteq> chunk then Some (None, fs, m)
              else copy_segment api elf pd (bytes_to_read - chunk) (virtual_addr + chunk) fs m
      else Some (Some virtual_addr, fs, m))"
  by pat_completeness auto
termination
proof (relation "measure (\<lambda>(_, _, _, n, _). unat n)", goal_cases)
  case (2 api elf pd n va)
  then show ?case using chunk_at_bounds(1,2) [of n va] by (simp add: unat_sub word_less_nat_alt)
qed simp

function zero_segment :: "u32 \<Rightarrow> u32 \<Rightarrow> u32 \<Rightarrow> memory \<Rightarrow> bool \<times> memory" where
  "zero_segment pd bytes_to_zero virtual_addr m =
     (if 0 < bytes_to_zero then
        let phys_ptr = GetPhysicalAddress m pd virtual_addr in
        if phys_ptr = 0xFFFFFFFF then (False, m)
        else
          let chunk = chunk_at virtual_addr bytes_to_zero in
          zero_segment pd (bytes_to_zero - chunk) (virtual_addr + chunk) (store_bytes m phys_ptr (replicate (unat chunk) 0))
      else (True, m))"
  by pat_completeness auto
termination
proof (relation "measure (\<lambda>(_, n, _). unat n)", goal_cases)
  case (2 pd n va)
  then show ?case using chunk_at_bounds(1,2) [of n va] by (simp add: unat_sub word_less_nat_alt)
qed simp

declare copy_segment.simps [simp del] zero_segment.simps [simp del]

abbreviation page_down :: "u32 \<Rightarrow> u32" where "page_down a \<equiv> a AND NOT (PAGE_SIZE - 1)"

text \<open>One \<^verbatim>\<open>PT_LOAD\<close> entry: \<open>Some False\<close> is a return after an error, \<open>None\<close> a read that never returns.\<close>

definition load_segment ::
  "('v, 'f, 'd) fatfs_api \<Rightarrow> u32 \<Rightarrow> u32 \<Rightarrow> elf_program_header \<Rightarrow> ('v, 'f, 'd) fsys \<Rightarrow> pmm_info vm \<Rightarrow> (bool \<times> ('v, 'f, 'd) fsys \<times> pmm_info vm) option" where
  "load_segment api elf pd ph fs v =
     (if mem_size ph < file_size ph then Some (False, fs, v)
      else if (ucast (elf_size elf fs) :: u64) < ucast (p_offset ph) + ucast (file_size ph) then Some (False, fs, v)
      else
        let start = virt_addr ph; end = start + mem_size ph;
            page_start = page_down start; page_end = page_down (end + PAGE_SIZE - 1) in
        case map_segment_pages pd page_start [0..<(unat page_end - unat page_start) div 4096] v of
          (False, v) \<Rightarrow> Some (False, fs, v)
        | (True, v) \<Rightarrow>
            (case copy_segment api elf pd (file_size ph) (virt_addr ph) (Seek elf (p_offset ph) fs) (vm_mem v) of
               None \<Rightarrow> None
             | Some (None, fs, m) \<Rightarrow> Some (False, fs, v\<lparr>vm_mem := m\<rparr>)
             | Some (Some virtual_addr, fs, m) \<Rightarrow>
                 (case zero_segment pd (mem_size ph - file_size ph) virtual_addr m of
                    (b, m) \<Rightarrow> Some (b, fs, v\<lparr>vm_mem := m\<rparr>))))"

fun load_segments ::
  "('v, 'f, 'd) fatfs_api \<Rightarrow> u32 \<Rightarrow> u32 \<Rightarrow> elf_program_header list \<Rightarrow> u32 \<Rightarrow> ('v, 'f, 'd) fsys \<Rightarrow> pmm_info vm
     \<Rightarrow> (u32 option \<times> ('v, 'f, 'd) fsys \<times> pmm_info vm) option" where
  "load_segments api elf pd [] max_virt_end fs v = Some (Some max_virt_end, fs, v)"
| "load_segments api elf pd (ph # phs) max_virt_end fs v =
     (if p_type ph \<noteq> 1 then load_segments api elf pd phs max_virt_end fs v
      else case load_segment api elf pd ph fs v of
        None \<Rightarrow> None
      | Some (False, fs, v) \<Rightarrow> Some (None, fs, v)
      | Some (True, fs, v) \<Rightarrow>
          let end = virt_addr ph + mem_size ph in
          load_segments api elf pd phs (if max_virt_end < end then end else max_virt_end) fs v)"

subsection \<open>Loading a program\<close>

definition heap_max :: "u32 \<Rightarrow> u32" where
  "heap_max max_virt_end =
     (let maxAddr = (ucast max_virt_end :: u64) + 0x10000000 in ucast (if 0xFFFFFFFF < maxAddr then 0xFFFFFFFF else maxAddr))"

definition cleanup_process :: "u32 \<Rightarrow> sched \<Rightarrow> sched" where
  "cleanup_process p s = snd (KillProcess (p_pid (proc s p)) s)"

definition loadELF ::
  "('v, 'f, 'd) fatfs_api \<Rightarrow> (sched \<Rightarrow> u32) \<Rightarrow> (sched \<Rightarrow> u32) \<Rightarrow> (u32 \<Rightarrow> bool) \<Rightarrow> u32 \<Rightarrow> u32 \<Rightarrow> ('v, 'f, 'd) fsys \<Rightarrow> sched
     \<Rightarrow> (u32 \<times> ('v, 'f, 'd) fsys \<times> sched) option" where
  "loadELF api newP newT newA elf args fs s =
     (if elf = null_ptr then Some (null_ptr, fs, s)
      else case read_at api elf 0 52 fs of
        None \<Rightarrow> None
      | Some (n, buf, fs) \<Rightarrow>
          let header = elf_header_of buf in
          if n \<noteq> 52 \<or> h_magic header \<noteq> ELF_MAGIC then Some (null_ptr, fs, s)
          else case DetectELFAppType api newA elf header fs of
            None \<Rightarrow> None
          | Some (detectedType, fs) \<Rightarrow>
              (case CreateProcess newP newT False null_ptr args False s of
                 None \<Rightarrow> None
               | Some (pELF, s) \<Rightarrow>
                   if pELF = null_ptr then Some (null_ptr, fs, s)
                   else
                     let s = upd_proc pELF (\<lambda>pc. pc\<lparr>appType := detectedType, mainEntry := h_entry header\<rparr>) s;
                         ph_size = 32 * ucast (ph_entry_count header) in
                     if ph_entry_count header = 0 \<or> 65536 < unat (ph_entry_count header) then Some (null_ptr, fs, cleanup_process pELF s)
                     else if \<not> newA ph_size then Some (null_ptr, fs, cleanup_process pELF s)
                     else case read_at api elf (ph_offset header) ph_size fs of
                       None \<Rightarrow> None
                     | Some (n, ph_table, fs) \<Rightarrow>
                         if n \<noteq> ph_size then Some (null_ptr, fs, cleanup_process pELF s)
                         else
                           (case load_segments api elf (page_directory (proc s pELF))
                                  (map (program_header_at ph_table) [0..<unat (ph_entry_count header)]) 0 fs (vm s) of
                              None \<Rightarrow> None
                            | Some (None, fs, v) \<Rightarrow> Some (null_ptr, fs, cleanup_process pELF (s\<lparr>vm := v\<rparr>))
                            | Some (Some max_virt_end, fs, v) \<Rightarrow>
                                let max_virt_end = page_down (max_virt_end + PAGE_SIZE - 1) in
                                Some (pELF, fs, upd_proc pELF (\<lambda>pc. pc\<lparr>heap := (max_virt_end, max_virt_end, heap_max max_virt_end)\<rparr>)
                                                  (s\<lparr>vm := v\<rparr>)))))"

subsection \<open>Reading and writing bytes\<close>

lemma low_bits: "(a :: u32) AND 3 = take_bit 2 a" "(3 :: u32) = mask 2"
  using take_bit_eq_mask [of 2 a] by (simp_all add: mask_eq_exp_minus_1)

lemma word_split: "(a AND NOT 3) = (c AND NOT 3) \<Longrightarrow> a AND 3 = c AND 3 \<Longrightarrow> a = (c :: u32)"
  by (metis bit.conj_disj_distrib bit.disj_cancel_right and.right_neutral)

lemma byte_eqI: "(\<And>n. n < 8 \<Longrightarrow> bit x n = bit y n) \<Longrightarrow> x = (y :: u8)"
  by (rule bit_word_eqI) simp

lemma load8_store8: "load8 (store8 m a b) c = (if c = a then b else load8 m c)"
proof (cases "c AND NOT 3 = a AND NOT 3")
  case same: True
  let ?k = "8 * unat (a AND 3)" and ?j = "8 * unat (c AND 3)"
  have kb: "?k \<le> 24" "?j \<le> 24" using word_and_le1 [of a 3] word_and_le1 [of c 3] by (simp_all add: word_le_nat_alt)
  have at: "load8 (store8 m a b) c = ucast (drop_bit ?j ((m (a AND NOT 3) AND NOT (push_bit ?k 0xFF)) OR push_bit ?k (ucast b)))"
    unfolding load8_def store8_def Let_def same by (simp only: fun_upd_same)
  have ff: "(0xFF :: u32) = mask 8" by (simp add: mask_eq_exp_minus_1)
  show ?thesis
  proof (cases "c = a")
    case True
    have "bit (load8 (store8 m a b) c) n = bit b n" if "n < 8" for n
      using that kb unfolding at [unfolded True] True ff by (auto simp: bit_simps simp del: push_bit_numeral)
    then show ?thesis using True by (auto intro: byte_eqI)
  next
    case False
    then have "unat (a AND 3) \<noteq> unat (c AND 3)" using word_split [OF same] by (auto simp: word_unat_eq_iff)
    then have sep: "?j + 8 \<le> ?k \<or> ?k + 8 \<le> ?j" by linarith
    have "bit (load8 (store8 m a b) c) n = bit (load8 m c) n" if "n < 8" for n
      using that kb sep bit_imp_le_length [of b "?j + n - ?k"] unfolding at ff load8_def [of m] same
      by (auto simp: bit_simps simp del: push_bit_numeral)
    then show ?thesis using False by (auto intro: byte_eqI)
  qed
qed (auto simp: load8_def store8_def Let_def)

lemma frame_of_word: "unat (a AND NOT 3 :: u32) div 4096 = unat a div 4096"
proof -
  have "drop_bit 12 (a AND NOT 3) = drop_bit 12 a"
    unfolding low_bits(2) by (auto simp: bit_eq_iff bit_simps dest: bit_imp_le_length)
  then show ?thesis by (simp add: drop_bit_eq_div word_unat_eq_iff unat_div_distrib)
qed

lemma store8_other: "unat x div 4096 \<noteq> unat a div 4096 \<Longrightarrow> store8 m a b x = m x"
  using frame_of_word [of a] by (auto simp: store8_def Let_def)

lemma store_bytes_other:
  "unat x div 4096 \<noteq> unat a div 4096 \<Longrightarrow> unat a mod 4096 + length bs \<le> 4096 \<Longrightarrow> store_bytes m a bs x = m x"
proof (induction bs arbitrary: a m)
  case (Cons b bs)
  show ?case
  proof (cases bs)
    case Nil
    then show ?thesis using Cons.prems store8_other by simp
  next
    case (Cons b' bs')
    then have lt: "unat a mod 4096 + 1 < 4096" using Cons.prems by simp
    have "unat a < 2 ^ 32" by (rule unat_u32_bound)
    then have "unat a < 2 ^ 32 - 1" using lt by (cases "unat a = 2 ^ 32 - 1") auto
    then have "unat (a + 1) = Suc (unat a)" by (rule unat_inc)
    then have "unat (a + 1) div 4096 = unat a div 4096" "unat (a + 1) mod 4096 = Suc (unat a mod 4096)"
      using lt by (simp_all add: div_Suc mod_Suc)
    then show ?thesis using Cons.IH [of "a + 1"] Cons.prems store8_other by simp
  qed
qed simp

lemma load8_store_bytes:
  "length bs \<le> 2 ^ 32 \<Longrightarrow> load8 (store_bytes m a bs) c = (if unat (c - a) < length bs then bs ! unat (c - a) else load8 m c)"
proof (induction bs arbitrary: a m)
  case (Cons b bs)
  have IH: "load8 (store_bytes m a (b # bs)) c =
    (if unat (c - (a + 1)) < length bs then bs ! unat (c - (a + 1)) else load8 (store8 m a b) c)"
    using Cons by simp
  show ?case
  proof (cases "c = a")
    case True
    have "unat (- 1 :: u32) = 2 ^ 32 - 1" by (simp add: unsigned_minus_1_eq_mask mask_eq_exp_minus_1)
    then show ?thesis using True IH Cons.prems by (simp add: load8_store8)
  next
    case False
    then have "0 < unat (c - a)" by (simp add: unat_gt_0)
    then have "unat (c - (a + 1)) = unat (c - a) - 1" using unat_dec [of "c - a"] by (simp add: diff_diff_eq)
    then show ?thesis using IH False \<open>0 < unat (c - a)\<close> by (auto simp: load8_store8 nth_Cons')
  qed
qed simp

lemma length_load_bytes [simp]: "length (load_bytes m a n) = n"
  by (simp add: load_bytes_def)

subsection \<open>Section names\<close>

lemma name_loop_prefix:
  assumes "0 \<notin> set target" "unat off + unat idx \<le> unat ts" "unat ts \<le> length names" "unat idx \<le> length target"
  shows "name_loop names ts off target idx \<longleftrightarrow>
    take (length target + 1 - unat idx) (drop (unat off + unat idx) (take (unat ts) names)) = drop (unat idx) target @ [0]"
  using assms
proof (induction names ts off target idx rule: name_loop.induct)
  case (1 names ts off target idx)
  let ?i = "unat idx"
  have sum: "unat (off + idx) = unat off + ?i" using 1(3) unat_u32_bound [of ts] by (simp add: unat_add_small)
  show ?case
  proof (cases "off + idx < ts")
    case False
    then have "drop (unat off + ?i) (take (unat ts) names) = []" using 1(3) sum by (simp add: word_less_nat_alt)
    then show ?thesis using False by (subst name_loop.simps) simp
  next
    case True
    then have lt: "unat off + ?i < unat ts" by (simp add: word_less_nat_alt sum)
    have inc: "unat (idx + 1) = Suc ?i" using lt unat_u32_bound [of ts] by (intro unat_inc) linarith
    have d: "drop (unat off + ?i) (take (unat ts) names) = names ! (unat off + ?i) # drop (Suc (unat off + ?i)) (take (unat ts) names)"
      using lt 1(4) by (subst Cons_nth_drop_Suc [symmetric]) simp_all
    show ?thesis
    proof (cases "?i = length target")
      case end': True
      then have "(target @ [0]) ! ?i = 0" by simp
      then show ?thesis using True d end' by (subst name_loop.simps) (simp add: sum Let_def)
    next
      case False
      then have i: "?i < length target" using 1(5) by simp
      then have t: "(target @ [0]) ! ?i = target ! ?i" "drop ?i target = target ! ?i # drop (Suc ?i) target" "target ! ?i \<noteq> 0"
        using 1(2) nth_mem [OF i] by (auto simp: nth_append Cons_nth_drop_Suc simp del: nth_mem)
      have "name_loop names ts off target (idx + 1) \<longleftrightarrow>
          take (length target - ?i) (drop (Suc (unat off + ?i)) (take (unat ts) names)) = drop (Suc ?i) target @ [0]"
        if "names ! (unat off + ?i) = target ! ?i"
        using 1(1) [OF True refl refl, of] that t(1,3) 1(2) lt 1(4) i inc sum by simp
      then show ?thesis using True d t i by (subst name_loop.simps) (auto simp: sum Let_def Suc_diff_le)
    qed
  qed
qed

text \<open>
  \<^verbatim>\<open>SectionNameEquals\<close> compares whole names: the NUL-terminated string at the offset, and only bytes of the table are read.
\<close>

lemma SectionNameEquals_iff:
  assumes "0 \<notin> set target" "unat ts \<le> length names"
  shows "SectionNameEquals (Some names) ts off (Some target) \<longleftrightarrow>
    take (length target + 1) (drop (unat off) (take (unat ts) names)) = target @ [0]"
proof (cases "ts \<le> off")
  case True
  then show ?thesis by (simp add: SectionNameEquals_def word_le_nat_alt)
next
  case False
  then show ?thesis using name_loop_prefix [of target off 0 ts names] assms by (simp add: SectionNameEquals_def word_le_nat_alt)
qed

subsection \<open>Reading the file\<close>

text \<open>A regular file open for reading, with its stream and its recorded size up to date.\<close>

definition open_rd :: "('f \<Rightarrow> 'k option) \<Rightarrow> ('v \<Rightarrow> 'k \<Rightarrow> u8 list) \<Rightarrow> u32 \<Rightarrow> u8 list \<Rightarrow> u32 \<Rightarrow> ('v, 'f, 'd) fsys \<Rightarrow> bool" where
  "open_rd fid cont p content pos s \<longleftrightarrow> p \<noteq> null_ptr \<and>
     (\<exists>f i g k. objs s p = Some f \<and> filesystem f \<and> flags f AND 1 = 0 \<and> IsReadable f \<and> position f = pos \<and>
        unat (File.fsize f) = length content \<and> fid g = Some k \<and> cont (vol s) k = content \<and>
        slot_find p (slots s) = Some i \<and> \<not> isDir (slots s ! i) \<and> u (slots s ! i) = FIL g)"

lemma elf_size_rd: "open_rd fid cont p content pos s \<Longrightarrow> unat (elf_size p s) = length content"
  by (auto simp: open_rd_def elf_size_def)

lemma Seek_rd:
  assumes "open_rd fid cont p content pos s"
  shows "\<exists>pos'. open_rd fid cont p content pos' (Seek p n s) \<and> drop (unat pos') content = drop (unat n) content \<and>
    (unat n \<le> length content \<longrightarrow> pos' = n)"
proof -
  obtain f where f: "objs s p = Some f" "unat (File.fsize f) = length content" using assms by (auto simp: open_rd_def)
  let ?pos = "if \<not> IsWritable f \<and> File.fsize f < n then File.fsize f else n"
  have "open_rd fid cont p content ?pos (Seek p n s)"
    using assms f(1) by (auto simp: open_rd_def Seek_def upd_File_def Let_def IsWritable_def IsReadable_def)
  then show ?thesis using f(2) by (intro exI [of _ ?pos]) (simp add: word_less_nat_alt)
qed

lemma Read_rd:
  assumes laws: "reads_bytes api fid ptr cont" and rd: "open_rd fid cont p content pos s"
  defines "bs len \<equiv> take (unat len) (drop (unat pos) content)"
  shows "\<exists>s'. Read api p (Some out) len s = Some (of_nat (length (bs len)), Some (overwrite out 0 (bs len)), s') \<and>
    open_rd fid cont p content (pos + of_nat (length (bs len))) s'"
proof -
  obtain f i g k where f: "objs s p = Some f" "filesystem f" "flags f AND 1 = 0" "IsReadable f" "position f = pos"
      "unat (File.fsize f) = length content" "p \<noteq> null_ptr"
    and sl: "cont (vol s) k = content" "slot_find p (slots s) = Some i" "\<not> isDir (slots s ! i)" "u (slots s ! i) = FIL g" "fid g = Some k"
    using rd by (auto simp: open_rd_def)
  show ?thesis
  proof (cases "len = 0 \<or> File.fsize f \<le> pos")
    case True
    then have "bs len = []" using f(6) by (auto simp: bs_def word_le_nat_alt)
    moreover have "Read api p (Some out) len s = Some (0, Some out, s)" using True f by (auto simp: Read_def Let_def)
    ultimately show ?thesis using rd by (simp add: overwrite_def)
  next
    case False
    define n where "n = (if File.fsize f < pos + len then File.fsize f - pos else len)"
    have le: "unat pos < length content" using False f(6) by (simp add: word_le_nat_alt not_le)
    have wrap: "unat (pos + len) = unat pos + unat len" if "\<not> 2 ^ 32 \<le> unat pos + unat len" using that by (simp add: unat_add_small)
    have sub: "unat (File.fsize f - pos) = length content - unat pos" using False f(6) by (subst unat_sub) auto
    have bsn: "take (unat n) (drop (unat pos) content) = bs len"
    proof (cases "File.fsize f < pos + len")
      case True
      have "unat (pos + len) \<le> unat pos + unat len" by (simp add: unat_word_ariths)
      then have "length content - unat pos \<le> unat len" using True f(6) by (simp add: word_less_nat_alt)
      then show ?thesis by (simp add: n_def True sub bs_def)
    qed (simp add: n_def bs_def)
    have nz: "n \<noteq> 0" using False le sub by (auto simp: n_def word_unat_eq_iff)
    obtain g1 v1 where ls: "f_lseek api g pos (vol s) = (FR_OK, g1, v1)" "fid g1 = Some k" "ptr g1 = unat pos" "cont v1 = cont (vol s)"
      using reads_bytesD(2) [OF laws sl(5), of pos "vol s"] le sl(1) by auto
    obtain g2 v2 where fr: "f_read api g1 n v1 = (FR_OK, bs len, g2, v2)" "fid g2 = Some k" "cont v2 = cont (vol s)"
      using reads_bytesD(3) [OF laws ls(2), of n v1] ls sl(1) bsn by auto
    have i: "i < length (slots s)" using slot_find_Some [OF sl(2)] by (simp add: used_idx_def)
    define s1 where "s1 = set_stream i (FIL g2) (set_stream i (FIL g1) (s\<lparr>vol := v1\<rparr>)\<lparr>vol := v2\<rparr>)"
    have "ReadStream api p out n s = Some (of_nat (length (bs len)), overwrite out 0 (bs len), s1)"
      using f sl nz ls fr by (simp add: ReadStream_def Let_def set_stream_def s1_def)
    then have "Read api p (Some out) len s = Some (of_nat (length (bs len)), Some (overwrite out 0 (bs len)),
        upd_File p (\<lambda>f. f\<lparr>position := position f + of_nat (length (bs len))\<rparr>) s1)"
      using f False by (cases "File.fsize f < pos + len") (simp_all add: Read_def Let_def n_def)
    moreover have "slot_find p (slots s1) = Some i" "\<not> isDir (slots s1 ! i)" "u (slots s1 ! i) = FIL g2" "vol s1 = v2" "objs s1 = objs s"
      using sl i slot_find_stream [OF sl(2)] by (simp_all add: s1_def set_stream_def)
    ultimately show ?thesis using f fr sl(1) by (auto simp: open_rd_def upd_File_def IsReadable_def)
  qed
qed

lemma read_at_rd:
  assumes laws: "reads_bytes api fid ptr cont" and rd: "open_rd fid cont p content pos s"
  shows "\<exists>s' pos' buf. read_at api p ofs n s = Some (of_nat (length (take (unat n) (drop (unat ofs) content))), buf, s') \<and>
    open_rd fid cont p content pos' s' \<and> (length (take (unat n) (drop (unat ofs) content)) = unat n \<longrightarrow> buf = take (unat n) (drop (unat ofs) content))"
proof -
  obtain pos' where "open_rd fid cont p content pos' (Seek p ofs s)" "drop (unat pos') content = drop (unat ofs) content"
    using Seek_rd [OF rd] by blast
  with Read_rd [OF laws this(1), of "replicate (unat n) 0" n] show ?thesis by (fastforce simp: read_at_def overwrite_def)
qed

lemma detect_sections_rd:
  assumes laws: "reads_bytes api fid ptr cont"
  shows "open_rd fid cont p content pos fs \<Longrightarrow> \<exists>t fs' pos'. detect_sections api p names n shs fs = Some (t, fs') \<and>
    open_rd fid cont p content pos' fs' \<and> t \<in> {APP_BINARY_GUI, APP_BINARY_CLI}"
proof (induction shs arbitrary: pos fs)
  case (Cons sh shs)
  obtain fs1 pos1 buf where r: "read_at api p (s_offset sh) 8 fs = Some (of_nat (length (take (unat (8 :: u32)) (drop (unat (s_offset sh)) content))), buf, fs1)"
    and rd: "open_rd fid cont p content pos1 fs1" using read_at_rd [OF laws Cons.prems] by meson
  show ?case using Cons.IH [OF Cons.prems] Cons.IH [OF rd] rd r by (auto simp: Let_def)
qed auto

lemma DetectELFAppType_rd:
  fixes api :: "('v, 'f, 'd) fatfs_api"
  assumes laws: "reads_bytes api fid ptr cont" and rd: "open_rd fid cont p content pos fs"
  shows "\<exists>t fs' pos'. DetectELFAppType api newA p header fs = Some (t, fs') \<and> open_rd fid cont p content pos' fs' \<and>
    t \<in> {APP_BINARY_GUI, APP_BINARY_CLI}"
proof -
  define ok where "ok x \<longleftrightarrow> (\<exists>t fs' pos'. x = Some (t, fs') \<and> open_rd fid cont p content pos' fs' \<and> t \<in> {APP_BINARY_GUI, APP_BINARY_CLI})"
    for x :: "(u16 \<times> ('v, 'f, 'd) fsys) option"
  have gui: "ok (Some (APP_BINARY_GUI, fs))" if "open_rd fid cont p content pos fs" for fs and pos using that by (auto simp: ok_def)
  have branch: "ok x \<Longrightarrow> ok y \<Longrightarrow> ok (if c then x else y)" for x y c by simp
  have detect: "ok (detect_sections api p names n shs fs)" if "open_rd fid cont p content pos fs" for fs pos names n shs
    unfolding ok_def by (rule detect_sections_rd [OF laws that])
  note at = read_at_rd [OF laws]
  let ?n = "40 * ucast (sh_entry_count header) :: u32"
  obtain fs1 pos1 tab where r1: "read_at api p (sh_offset header) ?n fs = Some (of_nat (length (take (unat ?n) (drop (unat (sh_offset header)) content))), tab, fs1)"
    and rd1: "open_rd fid cont p content pos1 fs1" using at [OF rd] by meson
  let ?str = "section_header_at tab (unat (sh_str_index header))"
  obtain fs2 pos2 names where r2: "read_at api p (s_offset ?str) (s_size ?str) fs1 =
      Some (of_nat (length (take (unat (s_size ?str)) (drop (unat (s_offset ?str)) content))), names, fs2)"
    and rd2: "open_rd fid cont p content pos2 fs2" using at [OF rd1] by meson
  show ?thesis
    unfolding ok_def [symmetric] DetectELFAppType_def Let_def r1 option.case prod.case r2
    by (intro branch gui [OF rd] gui [OF rd1] gui [OF rd2] detect [OF rd2])
qed

subsection \<open>Frames of a loaded image\<close>

text \<open>
  Frames set aside for data never become page tables: the allocator is still a source of page-table frames
  when any set \<open>F\<close> of used frames is left out of what the page tables may occupy.
\<close>

interpretation data_low: low_frame_source "\<lambda>p. pmm_alloc_block_low p LOW_LIMIT" "\<lambda>p. used_frames p - F"
  "\<lambda>p. pmm_inv p \<and> F \<subseteq> used_frames p" for F
proof
  fix p a p' assume ok: "pmm_inv p \<and> F \<subseteq> used_frames p" and al: "pmm_alloc_block_low p LOW_LIMIT = (a, p')"
  have inv: "pmm_inv p" using ok by simp
  note mono = pmm_low.alloc_mono [OF inv al]
  show "pmm_inv p' \<and> F \<subseteq> used_frames p'" using pmm_low.alloc_ok [OF inv al] mono ok by blast
  show "used_frames p - F \<subseteq> used_frames p' - F" using mono by blast
  show "page_aligned a \<and> unat a div 4096 \<notin> used_frames p - F \<and> unat a div 4096 \<in> used_frames p' - F" if "a \<noteq> 0"
    using pmm_low.alloc_fresh [OF inv al that] ok by blast
qed

context low_frame_source
begin

text \<open>The words \<^verbatim>\<open>MapPage\<close> may change are those of the directory and of the page table the address goes through, and
  a directory entry it changes points to a fresh frame.\<close>

lemma map_page_writes:
  assumes ok: "ok (vm_frames s)" and inv: "vm_inv D (used (vm_frames s)) (vm_mem s)" and d: "d \<in> D"
    and r: "map_page_with alloc s d v phys fl = (b, s')"
  defines "T \<equiv> table_of (vm_mem s' (entry d (pd_index v)))"
  shows "vm_mem s' x \<noteq> vm_mem s x \<Longrightarrow> unat x div 4096 = unat d div 4096 \<or>
      live_pde (vm_mem s') d (pd_index v) \<and> \<not> kernel_range (pd_index v) \<and> unat x div 4096 = unat T div 4096"
    and "unat k < 1024 \<Longrightarrow> vm_mem s' (entry d k) = vm_mem s (entry d k) \<or>
      k = pd_index v \<and> \<not> kernel_range k \<and> unat T div 4096 \<notin> used (vm_frames s)"
proof -
  let ?i = "pd_index v"
  obtain c t where e: "ensure_table alloc s d ?i = (c, t)" by fastforce
  note E = ensure_table_spec [OF ok inv d pd_index_bound e]
  note da = vm_inv_aligned [OF inv d]
  consider (same) "vm_mem s' = vm_mem s" | (written) "c" "\<not> kernel_range ?i"
    using r e by (fastforce simp: map_page_with_def ensure_table_def Let_def split: if_splits bool.splits prod.splits)
  then have "(vm_mem s' x \<noteq> vm_mem s x \<longrightarrow> unat x div 4096 = unat d div 4096 \<or>
      live_pde (vm_mem s') d ?i \<and> \<not> kernel_range ?i \<and> unat x div 4096 = unat T div 4096) \<and>
    (unat k < 1024 \<longrightarrow> vm_mem s' (entry d k) = vm_mem s (entry d k) \<or> k = ?i \<and> \<not> kernel_range k \<and> unat T div 4096 \<notin> used (vm_frames s))"
  proof cases
    case written
    let ?T = "table_of (vm_mem t (entry d ?i))"
    have s': "vm_mem s' = (vm_mem t)(entry ?T (pt_index v) := (phys AND 0xFFFFF000) OR fl)"
      using r e written by (auto simp: map_page_with_def Let_def table_of_def)
    have live: "live_pde (vm_mem t) d ?i" using E(3) written(1) by simp
    have "?T \<noteq> d" using vm_inv_table [OF E(2) d live] d by auto
    then have pde: "vm_mem s' (entry d k) = vm_mem t (entry d k)" if "unat k < 1024" for k
      using that da pt_index_bound [of v] by (simp add: s' entry_eq_iff)
    then have T: "T = ?T" "live_pde (vm_mem s') d ?i" using live pd_index_bound [of v] by (simp_all add: T_def live_pde_def)
    have pte: "unat (entry ?T (pt_index v)) div 4096 = unat ?T div 4096" by (rule entry_frame [OF table_aligned pt_index_bound])
    consider (old) "t = s" | (new) a f where "alloc (vm_frames s) = (a, f)" "a \<noteq> 0"
        "vm_mem t = (clear_page (vm_mem s) a)(entry d ?i := a OR PAGE_PRESENT OR PAGE_RW OR PAGE_USER)"
      using e written(1) by (cases "alloc (vm_frames s)") (auto simp: ensure_table_def split: if_splits)
    then show ?thesis
    proof cases
      case old
      then show ?thesis using T s' pte written(2) pde [of k] by auto
    next
      case new
      note fresh = alloc_fresh [OF ok new(1,2)]
      have a: "?T = a" "a \<noteq> d" using make_pde(1) [of a] fresh new(3) vm_inv_dir_used [OF inv d] by auto
      have iff: "n * 4096 \<le> y \<and> y < n * 4096 + 4096 \<longleftrightarrow> y div 4096 = n" for n y :: nat by auto
      have "unat a \<le> unat x \<and> unat x < unat a + 4096 \<longleftrightarrow> unat x div 4096 = unat a div 4096"
        using iff [of "unat a div 4096" "unat x"] aligned_unat(1) [of a] fresh by metis
      then have "vm_mem s' x \<noteq> vm_mem s x \<Longrightarrow> unat x div 4096 = unat d div 4096 \<or> unat x div 4096 = unat a div 4096"
        using entry_frame [OF da pd_index_bound [of v]] pte unfolding s' a(1) by (auto simp: new(3) clear_page_def split: if_splits)
      moreover have "vm_mem s' (entry d k) = vm_mem s (entry d k) \<or> k = ?i" if "unat k < 1024"
        using that pde [OF that] fresh a(2) da pd_index_bound [of v] by (auto simp: new(3) entry_eq_iff clear_page_entry)
      ultimately show ?thesis using T a(1) fresh written(2) by auto
    qed
  qed simp
  then show "vm_mem s' x \<noteq> vm_mem s x \<Longrightarrow> unat x div 4096 = unat d div 4096 \<or>
      live_pde (vm_mem s') d ?i \<and> \<not> kernel_range ?i \<and> unat x div 4096 = unat T div 4096"
    "unat k < 1024 \<Longrightarrow> vm_mem s' (entry d k) = vm_mem s (entry d k) \<or> k = ?i \<and> \<not> kernel_range k \<and> unat T div 4096 \<notin> used (vm_frames s)"
    by blast+
qed

end

text \<open>
  \<open>image_inv K m0 D d g v\<close>: the map \<open>g\<close> from page numbers to frame numbers is what directory \<open>d\<close> translates these pages to,
  every page has a low frame of its own, and none of these frames is a page directory or a page table. \<open>K\<close> is a
  set of used frames the image keeps out of: their words are those of \<open>m0\<close>.
\<close>

definition apart :: "nat set \<Rightarrow> memory \<Rightarrow> u32 \<Rightarrow> memory \<Rightarrow> bool" where
  "apart K m0 d m \<longleftrightarrow> unat d div 4096 \<notin> K \<and> (\<forall>x. unat x div 4096 \<in> K \<longrightarrow> m x = m0 x) \<and>
     (\<forall>i. live_pde m d i \<and> \<not> kernel_range i \<longrightarrow> unat (table_of (m (entry d i))) div 4096 \<notin> K)"

definition image_inv :: "nat set \<Rightarrow> memory \<Rightarrow> u32 set \<Rightarrow> u32 \<Rightarrow> (nat \<rightharpoonup> nat) \<Rightarrow> pmm_info vm \<Rightarrow> bool" where
  "image_inv K m0 D d g v \<longleftrightarrow> d \<in> D \<and> pmm_inv (vm_frames v) \<and> ran g \<subseteq> used_frames (vm_frames v) \<and>
     vm_inv D (used_frames (vm_frames v) - ran g) (vm_mem v) \<and> inj_on g (dom g) \<and> ran g \<subseteq> {0<..<65536} \<and>
     (\<forall>w k. g (unat w div 4096) = Some k \<longrightarrow> unat (GetPhysicalAddress (vm_mem v) d w) = k * 4096 + unat w mod 4096) \<and>
     K \<subseteq> used_frames (vm_frames v) - ran g \<and> apart K m0 d (vm_mem v)"

lemma image_invD:
  assumes "image_inv K m0 D d g v"
  shows "d \<in> D" "pmm_inv (vm_frames v)" "ran g \<subseteq> used_frames (vm_frames v)" "vm_inv D (used_frames (vm_frames v) - ran g) (vm_mem v)"
    "inj_on g (dom g)" "ran g \<subseteq> {0<..<65536}"
    "g (unat w div 4096) = Some k \<Longrightarrow> unat (GetPhysicalAddress (vm_mem v) d w) = k * 4096 + unat w mod 4096"
    "K \<subseteq> used_frames (vm_frames v) - ran g" "apart K m0 d (vm_mem v)"
  using assms unfolding image_inv_def by simp_all

context low_frame_source
begin

lemma map_page_mono:
  assumes "ok (vm_frames s)" "map_page_with alloc s d v phys fl = (b, s')"
  shows "used (vm_frames s) \<subseteq> used (vm_frames s')"
proof (cases "alloc (vm_frames s)")
  case (Pair a f)
  then have "vm_frames s' = vm_frames s \<or> vm_frames s' = f"
    using assms(2) by (auto simp: map_page_with_def ensure_table_def Let_def split: if_splits prod.splits bool.splits)
  then show ?thesis using alloc_mono [OF assms(1) Pair] by auto
qed

lemma map_page_apart:
  assumes ok: "ok (vm_frames s)" and inv: "vm_inv D (used (vm_frames s)) (vm_mem s)" and d: "d \<in> D"
    and r: "map_page_with alloc s d v phys fl = (b, s')" and K: "K \<subseteq> used (vm_frames s)" and ap: "apart K m0 d (vm_mem s)"
  shows "apart K m0 d (vm_mem s')"
proof -
  note W = map_page_writes [OF ok inv d r]
  have tab: "unat (table_of (vm_mem s' (entry d i))) div 4096 \<notin> K" if "live_pde (vm_mem s') d i" "\<not> kernel_range i" for i
    using W(2) [of i] that ap K unfolding apart_def live_pde_def by (metis subsetD)
  moreover have "vm_mem s' x = m0 x" if "unat x div 4096 \<in> K" for x
    using W(1) [of x] tab [of "pd_index v"] that ap unfolding apart_def by metis
  ultimately show ?thesis using ap by (simp add: apart_def)
qed

end

lemma low_frame_address:
  assumes "page_aligned p" "unat p div 4096 < 65536"
  shows "unat ((p AND 0xFFFFF000) + (w AND 0xFFF)) = unat p div 4096 * 4096 + unat w mod 4096"
proof -
  have p: "p AND 0xFFFFF000 = p" using mask_aligned [OF assms(1), of 0] by simp
  have w: "unat (w AND 0xFFF) = unat w mod 4096"
    unfolding mask12 by (simp add: take_bit_eq_mask [symmetric] take_bit_eq_mod unat_mod_distrib)
  have "unat p + 4096 \<le> 2 ^ 32" by (rule aligned_unat(2) [OF assms(1)])
  moreover have "unat w mod 4096 < 4096" by simp
  ultimately have "unat (p + (w AND 0xFFF)) = unat p + unat w mod 4096" using w by (simp add: unat_add_small)
  then show ?thesis using p aligned_unat(1) [OF assms(1)] by simp
qed

lemma map_image_page:
  assumes inv: "image_inv K m0 D d g v" and al: "pmm_alloc_block_low (vm_frames v) LOW_LIMIT = (phys, f)" and nz: "phys \<noteq> 0"
    and mp: "MapPage (v\<lparr>vm_frames := f\<rparr>) d va phys (PAGE_PRESENT OR PAGE_RW OR PAGE_USER) = (True, v')"
  defines "g' \<equiv> g(unat va div 4096 \<mapsto> unat phys div 4096)"
  shows "image_inv K m0 D d g' v'" and "unat phys div 4096 \<notin> ran g"
    and "unat x div 4096 \<in> insert (unat phys div 4096) (ran g) \<Longrightarrow> vm_mem v' x = vm_mem v x"
    and "unat w div 4096 \<noteq> unat va div 4096 \<Longrightarrow> GetPhysicalAddress (vm_mem v') d w = GetPhysicalAddress (vm_mem v) d w"
    and "\<not> kernel_range (pd_index va)"
proof -
  let ?fr = "unat phys div 4096" and ?v = "v\<lparr>vm_frames := f\<rparr>"
  define F where "F = insert ?fr (ran g)"
  note I = image_invD [OF inv]
  obtain b where b: "b < 65536" "b \<notin> used_frames (vm_frames v)" "unat phys = b * 4096" "used_frames f = insert b (used_frames (vm_frames v))" "pmm_inv f"
    using I(2) al by (cases rule: low_alloc_cases) (use nz in auto)
  have fr: "?fr = b" "0 < b" using b(3) nz by (auto simp: word_unat_eq_iff intro!: Nat.gr0I)
  have pa: "page_aligned phys" using b(3) by (simp add: aligned_iff)
  show new: "?fr \<notin> ran g" using b(2) fr I(3) by auto
  have ok: "pmm_inv (vm_frames ?v) \<and> F \<subseteq> used_frames (vm_frames ?v)" using b(4,5) fr I(3) by (auto simp: F_def)
  have "vm_inv D (used_frames (vm_frames ?v) - F) (vm_mem ?v)"
    by (rule vm_inv_cong [OF I(4)]) (use b(2,4) fr in \<open>auto simp: F_def\<close>)
  note M = data_low.map_page_spec [OF ok this I(1) mp [unfolded MapPage_def]] and W = data_low.map_page_writes(1) [OF ok this I(1) mp [unfolded MapPage_def]]
    and A = data_low.map_page_apart [OF ok this I(1) mp [unfolded MapPage_def]]
  have fl: "(PAGE_PRESENT OR PAGE_RW OR PAGE_USER) AND 0xFFFFF000 = 0" "(PAGE_PRESENT OR PAGE_RW OR PAGE_USER) AND PAGE_PRESENT \<noteq> 0" by simp_all
  have ok': "pmm_inv (vm_frames v')" "F \<subseteq> used_frames (vm_frames v')" using M(1) [OF fl(1)] by simp_all
  have mono: "used_frames f \<subseteq> used_frames (vm_frames v')"
    using pmm_low.map_page_mono [OF _ mp [unfolded MapPage_def]] b(5) by simp
  have ran: "ran g' \<subseteq> F" by (auto simp: g'_def F_def ran_def)
  show "image_inv K m0 D d g' v'"
    unfolding image_inv_def
  proof (intro conjI allI impI)
    show "vm_inv D (used_frames (vm_frames v') - ran g') (vm_mem v')"
      by (rule vm_inv_cong [OF M(2) [OF fl(1)]]) (use ran in auto)
    show "inj_on g' (dom g')" using I(5) new by (auto simp: g'_def inj_on_def ran_def split: if_splits)
    show "ran g' \<subseteq> {0<..<65536}" using ran I(6) fr b(1) by (auto simp: F_def)
    show "unat (GetPhysicalAddress (vm_mem v') d w) = k * 4096 + unat w mod 4096" if "g' (unat w div 4096) = Some k" for w k
      using that M(3) [OF fl(1) I(1), of w] I(7) [of w k] low_frame_address [OF pa, of w] fl(2) fr b(1)
      by (auto simp: g'_def split: if_splits)
    have "K \<subseteq> used_frames (vm_frames ?v) - F" using I(8) b(2,4) fr by (auto simp: F_def)
    then show "apart K m0 d (vm_mem v')" using A I(9) by simp
    show "K \<subseteq> used_frames (vm_frames v') - ran g'" using I(8) ran b(2,4) fr mono by (auto simp: F_def)
  qed (use I(1) ok' ran in auto)
  show "unat w div 4096 \<noteq> unat va div 4096 \<Longrightarrow> GetPhysicalAddress (vm_mem v') d w = GetPhysicalAddress (vm_mem v) d w"
    using M(3) [OF fl(1) I(1), of w] by simp
  show "\<not> kernel_range (pd_index va)" using M(4) [OF fl(1)] by blast
  show "vm_mem v' x = vm_mem v x" if x: "unat x div 4096 \<in> insert (unat phys div 4096) (ran g)"
  proof (rule ccontr)
    assume "vm_mem v' x \<noteq> vm_mem v x"
    then have "unat x div 4096 \<in> used_frames (vm_frames v') - F"
      using W [of x] vm_inv_dir_used [OF M(2) [OF fl(1)] I(1)] vm_inv_table [OF M(2) [OF fl(1)] I(1)] by auto
    then show False using x by (simp add: F_def)
  qed
qed

definition segment_pages :: "u32 \<Rightarrow> nat list \<Rightarrow> nat set" where
  "segment_pages page_start ks = (\<lambda>k. unat page_start div 4096 + k) ` set ks"

lemma map_segment_image:
  assumes "image_inv K m0 D d g v" "map_segment_pages d ps ks v = (True, v')" "page_aligned ps" "\<forall>k \<in> set ks. unat ps + k * 4096 < 2 ^ 32"
  shows "\<exists>g'. image_inv K m0 D d g' v' \<and> dom g' = dom g \<union> segment_pages ps ks \<and> (\<forall>q. q \<notin> segment_pages ps ks \<longrightarrow> g' q = g q) \<and>
    (\<forall>x. unat x div 4096 \<in> ran (g |` (- segment_pages ps ks)) \<longrightarrow> vm_mem v' x = vm_mem v x)"
  using assms
proof (induction ks arbitrary: g v)
  case Nil
  then show ?case by (auto simp: segment_pages_def)
next
  case (Cons k ks)
  let ?va = "ps + of_nat k * PAGE_SIZE" and ?P = "segment_pages ps (k # ks)"
  obtain phys f v1 where al: "pmm_alloc_block_low (vm_frames v) LOW_LIMIT = (phys, f)" "phys \<noteq> 0"
    and mp: "MapPage (v\<lparr>vm_frames := f\<rparr>) d ?va phys (PAGE_PRESENT OR PAGE_RW OR PAGE_USER) = (True, v1)"
    and rest: "map_segment_pages d ps ks v1 = (True, v')"
    using Cons.prems(2) by (auto simp: Let_def split: prod.splits if_splits bool.splits)
  have k: "unat ps + k * 4096 < 2 ^ 32" using Cons.prems(4) by simp
  then have "unat (of_nat k * PAGE_SIZE) = k * 4096" using unat_mult_small [of "of_nat k" PAGE_SIZE] by simp
  then have "unat ?va = unat ps + k * 4096" using k by (simp add: unat_add_small)
  then have page: "unat ?va div 4096 = unat ps div 4096 + k" by simp
  define g1 where "g1 = g(unat ps div 4096 + k \<mapsto> unat phys div 4096)"
  note M = map_image_page [OF Cons.prems(1) al mp, unfolded page, folded g1_def]
  obtain g' where g': "image_inv K m0 D d g' v'" "dom g' = dom g1 \<union> segment_pages ps ks" "\<forall>q. q \<notin> segment_pages ps ks \<longrightarrow> g' q = g1 q"
    "\<forall>x. unat x div 4096 \<in> ran (g1 |` (- segment_pages ps ks)) \<longrightarrow> vm_mem v' x = vm_mem v1 x"
    using Cons.IH [OF M(1) rest Cons.prems(3)] Cons.prems(4) by auto
  have P: "?P = insert (unat ps div 4096 + k) (segment_pages ps ks)" by (simp add: segment_pages_def)
  have sub: "ran (g |` (- ?P)) \<subseteq> ran (g1 |` (- segment_pages ps ks))" "ran (g |` (- ?P)) \<subseteq> ran g"
    by (auto simp: ran_def restrict_map_def g1_def P split: if_splits)
  have "\<forall>x. unat x div 4096 \<in> ran (g |` (- ?P)) \<longrightarrow> vm_mem v' x = vm_mem v x"
    using g'(4) M(3) sub by (auto simp: subset_iff)
  moreover have "dom g' = dom g \<union> ?P" "\<forall>q. q \<notin> ?P \<longrightarrow> g' q = g q" using g'(2,3) by (auto simp: g1_def P)
  ultimately show ?case using g'(1) by blast
qed

subsection \<open>Writing the image\<close>

definition user_byte :: "memory \<Rightarrow> u32 \<Rightarrow> u32 \<Rightarrow> u8" where
  "user_byte m d w = load8 m (GetPhysicalAddress m d w)"

lemma in_span:
  fixes a c :: u32
  assumes "unat a + n \<le> 2 ^ 32"
  shows "unat (c - a) < n \<longleftrightarrow> unat a \<le> unat c \<and> unat c < unat a + n" and "unat a \<le> unat c \<Longrightarrow> unat (c - a) = unat c - unat a"
proof -
  show ge: "unat a \<le> unat c \<Longrightarrow> unat (c - a) = unat c - unat a" by (simp add: unat_sub word_le_nat_alt)
  have "unat c = unat a + unat (c - a)" if "unat (c - a) < n" using that assms unat_add_small [of a "c - a"] by simp
  then show "unat (c - a) < n \<longleftrightarrow> unat a \<le> unat c \<and> unat c < unat a + n" using ge by auto
qed

lemma translation_cong:
  assumes inv: "vm_inv D U m" and same: "\<forall>x. unat x div 4096 \<in> U \<longrightarrow> m' x = m x"
  shows "vm_inv D U m'" and "d \<in> D \<Longrightarrow> GetPhysicalAddress m' d w = GetPhysicalAddress m d w"
proof -
  have pde: "m' (entry d i) = m (entry d i)" if "d \<in> D" "unat i < 1024" for d i
    by (rule same [rule_format]) (use entry_frame [OF vm_inv_aligned [OF inv that(1)] that(2)] vm_inv_dir_used [OF inv that(1)] in simp)
  then show "vm_inv D U m'" by (intro vm_inv_cong [OF inv]) auto
  assume d: "d \<in> D"
  have "m' (entry (table_of (m (entry d (pd_index w)))) (pt_index w)) = m (entry (table_of (m (entry d (pd_index w)))) (pt_index w))"
    if "live_pde m d (pd_index w)"
    by (rule same [rule_format]) (use entry_frame [OF table_aligned pt_index_bound] vm_inv_table [OF inv d that] in simp)
  then show "GetPhysicalAddress m' d w = GetPhysicalAddress m d w"
    unfolding GetPhysicalAddress_alt live_pde_def pde [OF d pd_index_bound] by (auto simp: live_pde_def)
qed

lemma write_image:
  assumes inv: "image_inv K m0 D d g v" and w: "unat w div 4096 \<in> dom g" and fits: "unat w mod 4096 + length bs \<le> 4096"
  defines "m' \<equiv> store_bytes (vm_mem v) (GetPhysicalAddress (vm_mem v) d w) bs"
  shows "image_inv K m0 D d g (v\<lparr>vm_mem := m'\<rparr>)"
    and "unat w' div 4096 \<in> dom g \<Longrightarrow> user_byte m' d w' =
      (if unat w \<le> unat w' \<and> unat w' < unat w + length bs then bs ! (unat w' - unat w) else user_byte (vm_mem v) d w')"
proof -
  let ?m = "vm_mem v" and ?a = "GetPhysicalAddress (vm_mem v) d w"
  note I = image_invD [OF inv]
  obtain k where k: "g (unat w div 4096) = Some k" using w by auto
  have a: "unat ?a = k * 4096 + unat w mod 4096" by (rule I(7) [OF k])
  then have fr: "unat ?a div 4096 = k" "unat ?a mod 4096 = unat w mod 4096" by simp_all
  have kr: "k \<in> ran g" using k by (auto simp: ran_def)
  have other: "m' x = ?m x" if "unat x div 4096 \<noteq> k" for x unfolding m'_def by (rule store_bytes_other) (use that fr fits in simp_all)
  have same: "\<forall>x. unat x div 4096 \<in> used_frames (vm_frames v) - ran g \<longrightarrow> m' x = ?m x" using other kr by (metis DiffD2)
  note T = translation_cong [OF I(4) same]
  have pde: "m' (entry d i) = ?m (entry d i)" if "unat i < 1024" for i
    by (rule same [rule_format]) (use entry_frame [OF vm_inv_aligned [OF I(4,1)] that] vm_inv_dir_used [OF I(4,1)] in simp)
  have "m' x = ?m x" if "unat x div 4096 \<in> K" for x using same that I(8) by blast
  with pde have "apart K m0 d m'" using I(9) by (auto simp: apart_def live_pde_def)
  then show "image_inv K m0 D d g (v\<lparr>vm_mem := m'\<rparr>)" using inv T(1) T(2) [OF I(1)] by (simp add: image_inv_def)
  assume w': "unat w' div 4096 \<in> dom g"
  then obtain k' where k': "g (unat w' div 4096) = Some k'" by auto
  let ?c = "GetPhysicalAddress ?m d w'"
  have c: "unat ?c = k' * 4096 + unat w' mod 4096" by (rule I(7) [OF k'])
  have "k \<in> {0<..<65536}" using kr I(6) by blast
  then have span: "unat ?a + length bs \<le> 2 ^ 32" using a fits by simp
  have iff: "unat ?a \<le> unat ?c \<and> unat ?c < unat ?a + length bs \<longleftrightarrow> unat w \<le> unat w' \<and> unat w' < unat w + length bs"
    and diff: "unat w \<le> unat w' \<and> unat w' < unat w + length bs \<Longrightarrow> unat ?c - unat ?a = unat w' - unat w"
  proof -
    have in_page: "y div 4096 = x div 4096" if "x \<le> y" "y < x + length bs" "x mod 4096 + length bs \<le> 4096" for x y :: nat
    proof -
      have "y < x div 4096 * 4096 + 4096" "x div 4096 * 4096 \<le> y" using that div_mult_mod_eq [of x 4096] by linarith+
      then show ?thesis by (simp add: div_nat_eqI)
    qed
    have pg: "k = k' \<longleftrightarrow> unat w div 4096 = unat w' div 4096" using k k' inj_onD [OF I(5), of "unat w div 4096" "unat w' div 4096"] by auto
    have L: "k' = k" if "unat ?a \<le> unat ?c" "unat ?c < unat ?a + length bs" using in_page [OF that] fr fits c by simp
    have R: "unat w div 4096 = unat w' div 4096" if "unat w \<le> unat w'" "unat w' < unat w + length bs" using in_page [OF that fits] by simp
    have core: "unat ?a \<le> unat ?c \<longleftrightarrow> unat w \<le> unat w'" "unat ?c < unat ?a + n \<longleftrightarrow> unat w' < unat w + n" "unat ?c - unat ?a = unat w' - unat w"
      if "k = k'" for n
      using that pg a c div_mult_mod_eq [of "unat w" 4096] div_mult_mod_eq [of "unat w'" 4096] by linarith+
    show "unat ?a \<le> unat ?c \<and> unat ?c < unat ?a + length bs \<longleftrightarrow> unat w \<le> unat w' \<and> unat w' < unat w + length bs"
      using L R core(1,2) pg by metis
    show "unat ?c - unat ?a = unat w' - unat w" if "unat w \<le> unat w' \<and> unat w' < unat w + length bs"
      using R pg that core(3) by metis
  qed
  have "user_byte m' d w' = load8 m' ?c" unfolding user_byte_def T(2) [OF I(1)] ..
  moreover have "unat (?c - ?a) = unat w' - unat w" if "unat w \<le> unat w' \<and> unat w' < unat w + length bs"
    using in_span(2) [OF span, of ?c] iff diff that by simp
  ultimately show "user_byte m' d w' =
      (if unat w \<le> unat w' \<and> unat w' < unat w + length bs then bs ! (unat w' - unat w) else user_byte ?m d w')"
    using load8_store_bytes [of bs ?m ?a ?c] span in_span(1) [OF span, of ?c] iff fits unfolding user_byte_def m'_def by (simp cong: if_cong)
qed

text \<open>The span of \<open>n\<close> bytes at \<open>va\<close> lies in pages of the image, and does not reach the end of the address space.\<close>

definition span_in :: "(nat \<rightharpoonup> nat) \<Rightarrow> u32 \<Rightarrow> u32 \<Rightarrow> bool" where
  "span_in g va n \<longleftrightarrow> unat va + unat n < 2 ^ 32 \<and> (\<forall>x. unat va \<le> x \<and> x < unat va + unat n \<longrightarrow> x div 4096 \<in> dom g)"

lemma span_chunk:
  assumes inv: "image_inv K m0 D d g v" and sp: "span_in g va n" and n: "0 < n"
  defines "c \<equiv> chunk_at va n"
  shows "unat va div 4096 \<in> dom g" "GetPhysicalAddress (vm_mem v) d va \<notin> {0, 0xFFFFFFFF}"
    "0 < unat c" "unat c \<le> unat n" "unat (n - c) = unat n - unat c" "unat (va + c) = unat va + unat c"
    "unat va mod 4096 + unat c \<le> 4096" "span_in g (va + c) (n - c)"
proof -
  note C = chunk_at_bounds [OF n, of va, folded c_def]
  have n0: "0 < unat n" using n by (simp add: word_less_nat_alt)
  then show pg: "unat va div 4096 \<in> dom g" using sp by (auto simp: span_in_def)
  then obtain k where k: "g (unat va div 4096) = Some k" by auto
  then have "k \<in> ran g" by (auto simp: ran_def)
  then have kb: "0 < k" "k < 65536" using image_invD(6) [OF inv] by auto
  have "unat (GetPhysicalAddress (vm_mem v) d va) = k * 4096 + unat va mod 4096" using image_invD(7) [OF inv k] .
  then have "0 < unat (GetPhysicalAddress (vm_mem v) d va)" "unat (GetPhysicalAddress (vm_mem v) d va) < 65536 * 4096"
    using kb mod_less_divisor [of 4096 "unat va"] by linarith+
  then show "GetPhysicalAddress (vm_mem v) d va \<notin> {0, 0xFFFFFFFF}" by auto
  show "0 < unat c" by (rule C(1))
  show le: "unat c \<le> unat n" using C(2) by (simp add: word_le_nat_alt)
  show nc: "unat (n - c) = unat n - unat c" using C(2) by (rule unat_sub)
  show vc: "unat (va + c) = unat va + unat c" using sp le by (intro unat_add_small) (simp add: span_in_def)
  show "unat va mod 4096 + unat c \<le> 4096" using C(3) by (simp add: unat_mod_distrib)
  show "span_in g (va + c) (n - c)" using sp le unfolding span_in_def nc vc by auto
qed

lemma copy_image:
  assumes laws: "reads_bytes api fid ptr cont"
    and "image_inv K m0 D d g v" "span_in g va n" "open_rd fid cont p content pos fs" "unat pos + unat n \<le> length content"
  shows "\<exists>fs' m' pos'. copy_segment api p d n va fs (vm_mem v) = Some (Some (va + n), fs', m') \<and> open_rd fid cont p content pos' fs' \<and>
    image_inv K m0 D d g (v\<lparr>vm_mem := m'\<rparr>) \<and> (\<forall>w. unat w div 4096 \<in> dom g \<longrightarrow> user_byte m' d w =
      (if unat va \<le> unat w \<and> unat w < unat va + unat n then content ! (unat pos + (unat w - unat va)) else user_byte (vm_mem v) d w))"
  using assms(2-)
proof (induction "unat n" arbitrary: n va fs v pos rule: less_induct)
  case less
  show ?case
  proof (cases "0 < n")
    case False
    then have "n = 0" by (simp add: word_gt_0)
    then show ?thesis using less.prems by (subst copy_segment.simps) auto
  next
    case n: True
    define c where "c = chunk_at va n"
    define bs where "bs = take (unat c) (drop (unat pos) content)"
    let ?a = "GetPhysicalAddress (vm_mem v) d va"
    note S = span_chunk [OF less.prems(1,2) n, folded c_def]
    have len: "length bs = unat c" using less.prems(4) S(4) by (simp add: bs_def)
    obtain fs1 where rd: "Read api p (Some (load_bytes (vm_mem v) ?a (unat c))) c fs = Some (c, Some bs, fs1)"
      and rd1: "open_rd fid cont p content (pos + c) fs1"
      using Read_rd [OF laws less.prems(3), of "load_bytes (vm_mem v) ?a (unat c)" c] len by (auto simp: bs_def [symmetric] overwrite_def)
    let ?m = "store_bytes (vm_mem v) ?a bs"
    have fits: "unat va mod 4096 + length bs \<le> 4096" using S(7) len by simp
    note W = write_image [OF less.prems(1) S(1) fits]
    have "length content < 2 ^ 32" using elf_size_rd [OF rd1] unat_u32_bound by metis
    then have pc: "unat (pos + c) = unat pos + unat c" using less.prems(4) S(4) by (intro unat_add_small) simp
    have smaller: "unat (n - c) < unat n" "unat (pos + c) + unat (n - c) \<le> length content" using S(3,4,5) pc less.prems(4) by auto
    from less.hyps [OF smaller(1) W(1) S(8) rd1 smaller(2)]
    obtain fs' m' pos' where IH: "copy_segment api p d (n - c) (va + c) fs1 ?m = Some (Some (va + n), fs', m')"
      "open_rd fid cont p content pos' fs'" "image_inv K m0 D d g (v\<lparr>vm_mem := m'\<rparr>)"
      and b: "\<forall>w. unat w div 4096 \<in> dom g \<longrightarrow> user_byte m' d w = (if unat va + unat c \<le> unat w \<and> unat w < unat va + unat n
        then content ! (unat pos + unat c + (unat w - (unat va + unat c))) else user_byte ?m d w)"
      using S(4,5,6) pc by auto
    have step: "copy_segment api p d n va fs (vm_mem v) = Some (Some (va + n), fs', m')"
      using n S(2) rd IH(1) by (subst copy_segment.simps) (simp add: Let_def c_def [symmetric])
    have bytes: "user_byte m' d w = (if unat va \<le> unat w \<and> unat w < unat va + unat n then content ! (unat pos + (unat w - unat va))
        else user_byte (vm_mem v) d w)" if w: "unat w div 4096 \<in> dom g" for w
    proof (cases "unat va \<le> unat w \<and> unat w < unat va + unat c")
      case True
      then have "unat w - unat va < unat c" by linarith
      then have "bs ! (unat w - unat va) = content ! (unat pos + (unat w - unat va))"
        unfolding bs_def by (simp only: nth_take) (rule nth_drop, use less.prems(4) in linarith)
      then show ?thesis using b w W(2) [OF w] True len S(4) by simp
    next
      case False
      then have "user_byte ?m d w = user_byte (vm_mem v) d w" using W(2) [OF w] len by auto
      moreover have "unat pos + unat c + (unat w - (unat va + unat c)) = unat pos + (unat w - unat va)" if "unat va + unat c \<le> unat w" using that by simp
      ultimately show ?thesis using b w False S(3,4) by auto
    qed
    show ?thesis using step IH(2,3) bytes by blast
  qed
qed

lemma zero_image:
  assumes "image_inv K m0 D d g v" "span_in g va n"
  shows "\<exists>m'. zero_segment d n va (vm_mem v) = (True, m') \<and> image_inv K m0 D d g (v\<lparr>vm_mem := m'\<rparr>) \<and>
    (\<forall>w. unat w div 4096 \<in> dom g \<longrightarrow> user_byte m' d w = (if unat va \<le> unat w \<and> unat w < unat va + unat n then 0 else user_byte (vm_mem v) d w))"
  using assms
proof (induction "unat n" arbitrary: n va v rule: less_induct)
  case less
  show ?case
  proof (cases "0 < n")
    case False
    then have "n = 0" by (simp add: word_gt_0)
    then show ?thesis using less.prems by (subst zero_segment.simps) auto
  next
    case n: True
    define c where "c = chunk_at va n"
    let ?bs = "replicate (unat c) 0 :: u8 list"
    let ?m = "store_bytes (vm_mem v) (GetPhysicalAddress (vm_mem v) d va) ?bs"
    note S = span_chunk [OF less.prems n, folded c_def]
    have fits: "unat va mod 4096 + length ?bs \<le> 4096" using S(7) by simp
    note W = write_image [OF less.prems(1) S(1) fits]
    have smaller: "unat (n - c) < unat n" using S(3,4,5) by simp
    from less.hyps [OF smaller W(1) S(8)]
    obtain m' where IH: "zero_segment d (n - c) (va + c) ?m = (True, m')" "image_inv K m0 D d g (v\<lparr>vm_mem := m'\<rparr>)"
      and b: "\<forall>w. unat w div 4096 \<in> dom g \<longrightarrow> user_byte m' d w = (if unat va + unat c \<le> unat w \<and> unat w < unat va + unat n then 0 else user_byte ?m d w)"
      using S(4,5,6) by auto
    have step: "zero_segment d n va (vm_mem v) = (True, m')"
      using n S(2) IH(1) by (subst zero_segment.simps) (simp add: Let_def c_def [symmetric])
    have "user_byte m' d w = (if unat va \<le> unat w \<and> unat w < unat va + unat n then 0 else user_byte (vm_mem v) d w)"
      if w: "unat w div 4096 \<in> dom g" for w
      using b w W(2) [OF w] S(3,4) by auto
    then show ?thesis using step IH(2) by blast
  qed
qed

subsection \<open>Loading segments\<close>

lemma page_down_unat: "unat (page_down a) = unat a div 4096 * 4096" "page_aligned (page_down a)"
proof -
  have eq: "page_down a = a AND 0xFFFFF000" unfolding mask20 by (simp add: mask_eq_exp_minus_1)
  show al: "page_aligned (page_down a)" unfolding eq by (rule masked_aligned)
  have "drop_bit 12 (page_down a) = drop_bit 12 a"
    unfolding eq mask20 by (auto simp: bit_eq_iff bit_simps dest: bit_imp_le_length)
  then have "unat (page_down a) div 4096 = unat a div 4096" by (simp add: drop_bit_eq_div word_unat_eq_iff unat_div_distrib)
  then show "unat (page_down a) = unat a div 4096 * 4096" using aligned_unat(1) [OF al] by simp
qed

definition fits :: "elf_program_header \<Rightarrow> bool" where
  "fits ph \<longleftrightarrow> unat (virt_addr ph) + unat (mem_size ph) + 4095 < 2 ^ 32"

definition pages_of :: "elf_program_header \<Rightarrow> nat set" where
  "pages_of ph = {unat (virt_addr ph) div 4096 ..< (unat (virt_addr ph) + unat (mem_size ph) + 4095) div 4096}"

text \<open>The bytes of a segment as the process sees them: the file's bytes, then zeroes.\<close>

definition loaded :: "u8 list \<Rightarrow> memory \<Rightarrow> u32 \<Rightarrow> elf_program_header \<Rightarrow> bool" where
  "loaded content m d ph \<longleftrightarrow> (\<forall>w. unat (virt_addr ph) \<le> unat w \<and> unat w < unat (virt_addr ph) + unat (mem_size ph) \<longrightarrow>
     user_byte m d w = (let i = unat w - unat (virt_addr ph) in if i < unat (file_size ph) then content ! (unat (p_offset ph) + i) else 0))"

lemma in_pages: "unat (virt_addr ph) \<le> x \<Longrightarrow> x < unat (virt_addr ph) + unat (mem_size ph) \<Longrightarrow> x div 4096 \<in> pages_of ph"
proof -
  assume a: "unat (virt_addr ph) \<le> x" "x < unat (virt_addr ph) + unat (mem_size ph)"
  have "(x + 4096) div 4096 \<le> (unat (virt_addr ph) + unat (mem_size ph) + 4095) div 4096" by (rule div_le_mono) (use a in linarith)
  then show ?thesis using div_le_mono [OF a(1), of 4096] by (simp add: pages_of_def)
qed

lemma user_byte_cong:
  assumes "image_inv K m0 D d g v" "image_inv K m0 D d g' v'" "g (unat w div 4096) = Some k" "g' (unat w div 4096) = Some k"
    and same: "\<And>x. unat x div 4096 = k \<Longrightarrow> vm_mem v' x = vm_mem v x"
  shows "user_byte (vm_mem v') d w = user_byte (vm_mem v) d w"
proof -
  let ?a = "GetPhysicalAddress (vm_mem v) d w"
  have u: "unat ?a = k * 4096 + unat w mod 4096" "unat (GetPhysicalAddress (vm_mem v') d w) = k * 4096 + unat w mod 4096"
    using image_invD(7) assms(1-4) by blast+
  then have "GetPhysicalAddress (vm_mem v') d w = ?a" by (simp add: word_unat_eq_iff)
  moreover have "vm_mem v' (?a AND NOT 3) = vm_mem v (?a AND NOT 3)" by (rule same) (use frame_of_word [of ?a] u(1) in simp)
  ultimately show ?thesis by (simp add: user_byte_def load8_def)
qed

lemma offset_sum: "unat (ucast (a :: u32) + ucast (b :: u32) :: u64) = unat a + unat b"
  using unat_u32_bound [of a] unat_u32_bound [of b] by (simp add: unat_word_ariths unat_ucast64)

text \<open>The pages the mapping loop goes through are those of the segment.\<close>

lemma segment_geometry:
  assumes fit: "fits ph"
  defines "ps \<equiv> page_down (virt_addr ph)"
  defines "ks \<equiv> [0..<(unat (page_down (virt_addr ph + mem_size ph + PAGE_SIZE - 1)) - unat ps) div 4096]"
  shows "segment_pages ps ks = pages_of ph" "\<forall>k \<in> set ks. unat ps + k * 4096 < 2 ^ 32" "length ks = card (pages_of ph)"
proof -
  let ?va = "virt_addr ph" and ?n = "mem_size ph"
  have fw: "unat ?va + unat ?n + 4095 < 2 ^ 32" using fit by (simp add: fits_def)
  have vn: "unat (?va + ?n) = unat ?va + unat ?n" using fw by (intro unat_add_small) simp
  have "unat (?va + ?n + PAGE_SIZE - 1) = unat ?va + unat ?n + 4095"
    using unat_add_small [of "?va + ?n" 4095] vn fw by (simp add: add_diff_eq [symmetric])
  then have pe: "unat (page_down (?va + ?n + PAGE_SIZE - 1)) = (unat ?va + unat ?n + 4095) div 4096 * 4096" by (simp only: page_down_unat)
  have ps: "unat ps = unat ?va div 4096 * 4096" unfolding ps_def by (rule page_down_unat)
  have ks: "ks = [0..<(unat ?va + unat ?n + 4095) div 4096 - unat ?va div 4096]"
    unfolding ks_def pe ps by (simp flip: diff_mult_distrib)
  show "segment_pages ps ks = pages_of ph"
    unfolding segment_pages_def ks ps pages_of_def by (auto simp: image_iff intro!: bexI [of _ "_ - unat ?va div 4096"])
  show "length ks = card (pages_of ph)" by (simp add: ks pages_of_def)
  show "\<forall>k \<in> set ks. unat ps + k * 4096 < 2 ^ 32"
  proof
    fix k assume "k \<in> set ks"
    then have "unat ?va div 4096 + k < (unat ?va + unat ?n + 4095) div 4096" by (auto simp: ks)
    moreover have "(unat ?va + unat ?n + 4095) div 4096 * 4096 \<le> unat ?va + unat ?n + 4095" by simp
    ultimately show "unat ps + k * 4096 < 2 ^ 32" using fw unfolding ps by linarith
  qed
qed

text \<open>Once the pages are mapped, copying and zeroing succeed.\<close>

lemma fill_segment:
  assumes laws: "reads_bytes api fid ptr cont" and inv: "image_inv K m0 D d g v" and rd: "open_rd fid cont p content pos fs"
    and fit: "fits ph" "pages_of ph \<subseteq> dom g" "file_size ph \<le> mem_size ph" "unat (p_offset ph) + unat (file_size ph) \<le> length content"
  shows "\<exists>fs' m1 m' pos'. copy_segment api p d (file_size ph) (virt_addr ph) (Seek p (p_offset ph) fs) (vm_mem v) = Some (Some (virt_addr ph + file_size ph), fs', m1) \<and>
    zero_segment d (mem_size ph - file_size ph) (virt_addr ph + file_size ph) m1 = (True, m') \<and> open_rd fid cont p content pos' fs' \<and>
    image_inv K m0 D d g (v\<lparr>vm_mem := m'\<rparr>) \<and> loaded content m' d ph \<and>
    (\<forall>w. unat w div 4096 \<in> dom g - pages_of ph \<longrightarrow> user_byte m' d w = user_byte (vm_mem v) d w)"
proof -
  let ?va = "virt_addr ph" and ?n = "mem_size ph" and ?f = "file_size ph"
  have fw: "unat ?va + unat ?n + 4095 < 2 ^ 32" using fit(1) by (simp add: fits_def)
  have fn: "unat ?f \<le> unat ?n" using fit(3) by (simp add: word_le_nat_alt)
  obtain pos1 where rd1: "open_rd fid cont p content pos1 (Seek p (p_offset ph) fs)" "pos1 = p_offset ph"
    using Seek_rd [OF rd, of "p_offset ph"] fit(4) by auto
  have pg: "x div 4096 \<in> dom g" if "unat ?va \<le> x" "x < unat ?va + unat ?n" for x using in_pages [OF that] fit(2) by blast
  have sp: "span_in g ?va ?f" unfolding span_in_def by (intro conjI allI impI pg) (use fw fn in linarith)+
  obtain fs1 m1 pos2 where cp: "copy_segment api p d ?f ?va (Seek p (p_offset ph) fs) (vm_mem v) = Some (Some (?va + ?f), fs1, m1)"
    and rd2: "open_rd fid cont p content pos2 fs1" and i1: "image_inv K m0 D d g (v\<lparr>vm_mem := m1\<rparr>)"
    and b1: "\<forall>w. unat w div 4096 \<in> dom g \<longrightarrow> user_byte m1 d w = (if unat ?va \<le> unat w \<and> unat w < unat ?va + unat ?f
       then content ! (unat (p_offset ph) + (unat w - unat ?va)) else user_byte (vm_mem v) d w)"
    using copy_image [OF laws inv sp rd1(1)] fit(4) rd1(2) by blast
  have nf: "unat (?n - ?f) = unat ?n - unat ?f" using fit(3) by (rule unat_sub)
  have vf: "unat (?va + ?f) = unat ?va + unat ?f" using fw fn by (intro unat_add_small) simp
  have sp2: "span_in g (?va + ?f) (?n - ?f)" unfolding span_in_def nf vf by (intro conjI allI impI pg) (use fw fn in linarith)+
  obtain m' where zr: "zero_segment d (?n - ?f) (?va + ?f) m1 = (True, m')" and i2: "image_inv K m0 D d g (v\<lparr>vm_mem := m'\<rparr>)"
    and b2: "\<forall>w. unat w div 4096 \<in> dom g \<longrightarrow> user_byte m' d w = (if unat ?va + unat ?f \<le> unat w \<and> unat w < unat ?va + unat ?n
       then 0 else user_byte m1 d w)"
    using zero_image [OF i1 sp2] fn by (auto simp: nf vf)
  have "loaded content m' d ph"
    unfolding loaded_def Let_def
  proof (intro allI impI)
    fix w :: u32 assume w: "unat ?va \<le> unat w \<and> unat w < unat ?va + unat ?n"
    show "user_byte m' d w = (if unat w - unat ?va < unat ?f then content ! (unat (p_offset ph) + (unat w - unat ?va)) else 0)"
    proof (cases "unat w - unat ?va < unat ?f")
      case True
      then have "unat w < unat ?va + unat ?f" by linarith
      then show ?thesis using b1 b2 pg [of "unat w"] w True by simp
    next
      case False
      then have "unat ?va + unat ?f \<le> unat w" using w by linarith
      then show ?thesis using b2 pg [of "unat w"] w False by simp
    qed
  qed
  moreover have "user_byte m' d w = user_byte (vm_mem v) d w" if w: "unat w div 4096 \<in> dom g - pages_of ph" for w
  proof -
    have "\<not> (unat ?va \<le> unat w \<and> unat w < unat ?va + unat ?n)" using in_pages [of ph "unat w"] w by blast
    then show ?thesis using b1 b2 w fn by auto
  qed
  ultimately show ?thesis using cp zr rd2 i2 by blast
qed

lemma load_segment_image:
  assumes laws: "reads_bytes api fid ptr cont" and inv: "image_inv K m0 D d g v" and rd: "open_rd fid cont p content pos fs"
    and fit: "fits ph" and ld: "load_segment api p d ph fs v = Some (True, fs', v')"
  shows "\<exists>g' pos'. image_inv K m0 D d g' v' \<and> open_rd fid cont p content pos' fs' \<and> dom g' = dom g \<union> pages_of ph \<and>
    loaded content (vm_mem v') d ph \<and> (\<forall>w. unat w div 4096 \<in> dom g - pages_of ph \<longrightarrow> user_byte (vm_mem v') d w = user_byte (vm_mem v) d w)"
proof -
  note G = segment_geometry [OF fit]
  obtain v1 fs1 m1 va1 where mp: "map_segment_pages d (page_down (virt_addr ph))
      [0..<(unat (page_down (virt_addr ph + mem_size ph + PAGE_SIZE - 1)) - unat (page_down (virt_addr ph))) div 4096] v = (True, v1)"
    and sz: "\<not> mem_size ph < file_size ph" "\<not> (ucast (elf_size p fs) :: u64) < ucast (p_offset ph) + ucast (file_size ph)"
    and cp: "copy_segment api p d (file_size ph) (virt_addr ph) (Seek p (p_offset ph) fs) (vm_mem v1) = Some (Some va1, fs1, m1)"
    and zr: "zero_segment d (mem_size ph - file_size ph) va1 m1 = (True, vm_mem v')" and res: "v' = v1\<lparr>vm_mem := vm_mem v'\<rparr>" "fs' = fs1"
    using ld by (auto simp: load_segment_def Let_def split: if_splits prod.splits option.splits bool.splits)
  obtain g1 where g1: "image_inv K m0 D d g1 v1" "dom g1 = dom g \<union> pages_of ph" "\<forall>q. q \<notin> pages_of ph \<longrightarrow> g1 q = g q"
    "\<forall>x. unat x div 4096 \<in> ran (g |` (- pages_of ph)) \<longrightarrow> vm_mem v1 x = vm_mem v x"
    using map_segment_image [OF inv mp page_down_unat(2) G(2)] unfolding G(1) by blast
  have size: "unat (p_offset ph) + unat (file_size ph) \<le> length content"
    using sz(2) elf_size_rd [OF rd] by (simp add: word_less_nat_alt unat_ucast64 offset_sum)
  have fn: "file_size ph \<le> mem_size ph" using sz(1) by simp
  have "pages_of ph \<subseteq> dom g1" using g1(2) by blast
  from fill_segment [OF laws g1(1) rd fit this fn size]
  obtain fs2 m2 m3 pos' where F: "copy_segment api p d (file_size ph) (virt_addr ph) (Seek p (p_offset ph) fs) (vm_mem v1) = Some (Some (virt_addr ph + file_size ph), fs2, m2)"
    "zero_segment d (mem_size ph - file_size ph) (virt_addr ph + file_size ph) m2 = (True, m3)" "open_rd fid cont p content pos' fs2"
    "image_inv K m0 D d g1 (v1\<lparr>vm_mem := m3\<rparr>)" "loaded content m3 d ph"
    "\<forall>w. unat w div 4096 \<in> dom g1 - pages_of ph \<longrightarrow> user_byte m3 d w = user_byte (vm_mem v1) d w" by blast
  then have eq: "fs2 = fs'" "m3 = vm_mem v'" using cp zr res(2) by auto
  note F = F(3-) [unfolded eq res(1) [symmetric]]
  have "user_byte (vm_mem v') d w = user_byte (vm_mem v) d w" if w: "unat w div 4096 \<in> dom g - pages_of ph" for w
  proof -
    obtain k where k: "g (unat w div 4096) = Some k" using w by auto
    then have "g1 (unat w div 4096) = Some k" "k \<in> ran (g |` (- pages_of ph))"
      using w g1(3) by (auto simp: ran_def restrict_map_def intro!: exI [of _ "unat w div 4096"])
    then have "user_byte (vm_mem v1) d w = user_byte (vm_mem v) d w"
      using user_byte_cong [OF inv g1(1) k] g1(4) by blast
    then show ?thesis using F(4) w g1(2) by simp
  qed
  then show ?thesis using F(1-3) g1(2) by blast
qed

text \<open>The \<^verbatim>\<open>PT_LOAD\<close> entries of a table; no two of them share a page.\<close>

definition pt_loads :: "elf_program_header list \<Rightarrow> elf_program_header list" where
  "pt_loads phs = filter (\<lambda>ph. p_type ph = 1) phs"

definition pages_disjoint :: "elf_program_header list \<Rightarrow> bool" where
  "pages_disjoint phs \<longleftrightarrow> sorted_wrt (\<lambda>a b. pages_of a \<inter> pages_of b = {}) (pt_loads phs)"

lemma load_segments_image:
  assumes laws: "reads_bytes api fid ptr cont"
    and "image_inv K m0 D d g v" "open_rd fid cont p content pos fs"
    and "\<forall>ph \<in> set (pt_loads phs). fits ph" "pages_disjoint phs" "load_segments api p d phs e0 fs v = Some (Some e, fs', v')"
  shows "\<exists>g' pos'. image_inv K m0 D d g' v' \<and> open_rd fid cont p content pos' fs' \<and>
    (\<forall>ph \<in> set (pt_loads phs). loaded content (vm_mem v') d ph) \<and>
    (\<forall>w. unat w div 4096 \<in> dom g - (\<Union>ph \<in> set (pt_loads phs). pages_of ph) \<longrightarrow> user_byte (vm_mem v') d w = user_byte (vm_mem v) d w)"
  using assms(2-)
proof (induction phs arbitrary: g v fs pos e0)
  case (Cons ph phs)
  show ?case
  proof (cases "p_type ph = 1")
    case False
    then show ?thesis using Cons by (auto simp: pt_loads_def pages_disjoint_def)
  next
    case True
    then obtain fs1 v1 e1 where ld: "load_segment api p d ph fs v = Some (True, fs1, v1)"
      and rest: "load_segments api p d phs e1 fs1 v1 = Some (Some e, fs', v')"
      using Cons.prems(5) by (auto simp: Let_def split: option.splits bool.splits)
    have fit: "fits ph" "\<forall>ph \<in> set (pt_loads phs). fits ph" using Cons.prems(3) True by (simp_all add: pt_loads_def)
    let ?R = "\<Union>ph \<in> set (pt_loads phs). pages_of ph"
    have disj: "pages_disjoint phs" "pages_of ph \<inter> ?R = {}" using Cons.prems(4) True by (auto simp: pt_loads_def pages_disjoint_def)
    obtain g1 pos1 where s: "image_inv K m0 D d g1 v1" "open_rd fid cont p content pos1 fs1" "dom g1 = dom g \<union> pages_of ph"
      "loaded content (vm_mem v1) d ph" "\<forall>w. unat w div 4096 \<in> dom g - pages_of ph \<longrightarrow> user_byte (vm_mem v1) d w = user_byte (vm_mem v) d w"
      using load_segment_image [OF laws Cons.prems(1,2) fit(1) ld] by blast
    obtain g' pos' where g': "image_inv K m0 D d g' v'" "open_rd fid cont p content pos' fs'" "\<forall>ph \<in> set (pt_loads phs). loaded content (vm_mem v') d ph"
      "\<forall>w. unat w div 4096 \<in> dom g1 - ?R \<longrightarrow> user_byte (vm_mem v') d w = user_byte (vm_mem v1) d w"
      using Cons.IH [OF s(1,2) fit(2) disj(1) rest] by blast
    have "user_byte (vm_mem v') d w = user_byte (vm_mem v1) d w" if "unat w div 4096 \<in> pages_of ph" for w
      using g'(4) that s(3) disj(2) by blast
    then have "loaded content (vm_mem v') d ph" using s(4) in_pages [of ph] by (simp add: loaded_def)
    moreover have "pt_loads (ph # phs) = ph # pt_loads phs" using True by (simp add: pt_loads_def)
    ultimately show ?thesis using g' s(3,5) by auto
  qed
qed (auto simp: pt_loads_def)

text \<open>The end of the last segment, and that the heap starts behind all of them.\<close>

lemma load_segments_end:
  assumes "\<forall>ph \<in> set (pt_loads phs). fits ph" "load_segments api p d phs e0 fs v = Some (Some e, fs', v')" "unat e0 + 4095 < 2 ^ 32"
  shows "unat e + 4095 < 2 ^ 32 \<and> unat e0 \<le> unat e \<and> (\<forall>ph \<in> set (pt_loads phs). unat (virt_addr ph) + unat (mem_size ph) \<le> unat e)"
  using assms
proof (induction phs arbitrary: e0 fs v)
  case (Cons ph phs)
  show ?case
  proof (cases "p_type ph = 1")
    case False
    then show ?thesis using Cons by (auto simp: pt_loads_def)
  next
    case True
    define e1 where "e1 = (if e0 < virt_addr ph + mem_size ph then virt_addr ph + mem_size ph else e0)"
    obtain fs1 v1 where rest: "load_segments api p d phs e1 fs1 v1 = Some (Some e, fs', v')"
      using Cons.prems(2) True by (auto simp: Let_def e1_def split: option.splits bool.splits)
    have fit: "fits ph" "\<forall>ph \<in> set (pt_loads phs). fits ph" using Cons.prems(1) True by (simp_all add: pt_loads_def)
    then have "unat (virt_addr ph + mem_size ph) = unat (virt_addr ph) + unat (mem_size ph)" by (simp add: fits_def unat_add_small)
    then have e1: "unat e1 = max (unat e0) (unat (virt_addr ph) + unat (mem_size ph))" by (simp add: e1_def word_less_nat_alt max_def)
    then have "unat e1 + 4095 < 2 ^ 32" using fit(1) Cons.prems(3) by (simp add: fits_def max_def)
    from Cons.IH [OF fit(2) rest this] e1 True show ?thesis by (auto simp: pt_loads_def)
  qed
qed (auto simp: pt_loads_def)

lemma page_up: "unat e + 4095 < 2 ^ 32 \<Longrightarrow> unat e \<le> unat (page_down (e + PAGE_SIZE - 1))"
proof -
  assume b: "unat e + 4095 < 2 ^ 32"
  then have "unat (e + PAGE_SIZE - 1) = unat e + 4095" using unat_add_small [of e 4095] by (simp add: add_diff_eq [symmetric])
  moreover have "unat e \<le> (unat e + 4095) div 4096 * 4096" using div_mult_mod_eq [of "unat e + 4095" 4096] mod_less_divisor [of 4096 "unat e + 4095"] by linarith
  ultimately show ?thesis by (simp only: page_down_unat)
qed

subsection \<open>A new address space\<close>

lemma copy_entries_other:
  "page_aligned dst \<Longrightarrow> \<forall>i \<in> set is. i < 1024 \<Longrightarrow> unat x div 4096 \<noteq> unat dst div 4096 \<Longrightarrow> copy_entries dst src is m x = m x"
proof (induction "is" arbitrary: m)
  case (Cons i "is")
  have "unat (entry dst (of_nat i)) div 4096 = unat dst div 4096" using Cons.prems by (intro entry_frame) auto
  then show ?case using Cons by auto
qed simp

context low_frame_source
begin

lemma create_directory_apart:
  assumes ok: "ok (vm_frames s)" and inv: "vm_inv D (used (vm_frames s)) (vm_mem s)"
    and kd: "vm_kernel_dir s \<in> D" and r: "create_directory_with alloc s = (nd, s')" and nd: "nd \<noteq> 0"
  shows "apart (used (vm_frames s)) (vm_mem s) nd (vm_mem s')" "used (vm_frames s) \<subseteq> used (vm_frames s')"
proof -
  let ?K = "vm_kernel_dir s"
  obtain f where al: "alloc (vm_frames s) = (nd, f)"
    and s': "s' = s\<lparr>vm_frames := f, vm_mem := copy_entries nd ?K kernel_pd_slots (clear_page (vm_mem s) nd)\<rparr>"
    using r nd by (auto simp: create_directory_with_def split: prod.splits if_splits)
  note fresh = alloc_fresh [OF ok al nd]
  have nK: "nd \<noteq> ?K" using fresh vm_inv_dir_used [OF inv kd] by auto
  have "vm_mem s' x = vm_mem s x" if "unat x div 4096 \<in> used (vm_frames s)" for x
  proof -
    have ne: "unat x div 4096 \<noteq> unat nd div 4096" using that fresh by auto
    have iff: "n * 4096 \<le> y \<and> y < n * 4096 + 4096 \<longleftrightarrow> y div 4096 = n" for n y :: nat by auto
    have "clear_page (vm_mem s) nd x = vm_mem s x"
      using ne iff [of "unat nd div 4096" "unat x"] aligned_unat(1) [of nd] fresh unfolding clear_page_def by metis
    then show ?thesis using copy_entries_other [of nd kernel_pd_slots x] ne fresh slots_bound by (simp add: s')
  qed
  moreover have "\<not> live_pde (vm_mem s') nd i" if "\<not> kernel_range i" for i
    using that copy_entries_at [of nd ?K kernel_pd_slots nd i "clear_page (vm_mem s) nd"] fresh vm_inv_aligned [OF inv kd] nK slots_bound
    by (auto simp: live_pde_def s' kernel_range_slots clear_page_entry)
  ultimately show "apart (used (vm_frames s)) (vm_mem s) nd (vm_mem s')" using fresh by (auto simp: apart_def)
  show "used (vm_frames s) \<subseteq> used (vm_frames s')" using alloc_mono [OF ok al] by (simp add: s')
qed

end

lemma CreateProcess_space:
  assumes inv: "pmm_inv (vm_frames (vm s))" "vm_inv D (used_frames (vm_frames (vm s))) (vm_mem (vm s))" "vm_kernel_dir (vm s) \<in> D"
    and low: "0 < low_avail (vm_frames (vm s))" and c: "CreateProcess newP newT False ep arg False s = Some (p, s')" "p \<noteq> null_ptr"
  defines "K \<equiv> used_frames (vm_frames (vm s))" and "d \<equiv> page_directory (proc s' p)"
  shows "image_inv K (vm_mem (vm s)) (insert d D) d Map.empty (vm s')" "d \<notin> D"
proof -
  obtain v1 pd where d: "CreateProcessDirectory (vm s) = (pd, v1)" by fastforce
  obtain v2 where m: "MapPage v1 pd USER_EXIT_TRAMPOLINE_VIRT (trampolinePhys s) (PAGE_PRESENT OR PAGE_USER) = (True, v2)"
    and r: "vm s' = v2" "page_directory (proc s' p) = pd"
    using c by (fastforce simp: CreateProcess_def Let_def d split: if_splits bool.splits prod.splits)
  note cd = d [unfolded CreateProcessDirectory_def] and mp = m [unfolded MapPage_def]
  obtain a f where al: "pmm_alloc_block_low (vm_frames (vm s)) LOW_LIMIT = (a, f)" by fastforce
  have pd: "pd \<noteq> 0" using pmm_low.alloc_avail [OF inv(1) al low] cd al by (auto simp: create_directory_with_def)
  note S = pmm_low.create_directory_spec [OF inv(1,2,3) cd pd]
  note A = pmm_low.create_directory_apart [OF inv(1,2,3) cd pd]
  have dd: "pd \<in> insert pd D" by simp
  have fl: "(PAGE_PRESENT OR PAGE_USER) AND 0xFFFFF000 = 0" by simp
  note M = pmm_low.map_page_spec [OF S(1,3) dd mp fl]
  have "K \<subseteq> used_frames (vm_frames v2)" using A(2) pmm_low.map_page_mono [OF S(1) mp] by (auto simp: K_def)
  moreover have "apart K (vm_mem (vm s)) pd (vm_mem v2)"
    using pmm_low.map_page_apart [OF S(1,3) dd mp _ A(1)] A(2) by (simp add: K_def)
  ultimately show "image_inv K (vm_mem (vm s)) (insert d D) d Map.empty (vm s')"
    using M(1,2) by (simp add: image_inv_def r d_def)
  show "d \<notin> D" using S(2) by (simp add: d_def r)
qed

subsection \<open>Giving up\<close>

lemma rotate_to_last:
  "\<forall>q \<in> set xs. \<not> P q \<Longrightarrow> P p \<Longrightarrow> rotate_to P (Suc (length xs)) (xs @ p # ys) = (p, ys @ xs @ [p])"
proof (induction xs arbitrary: ys)
  case (Cons x xs)
  then show ?case using Cons.IH [of "ys @ [x]"] by simp
qed simp

text \<open>Killing the process that was added last, before it has a thread, undoes its creation.\<close>

lemma kill_last:
  assumes inv: "sched_inv s" and p: "p \<notin> dom (procs s)" "p \<noteq> null_ptr" and v: "view s1 = view (add_proc p pc s)" and pc: "p_threads pc = []"
    and pid: "\<forall>q \<in> set (globalProcessList s). p_pid (proc s q) \<noteq> p_pid pc"
  shows "view (cleanup_process p s1) = view s"
proof -
  have vp: "procs s1 = (procs s)(p \<mapsto> pc)" "globalProcessList s1 = globalProcessList s @ [p]" "threads s1 = threads s" "readyQueue s1 = readyQueue s"
    "blockedQueue s1 = blockedQueue s" "pendingReclaims s1 = pendingReclaims s" "currentThread s1 = currentThread s" "idleThread s1 = idleThread s"
    using view_parts [OF v] by (simp_all add: add_proc_def)
  have gl: "set (globalProcessList s) = dom (procs s)" using inv proc_invD(2) by (simp add: sched_inv_def)
  have "\<forall>q \<in> set (globalProcessList s). \<not> p_pid (proc s1 q) = p_pid pc" using pid gl p(1) vp(1) by (metis fun_upd_other)
  from rotate_to_last [OF this, of p "[]"]
  have rot: "rotate_to (\<lambda>q. p_pid (proc s1 q) = p_pid pc) (length (globalProcessList s1)) (globalProcessList s1) = (p, globalProcessList s @ [p])"
    using vp(1,2) by simp
  have rm: "remove1 p (globalProcessList s @ [p]) = globalProcessList s" using p(1) gl by (simp add: remove1_append)
  have up: "((procs s)(p \<mapsto> pc))(p := None) = procs s" using p(1) by (auto simp: domIff)
  show ?thesis
    using rot p(2) pc rm up vp by (simp add: cleanup_process_def KillProcess_def Let_def view_def)
qed

lemma CreateProcess_view:
  assumes c: "CreateProcess newP newT False ep arg False s = Some (p, s')"
  shows "if p = null_ptr then view s' = view s
    else p = newP s \<and> view s' = view (add_proc p (proc s' p) s) \<and> p_threads (proc s' p) = [] \<and> p_pid (proc s' p) = pidCounter s"
  using c by (auto simp: CreateProcess_def Let_def view_def add_proc_def new_pcb_def split: if_splits prod.splits)

lemma add_proc_upd: "view s1 = view (add_proc p pc s) \<Longrightarrow> view (upd_proc p h s1) = view (add_proc p (h pc) s)"
  by (simp add: view_def add_proc_def upd_proc_def)

lemma loadELF_view:
  assumes inv: "sched_inv s" and fr: "fresh_objects newP newT" and pid: "\<forall>q \<in> set (globalProcessList s). p_pid (proc s q) \<noteq> pidCounter s"
    and ld: "loadELF api newP newT newA elf args fs s = Some (p, fs', s')"
  shows "if p = null_ptr then view s' = view s
    else p \<notin> dom (procs s) \<and> view s' = view (add_proc p (proc s' p) s) \<and> p_threads (proc s' p) = []"
proof -
  define early where "early \<longleftrightarrow> p = null_ptr \<and> s' = s"
  { assume ne: "\<not> early"
    then obtain n buf fs1 t fs2 q s1 where c: "CreateProcess newP newT False null_ptr args False s = Some (q, s1)"
      and r: "read_at api elf 0 52 fs = Some (n, buf, fs1)" "DetectELFAppType api newA elf (elf_header_of buf) fs1 = Some (t, fs2)"
      and hd: "n = 52" "h_magic (elf_header_of buf) = ELF_MAGIC" "elf \<noteq> null_ptr"
      using ld by (auto simp: loadELF_def early_def Let_def split: if_splits option.splits)
    note cv0 = CreateProcess_view [OF c]
    have ?thesis
    proof (cases "q = null_ptr")
      case True
      then show ?thesis using cv0 ld c r hd by (auto simp: loadELF_def Let_def)
    next
      case False
      have cv: "q = newP s" "view s1 = view (add_proc q (proc s1 q) s)" "p_threads (proc s1 q) = []" "p_pid (proc s1 q) = pidCounter s"
        using cv0 unfolding if_not_P [OF False] by blast+
      have new: "q \<notin> dom (procs s)" using freshD(2) [OF fr, of s] cv(1) False by simp
      define s2 where "s2 = upd_proc q (\<lambda>pc. pc\<lparr>appType := t, mainEntry := h_entry (elf_header_of buf)\<rparr>) s1"
      define pc where "pc = (proc s1 q)\<lparr>appType := t, mainEntry := h_entry (elf_header_of buf)\<rparr>"
      have v2: "view s2 = view (add_proc q pc s)" unfolding s2_def pc_def by (rule add_proc_upd [OF cv(2)])
      have pc: "p_threads pc = []" "\<forall>x \<in> set (globalProcessList s). p_pid (proc s x) \<noteq> p_pid pc" using cv(3,4) pid by (simp_all add: pc_def)
      have kill: "view (cleanup_process q (s2\<lparr>vm := v\<rparr>)) = view s" "view (cleanup_process q s2) = view s" for v
        by (rule kill_last [OF inv new False _ pc]; use v2 in \<open>simp add: view_outside\<close>)+
      consider (stop) "p = null_ptr" "s' = cleanup_process q s2" | (stop') v where "p = null_ptr" "s' = cleanup_process q (s2\<lparr>vm := v\<rparr>)"
        | (fin) v h where "p = q" "s' = upd_proc q (\<lambda>pc. pc\<lparr>heap := h\<rparr>) (s2\<lparr>vm := v\<rparr>)"
        using ld r hd c False by (auto simp: loadELF_def Let_def s2_def split: if_splits option.splits)
      then show ?thesis
      proof cases
        case stop
        then show ?thesis using kill(2) by simp
      next
        case stop'
        then show ?thesis using kill(1) by simp
      next
        case fin
        have "view s' = view (add_proc q (pc\<lparr>heap := h\<rparr>) s)"
          unfolding fin(2) by (rule add_proc_upd) (use v2 in \<open>simp add: view_outside\<close>)
        moreover from view_parts [OF this] have "proc s' p = pc\<lparr>heap := h\<rparr>" by (simp add: fin(1) add_proc_def)
        ultimately show ?thesis using new pc False fin(1) by auto
      qed
    qed }
  then show ?thesis by (cases early) (auto simp: early_def)
qed

subsection \<open>Properties\<close>

definition image_headers :: "u8 list \<Rightarrow> elf_program_header list" where
  "image_headers content = (let h = elf_header_of (take 52 content); n = unat (ph_entry_count h) in
     map (program_header_at (take (32 * n) (drop (unat (ph_offset h)) content))) [0..<n])"

lemma loadELF_parts:
  assumes laws: "reads_bytes api fid ptr cont" and rd: "open_rd fid cont elf content pos fs"
    and ld: "loadELF api newP newT newA elf args fs s = Some (p, fs', s')" and p: "p \<noteq> null_ptr"
  shows "\<exists>fs1 pos1 s1 t v e. CreateProcess newP newT False null_ptr args False s = Some (p, s1) \<and> open_rd fid cont elf content pos1 fs1 \<and>
    load_segments api elf (page_directory (proc s1 p)) (image_headers content) 0 fs1 (vm s1) = Some (Some e, fs', v) \<and>
    s' = upd_proc p (\<lambda>pc. pc\<lparr>heap := (page_down (e + PAGE_SIZE - 1), page_down (e + PAGE_SIZE - 1), heap_max (page_down (e + PAGE_SIZE - 1)))\<rparr>)
      ((upd_proc p (\<lambda>pc. pc\<lparr>appType := t, mainEntry := h_entry (elf_header_of (take 52 content))\<rparr>) s1)\<lparr>vm := v\<rparr>)"
proof -
  let ?h = "elf_header_of (take 52 content)"
  have u52: "unat (52 :: u32) = 52" by simp
  obtain fs1 pos1 buf where r1: "read_at api elf 0 52 fs = Some (of_nat (length (take 52 content)), buf, fs1)" "open_rd fid cont elf content pos1 fs1"
    and b1: "length (take 52 content) = 52 \<longrightarrow> buf = take 52 content"
    using read_at_rd [OF laws rd, of 0 52] unfolding u52 by auto
  have w: "(of_nat (length (take 52 content)) :: u32) = 52 \<longleftrightarrow> length (take 52 content) = 52"
    by (auto simp: word_unat_eq_iff)
  have head: "buf = take 52 content" "(of_nat (length (take 52 content)) :: u32) = 52" using ld p r1(1) b1 w
    by (auto simp: loadELF_def Let_def split: if_splits)
  obtain t fs2 pos2 where dt: "DetectELFAppType api newA elf ?h fs1 = Some (t, fs2)" "open_rd fid cont elf content pos2 fs2"
    using DetectELFAppType_rd [OF laws r1(2)] by blast
  let ?n = "32 * ucast (ph_entry_count ?h) :: u32"
  have "unat (ph_entry_count ?h) < 65536" using unsigned_less [of "ph_entry_count ?h", where 'a = nat] by simp
  then have n: "unat ?n = 32 * unat (ph_entry_count ?h)"
    using unat_mult_small [of 32 "ucast (ph_entry_count ?h)"] by (simp add: unsigned_ucast_eq take_bit_nat_eq_self)
  let ?tab = "take (32 * unat (ph_entry_count ?h)) (drop (unat (ph_offset ?h)) content)"
  obtain fs3 pos3 tab where r3: "read_at api elf (ph_offset ?h) ?n fs2 = Some (of_nat (length ?tab), tab, fs3)" "open_rd fid cont elf content pos3 fs3"
    and b3: "length ?tab = unat ?n \<longrightarrow> tab = ?tab"
    using read_at_rd [OF laws dt(2), of "ph_offset ?h" ?n] unfolding n by auto
  have "length ?tab < 2 ^ 32" using elf_size_rd [OF rd] unat_u32_bound [of "elf_size elf fs"] by simp
  then have w3: "(of_nat (length ?tab) :: u32) = ?n \<longleftrightarrow> length ?tab = unat ?n" by (auto simp: word_unat_eq_iff)
  obtain s1 where c: "CreateProcess newP newT False null_ptr args False s = Some (p, s1)"
    and full: "(of_nat (length ?tab) :: u32) = ?n"
    using ld p r1(1) head dt(1) r3(1) by (auto simp: loadELF_def Let_def split: if_splits option.splits)
  have tab: "tab = ?tab" using b3 w3 full by simp
  define s2 where "s2 = upd_proc p (\<lambda>pc. pc\<lparr>appType := t, mainEntry := h_entry ?h\<rparr>) s1"
  have s2: "page_directory (proc s2 p) = page_directory (proc s1 p)" "vm s2 = vm s1" by (simp_all add: s2_def upd_proc_def)
  obtain v e where "load_segments api elf (page_directory (proc s2 p)) (map (program_header_at ?tab) [0..<unat (ph_entry_count ?h)]) 0 fs3 (vm s2) = Some (Some e, fs', v)"
    "s' = upd_proc p (\<lambda>pc. pc\<lparr>heap := (page_down (e + PAGE_SIZE - 1), page_down (e + PAGE_SIZE - 1), heap_max (page_down (e + PAGE_SIZE - 1)))\<rparr>) (s2\<lparr>vm := v\<rparr>)"
    using ld p r1(1) head dt(1) r3(1) c full unfolding tab
    by (auto simp: loadELF_def Let_def s2_def [symmetric] split: if_splits option.splits)
  then show ?thesis using c r3(2) unfolding s2 by (auto simp: image_headers_def Let_def s2_def)
qed

subsection \<open>Enough memory is enough\<close>

context low_frame_supply
begin

lemma map_page_total:
  assumes "ok (vm_frames s)" "0 < avail (vm_frames s)" "\<not> 0 < sint (vm_depth s)" "\<not> kernel_range (pd_index v)"
  shows "\<exists>s'. map_page_with alloc s d v phys fl = (True, s') \<and> avail (vm_frames s) \<le> Suc (avail (vm_frames s')) \<and> vm_depth s' = vm_depth s"
proof (cases "alloc (vm_frames s)")
  case (Pair a f)
  then show ?thesis using alloc_avail [OF assms(1) Pair assms(2)] assms(3,4) by (auto simp: map_page_with_def ensure_table_def Let_def)
qed

end

lemma map_segment_total:
  assumes "image_inv K m0 D d g v" "page_aligned ps" "\<forall>k \<in> set ks. unat ps + k * 4096 < 2 ^ 32"
    and "2 * length ks \<le> low_avail (vm_frames v)" "\<not> 0 < sint (vm_depth v)" "\<forall>k \<in> set ks. \<not> kernel_range (of_nat ((unat ps div 4096 + k) div 1024))"
  shows "\<exists>v'. map_segment_pages d ps ks v = (True, v') \<and> low_avail (vm_frames v) \<le> 2 * length ks + low_avail (vm_frames v') \<and> vm_depth v' = vm_depth v"
  using assms
proof (induction ks arbitrary: g v)
  case (Cons k ks)
  let ?va = "ps + of_nat k * PAGE_SIZE"
  obtain phys f where al: "pmm_alloc_block_low (vm_frames v) LOW_LIMIT = (phys, f)" by fastforce
  have av: "0 < low_avail (vm_frames v)" using Cons.prems(4) by simp
  note I = image_invD [OF Cons.prems(1)]
  have ph: "phys \<noteq> 0" "low_avail (vm_frames v) = Suc (low_avail f)" using pmm_low.alloc_avail [OF I(2) al av] by simp_all
  have k: "unat ps + k * 4096 < 2 ^ 32" using Cons.prems(3) by simp
  then have "unat (of_nat k * PAGE_SIZE) = k * 4096" using unat_mult_small [of "of_nat k" PAGE_SIZE] by simp
  then have va: "unat ?va = unat ps + k * 4096" using k by (simp add: unat_add_small)
  have "pd_index ?va = of_nat ((unat ps div 4096 + k) div 1024)"
    by (rule word_unat_eq_iff [THEN iffD2]) (use pd_index_unat [of ?va] pd_index_bound [of ?va] va in \<open>simp add: div_mult2_eq [of _ 4096 1024, simplified]\<close>)
  then have nk: "\<not> kernel_range (pd_index ?va)" using Cons.prems(6) by simp
  have "pmm_inv (vm_frames (v\<lparr>vm_frames := f\<rparr>))" using pmm_low.alloc_ok [OF I(2) al] by simp
  moreover have "0 < low_avail (vm_frames (v\<lparr>vm_frames := f\<rparr>))" "\<not> 0 < sint (vm_depth (v\<lparr>vm_frames := f\<rparr>))" using Cons.prems(4,5) ph(2) by simp_all
  ultimately obtain v1 where m: "MapPage (v\<lparr>vm_frames := f\<rparr>) d ?va phys (PAGE_PRESENT OR PAGE_RW OR PAGE_USER) = (True, v1)"
    "low_avail f \<le> Suc (low_avail (vm_frames v1))" "vm_depth v1 = vm_depth v"
    using pmm_low.map_page_total [OF _ _ _ nk, of "v\<lparr>vm_frames := f\<rparr>" d phys "PAGE_PRESENT OR PAGE_RW OR PAGE_USER"] unfolding MapPage_def [symmetric] by auto
  from Cons.IH [OF map_image_page(1) [OF Cons.prems(1) al ph(1) m(1)] Cons.prems(2)] Cons.prems(3-6) m ph(2)
  obtain v' where "map_segment_pages d ps ks v1 = (True, v')" "low_avail (vm_frames v1) \<le> 2 * length ks + low_avail (vm_frames v')" "vm_depth v' = vm_depth v"
    by auto
  then show ?case using al ph m by (simp add: Let_def)
qed simp

definition user_pages :: "elf_program_header \<Rightarrow> bool" where
  "user_pages ph \<longleftrightarrow> (\<forall>q \<in> pages_of ph. \<not> kernel_range (of_nat (q div 1024)))"

lemma load_segment_total:
  assumes laws: "reads_bytes api fid ptr cont" and inv: "image_inv K m0 D d g v" and rd: "open_rd fid cont p content pos fs"
    and fit: "fits ph" "user_pages ph" "file_size ph \<le> mem_size ph" "unat (p_offset ph) + unat (file_size ph) \<le> length content"
    and mem: "2 * card (pages_of ph) \<le> low_avail (vm_frames v)" "\<not> 0 < sint (vm_depth v)"
  shows "\<exists>fs' v'. load_segment api p d ph fs v = Some (True, fs', v') \<and>
    low_avail (vm_frames v) \<le> 2 * card (pages_of ph) + low_avail (vm_frames v') \<and> vm_depth v' = vm_depth v"
proof -
  note G = segment_geometry [OF fit(1)]
  let ?ps = "page_down (virt_addr ph)"
  let ?ks = "[0..<(unat (page_down (virt_addr ph + mem_size ph + PAGE_SIZE - 1)) - unat ?ps) div 4096]"
  have "\<forall>k \<in> set ?ks. \<not> kernel_range (of_nat ((unat ?ps div 4096 + k) div 1024))"
  proof
    fix k assume "k \<in> set ?ks"
    then have "unat ?ps div 4096 + k \<in> pages_of ph" unfolding G(1) [symmetric] segment_pages_def by blast
    then show "\<not> kernel_range (of_nat ((unat ?ps div 4096 + k) div 1024))" using fit(2) unfolding user_pages_def by blast
  qed
  from map_segment_total [OF inv page_down_unat(2) G(2) _ mem(2) this] mem(1)
  obtain v1 where m: "map_segment_pages d ?ps ?ks v = (True, v1)" "low_avail (vm_frames v) \<le> 2 * card (pages_of ph) + low_avail (vm_frames v1)"
    "vm_depth v1 = vm_depth v" unfolding G(3) by blast
  obtain g1 where g1: "image_inv K m0 D d g1 v1" "dom g1 = dom g \<union> pages_of ph"
    using map_segment_image [OF inv m(1) page_down_unat(2) G(2)] unfolding G(1) by blast
  have "pages_of ph \<subseteq> dom g1" using g1(2) by blast
  from fill_segment [OF laws g1(1) rd fit(1) this fit(3,4)]
  obtain fs' m1 m' where c: "copy_segment api p d (file_size ph) (virt_addr ph) (Seek p (p_offset ph) fs) (vm_mem v1) = Some (Some (virt_addr ph + file_size ph), fs', m1)"
    "zero_segment d (mem_size ph - file_size ph) (virt_addr ph + file_size ph) m1 = (True, m')" by blast
  have "\<not> mem_size ph < file_size ph" "\<not> (ucast (elf_size p fs) :: u64) < ucast (p_offset ph) + ucast (file_size ph)"
    using fit(3,4) elf_size_rd [OF rd] by (simp_all add: word_less_nat_alt word_le_nat_alt unat_ucast64 offset_sum)
  then have "load_segment api p d ph fs v = Some (True, fs', v1\<lparr>vm_mem := m'\<rparr>)"
    unfolding load_segment_def Let_def m(1) using c by simp
  then show ?thesis using m(2,3) by auto
qed

definition loadable :: "u8 list \<Rightarrow> elf_program_header \<Rightarrow> bool" where
  "loadable content ph \<longleftrightarrow> fits ph \<and> user_pages ph \<and> file_size ph \<le> mem_size ph \<and> unat (p_offset ph) + unat (file_size ph) \<le> length content"

definition frames_needed :: "elf_program_header list \<Rightarrow> nat" where
  "frames_needed phs = sum_list (map (\<lambda>ph. 2 * card (pages_of ph)) (pt_loads phs))"

lemma load_segments_total:
  assumes laws: "reads_bytes api fid ptr cont"
    and "image_inv K m0 D d g v" "open_rd fid cont p content pos fs" "\<forall>ph \<in> set (pt_loads phs). loadable content ph"
    and "frames_needed phs \<le> low_avail (vm_frames v)" "\<not> 0 < sint (vm_depth v)"
  shows "\<exists>e fs' v'. load_segments api p d phs e0 fs v = Some (Some e, fs', v')"
  using assms(2-)
proof (induction phs arbitrary: g v fs pos e0)
  case (Cons ph phs)
  show ?case
  proof (cases "p_type ph = 1")
    case False
    then show ?thesis using Cons by (simp add: pt_loads_def frames_needed_def)
  next
    case True
    then have pl: "loadable content ph" "\<forall>ph \<in> set (pt_loads phs). loadable content ph"
      "frames_needed (ph # phs) = 2 * card (pages_of ph) + frames_needed phs" using Cons.prems(3) by (simp_all add: pt_loads_def frames_needed_def)
    then have f: "fits ph" "user_pages ph" "file_size ph \<le> mem_size ph" "unat (p_offset ph) + unat (file_size ph) \<le> length content" "2 * card (pages_of ph) \<le> low_avail (vm_frames v)"
      using Cons.prems(4) by (simp_all add: loadable_def)
    obtain fs1 v1 where l: "load_segment api p d ph fs v = Some (True, fs1, v1)" "low_avail (vm_frames v) \<le> 2 * card (pages_of ph) + low_avail (vm_frames v1)"
      "vm_depth v1 = vm_depth v" using load_segment_total [OF laws Cons.prems(1,2) f Cons.prems(5)] by blast
    obtain g1 pos1 where i: "image_inv K m0 D d g1 v1" "open_rd fid cont p content pos1 fs1"
      using load_segment_image [OF laws Cons.prems(1,2) f(1) l(1)] by blast
    show ?thesis using Cons.IH [OF i pl(2)] Cons.prems(4,5) pl(3) l True by (simp add: Let_def)
  qed
qed simp

lemma CreateProcess_total:
  assumes inv: "pmm_inv (vm_frames (vm s))" and low: "2 \<le> low_avail (vm_frames (vm s))" and dp: "\<not> 0 < sint (vm_depth (vm s))" and p: "newP s \<noteq> null_ptr"
  shows "\<exists>s'. CreateProcess newP newT False ep arg False s = Some (newP s, s') \<and>
    low_avail (vm_frames (vm s)) \<le> 2 + low_avail (vm_frames (vm s')) \<and> vm_depth (vm s') = vm_depth (vm s)"
proof -
  obtain a f where al: "pmm_alloc_block_low (vm_frames (vm s)) LOW_LIMIT = (a, f)" by fastforce
  have a: "a \<noteq> 0" "low_avail (vm_frames (vm s)) = Suc (low_avail f)" using pmm_low.alloc_avail [OF inv al] low by simp_all
  obtain v1 where d: "CreateProcessDirectory (vm s) = (a, v1)" and v1: "vm_frames v1 = f" "vm_depth v1 = vm_depth (vm s)"
    using al a(1) by (simp add: CreateProcessDirectory_def create_directory_with_def)
  have f: "pmm_inv (vm_frames v1)" "0 < low_avail (vm_frames v1)" "\<not> 0 < sint (vm_depth v1)"
    using pmm_low.alloc_ok [OF inv al] a(2) low dp v1 by simp_all
  have "\<not> kernel_range (pd_index USER_EXIT_TRAMPOLINE_VIRT)" by code_simp
  from pmm_low.map_page_total [OF f this, of a "trampolinePhys s" "PAGE_PRESENT OR PAGE_USER"]
  obtain v2 where m: "MapPage v1 a USER_EXIT_TRAMPOLINE_VIRT (trampolinePhys s) (PAGE_PRESENT OR PAGE_USER) = (True, v2)"
    "low_avail f \<le> Suc (low_avail (vm_frames v2))" "vm_depth v2 = vm_depth (vm s)" unfolding MapPage_def [symmetric] v1 by blast
  then show ?thesis using p d a(2) by (auto simp: CreateProcess_def Let_def)
qed

definition elf_loadable :: "u8 list \<Rightarrow> bool" where
  "elf_loadable content \<longleftrightarrow> (let h = elf_header_of (take 52 content) in 52 \<le> length content \<and> h_magic h = ELF_MAGIC \<and>
     ph_entry_count h \<noteq> 0 \<and> unat (ph_offset h) + 32 * unat (ph_entry_count h) \<le> length content \<and>
     (\<forall>ph \<in> set (pt_loads (image_headers content)). loadable content ph))"

lemma loadELF_total:
  assumes laws: "reads_bytes api fid ptr cont" and rd: "open_rd fid cont elf content pos fs" and ok: "elf_loadable content"
    and inv: "pmm_inv (vm_frames (vm s))" "vm_inv D (used_frames (vm_frames (vm s))) (vm_mem (vm s))" "vm_kernel_dir (vm s) \<in> D"
    and low: "2 + frames_needed (image_headers content) \<le> low_avail (vm_frames (vm s))" "\<not> 0 < sint (vm_depth (vm s))"
    and new: "newP s \<noteq> null_ptr" "\<And>n. newA n"
  shows "\<exists>fs' s'. loadELF api newP newT newA elf args fs s = Some (newP s, fs', s')"
proof -
  let ?h = "elf_header_of (take 52 content)"
  have h: "52 \<le> length content" "h_magic ?h = ELF_MAGIC" "ph_entry_count ?h \<noteq> 0" "unat (ph_offset ?h) + 32 * unat (ph_entry_count ?h) \<le> length content"
    "\<forall>ph \<in> set (pt_loads (image_headers content)). loadable content ph" using ok by (simp_all add: elf_loadable_def Let_def)
  have u52: "unat (52 :: u32) = 52" by simp
  obtain fs1 pos1 where r1: "read_at api elf 0 52 fs = Some (52, take 52 content, fs1)" "open_rd fid cont elf content pos1 fs1"
    using read_at_rd [OF laws rd, of 0 52] h(1) unfolding u52 by auto
  obtain t fs2 pos2 where dt: "DetectELFAppType api newA elf ?h fs1 = Some (t, fs2)" "open_rd fid cont elf content pos2 fs2"
    using DetectELFAppType_rd [OF laws r1(2)] by blast
  let ?n = "32 * ucast (ph_entry_count ?h) :: u32"
  have c16: "unat (ph_entry_count ?h) < 65536" using unsigned_less [of "ph_entry_count ?h", where 'a = nat] by simp
  then have n: "unat ?n = 32 * unat (ph_entry_count ?h)"
    using unat_mult_small [of 32 "ucast (ph_entry_count ?h)"] by (simp add: unsigned_ucast_eq take_bit_nat_eq_self)
  let ?tab = "take (32 * unat (ph_entry_count ?h)) (drop (unat (ph_offset ?h)) content)"
  have "length ?tab = unat ?n" using h(4) n by simp
  moreover from this have "(of_nat (length ?tab) :: u32) = ?n" by (simp only: of_nat_unat ucast_id)
  ultimately obtain fs3 pos3 where r3: "read_at api elf (ph_offset ?h) ?n fs2 = Some (?n, ?tab, fs3)" "open_rd fid cont elf content pos3 fs3"
    using read_at_rd [OF laws dt(2), of "ph_offset ?h" ?n] unfolding n by auto
  obtain s1 where c: "CreateProcess newP newT False null_ptr args False s = Some (newP s, s1)"
    "low_avail (vm_frames (vm s)) \<le> 2 + low_avail (vm_frames (vm s1))" "vm_depth (vm s1) = vm_depth (vm s)"
    using CreateProcess_total [of s newP newT null_ptr args, OF inv(1) _ low(2) new(1)] low(1) by auto
  have "0 < low_avail (vm_frames (vm s))" using low(1) by simp
  note I = CreateProcess_space(1) [OF inv this c(1) new(1)]
  define s2 where "s2 = upd_proc (newP s) (\<lambda>pc. pc\<lparr>appType := t, mainEntry := h_entry ?h\<rparr>) s1"
  have s2: "page_directory (proc s2 (newP s)) = page_directory (proc s1 (newP s))" "vm s2 = vm s1" by (simp_all add: s2_def upd_proc_def)
  have "frames_needed (image_headers content) \<le> low_avail (vm_frames (vm s1))" using c(2) low(1) by simp
  from load_segments_total [OF laws I r3(2) h(5) this] low(2)
  obtain e fs4 v where "load_segments api elf (page_directory (proc s1 (newP s))) (map (program_header_at ?tab) [0..<unat (ph_entry_count ?h)]) 0 fs3 (vm s1) = Some (Some e, fs4, v)"
    unfolding image_headers_def Let_def c(3) by blast
  moreover have "elf \<noteq> null_ptr" using rd by (simp add: open_rd_def)
  ultimately show ?thesis using r1(1) h(2,3) c16 dt(1) c(1) new r3(1)
    by (simp add: loadELF_def Let_def s2_def [symmetric] s2)
qed

text \<open>
  Property C7. Loading a program gives the process the image its file describes. When the file can be loaded (header and
  program headers inside the file, every segment inside the file, in user space and not wrapping) and low memory has
  two frames per page and two more, \<^verbatim>\<open>loadELF\<close> returns the new process. Whenever it returns a process, and no two
  segments share a page, then in the new address space every byte of every \<^verbatim>\<open>PT_LOAD\<close> segment is the byte of
  the file, or zero behind the file's part; the heap starts behind every segment; the entry point is the header's;
  no word of a frame that was in use before has changed, so every other address space translates as before.
\<close>

theorem loadELF_image:
  assumes laws: "reads_bytes api fid ptr cont" and rd: "open_rd fid cont elf content pos fs"
    and inv: "pmm_inv (vm_frames (vm s))" "vm_inv D (used_frames (vm_frames (vm s))) (vm_mem (vm s))" "vm_kernel_dir (vm s) \<in> D"
    and low: "0 < low_avail (vm_frames (vm s))" "\<not> 0 < sint (vm_depth (vm s))" and new: "newP s \<noteq> null_ptr"
  shows "(elf_loadable content \<and> 2 + frames_needed (image_headers content) \<le> low_avail (vm_frames (vm s)) \<and> (\<forall>n. newA n) \<longrightarrow>
      (\<exists>fs' s'. loadELF api newP newT newA elf args fs s = Some (newP s, fs', s')))
    \<and> (\<forall>p fs' s'. loadELF api newP newT newA elf args fs s = Some (p, fs', s') \<and> p \<noteq> null_ptr \<and>
        (\<forall>ph \<in> set (pt_loads (image_headers content)). fits ph) \<and> pages_disjoint (image_headers content) \<longrightarrow>
      (let pc = proc s' p; d = page_directory pc; m = vm_mem (vm s') in
        d \<notin> D \<and> mainEntry pc = h_entry (elf_header_of (take 52 content)) \<and>
        (\<forall>ph \<in> set (pt_loads (image_headers content)). loaded content m d ph \<and>
           unat (virt_addr ph) + unat (mem_size ph) \<le> unat (fst (heap pc))) \<and>
        pmm_inv (vm_frames (vm s')) \<and> vm_inv (insert d D) (used_frames (vm_frames (vm s'))) m \<and>
        (\<forall>x. unat x div 4096 \<in> used_frames (vm_frames (vm s)) \<longrightarrow> m x = vm_mem (vm s) x) \<and>
        (\<forall>d' \<in> D. \<forall>w. GetPhysicalAddress m d' w = GetPhysicalAddress (vm_mem (vm s)) d' w)))"
proof (intro conjI allI impI)
  assume a: "elf_loadable content \<and> 2 + frames_needed (image_headers content) \<le> low_avail (vm_frames (vm s)) \<and> (\<forall>n. newA n)"
  show "\<exists>fs' s'. loadELF api newP newT newA elf args fs s = Some (newP s, fs', s')"
    by (rule loadELF_total [where newP = newP and s = s, OF laws rd _ inv _ low(2) new]) (use a in auto)
next
  fix p fs' s'
  assume a: "loadELF api newP newT newA elf args fs s = Some (p, fs', s') \<and> p \<noteq> null_ptr \<and>
        (\<forall>ph \<in> set (pt_loads (image_headers content)). fits ph) \<and> pages_disjoint (image_headers content)"
  then have ld: "loadELF api newP newT newA elf args fs s = Some (p, fs', s')" "p \<noteq> null_ptr" by simp_all
  obtain fs1 pos1 s1 t v e where c: "CreateProcess newP newT False null_ptr args False s = Some (p, s1)" and rd1: "open_rd fid cont elf content pos1 fs1"
    and l: "load_segments api elf (page_directory (proc s1 p)) (image_headers content) 0 fs1 (vm s1) = Some (Some e, fs', v)"
    and s': "s' = upd_proc p (\<lambda>pc. pc\<lparr>heap := (page_down (e + PAGE_SIZE - 1), page_down (e + PAGE_SIZE - 1), heap_max (page_down (e + PAGE_SIZE - 1)))\<rparr>)
      ((upd_proc p (\<lambda>pc. pc\<lparr>appType := t, mainEntry := h_entry (elf_header_of (take 52 content))\<rparr>) s1)\<lparr>vm := v\<rparr>)"
    using loadELF_parts [OF laws rd ld] by blast
  let ?d = "page_directory (proc s1 p)" and ?K = "used_frames (vm_frames (vm s))"
  note S = CreateProcess_space [OF inv low(1) c ld(2)]
  obtain g pos2 where I: "image_inv ?K (vm_mem (vm s)) (insert ?d D) ?d g v" and im: "\<forall>ph \<in> set (pt_loads (image_headers content)). loaded content (vm_mem v) ?d ph"
    using load_segments_image [OF laws S(1) rd1 _ _ l] a by blast
  note D = image_invD [OF I]
  have e: "\<forall>ph \<in> set (pt_loads (image_headers content)). unat (virt_addr ph) + unat (mem_size ph) \<le> unat (page_down (e + PAGE_SIZE - 1))"
    using load_segments_end [OF _ l] page_up [of e] a by fastforce
  have old: "\<forall>x. unat x div 4096 \<in> ?K \<longrightarrow> vm_mem v x = vm_mem (vm s) x" using D(9) by (simp add: apart_def)
  have vi: "vm_inv (insert ?d D) (used_frames (vm_frames v)) (vm_mem v)" by (rule vm_inv_cong [OF D(4)]) auto
  have fields: "page_directory (proc s' p) = ?d" "mainEntry (proc s' p) = h_entry (elf_header_of (take 52 content))"
    "fst (heap (proc s' p)) = page_down (e + PAGE_SIZE - 1)" "vm s' = v" by (simp_all add: s' upd_proc_def)
  show "let pc = proc s' p; d = page_directory pc; m = vm_mem (vm s') in
        d \<notin> D \<and> mainEntry pc = h_entry (elf_header_of (take 52 content)) \<and>
        (\<forall>ph \<in> set (pt_loads (image_headers content)). loaded content m d ph \<and>
           unat (virt_addr ph) + unat (mem_size ph) \<le> unat (fst (heap pc))) \<and>
        pmm_inv (vm_frames (vm s')) \<and> vm_inv (insert d D) (used_frames (vm_frames (vm s'))) m \<and>
        (\<forall>x. unat x div 4096 \<in> used_frames (vm_frames (vm s)) \<longrightarrow> m x = vm_mem (vm s) x) \<and>
        (\<forall>d' \<in> D. \<forall>w. GetPhysicalAddress m d' w = GetPhysicalAddress (vm_mem (vm s)) d' w)"
    unfolding Let_def fields using S(2) im e D(2) vi old translation_cong(2) [OF inv(2) old] by blast
qed

text \<open>
  Property C29. A load that fails leaves no trace in the scheduler: \<^verbatim>\<open>loadELF\<close> keeps the scheduler's invariant, and when it
  returns null, at whatever step it gave up, the threads, the processes, the process list in its order, the queues and
  the running thread are those from before. When it returns a process, exactly that process has been added, listed
  last and without a thread, so nothing of it can run before \<^verbatim>\<open>StartProcess\<close>.
\<close>

theorem loadELF_all_or_nothing:
  assumes "sched_inv s" and "fresh_objects newP newT" and "\<forall>q \<in> set (globalProcessList s). p_pid (proc s q) \<noteq> pidCounter s"
    and "loadELF api newP newT newA elf args fs s = Some (p, fs', s')"
  shows "sched_inv s' \<and> (if p = null_ptr then view s' = view s
    else p \<notin> dom (procs s) \<and> view s' = view (add_proc p (proc s' p) s) \<and> p_threads (proc s' p) = [])"
proof -
  note V = loadELF_view [OF assms]
  have "sched_inv s'"
  proof (cases "p = null_ptr")
    case True
    then have "view s' = view s" using V by simp
    then show ?thesis using view_sched_inv [of s' s] assms(1) by simp
  next
    case False
    then have "p \<notin> dom (procs s)" "view s' = view (add_proc p (proc s' p) s)" "p_threads (proc s' p) = []" using V unfolding if_not_P [OF False] by blast+
    then show ?thesis using add_proc_inv [OF assms(1) _ False, of "proc s' p"] view_sched_inv [of s' "add_proc p (proc s' p) s"] by simp
  qed
  then show ?thesis using V by blast
qed

text \<open>
  What the checks of the loader miss. A segment whose end wraps around has no pages to map, so its bytes are written
  wherever the directory already translates its addresses, the kernel's own pages included. A segment below
  256 MB or above 3 GB is refused only after a frame has been taken for its first page, and that frame stays used.
\<close>

lemma wrapping_segment_maps_nothing:
  assumes "page_down (virt_addr ph + mem_size ph + PAGE_SIZE - 1) \<le> page_down (virt_addr ph)"
    and "file_size ph \<le> mem_size ph" "\<not> (ucast (elf_size p fs) :: u64) < ucast (p_offset ph) + ucast (file_size ph)"
  shows "load_segment api p d ph fs v =
    (case copy_segment api p d (file_size ph) (virt_addr ph) (Seek p (p_offset ph) fs) (vm_mem v) of
       None \<Rightarrow> None
     | Some (None, fs, m) \<Rightarrow> Some (False, fs, v\<lparr>vm_mem := m\<rparr>)
     | Some (Some va, fs, m) \<Rightarrow> (case zero_segment d (mem_size ph - file_size ph) va m of (b, m) \<Rightarrow> Some (b, fs, v\<lparr>vm_mem := m\<rparr>)))"
proof -
  have "(unat (page_down (virt_addr ph + mem_size ph + PAGE_SIZE - 1)) - unat (page_down (virt_addr ph))) div 4096 = 0"
    using assms(1) by (simp only: word_le_nat_alt diff_is_0_eq [THEN iffD2] div_0)
  moreover have "\<not> mem_size ph < file_size ph" using assms(2) by simp
  ultimately show ?thesis using assms(3) unfolding load_segment_def Let_def by simp
qed

lemma kernel_segment_keeps_frame:
  assumes "pmm_alloc_block_low (vm_frames v) LOW_LIMIT = (phys, f)" "phys \<noteq> null_ptr" "kernel_range (pd_index (ps + of_nat k * PAGE_SIZE))"
  shows "map_segment_pages d ps (k # ks) v = (False, v\<lparr>vm_frames := f\<rparr>)"
  using assms by (simp add: Let_def MapPage_def map_page_with_def)

subsection \<open>A small program\<close>

text \<open>One segment of three bytes in the file and five in memory, at 0x50000010; the file behind \<open>ram_api\<close>.\<close>

definition sample_elf :: "u8 list" where
  "sample_elf = [0x7F, 0x45, 0x4C, 0x46] @ replicate 12 0 @ [2, 0, 3, 0, 1, 0, 0, 0, 0x10, 0, 0, 0x50, 52, 0, 0, 0, 0, 0, 0, 0] @
     replicate 8 0 @ [1, 0, 0, 0, 0, 0, 0, 0] @
     [1, 0, 0, 0, 84, 0, 0, 0, 0x10, 0, 0, 0x50, 0, 0, 0, 0, 3, 0, 0, 0, 5, 0, 0, 0] @ replicate 8 0 @ [7, 8, 9]"

definition sample_elf_fs :: "(nat \<times> u8 list, nat, unit) fsys" where
  "sample_elf_fs = \<lparr>w_drive = 0, slots = [empty_slot\<lparr>s_file := 0x1000, used := True, u := FIL 0\<rparr>], vol = (1, sample_elf),
     objs = [0x1000 \<mapsto> new_File\<lparr>fsize := 87, filesystem := True\<rparr>]\<rparr>"

definition sample_ph :: elf_program_header where
  "sample_ph = \<lparr>p_type = 1, p_offset = 84, virt_addr = 0x50000010, phys_addr = 0, file_size = 3, mem_size = 5, p_flags = 0, p_align = 0\<rparr>"

definition elf_pmm :: pmm_info where
  "elf_pmm = pmm_init_region (pmm_init [0] 0x100000 0x10000) 0x1000 0x7000"

definition elf_sched :: sched where
  "elf_sched = sample_two\<lparr>vm := \<lparr>vm_mem = (\<lambda>_. 0), vm_frames = elf_pmm, vm_depth = 0, vm_cr3 = 0x9000, vm_kernel_dir = 0x9000, vm_active = True\<rparr>\<rparr>"

lemma sample_headers: "image_headers sample_elf = [sample_ph]"
  unfolding image_headers_def by code_simp

lemma sample_pages: "pages_of sample_ph = {0x50000}" "fits sample_ph" "pt_loads [sample_ph] = [sample_ph]"
  by (auto simp: pages_of_def fits_def sample_ph_def pt_loads_def)

lemma sample_loadable: "elf_loadable sample_elf" "frames_needed (image_headers sample_elf) = 2" "pages_disjoint (image_headers sample_elf)"
proof -
  have l: "length sample_elf = 87" by (simp add: sample_elf_def)
  have hd: "elf_header_of (take 52 sample_elf) = \<lparr>h_magic = ELF_MAGIC, h_ident = replicate 12 0, h_type = 2, h_machine = 3, h_version = 1,
     h_entry = 0x50000010, ph_offset = 52, sh_offset = 0, h_flags = 0, header_size = 0, ph_entry_size = 0, ph_entry_count = 1, sh_size = 0,
     sh_entry_count = 0, sh_str_index = 0\<rparr>" by code_simp
  have "\<not> kernel_range 320" by (simp add: kernel_range_def)
  then have "loadable sample_elf sample_ph" using sample_pages(1,2) l by (simp add: loadable_def user_pages_def) (simp add: sample_ph_def)
  then show "elf_loadable sample_elf" using l hd by (simp add: elf_loadable_def Let_def sample_headers sample_pages(3))
  show "frames_needed (image_headers sample_elf) = 2" by (simp add: frames_needed_def sample_headers sample_pages)
  show "pages_disjoint (image_headers sample_elf)" by (simp add: pages_disjoint_def sample_headers sample_pages)
qed

lemma elf_pmm_facts: "pmm_inv elf_pmm" "used_frames elf_pmm = {..<16} - {1..<8}" "unat (max_blocks elf_pmm) = 16" "low_avail elf_pmm = 7"
proof -
  have p: "pmm_inv (pmm_init [0] 0x100000 0x10000)" by (intro pmm_init_spec) simp
  show "pmm_inv elf_pmm" unfolding elf_pmm_def by (rule init_region_spec(1) [OF p])
  show u: "used_frames elf_pmm = {..<16} - {1..<8}"
    using init_region_spec(2) [OF p, of "0x1000" "0x7000"] by (simp add: elf_pmm_def pmm_init_spec)
  show m: "unat (max_blocks elf_pmm) = 16" by code_simp
  have "{..<16} - ({..<16} - {1..<8}) = {1..<8 :: nat}" by auto
  then show "low_avail elf_pmm = 7" by (simp add: low_avail_def u m)
qed

lemma elf_sched_space:
  "pmm_inv (vm_frames (vm elf_sched))" "vm_inv {0x9000} (used_frames (vm_frames (vm elf_sched))) (vm_mem (vm elf_sched))"
  "vm_kernel_dir (vm elf_sched) \<in> {0x9000}" "low_avail (vm_frames (vm elf_sched)) = 7" "\<not> 0 < sint (vm_depth (vm elf_sched))"
proof -
  have "page_aligned 0x9000" by code_simp
  then show "vm_inv {0x9000} (used_frames (vm_frames (vm elf_sched))) (vm_mem (vm elf_sched))"
    by (simp add: vm_inv_def elf_sched_def elf_pmm_facts live_pde_def)
qed (simp_all add: elf_sched_def elf_pmm_facts)

lemma sample_rd: "open_rd (\<lambda>_. Some ()) (\<lambda>v _. snd v) 0x1000 sample_elf 0 sample_elf_fs"
proof -
  have "length sample_elf = 87" by (simp add: sample_elf_def)
  then show ?thesis by (simp add: open_rd_def sample_elf_fs_def new_File_def empty_slot_def IsReadable_def)
qed

lemma sample_new: "sample_newP elf_sched = 0x201000" unfolding elf_sched_def by code_simp

lemma sample_load: "\<exists>fs' s'. loadELF ram_api sample_newP sample_newT (\<lambda>_. True) 0x1000 0 sample_elf_fs elf_sched = Some (0x201000, fs', s')"
  using loadELF_total [OF ram_api_reads sample_rd sample_loadable(1) elf_sched_space(1-3) _ elf_sched_space(5), where newP = sample_newP and newA = "\<lambda>_. True"]
  by (simp add: sample_new sample_loadable(2) elf_sched_space(4))

theorem loadELF_image_witness:
  "\<exists>fs' s'. loadELF ram_api sample_newP sample_newT (\<lambda>_. True) 0x1000 0 sample_elf_fs elf_sched = Some (0x201000, fs', s') \<and>
     user_byte (vm_mem (vm s')) (page_directory (proc s' 0x201000)) 0x50000011 = 8 \<and>
     user_byte (vm_mem (vm s')) (page_directory (proc s' 0x201000)) 0x50000014 = 0"
proof -
  have nz: "sample_newP elf_sched \<noteq> null_ptr" "0 < low_avail (vm_frames (vm elf_sched))" by (simp_all add: sample_new elf_sched_space(4))
  note L = loadELF_image [where newP = sample_newP and s = elf_sched and newA = "\<lambda>_. True" and newT = sample_newT and args = 0,
    OF ram_api_reads sample_rd elf_sched_space(1-3) nz(2) elf_sched_space(5) nz(1)]
  obtain fs' s' where ld: "loadELF ram_api sample_newP sample_newT (\<lambda>_. True) 0x1000 0 sample_elf_fs elf_sched = Some (0x201000, fs', s')"
    using L [THEN conjunct1] by (auto simp: sample_new sample_loadable elf_sched_space(4))
  have "loaded sample_elf (vm_mem (vm s')) (page_directory (proc s' 0x201000)) sample_ph"
    using L [THEN conjunct2, rule_format, of "0x201000" fs' s'] ld sample_loadable(3)
    by (simp add: sample_headers sample_pages Let_def)
  note B = this [unfolded loaded_def Let_def, rule_format]
  have b: "sample_elf ! 85 = 8" by code_simp
  have "user_byte (vm_mem (vm s')) (page_directory (proc s' 0x201000)) 0x50000011 = 8"
    using B [of "0x50000011"] b by (simp add: sample_ph_def)
  moreover have "user_byte (vm_mem (vm s')) (page_directory (proc s' 0x201000)) 0x50000014 = 0"
    using B [of "0x50000014"] by (simp add: sample_ph_def)
  ultimately show ?thesis using ld by blast
qed

theorem loadELF_all_or_nothing_witness:
  "\<exists>fs' s'. loadELF ram_api sample_newP sample_newT (\<lambda>_. True) 0x1000 0 sample_elf_fs elf_sched = Some (0x201000, fs', s') \<and>
     sched_inv s' \<and> globalProcessList s' = [0x200000, 0x201000] \<and> readyQueue s' = [0x100100, 0x100200]"
proof -
  have "view elf_sched = view sample_two" unfolding elf_sched_def by (rule view_outside)
  then have inv: "sched_inv elf_sched" using view_sched_inv sched_reachable_inv [OF sample_fresh sample_reachable] by blast
  have g: "globalProcessList elf_sched = [0x200000]" "p_pid (proc elf_sched 0x200000) \<noteq> pidCounter elf_sched"
    unfolding elf_sched_def by code_simp+
  have pid: "\<forall>q \<in> set (globalProcessList elf_sched). p_pid (proc elf_sched q) \<noteq> pidCounter elf_sched" using g by simp
  obtain fs' s' where ld: "loadELF ram_api sample_newP sample_newT (\<lambda>_. True) 0x1000 0 sample_elf_fs elf_sched = Some (0x201000, fs', s')"
    using sample_load by blast
  have "view s' = view (add_proc 0x201000 (proc s' 0x201000) elf_sched)" "sched_inv s'"
    using loadELF_all_or_nothing [OF inv sample_fresh pid ld] by simp_all
  then show ?thesis using ld g(1) sample_ready by (auto simp: view_def add_proc_def elf_sched_def)
qed

end
