(* ===== verification/User_Memory.thy ===== *)
theory User_Memory
  imports Elf_Loader
begin

text \<open>
  How system calls reach the memory of the calling process, the helpers at the head of \<^verbatim>\<open>core/syscalls.cpp\<close>: a range
  is checked page by page against the process's page directory, and bytes are then moved through the physical
  addresses of its pages. A process is its page directory here, \<open>None\<close> the null pointer; kernel buffers are lists of
  bytes, so a length is the length of the list.
\<close>

subsection \<open>Operations\<close>

abbreviation USER_LOWER_BOUND :: u32 where "USER_LOWER_BOUND \<equiv> 0x10000000"
abbreviation USER_UPPER_BOUND :: u32 where "USER_UPPER_BOUND \<equiv> 0xC0000000"
abbreviation NO_PAGE :: u32 where "NO_PAGE \<equiv> 0xFFFFFFFF"

text \<open>The end of the range is below \<^verbatim>\<open>0xC0000000\<close> when the loop is reached, so its pages are counted off without wrapping.\<close>

definition IsUserRange :: "memory \<Rightarrow> u32 option \<Rightarrow> u32 \<Rightarrow> u32 \<Rightarrow> bool" where
  "IsUserRange m pr addr sz =
     (case pr of None \<Rightarrow> False
      | Some pd \<Rightarrow>
          if sz = 0 \<or> addr < USER_LOWER_BOUND then False
          else
            let end = addr + sz - 1 in
            if end < addr \<or> USER_UPPER_BOUND \<le> end then False
            else
              let start_page = page_down addr; end_page = page_down end in
              list_all (\<lambda>k. GetPhysicalAddress m pd (start_page + of_nat k * PAGE_SIZE) \<noteq> NO_PAGE)
                [0..<(unat end_page - unat start_page) div 4096 + 1])"

definition page_room :: "u32 \<Rightarrow> nat \<Rightarrow> nat" where
  "page_room user_addr remaining =
     (let chunk = 4096 - unat (user_addr AND 0xFFF) in if remaining < chunk then remaining else chunk)"

lemma page_room_pos: "0 < remaining \<Longrightarrow> 0 < page_room a remaining" "page_room a remaining \<le> remaining"
  "unat a mod 4096 + page_room a remaining \<le> 4096"
proof -
  have m: "unat (a AND 0xFFF) = unat a mod 4096"
    unfolding mask12 by (simp add: take_bit_eq_mask [symmetric] take_bit_eq_mod unat_mod_distrib)
  have lt: "unat a mod 4096 < 4096" by simp
  show "0 < remaining \<Longrightarrow> 0 < page_room a remaining" using lt by (simp add: page_room_def Let_def m)
  show "page_room a remaining \<le> remaining" by (simp add: page_room_def Let_def)
  show "unat a mod 4096 + page_room a remaining \<le> 4096" unfolding page_room_def Let_def m using lt by (auto split: if_split)
qed

function copy_out :: "u32 \<Rightarrow> u32 \<Rightarrow> u8 list \<Rightarrow> memory \<Rightarrow> bool \<times> memory" where
  "copy_out pd user_addr bs m =
     (if bs = [] then (True, m)
      else
        let phys = GetPhysicalAddress m pd user_addr; chunk = page_room user_addr (length bs) in
        if phys = NO_PAGE then (False, m)
        else copy_out pd (user_addr + of_nat chunk) (drop chunk bs) (store_bytes m phys (take chunk bs)))"
  by pat_completeness auto
termination
proof (relation "measure (\<lambda>(_, _, bs, _). length bs)", goal_cases)
  case (2 pd a bs m)
  then show ?case using page_room_pos(1) [of "length bs" a] by simp
qed simp

function copy_in :: "u32 \<Rightarrow> u32 \<Rightarrow> nat \<Rightarrow> memory \<Rightarrow> u8 list option" where
  "copy_in pd user_addr remaining m =
     (if remaining = 0 then Some []
      else
        let phys = GetPhysicalAddress m pd user_addr; chunk = page_room user_addr remaining in
        if phys = NO_PAGE then None
        else map_option ((@) (load_bytes m phys chunk)) (copy_in pd (user_addr + of_nat chunk) (remaining - chunk) m))"
  by pat_completeness auto
termination
proof (relation "measure (\<lambda>(_, _, n, _). n)", goal_cases)
  case (2 pd a n m)
  then show ?case using page_room_pos(1) [of n a] by simp
qed simp

declare copy_out.simps [simp del] copy_in.simps [simp del]

definition CopyToUser :: "memory \<Rightarrow> u32 option \<Rightarrow> u32 \<Rightarrow> u8 list \<Rightarrow> bool \<times> memory" where
  "CopyToUser m pr dst_user src =
     (if dst_user = null_ptr \<or> src = [] then (False, m)
      else if \<not> IsUserRange m pr dst_user (of_nat (length src)) then (False, m)
      else copy_out (the pr) dst_user src m)"

text \<open>The bytes read, or \<open>None\<close> when the copy fails.\<close>

definition CopyFromUser :: "memory \<Rightarrow> u32 option \<Rightarrow> u32 \<Rightarrow> u32 \<Rightarrow> u8 list option" where
  "CopyFromUser m pr src_user sz =
     (if src_user = null_ptr \<or> sz = 0 then None
      else if \<not> IsUserRange m pr src_user sz then None
      else copy_in (the pr) src_user (unat sz) m)"

text \<open>The string without its NUL; \<open>left\<close> is \<^verbatim>\<open>dst_size - 1 - i\<close>. A string that does not fit is cut.\<close>

fun user_string :: "memory \<Rightarrow> u32 \<Rightarrow> u32 \<Rightarrow> nat \<Rightarrow> u8 list option" where
  "user_string m pd user_addr 0 = Some []"
| "user_string m pd user_addr (Suc left) =
     (if USER_UPPER_BOUND \<le> user_addr then None
      else
        let phys = GetPhysicalAddress m pd user_addr in
        if phys = NO_PAGE then None
        else
          let c = load8 m phys in
          if c = 0 then Some [] else map_option (Cons c) (user_string m pd (user_addr + 1) left))"

definition CopyUserString :: "memory \<Rightarrow> u32 \<Rightarrow> u32 \<Rightarrow> nat \<Rightarrow> u8 list option" where
  "CopyUserString m pd src_user dst_size =
     (if dst_size = 0 then None
      else if src_user = null_ptr then Some []
      else if src_user < USER_LOWER_BOUND \<or> USER_UPPER_BOUND \<le> src_user then None
      else user_string m pd src_user (dst_size - 1))"

subsection \<open>Ranges\<close>

text \<open>The range check is the check of every byte: inside user space, without wrapping, and mapped.\<close>

definition in_user :: "(nat \<rightharpoonup> nat) \<Rightarrow> u32 \<Rightarrow> nat \<Rightarrow> bool" where
  "in_user g a n \<longleftrightarrow> unat USER_LOWER_BOUND \<le> unat a \<and> unat a + n \<le> unat USER_UPPER_BOUND \<and>
     (\<forall>x. unat a \<le> x \<and> x < unat a + n \<longrightarrow> x div 4096 \<in> dom g)"

text \<open>\<open>g\<close> lists all pages that are mapped in user space.\<close>

definition maps_exactly :: "(nat \<rightharpoonup> nat) \<Rightarrow> memory \<Rightarrow> u32 \<Rightarrow> bool" where
  "maps_exactly g m d \<longleftrightarrow> (\<forall>w. USER_LOWER_BOUND \<le> w \<and> w < USER_UPPER_BOUND \<longrightarrow>
     (GetPhysicalAddress m d w \<noteq> NO_PAGE \<longleftrightarrow> unat w div 4096 \<in> dom g))"

lemma page_span:
  fixes a n :: nat
  assumes "0 < n"
  shows "(\<forall>x. a \<le> x \<and> x < a + n \<longrightarrow> P (x div 4096)) \<longleftrightarrow> (\<forall>k < (a + n - 1) div 4096 - a div 4096 + 1. P (a div 4096 + k))"
proof
  assume all: "\<forall>x. a \<le> x \<and> x < a + n \<longrightarrow> P (x div 4096)"
  show "\<forall>k < (a + n - 1) div 4096 - a div 4096 + 1. P (a div 4096 + k)"
  proof (intro allI impI)
    fix k assume k: "k < (a + n - 1) div 4096 - a div 4096 + 1"
    let ?x = "if k = 0 then a else (a div 4096 + k) * 4096"
    have le: "a div 4096 \<le> (a + n - 1) div 4096" using assms by (intro div_le_mono) simp
    have "(a div 4096 + k) * 4096 \<le> (a + n - 1) div 4096 * 4096" using k le by (intro mult_le_mono1) linarith
    moreover have "(a + n - 1) div 4096 * 4096 \<le> a + n - 1" by simp
    moreover have "a < (a div 4096 + 1) * 4096" using dividend_less_div_times [of 4096 a] by simp
    moreover have "(a div 4096 + 1) * 4096 \<le> (a div 4096 + k) * 4096" if "k \<noteq> 0" using that by (intro mult_le_mono1) simp
    ultimately have "a \<le> ?x \<and> ?x < a + n" using assms by (cases "k = 0") force+
    moreover have "?x div 4096 = a div 4096 + k" by simp
    ultimately show "P (a div 4096 + k)" using all by metis
  qed
next
  assume all: "\<forall>k < (a + n - 1) div 4096 - a div 4096 + 1. P (a div 4096 + k)"
  show "\<forall>x. a \<le> x \<and> x < a + n \<longrightarrow> P (x div 4096)"
  proof (intro allI impI)
    fix x assume x: "a \<le> x \<and> x < a + n"
    then have "a div 4096 \<le> x div 4096" "x div 4096 \<le> (a + n - 1) div 4096" by (auto intro: div_le_mono)
    moreover from this have "x div 4096 - a div 4096 < (a + n - 1) div 4096 - a div 4096 + 1" by linarith
    ultimately show "P (x div 4096)" using all by (metis le_add_diff_inverse)
  qed
qed

lemma IsUserRange_iff:
  assumes ex: "maps_exactly g m d" and n: "0 < n" "n < 2 ^ 32"
  shows "IsUserRange m (Some d) a (of_nat n) \<longleftrightarrow> in_user g a n"
proof (cases "unat USER_LOWER_BOUND \<le> unat a \<and> unat a + n \<le> unat USER_UPPER_BOUND")
  case True
  let ?e = "a + of_nat n - 1"
  have un: "unat (of_nat n :: u32) = n" "of_nat n \<noteq> (0 :: u32)" using n by (simp_all add: word_unat_eq_iff)
  have "unat (a + of_nat n) = unat a + n" using True un by (subst unat_add_small) simp_all
  then have e: "unat ?e = unat a + n - 1" using n unat_dec [of "a + of_nat n"] by simp
  have pages: "(unat (page_down ?e) - unat (page_down a)) div 4096 = (unat a + n - 1) div 4096 - unat a div 4096"
    unfolding page_down_unat e by (simp flip: diff_mult_distrib)
  have pg: "GetPhysicalAddress m d (page_down a + of_nat k * PAGE_SIZE) \<noteq> NO_PAGE \<longleftrightarrow> unat a div 4096 + k \<in> dom g"
    if k: "k < (unat a + n - 1) div 4096 - unat a div 4096 + 1" for k
  proof -
    let ?w = "page_down a + of_nat k * PAGE_SIZE"
    have "unat a div 4096 \<le> (unat a + n - 1) div 4096" using n by (intro div_le_mono) simp
    then have "(unat a div 4096 + k) * 4096 \<le> (unat a + n - 1) div 4096 * 4096" using k by (intro mult_le_mono1) linarith
    moreover have up: "unat USER_UPPER_BOUND = 0xC0000000" by simp
    ultimately have b: "unat a div 4096 * 4096 + k * 4096 < unat USER_UPPER_BOUND" using True n div_times_less_eq_dividend [of "unat a + n - 1" 4096] by (simp only: add_mult_distrib) linarith
    then have kp: "unat (of_nat k * PAGE_SIZE) = k * 4096" using unat_mult_small [of "of_nat k" PAGE_SIZE] by simp
    moreover have "unat (page_down a) + unat (of_nat k * PAGE_SIZE) < 2 ^ 32" unfolding page_down_unat kp using b by simp
    ultimately have w: "unat ?w = (unat a div 4096 + k) * 4096" by (simp only: unat_add_small page_down_unat add_mult_distrib)
    have "0x10000000 div 4096 * 4096 \<le> unat a div 4096 * 4096" using True by (intro mult_le_mono1 div_le_mono) simp
    then have "USER_LOWER_BOUND \<le> ?w \<and> ?w < USER_UPPER_BOUND" using w b by (simp add: word_le_nat_alt word_less_nat_alt)
    then show ?thesis using ex w unfolding maps_exactly_def by simp
  qed
  have guards: "\<not> (of_nat n = (0 :: u32) \<or> a < USER_LOWER_BOUND)" "\<not> (?e < a \<or> USER_UPPER_BOUND \<le> ?e)"
    using True n un e by (auto simp: word_less_nat_alt word_le_nat_alt)
  then have "IsUserRange m (Some d) a (of_nat n) \<longleftrightarrow> (\<forall>k < (unat a + n - 1) div 4096 - unat a div 4096 + 1. unat a div 4096 + k \<in> dom g)"
    unfolding IsUserRange_def Let_def option.case if_not_P [OF guards(1)] if_not_P [OF guards(2)] pages list_all_iff set_upt Ball_def atLeastLessThan_iff
    using pg by blast
  then show ?thesis using True page_span [OF n(1), of "unat a" "\<lambda>q. q \<in> dom g"] unfolding in_user_def by blast
next
  case False
  let ?e = "a + of_nat n - 1"
  have un: "unat (of_nat n :: u32) = n" using n by simp
  have "\<not> IsUserRange m (Some d) a (of_nat n)"
  proof (cases "unat a + n \<le> 2 ^ 32")
    case small: True
    have "unat ?e = unat a + n - 1"
    proof (cases "unat a + n = 2 ^ 32")
      case True
      then have z: "a + of_nat n = 0" using un by (simp add: word_unat_eq_iff unat_word_ariths)
      show ?thesis unfolding z True by (simp add: unsigned_minus_1_eq_mask mask_eq_exp_minus_1)
    next
      case False
      then show ?thesis using unat_dec [of "a + of_nat n"] unat_add_small [of a "of_nat n"] small n un by simp
    qed
    then show ?thesis using False n unfolding IsUserRange_def Let_def option.case
      by (auto simp: word_less_nat_alt word_le_nat_alt)
  next
    case big: False
    have "unat (a + (of_nat n - 1)) = unat a + (n - 1) - 2 ^ 32"
    proof -
      have "unat (of_nat n - 1 :: u32) = n - 1" using unat_dec [of "of_nat n"] n un by simp
      then show ?thesis using big n unat_u32_bound [of a] by (simp add: unat_word_ariths mod_if)
    qed
    then have "?e < a" using big n by (simp add: word_less_nat_alt add_diff_eq)
    then show ?thesis unfolding IsUserRange_def Let_def by simp
  qed
  then show ?thesis using False unfolding in_user_def by blast
qed

subsection \<open>Copies\<close>

lemma page_room_chunk:
  assumes "0 < n" "n < 2 ^ 32"
  shows "page_room a n = unat (chunk_at a (of_nat n))"
proof -
  have m: "unat (a AND 0xFFF) = unat a mod 4096"
    unfolding mask12 by (simp add: take_bit_eq_mask [symmetric] take_bit_eq_mod unat_mod_distrib)
  have "(0 :: u32) < of_nat n" "unat (of_nat n :: u32) = n" using assms by (simp_all add: word_less_nat_alt)
  then show ?thesis using chunk_at_bounds(4) [of "of_nat n" a] unfolding page_room_def Let_def m by simp
qed

text \<open>One round of the copy loops: the page is mapped, the chunk stays inside it, and the rest of the range is again a range.\<close>

lemma user_round:
  assumes inv: "image_inv K m0 D d g v" and sp: "span_in g a (of_nat n)" and n: "0 < n" "n < 2 ^ 32"
  defines "c \<equiv> page_room a n"
  shows "unat a div 4096 \<in> dom g" "GetPhysicalAddress (vm_mem v) d a \<noteq> NO_PAGE" "0 < c" "c \<le> n"
    "unat a mod 4096 + c \<le> 4096" "unat (a + of_nat c) = unat a + c" "span_in g (a + of_nat c) (of_nat (n - c))"
proof -
  have n0: "(0 :: u32) < of_nat n" using n by (simp add: word_less_nat_alt)
  have c: "chunk_at a (of_nat n) = of_nat c" using page_room_chunk [OF n, of a] unfolding c_def by simp
  have uc: "unat (of_nat c :: u32) = c" using page_room_chunk [OF n, of a] c unfolding c_def by simp
  note S = span_chunk [OF inv sp n0, unfolded c uc]
  show "unat a div 4096 \<in> dom g" "GetPhysicalAddress (vm_mem v) d a \<noteq> NO_PAGE" "0 < c" "unat a mod 4096 + c \<le> 4096"
    "unat (a + of_nat c) = unat a + c" using S by simp_all
  show cn: "c \<le> n" unfolding c_def by (rule page_room_pos)
  show "span_in g (a + of_nat c) (of_nat (n - c))" using S(8) cn by (simp add: of_nat_diff)
qed

lemma write_translation:
  assumes inv: "image_inv K m0 D d g v" and w: "unat w div 4096 \<in> dom g" and fits: "unat w mod 4096 + length bs \<le> 4096"
  shows "GetPhysicalAddress (store_bytes (vm_mem v) (GetPhysicalAddress (vm_mem v) d w) bs) d w' = GetPhysicalAddress (vm_mem v) d w'"
proof -
  note I = image_invD [OF inv]
  obtain k where k: "g (unat w div 4096) = Some k" using w by auto
  then have kr: "k \<in> ran g" by (auto simp: ran_def)
  have fr: "unat (GetPhysicalAddress (vm_mem v) d w) div 4096 = k" "unat (GetPhysicalAddress (vm_mem v) d w) mod 4096 = unat w mod 4096"
    using I(7) [OF k] by simp_all
  have "\<forall>x. unat x div 4096 \<in> used_frames (vm_frames v) - ran g \<longrightarrow>
      store_bytes (vm_mem v) (GetPhysicalAddress (vm_mem v) d w) bs x = vm_mem v x"
    using kr fr fits by (auto intro!: store_bytes_other)
  then show ?thesis by (rule translation_cong(2) [OF I(4) _ I(1)])
qed

text \<open>The view of the process after a write: the bytes of the range are the new ones, every other byte and the mapping stay.\<close>

definition user_written :: "(nat \<rightharpoonup> nat) \<Rightarrow> u32 \<Rightarrow> u32 \<Rightarrow> u8 list \<Rightarrow> memory \<Rightarrow> memory \<Rightarrow> bool" where
  "user_written g d a bs m m' \<longleftrightarrow>
     (\<forall>w. unat w div 4096 \<in> dom g \<longrightarrow> user_byte m' d w =
        (if unat a \<le> unat w \<and> unat w < unat a + length bs then bs ! (unat w - unat a) else user_byte m d w)) \<and>
     (\<forall>w. GetPhysicalAddress m' d w = GetPhysicalAddress m d w)"

lemma user_written_append:
  assumes "user_written g d a bs m m1" "user_written g d a' bs' m1 m2" "unat a' = unat a + length bs"
  shows "user_written g d a (bs @ bs') m m2"
proof -
  have "user_byte m2 d w = (if unat a \<le> unat w \<and> unat w < unat a + length (bs @ bs') then (bs @ bs') ! (unat w - unat a) else user_byte m d w)"
    if w: "unat w div 4096 \<in> dom g" for w
  proof -
    have "user_byte m2 d w = (if unat a + length bs \<le> unat w \<and> unat w < unat a + length bs + length bs'
        then bs' ! (unat w - (unat a + length bs)) else user_byte m1 d w)"
      using assms(2,3) w by (simp add: user_written_def)
    moreover have "user_byte m1 d w = (if unat a \<le> unat w \<and> unat w < unat a + length bs then bs ! (unat w - unat a) else user_byte m d w)"
      using assms(1) w by (simp add: user_written_def)
    ultimately show ?thesis by (auto simp: nth_append)
  qed
  then show ?thesis using assms(1,2) by (simp add: user_written_def)
qed

lemma copy_out_image:
  assumes "image_inv K m0 D d g v" "span_in g a (of_nat (length bs))" "length bs < 2 ^ 32"
  shows "\<exists>m'. copy_out d a bs (vm_mem v) = (True, m') \<and> image_inv K m0 D d g (v\<lparr>vm_mem := m'\<rparr>) \<and> user_written g d a bs (vm_mem v) m'"
  using assms
proof (induction "length bs" arbitrary: bs a v rule: less_induct)
  case less
  show ?case
  proof (cases "bs = []")
    case True
    then show ?thesis using less.prems by (subst copy_out.simps) (auto simp: user_written_def)
  next
    case False
    define c where "c = page_room a (length bs)"
    let ?m = "store_bytes (vm_mem v) (GetPhysicalAddress (vm_mem v) d a) (take c bs)"
    have n: "0 < length bs" using False by simp
    note R = user_round [OF less.prems(1,2) n less.prems(3), folded c_def]
    have len: "length (take c bs) = c" using R(4) by simp
    have fits: "unat a mod 4096 + length (take c bs) \<le> 4096" using R(5) len by simp
    note W = write_image [OF less.prems(1) R(1) fits]
    have w1: "user_written g d a (take c bs) (vm_mem v) ?m"
      unfolding user_written_def using W(2) write_translation [OF less.prems(1) R(1) fits] by blast
    have "length (drop c bs) < length bs" "span_in g (a + of_nat c) (of_nat (length (drop c bs)))" "length (drop c bs) < 2 ^ 32"
      using R(3,7) n less.prems(3) by simp_all
    from less.hyps [OF this(1) W(1) this(2,3)]
    obtain m' where IH: "copy_out d (a + of_nat c) (drop c bs) ?m = (True, m')" "image_inv K m0 D d g (v\<lparr>vm_mem := m'\<rparr>)"
      and w2: "user_written g d (a + of_nat c) (drop c bs) ?m m'" by auto
    have "copy_out d a bs (vm_mem v) = (True, m')"
      using False R(2) IH(1) by (subst copy_out.simps) (simp add: Let_def c_def [symmetric])
    moreover have "user_written g d a bs (vm_mem v) m'" using user_written_append [OF w1 w2] R(6) len by simp
    ultimately show ?thesis using IH(2) by blast
  qed
qed

lemma load_user_page:
  assumes inv: "image_inv K m0 D d g v" and a: "unat a div 4096 \<in> dom g" and fits: "unat a mod 4096 + c \<le> 4096"
  shows "load_bytes (vm_mem v) (GetPhysicalAddress (vm_mem v) d a) c = map (\<lambda>i. user_byte (vm_mem v) d (a + of_nat i)) [0..<c]"
proof -
  obtain k where k: "g (unat a div 4096) = Some k" using a by auto
  then have "k \<in> ran g" by (auto simp: ran_def)
  then have kb: "k < 65536" using image_invD(6) [OF inv] by auto
  have "GetPhysicalAddress (vm_mem v) d (a + of_nat i) = GetPhysicalAddress (vm_mem v) d a + of_nat i" if i: "i < c" for i
  proof -
    have im: "unat a mod 4096 + i < 4096" "i < 4096" using i fits by linarith+
    have ai: "unat (a + of_nat i) = unat a + i"
    proof -
      have "unat a div 4096 < 1048576" using unat_u32_bound [of a] by (simp add: div_less_iff_less_mult)
      then have "unat a + i < 4294967296" using im(1) div_mult_mod_eq [of "unat a" 4096] by linarith
      then show ?thesis using im(2) by (subst unat_add_small) simp_all
    qed
    have pg: "(unat a + i) div 4096 = unat a div 4096 \<and> (unat a + i) mod 4096 = unat a mod 4096 + i"
    proof -
      define q r where "q = unat a div 4096" and "r = unat a mod 4096"
      have e: "unat a + i = 4096 * q + (r + i)" by (simp add: q_def r_def)
      show ?thesis unfolding e q_def [symmetric] r_def [symmetric] using im(1) [folded r_def] by simp
    qed
    then have "unat (GetPhysicalAddress (vm_mem v) d (a + of_nat i)) = k * 4096 + (unat a mod 4096 + i)"
      using image_invD(7) [OF inv, of "a + of_nat i" k] k ai by simp
    moreover have "unat (GetPhysicalAddress (vm_mem v) d a + of_nat i) = k * 4096 + unat a mod 4096 + i"
      using image_invD(7) [OF inv k] im kb by (subst unat_add_small) simp_all
    ultimately show ?thesis by (simp add: word_unat_eq_iff)
  qed
  then show ?thesis by (simp add: load_bytes_def user_byte_def)
qed

lemma copy_in_image:
  assumes inv: "image_inv K m0 D d g v"
  shows "span_in g a (of_nat n) \<Longrightarrow> n < 2 ^ 32 \<Longrightarrow>
    copy_in d a n (vm_mem v) = Some (map (\<lambda>i. user_byte (vm_mem v) d (a + of_nat i)) [0..<n])"
proof (induction n arbitrary: a rule: less_induct)
  case (less n)
  show ?case
  proof (cases "n = 0")
    case True
    then show ?thesis by (subst copy_in.simps) simp
  next
    case False
    define c where "c = page_room a n"
    have n: "0 < n" using False by simp
    note R = user_round [OF inv less.prems(1) n less.prems(2), folded c_def]
    have "copy_in d (a + of_nat c) (n - c) (vm_mem v) = Some (map (\<lambda>i. user_byte (vm_mem v) d (a + of_nat c + of_nat i)) [0..<n - c])"
      using less.IH [OF _ R(7)] R(3) n less.prems(2) by simp
    moreover have "[0..<n] = [0..<c] @ map (\<lambda>i. i + c) [0..<n - c]"
      using R(4) map_add_upt [of c "n - c"] upt_add_eq_append [of 0 c "n - c"] by (simp add: add.commute)
    ultimately show ?thesis
      using False R(2) load_user_page [OF inv R(1,5)] by (subst copy_in.simps) (simp add: Let_def c_def [symmetric] ac_simps)
  qed
qed

lemma in_user_span: "in_user g a n \<Longrightarrow> span_in g a (of_nat n) \<and> a \<noteq> null_ptr"
  by (auto simp: in_user_def span_in_def take_bit_nat_eq_self)

lemma CopyFromUser_image:
  assumes inv: "image_inv K m0 D d g v" and ex: "maps_exactly g (vm_mem v) d" and n: "0 < n" "n < 2 ^ 32"
  shows "CopyFromUser (vm_mem v) (Some d) a (of_nat n) =
    (if in_user g a n then Some (map (\<lambda>i. user_byte (vm_mem v) d (a + of_nat i)) [0..<n]) else None)"
proof -
  have "of_nat n \<noteq> (0 :: u32)" "unat (of_nat n :: u32) = n" using n by (simp_all add: word_unat_eq_iff)
  then show ?thesis using IsUserRange_iff [OF ex n, of a] in_user_span [of g a n] copy_in_image [OF inv _ n(2), of a]
    by (auto simp: CopyFromUser_def)
qed

text \<open>
  Property C3. System calls reach exactly the memory of their process. Copying to a user address succeeds if and only if every
  byte of the range lies between 0x10000000 and 0xC0000000, without wrapping, in a page mapped in the process; a copy that
  fails changes nothing. A copy that succeeds makes exactly these bytes the new ones, whatever pages and frames they lie
  in: every other byte of the process, the mapping, the page tables and the frames kept apart (\<open>K\<close>) stay, and copying the
  range back gives the bytes that were written.
\<close>

theorem user_copy:
  assumes inv: "image_inv K m0 D d g v" and ex: "maps_exactly g (vm_mem v) d" and n: "bs \<noteq> []" "length bs < 2 ^ 32"
    and cp: "CopyToUser (vm_mem v) (Some d) a bs = (ok, m')"
  shows "(ok \<longleftrightarrow> in_user g a (length bs)) \<and>
    (if ok then image_inv K m0 D d g (v\<lparr>vm_mem := m'\<rparr>) \<and> user_written g d a bs (vm_mem v) m' \<and>
       CopyFromUser m' (Some d) a (of_nat (length bs)) = Some bs
     else m' = vm_mem v)"
proof (cases "in_user g a (length bs)")
  case False
  then have "\<not> IsUserRange (vm_mem v) (Some d) a (of_nat (length bs))" using IsUserRange_iff [OF ex _ n(2), of a] n(1) by simp
  then have "CopyToUser (vm_mem v) (Some d) a bs = (False, vm_mem v)" by (simp add: CopyToUser_def)
  then show ?thesis using cp False by simp
next
  case True
  have l: "0 < length bs" using n(1) by simp
  note sp = in_user_span [OF True]
  obtain m1 where c: "copy_out d a bs (vm_mem v) = (True, m1)" "image_inv K m0 D d g (v\<lparr>vm_mem := m1\<rparr>)" "user_written g d a bs (vm_mem v) m1"
    using copy_out_image [OF inv _ n(2)] sp by blast
  have r: "ok" "m' = m1" using cp c(1) sp n(1) IsUserRange_iff [OF ex l n(2), of a] True by (auto simp: CopyToUser_def)
  have ex1: "maps_exactly g (vm_mem (v\<lparr>vm_mem := m1\<rparr>)) d" using ex c(3) by (simp add: maps_exactly_def user_written_def)
  have "user_byte m1 d (a + of_nat i) = bs ! i" if "i < length bs" for i
  proof -
    have u: "unat (a + of_nat i) = unat a + i" using True that by (subst unat_add_small) (simp_all add: in_user_def take_bit_nat_eq_self)
    then have "unat (a + of_nat i) div 4096 \<in> dom g" using True that unfolding in_user_def by simp
    then show ?thesis using c(3) u that unfolding user_written_def by simp
  qed
  then have "map (\<lambda>i. user_byte m1 d (a + of_nat i)) [0..<length bs] = bs" by (intro nth_equalityI) simp_all
  then have "CopyFromUser m1 (Some d) a (of_nat (length bs)) = Some bs"
    using CopyFromUser_image [OF c(2) ex1 l n(2), of a] True by simp
  then show ?thesis using r c(2,3) True by simp
qed

text \<open>
  A string copied in stops at its first NUL or at the buffer's end, and every byte of it is the process's.
\<close>

lemma CopyUserString_bytes:
  assumes "CopyUserString m d a n = Some s" "a \<noteq> null_ptr"
  shows "length s < n \<and> 0 \<notin> set s \<and> (\<forall>i < length s. s ! i = user_byte m d (a + of_nat i)) \<and>
    (length s + 1 < n \<longrightarrow> user_byte m d (a + of_nat (length s)) = 0)"
proof -
  have "user_string m d a k = Some s \<Longrightarrow> length s \<le> k \<and> 0 \<notin> set s \<and> (\<forall>i < length s. s ! i = user_byte m d (a + of_nat i)) \<and>
    (length s < k \<longrightarrow> user_byte m d (a + of_nat (length s)) = 0)" for k
  proof (induction m d a k arbitrary: s rule: user_string.induct)
    case (2 m d a k)
    show ?case
    proof (cases "load8 m (GetPhysicalAddress m d a) = 0")
      case True
      then show ?thesis using 2 by (auto simp: Let_def user_byte_def split: if_splits)
    next
      case False
      then obtain s1 where s: "s = load8 m (GetPhysicalAddress m d a) # s1" "user_string m d (a + 1) k = Some s1"
        using 2(2) by (auto simp: Let_def split: if_splits)
      then have "\<not> USER_UPPER_BOUND \<le> a" "GetPhysicalAddress m d a \<noteq> NO_PAGE" using 2(2) by (auto simp: Let_def split: if_splits)
      note IH = 2(1) [OF this(1) refl this(2) refl False s(2)]
      then show ?thesis using s False by (auto simp: nth_Cons user_byte_def add.assoc split: nat.splits)
    qed
  qed simp
  from this [of "n - 1"] show ?thesis using assms by (auto simp: CopyUserString_def split: if_splits)
qed

subsection \<open>A small process\<close>

text \<open>Directory at frame 9, one page table at frame 10, and the two pages at 0x50000000 and 0x50001000 in frames 11 and 13.\<close>

definition user_mem :: memory where
  "user_mem = (\<lambda>_. 0)(entry 0x9000 320 := 0xA007, entry 0xA000 0 := 0xB007, entry 0xA000 1 := 0xD007)"

definition user_vm :: "pmm_info vm" where
  "user_vm = \<lparr>vm_mem = user_mem, vm_frames = elf_pmm, vm_depth = 0, vm_cr3 = 0x9000, vm_kernel_dir = 0x9000, vm_active = True\<rparr>"

definition user_map :: "nat \<rightharpoonup> nat" where
  "user_map = [0x50000 \<mapsto> 11, 0x50001 \<mapsto> 13]"

lemma user_mem_entries:
  assumes "unat i < 1024"
  shows "user_mem (entry 0x9000 i) = (if i = 320 then 0xA007 else 0)"
    "user_mem (entry 0xA000 i) = (if i = 0 then 0xB007 else if i = 1 then 0xD007 else 0)"
proof -
  have al: "page_aligned 0x9000" "page_aligned 0xA000" by code_simp+
  have e: "unat (320 :: u32) < 1024" "unat (0 :: u32) < 1024" "unat (1 :: u32) < 1024" by simp_all
  show "user_mem (entry 0x9000 i) = (if i = 320 then 0xA007 else 0)"
    unfolding user_mem_def fun_upd_apply entry_eq_iff [OF al(1) al(1) assms e(1)] entry_eq_iff [OF al(1) al(2) assms e(2)]
      entry_eq_iff [OF al(1) al(2) assms e(3)] by simp
  show "user_mem (entry 0xA000 i) = (if i = 0 then 0xB007 else if i = 1 then 0xD007 else 0)"
    unfolding user_mem_def fun_upd_apply entry_eq_iff [OF al(2) al(1) assms e(1)] entry_eq_iff [OF al(2) al(2) assms e(2)]
      entry_eq_iff [OF al(2) al(2) assms e(3)] by simp
qed

lemma user_mem_bits: "present 0xA007" "present 0xB007" "present 0xD007" "\<not> present 0" "table_of 0xA007 = 0xA000"
  "table_of 0xB007 = 0xB000" "table_of 0xD007 = 0xD000"
  by code_simp+

lemma user_mem_live: "live_pde user_mem 0x9000 i \<longleftrightarrow> i = 320"
  by (cases "i = 320") (auto simp: live_pde_def user_mem_entries user_mem_bits)

lemma user_mem_translate:
  "GetPhysicalAddress user_mem 0x9000 w = (if unat w div 4096 = 0x50000 then 0xB000 + (w AND 0xFFF)
     else if unat w div 4096 = 0x50001 then 0xD000 + (w AND 0xFFF) else NO_PAGE)"
proof -
  have split: "unat w div 4096 = unat (pd_index w) * 1024 + unat (pt_index w)"
    using div_mult_mod_eq [of "unat w div 4096" 1024] by (simp add: pd_index_unat pt_index_unat div_mult2_eq [symmetric])
  have i: "pd_index w = 320 \<longleftrightarrow> unat (pd_index w) = 320" "pt_index w = 0 \<longleftrightarrow> unat (pt_index w) = 0" "pt_index w = 1 \<longleftrightarrow> unat (pt_index w) = 1"
    by (simp_all add: word_unat_eq_iff)
  have dig: "a * 1024 + b = 327680 + k \<longleftrightarrow> a = 320 \<and> b = k" if "b < 1024" "k < 1024" for a b k :: nat
  proof
    assume e: "a * 1024 + b = 327680 + k"
    then have "a = 320" using that by linarith
    then show "a = 320 \<and> b = k" using e by simp
  qed simp
  have p: "unat w div 4096 = 0x50000 \<longleftrightarrow> pd_index w = 320 \<and> pt_index w = 0" "unat w div 4096 = 0x50001 \<longleftrightarrow> pd_index w = 320 \<and> pt_index w = 1"
    unfolding i split using dig [OF pt_index_bound, of 0 "unat (pd_index w)" w] dig [OF pt_index_bound, of 1 "unat (pd_index w)" w] by simp_all
  show ?thesis unfolding p GetPhysicalAddress_alt user_mem_live
    using user_mem_entries [OF pd_index_bound, of w] user_mem_entries [OF pt_index_bound, of w] by (auto simp: user_mem_bits)
qed

lemma user_vm_image: "image_inv {} (\<lambda>_. 0) {0x9000} 0x9000 user_map user_vm" "maps_exactly user_map (vm_mem user_vm) 0x9000"
proof -
  have low: "unat (w AND 0xFFF) = unat w mod 4096" for w :: u32
    unfolding mask12 by (simp add: take_bit_eq_mask [symmetric] take_bit_eq_mod unat_mod_distrib)
  have lt: "unat w mod 4096 < 4096" for w :: u32 by simp
  have at: "unat (0xB000 + (w AND 0xFFF)) = 0xB000 + unat w mod 4096" "unat (0xD000 + (w AND 0xFFF)) = 0xD000 + unat w mod 4096" for w :: u32
    using lt [of w] by (subst unat_add_small; simp add: low)+
  have ne: "0xB000 + (w AND 0xFFF) \<noteq> NO_PAGE" "0xD000 + (w AND 0xFFF) \<noteq> NO_PAGE" for w :: u32
    using at [of w] lt [of w] by (auto simp: word_unat_eq_iff)
  show "maps_exactly user_map (vm_mem user_vm) 0x9000"
    unfolding maps_exactly_def by (auto simp: user_vm_def user_map_def user_mem_translate ne)
  have al: "page_aligned 0x9000" by code_simp
  have vi: "vm_inv {0x9000} ({..<16} - {1..<8} - {11, 13}) user_mem"
    unfolding vm_inv_def using al by (simp add: user_mem_live user_mem_entries user_mem_bits)
  have r: "ran user_map = {11, 13}" by (auto simp: user_map_def ran_def intro: exI [of _ "0x50001"])
  show "image_inv {} (\<lambda>_. 0) {0x9000} 0x9000 user_map user_vm"
    unfolding image_inv_def apart_def r using vi
    by (auto simp: user_vm_def elf_pmm_facts user_map_def user_mem_translate at inj_on_def split: if_splits)
qed

text \<open>Four bytes across the boundary of the two pages, and four that run out of the second.\<close>

theorem user_copy_witness:
  "\<exists>m'. CopyToUser user_mem (Some 0x9000) 0x50000FFE [1, 2, 3, 4] = (True, m') \<and>
     CopyFromUser m' (Some 0x9000) 0x50000FFE 4 = Some [1, 2, 3, 4] \<and> user_byte m' 0x9000 0x50001001 = 4 \<and>
     CopyToUser user_mem (Some 0x9000) 0x50001FFE [1, 2, 3, 4] = (False, user_mem)"
proof -
  have mem: "vm_mem user_vm = user_mem" by (simp add: user_vm_def)
  have l4: "length [1, 2, 3, 4 :: u8] = 4" "(of_nat 4 :: u32) = 4" by simp_all
  note U = user_copy [OF user_vm_image, where bs = "[1, 2, 3, 4]", unfolded mem l4]
  obtain ok m' where c: "CopyToUser user_mem (Some 0x9000) 0x50000FFE [1, 2, 3, 4] = (ok, m')" by fastforce
  obtain ok2 m2 where c2: "CopyToUser user_mem (Some 0x9000) 0x50001FFE [1, 2, 3, 4] = (ok2, m2)" by fastforce
  have "x div 4096 = 0x50000 \<or> x div 4096 = 0x50001" if "0x50000FFE \<le> x" "x < 0x50001002" for x :: nat
  proof -
    have "0x50000FFE div 4096 \<le> x div 4096" "x div 4096 \<le> 0x50001001 div 4096" using that by (intro div_le_mono, simp)+
    then show ?thesis by simp linarith
  qed
  then have y: "in_user user_map 0x50000FFE 4" by (auto simp: in_user_def user_map_def)
  have n: "\<not> in_user user_map 0x50001FFE 4" by (auto simp: in_user_def user_map_def intro!: exI [of _ "0x50002000"])
  have "ok" "\<not> ok2" using U [OF _ _ c] U [OF _ _ c2] y n by simp_all
  moreover from this have w: "user_written user_map 0x9000 0x50000FFE [1, 2, 3, 4] user_mem m'"
    and r: "CopyFromUser m' (Some 0x9000) 0x50000FFE 4 = Some [1, 2, 3, 4]" "m2 = user_mem" using U [OF _ _ c] U [OF _ _ c2] by simp_all
  moreover have "user_byte m' 0x9000 0x50001001 = 4"
    using w unfolding user_written_def by (auto simp: user_map_def dest!: spec [of _ "0x50001001"])
  ultimately show ?thesis using c c2 by auto
qed

end
