(* ===== verification/Ps2_Ports.thy ===== *)
theory Ps2_Ports
  imports Prelude
begin

text \<open>
  The PS/2 controller as the keyboard and mouse drivers see it: two ports of a machine that is a
  parameter, \<open>rd\<close> and \<open>wr\<close> being the \<^verbatim>\<open>inb\<close> and \<^verbatim>\<open>outb\<close> instructions behind
  \<^verbatim>\<open>Port8Bit\<close> of \<^verbatim>\<open>core/ports.cpp\<close>, and the waiting loops of
  \<^verbatim>\<open>core/drivers/keyboard.cpp\<close> and \<^verbatim>\<open>core/drivers/mouse.cpp\<close>.
\<close>

record 'd io =
  rd :: "u16 \<Rightarrow> 'd \<Rightarrow> u8 \<times> 'd"
  wr :: "u16 \<Rightarrow> u8 \<Rightarrow> 'd \<Rightarrow> 'd"

abbreviation dataPort :: u16 where "dataPort \<equiv> 0x60"
abbreviation commandPort :: u16 where "commandPort \<equiv> 0x64"

text \<open>Poll the status port until it satisfies \<open>P\<close>, at most \<open>n\<close> times.\<close>

fun poll :: "'d io \<Rightarrow> (u8 \<Rightarrow> bool) \<Rightarrow> nat \<Rightarrow> 'd \<Rightarrow> bool \<times> 'd" where
  "poll io P n d =
     (if n = 0 then (False, d)
      else case rd io commandPort d of (b, d) \<Rightarrow> if P b then (True, d) else poll io P (n - 1) d)"

declare poll.simps [simp del]

definition WaitForInputBufferClear :: "'d io \<Rightarrow> 'd \<Rightarrow> bool \<times> 'd" where
  "WaitForInputBufferClear io = poll io (\<lambda>b. b AND 2 = 0) 10000"

definition WaitForOutputBufferFull :: "'d io \<Rightarrow> 'd \<Rightarrow> bool \<times> 'd" where
  "WaitForOutputBufferFull io = poll io (\<lambda>b. b AND 1 \<noteq> 0) 10000"

text \<open>\<^verbatim>\<open>WaitForKBACK\<close>: an answer 0xFE starts the next try, as does silence.\<close>

fun WaitForKBACK :: "'d io \<Rightarrow> nat \<Rightarrow> 'd \<Rightarrow> bool \<times> 'd" where
  "WaitForKBACK io 0 d = (False, d)"
| "WaitForKBACK io (Suc i) d =
     (case WaitForOutputBufferFull io d of
        (False, d) \<Rightarrow> WaitForKBACK io i d
      | (True, d) \<Rightarrow> (case rd io dataPort d of (ack, d) \<Rightarrow>
          if ack = 0xFA then (True, d) else if ack = 0xFE then WaitForKBACK io i d else (False, d)))"

text \<open>\<^verbatim>\<open>while (commandPort.Read() & 0x1) dataPort.Read();\<close> ends only when the buffer runs empty.\<close>

partial_function (option) flush_output :: "'d io \<Rightarrow> 'd \<Rightarrow> 'd option" where
  "flush_output io d =
     (case rd io commandPort d of (b, d) \<Rightarrow>
        if b AND 1 \<noteq> 0 then flush_output io (snd (rd io dataPort d)) else Some d)"

declare flush_output.simps [code]

text \<open>It ends when the controller holds finitely many bytes: \<open>k\<close> is a bound that every data read lowers.\<close>

lemma flush_output_ends:
  fixes k :: "'d \<Rightarrow> nat"
  assumes "\<And>d. fst (rd io commandPort d) AND 1 \<noteq> 0 \<Longrightarrow> k (snd (rd io dataPort (snd (rd io commandPort d)))) < k d"
  shows "\<exists>d'. flush_output io d = Some d'"
proof (induction "k d" arbitrary: d rule: less_induct)
  case less
  obtain b d1 where r: "rd io commandPort d = (b, d1)" by fastforce
  show ?case
  proof (cases "b AND 1 = 0")
    case True
    then show ?thesis by (subst flush_output.simps) (simp add: r)
  next
    case False
    then have "k (snd (rd io dataPort d1)) < k d" using assms [of d] by (simp add: r)
    from less [OF this] show ?thesis using False by (subst flush_output.simps) (simp add: r)
  qed
qed

end
