(* ===== verification/Keyboard.thy ===== *)
theory Keyboard
  imports Ps2_Ports
begin

text \<open>
  The keyboard driver, \<^verbatim>\<open>core/drivers/keyboard.cpp\<close>: the ring buffer of typed characters, the
  decoding of scancodes with its modifiers, and the start-up of the controller. Calls of the event
  handler, a virtual object, are emitted events. The statics of the file and of
  \<^verbatim>\<open>HandleInterrupt\<close> are fields of the driver's state.
\<close>

subsection \<open>State\<close>

datatype key_event = OnKeyDown u8 | OnKeyUp u8 | OnSpecialKeyDown u8 | OnSpecialKeyUp u8

record keyboard =
  keyStates :: "u8 list"
  inputQueue :: "u8 list"
  inputHead :: u16
  inputTail :: u16
  eventHandler :: bool
  is_Active :: bool
  isExtendedScancode :: bool
  keyStatesNormal :: "u8 list"
  keyStatesExt :: "u8 list"
  leftShiftPressed :: bool
  rightShiftPressed :: bool
  leftCtrlPressed :: bool
  rightCtrlPressed :: bool
  leftAltPressed :: bool
  rightAltPressed :: bool
  capsLockActive :: bool

abbreviation INPUT_QUEUE_SIZE :: u16 where "INPUT_QUEUE_SIZE \<equiv> 256"

definition KeyboardDriver :: "bool \<Rightarrow> keyboard" where
  "KeyboardDriver handler = \<lparr>keyStates = replicate 128 0, inputQueue = replicate 256 0, inputHead = 0, inputTail = 0,
     eventHandler = handler, is_Active = False, isExtendedScancode = False, keyStatesNormal = replicate 128 0,
     keyStatesExt = replicate 128 0, leftShiftPressed = False, rightShiftPressed = False, leftCtrlPressed = False,
     rightCtrlPressed = False, leftAltPressed = False, rightAltPressed = False, capsLockActive = False\<rparr>"

definition GetKeyState :: "u8 \<Rightarrow> keyboard \<Rightarrow> u8" where
  "GetKeyState scancode k = (if scancode < 128 then keyStates k ! unat scancode else 0)"

subsection \<open>The queue of typed characters\<close>

definition QueueInputChar :: "u8 \<Rightarrow> keyboard \<Rightarrow> keyboard" where
  "QueueInputChar c k =
     (let nextHead = (inputHead k + 1) mod INPUT_QUEUE_SIZE;
          k = (if nextHead = inputTail k then k\<lparr>inputTail := (inputTail k + 1) mod INPUT_QUEUE_SIZE\<rparr> else k) in
      k\<lparr>inputQueue := (inputQueue k)[unat (inputHead k) := c], inputHead := nextHead\<rparr>)"

definition PopInputChar :: "keyboard \<Rightarrow> u8 option \<times> keyboard" where
  "PopInputChar k =
     (if inputHead k = inputTail k then (None, k)
      else (Some (inputQueue k ! unat (inputTail k)), k\<lparr>inputTail := (inputTail k + 1) mod INPUT_QUEUE_SIZE\<rparr>))"

definition ClearInputQueue :: "keyboard \<Rightarrow> keyboard" where
  "ClearInputQueue k = k\<lparr>inputHead := 0, inputTail := 0\<rparr>"

subsection \<open>Scancodes\<close>

definition codes :: "string \<Rightarrow> u8 list" where
  "codes s = map of_char s"

definition normalKeyMap :: "u8 list" where
  "normalKeyMap = [0, 0] @ codes ''1234567890-='' @ [0, 0] @ codes ''qwertyuiop[]'' @ [10, 0] @ codes ''asdfghjkl;'' @ [39, 96, 0, 92]
     @ codes ''zxcvbnm,./'' @ [0] @ codes ''*'' @ [0] @ codes '' '' @ replicate 70 0"

definition shiftKeyMap :: "u8 list" where
  "shiftKeyMap = [0, 0] @ codes ''!@#$%^&*()_+'' @ [0, 0] @ codes ''QWERTYUIOP{}'' @ [10, 0] @ codes ''ASDFGHJKL:'' @ [34, 126, 0, 124]
     @ codes ''ZXCVBNM<>?'' @ [0] @ codes ''*'' @ [0] @ codes '' '' @ replicate 70 0"

text \<open>The two halves of the key-state tables, and the union that \<^verbatim>\<open>GetKeyState\<close> reads.\<close>

definition mark_normal :: "u8 \<Rightarrow> u8 \<Rightarrow> keyboard \<Rightarrow> keyboard" where
  "mark_normal key v k =
     (let k = k\<lparr>keyStatesNormal := (keyStatesNormal k)[unat key := v]\<rparr> in
      k\<lparr>keyStates := (keyStates k)[unat key := if keyStatesNormal k ! unat key \<noteq> 0 \<or> keyStatesExt k ! unat key \<noteq> 0 then 1 else 0]\<rparr>)"

definition mark_ext :: "u8 \<Rightarrow> u8 \<Rightarrow> keyboard \<Rightarrow> keyboard" where
  "mark_ext key v k =
     (let k = k\<lparr>keyStatesExt := (keyStatesExt k)[unat key := v]\<rparr> in
      k\<lparr>keyStates := (keyStates k)[unat key := if keyStatesNormal k ! unat key \<noteq> 0 \<or> keyStatesExt k ! unat key \<noteq> 0 then 1 else 0]\<rparr>)"

text \<open>The character of a key under the modifiers; 0 for none.\<close>

definition key_character :: "u8 \<Rightarrow> keyboard \<Rightarrow> u8" where
  "key_character key k =
     (let character = normalKeyMap ! unat key; shiftPressed = leftShiftPressed k \<or> rightShiftPressed k in
      if of_char (CHR ''a'') \<le> character \<and> character \<le> of_char (CHR ''z'')
      then if shiftPressed \<noteq> capsLockActive k then shiftKeyMap ! unat key else character
      else if shiftPressed then shiftKeyMap ! unat key else character)"

definition handle_extended :: "u8 \<Rightarrow> keyboard \<Rightarrow> key_event list \<times> keyboard" where
  "handle_extended key k =
     (let k = k\<lparr>isExtendedScancode := False\<rparr>;
          k = (if key < 0x80 then mark_ext key 1 k
               else let releaseScancode = key AND 0x7F in if releaseScancode < 128 then mark_ext releaseScancode 0 k else k);
          k = (if key = 0x1D then k\<lparr>rightCtrlPressed := True\<rparr>
               else if key = 0x38 then k\<lparr>rightAltPressed := True\<rparr>
               else if key = 0x9D then k\<lparr>rightCtrlPressed := False\<rparr>
               else if key = 0xB8 then k\<lparr>rightAltPressed := False\<rparr>
               else k) in
      (if \<not> eventHandler k then []
       else if key \<in> set [0x1D, 0x38, 0x48, 0x50, 0x4B, 0x4D, 0x53] then [OnSpecialKeyDown key]
       else if key \<in> set [0x9D, 0xB8, 0xC8, 0xD0, 0xCB, 0xCD, 0xD3] then [OnSpecialKeyUp key]
       else [], k))"

definition handle_press :: "u8 \<Rightarrow> keyboard \<Rightarrow> key_event list \<times> keyboard" where
  "handle_press key k =
     (let k = mark_normal key 1 k;
          k = (if key = 0x2A then k\<lparr>leftShiftPressed := True\<rparr>
               else if key = 0x36 then k\<lparr>rightShiftPressed := True\<rparr>
               else if key = 0x1D then k\<lparr>leftCtrlPressed := True\<rparr>
               else if key = 0x38 then k\<lparr>leftAltPressed := True\<rparr>
               else if key = 0x3A then k\<lparr>capsLockActive := \<not> capsLockActive k\<rparr>
               else k) in
      if \<not> eventHandler k then ([], k)
      else if key = 0x1C then ([OnSpecialKeyDown key], QueueInputChar 10 k)
      else if key = 0x0F then ([OnSpecialKeyDown key], QueueInputChar 9 k)
      else if key = 0x0E then ([OnSpecialKeyDown key], QueueInputChar 8 k)
      else if key \<in> set [0x2A, 0x36, 0x1D, 0x38, 0x3A, 0x01, 0x3B, 0x3C, 0x3D, 0x3E, 0x3F, 0x40, 0x41, 0x42, 0x43, 0x44, 0x57, 0x58]
      then ([OnSpecialKeyDown key], k)
      else let character = key_character key k in
        if character \<noteq> 0 then ([OnKeyDown character], QueueInputChar character k) else ([], k))"

definition handle_release :: "u8 \<Rightarrow> keyboard \<Rightarrow> key_event list \<times> keyboard" where
  "handle_release key k =
     (let releaseScancode = key AND 0x7F;
          k = (if releaseScancode < 128 then mark_normal releaseScancode 0 k else k);
          k = (if key = 0xAA then k\<lparr>leftShiftPressed := False\<rparr>
               else if key = 0xB6 then k\<lparr>rightShiftPressed := False\<rparr>
               else if key = 0x9D then k\<lparr>leftCtrlPressed := False\<rparr>
               else if key = 0xB8 then k\<lparr>leftAltPressed := False\<rparr>
               else k) in
      (if eventHandler k \<and> key \<in> set [0x9C, 0xAA, 0xB6, 0x9D, 0xB8, 0x8F, 0x8E, 0x81, 0xBB, 0xBC, 0xBD, 0xBE, 0xBF, 0xC0, 0xC1,
          0xC2, 0xC3, 0xC4, 0xD7, 0xD8]
       then [OnSpecialKeyUp key] else [], k))"

text \<open>\<open>key\<close> is the byte that the interrupt reads from the data port.\<close>

definition HandleInterrupt :: "u8 \<Rightarrow> keyboard \<Rightarrow> key_event list \<times> keyboard" where
  "HandleInterrupt key k =
     (if key = 0xE0 then ([], k\<lparr>isExtendedScancode := True\<rparr>)
      else if isExtendedScancode k then handle_extended key k
      else if key < 0x80 then handle_press key k
      else handle_release key k)"

fun key_stream :: "u8 list \<Rightarrow> keyboard \<Rightarrow> key_event list \<times> keyboard" where
  "key_stream [] k = ([], k)"
| "key_stream (b # bs) k =
     (case HandleInterrupt b k of (es, k) \<Rightarrow> case key_stream bs k of (es', k) \<Rightarrow> (es @ es', k))"

subsection \<open>Start-up\<close>

definition Activate :: "'d io \<Rightarrow> keyboard \<Rightarrow> 'd \<Rightarrow> (keyboard \<times> 'd) option" where
  "Activate io k d =
     (case flush_output io d of
        None \<Rightarrow> None
      | Some d \<Rightarrow>
          let d = wr io commandPort 0x20 (wr io commandPort 0xAE d) in
          Some (case WaitForOutputBufferFull io d of
              (False, d) \<Rightarrow> (k\<lparr>is_Active := False\<rparr>, d)
            | (True, d) \<Rightarrow>
                (case rd io dataPort d of (b, d) \<Rightarrow>
                   let status = (b OR 1) AND NOT 0x10;
                       d = wr io dataPort 0xF4 (wr io dataPort status (wr io commandPort 0x60 d)) in
                   case WaitForKBACK io 3 d of (ok, d) \<Rightarrow> (k\<lparr>is_Active := ok\<rparr>, d))))"

subsection \<open>The queue keeps the latest characters\<close>

text \<open>The characters in the ring, oldest first.\<close>

definition pending :: "keyboard \<Rightarrow> u8 list" where
  "pending k = map (\<lambda>i. inputQueue k ! ((unat (inputTail k) + i) mod 256)) [0..<(unat (inputHead k) + 256 - unat (inputTail k)) mod 256]"

definition ring_ok :: "keyboard \<Rightarrow> bool" where
  "ring_ok k \<longleftrightarrow> length (inputQueue k) = 256 \<and> unat (inputHead k) < 256 \<and> unat (inputTail k) < 256"

lemma unat_step: "unat (w :: u16) < 256 \<Longrightarrow> unat ((w + 1) mod INPUT_QUEUE_SIZE) = (unat w + 1) mod 256"
  by (simp add: unat_mod unat_word_ariths)

lemma pending_length: "length (pending k) = (unat (inputHead k) + 256 - unat (inputTail k)) mod 256"
  by (simp add: pending_def)

lemma pending_empty: "ring_ok k \<Longrightarrow> pending k = [] \<longleftrightarrow> inputHead k = inputTail k"
proof -
  assume "ring_ok k"
  then have h: "unat (inputHead k) < 256" "unat (inputTail k) < 256" by (simp_all add: ring_ok_def)
  then have "(unat (inputHead k) + 256 - unat (inputTail k)) mod 256 = 0 \<longleftrightarrow> unat (inputHead k) = unat (inputTail k)"
    by (auto simp: mod_if)
  then show ?thesis using pending_length [of k] by (simp add: word_unat_eq_iff flip: length_0_conv)
qed

lemma PopInputChar_spec:
  assumes ok: "ring_ok k"
  shows "ring_ok (snd (PopInputChar k)) \<and> (case pending k of [] \<Rightarrow> PopInputChar k = (None, k)
    | c # cs \<Rightarrow> fst (PopInputChar k) = Some c \<and> pending (snd (PopInputChar k)) = cs)"
proof (cases "pending k")
  case Nil
  then show ?thesis using ok pending_empty [OF ok] by (simp add: PopInputChar_def)
next
  case (Cons c cs)
  define n where "n = (unat (inputHead k) + 256 - unat (inputTail k)) mod 256"
  have ne: "inputHead k \<noteq> inputTail k" using Cons pending_empty [OF ok] by auto
  have h: "unat (inputHead k) < 256" "unat (inputTail k) < 256" using ok by (simp_all add: ring_ok_def)
  have n: "n = Suc (length cs)" using Cons pending_length [of k] by (simp add: n_def)
  have t': "unat ((inputTail k + 1) mod INPUT_QUEUE_SIZE) = (unat (inputTail k) + 1) mod 256" by (rule unat_step [OF h(2)])
  have n': "(unat (inputHead k) + 256 - (unat (inputTail k) + 1) mod 256) mod 256 = length cs"
    using n h unfolding n_def by (auto simp: mod_if split: if_splits)
  have p: "pending k = map (\<lambda>i. inputQueue k ! ((unat (inputTail k) + i) mod 256)) (0 # map Suc [0..<length cs])"
    unfolding pending_def n_def [symmetric] n by (simp add: upt_conv_Cons map_Suc_upt del: upt_Suc)
  have "pending (k\<lparr>inputTail := (inputTail k + 1) mod INPUT_QUEUE_SIZE\<rparr>) = map (\<lambda>i. inputQueue k ! ((unat (inputTail k) + Suc i) mod 256)) [0..<length cs]"
    unfolding pending_def using n' t' by (simp add: mod_add_left_eq)
  then show ?thesis using Cons p ne h t' ok by (auto simp: PopInputChar_def ring_ok_def comp_def)
qed

lemma QueueInputChar_spec:
  assumes ok: "ring_ok k"
  shows "ring_ok (QueueInputChar c k) \<and> pending (QueueInputChar c k) = (if length (pending k) = 255 then tl (pending k) else pending k) @ [c]"
proof -
  define h where "h = unat (inputHead k)"
  define t where "t = unat (inputTail k)"
  define n where "n = (h + 256 - t) mod 256"
  have b: "h < 256" "t < 256" and q: "length (inputQueue k) = 256" using ok by (simp_all add: ring_ok_def h_def t_def)
  have len: "length (pending k) = n" by (simp add: pending_length n_def h_def t_def)
  have hs: "unat ((inputHead k + 1) mod INPUT_QUEUE_SIZE) = (h + 1) mod 256" unfolding h_def by (rule unat_step) (use b h_def in simp)
  have ts: "unat ((inputTail k + 1) mod INPUT_QUEUE_SIZE) = (t + 1) mod 256" unfolding t_def by (rule unat_step) (use b t_def in simp)
  have full: "(inputHead k + 1) mod INPUT_QUEUE_SIZE = inputTail k \<longleftrightarrow> n = 255"
    unfolding word_unat_eq_iff hs t_def [symmetric] n_def using b by (auto simp: mod_if split: if_splits)
  have at: "(t + i) mod 256 = h \<longleftrightarrow> i = n" if "i < 256" for i
    using b that unfolding n_def by (auto simp: mod_if split: if_splits)
  have idx: "(inputQueue k)[h := c] ! ((t + i) mod 256) = (if i = n then c else inputQueue k ! ((t + i) mod 256))" if "i < 256" for i
    using at [OF that] b q by (auto simp: nth_list_update)
  have n: "n < 256" by (simp add: n_def)
  have whole: "map (\<lambda>i. (inputQueue k)[h := c] ! ((t + i) mod 256)) [0..<Suc n] = pending k @ [c]"
    unfolding pending_def h_def [symmetric] t_def [symmetric] n_def [symmetric] using idx n by simp
  show ?thesis
  proof (cases "n = 255")
    case False
    then have "((h + 1) mod 256 + 256 - t) mod 256 = Suc n" using b n unfolding n_def by (auto simp: mod_if split: if_splits)
    then have "pending (QueueInputChar c k) = map (\<lambda>i. (inputQueue k)[h := c] ! ((t + i) mod 256)) [0..<Suc n]"
      using False full hs by (simp add: pending_def QueueInputChar_def Let_def h_def t_def)
    then show ?thesis using whole False len full hs b q by (simp add: QueueInputChar_def ring_ok_def Let_def h_def t_def)
  next
    case True
    then have m: "((h + 1) mod 256 + 256 - (t + 1) mod 256) mod 256 = 255" using b unfolding n_def by (auto simp: mod_if split: if_splits)
    have "pending (QueueInputChar c k) = map (\<lambda>i. (inputQueue k)[h := c] ! ((t + Suc i) mod 256)) [0..<255]"
      using True full hs ts m by (simp add: pending_def QueueInputChar_def Let_def h_def t_def mod_add_left_eq)
    also have "\<dots> = tl (map (\<lambda>i. (inputQueue k)[h := c] ! ((t + i) mod 256)) (0 # map Suc [0..<255]))" by simp
    also have "0 # map Suc [0..<255] = [0..<Suc n]" using True by (simp add: map_Suc_upt upt_conv_Cons del: upt_Suc)
    finally have "pending (QueueInputChar c k) = tl (pending k @ [c])" using whole by simp
    moreover have "pending k \<noteq> []" using len True by auto
    ultimately show ?thesis using True len full hs ts b q by (simp add: QueueInputChar_def ring_ok_def Let_def h_def t_def)
  qed
qed

fun pop_n :: "('s \<Rightarrow> 'a option \<times> 's) \<Rightarrow> nat \<Rightarrow> 's \<Rightarrow> 'a list \<times> 's" where
  "pop_n pop 0 s = ([], s)"
| "pop_n pop (Suc n) s =
     (case pop s of (None, s) \<Rightarrow> ([], s) | (Some c, s) \<Rightarrow> case pop_n pop n s of (cs, s) \<Rightarrow> (c # cs, s))"

text \<open>A queue of bounded size that gives up its oldest element when it is full.\<close>

locale bounded_queue =
  fixes ok :: "'s \<Rightarrow> bool" and items :: "'s \<Rightarrow> 'a list" and push :: "'a \<Rightarrow> 's \<Rightarrow> 's" and pop :: "'s \<Rightarrow> 'a option \<times> 's" and cap :: nat
  assumes push_ok: "ok s \<Longrightarrow> ok (push c s)"
    and push_items: "ok s \<Longrightarrow> items (push c s) = (if length (items s) = cap then tl (items s) else items s) @ [c]"
    and pop_ok: "ok s \<Longrightarrow> ok (snd (pop s))"
    and pop_items: "ok s \<Longrightarrow> (case items s of [] \<Rightarrow> pop s = (None, s) | c # cs \<Rightarrow> fst (pop s) = Some c \<and> items (snd (pop s)) = cs)"
    and bounded: "ok s \<Longrightarrow> length (items s) \<le> cap"
begin

lemma fold_push:
  assumes "ok s"
  shows "ok (fold push cs s) \<and> items (fold push cs s) = drop (length (items s) + length cs - cap) (items s @ cs)"
  using assms
proof (induction cs arbitrary: s)
  case Nil
  then show ?case using bounded [OF Nil] by simp
next
  case (Cons c cs)
  note i = push_items [OF Cons.prems, of c]
  have "items (fold push cs (push c s)) = drop (length (items (push c s)) + length cs - cap) (items (push c s) @ cs)"
    using Cons.IH [OF push_ok [OF Cons.prems]] by blast
  also have "\<dots> = drop (length (items s) + length (c # cs) - cap) (items s @ c # cs)"
  proof (cases "length (items s) = cap")
    case True
    show ?thesis
    proof (cases "items s")
      case Nil
      then show ?thesis using True i by simp
    next
      case (Cons x xs)
      then show ?thesis using True i by simp
    qed
  next
    case False
    then show ?thesis using i by simp
  qed
  finally show ?case using Cons.IH [OF push_ok [OF Cons.prems]] by simp
qed

text \<open>\<open>n\<close> pops return the first \<open>n\<close> elements.\<close>

lemma pops: "ok s \<Longrightarrow> n \<le> length (items s) \<Longrightarrow> fst (pop_n pop n s) = take n (items s) \<and> items (snd (pop_n pop n s)) = drop n (items s)"
proof (induction n arbitrary: s)
  case (Suc n)
  obtain c cs where c: "items s = c # cs" using Suc.prems by (cases "items s") auto
  obtain s' where p: "pop s = (Some c, s')" "ok s'" "items s' = cs"
    using pop_items [OF Suc.prems(1)] pop_ok [OF Suc.prems(1)] c by (cases "pop s") auto
  then show ?case using Suc.IH [OF p(2)] Suc.prems c by (auto split: prod.splits)
qed simp

end

interpretation kq: bounded_queue ring_ok pending QueueInputChar PopInputChar 255
proof
  fix s :: keyboard and c
  assume ok: "ring_ok s"
  show "ring_ok (QueueInputChar c s)" "pending (QueueInputChar c s) = (if length (pending s) = 255 then tl (pending s) else pending s) @ [c]"
    using QueueInputChar_spec [OF ok, of c] by blast+
  show "ring_ok (snd (PopInputChar s))" "case pending s of [] \<Rightarrow> PopInputChar s = (None, s)
      | c # cs \<Rightarrow> fst (PopInputChar s) = Some c \<and> pending (snd (PopInputChar s)) = cs"
    using PopInputChar_spec [OF ok] by blast+
  have "length (pending s) < 256" by (simp add: pending_length)
  then show "length (pending s) \<le> 255" by simp
qed

text \<open>
  Property C20. The keyboard's ring buffer is a queue of the latest characters: after typing \<open>cs\<close> it holds
  the last 255 of what it held followed by \<open>cs\<close>, whatever the positions of head and tail, and
  \<^verbatim>\<open>PopInputChar\<close> returns them in the order in which they were typed.
\<close>

theorem keyboard_queue_latest:
  assumes "ring_ok k" "k' = fold QueueInputChar cs k"
  shows "pending k' = drop (length (pending k) + length cs - 255) (pending k @ cs)
    \<and> fst (pop_n PopInputChar (length (pending k')) k') = pending k'"
  using kq.fold_push [OF assms(1), of cs] kq.pops [of k' "length (pending k')"] by (simp add: assms(2))

theorem keyboard_queue_latest_witness:
  "fst (pop_n PopInputChar 2 (QueueInputChar 98 (QueueInputChar 97 (KeyboardDriver True)))) = [97, 98]"
proof -
  have r: "ring_ok (KeyboardDriver True)" by (simp add: ring_ok_def KeyboardDriver_def)
  have e: "pending (KeyboardDriver True) = []" by (simp add: pending_def KeyboardDriver_def)
  let ?k = "fold QueueInputChar [97, 98] (KeyboardDriver True)"
  note w = keyboard_queue_latest [OF r refl, of "[97, 98]"]
  have p: "pending ?k = [97, 98]" using conjunct1 [OF w] by (simp add: e)
  have "fst (pop_n PopInputChar (length [97 :: u8, 98]) ?k) = [97, 98]" using conjunct2 [OF w] unfolding p .
  then show ?thesis by (simp add: numeral_2_eq_2 del: pop_n.simps)
qed

subsection \<open>Keys and modifiers\<close>

definition kb_inv :: "keyboard \<Rightarrow> bool" where
  "kb_inv k \<longleftrightarrow> length (keyStates k) = 128 \<and> length (keyStatesNormal k) = 128 \<and> length (keyStatesExt k) = 128 \<and> ring_ok k
    \<and> (\<forall>i < 128. keyStates k ! i = (if keyStatesNormal k ! i \<noteq> 0 \<or> keyStatesExt k ! i \<noteq> 0 then 1 else 0))
    \<and> (leftShiftPressed k \<longleftrightarrow> keyStatesNormal k ! 0x2A \<noteq> 0) \<and> (rightShiftPressed k \<longleftrightarrow> keyStatesNormal k ! 0x36 \<noteq> 0)
    \<and> (leftCtrlPressed k \<longleftrightarrow> keyStatesNormal k ! 0x1D \<noteq> 0) \<and> (leftAltPressed k \<longleftrightarrow> keyStatesNormal k ! 0x38 \<noteq> 0)
    \<and> (rightCtrlPressed k \<longleftrightarrow> keyStatesExt k ! 0x1D \<noteq> 0) \<and> (rightAltPressed k \<longleftrightarrow> keyStatesExt k ! 0x38 \<noteq> 0)"

lemma KeyboardDriver_inv: "kb_inv (KeyboardDriver b)"
  by (simp add: kb_inv_def KeyboardDriver_def ring_ok_def)

lemma release_code: "unat (key AND 0x7F :: u8) = unat key mod 128"
proof -
  have "key AND 0x7F = take_bit 7 key" by (simp add: take_bit_eq_mask mask_eq_exp_minus_1)
  then show ?thesis by (simp add: take_bit_eq_mod unat_mod)
qed

lemma release_key_iff:
  assumes "\<not> key < (0x80 :: u8)"
  shows "key = 0xAA \<longleftrightarrow> unat (key AND 0x7F) = 0x2A" "key = 0xB6 \<longleftrightarrow> unat (key AND 0x7F) = 0x36"
    "key = 0x9D \<longleftrightarrow> unat (key AND 0x7F) = 0x1D" "key = 0xB8 \<longleftrightarrow> unat (key AND 0x7F) = 0x38"
proof -
  have k: "128 \<le> unat key" "unat key < 256" using assms unsigned_less [of key, where ?'a = nat] by (simp_all add: word_less_nat_alt)
  then have "unat (key AND 0x7F) = unat key - 128" by (simp add: release_code mod_if)
  with k show "key = 0xAA \<longleftrightarrow> unat (key AND 0x7F) = 0x2A" "key = 0xB6 \<longleftrightarrow> unat (key AND 0x7F) = 0x36"
    "key = 0x9D \<longleftrightarrow> unat (key AND 0x7F) = 0x1D" "key = 0xB8 \<longleftrightarrow> unat (key AND 0x7F) = 0x38"
    by (auto simp: word_unat_eq_iff)
qed

lemma press_key_iff: "(key :: u8) = 0x2A \<longleftrightarrow> unat key = 0x2A" "key = 0x36 \<longleftrightarrow> unat key = 0x36" "key = 0x1D \<longleftrightarrow> unat key = 0x1D" "key = 0x38 \<longleftrightarrow> unat key = 0x38"
  by (simp_all add: word_unat_eq_iff)

lemma kb_inv_queue: "kb_inv k \<Longrightarrow> kb_inv (QueueInputChar c k)"
  using QueueInputChar_spec [of k c] by (simp add: kb_inv_def) (simp add: QueueInputChar_def Let_def)

lemma mark_normal_fields:
  "length (keyStatesNormal (mark_normal c v k)) = length (keyStatesNormal k)" "length (keyStates (mark_normal c v k)) = length (keyStates k)"
  "keyStatesExt (mark_normal c v k) = keyStatesExt k" "ring_ok (mark_normal c v k) = ring_ok k"
  "keyStatesNormal (mark_normal c v k) = (keyStatesNormal k)[unat c := v]"
  "leftShiftPressed (mark_normal c v k) = leftShiftPressed k" "rightShiftPressed (mark_normal c v k) = rightShiftPressed k"
  "leftCtrlPressed (mark_normal c v k) = leftCtrlPressed k" "rightCtrlPressed (mark_normal c v k) = rightCtrlPressed k"
  "leftAltPressed (mark_normal c v k) = leftAltPressed k" "rightAltPressed (mark_normal c v k) = rightAltPressed k"
  "capsLockActive (mark_normal c v k) = capsLockActive k" "eventHandler (mark_normal c v k) = eventHandler k"
  by (simp_all add: mark_normal_def Let_def ring_ok_def)

lemma mark_ext_fields:
  "length (keyStatesExt (mark_ext c v k)) = length (keyStatesExt k)" "length (keyStates (mark_ext c v k)) = length (keyStates k)"
  "keyStatesNormal (mark_ext c v k) = keyStatesNormal k" "ring_ok (mark_ext c v k) = ring_ok k"
  "keyStatesExt (mark_ext c v k) = (keyStatesExt k)[unat c := v]"
  "leftShiftPressed (mark_ext c v k) = leftShiftPressed k" "rightShiftPressed (mark_ext c v k) = rightShiftPressed k"
  "leftCtrlPressed (mark_ext c v k) = leftCtrlPressed k" "rightCtrlPressed (mark_ext c v k) = rightCtrlPressed k"
  "leftAltPressed (mark_ext c v k) = leftAltPressed k" "rightAltPressed (mark_ext c v k) = rightAltPressed k"
  by (simp_all add: mark_ext_def Let_def ring_ok_def)

lemma mark_union:
  assumes "\<forall>i < 128. keyStates k ! i = (if keyStatesNormal k ! i \<noteq> 0 \<or> keyStatesExt k ! i \<noteq> 0 then 1 else 0)" "unat c < 128"
    "length (keyStates k) = 128" "length (keyStatesNormal k) = 128" "length (keyStatesExt k) = 128" "i < 128"
  shows "keyStates (mark_normal c v k) ! i = (if (keyStatesNormal k)[unat c := v] ! i \<noteq> 0 \<or> keyStatesExt k ! i \<noteq> 0 then 1 else 0)"
    and "keyStates (mark_ext c v k) ! i = (if keyStatesNormal k ! i \<noteq> 0 \<or> (keyStatesExt k)[unat c := v] ! i \<noteq> 0 then 1 else 0)"
  using assms by (cases "i = unat c"; simp add: mark_normal_def mark_ext_def Let_def)+

text \<open>A key and the flag of its modifier move together.\<close>

lemma handle_press_inv:
  assumes inv: "kb_inv k" and key: "key < 0x80"
  shows "kb_inv (snd (handle_press key k))"
proof -
  have c: "unat key < 128" using key by (simp add: word_less_nat_alt)
  define k1 where "k1 = mark_normal key 1 k"
  define k2 where "k2 = (if key = 0x2A then k1\<lparr>leftShiftPressed := True\<rparr> else if key = 0x36 then k1\<lparr>rightShiftPressed := True\<rparr>
    else if key = 0x1D then k1\<lparr>leftCtrlPressed := True\<rparr> else if key = 0x38 then k1\<lparr>leftAltPressed := True\<rparr>
    else if key = 0x3A then k1\<lparr>capsLockActive := \<not> capsLockActive k1\<rparr> else k1)"
  have u: "keyStates k2 = keyStates k1" "keyStatesNormal k2 = keyStatesNormal k1" "keyStatesExt k2 = keyStatesExt k1" "ring_ok k2 = ring_ok k1"
    by (simp_all add: k2_def ring_ok_def)
  have "kb_inv k2" unfolding kb_inv_def u
    using inv c press_key_iff [of key] unfolding k2_def k1_def kb_inv_def
    by (auto simp: mark_normal_fields mark_union nth_list_update)
  moreover have "kb_inv (QueueInputChar x k2)" for x by (rule kb_inv_queue) fact
  ultimately show ?thesis unfolding handle_press_def k1_def [symmetric] k2_def [symmetric] Let_def by simp
qed

lemma handle_release_inv:
  assumes inv: "kb_inv k" and key: "\<not> key < 0x80"
  shows "kb_inv (snd (handle_release key k))"
proof -
  have c: "unat (key AND 0x7F) < 128" "key AND 0x7F < 128" by (simp_all add: word_less_nat_alt release_code)
  define k1 where "k1 = mark_normal (key AND 0x7F) 0 k"
  define k2 where "k2 = (if key = 0xAA then k1\<lparr>leftShiftPressed := False\<rparr> else if key = 0xB6 then k1\<lparr>rightShiftPressed := False\<rparr>
    else if key = 0x9D then k1\<lparr>leftCtrlPressed := False\<rparr> else if key = 0xB8 then k1\<lparr>leftAltPressed := False\<rparr> else k1)"
  have u: "keyStates k2 = keyStates k1" "keyStatesNormal k2 = keyStatesNormal k1" "keyStatesExt k2 = keyStatesExt k1" "ring_ok k2 = ring_ok k1"
    by (simp_all add: k2_def ring_ok_def)
  have "kb_inv k2" unfolding kb_inv_def u
    using inv c(1) unfolding k2_def k1_def kb_inv_def release_key_iff [OF key]
    by (auto simp: mark_normal_fields mark_union nth_list_update)
  moreover have "snd (handle_release key k) = k2"
    unfolding handle_release_def Let_def k1_def k2_def by (simp only: c(2) if_True snd_conv)
  ultimately show ?thesis by simp
qed

lemma handle_extended_inv:
  assumes inv: "kb_inv k"
  shows "kb_inv (snd (handle_extended key k))"
proof -
  define c where "c = (if key < 0x80 then key else key AND 0x7F)"
  define v :: u8 where "v = (if key < 0x80 then 1 else 0)"
  have r: "unat (key AND 0x7F) < 128" "key AND 0x7F < 128" by (simp_all add: word_less_nat_alt release_code)
  have c: "unat c < 128" using r by (simp add: c_def word_less_nat_alt)
  define k0 where "k0 = k\<lparr>isExtendedScancode := False\<rparr>"
  have i0: "kb_inv k0" using inv by (simp add: k0_def kb_inv_def ring_ok_def)
  define k1 where "k1 = mark_ext c v k0"
  define k2 where "k2 = (if key = 0x1D then k1\<lparr>rightCtrlPressed := True\<rparr> else if key = 0x38 then k1\<lparr>rightAltPressed := True\<rparr>
    else if key = 0x9D then k1\<lparr>rightCtrlPressed := False\<rparr> else if key = 0xB8 then k1\<lparr>rightAltPressed := False\<rparr> else k1)"
  have u: "keyStates k2 = keyStates k1" "keyStatesNormal k2 = keyStatesNormal k1" "keyStatesExt k2 = keyStatesExt k1" "ring_ok k2 = ring_ok k1"
    "leftShiftPressed k2 = leftShiftPressed k1" "rightShiftPressed k2 = rightShiftPressed k1" "leftCtrlPressed k2 = leftCtrlPressed k1" "leftAltPressed k2 = leftAltPressed k1"
    by (simp_all add: k2_def ring_ok_def)
  have m: "rightCtrlPressed k2 = (if unat c = 0x1D then v \<noteq> 0 else rightCtrlPressed k1)" "rightAltPressed k2 = (if unat c = 0x38 then v \<noteq> 0 else rightAltPressed k1)"
    using press_key_iff(3,4) [of key] release_key_iff(3,4) [of key] unfolding k2_def c_def v_def by (auto simp: word_less_nat_alt)
  have "kb_inv k2" unfolding kb_inv_def u m
    using i0 c unfolding k1_def kb_inv_def by (auto simp: mark_ext_fields mark_union nth_list_update)
  moreover have "snd (handle_extended key k) = k2"
    using r(2) by (auto simp: handle_extended_def Let_def k2_def k1_def k0_def c_def v_def)
  ultimately show ?thesis by simp
qed

lemma HandleInterrupt_inv: "kb_inv k \<Longrightarrow> kb_inv (snd (HandleInterrupt key k))"
proof -
  assume k: "kb_inv k"
  then have "kb_inv (k\<lparr>isExtendedScancode := True\<rparr>)" by (simp add: kb_inv_def ring_ok_def)
  then show ?thesis using handle_press_inv [OF k] handle_release_inv [OF k] handle_extended_inv [OF k] by (simp add: HandleInterrupt_def)
qed

lemma not_in_if:
  "x \<notin> set a \<Longrightarrow> x \<notin> set b \<Longrightarrow> x \<notin> set (if P then a else b)"
  "x \<notin> set (fst u) \<Longrightarrow> x \<notin> set (fst v) \<Longrightarrow> x \<notin> set (fst (if P then u else v))"
  by simp_all

lemma no_key_up: "OnKeyUp c \<notin> set (fst (HandleInterrupt key k))"
proof -
  have "OnKeyUp c \<notin> set (fst (handle_extended key k))" unfolding handle_extended_def Let_def fst_conv by (intro not_in_if; simp)
  moreover have "OnKeyUp c \<notin> set (fst (handle_press key k))" unfolding handle_press_def Let_def by (intro not_in_if; simp)
  moreover have "OnKeyUp c \<notin> set (fst (handle_release key k))" unfolding handle_release_def Let_def fst_conv by (intro not_in_if; simp)
  ultimately show ?thesis by (simp add: HandleInterrupt_def)
qed

lemma key_stream_no_up: "OnKeyUp c \<notin> set (fst (key_stream bs k))"
proof (induction bs arbitrary: k)
  case (Cons b bs)
  obtain es k1 where h: "HandleInterrupt b k = (es, k1)" by fastforce
  obtain es' k2 where r: "key_stream bs k1 = (es', k2)" by fastforce
  show ?case using Cons.IH [of k1] no_key_up [of c b k] by (simp add: h r)
qed simp

text \<open>
  The keys a stream of scan codes leaves down, from the scan codes alone: a code below 0x80 presses a key, the code plus 0x80
  releases it, and 0xE0 says that the next byte is one of the second set of keys.
\<close>

fun keys_down :: "bool \<Rightarrow> u8 list \<Rightarrow> (bool \<times> nat) set \<Rightarrow> (bool \<times> nat) set" where
  "keys_down e [] S = S"
| "keys_down e (b # bs) S =
     (if b = 0xE0 then keys_down True bs S
      else keys_down False bs (if b < 0x80 then insert (e, unat b) S else S - {(e, unat b - 128)}))"

definition tables_show :: "keyboard \<Rightarrow> (bool \<times> nat) set \<Rightarrow> bool" where
  "tables_show k S \<longleftrightarrow> (\<forall>i < 128. (keyStatesNormal k ! i \<noteq> 0 \<longleftrightarrow> (False, i) \<in> S) \<and> (keyStatesExt k ! i \<noteq> 0 \<longleftrightarrow> (True, i) \<in> S))"

lemma QueueInputChar_keys:
  "keyStatesNormal (QueueInputChar c k) = keyStatesNormal k" "keyStatesExt (QueueInputChar c k) = keyStatesExt k"
  "isExtendedScancode (QueueInputChar c k) = isExtendedScancode k"
  by (simp_all add: QueueInputChar_def Let_def)

lemma mark_extended_flag: "isExtendedScancode (mark_normal c v k) = isExtendedScancode k" "isExtendedScancode (mark_ext c v k) = isExtendedScancode k"
  by (simp_all add: mark_normal_def mark_ext_def Let_def)

lemma press_keys:
  "keyStatesNormal (snd (handle_press key k)) = (keyStatesNormal k)[unat key := 1] \<and> keyStatesExt (snd (handle_press key k)) = keyStatesExt k \<and>
   isExtendedScancode (snd (handle_press key k)) = isExtendedScancode k"
  unfolding handle_press_def Let_def by (simp add: QueueInputChar_keys mark_normal_fields mark_extended_flag)

lemma release_keys:
  "keyStatesNormal (snd (handle_release key k)) = (keyStatesNormal k)[unat key mod 128 := 0] \<and> keyStatesExt (snd (handle_release key k)) = keyStatesExt k \<and>
   isExtendedScancode (snd (handle_release key k)) = isExtendedScancode k"
  unfolding handle_release_def Let_def by (simp add: mark_normal_fields mark_extended_flag release_code word_less_nat_alt)

lemma extended_keys:
  "keyStatesNormal (snd (handle_extended key k)) = keyStatesNormal k \<and>
   keyStatesExt (snd (handle_extended key k)) = (keyStatesExt k)[unat key mod 128 := (if key < 0x80 then 1 else 0)] \<and>
   \<not> isExtendedScancode (snd (handle_extended key k))"
  unfolding handle_extended_def Let_def by (simp add: mark_ext_fields mark_extended_flag release_code word_less_nat_alt)

lemma key_stream_keys:
  "kb_inv k \<Longrightarrow> tables_show k S \<Longrightarrow> isExtendedScancode k = e \<Longrightarrow>
    kb_inv (snd (key_stream bs k)) \<and> tables_show (snd (key_stream bs k)) (keys_down e bs S)"
proof (induction bs arbitrary: k S e)
  case (Cons b bs)
  obtain es k1 where h: "HandleInterrupt b k = (es, k1)" by fastforce
  obtain es' k2 where r: "key_stream bs k1 = (es', k2)" by fastforce
  have st: "key_stream (b # bs) k = (es @ es', k2)" by (simp add: h r)
  have inv: "kb_inv k1" using HandleInterrupt_inv [OF Cons.prems(1), of b] by (simp add: h)
  have len: "length (keyStatesNormal k) = 128" "length (keyStatesExt k) = 128" using Cons.prems(1) by (simp_all add: kb_inv_def)
  show ?case
  proof (cases "b = 0xE0")
    case True
    then have k1: "k1 = k\<lparr>isExtendedScancode := True\<rparr>" using h by (simp add: HandleInterrupt_def)
    then have "tables_show k1 S" "isExtendedScancode k1" using Cons.prems(2) by (simp_all add: tables_show_def)
    then show ?thesis using Cons.IH [OF inv, of S True] True unfolding st r by simp
  next
    case False
    let ?S = "if b < 0x80 then insert (e, unat b) S else S - {(e, unat b - 128)}"
    have code: "unat b mod 128 = (if b < 0x80 then unat b else unat b - 128)"
    proof -
      have "unat b < 256" using unsigned_less [of b, where ?'a = nat] by simp
      then show ?thesis by (auto simp: word_less_nat_alt mod_if)
    qed
    have ix: "b < 0x80 \<longrightarrow> unat b < 128" "unat b - 128 < 128"
      using unsigned_less [of b, where ?'a = nat] by (simp_all add: word_less_nat_alt)
    have "tables_show k1 ?S \<and> isExtendedScancode k1 = False"
    proof (cases e)
      case True
      then have "k1 = snd (handle_extended b k)" using h False Cons.prems(3) by (simp add: HandleInterrupt_def)
      then show ?thesis using extended_keys [of b k] Cons.prems(2) True len ix unfolding tables_show_def
        by (auto simp: nth_list_update code)
    next
      case nx: False
      show ?thesis
      proof (cases "b < 0x80")
        case True
        then have "k1 = snd (handle_press b k)" using h False nx Cons.prems(3) by (simp add: HandleInterrupt_def)
        then show ?thesis using press_keys [of b k] Cons.prems(2,3) True nx len ix unfolding tables_show_def by (auto simp: nth_list_update)
      next
        case up: False
        then have "k1 = snd (handle_release b k)" using h False nx Cons.prems(3) by (simp add: HandleInterrupt_def)
        then show ?thesis using release_keys [of b k] Cons.prems(2,3) up nx len code ix unfolding tables_show_def by (auto simp: nth_list_update)
      qed
    qed
    then show ?thesis using Cons.IH [OF inv, of ?S False] False unfolding st r by simp
  qed
qed simp

text \<open>
  Property C39. Whatever bytes the keyboard sends, \<^verbatim>\<open>GetKeyState\<close> reports a key as pressed exactly when the scan codes so far leave it, or
  its twin of the second set, down, and each modifier flag is set exactly when its key is down: the left and right Shift, Ctrl
  and Alt keys are never confused and no flag sticks.
\<close>

theorem keyboard_state_consistent:
  "let k = snd (key_stream bs (KeyboardDriver h)); down = keys_down False bs {} in
    (GetKeyState i k = 1 \<longleftrightarrow> i < 128 \<and> ((False, unat i) \<in> down \<or> (True, unat i) \<in> down)) \<and>
    (leftShiftPressed k \<longleftrightarrow> (False, 0x2A) \<in> down) \<and> (rightShiftPressed k \<longleftrightarrow> (False, 0x36) \<in> down) \<and>
    (leftCtrlPressed k \<longleftrightarrow> (False, 0x1D) \<in> down) \<and> (rightCtrlPressed k \<longleftrightarrow> (True, 0x1D) \<in> down) \<and>
    (leftAltPressed k \<longleftrightarrow> (False, 0x38) \<in> down) \<and> (rightAltPressed k \<longleftrightarrow> (True, 0x38) \<in> down)"
proof -
  let ?k = "snd (key_stream bs (KeyboardDriver h))" and ?D = "keys_down False bs {}"
  have "tables_show (KeyboardDriver h) {}" "isExtendedScancode (KeyboardDriver h) = False" by (simp_all add: tables_show_def KeyboardDriver_def)
  from key_stream_keys [OF KeyboardDriver_inv this, of bs] have s: "kb_inv ?k" and t: "tables_show ?k ?D" by simp_all
  have tab: "keyStatesNormal ?k ! n \<noteq> 0 \<longleftrightarrow> (False, n) \<in> ?D" "keyStatesExt ?k ! n \<noteq> 0 \<longleftrightarrow> (True, n) \<in> ?D" if "n < 128" for n
    using t that by (simp_all add: tables_show_def)
  have "GetKeyState i ?k = 1 \<longleftrightarrow> i < 128 \<and> ((False, unat i) \<in> ?D \<or> (True, unat i) \<in> ?D)"
  proof (cases "i < 128")
    case True
    then have "unat i < 128" by (simp add: word_less_nat_alt)
    then show ?thesis using s True tab [of "unat i"] by (auto simp: GetKeyState_def kb_inv_def)
  qed (simp add: GetKeyState_def)
  then show ?thesis using s tab [of "0x2A"] tab [of "0x36"] tab [of "0x1D"] tab [of "0x38"] by (simp add: Let_def kb_inv_def)
qed

end
