(* ===== verification/Mouse.thy ===== *)
theory Mouse
  imports Ps2_Ports
begin

text \<open>
  The mouse driver, \<^verbatim>\<open>core/drivers/mouse.cpp\<close>: the packet decoder of the interrupt handler, the
  accumulated movement, and the start-up with its probe for a wheel. Calls of the event handler are
  emitted events; signed values are words of their width.
\<close>

subsection \<open>State\<close>

datatype mouse_event = OnMouseMove s32 s32 | OnMouseDown u8 | OnMouseUp u8 | OnMouseWheel s32

record mouse =
  buffer :: "u8 list"
  offset :: u8
  buttons :: u8
  hasWheel :: bool
  accumDX :: s32
  accumDY :: s32
  eventHandler :: bool
  is_Active :: bool

text \<open>The constructor leaves \<^verbatim>\<open>buffer\<close> as it is; \<open>junk\<close> is what the memory held.\<close>

definition MouseDriver :: "u8 list \<Rightarrow> bool \<Rightarrow> mouse" where
  "MouseDriver junk handler = \<lparr>buffer = junk, offset = 0, buttons = 0, hasWheel = False, accumDX = 0, accumDY = 0,
     eventHandler = handler, is_Active = False\<rparr>"

definition GetMouseDelta :: "mouse \<Rightarrow> (s32 \<times> s32) \<times> mouse" where
  "GetMouseDelta m = ((accumDX m, accumDY m), m\<lparr>accumDX := 0, accumDY := 0\<rparr>)"

definition GetButtons :: "mouse \<Rightarrow> u8" where
  "GetButtons m = buttons m"

subsection \<open>Packets\<close>

text \<open>The transitions of the three buttons, in the order of the loop.\<close>

fun button_events :: "u8 \<Rightarrow> u8 \<Rightarrow> nat list \<Rightarrow> mouse_event list" where
  "button_events old new [] = []"
| "button_events old new (i # is) =
     (if (new AND push_bit i 1) \<noteq> (old AND push_bit i 1)
      then (if old AND push_bit i 1 \<noteq> 0 then OnMouseUp (of_nat i + 1) else OnMouseDown (of_nat i + 1)) # button_events old new is
      else button_events old new is)"

definition packet_delta :: "u8 \<Rightarrow> u8 \<Rightarrow> u8 \<Rightarrow> s32 \<times> s32" where
  "packet_delta b0 b1 b2 =
     (if b0 AND 0x40 \<noteq> 0 then 0 else scast b1, if b0 AND 0x80 \<noteq> 0 then 0 else - scast b2)"

definition wheel_delta :: "u8 \<Rightarrow> s32" where
  "wheel_delta b3 = scast (signed_drop_bit 4 (push_bit 4 b3))"

definition finish_packet :: "mouse \<Rightarrow> mouse_event list \<times> mouse" where
  "finish_packet m =
     (let b = buffer m;
          (es1, m) = (if b ! 1 \<noteq> 0 \<or> b ! 2 \<noteq> 0
            then case packet_delta (b ! 0) (b ! 1) (b ! 2) of
              (dx, dy) \<Rightarrow> ([OnMouseMove dx dy], m\<lparr>accumDX := accumDX m + dx, accumDY := accumDY m + dy\<rparr>)
            else ([], m));
          btn_state = b ! 0 AND 7;
          es2 = button_events (buttons m) btn_state [0..<3];
          m = m\<lparr>buttons := btn_state\<rparr>;
          es3 = (if hasWheel m \<and> wheel_delta (b ! 3) \<noteq> 0 then [OnMouseWheel (wheel_delta (b ! 3))] else []) in
      (es1 @ es2 @ es3, m))"

text \<open>\<open>status\<close> and \<open>data\<close> are the bytes that the interrupt reads from the two ports.\<close>

definition HandleInterrupt :: "u8 \<Rightarrow> u8 \<Rightarrow> mouse \<Rightarrow> mouse_event list \<times> mouse" where
  "HandleInterrupt status data m =
     (if status AND 0x21 \<noteq> 0x21 then ([], m)
      else if \<not> eventHandler m then ([], m)
      else if offset m = 0 \<and> data AND 8 = 0 then ([], m)
      else
        let packetSize = (if hasWheel m then 4 else 3);
            m = m\<lparr>buffer := (buffer m)[unat (offset m) := data], offset := (offset m + 1) mod packetSize\<rparr> in
        if offset m = 0 then finish_packet m else ([], m))"

fun mouse_stream :: "u8 list \<Rightarrow> mouse \<Rightarrow> mouse_event list \<times> mouse" where
  "mouse_stream [] m = ([], m)"
| "mouse_stream (b # bs) m =
     (case HandleInterrupt 0x21 b m of (es, m) \<Rightarrow> case mouse_stream bs m of (es', m) \<Rightarrow> (es @ es', m))"

subsection \<open>Start-up\<close>

definition sendMouseByte :: "'d io \<Rightarrow> u8 \<Rightarrow> 'd \<Rightarrow> bool \<times> 'd" where
  "sendMouseByte io v d =
     (case WaitForInputBufferClear io d of (False, d) \<Rightarrow> (False, d) | (True, d) \<Rightarrow>
      case WaitForInputBufferClear io (wr io commandPort 0xD4 d) of (False, d) \<Rightarrow> (False, d) | (True, d) \<Rightarrow>
      case WaitForOutputBufferFull io (wr io dataPort v d) of (False, d) \<Rightarrow> (False, d) | (True, d) \<Rightarrow>
      (True, snd (rd io dataPort d)))"

definition setSampleRate :: "'d io \<Rightarrow> u8 \<Rightarrow> 'd \<Rightarrow> bool \<times> 'd" where
  "setSampleRate io rate d =
     (case sendMouseByte io 0xF3 d of (False, d) \<Rightarrow> (False, d) | (True, d) \<Rightarrow> sendMouseByte io rate d)"

text \<open>The probe for the wheel: the three sample rates, then the device id.\<close>

definition probe_wheel :: "'d io \<Rightarrow> 'd \<Rightarrow> bool \<times> 'd" where
  "probe_wheel io d =
     (case setSampleRate io 200 d of (False, d) \<Rightarrow> (False, d) | (True, d) \<Rightarrow>
      case setSampleRate io 100 d of (False, d) \<Rightarrow> (False, d) | (True, d) \<Rightarrow>
      case setSampleRate io 80 d of (False, d) \<Rightarrow> (False, d) | (True, d) \<Rightarrow>
      case sendMouseByte io 0xF2 d of (False, d) \<Rightarrow> (False, d) | (True, d) \<Rightarrow>
      case WaitForOutputBufferFull io d of (False, d) \<Rightarrow> (False, d) | (True, d) \<Rightarrow>
      case rd io dataPort d of (deviceId, d) \<Rightarrow> (deviceId = 3 \<or> deviceId = 4, d))"

definition Activate :: "'d io \<Rightarrow> mouse \<Rightarrow> 'd \<Rightarrow> mouse \<times> 'd" where
  "Activate io m d =
     (case WaitForInputBufferClear io d of (False, d) \<Rightarrow> (m\<lparr>is_Active := False\<rparr>, d) | (True, d) \<Rightarrow>
      case WaitForInputBufferClear io (wr io commandPort 0xA8 d) of (False, d) \<Rightarrow> (m\<lparr>is_Active := False\<rparr>, d) | (True, d) \<Rightarrow>
      case WaitForOutputBufferFull io (wr io commandPort 0x20 d) of (False, d) \<Rightarrow> (m\<lparr>is_Active := False\<rparr>, d) | (True, d) \<Rightarrow>
      case rd io dataPort d of (b, d) \<Rightarrow>
      case WaitForInputBufferClear io d of (False, d) \<Rightarrow> (m\<lparr>is_Active := False\<rparr>, d) | (True, d) \<Rightarrow>
      case WaitForInputBufferClear io (wr io commandPort 0x60 d) of (False, d) \<Rightarrow> (m\<lparr>is_Active := False\<rparr>, d) | (True, d) \<Rightarrow>
      case probe_wheel io (wr io dataPort (b OR 2) d) of (w, d) \<Rightarrow>
      case sendMouseByte io 0xF4 d of (ok, d) \<Rightarrow> (m\<lparr>hasWheel := w, is_Active := ok\<rparr>, d))"

subsection \<open>What a mouse sends, and what the handler hears\<close>

text \<open>
  A PS/2 packet: movements are 9-bit two's complement numbers whose sign bits are in the first byte,
  the wheel is a 4-bit one.
\<close>

record packet =
  px :: int
  py :: int
  pbtn :: u8
  pz :: int

definition encode :: "bool \<Rightarrow> packet \<Rightarrow> u8 list" where
  "encode w p = [0x08 OR pbtn p OR (if px p < 0 then 0x10 else 0) OR (if py p < 0 then 0x20 else 0), word_of_int (px p), word_of_int (py p)]
     @ (if w then [word_of_int (pz p)] else [])"

definition spec_buttons :: "u8 \<Rightarrow> u8 \<Rightarrow> mouse_event list" where
  "spec_buttons old new = concat (map (\<lambda>i. if bit new i = bit old i then []
     else if bit old i then [OnMouseUp (of_nat i + 1)] else [OnMouseDown (of_nat i + 1)]) [0..<3])"

definition spec_packet :: "bool \<Rightarrow> u8 \<Rightarrow> packet \<Rightarrow> mouse_event list" where
  "spec_packet w old p = (if px p \<noteq> 0 \<or> py p \<noteq> 0 then [OnMouseMove (word_of_int (px p)) (- word_of_int (py p))] else [])
     @ spec_buttons old (pbtn p) @ (if w \<and> pz p \<noteq> 0 then [OnMouseWheel (word_of_int (pz p))] else [])"

fun spec_stream :: "bool \<Rightarrow> u8 \<Rightarrow> packet list \<Rightarrow> mouse_event list" where
  "spec_stream w old [] = []"
| "spec_stream w old (p # ps) = spec_packet w old p @ spec_stream w (pbtn p) ps"

definition small_packet :: "packet \<Rightarrow> bool" where
  "small_packet p \<longleftrightarrow> -128 \<le> px p \<and> px p < 128 \<and> -128 \<le> py p \<and> py p < 128 \<and> pbtn p < 8 \<and> -8 \<le> pz p \<and> pz p < 8"

lemma sbyte: "- 128 \<le> x \<Longrightarrow> x < 128 \<Longrightarrow> scast (word_of_int x :: u8) = (word_of_int x :: s32)"
  by (simp add: signed_of_int signed_take_bit_int_eq_self)

lemma byte_zero: "- 128 \<le> x \<Longrightarrow> x < 128 \<Longrightarrow> (word_of_int x :: u8) = 0 \<longleftrightarrow> x = 0"
  by (auto simp: word_of_int_eq_0_iff dvd_def)

lemma wheel_table: "\<forall>z \<in> set [-8..7]. wheel_delta (word_of_int z) = (word_of_int z :: s32)"
  by code_simp

lemma wheel_delta_exact: "- 8 \<le> z \<Longrightarrow> z < 8 \<Longrightarrow> wheel_delta (word_of_int z) = word_of_int z"
proof -
  assume "- 8 \<le> z" "z < 8"
  then have "z \<in> set [-8..7]" unfolding set_upto by simp
  with wheel_table show ?thesis by blast
qed

lemma first_byte_table:
  "\<forall>b \<in> set [0, 1, 2, 3, 4, 5, 6, 7 :: u8]. \<forall>s \<in> set [0, 0x10]. \<forall>t \<in> set [0, 0x20].
     (let c = 0x08 OR b OR s OR t in c AND 8 \<noteq> 0 \<and> c AND 7 = b \<and> c AND 0x40 = 0 \<and> c AND 0x80 = 0)"
  by code_simp

lemma less_8: "(b :: u8) < 8 \<Longrightarrow> b \<in> set [0, 1, 2, 3, 4, 5, 6, 7]"
proof -
  assume "b < 8"
  then have "unat b < 8" by (simp add: word_less_nat_alt)
  then have "unat b \<in> {0, 1, 2, 3, 4, 5, 6, 7}" by auto
  then show ?thesis by (auto simp: word_unat_eq_iff)
qed

lemma first_byte:
  fixes b :: u8 and P Q :: bool
  assumes "b < 8"
  defines "c \<equiv> 0x08 OR b OR (if P then 0x10 else 0) OR (if Q then 0x20 else 0)"
  shows "c AND 8 \<noteq> 0" "c AND 7 = b" "c AND 0x40 = 0" "c AND 0x80 = 0"
  using first_byte_table less_8 [OF assms(1)] unfolding c_def Let_def by (auto split: if_splits)

lemma button_table:
  "\<forall>a \<in> set [0, 1, 2, 3, 4, 5, 6, 7 :: u8]. \<forall>b \<in> set [0, 1, 2, 3, 4, 5, 6, 7]. button_events a b [0..<3] = spec_buttons a b"
  by code_simp

lemma button_events_spec: "a < 8 \<Longrightarrow> b < 8 \<Longrightarrow> button_events a b [0..<3] = spec_buttons a b"
  using button_table less_8 by blast

text \<open>The bytes of one packet, fed to a decoder that stands at the start of a packet.\<close>

definition ready :: "mouse \<Rightarrow> bool" where
  "ready m \<longleftrightarrow> eventHandler m \<and> offset m = 0 \<and> length (buffer m) = 4 \<and> buttons m < 8"

lemma finish_small:
  assumes p: "small_packet p" and b: "buffer m ! 0 = 0x08 OR pbtn p OR (if px p < 0 then 0x10 else 0) OR (if py p < 0 then 0x20 else 0)"
    "buffer m ! 1 = word_of_int (px p)" "buffer m ! 2 = word_of_int (py p)" "hasWheel m \<Longrightarrow> buffer m ! 3 = word_of_int (pz p)" and o8: "buttons m < 8"
  shows "finish_packet m = (spec_packet (hasWheel m) (buttons m) p,
    m\<lparr>accumDX := accumDX m + word_of_int (px p), accumDY := accumDY m - word_of_int (py p), buttons := pbtn p\<rparr>)"
proof -
  have r: "- 128 \<le> px p" "px p < 128" "- 128 \<le> py p" "py p < 128" "pbtn p < 8" "- 8 \<le> pz p" "pz p < 8" using p by (simp_all add: small_packet_def)
  note f = first_byte [OF r(5), of "px p < 0" "py p < 0", folded b(1)]
  have d: "packet_delta (buffer m ! 0) (buffer m ! 1) (buffer m ! 2) = (word_of_int (px p), - word_of_int (py p))"
    unfolding packet_delta_def b(2,3) using f(3,4) by (simp add: sbyte r)
  have z: "buffer m ! 1 = 0 \<longleftrightarrow> px p = 0" "buffer m ! 2 = 0 \<longleftrightarrow> py p = 0" unfolding b(2,3) by (simp_all add: byte_zero r)
  have w: "(hasWheel m \<and> wheel_delta (buffer m ! 3) \<noteq> 0) \<longleftrightarrow> (hasWheel m \<and> pz p \<noteq> 0)" "hasWheel m \<Longrightarrow> wheel_delta (buffer m ! 3) = word_of_int (pz p)"
    using b(4) wheel_delta_exact [OF r(6,7)] r(6,7) by (auto simp: word_of_int_eq_0_iff dvd_def)
  show ?thesis unfolding finish_packet_def Let_def spec_packet_def button_events_spec [OF o8 r(5), symmetric] f(2)
    using d z w by (auto split: if_splits)
qed

lemma offset_steps:
  "(1 :: u8) mod 3 = 1" "(2 :: u8) mod 3 = 2" "(3 :: u8) mod 3 = 0" "(1 :: u8) mod 4 = 1" "(2 :: u8) mod 4 = 2" "(3 :: u8) mod 4 = 3" "(4 :: u8) mod 4 = 0"
  by code_simp+

lemma HandleInterrupt_byte:
  assumes "eventHandler m" "offset m \<noteq> 0 \<or> b AND 8 \<noteq> 0"
  shows "HandleInterrupt 0x21 b m =
    (let m = m\<lparr>buffer := (buffer m)[unat (offset m) := b], offset := (offset m + 1) mod (if hasWheel m then 4 else 3)\<rparr> in
     if offset m = 0 then finish_packet m else ([], m))"
  using assms by (auto simp: HandleInterrupt_def Let_def)

lemma packet_decoded:
  assumes m: "ready m" and p: "small_packet p"
  shows "\<exists>m'. mouse_stream (encode (hasWheel m) p) m = (spec_packet (hasWheel m) (buttons m) p, m') \<and> ready m' \<and> hasWheel m' = hasWheel m
    \<and> buttons m' = pbtn p \<and> accumDX m' = accumDX m + word_of_int (px p) \<and> accumDY m' = accumDY m - word_of_int (py p)"
proof -
  define b0 where "b0 = 0x08 OR pbtn p OR (if px p < 0 then 0x10 else 0) OR (if py p < 0 then 0x20 else 0)"
  have bt: "pbtn p < 8" using p by (simp add: small_packet_def)
  have c: "b0 AND 8 \<noteq> 0" unfolding b0_def by (rule first_byte(1) [OF bt])
  have r: "eventHandler m" "offset m = 0" "length (buffer m) = 4" "buttons m < 8" using m by (simp_all add: ready_def)
  obtain x0 x1 x2 x3 where bf: "buffer m = [x0, x1, x2, x3]" using r(3) by (auto simp: numeral_eq_Suc length_Suc_conv)
  define m3 where "m3 = m\<lparr>buffer := [b0, word_of_int (px p), word_of_int (py p), if hasWheel m then word_of_int (pz p) else x3], offset := 0\<rparr>"
  have fin: "finish_packet m3 = (spec_packet (hasWheel m) (buttons m) p,
      m3\<lparr>accumDX := accumDX m + word_of_int (px p), accumDY := accumDY m - word_of_int (py p), buttons := pbtn p\<rparr>)"
    using finish_small [OF p, of m3] r(4) by (simp add: m3_def b0_def)
  have "mouse_stream (encode (hasWheel m) p) m = finish_packet m3"
    using r c bf by (cases "hasWheel m")
      (simp_all add: encode_def b0_def [symmetric] HandleInterrupt_byte Let_def offset_steps m3_def split: prod.splits)
  then show ?thesis using fin r bt by (auto simp: ready_def m3_def)
qed

lemma mouse_stream_append: "mouse_stream (xs @ ys) m =
    (case mouse_stream xs m of (es, m) \<Rightarrow> case mouse_stream ys m of (es', m) \<Rightarrow> (es @ es', m))"
  by (induction xs arbitrary: m) (auto split: prod.splits)

lemma junk_dropped: "offset m = 0 \<Longrightarrow> \<forall>b \<in> set junk. b AND 8 = 0 \<Longrightarrow> mouse_stream junk m = ([], m)"
  by (induction junk) (simp_all add: HandleInterrupt_def)

lemma packets_decoded:
  assumes "ready m" "\<forall>p \<in> set ps. small_packet p"
  shows "\<exists>m'. mouse_stream (concat (map (encode (hasWheel m)) ps)) m = (spec_stream (hasWheel m) (buttons m) ps, m') \<and> ready m'
    \<and> buttons m' = (if ps = [] then buttons m else pbtn (last ps))
    \<and> accumDX m' = accumDX m + word_of_int (sum_list (map px ps)) \<and> accumDY m' = accumDY m - word_of_int (sum_list (map py ps))"
  using assms
proof (induction ps arbitrary: m)
  case (Cons p ps)
  obtain m1 where m1: "mouse_stream (encode (hasWheel m) p) m = (spec_packet (hasWheel m) (buttons m) p, m1)" "ready m1" "hasWheel m1 = hasWheel m"
    "buttons m1 = pbtn p" "accumDX m1 = accumDX m + word_of_int (px p)" "accumDY m1 = accumDY m - word_of_int (py p)"
    using packet_decoded [of m p] Cons.prems by auto
  obtain m' where "mouse_stream (concat (map (encode (hasWheel m1)) ps)) m1 = (spec_stream (hasWheel m1) (buttons m1) ps, m')" "ready m'"
    "buttons m' = (if ps = [] then buttons m1 else pbtn (last ps))"
    "accumDX m' = accumDX m1 + word_of_int (sum_list (map px ps))" "accumDY m' = accumDY m1 - word_of_int (sum_list (map py ps))"
    using Cons.IH [OF m1(2)] Cons.prems by auto
  then show ?case using m1 by (auto simp: mouse_stream_append algebra_simps)
qed simp

text \<open>
  Property C21. The decoder inverts the packet encoding: bytes that cannot start a packet are dropped, and
  a sequence of packets with movements from -128 to 127 is reported as exactly these movements (the
  vertical one turned down), button transitions and wheel steps, in order; the accumulated deltas are
  their sums.
\<close>

theorem mouse_roundtrip:
  assumes "eventHandler m" "offset m = 0" "length (buffer m) = 4" "buttons m < 8"
    "\<forall>p \<in> set ps. small_packet p" "\<forall>b \<in> set junk. b AND 8 = 0"
  shows "\<exists>m'. mouse_stream (junk @ concat (map (encode (hasWheel m)) ps)) m = (spec_stream (hasWheel m) (buttons m) ps, m')
    \<and> offset m' = 0 \<and> buttons m' = (if ps = [] then buttons m else pbtn (last ps))
    \<and> accumDX m' = accumDX m + word_of_int (sum_list (map px ps)) \<and> accumDY m' = accumDY m - word_of_int (sum_list (map py ps))"
  using packets_decoded [of m ps] assms by (auto simp: mouse_stream_append junk_dropped ready_def)

theorem mouse_roundtrip_witness:
  "\<exists>m'. mouse_stream [0x00, 0x29, 0x05, 0xFE] (MouseDriver (replicate 4 0) True) = ([OnMouseMove 5 2, OnMouseDown 1], m') \<and> accumDY m' = 2"
proof -
  let ?p = "\<lparr>px = 5, py = -2, pbtn = 1, pz = 0\<rparr>" and ?m = "MouseDriver (replicate 4 0) True"
  have e: "encode False ?p = [0x29, 0x05, 0xFE]" by code_simp
  have s: "spec_stream False 0 [?p] = [OnMouseMove 5 2, OnMouseDown 1]" by code_simp
  have m: "eventHandler ?m" "offset ?m = 0" "length (buffer ?m) = 4" "buttons ?m = 0" "hasWheel ?m = False" "accumDY ?m = 0"
    by (simp_all add: MouseDriver_def)
  have ps: "\<forall>p \<in> set [?p]. small_packet p" "\<forall>b \<in> set [0 :: u8]. b AND 8 = 0" "buttons ?m < 8" by (simp_all add: small_packet_def m)
  obtain m' where "mouse_stream ([0] @ concat (map (encode (hasWheel ?m)) [?p])) ?m = (spec_stream (hasWheel ?m) (buttons ?m) [?p], m')"
    "accumDY m' = accumDY ?m - word_of_int (sum_list (map py [?p]))"
    using mouse_roundtrip [OF m(1-3) ps(3,1,2)] by blast
  then show ?thesis unfolding m s by (intro exI [of _ m']) (simp add: e del: mouse_stream.simps)
qed

text \<open>
  The sign bits of the first byte are ignored: a movement by 128 to 255 is reported as one in the
  opposite direction, 256 less.
\<close>

lemma mouse_large_moves_wrap:
  assumes "128 \<le> x" "x < 256"
  shows "fst (packet_delta (0x08 OR b) (word_of_int x) y) = (if b AND 0x40 \<noteq> 0 then 0 else word_of_int (x - 256))"
proof -
  have "(word_of_int x :: u8) = word_of_int (x - 256)" by (simp add: word_of_int_eq_iff take_bit_eq_mod)
  then have "scast (word_of_int x :: u8) = (word_of_int (x - 256) :: s32)"
    using sbyte [of "x - 256"] assms by (simp only:)
  moreover have "(0x08 OR b) AND 0x40 = b AND 0x40" by (simp add: bit.conj_disj_distrib2)
  ultimately show ?thesis by (simp add: packet_delta_def)
qed

end
