(* ===== verification/Syscalls.thy ===== *)
theory Syscalls
  imports User_Memory Keyboard Mouse "HOL-Library.Signed_Division"
begin

text \<open>
  The system calls, \<^verbatim>\<open>core/syscalls.cpp\<close>: the handlers and the dispatcher, over one record of the kernel's state that joins
  the scheduler, the file layer, the input drivers and the few globals of the file. What the handlers only call is a
  parameter, the record \<open>services\<close>: the FatFs functions, the kernel heap (an address, 0 when it is exhausted;
  \<open>kmalloc n\<close> says whether \<open>n\<close> bytes can be had) and the desktop. Interrupts are masked, so a call is one
  step. A result \<open>None\<close> is a call that never returns. The scheduler object exists before any call is made. Log messages
  are left out.
\<close>

subsection \<open>State\<close>

record ('v, 'f, 'd, 'g) services =
  fat :: "('v, 'f, 'd) fatfs_api"
  newPcb :: "sched \<Rightarrow> u32"
  newTcb :: "sched \<Rightarrow> u32"
  newFil :: "('v, 'f, 'd) fsys \<Rightarrow> u32"
  newArgs :: "(u32 \<rightharpoonup> u8 list list) \<Rightarrow> u32"
  kmalloc :: "u32 \<Rightarrow> bool"
  hasDesktop :: "'g \<Rightarrow> bool"
  hasHgui :: "'g \<Rightarrow> bool"
  desktopRemoveApp :: "u32 \<Rightarrow> 'g \<Rightarrow> 'g"
  hguiRemoveApp :: "u32 \<Rightarrow> 'g \<Rightarrow> 'g"
  MarkDirty :: "'g \<Rightarrow> 'g"
  createNewHandler :: "u32 \<Rightarrow> u32 \<Rightarrow> 'g \<Rightarrow> 'g"

text \<open>
  \<open>mounted0\<close>: there is a partition table and its first partition has a file system, whose state is \<open>fsy\<close>.
  \<open>argBlocks\<close> are the strings of the \<^verbatim>\<open>ProgramArguments\<close> objects; \<open>screen\<close> is the graphics driver's back buffer, width
  and height.
\<close>

record ('v, 'f, 'd, 'g) kernel =
  sch :: sched
  fsy :: "('v, 'f, 'd) fsys"
  mounted0 :: bool
  argBlocks :: "u32 \<rightharpoonup> u8 list list"
  serial :: "u8 list"
  kbd :: "keyboard option"
  mse :: "mouse option"
  gui :: 'g
  screen :: "(u32 \<times> u32 \<times> u32) option"
  g_stop_gui_rendering :: bool
  g_gui_owner_pid :: s32
  g_fb_private_start_pd :: u32
  g_fb_private_end_pd :: u32
  g_fb_private_owner :: u32
  g_fb_private_valid :: bool

abbreviation mem :: "('v, 'f, 'd, 'g) kernel \<Rightarrow> memory" where "mem k \<equiv> vm_mem (vm (sch k))"
abbreviation cur :: "('v, 'f, 'd, 'g) kernel \<Rightarrow> u32" where "cur k \<equiv> GetCurrentProcess (sch k)"

definition set_vm :: "pmm_info vm \<Rightarrow> ('v, 'f, 'd, 'g) kernel \<Rightarrow> ('v, 'f, 'd, 'g) kernel" where
  "set_vm v k = k\<lparr>sch := (sch k)\<lparr>vm := v\<rparr>\<rparr>"

definition set_mem :: "memory \<Rightarrow> ('v, 'f, 'd, 'g) kernel \<Rightarrow> ('v, 'f, 'd, 'g) kernel" where
  "set_mem m k = set_vm ((vm (sch k))\<lparr>vm_mem := m\<rparr>) k"

definition set_proc :: "u32 \<Rightarrow> (pcb \<Rightarrow> pcb) \<Rightarrow> ('v, 'f, 'd, 'g) kernel \<Rightarrow> ('v, 'f, 'd, 'g) kernel" where
  "set_proc p f k = k\<lparr>sch := upd_proc p f (sch k)\<rparr>"

definition space_of :: "u32 \<Rightarrow> ('v, 'f, 'd, 'g) kernel \<Rightarrow> u32 option" where
  "space_of p k = (if p = null_ptr then None else Some (page_directory (proc (sch k) p)))"

definition fds_of :: "u32 \<Rightarrow> ('v, 'f, 'd, 'g) kernel \<Rightarrow> u32 list option" where
  "fds_of p k = (if p = null_ptr then None else Some (fdTable (proc (sch k) p)))"

definition to_user :: "u32 \<Rightarrow> u32 \<Rightarrow> u8 list \<Rightarrow> ('v, 'f, 'd, 'g) kernel \<Rightarrow> bool \<times> ('v, 'f, 'd, 'g) kernel" where
  "to_user p a bs k = (case CopyToUser (mem k) (space_of p k) a bs of (ok, m) \<Rightarrow> (ok, set_mem m k))"

definition from_user :: "u32 \<Rightarrow> u32 \<Rightarrow> u32 \<Rightarrow> ('v, 'f, 'd, 'g) kernel \<Rightarrow> u8 list option" where
  "from_user p a n k = CopyFromUser (mem k) (space_of p k) a n"

definition user_path :: "u32 \<Rightarrow> u32 \<Rightarrow> ('v, 'f, 'd, 'g) kernel \<Rightarrow> u8 list option" where
  "user_path p a k = CopyUserString (mem k) (page_directory (proc (sch k) p)) a 256"

text \<open>The bytes of a word in memory.\<close>

definition bytes32 :: "u32 \<Rightarrow> u8 list" where
  "bytes32 w = [ucast w, ucast (drop_bit 8 w), ucast (drop_bit 16 w), ucast (drop_bit 24 w)]"

definition word32 :: "u8 list \<Rightarrow> u32" where
  "word32 bs = ucast (bs ! 0) OR push_bit 8 (ucast (bs ! 1)) OR push_bit 16 (ucast (bs ! 2)) OR push_bit 24 (ucast (bs ! 3))"

subsection \<open>Standard input\<close>

abbreviation STDIN_QUEUE_SIZE :: u16 where "STDIN_QUEUE_SIZE \<equiv> 256"

definition PushProcessStdin :: "u8 \<Rightarrow> pcb \<Rightarrow> pcb" where
  "PushProcessStdin c pc =
     (let nextHead = (stdinHead pc + 1) mod STDIN_QUEUE_SIZE;
          pc = (if nextHead = stdinTail pc then pc\<lparr>stdinTail := (stdinTail pc + 1) mod STDIN_QUEUE_SIZE\<rparr> else pc) in
      pc\<lparr>stdinQueue := (stdinQueue pc)[unat (stdinHead pc) := c], stdinHead := nextHead\<rparr>)"

definition PopProcessStdin :: "pcb \<Rightarrow> u8 option \<times> pcb" where
  "PopProcessStdin pc =
     (if stdinHead pc = stdinTail pc then (None, pc)
      else (Some (stdinQueue pc ! unat (stdinTail pc)), pc\<lparr>stdinTail := (stdinTail pc + 1) mod STDIN_QUEUE_SIZE\<rparr>))"

definition ClearProcessStdin :: "pcb \<Rightarrow> pcb" where
  "ClearProcessStdin pc = pc\<lparr>stdinHead := 0, stdinTail := 0\<rparr>"

text \<open>The reading loop of \<^verbatim>\<open>sys_read\<close> on descriptor 0, for \<^verbatim>\<open>limit - bytesRead\<close> more bytes; 10 is the newline.\<close>

fun read_stdin :: "nat \<Rightarrow> pcb \<Rightarrow> u8 list \<times> pcb" where
  "read_stdin 0 pc = ([], pc)"
| "read_stdin (Suc n) pc =
     (case PopProcessStdin pc of
        (None, pc) \<Rightarrow> ([], pc)
      | (Some c, pc) \<Rightarrow> if c = 10 then ([c], pc) else case read_stdin n pc of (rest, pc) \<Rightarrow> (c # rest, pc))"

subsection \<open>Leaving\<close>

definition CleanupExitedProcessGui :: "('v, 'f, 'd, 'g) services \<Rightarrow> u32 \<Rightarrow> ('v, 'f, 'd, 'g) kernel \<Rightarrow> ('v, 'f, 'd, 'g) kernel" where
  "CleanupExitedProcessGui sv pid k =
     (if pid = 0 then k
      else
        let k = (if hasDesktop sv (gui k) then k\<lparr>gui := desktopRemoveApp sv pid (gui k)\<rparr> else k);
            k = (if hasHgui sv (gui k) then k\<lparr>gui := hguiRemoveApp sv pid (gui k)\<rparr> else k) in
        if g_stop_gui_rendering k \<and> g_gui_owner_pid k = pid then
          let k = k\<lparr>g_stop_gui_rendering := False, g_gui_owner_pid := -1\<rparr> in
          if hasDesktop sv (gui k) then k\<lparr>gui := MarkDirty sv (gui k)\<rparr> else k
        else k)"

definition Handle_sys_exit :: "('v, 'f, 'd, 'g) services \<Rightarrow> ('v, 'f, 'd, 'g) kernel \<Rightarrow> s32 \<times> ('v, 'f, 'd, 'g) kernel" where
  "Handle_sys_exit sv k =
     (let p = cur k; pid = (if p = null_ptr then 0 else p_pid (proc (sch k) p)) in
      case ExitCurrentThread (sch k) of (processKilled, s) \<Rightarrow>
        let k = k\<lparr>sch := s\<rparr> in
        (0, if processKilled \<and> pid \<noteq> 0 then CleanupExitedProcessGui sv pid k else k))"

definition Handle_sys_exit_group :: "('v, 'f, 'd, 'g) services \<Rightarrow> ('v, 'f, 'd, 'g) kernel \<Rightarrow> s32 \<times> ('v, 'f, 'd, 'g) kernel" where
  "Handle_sys_exit_group sv k =
     (let p = cur k; pid = (if p = null_ptr then 0 else p_pid (proc (sch k) p)) in
      if pid = 0 then (-1, k)
      else case KillProcess pid (sch k) of (ok, s) \<Rightarrow>
        let k = k\<lparr>sch := s\<rparr> in
        if \<not> ok then (-1, k) else (0, CleanupExitedProcessGui sv pid k))"

subsection \<open>Files\<close>

definition Handle_sys_read ::
  "('v, 'f, 'd, 'g) services \<Rightarrow> u32 \<Rightarrow> u32 \<Rightarrow> u32 \<Rightarrow> ('v, 'f, 'd, 'g) kernel \<Rightarrow> (s32 \<times> ('v, 'f, 'd, 'g) kernel) option" where
  "Handle_sys_read sv fd buf cnt k =
     (let p = cur k in
      if buf = null_ptr then Some (-1, k)
      else if cnt = 0 then Some (0, k)
      else if p = null_ptr then Some (-1, k)
      else if buf < USER_LOWER_BOUND \<or> 0xFFFFFFFF - cnt + 1 < buf then Some (-1, k)
      else if USER_UPPER_BOUND \<le> buf + cnt - 1 \<or> \<not> IsUserRange (mem k) (space_of p k) buf cnt then Some (-1, k)
      else if fd = 0 then
        (case read_stdin (if 256 < unat cnt then 256 else unat cnt) (proc (sch k) p) of
           (kbuf, pc) \<Rightarrow>
             let k = set_proc p (\<lambda>_. pc) k in
             if kbuf = [] then Some (0, k)
             else case to_user p buf kbuf k of (ok, k) \<Rightarrow> Some (if ok then of_nat (length kbuf) else -1, k))
      else if fd \<le> 2 then Some (-1, k)
      else
        let file = GetFileByFd (fds_of p k) fd in
        if file = null_ptr then Some (-1, k)
        else if \<not> kmalloc sv cnt then Some (-1, k)
        else case Read (fat sv) file (Some (replicate (unat cnt) 0)) cnt (fsy k) of
          None \<Rightarrow> None
        | Some (bytesRead, kernelBuf, fs) \<Rightarrow>
            let k = k\<lparr>fsy := fs\<rparr> in
            if 0 < sint bytesRead then
              case to_user p buf (take (unat bytesRead) (the kernelBuf)) k of (ok, k) \<Rightarrow> Some (if ok then bytesRead else -1, k)
            else Some (bytesRead, k))"

text \<open>The loop that sends the user's bytes to the serial line, 256 at a time.\<close>

function write_serial :: "u32 \<Rightarrow> u32 \<Rightarrow> nat \<Rightarrow> ('v, 'f, 'd, 'g) kernel \<Rightarrow> bool \<times> ('v, 'f, 'd, 'g) kernel" where
  "write_serial p buf remaining k =
     (if remaining = 0 then (True, k)
      else
        let chunk = (if 256 < remaining then 256 else remaining) in
        case from_user p buf (of_nat chunk) k of
          None \<Rightarrow> (False, k)
        | Some kbuf \<Rightarrow> write_serial p (buf + of_nat chunk) (remaining - chunk) (k\<lparr>serial := serial k @ kbuf\<rparr>))"
  by pat_completeness auto
termination
  by (relation "measure (\<lambda>(_, _, n, _). n)") auto

declare write_serial.simps [simp del]

definition Handle_sys_write ::
  "('v, 'f, 'd, 'g) services \<Rightarrow> u32 \<Rightarrow> u32 \<Rightarrow> u32 \<Rightarrow> ('v, 'f, 'd, 'g) kernel \<Rightarrow> s32 \<times> ('v, 'f, 'd, 'g) kernel" where
  "Handle_sys_write sv fd buf cnt k =
     (if buf = null_ptr then (-1, k)
      else if cnt = 0 then (0, k)
      else if buf < USER_LOWER_BOUND \<or> 0xFFFFFFFF - cnt + 1 < buf then (-1, k)
      else if USER_UPPER_BOUND \<le> buf + cnt - 1 then (-1, k)
      else if fd = 1 \<or> fd = 2 then
        case write_serial (cur k) buf (unat cnt) k of (ok, k) \<Rightarrow> (if ok then cnt else -1, k)
      else if fd = 0 then (-1, k)
      else
        let p = cur k; file = GetFileByFd (fds_of p k) fd in
        if file = null_ptr then (-1, k)
        else if \<not> IsWritable (the (objs (fsy k) file)) then (-1, k)
        else if \<not> kmalloc sv cnt then (-1, k)
        else case from_user p buf cnt k of
          None \<Rightarrow> (-1, k)
        | Some kernelBuf \<Rightarrow>
            (case Write (fat sv) file (Some kernelBuf) (fsy k) of
               (written, fs) \<Rightarrow> (if sint written < 0 then -1 else written, k\<lparr>fsy := fs\<rparr>)))"

definition Handle_sys_open ::
  "('v, 'f, 'd, 'g) services \<Rightarrow> u32 \<Rightarrow> s32 \<Rightarrow> ('v, 'f, 'd, 'g) kernel \<Rightarrow> s32 \<times> ('v, 'f, 'd, 'g) kernel" where
  "Handle_sys_open sv path fl k =
     (if path = null_ptr then (-1, k)
      else if sint fl < 0 then (-1, k)
      else
        let acc = fl AND O_ACCMODE in
        if acc \<noteq> O_RDONLY \<and> acc \<noteq> O_WRONLY \<and> acc \<noteq> O_RDWR then (-1, k)
        else
          let p = cur k in
          case user_path p path k of
            None \<Rightarrow> (-1, k)
          | Some kpath \<Rightarrow>
              if \<not> mounted0 k then (-1, k)
              else case OpenWithFlags (fat sv) (newFil sv) (Some kpath) fl (fsy k) of
                (f, fs) \<Rightarrow>
                  let k = k\<lparr>fsy := fs\<rparr> in
                  if f = null_ptr then (-1, k)
                  else case AllocateFd (fds_of p k) f of
                    (fd, tab) \<Rightarrow>
                      if sint fd < 0 then (-1, k\<lparr>fsy := delete_File (fat sv) f (Close (fat sv) f (fsy k))\<rparr>)
                      else (fd, set_proc p (\<lambda>pc. pc\<lparr>fdTable := the tab\<rparr>) k))"

definition Handle_sys_close ::
  "('v, 'f, 'd, 'g) services \<Rightarrow> u32 \<Rightarrow> ('v, 'f, 'd, 'g) kernel \<Rightarrow> s32 \<times> ('v, 'f, 'd, 'g) kernel" where
  "Handle_sys_close sv fd k =
     (if fd \<le> 2 then (0, k)
      else
        let p = cur k; file = GetFileByFd (fds_of p k) fd in
        if file = null_ptr then (-1, k)
        else
          let k = k\<lparr>fsy := delete_File (fat sv) file (Close (fat sv) file (fsy k))\<rparr> in
          (0, set_proc p (\<lambda>pc. pc\<lparr>fdTable := the (ReleaseFd (fds_of p k) fd)\<rparr>) k))"

text \<open>The sum is formed in 64 bits, where it cannot overflow.\<close>

definition Handle_sys_lseek :: "u32 \<Rightarrow> s32 \<Rightarrow> s32 \<Rightarrow> ('v, 'f, 'd, 'g) kernel \<Rightarrow> s32 \<times> ('v, 'f, 'd, 'g) kernel" where
  "Handle_sys_lseek fd ofs whence k =
     (if fd \<le> 2 then (-1, k)
      else let p = cur k in
        if p = null_ptr then (-1, k)
        else let file = GetFileByFd (fds_of p k) fd; f = the (objs (fsy k) file) in
          if file = null_ptr then (-1, k)
          else if whence \<noteq> 0 \<and> whence \<noteq> 1 \<and> whence \<noteq> 2 then (-1, k)
          else
            let newPos = (if whence = 0 then sint ofs else if whence = 1 then uint (position f) + sint ofs else uint (fsize f) + sint ofs) in
            if newPos < 0 \<or> 0x7FFFFFFF < newPos then (-1, k)
            else (of_int newPos, k\<lparr>fsy := Seek file (of_int newPos) (fsy k)\<rparr>))"

subsection \<open>Programs\<close>

text \<open>One argument string, read byte by byte, and the argument vector: at most five strings, \<open>None\<close> on failure.\<close>

fun user_arg :: "u32 \<Rightarrow> u32 \<Rightarrow> nat \<Rightarrow> ('v, 'f, 'd, 'g) kernel \<Rightarrow> u8 list option" where
  "user_arg p a 0 k = Some []"
| "user_arg p a (Suc n) k =
     (case from_user p a 1 k of
        None \<Rightarrow> None
      | Some bs \<Rightarrow> if hd bs = 0 then Some [] else map_option (Cons (hd bs)) (user_arg p (a + 1) n k))"

fun user_args :: "('v, 'f, 'd, 'g) services \<Rightarrow> u32 \<Rightarrow> u32 \<Rightarrow> nat \<Rightarrow> ('v, 'f, 'd, 'g) kernel \<Rightarrow> u8 list list option" where
  "user_args sv p argv 0 k = Some []"
| "user_args sv p argv (Suc n) k =
     (case from_user p argv 4 k of
        None \<Rightarrow> None
      | Some bs \<Rightarrow>
          let userPtr = word32 bs in
          if userPtr = null_ptr then Some []
          else if \<not> kmalloc sv 512 then None
          else case user_arg p userPtr 511 k of
            None \<Rightarrow> None
          | Some arg \<Rightarrow> map_option (Cons arg) (user_args sv p (argv + 4) n k))"

text \<open>The directory part of the program's path, into the 256 bytes of the working directory.\<close>

definition exec_cwd :: "u8 list \<Rightarrow> u8 list \<Rightarrow> u8 list" where
  "exec_cwd kpath old =
     (let dirlen = length kpath - Suc (length (takeWhile (\<lambda>c. c \<noteq> 0x2F) (rev kpath))) in
      if 0x2F \<in> set kpath \<and> dirlen \<noteq> 0 then overwrite old 0 (take dirlen kpath @ [0]) else overwrite old 0 [0x2F, 0])"

definition attach_cli :: "u32 \<Rightarrow> u32 \<Rightarrow> sched \<Rightarrow> sched" where
  "attach_cli host child s =
     (let h = proc s host in
      if isCliHost h \<and> cliHostViewId h \<noteq> 0 \<and> appType (proc s child) = APP_BINARY_CLI
      then upd_proc child (\<lambda>pc. ClearProcessStdin (pc\<lparr>cliHostPid := p_pid h, cliAttachedViewId := cliHostViewId h, stdinAttached := True\<rparr>)) s
      else s)"

definition Handle_sys_execve ::
  "('v, 'f, 'd, 'g) services \<Rightarrow> u32 \<Rightarrow> u32 \<Rightarrow> ('v, 'f, 'd, 'g) kernel \<Rightarrow> (s32 \<times> ('v, 'f, 'd, 'g) kernel) option" where
  "Handle_sys_execve sv path argv k =
     (let p = cur k in
      if path = null_ptr \<or> p = null_ptr then Some (-1, k)
      else case user_path p path k of
        None \<Rightarrow> Some (-1, k)
      | Some kpath \<Rightarrow>
          if \<not> mounted0 k then Some (-1, k)
          else case Open (fat sv) (newFil sv) (Some kpath) (fsy k) of
            (f, fs) \<Rightarrow>
              let k = k\<lparr>fsy := fs\<rparr>; close = (\<lambda>fs. delete_File (fat sv) f (Close (fat sv) f fs)) in
              if f = null_ptr then Some (-1, k)
              else if fsize (the (objs fs f)) = 0 then Some (-1, k\<lparr>fsy := close fs\<rparr>)
              else
                let args = newArgs sv (argBlocks k) in
                if args = null_ptr then Some (-1, k\<lparr>fsy := close fs\<rparr>)
                else case (if argv = null_ptr then Some [] else user_args sv p argv 5 k) of
                  None \<Rightarrow> Some (-1, k\<lparr>fsy := close fs\<rparr>)
                | Some strs \<Rightarrow>
                    (case loadELF (fat sv) (newPcb sv) (newTcb sv) (kmalloc sv) f args fs (sch k) of
                       None \<Rightarrow> None
                     | Some (child, fs, s) \<Rightarrow>
                         let k = k\<lparr>fsy := close fs, sch := s\<rparr> in
                         if child = null_ptr then Some (-1, k)
                         else
                           let k = k\<lparr>argBlocks := (argBlocks k)(args \<mapsto> strs)\<rparr>;
                               s = upd_proc child (\<lambda>pc. pc\<lparr>programArgs := args, cwd := exec_cwd kpath (cwd pc)\<rparr>) s;
                               s = attach_cli p child s;
                               pid = p_pid (proc s child) in
                           (case StartProcess (newTcb sv) child args s of
                              (started, s) \<Rightarrow> Some (if started then pid else -1, k\<lparr>sch := s\<rparr>))))"

definition Handle_sys_clone ::
  "('v, 'f, 'd, 'g) services \<Rightarrow> u32 \<Rightarrow> u32 \<Rightarrow> u32 \<Rightarrow> u32 \<Rightarrow> u32 \<Rightarrow> ('v, 'f, 'd, 'g) kernel \<Rightarrow> s32 \<times> ('v, 'f, 'd, 'g) kernel" where
  "Handle_sys_clone sv parent_context clone_flags child_stack parent_tid child_tid k =
     (if parent_context = null_ptr then (-1, k)
      else case (if clone_flags AND 0x100 \<noteq> 0
                 then CloneCurrentThread (newTcb sv) parent_context clone_flags child_stack parent_tid child_tid (sch k)
                 else CloneCurrentProcess (newPcb sv) (newTcb sv) parent_context clone_flags child_stack parent_tid child_tid (sch k)) of
        (child, s) \<Rightarrow> (if child = null_ptr then -1 else tid (thread s child), k\<lparr>sch := s\<rparr>))"

subsection \<open>The heap of a process\<close>

fun brk_rollback :: "u32 \<Rightarrow> (u32 \<times> u32) list \<Rightarrow> pmm_info vm \<Rightarrow> pmm_info vm" where
  "brk_rollback pd [] v = v"
| "brk_rollback pd ((vaddr, phys) # brkFrames) v = brk_rollback pd brkFrames (free_frame phys (snd (MapPage v pd vaddr 0 0)))"

fun brk_pages :: "u32 \<Rightarrow> u32 \<Rightarrow> nat list \<Rightarrow> (u32 \<times> u32) list \<Rightarrow> pmm_info vm \<Rightarrow> bool \<times> pmm_info vm" where
  "brk_pages pd page_start [] brkFrames v = (True, v)"
| "brk_pages pd page_start (i # is) brkFrames v =
     (let addr = page_start + of_nat i * PAGE_SIZE in
      if GetPhysicalAddress (vm_mem v) pd addr \<noteq> NO_PAGE then brk_pages pd page_start is brkFrames v
      else case pmm_alloc_block_low (vm_frames v) LOW_LIMIT of
        (phys_frame, f) \<Rightarrow>
          if phys_frame = null_ptr then (False, brk_rollback pd brkFrames (v\<lparr>vm_frames := f\<rparr>))
          else case MapPage (v\<lparr>vm_frames := f, vm_mem := clear_page (vm_mem v) phys_frame\<rparr>) pd addr phys_frame
                 (PAGE_PRESENT OR PAGE_RW OR PAGE_USER) of
            (False, v) \<Rightarrow> (False, brk_rollback pd brkFrames (free_frame phys_frame v))
          | (True, v) \<Rightarrow> brk_pages pd page_start is (brkFrames @ [(addr, phys_frame)]) v)"

definition Handle_sys_brk :: "('v, 'f, 'd, 'g) services \<Rightarrow> u32 \<Rightarrow> ('v, 'f, 'd, 'g) kernel \<Rightarrow> s32 \<times> ('v, 'f, 'd, 'g) kernel" where
  "Handle_sys_brk sv brk k =
     (let p = cur k; pc = proc (sch k) p in
      case heap pc of (startAddress, old_brk, maxAddress) \<Rightarrow>
        let grown = set_proc p (\<lambda>pc. pc\<lparr>heap := (startAddress, brk, maxAddress)\<rparr>) in
        if brk = 0 then (old_brk, k)
        else if brk \<le> old_brk then (old_brk, k)
        else if maxAddress < brk then (-1, k)
        else
          let page_start = page_down (old_brk + PAGE_SIZE - 1); page_end = page_down (brk + PAGE_SIZE - 1);
              totalPages = (page_end - page_start) div PAGE_SIZE in
          if page_end \<le> page_start then (brk, grown k)
          else if \<not> kmalloc sv (totalPages * 8) then (-1, k)
          else case brk_pages (page_directory pc) page_start [0..<unat totalPages] [] (vm (sch k)) of
            (ok, v) \<Rightarrow> if ok then (brk, grown (set_vm v k)) else (-1, set_vm v k))"

subsection \<open>Information\<close>

definition stat_bytes :: "u32 \<Rightarrow> u32 \<Rightarrow> u32 \<Rightarrow> u32 \<Rightarrow> u32 \<Rightarrow> u8 list" where
  "stat_bytes ino mode sz blksize blocks =
     bytes32 0 @ bytes32 ino @ bytes32 mode @ bytes32 0 @ bytes32 0 @ bytes32 0 @ bytes32 0 @ bytes32 sz @ bytes32 blksize @ bytes32 blocks"

definition Handle_sys_stat ::
  "('v, 'f, 'd, 'g) services \<Rightarrow> u32 \<Rightarrow> u32 \<Rightarrow> ('v, 'f, 'd, 'g) kernel \<Rightarrow> s32 \<times> ('v, 'f, 'd, 'g) kernel" where
  "Handle_sys_stat sv path statbuf k =
     (if path = null_ptr \<or> statbuf = null_ptr then (-1, k)
      else
        let p = cur k in
        case user_path p path k of
          None \<Rightarrow> (-1, k)
        | Some kpath \<Rightarrow>
            if \<not> mounted0 k then (-1, k)
            else if kpath = [0x2F] then
              case to_user p statbuf (stat_bytes 0 0x4000 0 0 0) k of (ok, k) \<Rightarrow> (if ok then 0 else -1, k)
            else case Open (fat sv) (newFil sv) (Some kpath) (fsy k) of
              (file, fs) \<Rightarrow>
                if file = null_ptr then (-1, k\<lparr>fsy := fs\<rparr>)
                else
                  let f = the (objs fs file);
                      k_stat = stat_bytes (file_id f) (if flags f AND 1 \<noteq> 0 then 0x4000 else 0x8000) (fsize f) 512 ((fsize f + 511) div 512);
                      k = k\<lparr>fsy := delete_File (fat sv) file (Close (fat sv) file fs)\<rparr> in
                  case to_user p statbuf k_stat k of (ok, k) \<Rightarrow> (if ok then 0 else -1, k))"

definition Handle_sys_nanosleep :: "u32 \<Rightarrow> u32 \<Rightarrow> ('v, 'f, 'd, 'g) kernel \<Rightarrow> s32 \<times> ('v, 'f, 'd, 'g) kernel" where
  "Handle_sys_nanosleep req rem k =
     (let p = cur k in
      case (if req = null_ptr then Some (replicate 8 0) else from_user p req 8 k) of
        None \<Rightarrow> (-1, k)
      | Some k_req \<Rightarrow>
          let tv_sec = word32 k_req; tv_nsec = word32 (drop 4 k_req);
              sleep_ms = tv_sec * 1000 + of_int (sint tv_nsec sdiv 1000000);
              k = k\<lparr>sch := Sleep sleep_ms (sch k)\<rparr> in
          if rem = null_ptr then (0, k)
          else case to_user p rem (replicate 8 0) k of (ok, k) \<Rightarrow> (if ok then 0 else -1, k))"

definition Handle_sys_getcwd :: "u32 \<Rightarrow> u32 \<Rightarrow> ('v, 'f, 'd, 'g) kernel \<Rightarrow> s32 \<times> ('v, 'f, 'd, 'g) kernel" where
  "Handle_sys_getcwd buf sz k =
     (let p = cur k in
      if p = null_ptr then (-1, k)
      else
        let dir = takeWhile (\<lambda>c. c \<noteq> 0) (cwd (proc (sch k) p)); len = of_nat (length dir) in
        if buf = null_ptr \<or> sz = 0 then (-1, k)
        else if sz < len + 1 then (len + 1, k)
        else case to_user p buf (dir @ [0]) k of (ok, k) \<Rightarrow> (if ok then len + 1 else -1, k))"

text \<open>The string goes to the log.\<close>

definition Handle_sys_debug :: "u32 \<Rightarrow> ('v, 'f, 'd, 'g) kernel \<Rightarrow> s32 \<times> ('v, 'f, 'd, 'g) kernel" where
  "Handle_sys_debug str k = (case user_path (cur k) str k of None \<Rightarrow> (-1, k) | Some kstr \<Rightarrow> (0, k))"

text \<open>
  \<^verbatim>\<open>sys_getdents\<close>: one \<^verbatim>\<open>struct linux_dirent\<close> (12 bytes, the name from the 11th on, the whole rounded up to 4), and the loop over
  the records that \<^verbatim>\<open>ReadStream\<close> left in the buffer. A record that does not fit moves the file back to its start.
\<close>

definition linux_dirent :: "u32 \<Rightarrow> u32 \<Rightarrow> u32 \<Rightarrow> u8 list \<Rightarrow> u8 list" where
  "linux_dirent d_ino d_off rl nm =
     overwrite (replicate (unat rl) 0) 0 (bytes32 d_ino @ bytes32 d_off @ [ucast rl, ucast (drop_bit 8 rl)] @ nm)"

function dirents ::
  "('v, 'f, 'd, 'g) services \<Rightarrow> u32 \<Rightarrow> u32 \<Rightarrow> u32 \<Rightarrow> u32 \<Rightarrow> u8 list \<Rightarrow> nat \<Rightarrow> nat \<Rightarrow> u32 \<Rightarrow> ('v, 'f, 'd, 'g) kernel
     \<Rightarrow> s32 \<times> ('v, 'f, 'd, 'g) kernel" where
  "dirents sv p dirFile dirp cnt bs bytesRead bufOff offsetWritten k =
     (if bytesRead < bufOff + 7 then (offsetWritten, k)
      else
        let d_reclen = unat (bs ! (bufOff + 4)) + 256 * unat (bs ! (bufOff + 5)) in
        if d_reclen < 8 \<or> bytesRead - bufOff < d_reclen then (offsetWritten, k)
        else
          let nm = takeWhile (\<lambda>c. c \<noteq> 0) (take (d_reclen - 7) (drop (bufOff + 7) bs)) in
          if nm = [] \<or> nm = [0x2E] \<or> nm = [0x2E, 0x2E] then dirents sv p dirFile dirp cnt bs bytesRead (bufOff + d_reclen) offsetWritten k
          else
            let rl = (12 + of_nat (length nm) + 1 + 3) AND NOT 3;
                back = k\<lparr>fsy := upd_File dirFile (\<lambda>f. f\<lparr>position := position f - of_nat (bytesRead - bufOff)\<rparr>) (fsy k)\<rparr>;
                stopped = (if offsetWritten = 0 then -1 else offsetWritten) in
            if cnt < offsetWritten + rl then (stopped, back)
            else if \<not> kmalloc sv rl then (stopped, back)
            else case to_user p (dirp + offsetWritten)
                   (linux_dirent (word32 (drop bufOff bs)) (position (the (objs (fsy k) dirFile))) rl nm) k of
              (False, k) \<Rightarrow> (stopped, k\<lparr>fsy := upd_File dirFile (\<lambda>f. f\<lparr>position := position f - of_nat (bytesRead - bufOff)\<rparr>) (fsy k)\<rparr>)
            | (True, k) \<Rightarrow> dirents sv p dirFile dirp cnt bs bytesRead (bufOff + d_reclen) (offsetWritten + rl) k)"
  by pat_completeness auto
termination
  by (relation "measure (\<lambda>(_, _, _, _, _, _, n, i, _). n - i)") auto

declare dirents.simps [simp del]

definition Handle_sys_getdents ::
  "('v, 'f, 'd, 'g) services \<Rightarrow> u32 \<Rightarrow> u32 \<Rightarrow> u32 \<Rightarrow> ('v, 'f, 'd, 'g) kernel \<Rightarrow> (s32 \<times> ('v, 'f, 'd, 'g) kernel) option" where
  "Handle_sys_getdents sv fd dirp cnt k =
     (if fd \<le> 2 \<or> dirp = null_ptr \<or> cnt = 0 then Some (-1, k)
      else
        let p = cur k; dirFile = GetFileByFd (fds_of p k) fd; f = the (objs (fsy k) dirFile) in
        if dirFile = null_ptr \<or> \<not> filesystem f then Some (-1, k)
        else if flags f AND 1 = 0 then Some (-1, k)
        else case Read (fat sv) dirFile (Some (replicate 512 0)) 512 (fsy k) of
          None \<Rightarrow> None
        | Some (bytesRead, bs, fs) \<Rightarrow>
            let k = k\<lparr>fsy := fs\<rparr> in
            if sint bytesRead \<le> 0 then Some (0, k) else Some (dirents sv p dirFile dirp cnt (the bs) (unat bytesRead) 0 0 k))"

text \<open>The build's default, with \<^verbatim>\<open>KDBG_ENABLE\<close>. Memory below 256 MB is mapped to itself.\<close>

definition Handle_sys_peek_memory :: "u32 \<Rightarrow> u32 \<Rightarrow> u32 \<Rightarrow> ('v, 'f, 'd, 'g) kernel \<Rightarrow> s32 \<times> ('v, 'f, 'd, 'g) kernel" where
  "Handle_sys_peek_memory address sz return_data k =
     (let p = cur k; m = mem k; here = IsUserRange m (space_of p k) return_data 4 in
      if p = null_ptr then
        (-1, if return_data = null_ptr then k
             else set_mem (store_bytes m (GetPhysicalAddress m (vm_cr3 (vm (sch k))) return_data) (bytes32 0)) k)
      else if sz = 0 \<or> 4 < sz \<or> 0x10000000 - sz < address then
        (-1, if return_data \<noteq> null_ptr \<and> here then snd (to_user p return_data (bytes32 0) k) else k)
      else
        let v = take 4 ((if sz = 3 then [] else load_bytes m address (unat sz)) @ replicate 4 0) in
        if return_data = null_ptr then (0, k)
        else if \<not> here then (-1, k)
        else case to_user p return_data v k of (ok, k) \<Rightarrow> (if ok then 0 else -1, k))"

subsection \<open>The framebuffer\<close>

fun revoke_tables :: "u32 \<Rightarrow> nat list \<Rightarrow> pmm_info vm \<Rightarrow> pmm_info vm" where
  "revoke_tables dir [] v = v"
| "revoke_tables dir (i # is) v =
     (let e = vm_mem v (entry dir (of_nat i)); shared = vm_mem v (entry (vm_kernel_dir v) (of_nat i)) in
      if e AND PAGE_PRESENT = 0 \<or> e = shared then revoke_tables dir is v
      else
        let v = free_frame (e AND 0xFFFFF000) v in
        revoke_tables dir is (v\<lparr>vm_mem := (vm_mem v)(entry dir (of_nat i) := shared)\<rparr>))"

definition RevokeFramebufferMapping :: "u32 \<Rightarrow> ('v, 'f, 'd, 'g) kernel \<Rightarrow> ('v, 'f, 'd, 'g) kernel" where
  "RevokeFramebufferMapping dir k =
     (if \<not> g_fb_private_valid k \<or> dir = null_ptr \<or> dir \<noteq> g_fb_private_owner k then k
      else
        let is = [unat (g_fb_private_start_pd k)..<Suc (unat (g_fb_private_end_pd k))];
            k = set_vm (revoke_tables dir is (vm (sch k))) k in
        k\<lparr>g_fb_private_valid := False, g_fb_private_owner := null_ptr\<rparr>)"

fun unshare_tables :: "u32 \<Rightarrow> nat list \<Rightarrow> pmm_info vm \<Rightarrow> bool \<times> pmm_info vm" where
  "unshare_tables dir [] v = (True, v)"
| "unshare_tables dir (i # is) v =
     (let shared = vm_mem v (entry (vm_kernel_dir v) (of_nat i)) in
      if vm_mem v (entry dir (of_nat i)) \<noteq> shared then unshare_tables dir is v
      else case pmm_alloc_block_low (vm_frames v) LOW_LIMIT of
        (new_pt, f) \<Rightarrow>
          if new_pt = null_ptr then (False, v\<lparr>vm_frames := f\<rparr>)
          else
            let m = copy_entries new_pt (shared AND 0xFFFFF000) [0..<1024] (vm_mem v);
                m = m(entry dir (of_nat i) := (new_pt AND 0xFFFFF000) OR PAGE_PRESENT OR PAGE_RW) in
            unshare_tables dir is (v\<lparr>vm_frames := f, vm_mem := m\<rparr>))"

fun grant_pages :: "u32 \<Rightarrow> u32 \<Rightarrow> nat list \<Rightarrow> memory \<Rightarrow> memory" where
  "grant_pages dir startPage [] m = m"
| "grant_pages dir startPage (i # is) m =
     (let addr = startPage + of_nat i * PAGE_SIZE; pde = entry dir (pd_index addr); pte = entry (m pde AND 0xFFFFF000) (pt_index addr);
          m = m(pte := m pte OR PAGE_USER);
          m = m(pde := m pde OR PAGE_USER) in
      grant_pages dir startPage is m)"

text \<open>The copies of the three results, up to the first that fails.\<close>

fun to_user_words :: "u32 \<Rightarrow> (u32 \<times> u32) list \<Rightarrow> ('v, 'f, 'd, 'g) kernel \<Rightarrow> bool \<times> ('v, 'f, 'd, 'g) kernel" where
  "to_user_words p [] k = (True, k)"
| "to_user_words p ((a, w) # aws) k =
     (if a = null_ptr then to_user_words p aws k
      else case to_user p a (bytes32 w) k of (False, k) \<Rightarrow> (False, k) | (True, k) \<Rightarrow> to_user_words p aws k)"

definition Hcall_getFramebuffer :: "u32 \<Rightarrow> u32 \<Rightarrow> u32 \<Rightarrow> ('v, 'f, 'd, 'g) kernel \<Rightarrow> s32 \<times> ('v, 'f, 'd, 'g) kernel" where
  "Hcall_getFramebuffer pBuffer pWidth pHeight k =
     (case screen k of
        None \<Rightarrow> (-1, k)
      | Some (bufferAddr, width, height) \<Rightarrow>
          let p = cur k; pid = p_pid (proc (sch k) p) in
          if g_stop_gui_rendering k \<and> g_gui_owner_pid k \<noteq> pid then (-1, k)
          else if list_ex (\<lambda>a. a \<noteq> null_ptr \<and> \<not> IsUserRange (mem k) (space_of p k) a 4) [pBuffer, pWidth, pHeight] then (-1, k)
          else case to_user_words p [(pBuffer, bufferAddr), (pWidth, width), (pHeight, height)] k of
            (False, k) \<Rightarrow> (-1, k)
          | (True, k) \<Rightarrow>
              let sz = width * height * 4; dir = page_directory (proc (sch k) p);
                  startPage = page_down bufferAddr; endPage = page_down (bufferAddr + sz + PAGE_SIZE - 1);
                  startPDIdx = pd_index startPage; endPDIdx = pd_index endPage in
              case unshare_tables dir [unat startPDIdx..<Suc (unat endPDIdx)] (vm (sch k)) of
                (False, v) \<Rightarrow> (-1, set_vm v k)
              | (True, v) \<Rightarrow>
                  let m = grant_pages dir startPage [0..<(unat endPage - unat startPage) div 4096] (vm_mem v);
                      k = set_vm (v\<lparr>vm_mem := m\<rparr>) k in
                  (1, k\<lparr>g_fb_private_start_pd := startPDIdx, g_fb_private_end_pd := endPDIdx, g_fb_private_owner := dir,
                        g_fb_private_valid := True, g_stop_gui_rendering := True, g_gui_owner_pid := pid\<rparr>))"

subsection \<open>Calls of this system\<close>

definition Hcall_regEventH ::
  "('v, 'f, 'd, 'g) services \<Rightarrow> u32 \<Rightarrow> u32 \<Rightarrow> ('v, 'f, 'd, 'g) kernel \<Rightarrow> s32 \<times> ('v, 'f, 'd, 'g) kernel" where
  "Hcall_regEventH sv threadArgs entryPoint k =
     (let p = cur k in
      case CreateThread (newTcb sv) p entryPoint threadArgs (sch k) of
        (t, s) \<Rightarrow>
          let k = k\<lparr>sch := s\<rparr> in
          if t = null_ptr then (-1, k)
          else if \<not> hasDesktop sv (gui k) then (-1, k\<lparr>sch := TerminateThread t s\<rparr>)
          else (tid (thread s t), k\<lparr>gui := createNewHandler sv (p_pid (proc s p)) t (gui k)\<rparr>))"

definition Hcall_initCli :: "('v, 'f, 'd, 'g) services \<Rightarrow> ('v, 'f, 'd, 'g) kernel \<Rightarrow> s32 \<times> ('v, 'f, 'd, 'g) kernel" where
  "Hcall_initCli sv k =
     (let p = cur k in
      if p = null_ptr then (-1, k)
      else
        let k = set_proc p (\<lambda>pc. ClearProcessStdin (pc\<lparr>stdinAttached := True\<rparr>)) k;
            k = k\<lparr>kbd := map_option ClearInputQueue (kbd k)\<rparr> in
        if g_stop_gui_rendering k \<and> g_gui_owner_pid k = p_pid (proc (sch k) p) then
          let k = RevokeFramebufferMapping (page_directory (proc (sch k) p)) k;
              k = k\<lparr>g_stop_gui_rendering := False, g_gui_owner_pid := -1\<rparr> in
          (1, if hasDesktop sv (gui k) then k\<lparr>gui := MarkDirty sv (gui k)\<rparr> else k)
        else (1, k))"

definition Hcall_stdinPush :: "u32 \<Rightarrow> u32 \<Rightarrow> ('v, 'f, 'd, 'g) kernel \<Rightarrow> s32 \<times> ('v, 'f, 'd, 'g) kernel" where
  "Hcall_stdinPush pid c k =
     (let p = cur k; me = p_pid (proc (sch k) p) in
      if p = null_ptr then (-1, k)
      else
        let target = (if pid = 0 then p else FindProcess pid (sch k)); tp = proc (sch k) target in
        if target = null_ptr then (-1, k)
        else if me \<noteq> cliHostPid tp \<and> me \<noteq> p_pid tp then (-1, k)
        else (1, set_proc target (\<lambda>pc. PushProcessStdin (ucast (c AND 0xFF)) (pc\<lparr>stdinAttached := True\<rparr>)) k))"

definition Hcall_setCliHostView :: "u32 \<Rightarrow> ('v, 'f, 'd, 'g) kernel \<Rightarrow> s32 \<times> ('v, 'f, 'd, 'g) kernel" where
  "Hcall_setCliHostView view_id k =
     (if cur k = null_ptr then (-1, k)
      else (1, set_proc (cur k) (\<lambda>pc. pc\<lparr>isCliHost := view_id \<noteq> 0, cliHostViewId := view_id\<rparr>) k))"

text \<open>The mouse deltas are taken, and so reset, before the copy.\<close>

definition Hcall_getInput :: "u32 \<Rightarrow> ('v, 'f, 'd, 'g) kernel \<Rightarrow> s32 \<times> ('v, 'f, 'd, 'g) kernel" where
  "Hcall_getInput userState k =
     (let p = cur k in
      if userState = null_ptr \<or> \<not> IsUserRange (mem k) (space_of p k) userState 137 then (-1, k)
      else
        let keys = (case kbd k of None \<Rightarrow> replicate 128 0 | Some kb \<Rightarrow> keyStates kb);
            (moves, ms) = (case mse k of
               None \<Rightarrow> (replicate 9 0, None)
             | Some ms \<Rightarrow> case GetMouseDelta ms of ((dx, dy), ms) \<Rightarrow> (bytes32 dx @ bytes32 dy @ [GetButtons ms], Some ms)) in
        case to_user p userState (keys @ moves) (k\<lparr>mse := ms\<rparr>) of (ok, k) \<Rightarrow> (if ok then 1 else -1, k))"

definition Handle_sys_Hcall ::
  "('v, 'f, 'd, 'g) services \<Rightarrow> u32 \<Rightarrow> u32 \<Rightarrow> u32 \<Rightarrow> u32 \<Rightarrow> ('v, 'f, 'd, 'g) kernel \<Rightarrow> s32 \<times> ('v, 'f, 'd, 'g) kernel" where
  "Handle_sys_Hcall sv hcall_id arg1 arg2 arg3 k =
     (let p = cur k; s = sch k; target = FindProcess arg1 s in
      if hcall_id = 1 then Hcall_regEventH sv arg1 arg2 k
      else if hcall_id = 2 then Hcall_getFramebuffer arg1 arg2 arg3 k
      else if hcall_id = 4 then Hcall_initCli sv k
      else if hcall_id = 5 then Hcall_stdinPush arg1 arg2 k
      else if hcall_id = 6 then (if p = null_ptr then 1 else ucast (appType (proc s p)), k)
      else if hcall_id = 7 then Hcall_setCliHostView arg1 k
      else if hcall_id = 8 then (if p = null_ptr then 0 else cliAttachedViewId (proc s p), k)
      else if hcall_id = 9 then (if arg1 = 0 then 0 else if target \<noteq> null_ptr then 1 else 0, k)
      else if hcall_id = 10 then (if arg1 = 0 then 0 else if target \<noteq> null_ptr then ucast (appType (proc s target)) else 0, k)
      else if hcall_id = 3 then Hcall_getInput arg1 k
      else (-1, k))"

subsection \<open>The dispatcher\<close>

text \<open>
  The address of the saved registers comes in and the one to restore goes out. Call 0 resets the machine.
\<close>

definition set_result :: "u32 \<Rightarrow> s32 \<Rightarrow> ('v, 'f, 'd, 'g) kernel \<Rightarrow> ('v, 'f, 'd, 'g) kernel" where
  "set_result ctx r k =
     k\<lparr>sch := (sch k)\<lparr>contexts := (contexts (sch k))(ctx := (contexts (sch k) ctx)\<lparr>eax := r\<rparr>)\<rparr>\<rparr>"

definition reschedule :: "u32 \<Rightarrow> ('v, 'f, 'd, 'g) kernel \<Rightarrow> u32 \<times> ('v, 'f, 'd, 'g) kernel" where
  "reschedule ctx k = (case Schedule ctx (sch k) of (ctx, s) \<Rightarrow> (ctx, k\<lparr>sch := s\<rparr>))"

definition handler ::
  "('v, 'f, 'd, 'g) services \<Rightarrow> u32 \<Rightarrow> CPUState \<Rightarrow> ('v, 'f, 'd, 'g) kernel \<Rightarrow> (s32 \<times> ('v, 'f, 'd, 'g) kernel) option" where
  "handler sv ctx cpu k =
     (if eax cpu = 3 then Handle_sys_read sv (ebx cpu) (ecx cpu) (edx cpu) k
      else if eax cpu = 4 then Some (Handle_sys_write sv (ebx cpu) (ecx cpu) (edx cpu) k)
      else if eax cpu = 19 then Some (Handle_sys_lseek (ebx cpu) (ecx cpu) (edx cpu) k)
      else if eax cpu = 5 then Some (Handle_sys_open sv (ebx cpu) (ecx cpu) k)
      else if eax cpu = 6 then Some (Handle_sys_close sv (ebx cpu) k)
      else if eax cpu = 11 then Handle_sys_execve sv (ebx cpu) (ecx cpu) k
      else if eax cpu = 45 then Some (Handle_sys_brk sv (ebx cpu) k)
      else if eax cpu = 106 then Some (Handle_sys_stat sv (ebx cpu) (ecx cpu) k)
      else if eax cpu = 120 then Some (Handle_sys_clone sv ctx (ebx cpu) (ecx cpu) (edx cpu) (edi cpu) k)
      else if eax cpu = 141 then Handle_sys_getdents sv (ebx cpu) (ecx cpu) (edx cpu) k
      else if eax cpu = 162 then Some (Handle_sys_nanosleep (ebx cpu) (ecx cpu) k)
      else if eax cpu = 183 then Some (Handle_sys_getcwd (ebx cpu) (ecx cpu) k)
      else if eax cpu = 501 then Some (Handle_sys_debug (ebx cpu) k)
      else if eax cpu = 502 then Some (Handle_sys_peek_memory (ebx cpu) (ecx cpu) (edx cpu) k)
      else if eax cpu = 500 then Some (Handle_sys_Hcall sv (ebx cpu) (ecx cpu) (edx cpu) (esi cpu) k)
      else Some (-1, k))"

definition HandleInterrupt ::
  "('v, 'f, 'd, 'g) services \<Rightarrow> u32 \<Rightarrow> ('v, 'f, 'd, 'g) kernel \<Rightarrow> (u32 \<times> ('v, 'f, 'd, 'g) kernel) option" where
  "HandleInterrupt sv ctx k =
     (let cpu = contexts (sch k) ctx in
      if eax cpu = 0 then None
      else if eax cpu = 1 then Some (reschedule ctx (snd (Handle_sys_exit sv k)))
      else if eax cpu = 252 then Some (reschedule ctx (snd (Handle_sys_exit_group sv k)))
      else map_option (\<lambda>(r, k). (ctx, set_result ctx r k)) (handler sv ctx cpu k))"

end
