(* ===== verification/Syscall_Inv.thy ===== *)
theory Syscall_Inv
  imports Syscalls
begin

text \<open>
  What holds of every system call: the standard input of a process is a queue, and no call, whatever its number and its
  arguments, breaks the invariant of the scheduler.
\<close>

subsection \<open>Standard input\<close>

text \<open>The queue of a process is a ring like the keyboard's; its operations are carried over.\<close>

definition ring_of :: "pcb \<Rightarrow> keyboard" where
  "ring_of pc = (KeyboardDriver False)\<lparr>inputQueue := stdinQueue pc, inputHead := stdinHead pc, inputTail := stdinTail pc\<rparr>"

abbreviation stdin_ok :: "pcb \<Rightarrow> bool" where "stdin_ok pc \<equiv> ring_ok (ring_of pc)"
abbreviation stdin_of :: "pcb \<Rightarrow> u8 list" where "stdin_of pc \<equiv> pending (ring_of pc)"

lemma ring_of_push: "ring_of (PushProcessStdin c pc) = QueueInputChar c (ring_of pc)"
  by (simp add: ring_of_def PushProcessStdin_def QueueInputChar_def Let_def)

lemma ring_of_pop: "fst (PopProcessStdin pc) = fst (PopInputChar (ring_of pc))" "ring_of (snd (PopProcessStdin pc)) = snd (PopInputChar (ring_of pc))"
  by (simp_all add: ring_of_def PopProcessStdin_def PopInputChar_def)

lemma PopProcessStdin_empty: "stdin_ok pc \<Longrightarrow> stdin_of pc = [] \<Longrightarrow> PopProcessStdin pc = (None, pc)"
  using pending_empty [of "ring_of pc"] by (simp add: PopProcessStdin_def ring_of_def)

interpretation sq: bounded_queue stdin_ok stdin_of PushProcessStdin PopProcessStdin 255
proof
  fix pc c assume ok: "stdin_ok pc"
  show "stdin_ok (PushProcessStdin c pc)" "stdin_of (PushProcessStdin c pc) = (if length (stdin_of pc) = 255 then tl (stdin_of pc) else stdin_of pc) @ [c]"
    unfolding ring_of_push using QueueInputChar_spec [OF ok, of c] by blast+
  show "stdin_ok (snd (PopProcessStdin pc))" unfolding ring_of_pop using PopInputChar_spec [OF ok] by blast
  show "case stdin_of pc of [] \<Rightarrow> PopProcessStdin pc = (None, pc)
      | c # rest \<Rightarrow> fst (PopProcessStdin pc) = Some c \<and> stdin_of (snd (PopProcessStdin pc)) = rest"
    unfolding ring_of_pop using PopInputChar_spec [OF ok] PopProcessStdin_empty [OF ok] by (auto split: list.splits)
  show "length (stdin_of pc) \<le> 255" using kq.bounded [OF ok] .
qed

text \<open>What one read takes: at most \<open>n\<close> characters, up to and with the first newline.\<close>

fun line :: "nat \<Rightarrow> u8 list \<Rightarrow> u8 list" where
  "line (Suc n) (c # rest) = (if c = 10 then [c] else c # line n rest)"
| "line _ _ = []"

lemma read_stdin_line:
  "stdin_ok pc \<Longrightarrow> read_stdin n pc = (bs, pc') \<Longrightarrow> bs = line n (stdin_of pc) \<and> stdin_ok pc' \<and> stdin_of pc' = drop (length bs) (stdin_of pc)"
proof (induction n pc arbitrary: bs pc' rule: read_stdin.induct)
  case (2 n pc)
  show ?case
  proof (cases "stdin_of pc")
    case Nil
    then show ?thesis using 2(2,3) PopProcessStdin_empty [OF 2(2)] by simp
  next
    case (Cons c rest)
    then obtain pc1 where p: "PopProcessStdin pc = (Some c, pc1)" "stdin_ok pc1" "stdin_of pc1 = rest"
      using sq.pop_items [OF 2(2)] sq.pop_ok [OF 2(2)] by (cases "PopProcessStdin pc") auto
    show ?thesis
    proof (cases "c = 10")
      case True
      then show ?thesis using 2(3) p Cons by auto
    next
      case False
      obtain bs1 where r: "read_stdin n pc1 = (bs1, pc')" "bs = c # bs1" using 2(3) p(1) False by (auto split: prod.splits)
      show ?thesis using 2(1) [OF p(1) [symmetric] refl False p(2) r(1)] p(3) r(2) Cons False by simp
    qed
  qed
qed simp

subsection \<open>What a call leaves to the scheduler\<close>

abbreviation sview where "sview k \<equiv> view (sch k)"

lemma sview_inv: "sview k' = sview k \<Longrightarrow> sched_inv (sch k') = sched_inv (sch k)"
  by (rule view_sched_inv)

lemma sview_memory [simp]:
  "sview (set_vm v k) = sview k" "sview (set_mem m k) = sview k" "sview (snd (to_user p a bs k)) = sview k"
  "sview (set_result ctx r k) = sview k"
  by (simp_all add: set_vm_def set_mem_def to_user_def set_result_def view_def split: prod.splits)

lemma sview_to_user: "to_user p a bs k = (ok, k') \<Longrightarrow> sview k' = sview k"
  using sview_memory(3) [of p a bs k] by simp

lemma sview_words: "sview (snd (to_user_words p aws k)) = sview k"
  by (induction p aws k rule: to_user_words.induct) (auto split: prod.splits bool.splits dest: sview_to_user)

lemma sch_serial: "sch (snd (write_serial p buf n k)) = sch k"
proof (induction p buf n k rule: write_serial.induct)
  case (1 p buf n k)
  then show ?case by (subst write_serial.simps) (auto simp: Let_def split: option.splits)
qed

lemma sview_dirents: "sview (snd (dirents sv p dirFile dirp cnt bs bytesRead i w k)) = sview k"
proof (induction sv p dirFile dirp cnt bs bytesRead i w k rule: dirents.induct)
  case (1 sv p dirFile dirp cnt bs bytesRead i w k)
  then show ?case by (subst dirents.simps) (auto simp: Let_def split: prod.splits bool.splits dest: sview_to_user)
qed

lemma sview_calls:
  "sview (snd (Handle_sys_write sv fd buf cnt k)) = sview k"
  "sview (snd (Handle_sys_lseek fd ofs whence k)) = sview k"
  "sview (snd (Handle_sys_stat sv path statbuf k)) = sview k"
  "sview (snd (Handle_sys_getcwd buf sz k)) = sview k"
  "sview (snd (Handle_sys_debug str k)) = sview k"
  "sview (snd (Handle_sys_peek_memory address sz ret k)) = sview k"
  "sview (snd (Hcall_getInput userState k)) = sview k"
proof -
  show "sview (snd (Handle_sys_write sv fd buf cnt k)) = sview k"
    using sch_serial [of "cur k" buf "unat cnt" k] by (auto simp: Handle_sys_write_def Let_def split: prod.splits option.splits)
  show "sview (snd (Handle_sys_lseek fd ofs whence k)) = sview k" by (simp add: Handle_sys_lseek_def Let_def)
  show "sview (snd (Handle_sys_stat sv path statbuf k)) = sview k"
    by (auto simp: Handle_sys_stat_def Let_def split: prod.splits option.splits dest!: sview_to_user)
  show "sview (snd (Handle_sys_getcwd buf sz k)) = sview k"
    by (auto simp: Handle_sys_getcwd_def Let_def split: prod.splits dest!: sview_to_user)
  show "sview (snd (Handle_sys_debug str k)) = sview k" by (simp add: Handle_sys_debug_def split: option.splits)
  show "sview (snd (Handle_sys_peek_memory address sz ret k)) = sview k"
    by (auto simp: Handle_sys_peek_memory_def Let_def split: prod.splits dest!: sview_to_user)
  show "sview (snd (Hcall_getInput userState k)) = sview k"
    by (auto simp: Hcall_getInput_def Let_def split: prod.splits option.splits dest!: sview_to_user)
qed

lemma sview_getFramebuffer: "sview (snd (Hcall_getFramebuffer a b c k)) = sview k"
proof (cases "screen k")
  case None
  then show ?thesis by (simp add: Hcall_getFramebuffer_def)
next
  case (Some scr)
  obtain addr w h where scr: "scr = (addr, w, h)" by (cases scr)
  obtain ok k1 where t: "to_user_words (cur k) [(a, addr), (b, w), (c, h)] k = (ok, k1)" by fastforce
  have k1: "sview k1 = sview k" using sview_words [of "cur k" "[(a, addr), (b, w), (c, h)]" k] t by simp
  have g: "sview (set_vm v k1\<lparr>g_fb_private_start_pd := x1, g_fb_private_end_pd := x2, g_fb_private_owner := x3,
      g_fb_private_valid := True, g_stop_gui_rendering := True, g_gui_owner_pid := x4\<rparr>) = sview k" for v x1 x2 x3 x4
    using k1 by (simp add: set_vm_def view_def)
  show ?thesis
    unfolding Hcall_getFramebuffer_def Some scr option.case prod.case Let_def t
    using k1 g by (simp del: to_user_words.simps unshare_tables.simps split: bool.split prod.split)
qed

lemma sview_getdents: "Handle_sys_getdents sv fd dirp cnt k = Some (r, k') \<Longrightarrow> sview k' = sview k"
proof -
  have d: "sview k' = sview k1" if "dirents sv p f dirp cnt bs n i w k1 = (r, k')" for p f bs n i w and k1 :: "('a, 'b, 'c, 'd) kernel"
    using sview_dirents [of sv p f dirp cnt bs n i w k1] that by simp
  assume "Handle_sys_getdents sv fd dirp cnt k = Some (r, k')"
  then show ?thesis by (auto simp: Handle_sys_getdents_def Let_def split: option.splits if_splits dest!: d)
qed

subsection \<open>Changing a process\<close>

lemma upd_proc_inv:
  assumes inv: "sched_inv s" and p: "p \<in> dom (procs s)" and f: "p_threads (f (proc s p)) = p_threads (proc s p)"
  shows "sched_inv (upd_proc p f s)"
proof -
  have "queue_inv (upd_proc p f s) = queue_inv s" by (simp add: queue_inv_def placed_def in_state_def upd_proc_def cong: thread_state.case_cong)
  moreover have "proc_inv (upd_proc p f s)"
    by (rule proc_inv_cong [of s]) (use inv p f in \<open>auto simp: sched_inv_def live_def upd_proc_def\<close>)
  ultimately show ?thesis using inv by (simp add: sched_inv_def)
qed

text \<open>The call comes from a thread of a process that is running, or has gone to sleep and was not switched yet.\<close>

definition user_call :: "('v, 'f, 'd, 'g) kernel \<Rightarrow> bool" where
  "user_call k \<longleftrightarrow> cur k \<noteq> null_ptr \<and> t_state (thread (sch k) (currentThread (sch k))) \<in> {THREAD_STATE_RUNNING, THREAD_STATE_BLOCKED}"

lemma user_callD:
  assumes "user_call k" "sched_inv (sch k)"
  shows "cur k \<noteq> null_ptr" "cur k \<in> dom (procs (sch k))" "currentThread (sch k) \<noteq> null_ptr" "currentThread (sch k) \<noteq> idleThread (sch k)"
proof -
  let ?t = "currentThread (sch k)"
  show c: "cur k \<noteq> null_ptr" using assms(1) by (simp add: user_call_def)
  show t: "?t \<noteq> null_ptr" using c by (auto simp: GetCurrentProcess_def)
  have q: "queue_inv (sch k)" "proc_inv (sch k)" using assms(2) by (simp_all add: sched_inv_def)
  have d: "?t \<in> dom (threads (sch k))" by (rule queue_invD(8) [OF q(1) t])
  then have "live (sch k) ?t (cur k)" using assms(1) t by (auto simp: live_def user_call_def GetCurrentProcess_def)
  then show "cur k \<in> dom (procs (sch k))" "?t \<noteq> idleThread (sch k)"
    using proc_invD(6) [OF q(2) _ c] proc_invD(7) [OF q(2)] live_parent_unique c by metis+
qed

lemma set_proc_inv:
  assumes "sched_inv (sch k)" "p \<in> dom (procs (sch k))" "p_threads (f (proc (sch k) p)) = p_threads (proc (sch k) p)"
  shows "sched_inv (sch (set_proc p f k))"
  using assms by (simp add: set_proc_def upd_proc_inv)

lemma stdin_threads: "p_threads (snd (PopProcessStdin pc)) = p_threads pc" "p_threads (PushProcessStdin c pc) = p_threads pc"
  "p_threads (ClearProcessStdin pc) = p_threads pc"
  by (simp_all add: PopProcessStdin_def PushProcessStdin_def ClearProcessStdin_def Let_def)

lemma read_stdin_keeps:
  assumes f: "\<And>pc. f (snd (PopProcessStdin pc)) = f pc"
  shows "f (snd (read_stdin n pc)) = f pc"
proof (induction n arbitrary: pc)
  case (Suc n)
  obtain r pc1 where p: "PopProcessStdin pc = (r, pc1)" by fastforce
  then have "f pc1 = f pc" using f [of pc] by simp
  then show ?case using Suc [of pc1] p by (cases r) (auto split: prod.splits)
qed simp

lemma read_stdin_threads: "read_stdin n pc = (bs, pc') \<Longrightarrow> p_threads pc' = p_threads pc"
  using read_stdin_keeps [of p_threads, OF stdin_threads(1)] by (metis snd_conv)

lemma Handle_sys_read_inv:
  assumes uc: "user_call k" and inv: "sched_inv (sch k)" and r: "Handle_sys_read sv fd buf cnt k = Some (r, k')"
  shows "sched_inv (sch k')"
proof (cases "fd = 0")
  case True
  obtain bs pc where rd: "read_stdin (if 256 < unat cnt then 256 else unat cnt) (proc (sch k) (cur k)) = (bs, pc)" by fastforce
  define k1 where "k1 = set_proc (cur k) (\<lambda>_. pc) k"
  have "sched_inv (sch k1)" unfolding k1_def
    by (rule set_proc_inv [OF inv user_callD(2) [OF uc inv]]) (rule read_stdin_threads [OF rd])
  moreover have "k' = k \<or> k' = k1 \<or> k' = snd (to_user (cur k) buf bs k1)"
    using r True unfolding Handle_sys_read_def Let_def rd k1_def by (simp split: if_splits prod.splits)
  ultimately show ?thesis using inv sview_inv [OF sview_memory(3)] by metis
next
  case False
  have "k' = k \<or> (\<exists>fs. k' = k\<lparr>fsy := fs\<rparr>) \<or> (\<exists>fs bs. k' = snd (to_user (cur k) buf bs (k\<lparr>fsy := fs\<rparr>)))"
    using r False unfolding Handle_sys_read_def Let_def by (simp split: if_splits prod.splits option.splits) (metis snd_conv)+
  then have "sview k' = sview k" using sview_memory(3) by auto
  then show ?thesis using inv sview_inv by blast
qed

lemma Handle_sys_open_inv:
  assumes uc: "user_call k" and inv: "sched_inv (sch k)"
  shows "sched_inv (sch (snd (Handle_sys_open sv path fl k)))"
proof -
  have "sched_inv (sch (set_proc (cur k) (\<lambda>pc. pc\<lparr>fdTable := t\<rparr>) (k\<lparr>fsy := fs\<rparr>)))" for t fs
    by (rule set_proc_inv) (use inv user_callD(2) [OF uc inv] in simp_all)
  then show ?thesis using inv by (simp add: Handle_sys_open_def Let_def split: option.splits prod.splits)
qed

lemma Handle_sys_close_inv:
  assumes uc: "user_call k" and inv: "sched_inv (sch k)"
  shows "sched_inv (sch (snd (Handle_sys_close sv fd k)))"
proof -
  have "sched_inv (sch (set_proc (cur k) (\<lambda>pc. pc\<lparr>fdTable := t\<rparr>) (k\<lparr>fsy := fs\<rparr>)))" for t fs
    by (rule set_proc_inv) (use inv user_callD(2) [OF uc inv] in simp_all)
  then show ?thesis using inv by (simp add: Handle_sys_close_def Let_def)
qed

lemma Handle_sys_brk_inv:
  assumes uc: "user_call k" and inv: "sched_inv (sch k)"
  shows "sched_inv (sch (snd (Handle_sys_brk sv brk k)))"
proof -
  have "sched_inv (sch (set_vm v k))" for v using inv sview_inv [OF sview_memory(1)] by blast
  moreover have "sched_inv (sch (set_proc (cur k) (\<lambda>pc. pc\<lparr>heap := h\<rparr>) k))" for h
    by (rule set_proc_inv) (use inv user_callD(2) [OF uc inv] in simp_all)
  moreover have "sched_inv (sch (set_proc (cur k) (\<lambda>pc. pc\<lparr>heap := h\<rparr>) (set_vm v k)))" for h v
    by (rule set_proc_inv) (use calculation(1) user_callD(2) [OF uc inv] in \<open>simp_all add: set_vm_def\<close>)
  ultimately show ?thesis using inv unfolding Handle_sys_brk_def Let_def by (simp split: prod.splits)
qed

lemma Handle_sys_nanosleep_inv:
  assumes uc: "user_call k" and inv: "sched_inv (sch k)"
  shows "sched_inv (sch (snd (Handle_sys_nanosleep req rem k)))"
proof -
  have s: "sched_inv (Sleep ms (sch k))" for ms
    by (rule Sleep_inv [OF inv]) (use uc user_callD [OF uc inv] in \<open>simp_all add: user_call_def\<close>)
  have "sched_inv (sch k')" if "to_user p a bs (k\<lparr>sch := Sleep ms (sch k)\<rparr>) = (ok, k')" for p a bs ms ok k'
    using sview_inv [OF sview_to_user [OF that]] s by simp
  then show ?thesis using inv s by (auto simp: Handle_sys_nanosleep_def Let_def split: option.splits prod.splits)
qed

lemma Handle_sys_clone_inv:
  assumes inv: "sched_inv (sch k)" and fr: "fresh_objects (newPcb sv) (newTcb sv)"
  shows "sched_inv (sch (snd (Handle_sys_clone sv ctx fl st pt ct k)))"
  using inv CloneCurrentThread_inv [OF inv fr, of ctx fl st pt ct] CloneCurrentProcess_inv [OF inv fr, of ctx fl st pt ct]
  by (auto simp: Handle_sys_clone_def split: prod.splits)

lemma exec_started:
  assumes inv: "sched_inv (sch k)" and fr: "fresh_objects (newPcb sv) (newTcb sv)"
    and pid: "\<forall>q \<in> set (globalProcessList (sch k)). p_pid (proc (sch k) q) \<noteq> pidCounter (sch k)"
    and ld: "loadELF (fat sv) (newPcb sv) (newTcb sv) (kmalloc sv) f args fs (sch k) = Some (child, fs', s)"
  shows "sched_inv s" and "child \<noteq> null_ptr \<Longrightarrow> p_threads (h (proc s child)) = p_threads (proc s child) \<Longrightarrow>
    sched_inv (snd (StartProcess (newTcb sv) child args (attach_cli p child (upd_proc child h s))))"
proof -
  note V = loadELF_view [OF inv fr pid ld]
  show i: "sched_inv s"
  proof (cases "child = null_ptr")
    case True
    then have "view s = view (sch k)" using V by simp
    then show ?thesis using view_sched_inv inv by blast
  next
    case False
    then have v: "child \<notin> dom (procs (sch k))" "view s = view (add_proc child (proc s child) (sch k))" "p_threads (proc s child) = []" using V by simp_all
    show ?thesis using add_proc_inv [OF inv v(1) False v(3)] view_sched_inv [OF v(2)] by blast
  qed
  assume c: "child \<noteq> null_ptr" and h: "p_threads (h (proc s child)) = p_threads (proc s child)"
  have "view s = view (add_proc child (proc s child) (sch k))" using V c by simp
  from view_parts [OF this] have "procs s = procs (add_proc child (proc s child) (sch k))" by blast
  moreover have "procs (add_proc child pc (sch k)) child = Some pc" for pc by (simp add: add_proc_def)
  ultimately have d: "child \<in> dom (procs s)" by (metis domI)
  have u: "sched_inv (upd_proc child h s)" "child \<in> dom (procs (upd_proc child h s))" using upd_proc_inv [OF i d] h by (simp_all add: upd_proc_def)
  have "sched_inv (attach_cli p child (upd_proc child h s)) \<and> child \<in> dom (procs (attach_cli p child (upd_proc child h s)))"
    unfolding attach_cli_def Let_def using u by (auto intro!: upd_proc_inv simp: stdin_threads) (simp add: upd_proc_def)
  then show "sched_inv (snd (StartProcess (newTcb sv) child args (attach_cli p child (upd_proc child h s))))"
    using StartProcess_inv [OF _ fr] by blast
qed

lemma Handle_sys_execve_inv:
  assumes inv: "sched_inv (sch k)" and fr: "fresh_objects (newPcb sv) (newTcb sv)"
    and pid: "\<forall>q \<in> set (globalProcessList (sch k)). p_pid (proc (sch k) q) \<noteq> pidCounter (sch k)"
    and r: "Handle_sys_execve sv path argv k = Some (r, k')"
  shows "sched_inv (sch k')"
proof -
  note E = exec_started [OF inv fr pid]
  have E2: "sched_inv s2" if "StartProcess (newTcb sv) child args (attach_cli p child (upd_proc child (\<lambda>pc. pc\<lparr>programArgs := a, cwd := c pc\<rparr>) s)) = (b, s2)"
      "loadELF (fat sv) (newPcb sv) (newTcb sv) (kmalloc sv) f args fs (sch k) = Some (child, fs', s)" "child \<noteq> null_ptr" for child args p a c s b s2 f fs fs'
    using E(2) [OF that(2,3), of "\<lambda>pc. pc\<lparr>programArgs := a, cwd := c pc\<rparr>" p] that(1) by simp
  show ?thesis using r inv unfolding Handle_sys_execve_def Let_def
    by (auto split: if_splits option.splits prod.splits intro: E(1) E2)
qed

lemma Hcall_regEventH_inv:
  assumes uc: "user_call k" and inv: "sched_inv (sch k)" and fr: "fresh_objects (newPcb sv) (newTcb sv)"
  shows "sched_inv (sch (snd (Hcall_regEventH sv a e k)))"
proof -
  obtain t s where c: "CreateThread (newTcb sv) (cur k) e a (sch k) = (t, s)" by fastforce
  have i: "sched_inv s" using CreateThread_inv [OF inv fr user_callD(2) [OF uc inv], of e a] c by simp
  have "sched_inv (TerminateThread t s)" if t0: "t \<noteq> null_ptr"
  proof -
    have nt: "newTcb sv (sch k) = t" "newTcb sv (sch k) \<noteq> null_ptr" using c t0 by (auto simp: CreateThread_def Let_def split: if_splits prod.splits bool.splits option.splits)
    obtain tc where v: "view s = view (add_thread (cur k) t tc (sch k))" "t_parent tc = cur k"
      using CreateThread_view [OF freshD(1) [OF fr nt(2)] user_callD(1) [OF uc inv] c] t0 by auto
    have "t \<in> dom (threads s)" "t_parent (thread s t) = cur k" using view_parts [OF v(1)] v(2) by (simp_all add: add_thread_fields)
    moreover have "t_parent (thread s (idleThread s)) = null_ptr" using i proc_invD(7) live_dom by (auto simp: sched_inv_def)
    ultimately show ?thesis using TerminateThread_inv [OF i] user_callD(1) [OF uc inv] by metis
  qed
  then show ?thesis using i c by (simp add: Hcall_regEventH_def Let_def)
qed

lemma Hcall_process_inv:
  assumes uc: "user_call k" and inv: "sched_inv (sch k)"
  shows "sched_inv (sch (snd (Hcall_initCli sv k)))" "sched_inv (sch (snd (Hcall_stdinPush pid c k)))" "sched_inv (sch (snd (Hcall_setCliHostView w k)))"
proof -
  note d = user_callD [OF uc inv]
  define k1 where "k1 = set_proc (cur k) (\<lambda>pc. ClearProcessStdin (pc\<lparr>stdinAttached := True\<rparr>)) k"
  have k1: "sched_inv (sch k1)" unfolding k1_def by (rule set_proc_inv [OF inv d(2)]) (simp add: stdin_threads)
  have "sview (RevokeFramebufferMapping dir kk) = sview kk" for dir and kk :: "('a, 'b, 'c, 'd) kernel"
    by (simp add: RevokeFramebufferMapping_def Let_def)
  then have "sched_inv (sch (RevokeFramebufferMapping dir (k1\<lparr>kbd := kb\<rparr>)))" for dir kb using k1 sview_inv by (metis kernel.select_convs(1) kernel.surjective kernel.update_convs(6))
  then show "sched_inv (sch (snd (Hcall_initCli sv k)))" using k1 inv unfolding Hcall_initCli_def Let_def k1_def [symmetric] by simp
  have "target = null_ptr \<or> target \<in> dom (procs (sch k))" if "target = FindProcess pid (sch k)" for target
  proof (cases "find (\<lambda>p. p_pid (proc (sch k) p) = pid) (globalProcessList (sch k))")
    case (Some q)
    then have "q \<in> set (globalProcessList (sch k))" by (auto simp: find_Some_iff)
    then have "q \<in> dom (procs (sch k))" using inv proc_invD(2) by (auto simp: sched_inv_def)
    then show ?thesis using that Some d(2) by (simp add: FindProcess_def)
  qed (use that d(2) in \<open>simp add: FindProcess_def\<close>)
  then show "sched_inv (sch (snd (Hcall_stdinPush pid c k)))" using inv d(2)
    by (auto simp: Hcall_stdinPush_def Let_def stdin_threads intro!: set_proc_inv)
  show "sched_inv (sch (snd (Hcall_setCliHostView w k)))" using inv d(2)
    by (auto simp: Hcall_setCliHostView_def intro!: set_proc_inv)
qed

lemma Handle_sys_Hcall_inv:
  assumes "user_call k" "sched_inv (sch k)" "fresh_objects (newPcb sv) (newTcb sv)"
  shows "sched_inv (sch (snd (Handle_sys_Hcall sv n a b c k)))"
  unfolding Handle_sys_Hcall_def Let_def
  using assms Hcall_process_inv [OF assms(1,2)] Hcall_regEventH_inv [OF assms]
    sview_getFramebuffer [of a b c k, THEN sview_inv] sview_calls(7) [of a k, THEN sview_inv] by simp

lemma handler_inv:
  assumes uc: "user_call k" and inv: "sched_inv (sch k)" and fr: "fresh_objects (newPcb sv) (newTcb sv)"
    and pid: "\<forall>q \<in> set (globalProcessList (sch k)). p_pid (proc (sch k) q) \<noteq> pidCounter (sch k)"
    and r: "handler sv ctx cpu k = Some (r, k')"
  shows "sched_inv (sch k')"
proof -
  have *: "sched_inv (sch k')" if "sched_inv (sch (snd x))" "x = (r, k')" for x using that by simp
  note views = sview_calls [THEN sview_inv, THEN iffD2, OF inv]
  show ?thesis
    using r Handle_sys_read_inv [OF uc inv] Handle_sys_execve_inv [OF inv fr pid] sview_getdents sview_inv inv
      * [OF views(1)] * [OF views(2)] * [OF views(3)] * [OF views(4)] * [OF views(5)] * [OF views(6)]
      * [OF Handle_sys_open_inv [OF uc inv]] * [OF Handle_sys_close_inv [OF uc inv]] * [OF Handle_sys_brk_inv [OF uc inv]]
      * [OF Handle_sys_nanosleep_inv [OF uc inv]] * [OF Handle_sys_clone_inv [OF inv fr]] * [OF Handle_sys_Hcall_inv [OF uc inv fr]]
    unfolding handler_def by (simp split: if_splits) blast+
qed

lemma sch_cleanup: "sch (CleanupExitedProcessGui sv pid k) = sch k"
  by (simp add: CleanupExitedProcessGui_def Let_def)

lemma exit_inv:
  assumes uc: "user_call k" and inv: "sched_inv (sch k)"
  shows "sched_inv (sch (snd (Handle_sys_exit sv k)))" "sched_inv (sch (snd (Handle_sys_exit_group sv k)))"
proof -
  show "sched_inv (sch (snd (Handle_sys_exit sv k)))"
    using ExitCurrentThread_inv [OF inv user_callD(4) [OF uc inv]] by (auto simp: Handle_sys_exit_def Let_def sch_cleanup split: prod.splits)
  show "sched_inv (sch (snd (Handle_sys_exit_group sv k)))"
    using KillProcess_spec [OF inv] inv by (auto simp: Handle_sys_exit_group_def Let_def sch_cleanup split: prod.splits)
qed

subsection \<open>Leaving\<close>

lemma Schedule_procs: "procs (snd (Schedule ctx s)) = procs s"
proof -
  have d: "procs (dispatch s) = procs s" for s by (cases "readyQueue s") (simp_all add: dispatch_def Let_def)
  have w: "procs (wake_expired n s) = procs s" for n s
  proof (induction n arbitrary: s)
    case (Suc n)
    then show ?case by (cases "blockedQueue s") (simp_all add: Let_def)
  qed simp
  have p: "procs (park_current ctx s) = procs s" by (simp add: park_current_def Let_def)
  show ?thesis by (simp add: Schedule_def Let_def DrainPendingReclaims_def drain_fields d w p del: wake_expired.simps)
qed

text \<open>A switch ends no thread of a process and starts none.\<close>

lemma Schedule_live:
  assumes "sched_inv s" "p \<noteq> null_ptr"
  shows "live (snd (Schedule ctx s)) t p \<longleftrightarrow> live s t p"
proof (cases "procs s p")
  case None
  then show ?thesis using no_proc_killed [OF assms(1) _ assms(2)] no_proc_killed [OF Schedule_inv [OF assms(1)] _ assms(2)]
    by (auto simp: killed_def Schedule_procs domIff)
next
  case (Some pc)
  have i: "proc_inv s" "proc_inv (snd (Schedule ctx s))" using assms(1) Schedule_inv [OF assms(1)] by (simp_all add: sched_inv_def)
  show ?thesis using proc_invD(5) [OF i(1) Some] proc_invD(5) [OF i(2), of p pc] Some by (simp add: Schedule_procs)
qed

definition pids_distinct :: "sched \<Rightarrow> bool" where
  "pids_distinct s \<longleftrightarrow> inj_on (\<lambda>p. p_pid (proc s p)) (set (globalProcessList s))"

lemma kill_current:
  assumes inv: "sched_inv s" and pd: "pids_distinct s" and p: "p \<in> dom (procs s)"
  shows "fst (KillProcess (p_pid (proc s p)) s)" and "\<not> live (snd (KillProcess (p_pid (proc s p)) s)) t p"
proof -
  obtain b s' where k: "KillProcess (p_pid (proc s p)) s = (b, s')" by fastforce
  have m: "p \<in> set (globalProcessList s)" using p inv proc_invD(2) by (auto simp: sched_inv_def)
  note S = KillProcess_spec [OF inv k]
  then show "fst (KillProcess (p_pid (proc s p)) s)" using m k by auto
  then obtain q where q: "q \<in> set (globalProcessList s)" "p_pid (proc s q) = p_pid (proc s p)" "\<forall>x r. live s' x r \<longleftrightarrow> live s x r \<and> r \<noteq> q"
    using S k by auto
  then have "q = p" using pd m by (auto simp: pids_distinct_def inj_on_def)
  then show "\<not> live (snd (KillProcess (p_pid (proc s p)) s)) t p" using q(3) k by simp
qed

lemma exit_ends:
  assumes uc: "user_call k" and inv: "sched_inv (sch k)" and pd: "pids_distinct (sch k)"
  shows "\<not> live (sch (snd (Handle_sys_exit sv k))) (currentThread (sch k)) (cur k)"
    and "p_pid (proc (sch k) (cur k)) \<noteq> 0 \<Longrightarrow> \<not> live (sch (snd (Handle_sys_exit_group sv k))) t (cur k)"
proof -
  note d = user_callD [OF uc inv]
  let ?t = "currentThread (sch k)"
  have td: "?t \<in> dom (threads (sch k))" using inv d(3) queue_invD(8) by (simp add: sched_inv_def)
  have par: "t_parent (thread (sch k) ?t) = cur k" using d(3) by (simp add: GetCurrentProcess_def)
  have "\<not> live (TerminateThread ?t (sch k)) ?t (cur k)"
    using TerminateThread_live [OF td d(3)] uc by (auto simp: user_call_def)
  then have "\<not> live (snd (ExitCurrentThread (sch k))) ?t (cur k)"
    using kill_current(2) [OF inv pd d(2)] d(1,3) par by (simp add: ExitCurrentThread_def Let_def)
  moreover have "sch (snd (Handle_sys_exit sv k)) = snd (ExitCurrentThread (sch k))"
    by (cases "ExitCurrentThread (sch k)") (simp add: Handle_sys_exit_def Let_def sch_cleanup)
  ultimately show "\<not> live (sch (snd (Handle_sys_exit sv k))) ?t (cur k)" by simp
  assume "p_pid (proc (sch k) (cur k)) \<noteq> 0"
  then show "\<not> live (sch (snd (Handle_sys_exit_group sv k))) t (cur k)"
    using kill_current [OF inv pd d(2)] d(1) by (auto simp: Handle_sys_exit_group_def Let_def sch_cleanup split: prod.splits)
qed

text \<open>
  Property C2. Whatever number and arguments a program puts into its registers, a system call leaves the scheduler
  consistent: its invariant holds again (queues and states agree, threads and processes agree), through every
  handler that returns, failing or not. The exit calls end what they name, the calling thread for \<^verbatim>\<open>sys_exit\<close> and every thread of
  the process for \<^verbatim>\<open>sys_exit_group\<close> (unless its pid is 0), and continue with a running thread from its saved
  registers; every other call that returns, returns to its caller. Only the reset (0) and, in a directory scan that never ends, the reading
  calls \<^verbatim>\<open>sys_read\<close>, \<^verbatim>\<open>sys_execve\<close> and \<^verbatim>\<open>sys_getdents\<close> may fail to return. Assumed: the kernel heap returns fresh addresses, and pids are unique and the
  next one unused.
\<close>

theorem syscall_keeps_scheduler:
  assumes uc: "user_call k" and inv: "sched_inv (sch k)" and fr: "fresh_objects (newPcb sv) (newTcb sv)"
    and pid: "\<forall>q \<in> set (globalProcessList (sch k)). p_pid (proc (sch k) q) \<noteq> pidCounter (sch k)" "pids_distinct (sch k)"
  shows "let call = eax (contexts (sch k) ctx) in
    case HandleInterrupt sv ctx k of
      None \<Rightarrow> call = 0 \<or> call = 3 \<or> call = 11 \<or> call = 141
    | Some (ctx', k') \<Rightarrow> sched_inv (sch k') \<and>
        (let s' = sch k'; t = currentThread s' in
         if call = 1 \<or> call = 252 then in_state s' THREAD_STATE_RUNNING t \<and> ctx' = cpu_context (thread s' t) \<and>
           (call = 1 \<longrightarrow> \<not> live s' (currentThread (sch k)) (cur k)) \<and>
           (call = 252 \<and> p_pid (proc (sch k) (cur k)) \<noteq> 0 \<longrightarrow> (\<forall>t. \<not> live s' t (cur k)))
         else ctx' = ctx)"
proof -
  let ?call = "eax (contexts (sch k) ctx)"
  note d = user_callD [OF uc inv] and e = exit_inv [OF uc inv, of sv] and x = exit_ends [OF uc inv pid(2), of sv]
  have sw: "sched_inv (sch k2) \<and> in_state (sch k2) THREAD_STATE_RUNNING (currentThread (sch k2)) \<and>
      c2 = cpu_context (thread (sch k2) (currentThread (sch k2))) \<and> (\<forall>t. live (sch k2) t (cur k) \<longleftrightarrow> live (sch k1) t (cur k))"
    if "reschedule ctx k1 = (c2, k2)" "sched_inv (sch k1)" for k1 k2 c2
  proof -
    have k2: "sch k2 = snd (Schedule ctx (sch k1))" "c2 = fst (Schedule ctx (sch k1))"
      using that(1) by (auto simp: reschedule_def split: prod.splits)
    have "queue_inv (sch k1)" using that(2) by (simp add: sched_inv_def)
    moreover have "fst (Schedule ctx (sch k1)) = cpu_context (thread (snd (Schedule ctx (sch k1))) (currentThread (snd (Schedule ctx (sch k1)))))"
      unfolding Schedule_def Let_def by (simp only: fst_conv snd_conv)
    ultimately show ?thesis
      unfolding k2 using Schedule_inv [OF that(2), of ctx] Schedule_runs_current [of "sch k1" ctx] Schedule_live [OF that(2) d(1), of ctx] by blast
  qed
  consider "?call = 1" | "?call = 252" | "?call \<noteq> 1" "?call \<noteq> 252" "HandleInterrupt sv ctx k = None"
    | ctx' k' where "?call \<noteq> 1" "?call \<noteq> 252" "HandleInterrupt sv ctx k = Some (ctx', k')" by fastforce
  then show ?thesis
  proof cases
    case 1
    then show ?thesis using sw [OF _ e(1)] x(1) by (auto simp: HandleInterrupt_def Let_def split: prod.splits)
  next
    case 2
    then show ?thesis using sw [OF _ e(2)] x(2) by (auto simp: HandleInterrupt_def Let_def split: prod.splits)
  next
    case 3
    then show ?thesis by (auto simp: HandleInterrupt_def handler_def Let_def split: if_splits)
  next
    case 4
    then obtain q k1 where h: "handler sv ctx (contexts (sch k) ctx) k = Some (q, k1)" "ctx' = ctx" "k' = set_result ctx q k1"
      by (auto simp: HandleInterrupt_def Let_def split: if_splits)
    then show ?thesis using handler_inv [OF uc inv fr pid(1) h(1)] sview_memory(4) [of ctx q k1, THEN sview_inv] 4 by (simp add: Let_def)
  qed
qed

subsection \<open>A small kernel\<close>

definition sample_services :: "(nat \<times> u8 list, nat, unit, unit) services" where
  "sample_services = \<lparr>fat = ram_api, newPcb = sample_newP, newTcb = sample_newT, newFil = one_File, newArgs = (\<lambda>_. 0x3000),
     kmalloc = (\<lambda>_. True), hasDesktop = (\<lambda>_. False), hasHgui = (\<lambda>_. False), desktopRemoveApp = (\<lambda>_ g. g), hguiRemoveApp = (\<lambda>_ g. g),
     MarkDirty = (\<lambda>g. g), createNewHandler = (\<lambda>_ _ g. g)\<rparr>"

definition sample_kernel :: "sched \<Rightarrow> (nat \<times> u8 list, nat, unit) fsys \<Rightarrow> (nat \<times> u8 list, nat, unit, unit) kernel" where
  "sample_kernel s fs = \<lparr>sch = s, fsy = fs, mounted0 = True, argBlocks = Map.empty, serial = [], kbd = None, mse = None, gui = (),
     screen = None, g_stop_gui_rendering = False, g_gui_owner_pid = -1, g_fb_private_start_pd = 0, g_fb_private_end_pd = 0,
     g_fb_private_owner = 0, g_fb_private_valid = False\<rparr>"

text \<open>The first of the two threads of the small machine calls \<^verbatim>\<open>sys_exit\<close>.\<close>

definition exiting :: sched where
  "exiting = (snd (Schedule 0 sample_two))\<lparr>contexts := (\<lambda>_. zero_context\<lparr>eax := 1\<rparr>)\<rparr>"

lemma exiting_facts:
  "sched_inv exiting" "GetCurrentProcess exiting = 0x200000" "t_state (thread exiting (currentThread exiting)) = THREAD_STATE_RUNNING"
  "globalProcessList exiting = [0x200000]" "p_pid (proc exiting 0x200000) \<noteq> pidCounter exiting" "currentThread exiting = 0x100100"
proof -
  have "view exiting = view (snd (Schedule 0 sample_two))" by (simp add: exiting_def view_def)
  then show "sched_inv exiting" using view_sched_inv Schedule_inv sched_reachable_inv [OF sample_fresh sample_reachable] by blast
  show "GetCurrentProcess exiting = 0x200000" "t_state (thread exiting (currentThread exiting)) = THREAD_STATE_RUNNING"
    "globalProcessList exiting = [0x200000]" "p_pid (proc exiting 0x200000) \<noteq> pidCounter exiting" "currentThread exiting = 0x100100"
    unfolding exiting_def by code_simp+
qed

theorem syscall_keeps_scheduler_witness:
  "\<exists>ctx' k'. HandleInterrupt sample_services 0x5000 (sample_kernel exiting sample_mount) = Some (ctx', k') \<and> sched_inv (sch k') \<and>
     in_state (sch k') THREAD_STATE_RUNNING (currentThread (sch k')) \<and> \<not> live (sch k') 0x100100 0x200000"
proof -
  let ?k = "sample_kernel exiting sample_mount"
  have s: "sch ?k = exiting" by (simp add: sample_kernel_def)
  have c: "eax (contexts exiting 0x5000) = 1" by (simp add: exiting_def)
  obtain ctx' k' where h: "HandleInterrupt sample_services 0x5000 ?k = Some (ctx', k')"
    by (auto simp: HandleInterrupt_def Let_def s c split: prod.splits) (metis surj_pair)
  have "user_call ?k" unfolding user_call_def s exiting_facts(2,3) by simp
  moreover have "fresh_objects (newPcb sample_services) (newTcb sample_services)" by (simp add: sample_services_def sample_fresh)
  ultimately show ?thesis
    using syscall_keeps_scheduler [of ?k sample_services "0x5000", unfolded s c exiting_facts] exiting_facts(1,5) h
    by (auto simp: pids_distinct_def exiting_facts Let_def)
qed

end
