(* ===== verification/Syscall_Io.thy ===== *)
theory Syscall_Io
  imports Syscall_Inv
begin

text \<open>
  What the calls that move data deliver to their process: reading standard input, writing a file and reading it back, through
  the process's page tables.
\<close>

subsection \<open>The memory of the caller\<close>

text \<open>The calling process, its page directory and the pages \<open>g\<close> that are mapped in it.\<close>

abbreviation caller_dir :: "('v, 'f, 'd, 'g) kernel \<Rightarrow> u32" where "caller_dir k \<equiv> page_directory (proc (sch k) (cur k))"

definition user_space :: "nat set \<Rightarrow> memory \<Rightarrow> u32 set \<Rightarrow> (nat \<rightharpoonup> nat) \<Rightarrow> ('v, 'f, 'd, 'g) kernel \<Rightarrow> bool" where
  "user_space K m0 D g k \<longleftrightarrow> cur k \<noteq> null_ptr \<and> image_inv K m0 D (caller_dir k) g (vm (sch k)) \<and> maps_exactly g (mem k) (caller_dir k)"

lemma user_spaceD:
  assumes "user_space K m0 D g k"
  shows "cur k \<noteq> null_ptr" "image_inv K m0 D (caller_dir k) g (vm (sch k))" "maps_exactly g (mem k) (caller_dir k)"
    "space_of (cur k) k = Some (caller_dir k)"
  using assms by (simp_all add: user_space_def space_of_def)

lemma IsUserRange_caller: "user_space K m0 D g k \<Longrightarrow> 0 < cnt \<Longrightarrow> IsUserRange (mem k) (space_of (cur k) k) a cnt \<longleftrightarrow> in_user g a (unat cnt)"
  using IsUserRange_iff [OF user_spaceD(3), of K m0 D g k "unat cnt" a] unat_u32_bound [of cnt]
  by (simp add: user_spaceD(4) word_less_nat_alt)

lemma in_user_guards:
  assumes "in_user g a (unat cnt)" "0 < cnt"
  shows "a \<noteq> null_ptr" "\<not> (a < USER_LOWER_BOUND \<or> 0xFFFFFFFF - cnt + 1 < a)" "\<not> USER_UPPER_BOUND \<le> a + cnt - 1"
proof -
  have b: "unat USER_LOWER_BOUND \<le> unat a" "unat a + unat cnt \<le> unat USER_UPPER_BOUND" using assms(1) by (simp_all add: in_user_def)
  have c: "0 < unat cnt" using assms(2) by (simp add: word_less_nat_alt)
  show "a \<noteq> null_ptr" using b(1) by auto
  have "unat (0xFFFFFFFF - cnt) = 0xFFFFFFFF - unat cnt" using unat_u32_bound [of cnt] by (simp add: unat_sub word_le_nat_alt)
  then have "unat (0xFFFFFFFF - cnt + 1) = 0x100000000 - unat cnt" using c unat_u32_bound [of cnt] by (subst unat_add_small) simp_all
  then show "\<not> (a < USER_LOWER_BOUND \<or> 0xFFFFFFFF - cnt + 1 < a)" using b by (simp add: word_less_nat_alt)
  have "unat (a + cnt) = unat a + unat cnt" using b by (intro unat_add_small) simp
  then have "unat (a + cnt - 1) = unat a + unat cnt - 1" using c unat_dec [of "a + cnt"] by simp
  then show "\<not> USER_UPPER_BOUND \<le> a + cnt - 1" using b c by (simp add: word_le_nat_alt)
qed

lemma set_mem_fields [simp]:
  "cur (set_mem m k) = cur k" "caller_dir (set_mem m k) = caller_dir k" "vm (sch (set_mem m k)) = (vm (sch k))\<lparr>vm_mem := m\<rparr>"
  "fsy (set_mem m k) = fsy k" "procs (sch (set_mem m k)) = procs (sch k)"
  by (simp_all add: set_mem_def set_vm_def GetCurrentProcess_def)

lemma to_user_caller:
  assumes sp: "user_space K m0 D g k" and a: "in_user g a (length bs)" and bs: "bs \<noteq> []"
  shows "\<exists>m'. to_user (cur k) a bs k = (True, set_mem m' k) \<and> user_space K m0 D g (set_mem m' k) \<and> user_written g (caller_dir k) a bs (mem k) m'"
proof -
  have n: "0 < length bs" "length bs < 2 ^ 32" using bs a by (simp_all add: in_user_def)
  note s = in_user_span [OF a] and d = user_spaceD [OF sp]
  obtain m' where c: "copy_out (caller_dir k) a bs (mem k) = (True, m')" "image_inv K m0 D (caller_dir k) g ((vm (sch k))\<lparr>vm_mem := m'\<rparr>)"
    "user_written g (caller_dir k) a bs (mem k) m'" using copy_out_image [OF d(2) _ n(2)] s by blast
  have "to_user (cur k) a bs k = (True, set_mem m' k)"
    using c(1) s bs IsUserRange_iff [OF d(3) n, of a] a by (simp add: to_user_def CopyToUser_def d(4))
  moreover have "maps_exactly g m' (caller_dir k)" using d(3) c(3) by (simp add: maps_exactly_def user_written_def)
  ultimately show ?thesis using c(2,3) d(1) by (auto simp: user_space_def)
qed

definition user_bytes :: "('v, 'f, 'd, 'g) kernel \<Rightarrow> u32 \<Rightarrow> nat \<Rightarrow> u8 list" where
  "user_bytes k a n = map (\<lambda>i. user_byte (mem k) (caller_dir k) (a + of_nat i)) [0..<n]"

lemma from_user_caller:
  assumes sp: "user_space K m0 D g k" and a: "in_user g a (unat cnt)" and c: "0 < cnt"
  shows "from_user (cur k) a cnt k = Some (user_bytes k a (unat cnt))"
  using CopyFromUser_image [OF user_spaceD(2,3) [OF sp], of "unat cnt" a] a c unat_u32_bound [of cnt]
  by (simp add: from_user_def user_spaceD(4) [OF sp] user_bytes_def word_less_nat_alt)

subsection \<open>Standard input\<close>

lemma line_length: "length (line n xs) \<le> n"
  by (induction n xs rule: line.induct) simp_all

lemma read_stdin_dir: "page_directory (snd (read_stdin n pc)) = page_directory pc"
  by (rule read_stdin_keeps) (simp add: PopProcessStdin_def)

text \<open>
  Property C12. Reading descriptor 0 delivers the typed line: when the buffer lies in mapped user memory, \<^verbatim>\<open>sys_read\<close> returns and writes
  to the buffer the queued characters up to and with the first newline, at most as many as asked for and at most 256; exactly
  these leave the queue, in order, and no other byte of the process changes. Any other buffer is refused and
  nothing changes.
\<close>

theorem sys_read_stdin:
  assumes sp: "user_space K m0 D g k" and ok: "stdin_ok (proc (sch k) (cur k))" and cnt: "0 < cnt"
  shows "\<exists>r k'. Handle_sys_read sv 0 buf cnt k = Some (r, k') \<and>
    (let waiting = stdin_of (proc (sch k) (cur k)); bs = line (if 256 < unat cnt then 256 else unat cnt) waiting in
     if in_user g buf (unat cnt)
     then r = of_nat (length bs) \<and> user_written g (caller_dir k) buf bs (mem k) (mem k') \<and> user_space K m0 D g k' \<and>
       stdin_ok (proc (sch k') (cur k)) \<and> stdin_of (proc (sch k') (cur k)) = drop (length bs) waiting
     else r = -1 \<and> k' = k)"
proof (cases "in_user g buf (unat cnt)")
  case False
  then have "Handle_sys_read sv 0 buf cnt k = Some (-1, k)"
    using cnt IsUserRange_caller [OF sp cnt, of buf] unfolding Handle_sys_read_def Let_def by (simp add: word_gt_0)
  then show ?thesis using False by (simp add: Let_def)
next
  case True
  note G = in_user_guards [OF True cnt] and d = user_spaceD [OF sp]
  let ?n = "if 256 < unat cnt then 256 else unat cnt" and ?pc = "proc (sch k) (cur k)"
  obtain bs pc where rd: "read_stdin ?n ?pc = (bs, pc)" by fastforce
  note L = read_stdin_line [OF ok rd]
  define k1 where "k1 = set_proc (cur k) (\<lambda>_. pc) k"
  have k1: "cur k1 = cur k" "vm (sch k1) = vm (sch k)" "proc (sch k1) (cur k) = pc" and pd: "page_directory pc = caller_dir k"
    using read_stdin_dir [of ?n ?pc] rd by (simp_all add: k1_def set_proc_def upd_proc_def GetCurrentProcess_def)
  have sp1: "user_space K m0 D g k1" using sp by (simp add: user_space_def k1 pd)
  have h: "Handle_sys_read sv 0 buf cnt k = (if bs = [] then Some (0, k1)
      else case to_user (cur k) buf bs k1 of (ok, k) \<Rightarrow> Some (if ok then of_nat (length bs) else -1, k))"
    using G cnt d(1) IsUserRange_caller [OF sp cnt, of buf] True
    unfolding Handle_sys_read_def Let_def rd k1_def by (simp add: word_gt_0)
  show ?thesis
  proof (cases "bs = []")
    case True
    have "user_written g (caller_dir k) buf [] (mem k) (mem k1)" by (auto simp: user_written_def k1)
    then show ?thesis using h True L sp1 k1(3) \<open>in_user g buf (unat cnt)\<close> by (auto simp: Let_def)
  next
    case False
    have "length bs \<le> unat cnt" using L line_length [of ?n "stdin_of ?pc"] by (auto split: if_splits)
    then have "in_user g buf (length bs)" using True by (auto simp: in_user_def)
    from to_user_caller [OF sp1 this False] obtain m' where t: "to_user (cur k) buf bs k1 = (True, set_mem m' k1)"
      "user_space K m0 D g (set_mem m' k1)" "user_written g (caller_dir k) buf bs (mem k) m'" unfolding k1 pd by blast
    have "proc (sch (set_mem m' k1)) (cur k) = pc" using k1(3) by simp
    then show ?thesis using h False L t True by (auto simp: Let_def)
  qed
qed

subsection \<open>Files\<close>

lemma fsy_fields [simp]:
  "cur (k\<lparr>fsy := fs\<rparr>) = cur k" "caller_dir (k\<lparr>fsy := fs\<rparr>) = caller_dir k" "fds_of p (k\<lparr>fsy := fs\<rparr>) = fds_of p k"
  "user_space K m0 D g (k\<lparr>fsy := fs\<rparr>) = user_space K m0 D g k" "space_of p (k\<lparr>fsy := fs\<rparr>) = space_of p k"
  by (simp_all add: GetCurrentProcess_def fds_of_def user_space_def space_of_def)

text \<open>
  Property C11. What a program writes to a file it reads back: on a regular file opened for reading and writing, \<^verbatim>\<open>sys_write\<close> from one buffer
  returns \<open>-1\<close>, or a number \<open>r\<close> of bytes between 1 and the length asked for. Then \<^verbatim>\<open>sys_lseek\<close> to the old position returns this position,
  \<^verbatim>\<open>sys_read\<close> of \<open>r\<close> bytes into another buffer returns \<open>r\<close>, and the second buffer holds the first \<open>r\<close> bytes of the first, through the page
  tables, the kernel's copies and the file system; no other byte of the process changes. The whole buffer is written when the volume has the
  space for it, less when the disk is full; \<open>-1\<close> means that FatFs failed or stored nothing. The buffers are mapped user memory, the
  kernel heap has room for the kernel's copies, positions stay below 2 GB, and of FatFs \<open>stores_bytes\<close> is assumed: on a stream that has met no
  error, seeks and reads inside the file succeed, and a write that returns \<^verbatim>\<open>FR_OK\<close> stored the number of bytes it reports.
\<close>

theorem file_calls_roundtrip:
  assumes laws: "stores_bytes (fat sv) fid ptr cont space" and sp: "user_space K m0 D g k" and fd: "3 \<le> fd" "fd < 128"
    and rw: "open_rw fid cont (fdTable (proc (sch k) (cur k)) ! unat fd) f c (fsy k)" and heap: "\<forall>n. n \<le> cnt \<longrightarrow> kmalloc sv n"
    and n: "0 < cnt" "in_user g a (unat cnt)" "in_user g b (unat cnt)" and pos: "position f \<le> File.fsize f" "unat (position f) + unat cnt \<le> 0x7FFFFFFF"
  shows "\<exists>r k1. Handle_sys_write sv fd a cnt k = (r, k1) \<and> (unat cnt \<le> space (vol (fsy k)) \<longrightarrow> r = cnt) \<and>
    (r = -1 \<or> (0 < unat r \<and> unat r \<le> unat cnt \<and>
      (\<exists>k2 k3. Handle_sys_lseek fd (position f) 0 k1 = (position f, k2) \<and> Handle_sys_read sv fd b r k2 = Some (r, k3) \<and> user_space K m0 D g k3 \<and>
        user_written g (caller_dir k) b (take (unat r) (user_bytes k a (unat cnt))) (mem k) (mem k3))))"
proof -
  let ?p = "fdTable (proc (sch k) (cur k)) ! unat fd"
  define buf where "buf = user_bytes k a (unat cnt)"
  have len: "length buf = unat cnt" "buf \<noteq> []" "of_nat (length buf) = cnt" using n(1) by (auto simp: buf_def user_bytes_def word_less_nat_alt)
  note d = user_spaceD [OF sp] and A = in_user_guards [OF n(2,1)]
  have fds: "GetFileByFd (fds_of (cur k) k) fd = ?p" using fd d(1) by (simp add: GetFileByFd_def fds_of_def word_le_nat_alt word_less_nat_alt)
  have fd': "fd \<noteq> 0" "fd \<noteq> 1" "fd \<noteq> 2" "\<not> fd \<le> 2" using fd(1) by (auto simp: word_le_nat_alt)
  have p: "?p \<noteq> null_ptr" "objs (fsy k) ?p = Some f" "IsWritable f" using rw by (auto simp: open_rw_def IsWritable_def)
  obtain r s1 where w: "Write (fat sv) ?p (Some buf) (fsy k) = (r, s1)" "unat cnt \<le> space (vol (fsy k)) \<longrightarrow> r = cnt"
    and ok: "r = -1 \<or> (0 < unat r \<and> unat r \<le> length buf \<and>
        (\<exists>f'. open_rw fid cont ?p f' c s1 \<and> position f' = position f + r \<and> openFlags f' = openFlags f) \<and>
        cont (vol s1) = (cont (vol (fsy k)))(c := overwrite (cont (vol (fsy k)) c) (unat (position f)) (take (unat r) buf)))"
    using Write_stores [OF laws rw len(2) _ pos(1)] pos(2) len by auto
  have kc: "kmalloc sv cnt" using heap by simp
  have W: "Handle_sys_write sv fd a cnt k = (if sint r < 0 then -1 else r, k\<lparr>fsy := s1\<rparr>)"
    using A n(1) fd' fds p kc from_user_caller [OF sp n(2,1)] w(1)
    unfolding Handle_sys_write_def Let_def buf_def [symmetric] by (simp add: word_gt_0 buf_def [symmetric])
  show ?thesis
  proof (cases "r = -1")
    case True
    then show ?thesis using W w(2) by auto
  next
    case False
    with ok obtain f1 where r: "0 < unat r" "unat r \<le> length buf" and rw1: "open_rw fid cont ?p f1 c s1"
      and ct: "cont (vol s1) = (cont (vol (fsy k)))(c := overwrite (cont (vol (fsy k)) c) (unat (position f)) (take (unat r) buf))" by blast
    have rpos: "0 < r" "r \<le> cnt" using r len(1) by (simp_all add: word_less_nat_alt word_le_nat_alt)
    have "sint r = int (unat r)" using pos(2) r(2) len(1) by (intro sint_eq_unat) simp
    moreover have "0 < int (unat r)" using r(1) by (simp only: of_nat_0_less_iff)
    ultimately have sr: "0 < sint r" by (simp only:)
    then have W1: "Handle_sys_write sv fd a cnt k = (r, k\<lparr>fsy := s1\<rparr>)" using W by simp
    define rb where "rb = take (unat r) buf"
    have lr: "length rb = unat r" "rb \<noteq> []" using r by (auto simp: rb_def)
    let ?f = "f1\<lparr>position := position f\<rparr>" and ?s = "Seek ?p (position f) s1"
    have p1: "objs s1 ?p = Some f1" "openFlags f1 AND O_ACCMODE = O_RDWR" using rw1 by (simp_all add: open_rw_def)
    have sk: "?s = s1\<lparr>objs := (objs s1)(?p \<mapsto> ?f)\<rparr>" using p1 by (simp add: Seek_def upd_File_def Let_def IsWritable_def)
    have rw2: "open_rw fid cont ?p ?f c ?s" using rw1 unfolding sk by (auto simp: open_rw_def)
    have "sint (position f) = int (unat (position f))" using pos(2) by (intro sint_eq_unat) simp
    moreover have "int (unat (position f)) \<le> int 0x7FFFFFFF" using pos(2) by (simp only: of_nat_le_iff)
    ultimately have S: "Handle_sys_lseek fd (position f) 0 (k\<lparr>fsy := s1\<rparr>) = (position f, k\<lparr>fsy := ?s\<rparr>)"
      using fd'(4) d(1) fds p(1) pos(2) by (simp add: Handle_sys_lseek_def Let_def)
    have le: "unat (position f) \<le> length (cont (vol (fsy k)) c)" using pos(1) rw by (auto simp: open_rw_def word_le_nat_alt)
    have "unat (position ?f) + unat r \<le> unat (File.fsize ?f)"
      using rw1 le lr(1) by (simp add: open_rw_def ct length_overwrite rb_def [symmetric])
    from Read_returns_bytes [OF stores_bytesD(1) [OF laws] rw2 rpos(1) this, of "replicate (unat r) 0"] obtain s2
      where "Read (fat sv) ?p (Some (replicate (unat r) 0)) r ?s =
        Some (r, Some (overwrite (replicate (unat r) 0) 0 (take (length rb) (drop (unat (position f)) (cont (vol ?s) c)))), s2)" by (auto simp: lr(1))
    moreover have "take (length rb) (drop (unat (position f)) (cont (vol ?s) c)) = rb"
      using le by (simp add: sk ct take_drop_overwrite rb_def [symmetric])
    moreover have "overwrite (replicate (unat r) 0) 0 rb = rb" using lr(1) by (simp add: overwrite_def)
    ultimately have rd: "Read (fat sv) ?p (Some (replicate (unat r) 0)) r ?s = Some (r, Some rb, s2)" by (simp only:)
    have sp2: "user_space K m0 D g (k\<lparr>fsy := s2\<rparr>)" using sp by simp
    have nb: "in_user g b (unat r)" using n(3) r(2) len(1) by (auto simp: in_user_def)
    then have "in_user g b (length rb)" using lr(1) by simp
    from to_user_caller [OF sp2 this lr(2)] obtain m' where t: "to_user (cur k) b rb (k\<lparr>fsy := s2\<rparr>) = (True, set_mem m' (k\<lparr>fsy := s2\<rparr>))"
      "user_space K m0 D g (set_mem m' (k\<lparr>fsy := s2\<rparr>))" "user_written g (caller_dir k) b rb (mem k) m'" by auto
    have kr: "kmalloc sv r" using heap rpos(2) by simp
    have "Handle_sys_read sv fd b r (k\<lparr>fsy := ?s\<rparr>) = Some (r, set_mem m' (k\<lparr>fsy := s2\<rparr>))"
      using in_user_guards [OF nb rpos(1)] rpos(1) nb sr fd' fds p(1) kr d(1) rd t(1) lr(1) IsUserRange_caller [OF sp rpos(1), of b]
      unfolding Handle_sys_read_def Let_def by (simp add: word_gt_0)
    moreover have "mem (set_mem m' (k\<lparr>fsy := s2\<rparr>)) = m'" by simp
    ultimately have "\<exists>k2 k3. Handle_sys_lseek fd (position f) 0 (k\<lparr>fsy := s1\<rparr>) = (position f, k2) \<and> Handle_sys_read sv fd b r k2 = Some (r, k3) \<and>
        user_space K m0 D g k3 \<and> user_written g (caller_dir k) b (take (unat r) buf) (mem k) (mem k3)"
      using S t(2,3) unfolding rb_def by metis
    then show ?thesis using W1 w(2) r len(1) unfolding buf_def [symmetric] by (intro exI [of _ r] exI [of _ "k\<lparr>fsy := s1\<rparr>"]) simp
  qed
qed

subsection \<open>A small process\<close>

text \<open>
  The process of the two-page address space of \<open>user_vm\<close>, with four characters typed, the second the newline, and the file of
  \<open>sample_open\<close> as descriptor 3.
\<close>

definition typed_pcb :: pcb where
  "typed_pcb = fold PushProcessStdin [104, 105, 10, 33] (new_pcb\<lparr>page_directory := 0x9000, fdTable := (replicate 128 0)[3 := 0x1000]\<rparr>)"

definition typed :: "(nat \<times> u8 list, nat, unit, unit) kernel" where
  "typed = sample_kernel (upd_proc 0x200000 (\<lambda>_. typed_pcb) (exiting\<lparr>vm := user_vm\<rparr>)) sample_open"

lemma typed_facts:
  "cur typed = 0x200000" "proc (sch typed) 0x200000 = typed_pcb" "page_directory typed_pcb = 0x9000" "fdTable typed_pcb = (replicate 128 0)[3 := 0x1000]"
  "user_space {} (\<lambda>_. 0) {0x9000} user_map typed" "stdin_ok typed_pcb" "stdin_of typed_pcb = [104, 105, 10, 33]" "mem typed = user_mem"
proof -
  show c: "cur typed = 0x200000" using exiting_facts(2) by (simp add: typed_def sample_kernel_def GetCurrentProcess_def upd_proc_def split: if_splits)
  show p: "proc (sch typed) 0x200000 = typed_pcb" by (simp add: typed_def sample_kernel_def upd_proc_def)
  show d: "page_directory typed_pcb = 0x9000" "fdTable typed_pcb = (replicate 128 0)[3 := 0x1000]" by (simp_all add: typed_pcb_def PushProcessStdin_def Let_def)
  have v: "vm (sch typed) = user_vm" by (simp add: typed_def sample_kernel_def upd_proc_def)
  then show "user_space {} (\<lambda>_. 0) {0x9000} user_map typed" unfolding user_space_def c p d(1) using user_vm_image by simp
  show "mem typed = user_mem" by (simp add: v user_vm_def)
  let ?pc = "new_pcb\<lparr>page_directory := 0x9000, fdTable := (replicate 128 0)[3 := 0x1000]\<rparr>"
  have "stdin_ok ?pc" "stdin_of ?pc = []" by (simp_all add: ring_ok_def ring_of_def new_pcb_def pending_def)
  then show "stdin_ok typed_pcb" "stdin_of typed_pcb = [104, 105, 10, 33]"
    using sq.fold_push [of ?pc "[104, 105, 10, 33]"] unfolding typed_pcb_def by simp_all
qed

lemma in_user_sample: "in_user user_map 0x50000FFE 8" "in_user user_map 0x50000010 2" "in_user user_map 0x50001FF0 2"
proof -
  have d: "x div 4096 = 0x50000 \<or> x div 4096 = 0x50001" if "0x50000000 \<le> x" "x < 0x50002000" for x :: nat
  proof -
    have "0x50000000 div 4096 \<le> x div 4096" "x div 4096 \<le> 0x50001FFF div 4096" using that by (intro div_le_mono, simp)+
    then show ?thesis by simp linarith
  qed
  have "in_user user_map a n" if "0x50000000 \<le> unat a" "unat a + n \<le> 0x50002000" for a n
    unfolding in_user_def using that d by (auto simp: user_map_def)
  then show "in_user user_map 0x50000FFE 8" "in_user user_map 0x50000010 2" "in_user user_map 0x50001FF0 2" by simp_all
qed

theorem sys_read_stdin_witness:
  "\<exists>k'. Handle_sys_read sample_services 0 0x50000FFE 8 typed = Some (3, k') \<and>
     user_byte (mem k') 0x9000 0x50000FFE = 104 \<and> user_byte (mem k') 0x9000 0x50001000 = 10 \<and> stdin_of (proc (sch k') 0x200000) = [33]"
proof -
  have l: "line 8 [104, 105, 10, 33] = [104, 105, 10]" by code_simp
  have n: "unat (8 :: u32) = 8" by simp
  from sys_read_stdin [OF typed_facts(5), of 8 sample_services "0x50000FFE"] obtain k'
    where r: "Handle_sys_read sample_services 0 0x50000FFE 8 typed = Some (3, k')"
    and w: "user_written user_map 0x9000 0x50000FFE [104, 105, 10] user_mem (mem k')" and q: "stdin_of (proc (sch k') 0x200000) = [33]"
    using in_user_sample(1) by (auto simp: typed_facts l n Let_def)
  have "user_byte (mem k') 0x9000 0x50000FFE = 104" "user_byte (mem k') 0x9000 0x50001000 = 10"
    using w [unfolded user_written_def, THEN conjunct1, rule_format, of "0x50000FFE"]
      w [unfolded user_written_def, THEN conjunct1, rule_format, of "0x50001000"] by (simp_all add: user_map_def)
  then show ?thesis using r q by blast
qed

theorem file_calls_roundtrip_witness:
  "\<exists>k1 k2 k3. Handle_sys_write sample_services 3 0x50000010 2 typed = (2, k1) \<and> Handle_sys_lseek 3 0 0 k1 = (0, k2) \<and>
     Handle_sys_read sample_services 3 0x50001FF0 2 k2 = Some (2, k3) \<and>
     user_byte (mem k3) 0x9000 0x50001FF1 = user_byte user_mem 0x9000 0x50000011"
proof -
  let ?f = "new_File\<lparr>name := file_name [0x2F, 0x61], fsize := 3, filesystem := True, flags := 0, openFlags := O_RDWR\<rparr>"
  have n: "unat (2 :: u32) = 2" by simp
  have rw: "open_rw (\<lambda>_. Some ()) (\<lambda>v _. snd v) (fdTable (proc (sch typed) (cur typed)) ! unat (3 :: u32)) ?f () (fsy typed)"
  proof -
    have "fsy typed = sample_open" by (simp add: typed_def sample_kernel_def)
    moreover have "(replicate 128 0)[3 := 0x1000 :: u32] ! unat (3 :: u32) = 0x1000" by simp
    ultimately show ?thesis unfolding typed_facts by (simp add: open_rw_def sample_open_step new_File_def empty_slot_def)
  qed
  have pos: "position ?f = 0" "File.fsize ?f = 3" by (simp_all add: new_File_def)
  have sp: "2 \<le> 100 - length (snd (vol (fsy typed)))" using rw by (simp add: open_rw_def pos)
  have m1: "(2 :: u32) \<noteq> -1" by simp
  obtain k1 k2 k3 where k: "Handle_sys_write sample_services 3 0x50000010 2 typed = (2, k1)" "Handle_sys_lseek 3 0 0 k1 = (0, k2)"
    "Handle_sys_read sample_services 3 0x50001FF0 2 k2 = Some (2, k3)"
    and w: "user_written user_map 0x9000 0x50001FF0 (take 2 (user_bytes typed 0x50000010 2)) user_mem (mem k3)"
    using file_calls_roundtrip [OF _ typed_facts(5) _ _ rw, of sample_services id "\<lambda>v. 100 - length (snd v)" 2 "0x50000010" "0x50001FF0"]
      in_user_sample(2,3) ram_api_stores sp m1 by (auto simp: n pos typed_facts sample_services_def)
  have "user_byte (mem k3) 0x9000 0x50001FF1 = user_bytes typed 0x50000010 2 ! 1"
    using w [unfolded user_written_def, THEN conjunct1, rule_format, of "0x50001FF1"] by (simp add: user_map_def user_bytes_def)
  then show ?thesis using k by (auto simp: user_bytes_def typed_facts)
qed

end
