(* ===== verification/User_Heap.thy ===== *)
theory User_Heap
  imports Syscall_Io
begin

text \<open>
  Growing the heap of a process, \<^verbatim>\<open>sys_brk\<close>: all the pages are mapped, or those that were are taken back.
\<close>

subsection \<open>One page\<close>

abbreviation page_of :: "u32 \<Rightarrow> nat" where "page_of a \<equiv> unat a div 4096"

lemma clear_page_frame: "page_aligned p \<Longrightarrow> clear_page m p x = (if page_of x = page_of p then 0 else m x)"
proof -
  assume al: "page_aligned p"
  have "n * 4096 \<le> y \<and> y < n * 4096 + 4096 \<longleftrightarrow> y div 4096 = n" for n y :: nat by auto
  from this [of "page_of p" "unat x"] show ?thesis using aligned_unat(1) [OF al] by (auto simp: clear_page_def)
qed

lemma clear_unused:
  assumes inv: "image_inv K m0 D d g v" and p: "page_aligned p" "page_of p \<notin> used_frames (vm_frames v)"
  shows "image_inv K m0 D d g (v\<lparr>vm_mem := clear_page (vm_mem v) p\<rparr>)"
    and "GetPhysicalAddress (clear_page (vm_mem v) p) d w = GetPhysicalAddress (vm_mem v) d w"
proof -
  note I = image_invD [OF inv]
  let ?m = "clear_page (vm_mem v) p"
  have same: "\<forall>x. page_of x \<in> used_frames (vm_frames v) - ran g \<longrightarrow> ?m x = vm_mem v x" using p by (auto simp: clear_page_frame)
  note T = translation_cong [OF I(4) same]
  show "GetPhysicalAddress ?m d w = GetPhysicalAddress (vm_mem v) d w" by (rule T(2) [OF I(1)])
  have pde: "?m (entry d i) = vm_mem v (entry d i)" if "unat i < 1024" for i
    by (rule same [rule_format]) (use entry_frame [OF vm_inv_aligned [OF I(4,1)] that] vm_inv_dir_used [OF I(4,1)] in simp)
  have "?m x = vm_mem v x" if "page_of x \<in> K" for x using same that I(8) by blast
  with pde have "apart K m0 d ?m" using I(9) by (auto simp: apart_def live_pde_def)
  then show "image_inv K m0 D d g (v\<lparr>vm_mem := ?m\<rparr>)" using inv T(1) T(2) [OF I(1)] by (simp add: image_inv_def)
qed

lemma more_frames:
  assumes "image_inv K m0 D d g v" "pmm_inv f" "used_frames (vm_frames v) \<subseteq> used_frames f"
  shows "image_inv K m0 D d g (v\<lparr>vm_frames := f\<rparr>)"
proof -
  have "vm_inv D (used_frames f - ran g) (vm_mem v)" by (rule vm_inv_cong [OF image_invD(4) [OF assms(1)]]) (use assms(3) in auto)
  then show ?thesis using assms by (auto simp: image_inv_def)
qed

lemma alloc_frame:
  assumes inv: "image_inv K m0 D d g v" and al: "pmm_alloc_block_low (vm_frames v) LOW_LIMIT = (phys, f)" and nz: "phys \<noteq> 0"
  shows "page_aligned phys" "page_of phys \<notin> used_frames (vm_frames v)" "used_frames f = insert (page_of phys) (used_frames (vm_frames v))" "pmm_inv f"
proof -
  note I = image_invD [OF inv]
  obtain b where b: "b \<notin> used_frames (vm_frames v)" "unat phys = b * 4096" "used_frames f = insert b (used_frames (vm_frames v))" "pmm_inv f"
    using I(2) al by (cases rule: low_alloc_cases) (use nz in auto)
  then show "page_aligned phys" "page_of phys \<notin> used_frames (vm_frames v)" "used_frames f = insert (page_of phys) (used_frames (vm_frames v))" "pmm_inv f"
    by (simp_all add: aligned_iff)
qed

lemma mapped_page: "image_inv K m0 D d g v \<Longrightarrow> g (page_of w) = Some j \<Longrightarrow> GetPhysicalAddress (vm_mem v) d w \<noteq> NO_PAGE"
proof -
  assume inv: "image_inv K m0 D d g v" and g: "g (page_of w) = Some j"
  have "j \<in> ran g" using g by (auto simp: ran_def)
  then have "j < 65536" using image_invD(6) [OF inv] by auto
  moreover have "unat w mod 4096 < 4096" by simp
  ultimately have "unat (GetPhysicalAddress (vm_mem v) d w) < 65536 * 4096" unfolding image_invD(7) [OF inv g] by linarith
  then show ?thesis by auto
qed

lemma add_page:
  assumes inv: "image_inv K m0 D d g v" and ex: "maps_exactly g (vm_mem v) d"
    and al: "pmm_alloc_block_low (vm_frames v) LOW_LIMIT = (phys, f)" "phys \<noteq> 0"
    and mp: "MapPage (v\<lparr>vm_frames := f, vm_mem := clear_page (vm_mem v) phys\<rparr>) d va phys (PAGE_PRESENT OR PAGE_RW OR PAGE_USER) = (True, v')"
  defines "g' \<equiv> g(page_of va \<mapsto> page_of phys)"
  shows "image_inv K m0 D d g' v'" "page_of phys \<notin> ran g" "maps_exactly g' (vm_mem v') d"
    "page_of x \<in> ran g \<Longrightarrow> vm_mem v' x = vm_mem v x" "page_of x = page_of phys \<Longrightarrow> vm_mem v' x = 0" "\<not> kernel_range (pd_index va)"
proof -
  note A = alloc_frame [OF inv al]
  let ?v = "v\<lparr>vm_mem := clear_page (vm_mem v) phys\<rparr>"
  note C = clear_unused [OF inv A(1,2)]
  have al': "pmm_alloc_block_low (vm_frames ?v) LOW_LIMIT = (phys, f)" using al(1) by simp
  have mp': "MapPage (?v\<lparr>vm_frames := f\<rparr>) d va phys (PAGE_PRESENT OR PAGE_RW OR PAGE_USER) = (True, v')"
  proof -
    have "?v\<lparr>vm_frames := f\<rparr> = v\<lparr>vm_frames := f, vm_mem := clear_page (vm_mem v) phys\<rparr>" by simp
    then show ?thesis using mp by (simp only:)
  qed
  note M = map_image_page [OF C(1) al' al(2) mp', folded g'_def]
  show i: "image_inv K m0 D d g' v'" and "page_of phys \<notin> ran g" and "\<not> kernel_range (pd_index va)" by (rule M)+
  show "vm_mem v' x = vm_mem v x" if "page_of x \<in> ran g"
    using M(3) [of x] that \<open>page_of phys \<notin> ran g\<close> by (auto simp: clear_page_frame [OF A(1)])
  show "vm_mem v' x = 0" if "page_of x = page_of phys" using M(3) [of x] that by (simp add: clear_page_frame [OF A(1)])
  have "GetPhysicalAddress (vm_mem v') d w \<noteq> NO_PAGE \<longleftrightarrow> page_of w \<in> dom g'" if "USER_LOWER_BOUND \<le> w" "w < USER_UPPER_BOUND" for w
  proof (cases "page_of w = page_of va")
    case True
    then have "g' (page_of w) = Some (page_of phys)" by (simp add: g'_def)
    then show ?thesis using mapped_page [OF i] by blast
  next
    case False
    then show ?thesis using M(4) [OF False] C(2) [of w] ex that by (simp add: maps_exactly_def g'_def)
  qed
  then show "maps_exactly g' (vm_mem v') d" by (simp add: maps_exactly_def)
qed

lemma free_frame_used: "pmm_inv (vm_frames v) \<Longrightarrow> pmm_inv (vm_frames (free_frame p v)) \<and> vm_mem (free_frame p v) = vm_mem v \<and>
    used_frames (vm_frames v) - {page_of p} \<subseteq> used_frames (vm_frames (free_frame p v)) \<and> used_frames (vm_frames (free_frame p v)) \<subseteq> used_frames (vm_frames v)"
  using free_block_spec [of "vm_frames v" "kernel_pd_of v" p] by (auto simp: free_frame_def)

text \<open>A page that could not be mapped leaves everything as it was.\<close>

lemma map_fails:
  assumes inv: "image_inv K m0 D d g v" and ex: "maps_exactly g (vm_mem v) d"
    and al: "pmm_alloc_block_low (vm_frames v) LOW_LIMIT = (phys, f)" "phys \<noteq> 0"
    and mp: "MapPage (v\<lparr>vm_frames := f, vm_mem := clear_page (vm_mem v) phys\<rparr>) d va phys fl = (False, v1)" and fl: "fl AND 0xFFFFF000 = 0"
  defines "v' \<equiv> free_frame phys v1"
  shows "image_inv K m0 D d g v'" "maps_exactly g (vm_mem v') d" "page_of x \<in> ran g \<Longrightarrow> vm_mem v' x = vm_mem v x"
proof -
  note A = alloc_frame [OF inv al] and I0 = image_invD [OF inv]
  let ?v = "v\<lparr>vm_frames := f, vm_mem := clear_page (vm_mem v) phys\<rparr>"
  define F where "F = insert (page_of phys) (ran g)"
  note C = clear_unused [OF inv A(1,2)]
  note I = image_invD [OF C(1), simplified]
  have ok: "pmm_inv (vm_frames ?v) \<and> F \<subseteq> used_frames (vm_frames ?v)" using A(3,4) I0(3) by (auto simp: F_def)
  have vi: "vm_inv D (used_frames (vm_frames ?v) - F) (vm_mem ?v)"
    by (rule vm_inv_cong [OF I(4)]) (use A in \<open>auto simp: F_def\<close>)
  note M = data_low.map_page_spec [OF ok vi I0(1) mp [unfolded MapPage_def] fl] and W = data_low.map_page_writes(1) [OF ok vi I0(1) mp [unfolded MapPage_def]]
  have Ks: "K \<subseteq> used_frames (vm_frames ?v) - F" using I0(8) A(2,3) by (auto simp: F_def)
  have ap: "apart K m0 d (vm_mem v1)" using data_low.map_page_apart [OF ok vi I0(1) mp [unfolded MapPage_def] Ks] I(9) by simp
  have mono: "used_frames f \<subseteq> used_frames (vm_frames v1)" using pmm_low.map_page_mono [OF _ mp [unfolded MapPage_def]] A(4) by simp
  note U = free_frame_used [OF conjunct1 [OF M(1)], of phys, folded v'_def]
  have nr: "page_of phys \<notin> ran g" using A(2) I0(3) by auto
  have tr: "GetPhysicalAddress (vm_mem v') d w = GetPhysicalAddress (vm_mem v) d w" for w using M(3) [OF I0(1), of w] C(2) [of w] U by simp
  have rg: "ran g \<subseteq> used_frames (vm_frames v')" using U M(1) nr by (auto simp: F_def)
  have vi': "vm_inv D (used_frames (vm_frames v') - ran g) (vm_mem v')"
    by (rule vm_inv_cong [OF M(2)]) (use U in \<open>auto simp: F_def\<close>)
  have "K \<subseteq> used_frames (vm_frames v') - ran g" using Ks U mono by (auto simp: F_def)
  then show "image_inv K m0 D d g v'" using I0 rg vi' ap U tr by (simp add: image_inv_def)
  show "maps_exactly g (vm_mem v') d" using ex tr by (simp add: maps_exactly_def)
  show "vm_mem v' x = vm_mem v x" if x: "page_of x \<in> ran g"
  proof (rule ccontr)
    assume "vm_mem v' x \<noteq> vm_mem v x"
    then have "vm_mem v1 x \<noteq> vm_mem ?v x" using U x nr by (auto simp: clear_page_frame [OF A(1)])
    then have "page_of x \<in> used_frames (vm_frames v1) - F" using W [of x] vm_inv_dir_used [OF M(2) I0(1)] vm_inv_table [OF M(2) I0(1)] by auto
    then show False using x by (simp add: F_def)
  qed
qed

text \<open>Taking a page back: its entry is cleared and its frame freed.\<close>

lemma unmap_page:
  assumes inv: "image_inv K m0 D d g v" and g: "g (page_of va) = Some (page_of phys)" and nk: "\<not> kernel_range (pd_index va)"
  shows "\<exists>v1. MapPage v d va 0 0 = (True, v1) \<and> vm_frames v1 = vm_frames v"
proof -
  have "live_pde (vm_mem v) d (pd_index va)" using mapped_page [OF inv g] by (simp add: GetPhysicalAddress_alt split: if_splits)
  then have "vm_mem v (entry d (pd_index va)) AND PAGE_PRESENT \<noteq> 0" by (simp add: live_pde_def present_def)
  then show ?thesis using nk by (simp add: MapPage_def map_page_with_def ensure_table_def Let_def)
qed

lemma remove_page:
  assumes inv: "image_inv K m0 D d g v" and ex: "maps_exactly g (vm_mem v) d"
    and g: "g (page_of va) = Some (page_of phys)" and nk: "\<not> kernel_range (pd_index va)"
  defines "v' \<equiv> free_frame phys (snd (MapPage v d va 0 0))" and "g' \<equiv> g(page_of va := None)"
  shows "image_inv K m0 D d g' v'" "maps_exactly g' (vm_mem v') d" "page_of x \<in> ran g \<Longrightarrow> vm_mem v' x = vm_mem v x"
proof -
  note I = image_invD [OF inv]
  obtain v1 where mp: "MapPage v d va 0 0 = (True, v1)" and fr: "vm_frames v1 = vm_frames v" using unmap_page [OF inv g nk] by blast
  have ok: "pmm_inv (vm_frames v) \<and> ran g \<subseteq> used_frames (vm_frames v)" using I(2,3) by simp
  note M = data_low.map_page_spec [OF ok I(4,1) mp [unfolded MapPage_def]] and W = data_low.map_page_writes(1) [OF ok I(4,1) mp [unfolded MapPage_def]]
    and ap = data_low.map_page_apart [OF ok I(4,1) mp [unfolded MapPage_def] I(8,9)]
  have v': "v' = free_frame phys v1" by (simp add: v'_def mp)
  have p1: "pmm_inv (vm_frames v1)" using I(2) fr by simp
  note U = free_frame_used [OF p1, of phys, folded v', unfolded fr]
  have tr: "GetPhysicalAddress (vm_mem v') d w = (if page_of w = page_of va then NO_PAGE else GetPhysicalAddress (vm_mem v) d w)" for w
    using M(3) [OF _ I(1), of w] U by simp
  have kr: "page_of phys \<in> ran g" using g by (auto simp: ran_def)
  have inj: "q = page_of va" if "g q = Some (page_of phys)" for q using inj_onD [OF I(5), of q "page_of va"] that g by auto
  have "j \<in> ran g' \<longleftrightarrow> j \<in> ran g \<and> j \<noteq> page_of phys" for j
    unfolding ran_def g'_def mem_Collect_eq fun_upd_apply using inj g by (metis option.distinct(1) option.inject)
  then have rg: "ran g' = ran g - {page_of phys}" by blast
  have vi: "vm_inv D (used_frames (vm_frames v') - ran g') (vm_mem v')"
    by (rule vm_inv_cong [OF M(2)]) (use U kr in \<open>auto simp: rg fr\<close>)
  have "inj_on g' (dom g')" using I(5) by (auto simp: inj_on_def g'_def)
  moreover have "K \<subseteq> used_frames (vm_frames v') - ran g'" using I(8) U kr by (auto simp: rg)
  moreover have "ran g' \<subseteq> used_frames (vm_frames v')" "ran g' \<subseteq> {0<..<65536}" using I(3,6) U by (auto simp: rg)
  moreover have "unat (GetPhysicalAddress (vm_mem v') d w) = j * 4096 + unat w mod 4096" if "g' (page_of w) = Some j" for w j
    using that I(7) [of w j] by (auto simp: tr g'_def split: if_splits)
  ultimately show "image_inv K m0 D d g' v'" using I(1) vi ap U by (simp add: image_inv_def)
  show "maps_exactly g' (vm_mem v') d" using ex by (auto simp: maps_exactly_def tr g'_def)
  show "vm_mem v' x = vm_mem v x" if x: "page_of x \<in> ran g"
  proof (rule ccontr)
    assume "vm_mem v' x \<noteq> vm_mem v x"
    then have "page_of x \<in> used_frames (vm_frames v) - ran g"
      using W [of x] U vm_inv_dir_used [OF M(2) I(1)] vm_inv_table [OF M(2) I(1)] fr by auto
    then show False using x by simp
  qed
qed

subsection \<open>All the pages, or none\<close>

text \<open>
  Where the loop stands: \<open>g0\<close> and \<open>m\<close> are the pages and the memory it started from, \<open>taken\<close> the pages it has added, all
  of them zero.
\<close>

definition growing :: "nat set \<Rightarrow> memory \<Rightarrow> u32 set \<Rightarrow> u32 \<Rightarrow> (nat \<rightharpoonup> nat) \<Rightarrow> memory \<Rightarrow> (u32 \<times> u32) list \<Rightarrow> (nat \<rightharpoonup> nat) \<Rightarrow> pmm_info vm \<Rightarrow> bool" where
  "growing K m0 D d g0 m taken g v \<longleftrightarrow> image_inv K m0 D d g v \<and> maps_exactly g (vm_mem v) d \<and>
     (\<forall>(va, ph) \<in> set taken. g (page_of va) = Some (page_of ph) \<and> \<not> kernel_range (pd_index va)) \<and>
     distinct (map (\<lambda>(va, _). page_of va) taken) \<and> g |` (- (\<lambda>(va, _). page_of va) ` set taken) = g0 \<and>
     (\<forall>x. page_of x \<in> ran g0 \<longrightarrow> vm_mem v x = m x) \<and> (\<forall>x. page_of x \<in> ran g - ran g0 \<longrightarrow> vm_mem v x = 0)"

lemma restrict_updates:
  "(g(q := None)) |` (- P) = g |` (- insert q P)" "q \<notin> dom g \<Longrightarrow> (g(q \<mapsto> j)) |` (- insert q P) = g |` (- P)" "ran (g |` P) \<subseteq> ran g"
  by (auto simp: restrict_map_def fun_eq_iff domIff ran_def split: if_splits)

lemma rollback_all:
  "growing K m0 D d g0 m taken g v \<Longrightarrow> growing K m0 D d g0 m [] g0 (brk_rollback d taken v)"
proof (induction taken arbitrary: g v)
  case Nil
  moreover have "f |` UNIV = f" for f :: "nat \<rightharpoonup> nat" by (simp add: restrict_map_def)
  ultimately show ?case by (auto simp: growing_def)
next
  case (Cons t taken)
  obtain va ph where t: "t = (va, ph)" by (cases t)
  let ?v = "free_frame ph (snd (MapPage v d va 0 0))" and ?g = "g(page_of va := None)" and ?P = "\<lambda>ts. (\<lambda>(va, _). page_of va) ` set ts"
  have G: "image_inv K m0 D d g v" "maps_exactly g (vm_mem v) d" "g (page_of va) = Some (page_of ph)" "\<not> kernel_range (pd_index va)"
    "page_of va \<notin> ?P taken" "g |` (- ?P (t # taken)) = g0" using Cons.prems by (auto simp: growing_def t)
  have H: "\<forall>x. page_of x \<in> ran g0 \<longrightarrow> vm_mem v x = m x" "\<forall>x. page_of x \<in> ran g - ran g0 \<longrightarrow> vm_mem v x = 0"
    "distinct (map (\<lambda>(va, _). page_of va) taken)" using Cons.prems by (simp_all add: growing_def)
  have tk: "g (page_of a) = Some (page_of b) \<and> \<not> kernel_range (pd_index a)" if "(a, b) \<in> set taken" for a b using Cons.prems that by (auto simp: growing_def)
  note R = remove_page [OF G(1-4)]
  have sub: "ran ?g \<subseteq> ran g" by (auto simp: ran_def split: if_splits)
  have res: "?g |` (- ?P taken) = g0" using G(6) unfolding restrict_updates(1) by (simp add: t)
  then have r0: "ran g0 \<subseteq> ran ?g" using restrict_updates(3) by metis
  have old: "\<forall>x. page_of x \<in> ran g0 \<longrightarrow> vm_mem ?v x = m x"
  proof (intro allI impI)
    fix x assume x: "page_of x \<in> ran g0"
    then have "page_of x \<in> ran g" using r0 sub by blast
    from R(3) [OF this] show "vm_mem ?v x = m x" using H(1) x by simp
  qed
  have zero: "\<forall>x. page_of x \<in> ran ?g - ran g0 \<longrightarrow> vm_mem ?v x = 0"
  proof (intro allI impI)
    fix x assume x: "page_of x \<in> ran ?g - ran g0"
    then have "page_of x \<in> ran g" using sub by blast
    from R(3) [OF this] show "vm_mem ?v x = 0" using H(2) x \<open>page_of x \<in> ran g\<close> by simp
  qed
  have "?g (page_of a) = Some (page_of b) \<and> \<not> kernel_range (pd_index a)" if "(a, b) \<in> set taken" for a b
    using tk [OF that] G(5) image_eqI [of _ "\<lambda>(va, _). page_of va", OF _ that] by (metis (no_types, lifting) case_prod_conv fun_upd_other)
  then have "\<forall>(a, b) \<in> set taken. ?g (page_of a) = Some (page_of b) \<and> \<not> kernel_range (pd_index a)" by (simp only: Ball_def split_paired_All case_prod_conv) blast
  then have "growing K m0 D d g0 m taken ?g ?v" unfolding growing_def using R(1,2) res old zero H(3) by (intro conjI)
  from Cons.IH [OF this] show ?case by (simp add: t)
qed

lemma growing_frames:
  assumes g: "growing K m0 D d g0 m taken g v" and i: "image_inv K m0 D d g v'" "maps_exactly g (vm_mem v') d" "\<And>x. page_of x \<in> ran g \<Longrightarrow> vm_mem v' x = vm_mem v x"
  shows "growing K m0 D d g0 m taken g v'"
proof -
  have "g |` (- (\<lambda>(va, _). page_of va) ` set taken) = g0" using g by (simp add: growing_def)
  then have "ran g0 \<subseteq> ran g" using restrict_updates(3) by metis
  then show ?thesis using g i unfolding growing_def by auto
qed

lemma grow_one:
  assumes gr: "growing K m0 D d g0 m taken g v" and al: "pmm_alloc_block_low (vm_frames v) LOW_LIMIT = (phys, f)" "phys \<noteq> 0"
    and mp: "MapPage (v\<lparr>vm_frames := f, vm_mem := clear_page (vm_mem v) phys\<rparr>) d va phys (PAGE_PRESENT OR PAGE_RW OR PAGE_USER) = (True, v')"
    and new: "page_of va \<notin> dom g"
  shows "growing K m0 D d g0 m (taken @ [(va, phys)]) (g(page_of va \<mapsto> page_of phys)) v'"
proof -
  let ?P = "(\<lambda>(va, _). page_of va) ` set taken"
  have G: "image_inv K m0 D d g v" "maps_exactly g (vm_mem v) d" "g |` (- ?P) = g0" "\<forall>x. page_of x \<in> ran g0 \<longrightarrow> vm_mem v x = m x"
    "\<forall>x. page_of x \<in> ran g - ran g0 \<longrightarrow> vm_mem v x = 0" using gr by (simp_all add: growing_def)
  note A = add_page [OF G(1,2) al mp]
  have tk: "g (page_of a) = Some (page_of b) \<and> \<not> kernel_range (pd_index a)" if "(a, b) \<in> set taken" for a b using gr that by (auto simp: growing_def)
  then have np: "page_of va \<notin> ?P" using new by (fastforce simp: domIff)
  have ran0: "ran g0 \<subseteq> ran g" using G(3) restrict_updates(3) by metis
  have ran1: "ran (g(page_of va \<mapsto> page_of phys)) = insert (page_of phys) (ran g)" using new by (simp add: domIff)
  have "g(page_of va \<mapsto> page_of phys) |` (- insert (page_of va) ?P) = g0"
    using G(3) restrict_updates(2) [OF new] by metis
  moreover have "vm_mem v' x = m x" if "page_of x \<in> ran g0" for x using that ran0 A(4) G(4) by auto
  moreover have "vm_mem v' x = 0" if "page_of x \<in> insert (page_of phys) (ran g) - ran g0" for x using that A(4,5) G(5) by auto
  moreover have "\<forall>(a, b) \<in> set (taken @ [(va, phys)]). (g(page_of va \<mapsto> page_of phys)) (page_of a) = Some (page_of b) \<and> \<not> kernel_range (pd_index a)"
  proof (clarify)
    fix a b assume "(a, b) \<in> set (taken @ [(va, phys)])"
    then consider "(a, b) \<in> set taken" | "a = va" "b = phys" by auto
    then show "(g(page_of va \<mapsto> page_of phys)) (page_of a) = Some (page_of b) \<and> \<not> kernel_range (pd_index a)"
    proof cases
      case 1
      then have "page_of a \<noteq> page_of va" using np by force
      then have "(g(page_of va \<mapsto> page_of phys)) (page_of a) = g (page_of a)" by (rule fun_upd_other)
      then show ?thesis using tk [OF 1] by argo
    next
      case 2
      then show ?thesis using A(6) fun_upd_same [of g] by simp
    qed
  qed
  moreover have "(\<lambda>(va, _). page_of va) ` set (taken @ [(va, phys)]) = insert (page_of va) ?P" by auto
  moreover have "distinct (map (\<lambda>(va, _). page_of va) (taken @ [(va, phys)]))" using gr np by (auto simp: growing_def)
  ultimately show ?thesis using A(1,3) unfolding growing_def ran1 by simp
qed

lemma brk_addr:
  assumes "unat ps + i * 4096 < 2 ^ 32"
  shows "unat (ps + of_nat i * PAGE_SIZE) = unat ps + i * 4096"
proof -
  have "unat (of_nat i * PAGE_SIZE) = i * 4096" using unat_mult_small [of "of_nat i" PAGE_SIZE] assms by simp
  then show ?thesis using assms by (simp add: unat_add_small)
qed

lemma brk_pages_grow:
  assumes "growing K m0 D d g0 m taken g v" "brk_pages d ps is taken v = (ok, v')" "page_aligned ps"
    and "\<forall>i \<in> set is. 0x10000000 \<le> unat ps + i * 4096 \<and> unat ps + i * 4096 < 0xC0000000"
  shows "if ok then \<exists>taken' g'. growing K m0 D d g0 m taken' g' v' \<and> dom g' = dom g \<union> segment_pages ps is
    else growing K m0 D d g0 m [] g0 v'"
  using assms
proof (induction "is" arbitrary: taken g v)
  case Nil
  then show ?case by (auto simp: segment_pages_def)
next
  case (Cons i "is")
  let ?a = "ps + of_nat i * PAGE_SIZE"
  have b: "0x10000000 \<le> unat ps + i * 4096" "unat ps + i * 4096 < 0xC0000000" using Cons.prems(4) by simp_all
  have a: "unat ?a = unat ps + i * 4096" by (rule brk_addr) (use b in simp)
  then have pg: "page_of ?a = page_of ps + i" by simp
  have G: "image_inv K m0 D d g v" "maps_exactly g (vm_mem v) d" using Cons.prems(1) by (simp_all add: growing_def)
  have "USER_LOWER_BOUND \<le> ?a" "?a < USER_UPPER_BOUND" unfolding word_le_nat_alt word_less_nat_alt a using b by simp_all
  then have mapped: "GetPhysicalAddress (vm_mem v) d ?a \<noteq> NO_PAGE \<longleftrightarrow> page_of ?a \<in> dom g" using G(2) unfolding maps_exactly_def by blast
  have sp: "segment_pages ps (i # is) = insert (page_of ?a) (segment_pages ps is)" by (simp add: segment_pages_def pg)
  have rest: "\<forall>i \<in> set is. 0x10000000 \<le> unat ps + i * 4096 \<and> unat ps + i * 4096 < 0xC0000000" using Cons.prems(4) by simp
  show ?case
  proof (cases "page_of ?a \<in> dom g")
    case True
    then have "brk_pages d ps is taken v = (ok, v')" using Cons.prems(2) mapped by (simp add: Let_def)
    from Cons.IH [OF Cons.prems(1) this Cons.prems(3) rest] show ?thesis using True unfolding sp by (auto simp: insert_absorb)
  next
    case False
    obtain phys f where al: "pmm_alloc_block_low (vm_frames v) LOW_LIMIT = (phys, f)" by fastforce
    show ?thesis
    proof (cases "phys = 0")
      case True
      have "image_inv K m0 D d g (v\<lparr>vm_frames := f\<rparr>)"
        using more_frames [OF G(1)] pmm_low.alloc_ok [OF image_invD(2) [OF G(1)] al] pmm_low.alloc_mono [OF image_invD(2) [OF G(1)] al] by blast
      then have "growing K m0 D d g0 m taken g (v\<lparr>vm_frames := f\<rparr>)" using growing_frames [OF Cons.prems(1)] G(2) by simp
      moreover have "ok = False" "v' = brk_rollback d taken (v\<lparr>vm_frames := f\<rparr>)" using Cons.prems(2) mapped False al True by (simp_all add: Let_def)
      ultimately show ?thesis using rollback_all by simp
    next
      case nz: False
      obtain c v1 where mp: "MapPage (v\<lparr>vm_frames := f, vm_mem := clear_page (vm_mem v) phys\<rparr>) d ?a phys (PAGE_PRESENT OR PAGE_RW OR PAGE_USER) = (c, v1)" by fastforce
      show ?thesis
      proof (cases c)
        case True
        then have "brk_pages d ps is (taken @ [(?a, phys)]) v1 = (ok, v')" using Cons.prems(2) mapped False al nz mp by (simp add: Let_def)
        from Cons.IH [OF grow_one [OF Cons.prems(1) al nz mp [unfolded True [THEN eqTrueI]] False] this Cons.prems(3) rest]
        show ?thesis unfolding sp by (auto simp del: fun_upd_apply split: if_splits)
      next
        case fails: False
        then have r: "ok = False" "v' = brk_rollback d taken (free_frame phys v1)" using Cons.prems(2) mapped False al nz mp by (simp_all add: Let_def)
        have fl: "(PAGE_PRESENT OR PAGE_RW OR PAGE_USER) AND 0xFFFFF000 = 0" by simp
        note F = map_fails [OF G al nz mp [unfolded eq_False [THEN iffD2, OF fails]] fl]
        have "growing K m0 D d g0 m taken g (free_frame phys v1)" by (rule growing_frames [OF Cons.prems(1) F])
        from rollback_all [OF this] show ?thesis using r by simp
      qed
    qed
  qed
qed

lemma brk_pages_total:
  assumes "growing K m0 D d g0 m taken g v" "page_aligned ps" "\<forall>i \<in> set is. 0x10000000 \<le> unat ps + i * 4096 \<and> unat ps + i * 4096 < 0xC0000000"
    and "2 * length is \<le> low_avail (vm_frames v)" "\<not> 0 < sint (vm_depth v)"
  shows "fst (brk_pages d ps is taken v)"
  using assms
proof (induction "is" arbitrary: taken g v)
  case (Cons i "is")
  let ?a = "ps + of_nat i * PAGE_SIZE"
  have b: "0x10000000 \<le> unat ps + i * 4096" "unat ps + i * 4096 < 0xC0000000" using Cons.prems(3) by simp_all
  have a: "unat ?a = unat ps + i * 4096" by (rule brk_addr) (use b in simp)
  have G: "image_inv K m0 D d g v" "maps_exactly g (vm_mem v) d" using Cons.prems(1) by (simp_all add: growing_def)
  have "USER_LOWER_BOUND \<le> ?a" "?a < USER_UPPER_BOUND" unfolding word_le_nat_alt word_less_nat_alt a using b by simp_all
  then have mapped: "GetPhysicalAddress (vm_mem v) d ?a \<noteq> NO_PAGE \<longleftrightarrow> page_of ?a \<in> dom g" using G(2) unfolding maps_exactly_def by blast
  have rest: "\<forall>i \<in> set is. 0x10000000 \<le> unat ps + i * 4096 \<and> unat ps + i * 4096 < 0xC0000000" using Cons.prems(3) by simp
  show ?case
  proof (cases "page_of ?a \<in> dom g")
    case True
    then show ?thesis using Cons.IH [OF Cons.prems(1,2) rest] Cons.prems(4,5) mapped by (simp add: Let_def)
  next
    case False
    obtain phys f where al: "pmm_alloc_block_low (vm_frames v) LOW_LIMIT = (phys, f)" by fastforce
    have av: "0 < low_avail (vm_frames v)" using Cons.prems(4) by simp
    have ph: "phys \<noteq> 0" "low_avail (vm_frames v) = Suc (low_avail f)" using pmm_low.alloc_avail [OF image_invD(2) [OF G(1)] al av] by simp_all
    let ?v = "v\<lparr>vm_frames := f, vm_mem := clear_page (vm_mem v) phys\<rparr>"
    have nk: "\<not> kernel_range (pd_index ?a)"
    proof -
      have u: "unat (pd_index ?a) = unat ?a div 4194304" using pd_index_unat [of ?a] by simp
      have "0x10000000 div 4194304 \<le> unat ?a div 4194304" "unat ?a div 4194304 \<le> 0xBFFFFFFF div 4194304" unfolding a using b by (intro div_le_mono, simp)+
      then show ?thesis by (simp add: kernel_range_def word_less_nat_alt word_le_nat_alt u)
    qed
    have "pmm_inv (vm_frames ?v)" using pmm_low.alloc_ok [OF image_invD(2) [OF G(1)] al] by simp
    moreover have "0 < low_avail (vm_frames ?v)" "\<not> 0 < sint (vm_depth ?v)" using Cons.prems(4,5) ph(2) by simp_all
    ultimately obtain v1 where mp: "MapPage ?v d ?a phys (PAGE_PRESENT OR PAGE_RW OR PAGE_USER) = (True, v1)"
      "low_avail f \<le> Suc (low_avail (vm_frames v1))" "vm_depth v1 = vm_depth v"
      using pmm_low.map_page_total [OF _ _ _ nk, of ?v d phys "PAGE_PRESENT OR PAGE_RW OR PAGE_USER"] unfolding MapPage_def [symmetric] by auto
    have "fst (brk_pages d ps is (taken @ [(?a, phys)]) v1)"
      using Cons.IH [OF grow_one [OF Cons.prems(1) al ph(1) mp(1) False] Cons.prems(2) rest] Cons.prems(4,5) mp ph(2) by simp
    then show ?thesis using mapped False al ph(1) mp(1) by (simp add: Let_def)
  qed
qed simp

subsection \<open>The call\<close>

text \<open>The pages of a heap that ends at \<open>brk\<close> and ended at \<open>old\<close>.\<close>

definition heap_pages :: "u32 \<Rightarrow> u32 \<Rightarrow> nat set" where
  "heap_pages old brk = {(unat old + 4095) div 4096..<(unat brk + 4095) div 4096}"

lemma page_up_unat: "unat e + 4095 < 2 ^ 32 \<Longrightarrow> unat (page_down (e + PAGE_SIZE - 1)) = (unat e + 4095) div 4096 * 4096"
proof -
  assume "unat e + 4095 < 2 ^ 32"
  then have "unat (e + PAGE_SIZE - 1) = unat e + 4095" using unat_add_small [of e 4095] by (simp add: add_diff_eq [symmetric])
  then show ?thesis by (simp only: page_down_unat)
qed

lemma brk_range:
  assumes b: "USER_LOWER_BOUND \<le> old" "old < brk" "brk \<le> USER_UPPER_BOUND"
  defines "ps \<equiv> page_down (old + PAGE_SIZE - 1)" and "pe \<equiv> page_down (brk + PAGE_SIZE - 1)"
  defines "ks \<equiv> [0..<unat ((pe - ps) div PAGE_SIZE)]"
  shows "pe \<le> ps \<longleftrightarrow> heap_pages old brk = {}" "\<forall>i \<in> set ks. 0x10000000 \<le> unat ps + i * 4096 \<and> unat ps + i * 4096 < 0xC0000000"
    "segment_pages ps ks = heap_pages old brk" "length ks = card (heap_pages old brk)"
proof -
  have n: "0x10000000 \<le> unat old" "unat old < unat brk" "unat brk \<le> 0xC0000000" using b by (simp_all add: word_le_nat_alt word_less_nat_alt)
  define x y where "x = (unat old + 4095) div 4096" and "y = (unat brk + 4095) div 4096"
  have u: "unat ps = x * 4096" "unat pe = y * 4096" unfolding ps_def pe_def x_def y_def by (rule page_up_unat; use n in simp)+
  have xy: "x \<le> y" unfolding x_def y_def using n by (intro div_le_mono) simp
  have "0x10000000 div 4096 \<le> x" "y \<le> 0xC0000FFF div 4096" unfolding x_def y_def by (rule div_le_mono; use n in simp)+
  then have lo: "0x10000 \<le> x" and hi: "y \<le> 0xC0000" by simp_all
  show "pe \<le> ps \<longleftrightarrow> heap_pages old brk = {}" by (simp add: word_le_nat_alt u heap_pages_def x_def [symmetric] y_def [symmetric] not_less)
  have "ps \<le> pe" using xy by (simp add: word_le_nat_alt u)
  then have "unat (pe - ps) = (y - x) * 4096" by (simp add: unat_sub u diff_mult_distrib)
  then have ks: "ks = [0..<y - x]" by (simp add: ks_def unat_div_distrib)
  show "\<forall>i \<in> set ks. 0x10000000 \<le> unat ps + i * 4096 \<and> unat ps + i * 4096 < 0xC0000000" using lo hi by (auto simp: ks u)
  show "segment_pages ps ks = heap_pages old brk"
    unfolding segment_pages_def ks u heap_pages_def x_def [symmetric] y_def [symmetric] by (auto simp: image_iff intro!: bexI [of _ "_ - x"])
  show "length ks = card (heap_pages old brk)" by (simp add: ks heap_pages_def x_def y_def)
qed

lemma growing_result:
  assumes i: "image_inv K m0 D d g v0" and gr: "growing K m0 D d g (vm_mem v0) taken g' v"
  shows "g \<subseteq>\<^sub>m g'" "page_of w \<in> dom g \<Longrightarrow> user_byte (vm_mem v) d w = user_byte (vm_mem v0) d w"
    "page_of w \<in> dom g' - dom g \<Longrightarrow> user_byte (vm_mem v) d w = 0"
proof -
  have G: "image_inv K m0 D d g' v" "g' |` (- (\<lambda>(va, _). page_of va) ` set taken) = g"
    "\<forall>x. page_of x \<in> ran g \<longrightarrow> vm_mem v x = vm_mem v0 x" "\<forall>x. page_of x \<in> ran g' - ran g \<longrightarrow> vm_mem v x = 0"
    using gr by (simp_all add: growing_def)
  show le: "g \<subseteq>\<^sub>m g'" unfolding map_le_def G(2) [symmetric] restrict_map_def by (auto split: if_splits)
  show "user_byte (vm_mem v) d w = user_byte (vm_mem v0) d w" if w: "page_of w \<in> dom g"
  proof -
    obtain j where j: "g (page_of w) = Some j" using w by auto
    have j': "g' (page_of w) = Some j" using le w j by (simp add: map_le_def)
    have "j \<in> ran g" using j by (auto simp: ran_def)
    then show ?thesis using user_byte_cong [OF i G(1) j j'] G(3) by blast
  qed
  show "user_byte (vm_mem v) d w = 0" if w: "page_of w \<in> dom g' - dom g"
  proof -
    obtain j where j: "g' (page_of w) = Some j" using w by auto
    have "j \<notin> ran g"
    proof
      assume "j \<in> ran g"
      then obtain q where q: "g q = Some j" by (auto simp: ran_def)
      then have "g' q = Some j" using le by (metis domI map_le_def)
      then have "q = page_of w" using inj_onD [OF image_invD(5) [OF G(1)], of q "page_of w"] j by auto
      then show False using w q by auto
    qed
    moreover have "j \<in> ran g'" using j by (auto simp: ran_def)
    moreover let ?a = "GetPhysicalAddress (vm_mem v) d w"
    have "page_of (?a AND NOT 3) = j" using frame_of_word [of ?a] image_invD(7) [OF G(1) j] by simp
    ultimately have "vm_mem v (?a AND NOT 3) = 0" using G(4) by blast
    then show ?thesis by (simp add: user_byte_def load8_def)
  qed
qed

text \<open>The outcomes of the call: no change, an end in the last page, and the loop.\<close>

lemma brk_outcomes:
  assumes c: "Handle_sys_brk sv brk k = (r, k')" and hp: "heap (proc (sch k) (cur k)) = (st, old, mx)"
    and b: "USER_LOWER_BOUND \<le> old" "mx \<le> USER_UPPER_BOUND"
  defines "ps \<equiv> page_down (old + PAGE_SIZE - 1)" and "n \<equiv> (page_down (brk + PAGE_SIZE - 1) - page_down (old + PAGE_SIZE - 1)) div PAGE_SIZE"
    and "grown \<equiv> set_proc (cur k) (\<lambda>pc. pc\<lparr>heap := (st, brk, mx)\<rparr>)"
  obtains (none) "k' = k" "r = -1 \<or> r = old" "\<not> (old < brk \<and> brk \<le> mx \<and> (r = brk \<or> (\<forall>n. kmalloc sv n)))"
  | (last) "old < brk" "brk \<le> mx" "heap_pages old brk = {}" "r = brk" "k' = grown k"
  | (pages) ok v where "old < brk" "brk \<le> mx" "brk_pages (caller_dir k) ps [0..<unat n] [] (vm (sch k)) = (ok, v)"
      "r = (if ok then brk else -1)" "k' = (if ok then grown (set_vm v k) else set_vm v k)" "r = brk \<longleftrightarrow> ok"
proof (cases "old < brk \<and> brk \<le> mx")
  case False
  then have "k' = k \<and> (r = -1 \<or> r = old)"
    using c by (auto simp: Handle_sys_brk_def hp Let_def split: if_splits)
  then show ?thesis using False none by blast
next
  case True
  have top: "\<not> (-1 :: u32) \<le> USER_UPPER_BOUND" by code_simp
  have "brk \<le> USER_UPPER_BOUND" using True b(2) by (auto intro: order_trans)
  then have m1: "brk \<noteq> -1" "brk \<noteq> 0" "\<not> brk \<le> old" "\<not> mx < brk" "brk \<le> USER_UPPER_BOUND" using True top by auto
  note R = brk_range(1) [OF b(1) conjunct1 [OF True] m1(5)]
  show ?thesis
  proof (cases "heap_pages old brk = {}")
    case True
    then show ?thesis using c m1 \<open>old < brk \<and> brk \<le> mx\<close> R by (intro last) (auto simp: Handle_sys_brk_def hp Let_def grown_def)
  next
    case False
    note e = False [folded R]
    show ?thesis
    proof (cases "kmalloc sv (n * 8)")
      case False
      then have "k' = k" "r = -1" using c m1 e by (simp_all add: Handle_sys_brk_def hp Let_def n_def)
      then show ?thesis using False m1(1) by (intro none) auto
    next
      case True
      obtain ok v where l: "brk_pages (caller_dir k) ps [0..<unat n] [] (vm (sch k)) = (ok, v)" by fastforce
      then have "(r, k') = (if ok then (brk, grown (set_vm v k)) else (-1, set_vm v k))"
        using c m1 e True unfolding Handle_sys_brk_def hp Let_def prod.case ps_def n_def grown_def by (simp only: if_False if_True not_True_eq_False prod.case)
      then show ?thesis using \<open>old < brk \<and> brk \<le> mx\<close> l m1(1) by (intro pages) (auto split: if_splits)
    qed
  qed
qed

text \<open>
  Property C8. Growing the heap is all or nothing. When the heap of the calling process lies in user space, \<^verbatim>\<open>sys_brk\<close> keeps the
  pages, the frames and every byte the process had. It answers the requested end exactly when the heap now ends there, and then
  every page of the new heap is mapped, the ones that were not before to frames of their own, filled with zeros; in every other case the
  heap and the mapped pages are the old ones, whatever was already mapped having been taken back, and the answer is \<open>-1\<close> or the old end.
  It does succeed when the end is within the limit of the process, the kernel heap has room for the list and there are two free
  frames per page.
\<close>

theorem sys_brk_all_or_nothing:
  assumes sp: "user_space K m0 D g k" and hp: "heap (proc (sch k) (cur k)) = (st, old, mx)"
    and b: "USER_LOWER_BOUND \<le> old" "mx \<le> USER_UPPER_BOUND" and c: "Handle_sys_brk sv brk k = (r, k')"
  defines "grows \<equiv> old < brk \<and> brk \<le> mx \<and> r = brk"
  shows "(\<exists>g'. user_space K m0 D g' k' \<and> g \<subseteq>\<^sub>m g' \<and>
      (\<forall>w. unat w div 4096 \<in> dom g \<longrightarrow> user_byte (mem k') (caller_dir k) w = user_byte (mem k) (caller_dir k) w) \<and>
      (if grows then heap (proc (sch k') (cur k)) = (st, brk, mx) \<and> dom g' = dom g \<union> heap_pages old brk \<and>
         (\<forall>w. unat w div 4096 \<in> heap_pages old brk - dom g \<longrightarrow> user_byte (mem k') (caller_dir k) w = 0)
       else g' = g \<and> heap (proc (sch k') (cur k)) = (st, old, mx) \<and> (r = -1 \<or> r = old))) \<and>
    (old < brk \<and> brk \<le> mx \<and> (\<forall>n. kmalloc sv n) \<and> 2 * card (heap_pages old brk) \<le> low_avail (vm_frames (vm (sch k))) \<and>
      \<not> 0 < sint (vm_depth (vm (sch k))) \<longrightarrow> r = brk)"
proof -
  note d = user_spaceD [OF sp]
  have fields: "proc (sch (set_vm v k)) p = proc (sch k) p" "mem (set_vm v k) = vm_mem v"
    "mem (set_proc p f (set_vm v k)) = vm_mem v" "heap (proc (sch (set_proc p (\<lambda>pc. pc\<lparr>heap := h\<rparr>) (set_vm v k))) p) = h" for p f v h
    by (simp_all add: set_vm_def set_proc_def upd_proc_def)
  have cp: "cur (set_vm v k) = cur k" "cur (set_proc p f (set_vm v k)) = cur k" for v p f
    by (simp_all add: set_vm_def set_proc_def upd_proc_def GetCurrentProcess_def)
  have keep: "user_space K m0 D g' (set_vm v k)" "user_space K m0 D g' (set_proc (cur k) (\<lambda>pc. pc\<lparr>heap := h\<rparr>) (set_vm v k))"
    if "image_inv K m0 D (caller_dir k) g' v" "maps_exactly g' (vm_mem v) (caller_dir k)" for g' v h
    unfolding user_space_def cp using that d(1) by (simp_all add: set_vm_def set_proc_def upd_proc_def)
  have same: "set_vm (vm (sch k)) k = k" by (simp add: set_vm_def)
  from c hp b show ?thesis
  proof (cases rule: brk_outcomes)
    case none
    then show ?thesis using sp hp unfolding grows_def by (intro conjI exI [of _ g]) auto
  next
    case last
    then show ?thesis using keep [OF d(2,3)] fields(3,4) [of _ _ "vm (sch k)"] unfolding same grows_def by (intro conjI exI [of _ g]) auto
  next
    case (pages ok v)
    have br: "brk \<le> USER_UPPER_BOUND" using pages(2) b(2) by simp
    note R = brk_range [OF b(1) pages(1) br]
    have gr: "growing K m0 D (caller_dir k) g (mem k) [] g (vm (sch k))" using d(2,3) by (simp add: growing_def restrict_map_def)
    have tot: "ok" if "2 * card (heap_pages old brk) \<le> low_avail (vm_frames (vm (sch k)))" "\<not> 0 < sint (vm_depth (vm (sch k)))"
      using brk_pages_total [OF gr page_down_unat(2) R(2) _ that(2)] that(1) unfolding R(4) pages(3) by simp
    note L = brk_pages_grow [OF gr pages(3) page_down_unat(2) R(2), unfolded R(3)]
    have "\<exists>g' taken. growing K m0 D (caller_dir k) g (mem k) taken g' v \<and> (if ok then dom g' = dom g \<union> heap_pages old brk else g' = g)"
      using L by (cases ok) auto
    then obtain g' taken where g': "growing K m0 D (caller_dir k) g (mem k) taken g' v" "if ok then dom g' = dom g \<union> heap_pages old brk else g' = g" by blast
    note S = growing_result [OF d(2) g'(1)] and U = keep [of g' v]
    have i: "image_inv K m0 D (caller_dir k) g' v" "maps_exactly g' (vm_mem v) (caller_dir k)" using g'(1) by (simp_all add: growing_def)
    have "grows \<longleftrightarrow> ok" using pages(1,2,6) by (simp add: grows_def)
    then show ?thesis using pages(4,5,6) tot g'(2) S U [OF i] hp
      by (intro conjI exI [of _ g']) (auto simp: fields split: if_splits)
  qed
qed

text \<open>A process whose heap ends with its second page grows it by a page and a byte.\<close>

definition heap_kernel :: "(nat \<times> u8 list, nat, unit, unit) kernel" where
  "heap_kernel = set_proc 0x200000 (\<lambda>pc. pc\<lparr>heap := (0x50000000, 0x50002000, 0x50010000)\<rparr>) typed"

theorem sys_brk_all_or_nothing_witness:
  "\<exists>k'. Handle_sys_brk sample_services 0x50003001 heap_kernel = (0x50003001, k') \<and>
     heap (proc (sch k') 0x200000) = (0x50000000, 0x50003001, 0x50010000) \<and> user_byte (mem k') 0x9000 0x50002345 = 0"
proof -
  have c: "cur heap_kernel = 0x200000" using typed_facts(1)
    by (simp add: heap_kernel_def set_proc_def upd_proc_def GetCurrentProcess_def split: if_splits)
  have hp: "heap (proc (sch heap_kernel) 0x200000) = (0x50000000, 0x50002000, 0x50010000)" and d: "page_directory (proc (sch heap_kernel) 0x200000) = 0x9000"
    and v: "vm (sch heap_kernel) = vm (sch typed)" using typed_facts(2,3) by (simp_all add: heap_kernel_def set_proc_def upd_proc_def)
  have sp: "user_space {} (\<lambda>_. 0) {0x9000} user_map heap_kernel" using typed_facts(1,2,3,5) unfolding user_space_def c d v by simp
  have vt: "vm (sch typed) = user_vm" by (simp add: typed_def sample_kernel_def upd_proc_def)
  have pg: "heap_pages 0x50002000 0x50003001 = {0x50002, 0x50003}" by (auto simp: heap_pages_def)
  obtain r k' where r: "Handle_sys_brk sample_services 0x50003001 heap_kernel = (r, k')" by fastforce
  note W = sys_brk_all_or_nothing [OF sp, unfolded c d, OF hp _ _ r]
  have eq: "r = 0x50003001" using W by (simp add: pg v vt user_vm_def elf_pmm_facts sample_services_def)
  have b: "USER_LOWER_BOUND \<le> 0x50002000" "(0x50010000 :: u32) \<le> USER_UPPER_BOUND" by simp_all
  have g: "(0x50002000 :: u32) < 0x50003001 \<and> (0x50003001 :: u32) \<le> 0x50010000 \<and> (0x50003001 :: u32) = 0x50003001" by simp
  from conjunct1 [OF W [OF b], unfolded eq if_P [OF g]]
  have h: "heap (proc (sch k') 0x200000) = (0x50000000, 0x50003001, 0x50010000)"
    and z: "\<forall>w. unat w div 4096 \<in> heap_pages 0x50002000 0x50003001 - dom user_map \<longrightarrow> user_byte (mem k') 0x9000 w = 0" by blast+
  have "unat (0x50002345 :: u32) div 4096 \<in> {0x50002, 0x50003} - dom user_map" by (simp add: user_map_def)
  then show ?thesis using r h z [unfolded pg] unfolding eq by blast
qed

end
