(* ===== verification/Spec2Isabelle.thy ===== *)
theory Spec2Isabelle
  imports CString Fat_Chain Audio_Mixer Msdos_Part User_Heap
begin

text \<open>
  A verification development for the kernel of Hashx86, a 32-bit x86 operating system in C++. All source paths are
  relative to \<^verbatim>\<open>src/\<close>.

  \<^bold>\<open>The program.\<close> The kernel manages physical frames (\<^verbatim>\<open>core/pmm.cpp\<close>), a guarded zone of kernel stacks
  (\<^verbatim>\<open>core/kstack.cpp\<close>) and two-level page tables (\<^verbatim>\<open>core/paging.cpp\<close>). The scheduler (\<^verbatim>\<open>core/scheduler.cpp\<close>) keeps processes,
  each with a page directory, and threads, each with a kernel stack, in intrusive lists (\<^verbatim>\<open>include/utils/linkedList.h\<close>). The ELF
  loader (\<^verbatim>\<open>core/elf.cpp\<close>) reads a program through the file layer (\<^verbatim>\<open>core/filesystem/File.cpp\<close>,
  \<^verbatim>\<open>core/filesystem/FatFs/FatFsWrapper.cpp\<close>), which sits on FatFs, the disk glue (\<^verbatim>\<open>core/filesystem/FatFs/diskio.cpp\<close>), the MBR partition
  table (\<^verbatim>\<open>core/filesystem/msdospart.cpp\<close>) and the ATA driver (\<^verbatim>\<open>core/drivers/ata.cpp\<close>). Programs enter the kernel by system calls
  (\<^verbatim>\<open>core/syscalls.cpp\<close>), which use all of these and the keyboard and mouse drivers. The audio mixer and the C string library stand
  beside them.

  \<^bold>\<open>Theories.\<close> Each component is a record or a set of datatypes for its state and one function per operation, named as in the
  source; a later theory imports those it calls.

  \<^item> \<open>Prelude\<close>: the integer types \<open>u8\<close> to \<open>u64\<close>, \<open>s32\<close>, collections of rewrite rules, lemmas on words and lists. \<open>Bitmap\<close>: bitmaps
    of 32-bit words and the locale \<open>slot_set\<close>, what a bitmap of slots promises to an allocator; the frames and the kernel
    stacks are its two instances.
  \<^item> \<open>Pmm\<close>, \<open>Pmm_Alloc\<close>: \<^verbatim>\<open>core/pmm.cpp\<close>. The record \<open>pmm_info\<close> is the file's globals. In every reachable state the
    counter is the number of used frames; allocation of a frame, of a low frame and of a run refine the choice of the least free one;
    releases undo them, except where the code protects or miscounts.
  \<^item> \<open>Kstack\<close>: \<^verbatim>\<open>core/kstack.cpp\<close>. Stacks handed out are free, disjoint, inside the zone and have a guard page below.
  \<^item> \<open>Paging\<close>: \<^verbatim>\<open>core/paging.cpp\<close>. Physical memory is a function from word addresses to words, and page tables live in it.
    The invariant \<open>vm_inv\<close> says that the tables of all directories are separate; \<open>MapPage\<close> changes the translation of one page in one
    directory, new directories share the kernel ranges only, and start-up builds the identity map. The locales
    \<open>low_frame_source\<close> and \<open>low_frame_supply\<close> are what paging needs of a frame allocator; \<^verbatim>\<open>pmm_alloc_block_low\<close> is the instance.
  \<^item> \<open>Linked_List\<close>: the list template on a heap of nodes; every operation refines the operation on sequences. The scheduler's
    model uses sequences for this reason, its FIFO use being the locale \<open>fifo\<close>.
  \<^item> \<open>User_Stack\<close>, \<open>Scheduler\<close>, \<open>Sched_Inv\<close>, \<open>Sched_Proc\<close>, \<open>Sched_Fair\<close>: \<^verbatim>\<open>core/scheduler.cpp\<close> and \<^verbatim>\<open>include/core/process_types.h\<close>. The
    record \<open>sched\<close> holds the queues, the thread and process objects by address, the saved registers and the memory. \<open>sched_step\<close> is the relation
    of all operations; its reachable states satisfy \<open>sched_inv\<close>. Further: killing a process ends exactly its threads, a ready
    thread runs after at most as many switches as there are threads ahead of it, sleepers wake with the first switch
    at which the 64-bit clock has reached the 32-bit wake time they stored.
  \<^item> \<open>CString\<close>: \<^verbatim>\<open>stdlib/string\<close>, on a byte memory with 32-bit addresses; loops without a bound of their own are
    \<open>partial_function\<close>s, and the theorems state that they return.
  \<^item> \<open>Fat_Volume\<close>, \<open>Fat_Table\<close>, \<open>Fat_Chain\<close>: \<^verbatim>\<open>diskio.cpp\<close> and, of \<^verbatim>\<open>ff.c\<close>, the sector window, the FAT entries of
    12, 16 and 32 bits (FAT12 entries straddle sectors) and the cluster chains: entry round trip, what \<^verbatim>\<open>create_chain\<close> and
    \<^verbatim>\<open>remove_chain\<close> do to chains and free count, and that \<^verbatim>\<open>remove_chain\<close> ends on any table.
  \<^item> \<open>Ata_Driver\<close>: the driver as a program over I/O ports. The locale \<open>ata_device\<close> states what the driver relies on of a disk
    that obeys the PIO protocol; an explicit port automaton is shown to be one, and on it the driver is the sector
    store that the layers above assume. Polling loops have the source's bounds of polls.
  \<^item> \<open>Msdos_Part\<close>: creation and reading of partition tables; whatever the first sector holds, a mounted partition is inside the disk.
  \<^item> \<open>File_Layer\<close>: the table of open slots, paths, \<^verbatim>\<open>File\<close> objects and descriptor tables, over FatFs as a parameter.
  \<^item> \<open>Elf_Loader\<close>: headers, classification, mapping, copying and zeroing. \<open>image_inv\<close> describes an address space under construction: which
    page has which frame, apart from all other memory. A loaded program sees exactly its file's bytes; a failed load leaves
    no process.
  \<^item> \<open>User_Memory\<close>: the range check and the copies of \<^verbatim>\<open>core/syscalls.cpp\<close>: a copy succeeds exactly on mapped user pages and
    moves exactly its bytes.
  \<^item> \<open>Syscalls\<close>, \<open>Syscall_Inv\<close>, \<open>Syscall_Io\<close>, \<open>User_Heap\<close>: all system call handlers and the dispatcher over the record \<open>kernel\<close>, which
    joins the states above. Every call keeps the scheduler's invariant; reading standard input, and writing and reading back a file,
    deliver the right bytes through page tables and file layer; growing the heap maps all pages or none.
  \<^item> \<open>Ps2_Ports\<close>, \<open>Keyboard\<close>, \<open>Mouse\<close>: the drivers' interrupt handlers and queues. The locale \<open>bounded_queue\<close> is a queue that
    keeps the latest characters; the keyboard's ring and the standard input of a process are its instances.
  \<^item> \<open>Audio_Mixer\<close>: streams, buffers and their owner; the output is the saturated sum of the streams.

  \<^bold>\<open>Conventions.\<close> Integers have the width of the source and wrap; \<open>null_ptr\<close> is address 0. Errors are the values the source returns. A loop is structural or
  has a termination proof; where it may run for ever it is a \<open>partial_function\<close> into \<open>option\<close>, and \<open>None\<close> means that it does not return
  (a directory scan over a FatFs that never reports the end, the reset call). Interrupts are disabled while the
  modelled operations run, so each is one step. Objects made by \<^verbatim>\<open>new\<close> are kept by address.

  \<^bold>\<open>Parameters and what is assumed of them.\<close> Code that is third-party or outside the kernel is an argument of the
  definitions that use it. The kernel heap returns an address that is not in use, or null (\<open>fresh_objects\<close>, \<open>allocator\<close>). FatFs's file and
  directory functions are the record \<open>fatfs_api\<close>; \<open>reads_bytes\<close> says that seeks and reads inside a file succeed on a stream that has met no error,
  \<open>stores_bytes\<close> moreover that a successful write stores as many bytes as it reports, which are all of them when the volume has the space (a
  write may stop early or fail), \<open>counts_handles\<close> that FatFs knows which streams are open, and \<open>confined\<close> that formatting, which may
  fail, writes inside its partition. The ports of the disk, of the PS/2 controller and the sound device are functions or
  state machines; the desktop is a part of the record \<open>services\<close>. Each law is shown to hold of a concrete instance where a
  theorem is evaluated on it.

  \<^bold>\<open>Not modelled.\<close> FatFs's directories, files and mounting and its code-page tables, the TLSF allocator, the font and JSON libraries: third-party
  code. Interrupt and descriptor tables, start-up, power, graphics modes, PCI, the sound hardware and kernel modules: sequences of hardware accesses whose
  effect the sources do not define. The desktop, its widgets and drawing, floating-point mathematics, user programs, tools and tests: outside
  the kernel's core. The cache of translations (TLB) is not part of the memory model: a translation is read from the tables.
\<close>

end
